(* ===== verification/Prelude.thy ===== *)
theory Prelude
  imports Main "HOL-Library.Word" "HOL-Library.Product_Lexorder"
begin

unbundle bit_operations_syntax

text \<open>
  The types, results and byte codecs that every component shares.

  Machine integers keep the width they have in the C++ code: \<open>uint8_t\<close>, \<open>uint16_t\<close>,
  \<open>uint32_t\<close> and \<open>size_t\<close> are words of 8, 16, 32 and 64 bits.  A byte sequence (the
  readable area of an \<open>asio::streambuf\<close>) is a list of bytes.  The program reads and writes
  integers through \<open>reinterpret_cast\<close> on packed structs, in the byte order of the host; the
  hosts it is built for are little endian, and \<open>put16\<close>, \<open>put32\<close>, \<open>get16\<close> and
  \<open>get32\<close> fix that order.

  A function of the code that can throw returns a value of \<open>exn + 'a\<close>: \<open>Inl\<close> is the
  exception that leaves the handler.
\<close>

type_synonym u8 = "8 word"
type_synonym u16 = "16 word"
type_synonym u32 = "32 word"
type_synonym u64 = "64 word"
type_synonym bytes = "8 word list"

named_theorems codec_simps \<open>encoders, decoders and the lengths of what they produce\<close>
named_theorems handler_defs \<open>definitions of the handlers a step relation runs\<close>

subsection \<open>Results\<close>

text \<open>
  What can be thrown: calling an empty \<open>std::function\<close>, \<open>std::out_of_range\<close> from
  \<open>substr\<close>, \<open>std::length_error\<close> from a stream buffer, the \<open>asio::system_error\<close> of
  a throwing socket operation; and two traps, the dereference of a null \<open>shared_ptr\<close> and
  an integer division by zero.  \<open>NoReturn\<close> stands for a handler that loops forever.
\<close>

datatype exn =
  BadFunctionCall | NullPointer | OutOfRange | LengthError | SystemError | DivideByZero | NoReturn

type_synonym 'a result = "exn + 'a"

fun and_then :: "'a result \<Rightarrow> ('a \<Rightarrow> 'b result) \<Rightarrow> 'b result" where
  "and_then (Inl e) f = Inl e"
| "and_then (Inr x) f = f x"

lemma and_then_eq_Inr: "and_then r f = Inr y \<longleftrightarrow> (\<exists>x. r = Inr x \<and> f x = Inr y)"
  by (cases r) auto

lemma and_then_split:
  "P (and_then r f) \<longleftrightarrow> (\<forall>e. r = Inl e \<longrightarrow> P (Inl e)) \<and> (\<forall>x. r = Inr x \<longrightarrow> P (f x))"
  by (cases r) auto

text \<open>A fold that stops at the first exception, as a loop does.\<close>

fun fold_result :: "('x \<Rightarrow> 's \<Rightarrow> 's result) \<Rightarrow> 'x list \<Rightarrow> 's \<Rightarrow> 's result" where
  "fold_result f [] s = Inr s"
| "fold_result f (x # xs) s = and_then (f x s) (fold_result f xs)"

lemma fold_result_invariant:
  assumes "fold_result f xs s = Inr t" and "I s"
    and "\<And>x s t. x \<in> set xs \<Longrightarrow> I s \<Longrightarrow> f x s = Inr t \<Longrightarrow> I t"
  shows "I t"
  using assms by (induction xs arbitrary: s) (auto simp: and_then_eq_Inr)

lemma fold_invariant:
  assumes "I s" and "\<And>x s. x \<in> set xs \<Longrightarrow> I s \<Longrightarrow> I (f x s)"
  shows "I (fold f xs s)"
  using assms by (induction xs arbitrary: s) auto

subsection \<open>Little-endian integers\<close>

definition put16 :: "u16 \<Rightarrow> bytes" where
  "put16 w = [ucast w, ucast (drop_bit 8 w)]"

definition put32 :: "u32 \<Rightarrow> bytes" where
  "put32 w = [ucast w, ucast (drop_bit 8 w), ucast (drop_bit 16 w), ucast (drop_bit 24 w)]"

definition get16 :: "bytes \<Rightarrow> nat \<Rightarrow> u16" where
  "get16 bs i = ucast (bs ! i) OR push_bit 8 (ucast (bs ! (i + 1)))"

definition get32 :: "bytes \<Rightarrow> nat \<Rightarrow> u32" where
  "get32 bs i = ucast (bs ! i) OR push_bit 8 (ucast (bs ! (i + 1)))
     OR push_bit 16 (ucast (bs ! (i + 2))) OR push_bit 24 (ucast (bs ! (i + 3)))"

lemma length_put16 [simp, codec_simps]: "length (put16 w) = 2"
  by (simp add: put16_def)

lemma length_put32 [simp, codec_simps]: "length (put32 w) = 4"
  by (simp add: put32_def)

lemma join16: "(ucast (ucast w :: u8) :: u16) OR push_bit 8 (ucast (ucast (drop_bit 8 w) :: u8)) = w"
  by (rule bit_word_eqI) (auto simp: bit_simps)

lemma join32:
  "(ucast (ucast w :: u8) :: u32) OR push_bit 8 (ucast (ucast (drop_bit 8 w) :: u8))
     OR push_bit 16 (ucast (ucast (drop_bit 16 w) :: u8))
     OR push_bit 24 (ucast (ucast (drop_bit 24 w) :: u8)) = w"
proof (rule bit_word_eqI)
  fix n assume "n < LENGTH(32)"
  then have "n < 8 \<or> n - 8 < 8 \<or> n - 16 < 8 \<or> 24 + (n - 24) = n" by simp arith
  with \<open>n < LENGTH(32)\<close> show "bit ((ucast (ucast w :: u8) :: u32)
     OR push_bit 8 (ucast (ucast (drop_bit 8 w) :: u8))
     OR push_bit 16 (ucast (ucast (drop_bit 16 w) :: u8))
     OR push_bit 24 (ucast (ucast (drop_bit 24 w) :: u8))) n = bit w n"
    by (auto simp: bit_simps)
qed

text \<open>An integer written at offset \<open>length pre\<close> is read back from there, whatever follows.\<close>

lemma get16_put16 [codec_simps]: "i = length pre \<Longrightarrow> get16 (pre @ put16 w @ post) i = w"
  by (simp add: get16_def put16_def nth_append join16)

lemma get32_put32 [codec_simps]: "i = length pre \<Longrightarrow> get32 (pre @ put32 w @ post) i = w"
  by (simp add: get32_def put32_def nth_append join32)

lemma put32_eq_iff [simp]: "put32 v = put32 w \<longleftrightarrow> v = w"
  by (metis get32_put32 [of 0 "[]" _ "[]"] append_Nil append_Nil2 list.size(3))

end
