(* ===== verification/Protocol.thy ===== *)
theory Protocol
  imports Prelude
begin

text \<open>
  The wire protocol of \<^verbatim>\<open>include/protocol.h\<close>: the command codes, the packed structs
  of both directions (agent to relay, relay to agent), and the parse both sides do on the first
  bytes of a packet (\<open>switch (*p)\<close>, then the size check of each branch, then the
  \<open>reinterpret_cast\<close>).  A packet may be longer than its struct: the rest is the payload
  of a DATA message.  \<open>message_codec\<close> states what both parses promise; \<open>a2r\<close> and
  \<open>r2a\<close> are its two interpretations.
\<close>

subsection \<open>Agent to relay\<close>

definition A2R_BIND :: u8 where "A2R_BIND = 0"
definition A2R_UNBIND :: u8 where "A2R_UNBIND = 1"
definition A2R_DATA :: u8 where "A2R_DATA = 2"
definition A2R_DISCONNECT :: u8 where "A2R_DISCONNECT = 3"
definition A2R_SESSION :: u8 where "A2R_SESSION = 4"

lemmas a2r_cmds = A2R_BIND_def A2R_UNBIND_def A2R_DATA_def A2R_DISCONNECT_def A2R_SESSION_def

text \<open>The packed structs of namespace \<open>A2R\<close>: \<open>port\<close>, and \<open>id\<close> where there is one.\<close>

datatype a2r =
  A2R_bind u16
| A2R_unbind u16
| A2R_data u16 u32
| A2R_disconnect u16 u32
| A2R_session u16 u32

fun a2r_sizeof :: "a2r \<Rightarrow> nat" where
  "a2r_sizeof (A2R_bind port) = 3"
| "a2r_sizeof (A2R_unbind port) = 3"
| "a2r_sizeof (A2R_data port uid) = 7"
| "a2r_sizeof (A2R_disconnect port uid) = 7"
| "a2r_sizeof (A2R_session port uid) = 7"

fun a2r_encode :: "a2r \<Rightarrow> bytes" where
  "a2r_encode (A2R_bind port) = A2R_BIND # put16 port"
| "a2r_encode (A2R_unbind port) = A2R_UNBIND # put16 port"
| "a2r_encode (A2R_data port uid) = A2R_DATA # put16 port @ put32 uid"
| "a2r_encode (A2R_disconnect port uid) = A2R_DISCONNECT # put16 port @ put32 uid"
| "a2r_encode (A2R_session port uid) = A2R_SESSION # put16 port @ put32 uid"

text \<open>The parse of the relay: an empty packet, an unknown command and a packet shorter than
  the struct of its command are ignored.\<close>

definition a2r_decode :: "bytes \<Rightarrow> a2r option" where
  "a2r_decode bs =
     (if length bs < 1 then None
      else if bs ! 0 = A2R_BIND then
        (if length bs < 3 then None else Some (A2R_bind (get16 bs 1)))
      else if bs ! 0 = A2R_UNBIND then
        (if length bs < 3 then None else Some (A2R_unbind (get16 bs 1)))
      else if bs ! 0 = A2R_DATA then
        (if length bs < 7 then None else Some (A2R_data (get16 bs 1) (get32 bs 3)))
      else if bs ! 0 = A2R_DISCONNECT then
        (if length bs < 7 then None else Some (A2R_disconnect (get16 bs 1) (get32 bs 3)))
      else if bs ! 0 = A2R_SESSION then
        (if length bs < 7 then None else Some (A2R_session (get16 bs 1) (get32 bs 3)))
      else None)"

subsection \<open>Relay to agent\<close>

definition R2A_BIND :: u8 where "R2A_BIND = 0"
definition R2A_UNBIND :: u8 where "R2A_UNBIND = 1"
definition R2A_DATA :: u8 where "R2A_DATA = 2"
definition R2A_CONNECT :: u8 where "R2A_CONNECT = 3"
definition R2A_DISCONNECT :: u8 where "R2A_DISCONNECT = 4"

lemmas r2a_cmds = R2A_BIND_def R2A_UNBIND_def R2A_DATA_def R2A_CONNECT_def R2A_DISCONNECT_def

text \<open>The packed structs of namespace \<open>R2A\<close>: \<open>port\<close>, then \<open>error_code\<close>, or
  \<open>id\<close> and, for \<open>connect\<close>, \<open>usr_ip\<close> and \<open>usr_port\<close>.\<close>

datatype r2a =
  R2A_bind u16 u32
| R2A_unbind u16 u32
| R2A_data u16 u32
| R2A_connect u16 u32 u32 u16
| R2A_disconnect u16 u32

fun r2a_sizeof :: "r2a \<Rightarrow> nat" where
  "r2a_sizeof (R2A_bind port err) = 7"
| "r2a_sizeof (R2A_unbind port err) = 7"
| "r2a_sizeof (R2A_data port uid) = 7"
| "r2a_sizeof (R2A_connect port uid ip uport) = 13"
| "r2a_sizeof (R2A_disconnect port uid) = 7"

fun r2a_encode :: "r2a \<Rightarrow> bytes" where
  "r2a_encode (R2A_bind port err) = R2A_BIND # put16 port @ put32 err"
| "r2a_encode (R2A_unbind port err) = R2A_UNBIND # put16 port @ put32 err"
| "r2a_encode (R2A_data port uid) = R2A_DATA # put16 port @ put32 uid"
| "r2a_encode (R2A_connect port uid ip uport) =
     R2A_CONNECT # put16 port @ put32 uid @ put32 ip @ put16 uport"
| "r2a_encode (R2A_disconnect port uid) = R2A_DISCONNECT # put16 port @ put32 uid"

definition r2a_decode :: "bytes \<Rightarrow> r2a option" where
  "r2a_decode bs =
     (if length bs < 1 then None
      else if bs ! 0 = R2A_BIND then
        (if length bs < 7 then None else Some (R2A_bind (get16 bs 1) (get32 bs 3)))
      else if bs ! 0 = R2A_UNBIND then
        (if length bs < 7 then None else Some (R2A_unbind (get16 bs 1) (get32 bs 3)))
      else if bs ! 0 = R2A_DATA then
        (if length bs < 7 then None else Some (R2A_data (get16 bs 1) (get32 bs 3)))
      else if bs ! 0 = R2A_CONNECT then
        (if length bs < 13 then None
         else Some (R2A_connect (get16 bs 1) (get32 bs 3) (get32 bs 7) (get16 bs 11)))
      else if bs ! 0 = R2A_DISCONNECT then
        (if length bs < 7 then None else Some (R2A_disconnect (get16 bs 1) (get32 bs 3)))
      else None)"

subsection \<open>Reading a struct from a packet\<close>

text \<open>Four or two bytes read at an offset and written back are the bytes of the packet.\<close>

lemma split16: "put16 (ucast (a::u8) OR push_bit 8 (ucast (b::u8))) = [a, b]"
  unfolding put16_def
  by (simp, intro conjI; rule bit_word_eqI; auto simp: bit_simps dest: bit_imp_le_length)

lemma split32:
  "put32 (ucast (a::u8) OR push_bit 8 (ucast (b::u8)) OR push_bit 16 (ucast (c::u8))
     OR push_bit 24 (ucast (d::u8))) = [a, b, c, d]"
  unfolding put32_def
  by (simp, intro conjI; rule bit_word_eqI; auto simp: bit_simps dest: bit_imp_le_length)

lemma take2: "i + 2 \<le> length bs \<Longrightarrow> take 2 (drop i bs) = [bs ! i, bs ! (i + 1)]"
  by (simp add: take_Suc_conv_app_nth eval_nat_numeral)

lemma take4: "i + 4 \<le> length bs \<Longrightarrow>
    take 4 (drop i bs) = [bs ! i, bs ! (i + 1), bs ! (i + 2), bs ! (i + 3)]"
  by (simp add: take_Suc_conv_app_nth eval_nat_numeral)

lemma put16_get16: "i + 2 \<le> length bs \<Longrightarrow> put16 (get16 bs i) = take 2 (drop i bs)"
  by (simp only: get16_def split16 take2)

lemma put32_get32: "i + 4 \<le> length bs \<Longrightarrow> put32 (get32 bs i) = take 4 (drop i bs)"
  by (simp only: get32_def split32 take4)

lemma take_parts: "take (m + n) xs = take m xs @ take n (drop m xs)"
  by (rule take_add)

lemma take1: "0 < length bs \<Longrightarrow> take 1 bs = [bs ! 0]"
  by (cases bs) auto

lemma struct3: "3 \<le> length bs \<Longrightarrow> take 3 bs = bs ! 0 # put16 (get16 bs 1)"
proof -
  assume "3 \<le> length bs"
  then have "0 < length bs" and "1 + 2 \<le> length bs" by linarith+
  from this(1) have "take 1 bs = [bs ! 0]" by (rule take1)
  moreover from \<open>1 + 2 \<le> length bs\<close> have "put16 (get16 bs 1) = take 2 (drop 1 bs)"
    by (rule put16_get16)
  moreover have "take 3 bs = take 1 bs @ take 2 (drop 1 bs)"
    using take_parts [of 1 2 bs] by (simp add: numeral_3_eq_3)
  ultimately show ?thesis by simp
qed

lemma struct7: "7 \<le> length bs \<Longrightarrow> take 7 bs = bs ! 0 # put16 (get16 bs 1) @ put32 (get32 bs 3)"
  using take_parts [of 3 4 bs] by (simp add: put32_get32 struct3)

lemma struct13: "13 \<le> length bs \<Longrightarrow> take 13 bs = bs ! 0 # put16 (get16 bs 1) @ put32 (get32 bs 3)
    @ put32 (get32 bs 7) @ put16 (get16 bs 11)"
  using take_parts [of 7 6 bs] take_parts [of 4 2 "drop 7 bs"]
  by (simp add: put32_get32 put16_get16 struct7)

text \<open>The fields of a struct, read back from where it was written.\<close>

lemma field_port: "get16 (c # put16 p @ r) (Suc 0) = p"
  using get16_put16 [of 1 "[c]" p r] by simp

lemma field_port_end: "get16 (c # put16 p) (Suc 0) = p"
  using field_port [of c p "[]"] by simp

lemma field_id: "get32 (c # put16 p @ put32 u @ r) 3 = u"
  using get32_put32 [of 3 "c # put16 p" u r] by simp

lemma field_ip: "get32 (c # put16 p @ put32 u @ put32 v @ r) 7 = v"
  using get32_put32 [of 7 "c # put16 p @ put32 u" v r] by simp

lemma field_uport: "get16 (c # put16 p @ put32 u @ put32 v @ put16 q @ r) 11 = q"
  using get16_put16 [of 11 "c # put16 p @ put32 u @ put32 v" q r] by simp

lemmas fields = field_port field_port_end field_id field_ip field_uport

subsection \<open>The contract of a codec\<close>

locale message_codec =
  fixes enc :: "'m \<Rightarrow> bytes" and dec :: "bytes \<Rightarrow> 'm option" and sz :: "'m \<Rightarrow> nat"
  assumes sz_pos: "0 < sz m"
    and enc_len: "length (enc m) = sz m"
    and dec_enc: "dec (enc m @ rest) = Some m"
    and dec_sound: "dec bs = Some m \<Longrightarrow> sz m \<le> length bs \<and> take (sz m) bs = enc m"
begin

text \<open>A packet that parses is its struct followed by the payload.\<close>

lemma dec_split: "dec bs = Some m \<Longrightarrow> bs = enc m @ drop (sz m) bs"
  using dec_sound by (metis append_take_drop_id)

lemma dec_iff: "dec bs = Some m \<longleftrightarrow> (\<exists>rest. bs = enc m @ rest)"
  using dec_split dec_enc by blast

lemma payload: "drop (sz m) (enc m @ rest) = rest"
  by (simp add: enc_len [symmetric])

text \<open>No message is the beginning of another: the code is prefix free.\<close>

lemma prefix_free: "enc m @ r = enc m' @ r' \<Longrightarrow> m = m' \<and> r = r'"
  by (metis dec_enc option.inject payload)

text \<open>A packet cut inside its struct is refused.\<close>

lemma truncated: "n < sz m \<Longrightarrow> dec (take n (enc m)) = None"
proof (rule ccontr)
  assume n: "n < sz m" and "dec (take n (enc m)) \<noteq> None"
  then obtain m' where m': "dec (take n (enc m)) = Some m'" by blast
  then have "enc m = enc m' @ drop (sz m') (take n (enc m)) @ drop n (enc m)"
    using dec_split by (metis append_assoc append_take_drop_id)
  then have "m = m'" using prefix_free [of m "[]" m'] by simp
  with m' have "sz m \<le> length (take n (enc m))" using dec_sound by blast
  with n show False by (simp add: enc_len)
qed

lemma dec_Nil: "dec [] = None"
  using dec_sound sz_pos by (metis le_zero_eq list.size(3) not_gr_zero option.exhaust)

end

lemma a2r_decode_sound:
  "a2r_decode bs = Some m \<Longrightarrow> a2r_sizeof m \<le> length bs \<and> take (a2r_sizeof m) bs = a2r_encode m"
  by (auto simp: a2r_decode_def struct3 struct7 split: if_splits)

interpretation a2r_codec: message_codec a2r_encode a2r_decode a2r_sizeof
proof unfold_locales
  fix m rest
  show "0 < a2r_sizeof m" and "length (a2r_encode m) = a2r_sizeof m"
    by (cases m; simp)+
  show "a2r_decode (a2r_encode m @ rest) = Some m"
    by (cases m) (simp_all add: a2r_decode_def fields a2r_cmds)
qed (rule a2r_decode_sound)

lemma r2a_decode_sound:
  "r2a_decode bs = Some m \<Longrightarrow> r2a_sizeof m \<le> length bs \<and> take (r2a_sizeof m) bs = r2a_encode m"
  by (auto simp: r2a_decode_def struct7 struct13 split: if_splits)

interpretation r2a_codec: message_codec r2a_encode r2a_decode r2a_sizeof
proof unfold_locales
  fix m rest
  show "0 < r2a_sizeof m" and "length (r2a_encode m) = r2a_sizeof m"
    by (cases m; simp)+
  show "r2a_decode (r2a_encode m @ rest) = Some m"
    by (cases m) (simp_all add: r2a_decode_def fields r2a_cmds)
qed (rule r2a_decode_sound)

subsection \<open>Properties of the protocol\<close>

text \<open>The relay reads back every message of an agent exactly, whatever payload follows it: a
  packet parses as a message if and only if it is the encoding of that message followed by some
  payload, and the payload the relay forwards (what is left after \<open>consume\<close>) is that rest.\<close>

theorem a2r_roundtrip:
  "(a2r_decode bs = Some m) = (\<exists>rest. bs = a2r_encode m @ rest)
   \<and> drop (a2r_sizeof m) (a2r_encode m @ payload) = payload
   \<and> length (a2r_encode m) = a2r_sizeof m"
  using a2r_codec.dec_iff a2r_codec.payload a2r_codec.enc_len by blast

text \<open>The same for the messages of the relay, as the agent reads them.\<close>

theorem r2a_roundtrip:
  "(r2a_decode bs = Some m) = (\<exists>rest. bs = r2a_encode m @ rest)
   \<and> drop (r2a_sizeof m) (r2a_encode m @ payload) = payload
   \<and> length (r2a_encode m) = r2a_sizeof m"
  using r2a_codec.dec_iff r2a_codec.payload r2a_codec.enc_len by blast

text \<open>A packet that was cut inside the struct of its command is refused by both sides, so no
  field is ever read beyond the end of a packet.\<close>

theorem truncated_refused:
  "n < a2r_sizeof m \<Longrightarrow> k < r2a_sizeof r \<Longrightarrow>
    a2r_decode (take n (a2r_encode m)) = None \<and> r2a_decode (take k (r2a_encode r)) = None"
  using a2r_codec.truncated r2a_codec.truncated by blast

theorem truncated_refused_witness:
  "a2r_decode (take 6 (a2r_encode (A2R_data 80 1))) = None
   \<and> r2a_decode (take 12 (r2a_encode (R2A_connect 80 1 2 3))) = None"
  by (rule truncated_refused) simp_all

end
