(* ===== verification/Connection.thy ===== *)
theory Connection
  imports Prelude
begin

text \<open>
  \<^verbatim>\<open>TCPConnection\<close> and \<^verbatim>\<open>RawTCPConnection\<close>
  (\<^verbatim>\<open>network/tcpconnection.hpp\<close>, \<^verbatim>\<open>network/rawtcpconnection.hpp\<close>): the send queue
  with one write in flight, the receive loop with its flow control, shutdown and close.  The two
  classes share most of their text; here they share the record \<open>conn\<close> and the operations on
  \<open>conn_scheme\<close>, and \<open>tcp_conn\<close> adds the packet header and the defragment switch.

  A \<open>std::function\<close> member is the Boolean "set"; what it is bound to is the business of the
  owner.  \<open>socket\<close> is \<open>None\<close> for a null pointer, \<open>Some b\<close> for a socket whose
  \<open>is_open()\<close> is \<open>b\<close>.  Everything an operation asks of asio, and every callback it
  makes, is appended to \<open>io\<close> in the order the code does it; asio answers by running the
  handlers.  A stream buffer is the list of its readable bytes.
\<close>

datatype err = OperationAborted | InvalidArgument | EndOfFile | NoSuchDevice | OsError nat | NoError

type_synonym error_code = "err option" \<comment> \<open>\<open>None\<close> is success\<close>

text \<open>\<open>NoError\<close> is the success code handed to a function that reports an error, as the connect
  timer of a client does when it expires.\<close>

text \<open>What is posted to the connection's \<open>io_service\<close>; \<open>'p\<close> are the completion
  closures the owner passes to Send and SendV.\<close>

datatype 'p task =
  TSend bytes "'p option"
| TSendV "bytes list" "'p option"
| TDoRecv
| TStart
| TPfn 'p

datatype 'p io_call =
  Post "'p task"
| AsyncWrite bytes
| AsyncReadHead
| AsyncReadBody u32
| AsyncReadSome u64
| AsyncConnect u32 u16
| StartTimer u32
| CancelTimer
| CallConnect
| CallRecv bytes
| CallDisconnect err
| SockShutdown
| SockClose
| SockKeepAlive
| SockNoDelay

record 'p conn =
  outgoing_queue :: "(bytes \<times> 'p option) list"
  sending_pkt :: "bytes option"
  recving_pkt :: "bytes option"
  max_packet_length :: u32
  nodelay :: int
  recv_buf_length :: u64
  blocking_recv :: bool
  on_allocbuf :: bool
  on_disconnect :: bool
  on_recv :: bool
  socket :: "bool option"
  io :: "'p io_call list"

record 'p tcp_conn = "'p conn" +
  packet_header :: bytes
  defragment :: int

definition emit :: "'p io_call \<Rightarrow> ('p, 'z) conn_scheme \<Rightarrow> ('p, 'z) conn_scheme" where
  "emit x c = c\<lparr>io := io c @ [x]\<rparr>"

definition DEFAULT_BUFFER_LENGTH :: u64 where "DEFAULT_BUFFER_LENGTH = 4096"
definition PACKET_HEADER_LENGTH :: nat where "PACKET_HEADER_LENGTH = 4"

text \<open>The members as constructed, on a socket that is not open yet.\<close>

definition new_tcp_conn :: "'p tcp_conn" where
  "new_tcp_conn = \<lparr>outgoing_queue = [], sending_pkt = None, recving_pkt = None,
     max_packet_length = 0, nodelay = 0, recv_buf_length = DEFAULT_BUFFER_LENGTH,
     blocking_recv = False, on_allocbuf = False, on_disconnect = False, on_recv = False,
     socket = Some False, io = [], packet_header = [0, 0, 0, 0], defragment = 0\<rparr>"

definition new_raw_conn :: "'p conn" where
  "new_raw_conn = \<lparr>outgoing_queue = [], sending_pkt = None, recving_pkt = None,
     max_packet_length = 0, nodelay = 0, recv_buf_length = DEFAULT_BUFFER_LENGTH,
     blocking_recv = False, on_allocbuf = False, on_disconnect = False, on_recv = False,
     socket = Some False, io = []\<rparr>"

subsection \<open>Public operations\<close>

definition conn_Send :: "bytes \<Rightarrow> 'p option \<Rightarrow> ('p, 'z) conn_scheme \<Rightarrow> ('p, 'z) conn_scheme" where
  "conn_Send data pfn = emit (Post (TSend data pfn))"

definition conn_SendV :: "bytes list \<Rightarrow> 'p option \<Rightarrow> ('p, 'z) conn_scheme \<Rightarrow> ('p, 'z) conn_scheme" where
  "conn_SendV datas pfn = emit (Post (TSendV datas pfn))"

definition close_socket :: "('p, 'z) conn_scheme \<Rightarrow> ('p, 'z) conn_scheme" where
  "close_socket c = (if socket c = Some True
     then emit SockClose (emit SockShutdown c)\<lparr>socket := Some False\<rparr> else c)"

definition tcp_Close :: "('p, 'z) tcp_conn_scheme \<Rightarrow> ('p, 'z) tcp_conn_scheme" where
  "tcp_Close c = close_socket (c\<lparr>on_allocbuf := False, on_recv := False, on_disconnect := False\<rparr>)"

definition raw_Close :: "('p, 'z) conn_scheme \<Rightarrow> ('p, 'z) conn_scheme" where
  "raw_Close c = close_socket (c\<lparr>on_recv := False, on_disconnect := False\<rparr>)"

definition conn_SetMaxPacketLength :: "u32 \<Rightarrow> ('p, 'z) conn_scheme \<Rightarrow> ('p, 'z) conn_scheme" where
  "conn_SetMaxPacketLength l c = c\<lparr>max_packet_length := l\<rparr>"

definition conn_SetNoDelay :: "int \<Rightarrow> ('p, 'z) conn_scheme \<Rightarrow> ('p, 'z) conn_scheme" where
  "conn_SetNoDelay n c = c\<lparr>nodelay := n\<rparr>"

definition conn_SetRecvbufSize :: "u64 \<Rightarrow> ('p, 'z) conn_scheme \<Rightarrow> ('p, 'z) conn_scheme" where
  "conn_SetRecvbufSize l c = (if l > DEFAULT_BUFFER_LENGTH then c\<lparr>recv_buf_length := l\<rparr>
     else c\<lparr>recv_buf_length := DEFAULT_BUFFER_LENGTH\<rparr>)"

definition tcp_SetDefragment :: "int \<Rightarrow> ('p, 'z) tcp_conn_scheme \<Rightarrow> ('p, 'z) tcp_conn_scheme" where
  "tcp_SetDefragment d c = c\<lparr>defragment := d\<rparr>"

definition conn_BlockRecv :: "bool \<Rightarrow> ('p, 'z) conn_scheme \<Rightarrow> ('p, 'z) conn_scheme" where
  "conn_BlockRecv b c = (let c = c\<lparr>blocking_recv := b\<rparr> in if \<not> b then emit (Post TDoRecv) c else c)"

text \<open>Keep-alive is set with an ignored error code; \<open>no_delay\<close> with the throwing overload,
  which throws on a socket that is not open.\<close>

definition conn__SetOpt :: "('p, 'z) conn_scheme \<Rightarrow> ('p, 'z) conn_scheme result" where
  "conn__SetOpt c =
     (if socket c = None then Inl NullPointer
      else let c = emit SockKeepAlive c
           in if nodelay c \<noteq> 0
              then (if socket c = Some True then Inr (emit SockNoDelay c) else Inl SystemError)
              else Inr c)"

subsection \<open>Sending\<close>

definition conn__DoSend :: "('p, 'z) conn_scheme \<Rightarrow> ('p, 'z) conn_scheme" where
  "conn__DoSend c =
     (if sending_pkt c \<noteq> None then c
      else case outgoing_queue c of
        [] \<Rightarrow> c
      | (pkt, pfn) # q \<Rightarrow>
          if socket c = None then c
          else let c = c\<lparr>outgoing_queue := q, sending_pkt := Some pkt\<rparr>;
                   c = (case pfn of Some f \<Rightarrow> emit (Post (TPfn f)) c | None \<Rightarrow> c)
               in emit (AsyncWrite pkt) c)"

text \<open>The length prefix: \<open>(uint32_t)data->size()\<close>, written in host order.\<close>

definition packet_header_of :: "nat \<Rightarrow> bytes" where
  "packet_header_of n = put32 (word_of_nat n)"

definition push :: "(bytes \<times> 'p option) list \<Rightarrow> ('p, 'z) conn_scheme \<Rightarrow> ('p, 'z) conn_scheme" where
  "push ps c = c\<lparr>outgoing_queue := outgoing_queue c @ ps\<rparr>"

definition tcp__Send :: "bytes \<Rightarrow> 'p option \<Rightarrow> ('p, 'z) tcp_conn_scheme \<Rightarrow> ('p, 'z) tcp_conn_scheme" where
  "tcp__Send data pfn c =
     (if \<not> on_allocbuf c then c
      else if defragment c = 0
      then conn__DoSend (push [(packet_header_of (length data), None), (data, pfn)] c)
      else conn__DoSend (push [(packet_header_of (length data) @ data, pfn)] c))"

text \<open>The loop of SendV: the last buffer carries the completion, the others none.\<close>

fun last_pfn :: "bytes list \<Rightarrow> 'p option \<Rightarrow> (bytes \<times> 'p option) list" where
  "last_pfn [] pfn = []"
| "last_pfn [d] pfn = [(d, pfn)]"
| "last_pfn (d # ds) pfn = (d, None) # last_pfn ds pfn"

text \<open>Unlike \<open>tcp__Send\<close>, SendV calls \<open>on_allocbuf\<close> without looking whether it is set.\<close>

definition tcp__SendV :: "bytes list \<Rightarrow> 'p option \<Rightarrow> ('p, 'z) tcp_conn_scheme
    \<Rightarrow> ('p, 'z) tcp_conn_scheme result" where
  "tcp__SendV datas pfn c =
     (let l = sum_list (map length datas) in
      if \<not> on_allocbuf c then Inl BadFunctionCall
      else if defragment c = 0
      then Inr (conn__DoSend (push ((packet_header_of l, None) # last_pfn datas pfn) c))
      else Inr (conn__DoSend (push [(packet_header_of l @ concat datas, pfn)] c)))"

definition raw__Send :: "bytes \<Rightarrow> 'p option \<Rightarrow> ('p, 'z) conn_scheme \<Rightarrow> ('p, 'z) conn_scheme" where
  "raw__Send data pfn c = conn__DoSend (push [(data, pfn)] c)"

definition raw__SendV :: "bytes list \<Rightarrow> 'p option \<Rightarrow> ('p, 'z) conn_scheme \<Rightarrow> ('p, 'z) conn_scheme" where
  "raw__SendV datas pfn c = conn__DoSend (push (last_pfn datas pfn) c)"

definition conn__Shutdown :: "err \<Rightarrow> ('p, 'z) conn_scheme \<Rightarrow> ('p, 'z) conn_scheme" where
  "conn__Shutdown e c =
     (let c = (if socket c \<noteq> None then emit SockShutdown c else c)
      in if on_disconnect c then (emit (CallDisconnect e) c)\<lparr>on_disconnect := False\<rparr> else c)"

definition conn__OnSendCallback :: "error_code \<Rightarrow> ('p, 'z) conn_scheme \<Rightarrow> ('p, 'z) conn_scheme" where
  "conn__OnSendCallback e c =
     (case e of
        Some er \<Rightarrow>
          let c = conn__Shutdown er c
          in if on_disconnect c then (emit (CallDisconnect er) c)\<lparr>on_disconnect := False\<rparr> else c
      | None \<Rightarrow> conn__DoSend (c\<lparr>sending_pkt := None\<rparr>))"

subsection \<open>Receiving\<close>

text \<open>The head of both receive loops; they differ in the read they then start.\<close>

definition conn__DoRecv :: "'p io_call \<Rightarrow> ('p, 'z) conn_scheme \<Rightarrow> ('p, 'z) conn_scheme result" where
  "conn__DoRecv rd c =
     (if socket c = None then Inr c
      else if recving_pkt c \<noteq> None then Inr c
      else if blocking_recv c then Inr c
      else if \<not> on_allocbuf c then Inl BadFunctionCall
      else Inr (emit rd (c\<lparr>recving_pkt := Some []\<rparr>)))"

definition tcp__DoRecv :: "('p, 'z) tcp_conn_scheme \<Rightarrow> ('p, 'z) tcp_conn_scheme result" where
  "tcp__DoRecv c = conn__DoRecv AsyncReadHead c"

definition raw__DoRecv :: "('p, 'z) conn_scheme \<Rightarrow> ('p, 'z) conn_scheme result" where
  "raw__DoRecv c = conn__DoRecv (AsyncReadSome (recv_buf_length c)) c"

definition tcp__OnHeadRecvCallback :: "error_code \<Rightarrow> ('p, 'z) tcp_conn_scheme
    \<Rightarrow> ('p, 'z) tcp_conn_scheme result" where
  "tcp__OnHeadRecvCallback e c =
     (case e of
        Some er \<Rightarrow> Inr (conn__Shutdown er c)
      | None \<Rightarrow>
          let packet_length = get32 (packet_header c) 0
          in if max_packet_length c > 0 \<and> packet_length > max_packet_length c
             then Inr (conn__Shutdown InvalidArgument c)
             else if recving_pkt c = None then Inl NullPointer
             else Inr (emit (AsyncReadBody packet_length) c))"

text \<open>\<open>got\<close> is what the read put into the prepared area, \<open>bytes_transferred\<close> its length.
  The tail call is the class's own receive.\<close>

definition conn__OnRecvCallback ::
  "(('p, 'z) conn_scheme \<Rightarrow> ('p, 'z) conn_scheme result) \<Rightarrow> error_code \<Rightarrow> bytes
    \<Rightarrow> ('p, 'z) conn_scheme \<Rightarrow> ('p, 'z) conn_scheme result" where
  "conn__OnRecvCallback do_recv e got c =
     (case e of
        Some er \<Rightarrow> Inr (conn__Shutdown er c)
      | None \<Rightarrow>
          (case recving_pkt c of
             None \<Rightarrow> Inl NullPointer
           | Some pkt \<Rightarrow>
               let c = (if on_recv c then emit (CallRecv (pkt @ got)) c else c)
               in do_recv (c\<lparr>recving_pkt := None\<rparr>)))"

definition tcp__OnRecvCallback :: "error_code \<Rightarrow> bytes \<Rightarrow> ('p, 'z) tcp_conn_scheme
    \<Rightarrow> ('p, 'z) tcp_conn_scheme result" where
  "tcp__OnRecvCallback = conn__OnRecvCallback tcp__DoRecv"

definition raw__OnRecvCallback :: "error_code \<Rightarrow> bytes \<Rightarrow> ('p, 'z) conn_scheme
    \<Rightarrow> ('p, 'z) conn_scheme result" where
  "raw__OnRecvCallback = conn__OnRecvCallback raw__DoRecv"

text \<open>\<open>ServerTCPConnection::__Start\<close> and its raw twin.\<close>

definition tcp__Start :: "('p, 'z) tcp_conn_scheme \<Rightarrow> ('p, 'z) tcp_conn_scheme result" where
  "tcp__Start c =
     and_then (conn__SetOpt c) (\<lambda>c. and_then (tcp__DoRecv c) (\<lambda>c. Inr (conn__DoSend c)))"

definition raw__Start :: "('p, 'z) conn_scheme \<Rightarrow> ('p, 'z) conn_scheme result" where
  "raw__Start c =
     and_then (conn__SetOpt c) (\<lambda>c. and_then (raw__DoRecv c) (\<lambda>c. Inr (conn__DoSend c)))"

definition conn_Start :: "('p, 'z) conn_scheme \<Rightarrow> ('p, 'z) conn_scheme" where
  "conn_Start = emit (Post TStart)"

subsection \<open>The handlers asio runs, as events\<close>

text \<open>
  One event is one handler run on the connection's \<open>io_service\<close>, or one direct call of the
  owner.  \<open>EvHead\<close> carries the bytes the read put into \<open>packet_header_\<close>,
  \<open>EvRecv\<close> what it put into the prepared area of \<open>recving_pkt_\<close>.
\<close>

datatype 'p conn_event =
  EvRun "'p task"
| EvSent error_code
| EvHead error_code bytes
| EvRecv error_code bytes
| EvSend bytes "'p option"
| EvSendV "bytes list" "'p option"
| EvBlockRecv bool
| EvClose

fun tcp_run_task :: "'p task \<Rightarrow> ('p, 'z) tcp_conn_scheme \<Rightarrow> ('p, 'z) tcp_conn_scheme result" where
  "tcp_run_task (TSend data pfn) c = Inr (tcp__Send data pfn c)"
| "tcp_run_task (TSendV datas pfn) c = tcp__SendV datas pfn c"
| "tcp_run_task TDoRecv c = tcp__DoRecv c"
| "tcp_run_task TStart c = tcp__Start c"
| "tcp_run_task (TPfn f) c = Inr c"

fun tcp_step :: "'p conn_event \<Rightarrow> ('p, 'z) tcp_conn_scheme \<Rightarrow> ('p, 'z) tcp_conn_scheme result" where
  "tcp_step (EvRun t) c = tcp_run_task t c"
| "tcp_step (EvSent e) c = Inr (conn__OnSendCallback e c)"
| "tcp_step (EvHead e hdr) c =
     tcp__OnHeadRecvCallback e (if e = None then c\<lparr>packet_header := hdr\<rparr> else c)"
| "tcp_step (EvRecv e got) c = tcp__OnRecvCallback e got c"
| "tcp_step (EvSend data pfn) c = Inr (conn_Send data pfn c)"
| "tcp_step (EvSendV datas pfn) c = Inr (conn_SendV datas pfn c)"
| "tcp_step (EvBlockRecv b) c = Inr (conn_BlockRecv b c)"
| "tcp_step EvClose c = Inr (tcp_Close c)"

fun raw_run_task :: "'p task \<Rightarrow> ('p, 'z) conn_scheme \<Rightarrow> ('p, 'z) conn_scheme result" where
  "raw_run_task (TSend data pfn) c = Inr (raw__Send data pfn c)"
| "raw_run_task (TSendV datas pfn) c = Inr (raw__SendV datas pfn c)"
| "raw_run_task TDoRecv c = raw__DoRecv c"
| "raw_run_task TStart c = raw__Start c"
| "raw_run_task (TPfn f) c = Inr c"

text \<open>A raw connection has no header read: \<open>EvHead\<close> does not happen to it.\<close>

fun raw_step :: "'p conn_event \<Rightarrow> ('p, 'z) conn_scheme \<Rightarrow> ('p, 'z) conn_scheme result" where
  "raw_step (EvRun t) c = raw_run_task t c"
| "raw_step (EvSent e) c = Inr (conn__OnSendCallback e c)"
| "raw_step (EvHead e hdr) c = Inr c"
| "raw_step (EvRecv e got) c = raw__OnRecvCallback e got c"
| "raw_step (EvSend data pfn) c = Inr (conn_Send data pfn c)"
| "raw_step (EvSendV datas pfn) c = Inr (conn_SendV datas pfn c)"
| "raw_step (EvBlockRecv b) c = Inr (conn_BlockRecv b c)"
| "raw_step EvClose c = Inr (raw_Close c)"

end
