(* ===== verification/Connection_Props.thy ===== *)
theory Connection_Props
  imports Connection
begin

text \<open>
  What the owner of a connection may rely on, whatever order asio runs the handlers in:
  \<open>on_disconnect\<close> is called at most once, no callback is made after Close, the queue keeps
  its order.  \<open>conn_object\<close> states the contract of one step and lifts it to runs;
  \<open>tcp_object\<close> and \<open>raw_object\<close> are the two classes.
\<close>

definition disconnects :: "'p io_call list \<Rightarrow> nat" where
  "disconnects xs = length (filter (\<lambda>x. \<exists>e. x = CallDisconnect e) xs)"

definition received :: "'p io_call list \<Rightarrow> bytes list" where
  "received xs = concat (map (\<lambda>x. case x of CallRecv b \<Rightarrow> [b] | _ \<Rightarrow> []) xs)"

lemma disconnects_simps [simp]:
  "disconnects [] = 0"
  "disconnects (xs @ ys) = disconnects xs + disconnects ys"
  "disconnects (x # xs) = (if \<exists>e. x = CallDisconnect e then 1 else 0) + disconnects xs"
  by (auto simp: disconnects_def)

lemma received_simps [simp]:
  "received [] = []"
  "received (xs @ ys) = received xs @ received ys"
  "received (x # xs) = (case x of CallRecv b \<Rightarrow> [b] | _ \<Rightarrow> []) @ received xs"
  by (auto simp: received_def)

subsection \<open>The contract of a connection object\<close>

locale conn_object =
  fixes step :: "'ev \<Rightarrow> 'c \<Rightarrow> 'c result"
    and out :: "'c \<Rightarrow> 'p io_call list"
    and armed :: "'c \<Rightarrow> bool"
    and listening :: "'c \<Rightarrow> bool"
  assumes step_io: "step ev c = Inr c' \<Longrightarrow> \<exists>xs. out c' = out c @ xs
      \<and> disconnects xs + of_bool (armed c') \<le> of_bool (armed c)
      \<and> (listening c' \<longrightarrow> listening c) \<and> (\<not> listening c \<longrightarrow> received xs = [])"
begin

lemma run_io: "fold_result step evs c = Inr c' \<Longrightarrow> \<exists>xs. out c' = out c @ xs
      \<and> disconnects xs + of_bool (armed c') \<le> of_bool (armed c)
      \<and> (listening c' \<longrightarrow> listening c) \<and> (\<not> listening c \<longrightarrow> received xs = [])"
proof (induction evs arbitrary: c)
  case Nil
  then show ?case by simp
next
  case (Cons ev evs)
  then obtain d where d: "step ev c = Inr d" "fold_result step evs d = Inr c'"
    by (auto simp: and_then_eq_Inr)
  obtain xs where xs: "out d = out c @ xs"
    "disconnects xs + of_bool (armed d) \<le> of_bool (armed c)"
    "listening d \<longrightarrow> listening c" "\<not> listening c \<longrightarrow> received xs = []"
    using step_io [OF d(1)] by blast
  obtain ys where ys: "out c' = out d @ ys"
    "disconnects ys + of_bool (armed c') \<le> of_bool (armed d)"
    "listening c' \<longrightarrow> listening d" "\<not> listening d \<longrightarrow> received ys = []"
    using Cons.IH [OF d(2)] by blast
  from xs ys show ?case by (intro exI [of _ "xs @ ys"]) auto
qed

text \<open>One notification at most, and none from an object whose callback is cleared.\<close>

lemma run_disconnects: "fold_result step evs c = Inr c' \<Longrightarrow>
    disconnects (out c') \<le> disconnects (out c) + of_bool (armed c)"
  using run_io by fastforce

lemma run_silent: "fold_result step evs c = Inr c' \<Longrightarrow> \<not> armed c \<Longrightarrow> \<not> listening c \<Longrightarrow>
    disconnects (out c') = disconnects (out c) \<and> received (out c') = received (out c)"
  using run_io by fastforce

end

text \<open>What one operation may add to \<open>io\<close>: the contract as a relation that composes.\<close>

definition io_step :: "('p, 'z) conn_scheme \<Rightarrow> ('p, 'z) conn_scheme \<Rightarrow> bool" where
  "io_step c c' \<longleftrightarrow> (\<exists>xs. io c' = io c @ xs
      \<and> disconnects xs + of_bool (on_disconnect c') \<le> of_bool (on_disconnect c)
      \<and> (on_recv c' \<longrightarrow> on_recv c) \<and> (\<not> on_recv c \<longrightarrow> received xs = []))"

lemma io_step_refl [simp, intro]: "io_step c c"
  by (simp add: io_step_def)

lemma io_step_trans: "io_step c d \<Longrightarrow> io_step d e \<Longrightarrow> io_step c e"
proof -
  assume "io_step c d" and "io_step d e"
  then obtain xs ys where "io d = io c @ xs" "io e = io d @ ys"
    "disconnects xs + of_bool (on_disconnect d) \<le> of_bool (on_disconnect c)"
    "disconnects ys + of_bool (on_disconnect e) \<le> of_bool (on_disconnect d)"
    "on_recv d \<longrightarrow> on_recv c" "on_recv e \<longrightarrow> on_recv d"
    "\<not> on_recv c \<longrightarrow> received xs = []" "\<not> on_recv d \<longrightarrow> received ys = []"
    unfolding io_step_def by blast
  then show ?thesis unfolding io_step_def by (intro exI [of _ "xs @ ys"]) auto
qed

text \<open>A step that changes neither \<open>io\<close> nor the callbacks may be ignored on either side.\<close>

lemma io_step_cong:
  "io c = io d \<Longrightarrow> on_disconnect c = on_disconnect d \<Longrightarrow> on_recv c = on_recv d \<Longrightarrow>
   io_step c e = io_step d e"
  by (simp add: io_step_def)

lemma io_step_same:
  "io c' = io c \<Longrightarrow> on_disconnect c' = on_disconnect c \<Longrightarrow> on_recv c' = on_recv c \<Longrightarrow> io_step c c'"
  by (simp add: io_step_def)

lemma io_step_emit:
  "(\<And>e. x \<noteq> CallDisconnect e) \<Longrightarrow> (\<And>b. x \<noteq> CallRecv b) \<Longrightarrow> io_step c (emit x c)"
  by (simp add: io_step_def emit_def split: io_call.splits)

lemma io_step_Close: "io_step c (raw_Close c)"
  by (simp add: io_step_def raw_Close_def close_socket_def emit_def)

lemma io_step_tcp_Close: "io_step c (tcp_Close c)"
  by (simp add: io_step_def tcp_Close_def close_socket_def emit_def)

lemma io_step_DoSend: "io_step c (conn__DoSend c)"
  by (auto simp: io_step_def conn__DoSend_def emit_def Let_def split: list.splits option.splits)

lemma io_step_push: "io_step c (push ps c)"
  by (simp add: push_def io_step_same)

lemma io_step_Shutdown: "io_step c (conn__Shutdown e c)"
  by (simp add: io_step_def conn__Shutdown_def emit_def)

lemma io_step_DoRecv:
  "conn__DoRecv rd c = Inr c' \<Longrightarrow> (\<And>e. rd \<noteq> CallDisconnect e) \<Longrightarrow> (\<And>b. rd \<noteq> CallRecv b) \<Longrightarrow>
   io_step c c'"
  by (auto simp: conn__DoRecv_def io_step_def emit_def split: if_splits io_call.splits)

lemma io_step_SetOpt: "conn__SetOpt c = Inr c' \<Longrightarrow> io_step c c'"
  by (auto simp: conn__SetOpt_def io_step_def emit_def Let_def split: if_splits)

lemma io_step_OnSend: "io_step c (conn__OnSendCallback e c)"
proof (cases e)
  case None
  have "io_step (c\<lparr>sending_pkt := None\<rparr>) (conn__DoSend (c\<lparr>sending_pkt := None\<rparr>))"
    by (rule io_step_DoSend)
  then show ?thesis by (simp add: conn__OnSendCallback_def None io_step_def)
next
  case (Some er)
  have "\<not> on_disconnect (conn__Shutdown er c)" by (simp add: conn__Shutdown_def Let_def)
  then show ?thesis using io_step_Shutdown [of c er]
    by (simp add: conn__OnSendCallback_def Some)
qed

lemma io_step_OnRecv:
  assumes "conn__OnRecvCallback do_recv e got c = Inr c'"
    and "\<And>c c'. do_recv c = Inr c' \<Longrightarrow> io_step c c'"
  shows "io_step c c'"
proof (cases e)
  case (Some er)
  then show ?thesis using assms(1) io_step_Shutdown [of c er] by (auto simp: conn__OnRecvCallback_def)
next
  case None
  then obtain pkt where pkt: "recving_pkt c = Some pkt"
    and rec: "do_recv ((if on_recv c then emit (CallRecv (pkt @ got)) c else c)\<lparr>recving_pkt := None\<rparr>) = Inr c'"
    using assms(1) by (auto simp: conn__OnRecvCallback_def Let_def split: option.splits)
  have "io_step c ((if on_recv c then emit (CallRecv (pkt @ got)) c else c)\<lparr>recving_pkt := None\<rparr>)"
    by (simp add: io_step_def emit_def)
  then show ?thesis using assms(2) [OF rec] by (rule io_step_trans)
qed

lemmas io_step_ops = io_step_DoSend io_step_push io_step_emit io_step_Close io_step_tcp_Close
  io_step_OnSend io_step_Shutdown

subsection \<open>Every handler of both classes keeps the contract\<close>

lemma io_step_Send: "io_step c (tcp__Send data pfn c)"
  unfolding tcp__Send_def
  by (auto intro: io_step_trans [OF io_step_push io_step_DoSend])

lemma io_step_SendV: "tcp__SendV datas pfn c = Inr c' \<Longrightarrow> io_step c c'"
  unfolding tcp__SendV_def
  by (auto simp: Let_def split: if_splits intro: io_step_trans [OF io_step_push io_step_DoSend])

lemma io_step_raw_Send: "io_step c (raw__Send data pfn c)"
  unfolding raw__Send_def by (rule io_step_trans [OF io_step_push io_step_DoSend])

lemma io_step_raw_SendV: "io_step c (raw__SendV datas pfn c)"
  unfolding raw__SendV_def by (rule io_step_trans [OF io_step_push io_step_DoSend])

lemma io_step_BlockRecv: "io_step c (conn_BlockRecv b c)"
  by (auto simp: conn_BlockRecv_def Let_def io_step_def emit_def)

lemma io_step_tcp_DoRecv: "tcp__DoRecv c = Inr c' \<Longrightarrow> io_step c c'"
  unfolding tcp__DoRecv_def by (erule io_step_DoRecv) auto

lemma io_step_raw_DoRecv: "raw__DoRecv c = Inr c' \<Longrightarrow> io_step c c'"
  unfolding raw__DoRecv_def by (erule io_step_DoRecv) auto

lemma io_step_Start: "tcp__Start c = Inr c' \<Longrightarrow> io_step c c'"
  unfolding tcp__Start_def
  by (fastforce simp: and_then_eq_Inr dest: io_step_SetOpt io_step_tcp_DoRecv
      intro: io_step_trans [OF _ io_step_trans [OF _ io_step_DoSend]])

lemma io_step_raw_Start: "raw__Start c = Inr c' \<Longrightarrow> io_step c c'"
  unfolding raw__Start_def
  by (fastforce simp: and_then_eq_Inr dest: io_step_SetOpt io_step_raw_DoRecv
      intro: io_step_trans [OF _ io_step_trans [OF _ io_step_DoSend]])

lemma io_step_OnHead: "tcp__OnHeadRecvCallback e c = Inr c' \<Longrightarrow> io_step c c'"
  unfolding tcp__OnHeadRecvCallback_def
  by (auto simp: Let_def io_step_Shutdown io_step_emit split: option.splits if_splits)

lemma tcp_run_task_io: "tcp_run_task t c = Inr c' \<Longrightarrow> io_step c c'"
  by (cases t) (auto simp: io_step_Send dest: io_step_SendV io_step_tcp_DoRecv io_step_Start)

lemma raw_run_task_io: "raw_run_task t c = Inr c' \<Longrightarrow> io_step c c'"
  by (cases t) (auto simp: io_step_raw_Send io_step_raw_SendV dest: io_step_raw_DoRecv io_step_raw_Start)

lemma tcp_step_io: "tcp_step ev c = Inr c' \<Longrightarrow> io_step c c'"
proof (cases ev)
  case (EvHead e hdr)
  assume "tcp_step ev c = Inr c'"
  with EvHead have "io_step (if e = None then c\<lparr>packet_header := hdr\<rparr> else c) c'"
    by (auto dest: io_step_OnHead)
  moreover have "io_step c (if e = None then c\<lparr>packet_header := hdr\<rparr> else c)"
    by (simp add: io_step_same)
  ultimately show ?thesis by (blast intro: io_step_trans)
next
  case (EvRecv e got)
  assume "tcp_step ev c = Inr c'"
  then have "conn__OnRecvCallback tcp__DoRecv e got c = Inr c'"
    by (simp add: EvRecv tcp__OnRecvCallback_def)
  then show ?thesis by (rule io_step_OnRecv) (rule io_step_tcp_DoRecv)
qed (auto simp: io_step_ops io_step_BlockRecv conn_Send_def conn_SendV_def dest: tcp_run_task_io)

lemma raw_step_io: "raw_step ev c = Inr c' \<Longrightarrow> io_step c c'"
proof (cases ev)
  case (EvRecv e got)
  assume "raw_step ev c = Inr c'"
  then have "conn__OnRecvCallback raw__DoRecv e got c = Inr c'"
    by (simp add: EvRecv raw__OnRecvCallback_def)
  then show ?thesis by (rule io_step_OnRecv) (rule io_step_raw_DoRecv)
qed (auto simp: io_step_ops io_step_BlockRecv conn_Send_def conn_SendV_def dest: raw_run_task_io)

interpretation tcp_object: conn_object tcp_step io on_disconnect on_recv
  by unfold_locales (use tcp_step_io io_step_def in blast)

interpretation raw_object: conn_object raw_step io on_disconnect on_recv
  by unfold_locales (use raw_step_io io_step_def in blast)

subsection \<open>Completions\<close>

text \<open>The completions a connection has posted, those still in its queue, and those submitted to
  it.  A SendV of no buffers without defragmentation, and a Send on a closed framed connection,
  drop their completion.\<close>

definition opt_list :: "'a option \<Rightarrow> 'a list" where
  "opt_list x = (case x of None \<Rightarrow> [] | Some y \<Rightarrow> [y])"

lemma opt_list_simps [simp]: "opt_list None = []" "opt_list (Some x) = [x]"
  by (simp_all add: opt_list_def)

definition completions :: "'p io_call list \<Rightarrow> 'p list" where
  "completions xs = concat (map (\<lambda>x. case x of Post (TPfn f) \<Rightarrow> [f] | _ \<Rightarrow> []) xs)"

definition queued_pfns :: "('p, 'z) conn_scheme \<Rightarrow> 'p list" where
  "queued_pfns c = concat (map (\<lambda>(d, pfn). opt_list pfn) (outgoing_queue c))"

fun tcp_submits :: "'p conn_event \<Rightarrow> ('p, 'z) tcp_conn_scheme \<Rightarrow> 'p list" where
  "tcp_submits (EvRun (TSend data pfn)) c = (if on_allocbuf c then opt_list pfn else [])"
| "tcp_submits (EvRun (TSendV datas pfn)) c =
     (if defragment c = 0 \<and> datas = [] then [] else opt_list pfn)"
| "tcp_submits _ c = []"

fun raw_submits :: "'p conn_event \<Rightarrow> ('p, 'z) conn_scheme \<Rightarrow> 'p list" where
  "raw_submits (EvRun (TSend data pfn)) c = opt_list pfn"
| "raw_submits (EvRun (TSendV datas pfn)) c = (if datas = [] then [] else opt_list pfn)"
| "raw_submits _ c = []"

fun submitted :: "('ev \<Rightarrow> 'c \<Rightarrow> 'p list) \<Rightarrow> ('ev \<Rightarrow> 'c \<Rightarrow> 'c result) \<Rightarrow> 'ev list \<Rightarrow> 'c \<Rightarrow> 'p list" where
  "submitted subm step [] c = []"
| "submitted subm step (ev # evs) c =
     subm ev c @ (case step ev c of Inl _ \<Rightarrow> [] | Inr d \<Rightarrow> submitted subm step evs d)"

locale send_queue =
  fixes step :: "'ev \<Rightarrow> 'c \<Rightarrow> 'c result"
    and subm :: "'ev \<Rightarrow> 'c \<Rightarrow> 'p list"
    and posted :: "'c \<Rightarrow> 'p list"
    and waiting :: "'c \<Rightarrow> 'p list"
  assumes step_fifo: "step ev c = Inr d \<Longrightarrow> posted d @ waiting d = posted c @ waiting c @ subm ev c"
begin

lemma run_fifo: "fold_result step evs c = Inr d \<Longrightarrow>
    posted d @ waiting d = posted c @ waiting c @ submitted subm step evs c"
proof (induction evs arbitrary: c)
  case (Cons ev evs)
  then obtain e where e: "step ev c = Inr e" "fold_result step evs e = Inr d"
    by (auto simp: and_then_eq_Inr)
  show ?case using Cons.IH [OF e(2)] step_fifo [OF e(1)] by (simp add: e(1) flip: append_assoc)
qed simp

end

definition all_pfns :: "('p, 'z) conn_scheme \<Rightarrow> 'p list" where
  "all_pfns c = completions (io c) @ queued_pfns c"

lemma completions_snoc: "completions (xs @ [x]) = completions xs @
    (case x of Post (TPfn f) \<Rightarrow> [f] | _ \<Rightarrow> [])"
  by (simp add: completions_def)

lemma all_pfns_emit: "(\<And>f. x \<noteq> Post (TPfn f)) \<Longrightarrow> all_pfns (emit x c) = all_pfns c"
  by (simp add: all_pfns_def emit_def completions_snoc queued_pfns_def split: io_call.splits task.splits)

lemma all_pfns_cong: "io c = io d \<Longrightarrow> outgoing_queue c = outgoing_queue d \<Longrightarrow> all_pfns c = all_pfns d"
  by (simp add: all_pfns_def queued_pfns_def)

lemma all_pfns_push: "all_pfns (push ps c) = all_pfns c @ concat (map (\<lambda>(d, pfn). opt_list pfn) ps)"
  by (simp add: all_pfns_def push_def queued_pfns_def)

lemma all_pfns_DoSend: "all_pfns (conn__DoSend c) = all_pfns c"
  by (auto simp: all_pfns_def conn__DoSend_def emit_def completions_snoc queued_pfns_def opt_list_def
      Let_def split: list.splits option.splits)

lemma last_pfn_pfns: "concat (map (\<lambda>(d, pfn). opt_list pfn) (last_pfn ds pfn)) =
    (if ds = [] then [] else opt_list pfn)"
  by (induction ds pfn rule: last_pfn.induct) (auto simp: opt_list_def)

lemma all_pfns_Shutdown: "all_pfns (conn__Shutdown e c) = all_pfns c"
  by (simp add: conn__Shutdown_def Let_def all_pfns_def emit_def completions_snoc queued_pfns_def)

lemma all_pfns_OnSend: "all_pfns (conn__OnSendCallback e c) = all_pfns c"
proof (cases e)
  case None
  then show ?thesis using all_pfns_cong [of "c\<lparr>sending_pkt := None\<rparr>" c]
    by (simp add: conn__OnSendCallback_def all_pfns_DoSend)
next
  case (Some er)
  have "\<not> on_disconnect (conn__Shutdown er c)" by (simp add: conn__Shutdown_def Let_def)
  with Some show ?thesis by (simp add: conn__OnSendCallback_def all_pfns_Shutdown)
qed

lemma all_pfns_close: "all_pfns (tcp_Close c) = all_pfns c" "all_pfns (raw_Close d) = all_pfns d"
  by (simp_all add: tcp_Close_def raw_Close_def close_socket_def all_pfns_def emit_def
      completions_def queued_pfns_def)

lemma all_pfns_BlockRecv: "all_pfns (conn_BlockRecv b c) = all_pfns c"
  by (simp add: conn_BlockRecv_def Let_def all_pfns_def emit_def completions_snoc queued_pfns_def)

lemma all_pfns_DoRecv:
  "conn__DoRecv rd c = Inr d \<Longrightarrow> (\<And>f. rd \<noteq> Post (TPfn f)) \<Longrightarrow> all_pfns d = all_pfns c"
  by (auto simp: conn__DoRecv_def all_pfns_def emit_def completions_snoc queued_pfns_def
      split: if_splits io_call.splits task.splits)

lemma all_pfns_SetOpt: "conn__SetOpt c = Inr d \<Longrightarrow> all_pfns d = all_pfns c"
  by (auto simp: conn__SetOpt_def Let_def all_pfns_emit split: if_splits)

lemma all_pfns_OnRecv:
  assumes "conn__OnRecvCallback do_recv e got c = Inr d"
    and "\<And>c d. do_recv c = Inr d \<Longrightarrow> all_pfns d = all_pfns c"
  shows "all_pfns d = all_pfns c"
proof -
  have "all_pfns ((if on_recv c then emit (CallRecv b) c else c)\<lparr>recving_pkt := None\<rparr>) = all_pfns c" for b
    by (simp add: all_pfns_def emit_def completions_snoc queued_pfns_def)
  with assms show ?thesis
    by (auto simp: conn__OnRecvCallback_def Let_def all_pfns_Shutdown split: option.splits)
qed

lemma all_pfns_tcp_DoRecv: "tcp__DoRecv c = Inr d \<Longrightarrow> all_pfns d = all_pfns c"
  unfolding tcp__DoRecv_def by (erule all_pfns_DoRecv) simp

lemma all_pfns_raw_DoRecv: "raw__DoRecv c = Inr d \<Longrightarrow> all_pfns d = all_pfns c"
  unfolding raw__DoRecv_def by (erule all_pfns_DoRecv) simp

lemma all_pfns_OnHead: "tcp__OnHeadRecvCallback e c = Inr d \<Longrightarrow> all_pfns d = all_pfns c"
  by (auto simp: tcp__OnHeadRecvCallback_def Let_def all_pfns_Shutdown all_pfns_emit
      split: option.splits if_splits)

lemmas all_pfns_ops = all_pfns_DoSend all_pfns_push all_pfns_OnSend all_pfns_close
  all_pfns_BlockRecv last_pfn_pfns

lemma tcp_run_task_fifo: "tcp_run_task t c = Inr d \<Longrightarrow> all_pfns d = all_pfns c @ tcp_submits (EvRun t) c"
  by (cases t) (auto simp: tcp__Send_def tcp__SendV_def tcp__Start_def and_then_eq_Inr Let_def
      all_pfns_ops all_pfns_tcp_DoRecv dest!: all_pfns_SetOpt split: if_splits)

lemma raw_run_task_fifo: "raw_run_task t c = Inr d \<Longrightarrow> all_pfns d = all_pfns c @ raw_submits (EvRun t) c"
  by (cases t) (auto simp: raw__Send_def raw__SendV_def raw__Start_def and_then_eq_Inr
      all_pfns_ops all_pfns_raw_DoRecv dest!: all_pfns_SetOpt)

lemma tcp_step_fifo: "tcp_step ev c = Inr d \<Longrightarrow> all_pfns d = all_pfns c @ tcp_submits ev c"
proof (cases ev)
  case (EvHead e hdr)
  assume "tcp_step ev c = Inr d"
  then show ?thesis using all_pfns_cong [of "c\<lparr>packet_header := hdr\<rparr>" c]
    by (auto simp: EvHead dest!: all_pfns_OnHead)
next
  case (EvRecv e got)
  assume "tcp_step ev c = Inr d"
  then show ?thesis
    by (auto simp: EvRecv tcp__OnRecvCallback_def intro: all_pfns_OnRecv all_pfns_tcp_DoRecv)
qed (auto simp: all_pfns_ops conn_Send_def conn_SendV_def all_pfns_emit dest: tcp_run_task_fifo)

lemma raw_step_fifo: "raw_step ev c = Inr d \<Longrightarrow> all_pfns d = all_pfns c @ raw_submits ev c"
proof (cases ev)
  case (EvRecv e got)
  assume "raw_step ev c = Inr d"
  then show ?thesis
    by (auto simp: EvRecv raw__OnRecvCallback_def intro: all_pfns_OnRecv all_pfns_raw_DoRecv)
qed (auto simp: all_pfns_ops conn_Send_def conn_SendV_def all_pfns_emit dest: raw_run_task_fifo)

interpretation tcp_queue: send_queue tcp_step tcp_submits "\<lambda>c. completions (io c)" queued_pfns
  by unfold_locales (use tcp_step_fifo in \<open>simp add: all_pfns_def\<close>)

interpretation raw_queue: send_queue raw_step raw_submits "\<lambda>c. completions (io c)" queued_pfns
  by unfold_locales (use raw_step_fifo in \<open>simp add: all_pfns_def\<close>)

subsection \<open>Properties of a connection\<close>

text \<open>C26: a connection tells its owner about its end at most once, however many of its writes and
  reads fail and in whatever order asio runs their handlers; after Close it makes no callback at
  all, so an owner that has closed a connection never hears of it again.\<close>

theorem notified_once:
  "fold_result tcp_step evs c = Inr c' \<Longrightarrow> fold_result raw_step evs' r = Inr r' \<Longrightarrow>
    disconnects (io c') \<le> disconnects (io c) + 1 \<and> disconnects (io r') \<le> disconnects (io r) + 1"
  using tcp_object.run_disconnects [of evs c c'] raw_object.run_disconnects [of evs' r r']
  by (auto simp: of_bool_def split: if_splits)

theorem notified_once_witness:
  "disconnects (io (conn__Shutdown EndOfFile
     (conn__Shutdown (OsError 104) ((new_raw_conn :: unit conn)\<lparr>on_disconnect := True\<rparr>)))) \<le> 1"
proof -
  let ?r = "(new_raw_conn :: unit conn)\<lparr>on_disconnect := True\<rparr>"
  let ?c = "(new_tcp_conn :: unit tcp_conn)"
  have "fold_result raw_step [EvRecv (Some (OsError 104)) [], EvRecv (Some EndOfFile) []] ?r
      = Inr (conn__Shutdown EndOfFile (conn__Shutdown (OsError 104) ?r))"
    by (simp add: raw__OnRecvCallback_def conn__OnRecvCallback_def)
  moreover have "fold_result tcp_step [] ?c = Inr ?c" by simp
  ultimately have "disconnects (io (conn__Shutdown EndOfFile (conn__Shutdown (OsError 104) ?r)))
      \<le> disconnects (io ?r) + 1"
    using notified_once by blast
  then show ?thesis by (simp add: new_raw_conn_def)
qed

text \<open>After Close a connection makes no callback at all, whatever handlers still run.\<close>

theorem closed_is_silent:
  "fold_result tcp_step evs (tcp_Close c) = Inr c' \<Longrightarrow> fold_result raw_step evs' (raw_Close r) = Inr r' \<Longrightarrow>
    disconnects (io c') = disconnects (io (tcp_Close c)) \<and> received (io c') = received (io (tcp_Close c))
    \<and> disconnects (io r') = disconnects (io (raw_Close r)) \<and> received (io r') = received (io (raw_Close r))"
  using tcp_object.run_silent [of evs "tcp_Close c" c'] raw_object.run_silent [of evs' "raw_Close r" r']
  by (simp add: tcp_Close_def raw_Close_def close_socket_def emit_def)

theorem closed_is_silent_witness:
  "received (io (conn__Shutdown EndOfFile (raw_Close (new_raw_conn :: unit conn)))) = []"
proof -
  let ?r = "new_raw_conn :: unit conn" and ?c = "new_tcp_conn :: unit tcp_conn"
  have "fold_result raw_step [EvRecv (Some EndOfFile) []] (raw_Close ?r)
      = Inr (conn__Shutdown EndOfFile (raw_Close ?r))"
    by (simp add: raw__OnRecvCallback_def conn__OnRecvCallback_def)
  moreover have "fold_result tcp_step [] (tcp_Close ?c) = Inr (tcp_Close ?c)" by simp
  ultimately have "received (io (conn__Shutdown EndOfFile (raw_Close ?r))) = received (io (raw_Close ?r))"
    using closed_is_silent by blast
  then show ?thesis by (simp add: new_raw_conn_def raw_Close_def close_socket_def)
qed

text \<open>C25: completions run in the order of the sends they came with, each at most once: at any
  time those already posted, followed by those still queued, are exactly the submitted ones.\<close>

theorem completions_fifo:
  assumes "fold_result tcp_step evs c = Inr c'" and "fold_result raw_step evs' r = Inr r'"
  shows "completions (io c') @ queued_pfns c'
      = completions (io c) @ queued_pfns c @ submitted tcp_submits tcp_step evs c
    \<and> completions (io r') @ queued_pfns r'
      = completions (io r) @ queued_pfns r @ submitted raw_submits raw_step evs' r"
  using tcp_queue.run_fifo [OF assms(1)] raw_queue.run_fifo [OF assms(2)] by simp

theorem completions_fifo_witness:
  "\<exists>r'. fold_result raw_step [EvRun (TSend [1] (Some ''a'')), EvRun (TSend [2] (Some ''b''))]
      (new_raw_conn\<lparr>socket := Some True\<rparr>) = Inr r'
    \<and> completions (io r') @ queued_pfns r' = [''a'', ''b'']"
proof -
  let ?r = "(new_raw_conn :: string conn)\<lparr>socket := Some True\<rparr>" and ?c = "new_tcp_conn :: string tcp_conn"
  let ?evs = "[EvRun (TSend [1] (Some ''a'')), EvRun (TSend [2] (Some ''b''))]"
  obtain r' where r: "fold_result raw_step ?evs ?r = Inr r'" by simp
  have "fold_result tcp_step [] ?c = Inr ?c" by simp
  from completions_fifo [OF this r] r show ?thesis
    by (simp add: new_raw_conn_def completions_def queued_pfns_def)
qed

text \<open>A packet whose header announces more than \<open>max_packet_size\<close> is never read: the
  connection shuts its socket down and reports \<open>invalid_argument\<close>; any other header is
  answered by reading exactly that many bytes.\<close>

theorem header_checked:
  assumes "recving_pkt c = Some []" and "socket c = Some True" and "on_disconnect c"
  shows "tcp_step (EvHead None (packet_header_of n)) c =
    (let l = word_of_nat n; d = c\<lparr>packet_header := packet_header_of n\<rparr>
     in if max_packet_length c > 0 \<and> l > max_packet_length c
        then Inr (emit (CallDisconnect InvalidArgument) (emit SockShutdown d)\<lparr>on_disconnect := False\<rparr>)
        else Inr (emit (AsyncReadBody l) d))"
proof -
  have "get32 (packet_header_of n) 0 = word_of_nat n"
    using get32_put32 [of 0 "[]" "word_of_nat n" "[]"] by (simp add: packet_header_of_def)
  with assms show ?thesis
    by (simp add: tcp__OnHeadRecvCallback_def conn__Shutdown_def emit_def Let_def)
qed

theorem header_checked_witness:
  "tcp_step (EvHead None (packet_header_of 200000)) ((new_tcp_conn :: unit tcp_conn)
      \<lparr>recving_pkt := Some [], socket := Some True, on_disconnect := True, max_packet_length := 112640\<rparr>)
    = Inr (emit (CallDisconnect InvalidArgument) (emit SockShutdown (new_tcp_conn
      \<lparr>recving_pkt := Some [], socket := Some True, on_disconnect := True, max_packet_length := 112640,
       packet_header := packet_header_of 200000\<rparr>))\<lparr>on_disconnect := False\<rparr>)"
  by (subst header_checked) (simp_all add: new_tcp_conn_def)

text \<open>Once a framed connection has been closed, Send is ignored but SendV throws
  \<open>bad_function_call\<close>, and so does resuming its receive: both call the allocator that Close
  has cleared, without the check Send makes.\<close>

theorem closed_framed_connection:
  assumes "socket c \<noteq> None" and "recving_pkt c = None"
  shows "tcp_step (EvRun (TSend data pfn)) (tcp_Close c) = Inr (tcp_Close c)
    \<and> tcp_step (EvRun (TSendV datas pfn)) (tcp_Close c) = Inl BadFunctionCall
    \<and> (\<not> blocking_recv c \<longrightarrow> tcp_step (EvRun TDoRecv) (tcp_Close c) = Inl BadFunctionCall)"
  using assms
  by (auto simp: tcp__Send_def tcp__SendV_def tcp__DoRecv_def conn__DoRecv_def tcp_Close_def
      close_socket_def emit_def Let_def)

theorem closed_framed_connection_witness:
  "tcp_step (EvRun (TSendV [[1], [2]] None)) (tcp_Close (new_tcp_conn :: unit tcp_conn)) = Inl BadFunctionCall"
  using closed_framed_connection [of "new_tcp_conn :: unit tcp_conn"]
  by (simp add: new_tcp_conn_def)

end
