(* ===== verification/Link.thy ===== *)
theory Link
  imports Connection_Props
begin

text \<open>
  Two framed connections joined by a TCP stream: the send queue of one end, the bytes in flight,
  and the two-phase receive (header, then body) of the other.  \<open>link_step\<close> runs the handlers
  of \<open>Connection\<close> when asio would: a write goes out in chunks and completes once all of it is
  on the wire, a read completes when as many bytes as it asked for have arrived.  The
  requests a handler makes (\<open>io\<close>) are taken over by \<open>drain_tx\<close> and \<open>drain_rx\<close>; a
  \<open>__DoRecv\<close> that BlockRecv has posted is counted in \<open>resumes\<close> until it runs, and it runs
  only when it has been posted.
\<close>

definition frame :: "bytes \<Rightarrow> bytes" where
  "frame data = packet_header_of (length data) @ data"

datatype read_req = RHead | RBody u32

record 'p link =
  tx_conn :: "'p tcp_conn"
  rx_conn :: "'p tcp_conn"
  flight :: "bytes option"      \<comment> \<open>what is left of the write in progress\<close>
  wire :: bytes                  \<comment> \<open>written and not yet read\<close>
  pend_read :: "read_req option"
  resumes :: nat                 \<comment> \<open>\<open>__DoRecv\<close> handlers posted and not yet run\<close>
  sent :: "bytes list"           \<comment> \<open>the payloads submitted, in order\<close>
  got :: "bytes list"            \<comment> \<open>the payloads delivered to \<open>on_recv\<close>, in order\<close>

fun absorb_tx :: "'p io_call \<Rightarrow> 'p link \<Rightarrow> 'p link" where
  "absorb_tx (AsyncWrite b) l = l\<lparr>flight := Some b\<rparr>"
| "absorb_tx _ l = l"

fun absorb_rx :: "'p io_call \<Rightarrow> 'p link \<Rightarrow> 'p link" where
  "absorb_rx AsyncReadHead l = l\<lparr>pend_read := Some RHead\<rparr>"
| "absorb_rx (AsyncReadBody n) l = l\<lparr>pend_read := Some (RBody n)\<rparr>"
| "absorb_rx (CallRecv b) l = l\<lparr>got := got l @ [b]\<rparr>"
| "absorb_rx (Post TDoRecv) l = l\<lparr>resumes := Suc (resumes l)\<rparr>"
| "absorb_rx _ l = l"

definition drain_tx :: "'p tcp_conn \<Rightarrow> 'p link \<Rightarrow> 'p link" where
  "drain_tx c l = fold absorb_tx (io c) (l\<lparr>tx_conn := c\<lparr>io := []\<rparr>\<rparr>)"

definition drain_rx :: "'p tcp_conn \<Rightarrow> 'p link \<Rightarrow> 'p link" where
  "drain_rx c l = fold absorb_rx (io c) (l\<lparr>rx_conn := c\<lparr>io := []\<rparr>\<rparr>)"

text \<open>The handlers asio runs, each for what it has been asked before.\<close>

inductive link_handler :: "'p link \<Rightarrow> 'p link \<Rightarrow> bool" where
  lh_chunk: "flight l = Some (a @ b) \<Longrightarrow> a \<noteq> [] \<Longrightarrow>
    link_handler l (l\<lparr>flight := Some b, wire := wire l @ a\<rparr>)"
| lh_written: "flight l = Some [] \<Longrightarrow>
    link_handler l (drain_tx (conn__OnSendCallback None (tx_conn l)) (l\<lparr>flight := None\<rparr>))"
| lh_head: "pend_read l = Some RHead \<Longrightarrow> wire l = hdr @ rest \<Longrightarrow>
    length hdr = PACKET_HEADER_LENGTH \<Longrightarrow>
    tcp_step (EvHead None hdr) (rx_conn l) = Inr c \<Longrightarrow>
    link_handler l (drain_rx c (l\<lparr>wire := rest, pend_read := None\<rparr>))"
| lh_body: "pend_read l = Some (RBody n) \<Longrightarrow> wire l = data @ rest \<Longrightarrow> length data = unat n \<Longrightarrow>
    tcp_step (EvRecv None data) (rx_conn l) = Inr c \<Longrightarrow>
    link_handler l (drain_rx c (l\<lparr>wire := rest, pend_read := None\<rparr>))"
| lh_resume: "resumes l = Suc n \<Longrightarrow> tcp_run_task TDoRecv (rx_conn l) = Inr c \<Longrightarrow>
    link_handler l (drain_rx c (l\<lparr>resumes := n\<rparr>))"

text \<open>Beside the handlers, the owner of the sender submits payloads, and the owner of the receiver blocks
  and resumes it.\<close>

inductive link_step :: "'p link \<Rightarrow> 'p link \<Rightarrow> bool" where
  ls_send: "link_step l (drain_tx (tcp__Send data pfn (tx_conn l)) (l\<lparr>sent := sent l @ [data]\<rparr>))"
| ls_sendv: "tcp__SendV datas pfn (tx_conn l) = Inr c \<Longrightarrow>
    link_step l (drain_tx c (l\<lparr>sent := sent l @ [concat datas]\<rparr>))"
| ls_block: "link_step l (drain_rx (conn_BlockRecv b (rx_conn l)) l)"
| ls_handler: "link_handler l l' \<Longrightarrow> link_step l l'"

text \<open>Both ends connected, the receiver waiting for its first header; \<open>d\<close> is the sender's
  \<open>packet_defragment\<close>, \<open>m\<close> the receiver's \<open>max_packet_size\<close>.\<close>

definition link_init :: "int \<Rightarrow> u32 \<Rightarrow> 'p link" where
  "link_init d m = \<lparr>
     tx_conn = new_tcp_conn\<lparr>on_allocbuf := True, socket := Some True, defragment := d\<rparr>,
     rx_conn = new_tcp_conn\<lparr>on_allocbuf := True, on_disconnect := True, on_recv := True,
       socket := Some True, max_packet_length := m, recving_pkt := Some []\<rparr>,
     flight = None, wire = [], pend_read = Some RHead, resumes = 0, sent = [], got = []\<rparr>"

inductive link_reach :: "int \<Rightarrow> u32 \<Rightarrow> 'p link \<Rightarrow> bool" for d m where
  lr_init: "link_reach d m (link_init d m)"
| lr_step: "link_reach d m l \<Longrightarrow> link_step l l' \<Longrightarrow> link_reach d m l'"

text \<open>The payloads a receiver with limit \<open>m\<close> takes: their size fits the 32-bit header, and the
  limit if there is one.\<close>

definition fits :: "u32 \<Rightarrow> bytes \<Rightarrow> bool" where
  "fits m p \<longleftrightarrow> length p < 2 ^ 32 \<and> (m > 0 \<longrightarrow> length p \<le> unat m)"

subsection \<open>The sender\<close>

definition queued :: "('p, 'z) conn_scheme \<Rightarrow> bytes" where
  "queued c = concat (map fst (outgoing_queue c))"

definition transit :: "'p link \<Rightarrow> bytes" where
  "transit l = wire l @ (case flight l of None \<Rightarrow> [] | Some b \<Rightarrow> b) @ queued (tx_conn l)"

definition tx_ok :: "'p link \<Rightarrow> bool" where
  "tx_ok l \<longleftrightarrow> (sending_pkt (tx_conn l) = None) = (flight l = None)
     \<and> (flight l = None \<longrightarrow> outgoing_queue (tx_conn l) = [])
     \<and> io (tx_conn l) = [] \<and> on_allocbuf (tx_conn l) \<and> socket (tx_conn l) = Some True"

definition rx_part :: "'p link \<Rightarrow> 'p tcp_conn \<times> read_req option \<times> nat \<times> bytes list" where
  "rx_part l = (rx_conn l, pend_read l, resumes l, got l)"

lemma last_pfn_bytes: "concat (map fst (last_pfn ds pfn)) = concat ds"
  by (induction ds pfn rule: last_pfn.induct) auto

text \<open>Queueing buffers puts exactly their bytes behind what is in transit.\<close>

lemma drain_push:
  assumes "tx_ok l" and "ps \<noteq> []"
  shows "tx_ok (drain_tx (conn__DoSend (push ps (tx_conn l))) l)"
    and "transit (drain_tx (conn__DoSend (push ps (tx_conn l))) l) = transit l @ concat (map fst ps)"
    and "rx_part (drain_tx (conn__DoSend (push ps (tx_conn l))) l) = rx_part l"
    and "sent (drain_tx (conn__DoSend (push ps (tx_conn l))) l) = sent l"
  using assms
  by (cases ps; cases "flight l";
      auto simp: tx_ok_def drain_tx_def conn__DoSend_def push_def emit_def transit_def queued_def
        rx_part_def Let_def split: option.splits)+

lemma drain_written:
  assumes "tx_ok l" and "flight l = Some []"
  shows "tx_ok (drain_tx (conn__OnSendCallback None (tx_conn l)) (l\<lparr>flight := None\<rparr>))"
    and "transit (drain_tx (conn__OnSendCallback None (tx_conn l)) (l\<lparr>flight := None\<rparr>)) = transit l"
    and "rx_part (drain_tx (conn__OnSendCallback None (tx_conn l)) (l\<lparr>flight := None\<rparr>)) = rx_part l"
    and "sent (drain_tx (conn__OnSendCallback None (tx_conn l)) (l\<lparr>flight := None\<rparr>)) = sent l"
  using assms
  by (cases "outgoing_queue (tx_conn l)";
      auto simp: tx_ok_def drain_tx_def conn__OnSendCallback_def conn__DoSend_def emit_def
        transit_def queued_def rx_part_def Let_def split: option.splits)+

text \<open>Send and SendV queue the same bytes: the frame of the payload.  \<open>packet_defragment\<close>
  and the split of the payload into buffers only decide how the bytes are grouped.\<close>

lemma Send_push: "on_allocbuf c \<Longrightarrow>
    \<exists>ps. ps \<noteq> [] \<and> concat (map fst ps) = frame data \<and> tcp__Send data pfn c = conn__DoSend (push ps c)"
  by (intro exI [of _ "if defragment c = 0 then [(packet_header_of (length data), None), (data, pfn)]
      else [(packet_header_of (length data) @ data, pfn)]"])
    (simp add: tcp__Send_def frame_def)

lemma SendV_push: "tcp__SendV datas pfn c = Inr c' \<Longrightarrow>
    \<exists>ps. ps \<noteq> [] \<and> concat (map fst ps) = frame (concat datas) \<and> c' = conn__DoSend (push ps c)"
  by (intro exI [of _ "if defragment c = 0
        then (packet_header_of (sum_list (map length datas)), None) # last_pfn datas pfn
        else [(packet_header_of (sum_list (map length datas)) @ concat datas, pfn)]"])
    (auto simp: tcp__SendV_def frame_def length_concat last_pfn_bytes Let_def split: if_splits)

lemma sent_update [simp]:
  "tx_ok (l\<lparr>sent := x\<rparr>) = tx_ok l" "transit (l\<lparr>sent := x\<rparr>) = transit l" "rx_part (l\<lparr>sent := x\<rparr>) = rx_part l"
  by (simp_all add: tx_ok_def transit_def rx_part_def)

subsection \<open>The receiver\<close>

text \<open>A receiver that reads nothing is blocked, or the handler that resumes it has been posted.\<close>

definition rx_ok :: "u32 \<Rightarrow> 'p link \<Rightarrow> bool" where
  "rx_ok m l \<longleftrightarrow> io (rx_conn l) = [] \<and> on_allocbuf (rx_conn l) \<and> on_recv (rx_conn l)
     \<and> socket (rx_conn l) = Some True \<and> max_packet_length (rx_conn l) = m
     \<and> recving_pkt (rx_conn l) = (if pend_read l = None then None else Some [])
     \<and> (pend_read l = None \<longrightarrow> blocking_recv (rx_conn l) \<or> resumes l \<noteq> 0)"

text \<open>What is in transit is the rest of what was sent: whole frames, or, once a header has been
  read, the body it announced followed by whole frames.\<close>

definition stream_ok :: "'p link \<Rightarrow> bool" where
  "stream_ok l \<longleftrightarrow>
     (case pend_read l of
        Some (RBody n) \<Rightarrow> \<exists>p rest. sent l = got l @ p # rest \<and> length p = unat n
                            \<and> transit l = p @ concat (map frame rest)
      | _ \<Rightarrow> \<exists>rest. sent l = got l @ rest \<and> transit l = concat (map frame rest))"

definition link_inv :: "u32 \<Rightarrow> 'p link \<Rightarrow> bool" where
  "link_inv m l \<longleftrightarrow> tx_ok l \<and> rx_ok m l \<and> stream_ok l"

lemma rx_ok_part: "rx_part l' = rx_part l \<Longrightarrow> rx_ok m l' = rx_ok m l"
  by (simp add: rx_ok_def rx_part_def)

lemma stream_ok_same:
  "rx_part l' = rx_part l \<Longrightarrow> transit l' = transit l \<Longrightarrow> sent l' = sent l \<Longrightarrow> stream_ok l' = stream_ok l"
proof -
  assume a: "rx_part l' = rx_part l" "transit l' = transit l" "sent l' = sent l"
  then have "pend_read l' = pend_read l" "got l' = got l" by (auto simp: rx_part_def)
  with a show ?thesis by (simp add: stream_ok_def split: option.splits read_req.splits)
qed

lemma stream_ok_send:
  assumes "stream_ok l" "rx_part l' = rx_part l" "transit l' = transit l @ frame p" "sent l' = sent l @ [p]"
  shows "stream_ok l'"
proof -
  have same: "pend_read l' = pend_read l" "got l' = got l" using assms(2) by (auto simp: rx_part_def)
  show ?thesis
  proof (cases "\<exists>n. pend_read l = Some (RBody n)")
    case True
    then obtain n q rest where "pend_read l = Some (RBody n)" "sent l = got l @ q # rest"
      "length q = unat n" "transit l = q @ concat (map frame rest)"
      using assms(1) by (auto simp: stream_ok_def)
    with assms same show ?thesis by (auto simp: stream_ok_def intro!: exI [of _ q] exI [of _ "rest @ [p]"])
  next
    case False
    then obtain rest where "sent l = got l @ rest" "transit l = concat (map frame rest)"
      using assms(1) by (auto simp: stream_ok_def split: option.splits read_req.splits)
    with False assms same show ?thesis
      by (auto simp: stream_ok_def intro!: exI [of _ "rest @ [p]"] split: option.splits read_req.splits)
  qed
qed

lemma inv_send:
  assumes "link_inv m l" "ps \<noteq> []" "concat (map fst ps) = frame p"
  shows "link_inv m (drain_tx (conn__DoSend (push ps (tx_conn l))) (l\<lparr>sent := sent l @ [p]\<rparr>))"
proof -
  let ?l = "l\<lparr>sent := sent l @ [p]\<rparr>"
  let ?l' = "drain_tx (conn__DoSend (push ps (tx_conn l))) ?l"
  have tx: "tx_ok ?l" and rx: "rx_ok m ?l" using assms(1) by (auto simp: link_inv_def rx_ok_def)
  have d: "tx_ok ?l'" "transit ?l' = transit l @ frame p" "rx_part ?l' = rx_part ?l" "sent ?l' = sent ?l"
    using drain_push [OF tx assms(2)] assms(3) by simp_all
  have "stream_ok ?l'"
    by (rule stream_ok_send [of l]) (use d assms(1) in \<open>simp_all add: link_inv_def\<close>)
  moreover have "rx_ok m ?l'" using rx rx_ok_part [OF d(3)] by blast
  ultimately show ?thesis using d(1) by (simp add: link_inv_def)
qed

text \<open>The first four bytes in transit are the header of the next payload.\<close>

lemma next_header:
  assumes "stream_ok l" "pend_read l = Some RHead" "wire l = hdr @ rest" "length hdr = 4"
  obtains p ps where "sent l = got l @ p # ps" "hdr = packet_header_of (length p)"
    "rest @ (case flight l of None \<Rightarrow> [] | Some b \<Rightarrow> b) @ queued (tx_conn l) = p @ concat (map frame ps)"
proof -
  from assms(1,2) obtain qs where qs: "sent l = got l @ qs" "transit l = concat (map frame qs)"
    by (auto simp: stream_ok_def)
  from assms(3,4) qs(2) obtain p ps where [simp]: "qs = p # ps"
    by (cases qs) (auto simp: transit_def)
  have "length hdr = length (packet_header_of (length p))"
    using assms(4) by (simp add: packet_header_of_def)
  with qs(2) assms(3) have "hdr = packet_header_of (length p)"
    "rest @ (case flight l of None \<Rightarrow> [] | Some b \<Rightarrow> b) @ queued (tx_conn l) = p @ concat (map frame ps)"
    by (simp_all add: transit_def frame_def)
  with qs(1) that show ?thesis by simp
qed

lemma header_length: "length p < 2 ^ 32 \<Longrightarrow> unat (get32 (packet_header_of (length p)) 0) = length p"
  using get32_put32 [of 0 "[]" "word_of_nat (length p)" "[]"]
  by (simp add: packet_header_of_def unsigned_of_nat take_bit_nat_eq_self)

lemma rx_head:
  assumes rx: "rx_ok m l" and pend: "pend_read l = Some RHead"
    and p: "fits m p" "hdr = packet_header_of (length p)"
    and step: "tcp_step (EvHead None hdr) (rx_conn l) = Inr c"
  shows "rx_ok m (drain_rx c (l\<lparr>wire := r, pend_read := None\<rparr>))"
    and "pend_read (drain_rx c (l\<lparr>wire := r, pend_read := None\<rparr>)) = Some (RBody (get32 hdr 0))"
    and "unat (get32 hdr 0) = length p"
proof -
  have len: "unat (get32 hdr 0) = length p"
    using p header_length [of p] by (simp add: fits_def)
  have "\<not> (m > 0 \<and> get32 hdr 0 > m)"
    using p(1) len by (auto simp: fits_def word_less_nat_alt)
  then have c: "c = emit (AsyncReadBody (get32 hdr 0)) (rx_conn l\<lparr>packet_header := hdr\<rparr>)"
    using step rx pend by (auto simp: tcp__OnHeadRecvCallback_def rx_ok_def)
  show "rx_ok m (drain_rx c (l\<lparr>wire := r, pend_read := None\<rparr>))"
    and "pend_read (drain_rx c (l\<lparr>wire := r, pend_read := None\<rparr>)) = Some (RBody (get32 hdr 0))"
    using rx pend by (auto simp: c rx_ok_def drain_rx_def emit_def)
  show "unat (get32 hdr 0) = length p" by (rule len)
qed

lemma drain_rx_frame [simp]:
  "tx_conn (drain_rx c l) = tx_conn l" "sent (drain_rx c l) = sent l"
  "wire (drain_rx c l) = wire l" "flight (drain_rx c l) = flight l"
proof -
  have "tx_conn (fold absorb_rx xs l) = tx_conn l \<and> sent (fold absorb_rx xs l) = sent l
      \<and> wire (fold absorb_rx xs l) = wire l \<and> flight (fold absorb_rx xs l) = flight l" for xs and l :: "'a link"
  proof (induction xs arbitrary: l)
    case (Cons x xs)
    then show ?case by (cases "(x, l)" rule: absorb_rx.cases) auto
  qed simp
  then show "tx_conn (drain_rx c l) = tx_conn l" "sent (drain_rx c l) = sent l"
    "wire (drain_rx c l) = wire l" "flight (drain_rx c l) = flight l"
    by (simp_all add: drain_rx_def)
qed

lemma rx_frame_inv [simp]:
  "tx_ok (drain_rx c l) = tx_ok l" "transit (drain_rx c l) = transit l"
  by (simp_all add: tx_ok_def transit_def)

lemma rx_body:
  assumes rx: "rx_ok m l" and pend: "pend_read l = Some (RBody n)"
    and step: "tcp_step (EvRecv None data) (rx_conn l) = Inr c"
  shows "rx_ok m (drain_rx c (l\<lparr>wire := r, pend_read := None\<rparr>))"
    and "pend_read (drain_rx c (l\<lparr>wire := r, pend_read := None\<rparr>)) \<in> {None, Some RHead}"
    and "got (drain_rx c (l\<lparr>wire := r, pend_read := None\<rparr>)) = got l @ [data]"
  using assms
  by (auto simp: rx_ok_def tcp__OnRecvCallback_def conn__OnRecvCallback_def tcp__DoRecv_def
      conn__DoRecv_def drain_rx_def emit_def Let_def split: if_splits)

lemma rx_resume:
  assumes rx: "rx_ok m l" and step: "tcp_run_task TDoRecv (rx_conn l) = Inr c"
  shows "rx_ok m (drain_rx c (l\<lparr>resumes := n\<rparr>))" and "got (drain_rx c (l\<lparr>resumes := n\<rparr>)) = got l"
    and "pend_read (drain_rx c (l\<lparr>resumes := n\<rparr>)) = pend_read l \<or>
      pend_read l = None \<and> pend_read (drain_rx c (l\<lparr>resumes := n\<rparr>)) = Some RHead"
  using assms
  by (auto simp: rx_ok_def tcp__DoRecv_def conn__DoRecv_def drain_rx_def emit_def split: if_splits)

lemma rx_block:
  assumes rx: "rx_ok m l"
  shows "rx_ok m (drain_rx (conn_BlockRecv b (rx_conn l)) l)"
    and "got (drain_rx (conn_BlockRecv b (rx_conn l)) l) = got l"
    and "pend_read (drain_rx (conn_BlockRecv b (rx_conn l)) l) = pend_read l"
  using assms by (auto simp: rx_ok_def conn_BlockRecv_def drain_rx_def emit_def Let_def)

lemma stream_ok_quiet:
  assumes "stream_ok l" "transit l' = transit l" "sent l' = sent l" "got l' = got l"
    "pend_read l' = pend_read l \<or> pend_read l = None \<and> pend_read l' = Some RHead"
  shows "stream_ok l'"
  using assms by (auto simp: stream_ok_def split: option.splits read_req.splits)

lemma drain_tx_sent [simp]: "sent (drain_tx c l) = sent l"
proof -
  have "sent (fold absorb_tx xs l) = sent l" for xs and l :: "'a link"
  proof (induction xs arbitrary: l)
    case (Cons x xs)
    then show ?case by (cases x) auto
  qed simp
  then show ?thesis by (simp add: drain_tx_def)
qed

text \<open>Every step keeps the invariant, as long as all that is sent fits the receiver.\<close>

lemma link_handler_inv:
  assumes "link_handler l l'" "link_inv m l" "\<forall>p \<in> set (sent l). fits m p"
  shows "link_inv m l'"
  using assms
proof (induction rule: link_handler.induct)
  case (lh_chunk l a b)
  let ?l = "l\<lparr>flight := Some b, wire := wire l @ a\<rparr>"
  have "rx_part ?l = rx_part l" and "transit ?l = transit l"
    using lh_chunk by (auto simp: rx_part_def transit_def)
  then have "stream_ok ?l" and "rx_ok m ?l"
    using lh_chunk stream_ok_same [of ?l l] rx_ok_part [of ?l l m] by (auto simp: link_inv_def)
  then show ?case using lh_chunk by (auto simp: link_inv_def tx_ok_def)
next
  case (lh_written l)
  then have tx: "tx_ok l" and fl: "flight l = Some []" by (auto simp: link_inv_def)
  note d = drain_written [OF tx fl]
  show ?case using lh_written d stream_ok_same [OF d(3) d(2) d(4)] rx_ok_part [OF d(3)]
    by (auto simp: link_inv_def)
next
  case (lh_head l hdr rest c)
  then have inv: "tx_ok l" "rx_ok m l" "stream_ok l" by (auto simp: link_inv_def)
  obtain p ps where p: "sent l = got l @ p # ps" "hdr = packet_header_of (length p)"
    "rest @ (case flight l of None \<Rightarrow> [] | Some b \<Rightarrow> b) @ queued (tx_conn l) = p @ concat (map frame ps)"
    using next_header [OF inv(3) lh_head(1,2)] lh_head(3) by (auto simp: PACKET_HEADER_LENGTH_def)
  with lh_head have "fits m p" by simp
  note h = rx_head(1,2) [OF inv(2) lh_head(1) this p(2) lh_head(4), of rest]
    rx_head(3) [OF inv(2) lh_head(1) this p(2) lh_head(4)]
  let ?l = "drain_rx c (l\<lparr>wire := rest, pend_read := None\<rparr>)"
  have "got ?l = got l" using lh_head(4) inv(2) \<open>fits m p\<close> lh_head(1)
    by (auto simp: drain_rx_def tcp__OnHeadRecvCallback_def conn__Shutdown_def rx_ok_def emit_def Let_def
        split: if_splits)
  with h p have "stream_ok ?l" by (auto simp: stream_ok_def transit_def intro!: exI [of _ p])
  with h inv show ?case by (simp add: link_inv_def tx_ok_def)
next
  case (lh_body l n data rest c)
  then have inv: "tx_ok l" "rx_ok m l" "stream_ok l" by (auto simp: link_inv_def)
  let ?l = "drain_rx c (l\<lparr>wire := rest, pend_read := None\<rparr>)"
  note b = rx_body [OF inv(2) lh_body(1) lh_body(4), of rest]
  from inv(3) lh_body(1) obtain p ps where "sent l = got l @ p # ps" "length p = unat n"
    "transit l = p @ concat (map frame ps)" by (auto simp: stream_ok_def)
  moreover from this lh_body(2,3) have "data = p" "transit ?l = concat (map frame ps)"
    by (auto simp: transit_def append_eq_append_conv)
  ultimately have "stream_ok ?l" using b by (auto simp: stream_ok_def)
  with b inv show ?case by (simp add: link_inv_def tx_ok_def)
next
  case (lh_resume l n c)
  have "tx_ok (l\<lparr>resumes := n\<rparr>) = tx_ok l" "transit (l\<lparr>resumes := n\<rparr>) = transit l"
    by (simp_all add: tx_ok_def transit_def)
  then show ?case using lh_resume rx_resume [of m l c n] stream_ok_quiet [of l "drain_rx c (l\<lparr>resumes := n\<rparr>)"]
    by (auto simp: link_inv_def)
qed

lemma link_handler_sent: "link_handler l l' \<Longrightarrow> sent l' = sent l"
  by (induction rule: link_handler.induct) simp_all

lemma link_step_inv:
  assumes "link_step l l'" "link_inv m l" "\<forall>p \<in> set (sent l'). fits m p"
  shows "link_inv m l'"
  using assms
proof (induction rule: link_step.induct)
  case (ls_send l data pfn)
  then have "on_allocbuf (tx_conn l)" by (simp add: link_inv_def tx_ok_def)
  then obtain ps where "ps \<noteq> []" "concat (map fst ps) = frame data"
    "tcp__Send data pfn (tx_conn l) = conn__DoSend (push ps (tx_conn l))"
    using Send_push by blast
  then show ?case using ls_send inv_send by metis
next
  case (ls_sendv datas pfn l c)
  then obtain ps where "ps \<noteq> []" "concat (map fst ps) = frame (concat datas)"
    "c = conn__DoSend (push ps (tx_conn l))"
    using SendV_push by blast
  then show ?case using ls_sendv inv_send by metis
next
  case (ls_block l b)
  then show ?case using rx_block [of m l b]
    by (auto simp: link_inv_def intro: stream_ok_quiet [of l])
next
  case (ls_handler l l')
  then show ?case using link_handler_inv link_handler_sent by metis
qed

lemma link_init_inv: "link_inv m (link_init d m)"
  by (simp add: link_inv_def tx_ok_def rx_ok_def stream_ok_def transit_def queued_def
      link_init_def new_tcp_conn_def)

text \<open>Nothing that was sent is ever unsent, so the limit on a later state covers an earlier.\<close>

lemma link_step_sent: "link_step l l' \<Longrightarrow> set (sent l) \<subseteq> set (sent l')"
  by (induction rule: link_step.induct) (auto simp: link_handler_sent)

lemma link_reach_inv:
  "link_reach d m l \<Longrightarrow> \<forall>p \<in> set (sent l). fits m p \<Longrightarrow> link_inv m l"
proof (induction rule: link_reach.induct)
  case lr_init
  show ?case by (rule link_init_inv)
next
  case (lr_step l l')
  then have "\<forall>p \<in> set (sent l). fits m p" using link_step_sent by blast
  with lr_step show ?case using link_step_inv by blast
qed

subsection \<open>Progress\<close>

text \<open>The work left: bytes in transit, buffers still queued, the write and the read in progress.\<close>

definition work :: "'p link \<Rightarrow> nat" where
  "work l = 2 * length (transit l) + 2 * length (outgoing_queue (tx_conn l))
     + (case flight l of None \<Rightarrow> 0 | Some b \<Rightarrow> if b = [] then 1 else 2)
     + (case pend_read l of None \<Rightarrow> 1 | Some RHead \<Rightarrow> 0 | Some (RBody n) \<Rightarrow> 2)"

definition advances :: "'p link \<Rightarrow> 'p link \<Rightarrow> bool" where
  "advances l l' \<longleftrightarrow> link_handler l l' \<and> sent l' = sent l \<and> \<not> blocking_recv (rx_conn l') \<and> work l' < work l"

lemma advance_chunk:
  assumes "flight l = Some b" "b \<noteq> []" "\<not> blocking_recv (rx_conn l)"
  shows "\<exists>l'. advances l l'"
proof
  have "link_handler l (l\<lparr>flight := Some [], wire := wire l @ b\<rparr>)"
    by (rule lh_chunk [of l b "[]"]) (use assms in simp_all)
  with assms show "advances l (l\<lparr>flight := Some [], wire := wire l @ b\<rparr>)"
    by (auto simp: advances_def work_def transit_def)
qed

lemma advance_written:
  assumes "tx_ok l" "flight l = Some []" "\<not> blocking_recv (rx_conn l)"
  shows "\<exists>l'. advances l l'"
proof
  let ?l = "drain_tx (conn__OnSendCallback None (tx_conn l)) (l\<lparr>flight := None\<rparr>)"
  note d = drain_written [OF assms(1,2)]
  have "2 * length (outgoing_queue (tx_conn ?l)) + (case flight ?l of None \<Rightarrow> 0 | Some b \<Rightarrow> if b = [] then 1 else 2)
      \<le> 2 * length (outgoing_queue (tx_conn l))"
    using assms(1,2)
    by (cases "outgoing_queue (tx_conn l)")
      (auto simp: tx_ok_def drain_tx_def conn__OnSendCallback_def conn__DoSend_def emit_def Let_def
        split: option.splits)
  moreover have "pend_read ?l = pend_read l" "rx_conn ?l = rx_conn l"
    using d(3) by (auto simp: rx_part_def)
  ultimately have "work ?l < work l" using d(2) assms(2) by (simp add: work_def)
  then show "advances l ?l" using assms d(4) lh_written \<open>rx_conn ?l = rx_conn l\<close>
    by (auto simp: advances_def)
qed

lemma advance_resume:
  assumes "rx_ok m l" "pend_read l = None" "\<not> blocking_recv (rx_conn l)"
  shows "\<exists>l'. advances l l'"
proof -
  let ?c = "emit AsyncReadHead (rx_conn l\<lparr>recving_pkt := Some []\<rparr>)"
  have "resumes l \<noteq> 0" using assms by (simp add: rx_ok_def)
  then obtain n where n: "resumes l = Suc n" by (cases "resumes l") auto
  let ?l = "drain_rx ?c (l\<lparr>resumes := n\<rparr>)"
  have "tcp_run_task TDoRecv (rx_conn l) = Inr ?c"
    using assms by (auto simp: rx_ok_def tcp__DoRecv_def conn__DoRecv_def)
  then have "link_handler l ?l" by (rule lh_resume [OF n])
  moreover have "pend_read ?l = Some RHead" "rx_conn ?l = rx_conn l\<lparr>recving_pkt := Some []\<rparr>" "transit ?l = transit l"
    using assms(1) by (auto simp: drain_rx_def emit_def rx_ok_def transit_def)
  ultimately have "advances l ?l" using assms(2,3) by (simp add: advances_def work_def)
  then show ?thesis by blast
qed

lemma idle_wire: "tx_ok l \<Longrightarrow> flight l = None \<Longrightarrow> transit l = wire l"
  by (simp add: tx_ok_def transit_def queued_def)

lemma advance_head:
  assumes inv: "link_inv m l" and fit: "\<forall>p \<in> set (sent l). fits m p"
    and idle: "flight l = None" and pend: "pend_read l = Some RHead"
    and open_flow: "\<not> blocking_recv (rx_conn l)" and rest: "got l \<noteq> sent l"
  shows "\<exists>l'. advances l l'"
proof -
  have tx: "tx_ok l" and rx: "rx_ok m l" and st: "stream_ok l" using inv by (auto simp: link_inv_def)
  from st pend rest obtain p ps where "sent l = got l @ p # ps"
    and t: "transit l = concat (map frame (p # ps))"
    by (auto simp: stream_ok_def neq_Nil_conv)
  then have fp: "fits m p" using fit by simp
  let ?hdr = "packet_header_of (length p)" and ?r = "p @ concat (map frame ps)"
  have w: "wire l = ?hdr @ ?r" using idle_wire [OF tx idle] t by (simp add: frame_def)
  have len: "length ?hdr = 4" by (simp add: packet_header_of_def)
  have "unat (get32 ?hdr 0) = length p" using fp header_length [of p] by (simp add: fits_def)
  then have "\<not> (m > 0 \<and> get32 ?hdr 0 > m)" using fp by (auto simp: fits_def word_less_nat_alt)
  then obtain c where c: "tcp_step (EvHead None ?hdr) (rx_conn l) = Inr c"
    and cc: "c = emit (AsyncReadBody (get32 ?hdr 0)) (rx_conn l\<lparr>packet_header := ?hdr\<rparr>)"
    using rx pend by (auto simp: tcp__OnHeadRecvCallback_def rx_ok_def)
  let ?l = "drain_rx c (l\<lparr>wire := ?r, pend_read := None\<rparr>)"
  have step: "link_handler l ?l" using lh_head [OF pend w _ c] len by (simp add: PACKET_HEADER_LENGTH_def)
  have "pend_read ?l = Some (RBody (get32 ?hdr 0))"
    using rx_head(2) [OF rx pend fp refl c] .
  moreover have "transit ?l = ?r" using tx idle by (simp add: transit_def tx_ok_def queued_def)
  moreover have "length (transit l) = 4 + length ?r" using idle_wire [OF tx idle] w len by simp
  ultimately have "work ?l < work l" using idle pend by (simp add: work_def)
  moreover have "\<not> blocking_recv (rx_conn ?l)" using open_flow rx by (simp add: cc drain_rx_def emit_def rx_ok_def)
  ultimately show ?thesis using step by (auto simp: advances_def)
qed

lemma advance_body:
  assumes inv: "link_inv m l" and idle: "flight l = None" and pend: "pend_read l = Some (RBody n)"
    and open_flow: "\<not> blocking_recv (rx_conn l)"
  shows "\<exists>l'. advances l l'"
proof -
  have tx: "tx_ok l" and rx: "rx_ok m l" and st: "stream_ok l" using inv by (auto simp: link_inv_def)
  from st pend obtain p ps where p: "length p = unat n" and t: "transit l = p @ concat (map frame ps)"
    by (auto simp: stream_ok_def)
  have w: "wire l = p @ concat (map frame ps)" using idle_wire [OF tx idle] t by simp
  obtain c where c: "tcp_step (EvRecv None p) (rx_conn l) = Inr c"
    and cc: "c = emit AsyncReadHead (emit (CallRecv p) (rx_conn l)\<lparr>recving_pkt := Some []\<rparr>)"
    using rx pend open_flow
    by (auto simp: rx_ok_def tcp__OnRecvCallback_def conn__OnRecvCallback_def tcp__DoRecv_def
        conn__DoRecv_def emit_def)
  let ?l = "drain_rx c (l\<lparr>wire := concat (map frame ps), pend_read := None\<rparr>)"
  have step: "link_handler l ?l" by (rule lh_body [OF pend w p c])
  have "pend_read ?l = Some RHead" using rx by (simp add: cc drain_rx_def emit_def rx_ok_def)
  moreover have "length (transit ?l) \<le> length (transit l)"
    using tx idle t by (simp add: transit_def tx_ok_def queued_def)
  ultimately have "work ?l < work l" using idle pend by (simp add: work_def)
  moreover have "\<not> blocking_recv (rx_conn ?l)" using open_flow rx by (simp add: cc drain_rx_def emit_def rx_ok_def)
  ultimately show ?thesis using step by (auto simp: advances_def)
qed

lemma link_progress:
  assumes "link_inv m l" "\<forall>p \<in> set (sent l). fits m p" "\<not> blocking_recv (rx_conn l)" "got l \<noteq> sent l"
  shows "\<exists>l'. advances l l'"
proof -
  have tx: "tx_ok l" and rx: "rx_ok m l" using assms(1) by (auto simp: link_inv_def)
  consider (resume) "pend_read l = None" | (chunk) b where "flight l = Some b" "b \<noteq> []"
    | (written) "flight l = Some []" | (head) "flight l = None" "pend_read l = Some RHead"
    | (body) n where "flight l = None" "pend_read l = Some (RBody n)"
    by (metis not_None_eq read_req.exhaust)
  then show ?thesis
    using advance_resume [OF rx _ assms(3)] advance_chunk advance_written [OF tx _ assms(3)]
      advance_head [OF assms(1,2)] advance_body [OF assms(1)] assms by cases blast+
qed

lemma link_completes:
  assumes "link_inv m l" "\<forall>p \<in> set (sent l). fits m p" "\<not> blocking_recv (rx_conn l)"
  shows "\<exists>l'. link_handler\<^sup>*\<^sup>* l l' \<and> sent l' = sent l \<and> got l' = sent l"
  using assms
proof (induction "work l" arbitrary: l rule: less_induct)
  case less
  show ?case
  proof (cases "got l = sent l")
    case True
    then show ?thesis by blast
  next
    case False
    then obtain l' where l': "link_handler l l'" "sent l' = sent l" "\<not> blocking_recv (rx_conn l')" "work l' < work l"
      using link_progress [OF less.prems False] by (auto simp: advances_def)
    moreover have "link_inv m l'" using link_handler_inv [OF l'(1) less.prems(1)] less.prems(2) l'(2) by simp
    ultimately obtain l2 where "link_handler\<^sup>*\<^sup>* l' l2" "sent l2 = sent l" "got l2 = sent l"
      using less.hyps [of l'] less.prems(2) by auto
    with l'(1) show ?thesis by (meson converse_rtranclp_into_rtranclp)
  qed
qed

subsection \<open>Properties of the framed stream\<close>

text \<open>C1: over a TCP stream, a receiver gets exactly the payloads that were submitted, whole, in
  order and without duplicates, up to where delivery has come: however Send and SendV split the
  payload into buffers, with \<open>packet_defragment\<close> on or off, in whatever chunks the bytes
  travel, and whenever the receiver is blocked and resumed.\<close>

theorem stream_delivers_in_order:
  "link_reach d m l \<Longrightarrow> list_all (fits m) (sent l) \<Longrightarrow> \<exists>rest. sent l = got l @ rest"
  using link_reach_inv [of d m l]
  by (auto simp: link_inv_def stream_ok_def list_all_iff split: option.splits read_req.splits)

lemma one_packet_sent:
  "\<exists>l. link_reach 0 0 l \<and> sent l = [[7]]"
  using link_reach.lr_step [OF link_reach.lr_init ls_send, of 0 0 "[7]"]
  by (intro exI conjI) (assumption, simp add: link_init_def)

theorem stream_delivers_in_order_witness:
  "\<exists>l :: unit link. link_reach 0 0 l \<and> sent l = [[7]] \<and> (\<exists>rest. sent l = got l @ rest)"
proof -
  obtain l :: "unit link" where l: "link_reach 0 0 l" "sent l = [[7]]" using one_packet_sent by blast
  moreover have "list_all (fits 0) (sent l)" by (simp add: l fits_def)
  ultimately show ?thesis using stream_delivers_in_order by blast
qed

text \<open>C20: delivery completes.  From any reachable state with the receiver not blocked, the handlers
  that asio has been asked for, and no further call of either owner, deliver every payload that was
  submitted: no packet is stuck in the queue, on the wire or between header and body, and a receiver that
  was blocked and resumed reads on, because the \<open>__DoRecv\<close> that resumes it has been posted.\<close>

theorem stream_completes:
  assumes "link_reach d m l" and "list_all (fits m) (sent l)" and "\<not> blocking_recv (rx_conn l)"
  shows "\<exists>l'. link_handler\<^sup>*\<^sup>* l l' \<and> sent l' = sent l \<and> got l' = sent l"
  using link_completes [of m l] link_reach_inv [OF assms(1)] assms(2,3) by (simp add: list_all_iff)

theorem stream_completes_witness:
  "\<exists>l l' :: unit link. link_reach 0 0 l \<and> sent l = [[7]] \<and> link_handler\<^sup>*\<^sup>* l l' \<and> got l' = [[7]]"
proof -
  let ?l = "drain_tx (tcp__Send [7] None (tx_conn (link_init 0 0)))
              ((link_init 0 0 :: unit link)\<lparr>sent := [[7]]\<rparr>)"
  have l: "link_reach 0 0 ?l"
    using link_reach.lr_step [OF link_reach.lr_init ls_send, of 0 0 "[7]" None]
    by (simp add: link_init_def)
  have "rx_part ?l = rx_part (link_init 0 0)"
    by (simp add: rx_part_def drain_tx_def link_init_def new_tcp_conn_def tcp__Send_def push_def
        conn__DoSend_def emit_def)
  then have "\<not> blocking_recv (rx_conn ?l)"
    by (simp add: rx_part_def link_init_def new_tcp_conn_def)
  moreover have "list_all (fits 0) (sent ?l)" by (simp add: fits_def)
  ultimately show ?thesis using l stream_completes [OF l] by fastforce
qed

end
