(* ===== verification/Containers.thy ===== *)
theory Containers
  imports Prelude
begin

text \<open>
  The ordered containers of the C++ standard library that the program keeps its tables in.
  A \<open>std::map\<close> is a list of key/value pairs with strictly increasing keys, a
  \<open>std::set\<close> a strictly increasing list, so that iteration (\<open>for (auto&& x : m)\<close>,
  \<open>begin()\<close> followed by \<open>std::advance\<close>) visits them in the order the code does and
  \<open>size()\<close> is the length.  \<open>fmap_table\<close> is the contract of a table; the component
  proofs use it through the interpretation \<open>omap\<close>.
\<close>

subsection \<open>std::map\<close>

type_synonym ('k, 'v) omap = "('k \<times> 'v) list"

abbreviation map_find :: "('k, 'v) omap \<Rightarrow> 'k \<Rightarrow> 'v option" where
  "map_find \<equiv> map_of"

fun map_put :: "'k::linorder \<Rightarrow> 'v \<Rightarrow> ('k, 'v) omap \<Rightarrow> ('k, 'v) omap" where
  "map_put k v [] = [(k, v)]"
| "map_put k v ((k', v') # m) =
     (if k < k' then (k, v) # (k', v') # m
      else if k = k' then (k, v) # m
      else (k', v') # map_put k v m)"

definition map_erase :: "'k \<Rightarrow> ('k, 'v) omap \<Rightarrow> ('k, 'v) omap" where
  "map_erase k m = filter (\<lambda>p. fst p \<noteq> k) m"

definition map_wf :: "('k::linorder, 'v) omap \<Rightarrow> bool" where
  "map_wf m \<longleftrightarrow> sorted_wrt (<) (map fst m)"

lemma find_put [simp]: "map_find (map_put k v m) = (map_find m)(k \<mapsto> v)"
  by (induction k v m rule: map_put.induct) (auto simp: fun_eq_iff)

lemma find_erase [simp]: "map_find (map_erase k m) = (map_find m)(k := None)"
  by (induction m) (auto simp: map_erase_def fun_eq_iff)

lemma keys_put [simp]: "fst ` set (map_put k v m) = insert k (fst ` set m)"
  by (induction k v m rule: map_put.induct) auto

lemma map_wf_Nil [simp, intro]: "map_wf []"
  by (simp add: map_wf_def)

lemma map_wf_put [intro]: "map_wf m \<Longrightarrow> map_wf (map_put k v m)"
proof (induction k v m rule: map_put.induct)
  case (2 k v k' v' m)
  have "\<forall>x \<in> fst ` set (map_put k v m). k' < x" if "k' < k"
    using that "2.prems" by (simp only: keys_put) (simp add: map_wf_def)
  with 2 show ?case by (auto simp: map_wf_def)
qed (simp add: map_wf_def)

lemma map_wf_erase [intro]: "map_wf m \<Longrightarrow> map_wf (map_erase k m)"
  by (induction m) (auto simp: map_wf_def map_erase_def)

lemma map_wf_distinct: "map_wf m \<Longrightarrow> distinct (map fst m)"
  by (simp add: map_wf_def strict_sorted_iff)

lemma find_iff: "map_wf m \<Longrightarrow> map_find m k = Some v \<longleftrightarrow> (k, v) \<in> set m"
  by (simp add: map_wf_distinct)

lemma find_dom: "map_find m k = None \<longleftrightarrow> k \<notin> fst ` set m"
  by (simp add: map_of_eq_None_iff)

lemma in_erase [simp]: "p \<in> set (map_erase k m) \<longleftrightarrow> p \<in> set m \<and> fst p \<noteq> k"
  by (simp add: map_erase_def)

lemma in_put: "p \<in> set (map_put k v m) \<Longrightarrow> p = (k, v) \<or> p \<in> set m"
  by (induction k v m rule: map_put.induct) (auto split: if_splits)

subsection \<open>The contract of a table\<close>

locale fmap_table =
  fixes find :: "'t \<Rightarrow> 'k \<Rightarrow> 'v option"
    and put :: "'k \<Rightarrow> 'v \<Rightarrow> 't \<Rightarrow> 't"
    and erase :: "'k \<Rightarrow> 't \<Rightarrow> 't"
    and keys :: "'t \<Rightarrow> 'k set"
    and wf :: "'t \<Rightarrow> bool"
  assumes lookup_put: "find (put k v t) = (find t)(k \<mapsto> v)"
    and lookup_erase: "find (erase k t) = (find t)(k := None)"
    and keys_find: "keys t = dom (find t)"
    and finite_keys: "finite (keys t)"
    and wf_put: "wf t \<Longrightarrow> wf (put k v t)"
    and wf_erase: "wf t \<Longrightarrow> wf (erase k t)"
begin

lemma keys_of_put: "keys (put k v t) = insert k (keys t)"
  by (auto simp: keys_find lookup_put)

lemma keys_of_erase: "keys (erase k t) = keys t - {k}"
  by (auto simp: keys_find lookup_erase)

lemma erase_put_find: "find (erase k (put k v t)) = (find t)(k := None)"
  by (simp add: lookup_put lookup_erase)

text \<open>A table with fewer entries than keys has a free key.\<close>

lemma free_key: "finite K \<Longrightarrow> card (keys t) < card K \<Longrightarrow> \<exists>k \<in> K. find t k = None"
proof -
  assume "finite K" and "card (keys t) < card K"
  then have "\<not> K \<subseteq> keys t"
    using card_mono [OF finite_keys] by (metis linorder_not_less)
  then show ?thesis by (auto simp: keys_find)
qed

text \<open>Storing a value at a free key keeps every other entry: no insert hides an entry.\<close>

lemma put_fresh_mono: "find t k = None \<Longrightarrow> find t \<subseteq>\<^sub>m find (put k v t)"
  by (auto simp: map_le_def lookup_put)

end

interpretation omap: fmap_table map_find map_put map_erase "\<lambda>m. fst ` set m" map_wf
proof unfold_locales
  fix t :: "('k::linorder \<times> 'v) list"
  show "fst ` set t = dom (map_find t)" by (simp add: dom_map_of_conv_image_fst)
qed auto

subsection \<open>std::set\<close>

fun set_put :: "'k::linorder \<Rightarrow> 'k list \<Rightarrow> 'k list" where
  "set_put k [] = [k]"
| "set_put k (x # xs) = (if k < x then k # x # xs else if k = x then x # xs else x # set_put k xs)"

definition set_erase :: "'k \<Rightarrow> 'k list \<Rightarrow> 'k list" where
  "set_erase k xs = filter (\<lambda>x. x \<noteq> k) xs"

lemma set_set_put [simp]: "set (set_put k xs) = insert k (set xs)"
  by (induction k xs rule: set_put.induct) auto

lemma set_set_erase [simp]: "set (set_erase k xs) = set xs - {k}"
  by (auto simp: set_erase_def)

lemma set_put_not_Nil [simp]: "set_put k xs \<noteq> []"
  by (cases xs) auto

lemma sorted_set_put [intro]: "sorted_wrt (<) xs \<Longrightarrow> sorted_wrt (<) (set_put k xs)"
  by (induction k xs rule: set_put.induct) auto

lemma sorted_set_erase [intro]: "sorted_wrt (<) xs \<Longrightarrow> sorted_wrt (<) (set_erase k xs)"
  by (induction xs) (auto simp: set_erase_def)

text \<open>A table whose values do not matter is a set: the same contract, on \<open>unit\<close> values.\<close>

interpretation oset: fmap_table "\<lambda>xs k. if k \<in> set xs then Some () else None"
  "\<lambda>k _. set_put k" set_erase set "sorted_wrt (<)"
  by unfold_locales (auto simp: fun_eq_iff split: if_splits)

end
