(* ===== verification/NetServer.thy ===== *)
theory NetServer
  imports Containers Connection_Props
begin

text \<open>
  \<^verbatim>\<open>TcpServer\<close> and \<^verbatim>\<open>RawTcpServer\<close> of r-nat-s
  (\<^verbatim>\<open>network/tcpserver.cpp\<close>, \<^verbatim>\<open>network/rawtcpserver.cpp\<close> and their headers):
  the acceptors, the table of connections by sequence number, and the dispatch of Send, SendV,
  BlockRecv and Close to one connection.  The two classes have the same text but for the type of
  their connections and the call of SetDefragment, so the operations take the connection class
  as a record of its methods, \<open>conn_class\<close>; \<open>tcp_class\<close> and \<open>raw_class\<close> are the two.

  Connections are shared (the table, the pending accept and the handlers all hold one), so they
  live in a store by address.  \<open>srv_out\<close> logs what the server asks of asio and of its
  strand, and the notifications it makes to its owner.
\<close>

datatype endpoint = Endpoint (ep_ip: u32) (ep_port: u16)

instantiation endpoint :: linorder
begin

definition less_eq_endpoint :: "endpoint \<Rightarrow> endpoint \<Rightarrow> bool" where
  "less_eq_endpoint a b \<longleftrightarrow> (ep_ip a, ep_port a) \<le> (ep_ip b, ep_port b)"

definition less_endpoint :: "endpoint \<Rightarrow> endpoint \<Rightarrow> bool" where
  "less_endpoint a b \<longleftrightarrow> (ep_ip a, ep_port a) < (ep_ip b, ep_port b)"

instance
  by standard (auto simp: less_eq_endpoint_def less_endpoint_def endpoint.expand)

end

subsection \<open>The connection class\<close>

record ('p, 'c) conn_class =
  cc_new :: 'c
  cc_SetMaxPacketLength :: "u32 \<Rightarrow> 'c \<Rightarrow> 'c"
  cc_SetNoDelay :: "int \<Rightarrow> 'c \<Rightarrow> 'c"
  cc_SetRecvbufSize :: "u64 \<Rightarrow> 'c \<Rightarrow> 'c"
  cc_SetDefragment :: "int \<Rightarrow> 'c \<Rightarrow> 'c"
  cc_bind :: "'c \<Rightarrow> 'c"    \<comment> \<open>set on_allocbuf, on_disconnect and on_recv\<close>
  cc_opened :: "'c \<Rightarrow> 'c"  \<comment> \<open>what a successful accept does to the socket\<close>
  cc_Start :: "'c \<Rightarrow> 'c"
  cc_Send :: "bytes \<Rightarrow> 'p option \<Rightarrow> 'c \<Rightarrow> 'c"
  cc_SendV :: "bytes list \<Rightarrow> 'p option \<Rightarrow> 'c \<Rightarrow> 'c"
  cc_BlockRecv :: "bool \<Rightarrow> 'c \<Rightarrow> 'c"
  cc_Close :: "'c \<Rightarrow> 'c"

definition conn_bind :: "('p, 'z) conn_scheme \<Rightarrow> ('p, 'z) conn_scheme" where
  "conn_bind c = c\<lparr>on_allocbuf := True, on_disconnect := True, on_recv := True\<rparr>"

definition conn_opened :: "('p, 'z) conn_scheme \<Rightarrow> ('p, 'z) conn_scheme" where
  "conn_opened c = c\<lparr>socket := Some True\<rparr>"

definition tcp_class :: "('p, 'p tcp_conn) conn_class" where
  "tcp_class = \<lparr>cc_new = new_tcp_conn, cc_SetMaxPacketLength = conn_SetMaxPacketLength,
     cc_SetNoDelay = conn_SetNoDelay, cc_SetRecvbufSize = conn_SetRecvbufSize,
     cc_SetDefragment = tcp_SetDefragment, cc_bind = conn_bind, cc_opened = conn_opened,
     cc_Start = conn_Start, cc_Send = conn_Send, cc_SendV = conn_SendV,
     cc_BlockRecv = conn_BlockRecv, cc_Close = tcp_Close\<rparr>"

definition raw_class :: "('p, 'p conn) conn_class" where
  "raw_class = \<lparr>cc_new = new_raw_conn, cc_SetMaxPacketLength = conn_SetMaxPacketLength,
     cc_SetNoDelay = conn_SetNoDelay, cc_SetRecvbufSize = conn_SetRecvbufSize,
     cc_SetDefragment = (\<lambda>_ c. c), cc_bind = conn_bind, cc_opened = conn_opened,
     cc_Start = conn_Start, cc_Send = conn_Send, cc_SendV = conn_SendV,
     cc_BlockRecv = conn_BlockRecv, cc_Close = raw_Close\<rparr>"

subsection \<open>The server\<close>

text \<open>What is posted to the server's strand.\<close>

datatype 'p srv_task =
  SSend u32 bytes "'p option"
| SSendV u32 "bytes list" "'p option"
| SBlockRecv u32 bool
| SClose u32

datatype 'p srv_call =
  SPost "'p srv_task"
| SAsyncAccept u32 nat endpoint
| SAcceptorClose endpoint
| NotifyConnect u32 endpoint
| NotifyDisconnect u32 err
| NotifyRecv u32 bytes

record ('p, 'c) server =
  srv_on_connect :: bool
  srv_on_disconnect :: bool
  srv_on_recv :: bool
  srv_inited :: bool
  srv_next_seq :: u32
  srv_ioservices :: nat             \<comment> \<open>\<open>ioservices_.size()\<close>\<close>
  srv_max_packet_length :: u32
  srv_recv_buf_length :: u64
  srv_nodelay :: int
  srv_defragment :: int
  srv_port :: u16
  srv_acceptors :: "endpoint list"
  srv_conns :: "(u32, nat) omap"
  srv_heap :: "nat \<Rightarrow> 'c"
  srv_next_cid :: nat
  srv_out :: "'p srv_call list"

definition new_server :: "nat \<Rightarrow> 'c \<Rightarrow> ('p, 'c) server" where
  "new_server n blank = \<lparr>srv_on_connect = False, srv_on_disconnect = False, srv_on_recv = False,
     srv_inited = False, srv_next_seq = 0, srv_ioservices = n, srv_max_packet_length = 0,
     srv_recv_buf_length = 0, srv_nodelay = 0, srv_defragment = 0, srv_port = 0,
     srv_acceptors = [], srv_conns = [], srv_heap = (\<lambda>_. blank), srv_next_cid = 0, srv_out = []\<rparr>"

definition srv_SetMaxPacketLength :: "u32 \<Rightarrow> ('p, 'c) server \<Rightarrow> ('p, 'c) server" where
  "srv_SetMaxPacketLength l s = s\<lparr>srv_max_packet_length := l\<rparr>"

definition srv_SetNoDelay :: "int \<Rightarrow> ('p, 'c) server \<Rightarrow> ('p, 'c) server" where
  "srv_SetNoDelay n s = s\<lparr>srv_nodelay := n\<rparr>"

definition srv_SetRecvbufSize :: "u64 \<Rightarrow> ('p, 'c) server \<Rightarrow> ('p, 'c) server" where
  "srv_SetRecvbufSize l s = s\<lparr>srv_recv_buf_length := l\<rparr>"

definition srv_SetDefragment :: "int \<Rightarrow> ('p, 'c) server \<Rightarrow> ('p, 'c) server" where
  "srv_SetDefragment d s = s\<lparr>srv_defragment := d\<rparr>"

text \<open>The owner sets the three callbacks before Start.\<close>

definition srv_bind_callbacks :: "('p, 'c) server \<Rightarrow> ('p, 'c) server" where
  "srv_bind_callbacks s = s\<lparr>srv_on_connect := True, srv_on_disconnect := True, srv_on_recv := True\<rparr>"

definition srv_emit :: "'p srv_call \<Rightarrow> ('p, 'c) server \<Rightarrow> ('p, 'c) server" where
  "srv_emit x s = s\<lparr>srv_out := srv_out s @ [x]\<rparr>"

text \<open>The public operations on one connection post to the strand.\<close>

definition srv_Send :: "u32 \<Rightarrow> bytes \<Rightarrow> 'p option \<Rightarrow> ('p, 'c) server \<Rightarrow> ('p, 'c) server" where
  "srv_Send seq data pfn = srv_emit (SPost (SSend seq data pfn))"

definition srv_SendV :: "u32 \<Rightarrow> bytes list \<Rightarrow> 'p option \<Rightarrow> ('p, 'c) server \<Rightarrow> ('p, 'c) server" where
  "srv_SendV seq datas pfn = srv_emit (SPost (SSendV seq datas pfn))"

definition srv_BlockRecv :: "u32 \<Rightarrow> bool \<Rightarrow> ('p, 'c) server \<Rightarrow> ('p, 'c) server" where
  "srv_BlockRecv seq b = srv_emit (SPost (SBlockRecv seq b))"

definition srv_CloseConn :: "u32 \<Rightarrow> ('p, 'c) server \<Rightarrow> ('p, 'c) server" where
  "srv_CloseConn seq = srv_emit (SPost (SClose seq))"

text \<open>\<open>do seq = ++next_seq_; while (conns_.find(seq) != conns_.end());\<close>, which ends unless
  every sequence number is taken.\<close>

partial_function (option) next_seq_from :: "u32 \<Rightarrow> (u32, 'v) omap \<Rightarrow> u32 option" where
  "next_seq_from n conns =
     (if map_find conns (n + 1) = None then Some (n + 1) else next_seq_from (n + 1) conns)"

definition srv__GetNextSeq :: "('p, 'c) server \<Rightarrow> (u32 \<times> ('p, 'c) server) result" where
  "srv__GetNextSeq s =
     (case next_seq_from (srv_next_seq s) (srv_conns s) of
        None \<Rightarrow> Inl NoReturn
      | Some seq \<Rightarrow> Inr (seq, s\<lparr>srv_next_seq := seq\<rparr>))"

definition srv_configure :: "('p, 'c) conn_class \<Rightarrow> ('p, 'c) server \<Rightarrow> 'c \<Rightarrow> 'c" where
  "srv_configure cc s c =
     cc_bind cc (cc_SetDefragment cc (srv_defragment s)
       (cc_SetRecvbufSize cc (srv_recv_buf_length s)
         (cc_SetNoDelay cc (srv_nodelay s)
           (cc_SetMaxPacketLength cc (srv_max_packet_length s) c))))"

definition srv__StartNextConnection :: "('p, 'c) conn_class \<Rightarrow> endpoint
    \<Rightarrow> ('p, 'c) server \<Rightarrow> ('p, 'c) server result" where
  "srv__StartNextConnection cc acceptor s =
     and_then (srv__GetNextSeq s) (\<lambda>(seq, s).
       if srv_ioservices s = 0 then Inl DivideByZero
       else let cid = srv_next_cid s;
                conn = srv_configure cc s (cc_new cc);
                s = s\<lparr>srv_heap := (srv_heap s)(cid := conn), srv_next_cid := Suc cid,
                      srv_conns := map_put seq cid (srv_conns s)\<rparr>
            in Inr (srv_emit (SAsyncAccept seq cid acceptor) s))"

text \<open>Opening, binding and listening use the throwing overloads.  \<open>os ep\<close> is what the system
  makes of them: \<open>None\<close> is the error thrown, \<open>Some p\<close> the local port.\<close>

fun srv_open :: "(endpoint \<Rightarrow> u16 option) \<Rightarrow> endpoint list \<Rightarrow> ('p, 'c) server \<Rightarrow> ('p, 'c) server result" where
  "srv_open os [] s = Inr s"
| "srv_open os (ep # eps) s =
     (case os ep of
        None \<Rightarrow> Inl SystemError
      | Some p \<Rightarrow> srv_open os eps (s\<lparr>srv_acceptors := srv_acceptors s @ [ep]\<rparr>))"

definition srv_listening :: "(endpoint \<Rightarrow> u16 option) \<Rightarrow> ('p, 'c) server \<Rightarrow> ('p, 'c) server" where
  "srv_listening os s =
     (case srv_acceptors s of
        [] \<Rightarrow> s
      | ep # _ \<Rightarrow> s\<lparr>srv_port := (case os ep of Some p \<Rightarrow> p | None \<Rightarrow> 0), srv_inited := True\<rparr>)"

definition srv_Start :: "('p, 'c) conn_class \<Rightarrow> (endpoint \<Rightarrow> u16 option) \<Rightarrow> endpoint list
    \<Rightarrow> ('p, 'c) server \<Rightarrow> (bool \<times> ('p, 'c) server) result" where
  "srv_Start cc os eps s =
     and_then (srv_open os eps s) (\<lambda>s.
       let s = srv_listening os s
       in and_then (fold_result (srv__StartNextConnection cc) (srv_acceptors s) s)
            (\<lambda>s. Inr (srv_inited s, s)))"

text \<open>\<open>owner seq ep\<close> is what the owner's \<open>on_connect\<close> does to this server while it runs:
  it may post, and it may close the server, which is why \<open>inited_\<close> is read a second time.\<close>

definition srv__OnAccept :: "('p, 'c) conn_class
    \<Rightarrow> (u32 \<Rightarrow> endpoint \<Rightarrow> ('p, 'c) server \<Rightarrow> ('p, 'c) server result)
    \<Rightarrow> error_code \<Rightarrow> u32 \<Rightarrow> nat \<Rightarrow> endpoint \<Rightarrow> endpoint
    \<Rightarrow> ('p, 'c) server \<Rightarrow> ('p, 'c) server result" where
  "srv__OnAccept cc owner e seq cid acceptor remote_ep s =
     (if e = Some OperationAborted then Inr s
      else if \<not> srv_inited s then Inr s
      else and_then
        (if e = None
         then (if \<not> srv_on_connect s then Inl BadFunctionCall
               else and_then (owner seq remote_ep (srv_emit (NotifyConnect seq remote_ep) s))
                      (\<lambda>s. Inr (s\<lparr>srv_heap := (srv_heap s)(cid := cc_Start cc (srv_heap s cid))\<rparr>)))
         else Inr s)
        (\<lambda>s. if \<not> srv_inited s then Inr s else srv__StartNextConnection cc acceptor s))"

text \<open>A completed accept has opened the socket of the connection before its handler runs.\<close>

definition srv_accepted :: "('p, 'c) conn_class \<Rightarrow> nat \<Rightarrow> ('p, 'c) server \<Rightarrow> ('p, 'c) server" where
  "srv_accepted cc cid s = s\<lparr>srv_heap := (srv_heap s)(cid := cc_opened cc (srv_heap s cid))\<rparr>"

text \<open>The callbacks the server hangs on a connection, run on its strand.\<close>

definition srv_conn_disconnect :: "u32 \<Rightarrow> err \<Rightarrow> ('p, 'c) server \<Rightarrow> ('p, 'c) server result" where
  "srv_conn_disconnect seq e s =
     (if \<not> srv_on_disconnect s then Inl BadFunctionCall
      else let s = srv_emit (NotifyDisconnect seq e) s
           in Inr (s\<lparr>srv_conns := map_erase seq (srv_conns s)\<rparr>))"

definition srv_conn_recv :: "u32 \<Rightarrow> bytes \<Rightarrow> ('p, 'c) server \<Rightarrow> ('p, 'c) server result" where
  "srv_conn_recv seq buf s =
     (if \<not> srv_on_recv s then Inl BadFunctionCall else Inr (srv_emit (NotifyRecv seq buf) s))"

definition srv_Close :: "('p, 'c) conn_class \<Rightarrow> ('p, 'c) server \<Rightarrow> ('p, 'c) server" where
  "srv_Close cc s =
     (let s = s\<lparr>srv_inited := False, srv_on_connect := False, srv_on_disconnect := False,
                srv_on_recv := False\<rparr>;
          s = fold (\<lambda>ep. srv_emit (SAcceptorClose ep)) (srv_acceptors s) s;
          s = s\<lparr>srv_heap := fold (\<lambda>(seq, cid) h. h(cid := cc_Close cc (h cid))) (srv_conns s) (srv_heap s)\<rparr>
      in s\<lparr>srv_conns := [], srv_acceptors := []\<rparr>)"

definition srv_GetPort :: "('p, 'c) server \<Rightarrow> u16" where
  "srv_GetPort = srv_port"

text \<open>\<open>conns_.find(seq)\<close>, and if it is there a method of the connection.\<close>

definition srv_on_conn :: "u32 \<Rightarrow> ('c \<Rightarrow> 'c) \<Rightarrow> ('p, 'c) server \<Rightarrow> ('p, 'c) server" where
  "srv_on_conn seq f s =
     (case map_find (srv_conns s) seq of
        None \<Rightarrow> s
      | Some cid \<Rightarrow> s\<lparr>srv_heap := (srv_heap s)(cid := f (srv_heap s cid))\<rparr>)"

definition srv__Send :: "('p, 'c) conn_class \<Rightarrow> u32 \<Rightarrow> bytes \<Rightarrow> 'p option \<Rightarrow> ('p, 'c) server \<Rightarrow> ('p, 'c) server" where
  "srv__Send cc seq data pfn = srv_on_conn seq (cc_Send cc data pfn)"

definition srv__SendV :: "('p, 'c) conn_class \<Rightarrow> u32 \<Rightarrow> bytes list \<Rightarrow> 'p option \<Rightarrow> ('p, 'c) server \<Rightarrow> ('p, 'c) server" where
  "srv__SendV cc seq datas pfn = srv_on_conn seq (cc_SendV cc datas pfn)"

definition srv__BlockRecv :: "('p, 'c) conn_class \<Rightarrow> u32 \<Rightarrow> bool \<Rightarrow> ('p, 'c) server \<Rightarrow> ('p, 'c) server" where
  "srv__BlockRecv cc seq b = srv_on_conn seq (cc_BlockRecv cc b)"

definition srv__Close :: "('p, 'c) conn_class \<Rightarrow> u32 \<Rightarrow> ('p, 'c) server \<Rightarrow> ('p, 'c) server" where
  "srv__Close cc seq = srv_on_conn seq (cc_Close cc)"

fun srv_run_task :: "('p, 'c) conn_class \<Rightarrow> 'p srv_task \<Rightarrow> ('p, 'c) server \<Rightarrow> ('p, 'c) server" where
  "srv_run_task cc (SSend seq data pfn) s = srv__Send cc seq data pfn s"
| "srv_run_task cc (SSendV seq datas pfn) s = srv__SendV cc seq datas pfn s"
| "srv_run_task cc (SBlockRecv seq b) s = srv__BlockRecv cc seq b s"
| "srv_run_task cc (SClose seq) s = srv__Close cc seq s"

subsection \<open>RawTcpServer\<close>

text \<open>\<^verbatim>\<open>network/rawtcpserver.cpp\<close> is the same text over raw connections.\<close>

definition rawsrv_Start where "rawsrv_Start = srv_Start raw_class"
definition rawsrv__StartNextConnection where "rawsrv__StartNextConnection = srv__StartNextConnection raw_class"
definition rawsrv__OnAccept where "rawsrv__OnAccept = srv__OnAccept raw_class"
definition rawsrv__GetNextSeq :: "('p, 'p conn) server \<Rightarrow> (u32 \<times> ('p, 'p conn) server) result" where
  "rawsrv__GetNextSeq = srv__GetNextSeq"
definition rawsrv_Close where "rawsrv_Close = srv_Close raw_class"
definition rawsrv__Send where "rawsrv__Send = srv__Send raw_class"
definition rawsrv__SendV where "rawsrv__SendV = srv__SendV raw_class"
definition rawsrv__BlockRecv where "rawsrv__BlockRecv = srv__BlockRecv raw_class"
definition rawsrv__Close where "rawsrv__Close = srv__Close raw_class"

end
