(* ===== verification/NetServer_Props.thy ===== *)
theory NetServer_Props
  imports NetServer
begin

text \<open>
  What the servers promise their owner: a fresh sequence number for every accept, a table in
  which every entry has a connection of its own, operations that reach one connection only, and
  silence after Close.  \<open>conn_provider\<close> is the contract a connection class has to meet for
  that; both classes of the program do.
\<close>

subsection \<open>Sequence numbers\<close>

lemma next_seq_fresh:
  assumes "next_seq_from n conns = Some seq"
  shows "map_find conns seq = None"
  using _ assms
  by (rule next_seq_from.raw_induct [where P = "\<lambda>_ conns seq. map_find conns seq = None"])
    (auto split: if_splits)

lemma next_seq_step:
  "map_find conns (n + 1 + of_nat k) = None \<Longrightarrow> \<exists>seq. next_seq_from n conns = Some seq"
proof (induction k arbitrary: n)
  case 0
  then show ?case by (subst next_seq_from.simps) simp
next
  case (Suc k)
  then have "\<exists>seq. next_seq_from (n + 1) conns = Some seq" by (simp add: algebra_simps)
  then show ?case by (subst next_seq_from.simps) auto
qed

lemma next_seq_returns:
  assumes "length conns < 2 ^ 32"
  shows "\<exists>seq. next_seq_from n conns = Some seq"
proof -
  have "card (fst ` set conns) < card (UNIV :: u32 set)"
    using assms card_image_le [of "set conns" fst] card_length [of conns] by (simp add: card_word)
  then obtain k :: u32 where "map_find conns k = None"
    using omap.free_key [of UNIV conns] by auto
  moreover have "n + 1 + of_nat (unat (k - n - 1)) = k" by simp
  ultimately show ?thesis by (metis next_seq_step)
qed

lemma GetNextSeq_ok:
  assumes "length (srv_conns s) < 2 ^ 32"
  obtains seq where "srv__GetNextSeq s = Inr (seq, s\<lparr>srv_next_seq := seq\<rparr>)"
    "map_find (srv_conns s) seq = None"
proof -
  obtain seq where "next_seq_from (srv_next_seq s) (srv_conns s) = Some seq"
    using next_seq_returns [OF assms] by blast
  then show ?thesis by (intro that [OF _ next_seq_fresh]) (simp_all add: srv__GetNextSeq_def)
qed

lemma GetNextSeq_eq: "srv__GetNextSeq s = Inr (seq, t) \<longleftrightarrow>
    next_seq_from (srv_next_seq s) (srv_conns s) = Some seq \<and> t = s\<lparr>srv_next_seq := seq\<rparr>"
  by (auto simp: srv__GetNextSeq_def split: option.splits)

subsection \<open>The contract of a connection class\<close>

locale conn_provider =
  fixes cc :: "('p, 'c) conn_class"
    and armed :: "'c \<Rightarrow> bool"
    and listening :: "'c \<Rightarrow> bool"
    and opened :: "'c \<Rightarrow> bool"
  assumes close_shuts: "\<not> armed (cc_Close cc c) \<and> \<not> listening (cc_Close cc c) \<and> \<not> opened (cc_Close cc c)"
    and bind_arms: "armed (cc_bind cc c) \<and> listening (cc_bind cc c)"
    and post_keeps:
      "armed (cc_Send cc data pfn c) = armed c \<and> listening (cc_Send cc data pfn c) = listening c
        \<and> opened (cc_Send cc data pfn c) = opened c"
      "armed (cc_SendV cc datas pfn c) = armed c \<and> listening (cc_SendV cc datas pfn c) = listening c
        \<and> opened (cc_SendV cc datas pfn c) = opened c"
      "armed (cc_BlockRecv cc b c) = armed c \<and> listening (cc_BlockRecv cc b c) = listening c
        \<and> opened (cc_BlockRecv cc b c) = opened c"
begin

abbreviation silent :: "'c \<Rightarrow> bool" where
  "silent c \<equiv> \<not> armed c \<and> \<not> listening c"

lemma configured_armed: "armed (srv_configure cc s c) \<and> listening (srv_configure cc s c)"
  by (simp add: srv_configure_def bind_arms)

text \<open>Closing a batch of connections silences all of them and touches no other.\<close>

lemma close_all:
  "cid \<in> snd ` set conns \<Longrightarrow>
     silent (fold (\<lambda>(seq, cid) h. h(cid := cc_Close cc (h cid))) conns h cid)
     \<and> \<not> opened (fold (\<lambda>(seq, cid) h. h(cid := cc_Close cc (h cid))) conns h cid)"
proof (induction conns rule: rev_induct)
  case (snoc p conns)
  then show ?case using close_shuts by (cases p) auto
qed simp

lemma close_others:
  "cid \<notin> snd ` set conns \<Longrightarrow> fold (\<lambda>(seq, cid) h. h(cid := cc_Close cc (h cid))) conns h cid = h cid"
  by (induction conns arbitrary: h) auto

text \<open>Only Close silences a connection, and only the connection it is addressed to.\<close>

lemma run_task_armed:
  assumes "armed (srv_heap s cid)" "\<not> armed (srv_heap (srv_run_task cc t s) cid)"
  shows "\<exists>seq. t = SClose seq \<and> map_find (srv_conns s) seq = Some cid"
  using assms post_keeps
  by (cases t) (auto simp: srv__Send_def srv__SendV_def srv__BlockRecv_def srv__Close_def
      srv_on_conn_def split: option.splits if_splits)

end

definition conn_open :: "('p, 'z) conn_scheme \<Rightarrow> bool" where
  "conn_open c \<longleftrightarrow> socket c = Some True"

lemmas class_methods = conn_open_def tcp_class_def raw_class_def tcp_Close_def raw_Close_def
  close_socket_def conn_bind_def conn_Send_def conn_SendV_def conn_BlockRecv_def emit_def

interpretation tcp_provider: conn_provider tcp_class on_disconnect on_recv conn_open
  by unfold_locales (auto simp: class_methods Let_def)

interpretation raw_provider: conn_provider raw_class on_disconnect on_recv conn_open
  by unfold_locales (auto simp: class_methods Let_def)

subsection \<open>The table\<close>

definition srv_inv :: "('p, 'c) server \<Rightarrow> bool" where
  "srv_inv s \<longleftrightarrow> map_wf (srv_conns s) \<and> distinct (map snd (srv_conns s))
     \<and> (\<forall>(seq, cid) \<in> set (srv_conns s). cid < srv_next_cid s)"

lemma distinct_put:
  "distinct (map snd m) \<Longrightarrow> v \<notin> snd ` set m \<Longrightarrow> map_find m k = None \<Longrightarrow> distinct (map snd (map_put k v m))"
  by (induction k v m rule: map_put.induct) (auto dest!: in_put)

lemma distinct_erase: "distinct (map snd m) \<Longrightarrow> distinct (map snd (map_erase k m))"
  by (induction m) (auto simp: map_erase_def)

lemma srv_inv_new: "srv_inv (new_server n blank)"
  by (simp add: srv_inv_def new_server_def)

lemma srv_inv_cong:
  "srv_conns s' = srv_conns s \<Longrightarrow> srv_next_cid s' = srv_next_cid s \<Longrightarrow> srv_inv s' = srv_inv s"
  by (simp add: srv_inv_def)

lemma srv_inv_emit [simp]: "srv_inv (srv_emit x s) = srv_inv s"
  by (simp add: srv_inv_def srv_emit_def)

lemma srv_inv_heap [simp]: "srv_inv (s\<lparr>srv_heap := h\<rparr>) = srv_inv s"
  by (simp add: srv_inv_def)

lemma srv_inv_on_conn [simp]: "srv_inv (srv_on_conn seq f s) = srv_inv s"
  by (simp add: srv_inv_def srv_on_conn_def split: option.splits)

lemma StartNext_eq:
  "srv__StartNextConnection cc ep s = Inr t \<longleftrightarrow>
    (\<exists>seq. next_seq_from (srv_next_seq s) (srv_conns s) = Some seq \<and> srv_ioservices s \<noteq> 0
      \<and> t = srv_emit (SAsyncAccept seq (srv_next_cid s) ep)
        (s\<lparr>srv_next_seq := seq,
           srv_heap := (srv_heap s)(srv_next_cid s := srv_configure cc s (cc_new cc)),
           srv_next_cid := Suc (srv_next_cid s),
           srv_conns := map_put seq (srv_next_cid s) (srv_conns s)\<rparr>))"
  by (auto simp: srv__StartNextConnection_def and_then_eq_Inr GetNextSeq_eq Let_def srv_configure_def)

lemma srv_inv_StartNext:
  assumes "srv__StartNextConnection cc ep s = Inr t" and "srv_inv s"
  shows "srv_inv t"
proof -
  obtain seq where fresh: "map_find (srv_conns s) seq = None"
    and t: "srv_conns t = map_put seq (srv_next_cid s) (srv_conns s)"
      "srv_next_cid t = Suc (srv_next_cid s)"
    using assms(1) next_seq_fresh by (fastforce simp: StartNext_eq srv_emit_def)
  have "srv_next_cid s \<notin> snd ` set (srv_conns s)" using assms(2) by (auto simp: srv_inv_def)
  with assms(2) fresh show ?thesis
    by (auto simp: srv_inv_def t intro: distinct_put dest!: in_put)
qed

lemma srv_open_frame:
  "srv_open os eps s = Inr t \<Longrightarrow>
    t = s\<lparr>srv_acceptors := srv_acceptors s @ eps\<rparr> \<and> (\<forall>ep \<in> set eps. os ep \<noteq> None)"
  by (induction os eps s rule: srv_open.induct) (auto split: option.splits)

subsection \<open>The handlers of a server, as events\<close>

text \<open>\<open>SevConn cid f\<close> is any handler of the connection at \<open>cid\<close>, which changes that
  connection only.\<close>

datatype ('p, 'c) srv_event =
  SevStart "endpoint \<Rightarrow> u16 option" "endpoint list"
| SevAccept error_code u32 nat endpoint endpoint
| SevDisconnect u32 err
| SevRecv u32 bytes
| SevTask "'p srv_task"
| SevConn nat "'c \<Rightarrow> 'c"
| SevPost "'p srv_task"
| SevClose

fun srv_step :: "('p, 'c) conn_class \<Rightarrow> ('p, 'c) srv_event \<Rightarrow> ('p, 'c) server \<Rightarrow> ('p, 'c) server result" where
  "srv_step cc (SevStart os eps) s = and_then (srv_Start cc os eps s) (\<lambda>(_, t). Inr t)"
| "srv_step cc (SevAccept e seq cid acceptor ep) s =
     srv__OnAccept cc (\<lambda>_ _ s. Inr s) e seq cid acceptor ep
       (if e = None then srv_accepted cc cid s else s)"
| "srv_step cc (SevDisconnect seq e) s = srv_conn_disconnect seq e s"
| "srv_step cc (SevRecv seq buf) s = srv_conn_recv seq buf s"
| "srv_step cc (SevTask t) s = Inr (srv_run_task cc t s)"
| "srv_step cc (SevConn cid f) s = Inr (s\<lparr>srv_heap := (srv_heap s)(cid := f (srv_heap s cid))\<rparr>)"
| "srv_step cc (SevPost t) s = Inr (srv_emit (SPost t) s)"
| "srv_step cc SevClose s = Inr (srv_Close cc s)"

lemma srv_inv_run_task [simp]: "srv_inv (srv_run_task cc t s) = srv_inv s"
  by (cases t) (simp_all add: srv__Send_def srv__SendV_def srv__BlockRecv_def srv__Close_def)

lemma srv_listening_table [simp]:
  "srv_conns (srv_listening os s) = srv_conns s" "srv_next_cid (srv_listening os s) = srv_next_cid s"
  "srv_acceptors (srv_listening os s) = srv_acceptors s" "srv_heap (srv_listening os s) = srv_heap s"
  "srv_ioservices (srv_listening os s) = srv_ioservices s" "srv_out (srv_listening os s) = srv_out s"
  by (simp_all add: srv_listening_def split: list.split)

lemma Start_eq: "srv_Start cc os eps s =
    and_then (srv_open os eps s) (\<lambda>s. and_then
      (fold_result (srv__StartNextConnection cc) (srv_acceptors s) (srv_listening os s))
      (\<lambda>s. Inr (srv_inited s, s)))"
  by (simp add: srv_Start_def Let_def)

lemma srv_inv_Start:
  assumes "srv_Start cc os eps s = Inr (b, t)" and "srv_inv s"
  shows "srv_inv t"
proof -
  obtain u where u: "srv_open os eps s = Inr u"
    and f: "fold_result (srv__StartNextConnection cc) (srv_acceptors u) (srv_listening os u) = Inr t"
    using assms(1) by (auto simp: Start_eq and_then_eq_Inr)
  have "srv_inv (srv_listening os u)" using srv_open_frame [OF u] assms(2) by (simp add: srv_inv_def)
  with f show ?thesis by (rule fold_result_invariant [where I = srv_inv]) (rule srv_inv_StartNext)
qed

lemma srv_inv_OnAccept:
  assumes "srv__OnAccept cc owner e seq cid acceptor ep s = Inr t" and "srv_inv s"
    and "\<And>seq ep s t. owner seq ep s = Inr t \<Longrightarrow> srv_inv s \<Longrightarrow> srv_inv t"
  shows "srv_inv t"
  using assms
  by (fastforce simp: srv__OnAccept_def and_then_eq_Inr split: if_splits intro: srv_inv_StartNext)

lemma srv_inv_disconnect: "srv_conn_disconnect seq e s = Inr t \<Longrightarrow> srv_inv s \<Longrightarrow> srv_inv t"
  by (auto simp: srv_conn_disconnect_def Let_def srv_inv_def srv_emit_def
      intro: distinct_erase split: if_splits)

lemma srv_inv_Close: "srv_inv (srv_Close cc s)"
  by (simp add: srv_inv_def srv_Close_def Let_def)

lemma srv_step_inv:
  assumes "srv_step cc ev s = Inr t" and "srv_inv s"
  shows "srv_inv t"
proof (cases ev)
  case (SevStart os eps)
  with assms show ?thesis by (auto simp: and_then_eq_Inr dest: srv_inv_Start)
next
  case (SevAccept e seq cid acceptor ep)
  have "srv_inv (if e = None then srv_accepted cc cid s else s)"
    using assms(2) by (simp add: srv_accepted_def)
  with assms(1) SevAccept show ?thesis by (fastforce intro: srv_inv_OnAccept)
qed (use assms in \<open>auto simp: srv_conn_recv_def srv_inv_Close dest: srv_inv_disconnect split: if_splits\<close>)

subsection \<open>Properties of the servers\<close>

text \<open>Starting the next accept adds one entry, under a number no entry has, for a connection that is new
  and configured.\<close>

lemma StartNext_table:
  assumes "srv__StartNextConnection cc acceptor s = Inr t"
  shows "\<exists>seq. map_find (srv_conns s) seq = None \<and> map_find (srv_conns t) = (map_find (srv_conns s))(seq \<mapsto> srv_next_cid s)
    \<and> srv_heap t = (srv_heap s)(srv_next_cid s := srv_configure cc s (cc_new cc)) \<and> srv_acceptors t = srv_acceptors s"
  using assms next_seq_fresh [of "srv_next_seq s" "srv_conns s"]
  by (auto simp: StartNext_eq srv_emit_def split: option.splits if_splits)

lemma StartNexts_table:
  assumes "fold_result (srv__StartNextConnection cc) accs s = Inr t"
  shows "map_find (srv_conns s) \<subseteq>\<^sub>m map_find (srv_conns t) \<and> srv_acceptors t = srv_acceptors s
    \<and> card (dom (map_find (srv_conns t))) = card (dom (map_find (srv_conns s))) + length accs"
  using assms
proof (induction accs arbitrary: s)
  case (Cons acceptor accs)
  then obtain u where u: "srv__StartNextConnection cc acceptor s = Inr u" "fold_result (srv__StartNextConnection cc) accs u = Inr t"
    by (auto simp: and_then_eq_Inr)
  obtain seq where q: "map_find (srv_conns s) seq = None" "map_find (srv_conns u) = (map_find (srv_conns s))(seq \<mapsto> srv_next_cid s)"
    "srv_acceptors u = srv_acceptors s" using StartNext_table [OF u(1)] by blast
  have "map_find (srv_conns s) \<subseteq>\<^sub>m map_find (srv_conns u)" using q(1,2) by (auto simp: map_le_def dom_def)
  moreover have "finite (dom (map_find (srv_conns s)))" by (simp add: finite_dom_map_of)
  then have "card (dom (map_find (srv_conns u))) = Suc (card (dom (map_find (srv_conns s))))"
    using q(1,2) by (simp add: domIff)
  ultimately show ?case using Cons.IH [OF u(2)] q(3) map_le_trans by fastforce
qed simp

lemma Close_table:
  fixes s :: "('p, 'c) server"
  assumes "srv_inv s"
  shows "srv_conns (srv_Close cc s) = [] \<and> (\<forall>cid \<in> snd ` set (srv_conns s). srv_heap (srv_Close cc s) cid = cc_Close cc (srv_heap s cid))"
proof -
  define g where "g = (\<lambda>(seq :: u32, cid :: nat) h. h(cid := cc_Close cc (h cid)))"
  have g: "g (a, b) h = h(b := cc_Close cc (h b))" for a b h by (simp add: g_def)
  have other: "fold g m h cid = h cid" if "cid \<notin> snd ` set m" for m :: "(u32 \<times> nat) list" and h cid
    using that by (induction m arbitrary: h) (auto simp: g)
  have "fold g m h cid = cc_Close cc (h cid)" if "distinct (map snd m)" "cid \<in> snd ` set m" for m :: "(u32 \<times> nat) list" and h cid
    using that
  proof (induction m arbitrary: h)
    case (Cons p m)
    then show ?case using other [of cid m] by (cases "cid = snd p"; cases p) (auto simp: g)
  qed simp
  moreover have "srv_heap (fold (\<lambda>ep. srv_emit (SAcceptorClose ep)) eps u) = srv_heap u
      \<and> srv_conns (fold (\<lambda>ep. srv_emit (SAcceptorClose ep)) eps u) = srv_conns u" for eps and u :: "('p, 'c) server"
    by (induction eps arbitrary: u) (simp_all add: srv_emit_def)
  ultimately show ?thesis using assms by (auto simp: srv_Close_def srv_inv_def Let_def g_def)
qed

text \<open>C29: in every run of a server the table of connections is a map without a shared connection, and
  every handler changes it in one way only.  Start adds a new connection for each acceptor and keeps the
  entries there are.  A completed accept starts its connection and adds one entry for the next, under a
  number that is not taken, for a connection object that is new and configured; when it was aborted or
  the server has been closed it adds nothing.  The end of a connection removes its entry and no other.
  Close empties the table, and every connection that was in it has been closed.  Nothing else changes it:
  the entry of a connection that is closed on its own stays.\<close>

theorem server_table:
  assumes "fold_result (srv_step cc) evs (new_server n blank) = Inr s" and "srv_step cc ev s = Inr t"
  shows "distinct (map fst (srv_conns s)) \<and> distinct (map snd (srv_conns s)) \<and> (\<forall>(seq, cid) \<in> set (srv_conns s). cid < srv_next_cid s)
    \<and> (case ev of
         SevStart os eps \<Rightarrow> map_find (srv_conns s) \<subseteq>\<^sub>m map_find (srv_conns t)
           \<and> card (dom (map_find (srv_conns t))) = card (dom (map_find (srv_conns s))) + length (srv_acceptors t)
       | SevAccept e seq cid acceptor ep \<Rightarrow>
           if e = Some OperationAborted \<or> \<not> srv_inited s then map_find (srv_conns t) = map_find (srv_conns s)
           else (\<exists>q. map_find (srv_conns s) q = None \<and> map_find (srv_conns t) = (map_find (srv_conns s))(q \<mapsto> srv_next_cid s))
             \<and> srv_heap t (srv_next_cid s) = srv_configure cc s (cc_new cc)
             \<and> (e = None \<and> cid < srv_next_cid s \<longrightarrow> srv_heap t cid = cc_Start cc (cc_opened cc (srv_heap s cid)))
       | SevDisconnect seq e \<Rightarrow> map_find (srv_conns t) = (map_find (srv_conns s))(seq := None)
       | SevClose \<Rightarrow> srv_conns t = [] \<and> (\<forall>cid \<in> snd ` set (srv_conns s). srv_heap t cid = cc_Close cc (srv_heap s cid))
       | _ \<Rightarrow> srv_conns t = srv_conns s)"
proof -
  have inv: "srv_inv s" by (rule fold_result_invariant [OF assms(1), where I = srv_inv]) (auto intro: srv_inv_new srv_step_inv)
  then have table: "distinct (map fst (srv_conns s))" "distinct (map snd (srv_conns s))" "\<forall>(seq, cid) \<in> set (srv_conns s). cid < srv_next_cid s"
    by (simp_all add: srv_inv_def map_wf_distinct)
  show ?thesis
  proof (cases ev)
    case (SevStart os eps)
    then obtain u where u: "srv_open os eps s = Inr u"
        "fold_result (srv__StartNextConnection cc) (srv_acceptors u) (srv_listening os u) = Inr t"
      using assms(2) by (auto simp: Start_eq and_then_eq_Inr)
    show ?thesis using StartNexts_table [OF u(2)] srv_open_frame [OF u(1)] table by (simp add: SevStart)
  next
    case (SevAccept e seq cid acceptor ep)
    then show ?thesis using assms(2) table
      by (auto simp: srv__OnAccept_def srv_accepted_def and_then_eq_Inr srv_emit_def srv_configure_def split: if_splits
          dest!: StartNext_table)
  next
    case (SevDisconnect seq e)
    then show ?thesis using assms(2) table by (auto simp: srv_conn_disconnect_def srv_emit_def Let_def split: if_splits)
  next
    case (SevRecv seq buf)
    then show ?thesis using assms(2) table by (auto simp: srv_conn_recv_def srv_emit_def split: if_splits)
  next
    case (SevTask task)
    then show ?thesis using assms(2) table
      by (cases task) (auto simp: srv__Send_def srv__SendV_def srv__BlockRecv_def srv__Close_def srv_on_conn_def split: option.split)
  next
    case SevClose
    then show ?thesis using assms(2) table Close_table [OF inv, of cc] by simp
  qed (use assms(2) table in \<open>auto simp: srv_emit_def\<close>)
qed

lemma demo_server: "\<exists>s :: (unit, unit conn) server. srv_step raw_class (SevStart (\<lambda>_. Some 80) [Endpoint 0 80])
      (new_server 1 new_raw_conn) = Inr s
    \<and> srv_conns s = [(1, 0)] \<and> srv_ioservices s = 1 \<and> srv_acceptors s = [Endpoint 0 80]"
  by (simp add: Start_eq StartNext_eq srv_listening_def new_server_def srv__StartNextConnection_def
      srv__GetNextSeq_def next_seq_from.simps srv_emit_def)

theorem server_table_witness:
  "\<exists>s t :: (unit, unit conn) server. srv_conns s = [(1, 0)] \<and> srv_step raw_class SevClose s = Inr t \<and> srv_conns t = []
    \<and> srv_heap t 0 = raw_Close (srv_heap s 0)"
proof -
  obtain s :: "(unit, unit conn) server" where s: "srv_step raw_class (SevStart (\<lambda>_. Some 80) [Endpoint 0 80])
      (new_server 1 new_raw_conn) = Inr s" "srv_conns s = [(1, 0)]" using demo_server by blast
  then have "fold_result (srv_step raw_class) [SevStart (\<lambda>_. Some 80) [Endpoint 0 80]]
      (new_server 1 new_raw_conn) = Inr s" by simp
  from server_table [OF this, of SevClose "srv_Close raw_class s"] s(2) show ?thesis
    by (intro exI [of _ s] exI [of _ "srv_Close raw_class s"]) (simp add: raw_class_def)
qed

text \<open>C30: starting the next accept gives the new connection a sequence number no live connection
  has, even after the counter has wrapped round: it returns as long as a number is free, keeps
  every entry of the table and every other connection, and registers the configured connection
  it hands to the acceptor.\<close>

theorem accept_fresh:
  assumes "length (srv_conns s) < 2 ^ 32" and "srv_ioservices s \<noteq> 0" and "srv_inv s"
  shows "\<exists>t seq. srv__StartNextConnection cc ep s = Inr t
    \<and> map_find (srv_conns s) seq = None
    \<and> map_find (srv_conns t) = (map_find (srv_conns s))(seq \<mapsto> srv_next_cid s)
    \<and> srv_heap t (srv_next_cid s) = srv_configure cc s (cc_new cc)
    \<and> list_all (\<lambda>(k, cid). srv_heap t cid = srv_heap s cid) (srv_conns s)
    \<and> srv_out t = srv_out s @ [SAsyncAccept seq (srv_next_cid s) ep]"
proof -
  obtain seq where seq: "next_seq_from (srv_next_seq s) (srv_conns s) = Some seq"
    using next_seq_returns [OF assms(1)] by blast
  obtain t where t: "srv__StartNextConnection cc ep s = Inr t"
    "srv_conns t = map_put seq (srv_next_cid s) (srv_conns s)"
    "srv_heap t = (srv_heap s)(srv_next_cid s := srv_configure cc s (cc_new cc))"
    "srv_out t = srv_out s @ [SAsyncAccept seq (srv_next_cid s) ep]"
    using seq assms(2) by (simp add: StartNext_eq srv_emit_def)
  then show ?thesis using next_seq_fresh [OF seq] assms(3)
    by (intro exI [of _ t] exI [of _ seq]) (auto simp: srv_inv_def list_all_iff)
qed

theorem accept_fresh_witness:
  "\<exists>(s :: (unit, unit conn) server) t. srv_conns s = [(1, 0)]
    \<and> srv__StartNextConnection raw_class (Endpoint 0 80) s = Inr t
    \<and> (\<exists>seq. map_find (srv_conns s) seq = None \<and> map_find (srv_conns t) seq = Some (srv_next_cid s))"
proof -
  obtain s :: "(unit, unit conn) server" where s: "srv_step raw_class (SevStart (\<lambda>_. Some 80) [Endpoint 0 80])
      (new_server 1 new_raw_conn) = Inr s" "srv_conns s = [(1, 0)]" "srv_ioservices s = 1"
    using demo_server by blast
  have "srv_inv s" by (rule srv_step_inv [OF s(1) srv_inv_new])
  moreover have "length (srv_conns s) < 2 ^ 32" and "srv_ioservices s \<noteq> 0" by (simp_all add: s)
  ultimately obtain t seq where t: "srv__StartNextConnection raw_class (Endpoint 0 80) s = Inr t"
    "map_find (srv_conns s) seq = None"
    "map_find (srv_conns t) = (map_find (srv_conns s))(seq \<mapsto> srv_next_cid s)"
    using accept_fresh [of s raw_class "Endpoint 0 80"] by blast
  then have "map_find (srv_conns t) seq = Some (srv_next_cid s)" by simp
  with t s(2) show ?thesis by blast
qed

lemma srv_inv_inj: "srv_inv s \<Longrightarrow> (k, c) \<in> set (srv_conns s) \<Longrightarrow> (k', c) \<in> set (srv_conns s) \<Longrightarrow> k = k'"
  unfolding srv_inv_def distinct_map inj_on_def by (metis prod.inject snd_conv)

lemma srv_inv_find: "srv_inv s \<Longrightarrow> map_find (srv_conns s) k = Some c \<Longrightarrow> (k, c) \<in> set (srv_conns s)"
  by (simp add: srv_inv_def find_iff)

fun task_seq :: "'p srv_task \<Rightarrow> u32" where
  "task_seq (SSend seq data pfn) = seq"
| "task_seq (SSendV seq datas pfn) = seq"
| "task_seq (SBlockRecv seq b) = seq"
| "task_seq (SClose seq) = seq"

fun task_call :: "('p, 'c) conn_class \<Rightarrow> 'p srv_task \<Rightarrow> 'c \<Rightarrow> 'c" where
  "task_call cc (SSend seq data pfn) = cc_Send cc data pfn"
| "task_call cc (SSendV seq datas pfn) = cc_SendV cc datas pfn"
| "task_call cc (SBlockRecv seq b) = cc_BlockRecv cc b"
| "task_call cc (SClose seq) = cc_Close cc"

lemma run_task_eq: "srv_run_task cc t = srv_on_conn (task_seq t) (task_call cc t)"
  by (cases t) (simp_all add: fun_eq_iff srv__Send_def srv__SendV_def srv__BlockRecv_def srv__Close_def)

text \<open>Send, SendV, BlockRecv and Close of one sequence number reach the connection registered
  under it and nothing else: the other connections and the table stay as they are, and a
  sequence number that is not registered is ignored.\<close>

theorem dispatch_local:
  "srv_inv s \<Longrightarrow>
    srv_run_task cc t s = (case map_find (srv_conns s) (task_seq t) of
       None \<Rightarrow> s
     | Some cid \<Rightarrow> s\<lparr>srv_heap := (srv_heap s)(cid := task_call cc t (srv_heap s cid))\<rparr>)
    \<and> list_all (\<lambda>(k, cid). k = task_seq t \<or> srv_heap (srv_run_task cc t s) cid = srv_heap s cid)
        (srv_conns s)"
  unfolding run_task_eq srv_on_conn_def
  by (auto simp: list_all_iff dest: srv_inv_find srv_inv_inj split: option.splits)

theorem dispatch_local_witness:
  "\<exists>s :: (unit, unit conn) server. srv_conns s = [(1, 0)]
    \<and> srv_run_task raw_class (SClose 2) s = s
    \<and> srv_heap (srv_run_task raw_class (SClose 1) s) 0 = raw_Close (srv_heap s 0)"
proof -
  obtain s :: "(unit, unit conn) server" where s: "srv_step raw_class (SevStart (\<lambda>_. Some 80) [Endpoint 0 80])
      (new_server 1 new_raw_conn) = Inr s" "srv_conns s = [(1, 0)]" using demo_server by blast
  have inv: "srv_inv s" by (rule srv_step_inv [OF s(1) srv_inv_new])
  show ?thesis
    using dispatch_local [OF inv, of raw_class "SClose 2"] dispatch_local [OF inv, of raw_class "SClose 1"] s(2)
    by (intro exI [of _ s]) (simp add: raw_class_def)
qed

text \<open>A service or tunnel that starts on one endpoint either throws (open, bind and listen are
  the throwing overloads, so a port that is taken ends in an exception) or returns true with one
  accept pending on that endpoint.  It never returns false.\<close>

theorem start_never_false:
  "srv_Start cc os [ep] (new_server n blank) = Inr (b, t) \<Longrightarrow>
    b \<and> srv_inited t \<and> srv_port t = the (os ep) \<and> srv_acceptors t = [ep]
    \<and> srv_out t = [SAsyncAccept 1 0 ep]"
  by (auto simp: Start_eq and_then_eq_Inr StartNext_eq new_server_def srv_listening_def srv_emit_def
      next_seq_from.simps split: option.splits)

theorem start_never_false_witness:
  "\<exists>b t. srv_Start (raw_class :: (unit, unit conn) conn_class) (\<lambda>_. Some 80) [Endpoint 0 80]
      (new_server 1 new_raw_conn) = Inr (b, t) \<and> b \<and> srv_port t = 80"
proof -
  obtain b t where t: "srv_Start (raw_class :: (unit, unit conn) conn_class) (\<lambda>_. Some 80) [Endpoint 0 80]
      (new_server 1 new_raw_conn) = Inr (b, t)"
    by (simp add: Start_eq srv_listening_def new_server_def srv__StartNextConnection_def
      srv__GetNextSeq_def next_seq_from.simps srv_emit_def)
  from start_never_false [OF t] t show ?thesis by auto
qed

text \<open>Closing a server closes its acceptors and every connection in its table (no callback set,
  socket shut), empties the table, and from then on a completed accept is ignored; but a
  disconnect or receive callback that a connection had already posted calls an empty function
  and throws.\<close>

theorem raw_server_close:
  "cid \<in> snd ` set (srv_conns s) \<Longrightarrow> t = srv_Close raw_class s \<Longrightarrow>
    srv_conns t = [] \<and> srv_acceptors t = [] \<and> \<not> srv_inited t
    \<and> \<not> on_disconnect (srv_heap t cid) \<and> \<not> on_recv (srv_heap t cid) \<and> \<not> conn_open (srv_heap t cid)
    \<and> srv_out t = srv_out s @ map SAcceptorClose (srv_acceptors s)
    \<and> srv__OnAccept raw_class owner e seq cid' acceptor ep t = Inr t
    \<and> srv_conn_disconnect seq er t = Inl BadFunctionCall
    \<and> srv_conn_recv seq buf t = Inl BadFunctionCall"
proof -
  have fold_out: "fold (\<lambda>ep. srv_emit (SAcceptorClose ep)) eps u =
      u\<lparr>srv_out := srv_out u @ map SAcceptorClose eps\<rparr>" for eps and u :: "('p, 'c) server"
    by (induction eps arbitrary: u) (simp_all add: srv_emit_def)
  assume "cid \<in> snd ` set (srv_conns s)" and t: "t = srv_Close raw_class s"
  then show ?thesis using raw_provider.close_all
    by (simp add: t srv_Close_def fold_out srv__OnAccept_def srv_conn_disconnect_def
        srv_conn_recv_def Let_def)
qed

theorem raw_server_close_witness:
  "\<exists>s :: (unit, unit conn) server. srv_conns s = [(1, 0)]
    \<and> srv_conn_disconnect 1 EndOfFile (srv_Close raw_class s) = Inl BadFunctionCall
    \<and> \<not> on_recv (srv_heap (srv_Close raw_class s) 0)"
proof -
  obtain s :: "(unit, unit conn) server" where s: "srv_conns s = [(1, 0)]" using demo_server by blast
  then have "0 \<in> snd ` set (srv_conns s)" by simp
  from raw_server_close [OF this refl] s show ?thesis by blast
qed

text \<open>Closing one connection of a server leaves its entry in the table for good: Close clears
  the connection's \<open>on_disconnect\<close>, which is what erases the entry, so no run of the
  connection's handlers ever announces the end of it.\<close>

theorem close_keeps_entry:
  assumes "map_find (srv_conns s) seq = Some cid"
    and "t = srv__Close raw_class seq s"
    and "fold_result raw_step evs (srv_heap t cid) = Inr c"
  shows "map_find (srv_conns t) seq = Some cid
    \<and> disconnects (io c) = disconnects (io (srv_heap t cid))
    \<and> received (io c) = received (io (srv_heap t cid))"
proof -
  have t: "srv_conns t = srv_conns s" "srv_heap t cid = raw_Close (srv_heap s cid)"
    using assms(1,2) by (simp_all add: srv__Close_def srv_on_conn_def raw_class_def)
  have "\<not> on_disconnect (srv_heap t cid)" "\<not> on_recv (srv_heap t cid)"
    by (simp_all add: t raw_Close_def close_socket_def emit_def)
  with raw_object.run_silent [OF assms(3)] show ?thesis using assms(1) t by simp
qed

theorem close_keeps_entry_witness:
  "\<exists>s :: (unit, unit conn) server. srv_conns s = [(1, 0)]
    \<and> map_find (srv_conns (srv__Close raw_class 1 s)) 1 = Some 0"
proof -
  obtain s :: "(unit, unit conn) server" where s: "srv_conns s = [(1, 0)]" using demo_server by blast
  then have f: "map_find (srv_conns s) 1 = Some 0" by simp
  have "fold_result raw_step [] (srv_heap (srv__Close raw_class 1 s) 0)
      = Inr (srv_heap (srv__Close raw_class 1 s) 0)" by simp
  from close_keeps_entry [OF f refl this] s show ?thesis by blast
qed

end
