(* ===== verification/NetClient.thy ===== *)
theory NetClient
  imports NetServer
begin

text \<open>
  The client side of r-nat-c: \<^verbatim>\<open>ClientTCPConnection\<close>, \<^verbatim>\<open>RawClientTCPConnection\<close>
  (a connection with a connect timer) and their owners \<^verbatim>\<open>TcpClient\<close> and
  \<^verbatim>\<open>RawTcpClient\<close> (\<^verbatim>\<open>network/tcpclient.hpp\<close>, \<^verbatim>\<open>tcpclient.cpp\<close> and their
  raw twins).  Both pairs have the same text but for Close and SetDefragment; the operations
  below work on any connection record, and take the receive of the class where they start it.

  While a client is not connected, \<open>sending_pkt\<close> holds a buffer that is never written: it is
  the flag that keeps the queue from being sent.
\<close>

definition DEFAULT_CONNECT_TIMEOUT :: u32 where "DEFAULT_CONNECT_TIMEOUT = 30"

record ('p, 'z) client_conn =
  cl_conn :: "('p, 'z) conn_scheme"
  cl_timer :: bool
  cl_on_connect :: bool
  cl_connect_timeout :: u32

definition new_client_conn :: "('p, 'z) conn_scheme \<Rightarrow> ('p, 'z) client_conn" where
  "new_client_conn c = \<lparr>cl_conn = c, cl_timer = False, cl_on_connect = False,
     cl_connect_timeout = DEFAULT_CONNECT_TIMEOUT\<rparr>"

definition on_base :: "(('p, 'z) conn_scheme \<Rightarrow> ('p, 'z) conn_scheme) \<Rightarrow> ('p, 'z) client_conn \<Rightarrow> ('p, 'z) client_conn" where
  "on_base f c = c\<lparr>cl_conn := f (cl_conn c)\<rparr>"

definition on_base_result :: "(('p, 'z) conn_scheme \<Rightarrow> ('p, 'z) conn_scheme result)
    \<Rightarrow> ('p, 'z) client_conn \<Rightarrow> ('p, 'z) client_conn result" where
  "on_base_result f c = and_then (f (cl_conn c)) (\<lambda>b. Inr (c\<lparr>cl_conn := b\<rparr>))"

definition client_conn_SetConnectTimeout :: "u32 \<Rightarrow> ('p, 'z) client_conn \<Rightarrow> ('p, 'z) client_conn" where
  "client_conn_SetConnectTimeout l c = (if l \<noteq> 0 then c\<lparr>cl_connect_timeout := l\<rparr>
     else c\<lparr>cl_connect_timeout := DEFAULT_CONNECT_TIMEOUT\<rparr>)"

text \<open>\<open>async_connect\<close> opens the socket.\<close>

definition client_conn_Start :: "endpoint \<Rightarrow> ('p, 'z) client_conn \<Rightarrow> ('p, 'z) client_conn result" where
  "client_conn_Start ep c =
     (if \<not> on_allocbuf (cl_conn c) then Inl BadFunctionCall
      else let c = on_base (\<lambda>b. b\<lparr>sending_pkt := Some []\<rparr>) c;
               c = on_base (emit (StartTimer (cl_connect_timeout c))) (c\<lparr>cl_timer := True\<rparr>)
           in if socket (cl_conn c) = None then Inl NullPointer
              else Inr (on_base (\<lambda>b. emit (AsyncConnect (ep_ip ep) (ep_port ep)) (b\<lparr>socket := Some True\<rparr>)) c))"

definition client_conn__OnConnect ::
  "(('p, 'z) conn_scheme \<Rightarrow> ('p, 'z) conn_scheme result) \<Rightarrow> error_code
    \<Rightarrow> ('p, 'z) client_conn \<Rightarrow> ('p, 'z) client_conn result" where
  "client_conn__OnConnect do_recv e c =
     (let c = (if cl_timer c then on_base (emit CancelTimer) (c\<lparr>cl_timer := False\<rparr>) else c)
      in case e of
           Some er \<Rightarrow> Inr (on_base (conn__Shutdown er) c)
         | None \<Rightarrow>
             let c = on_base (\<lambda>b. b\<lparr>sending_pkt := None\<rparr>) c
             in and_then (on_base_result conn__SetOpt c) (\<lambda>c.
                and_then (on_base_result do_recv c) (\<lambda>c.
                  let c = on_base conn__DoSend c
                  in Inr (if cl_on_connect c then on_base (emit CallConnect) c else c))))"

definition client_conn__OnConnectTimeout :: "error_code \<Rightarrow> ('p, 'z) client_conn \<Rightarrow> ('p, 'z) client_conn" where
  "client_conn__OnConnectTimeout e c =
     (if e = Some OperationAborted then c
      else on_base (conn__Shutdown (case e of Some er \<Rightarrow> er | None \<Rightarrow> NoError)) c)"

subsection \<open>TcpClient and RawTcpClient\<close>

text \<open>\<open>tc_failures\<close> are the failures posted by Start for a name that does not resolve.\<close>

record ('p, 'z) client =
  tc_on_connect :: bool
  tc_on_disconnect :: bool
  tc_on_recv :: bool
  tc_impl :: "('p, 'z) client_conn option"
  tc_max_packet_length :: u32
  tc_recv_buf_length :: u64
  tc_connect_timeout :: u32
  tc_nodelay :: int
  tc_defragment :: int
  tc_failures :: "err list"

definition new_client :: "('p, 'z) client" where
  "new_client = \<lparr>tc_on_connect = False, tc_on_disconnect = False, tc_on_recv = False, tc_impl = None,
     tc_max_packet_length = 0, tc_recv_buf_length = 0, tc_connect_timeout = 0, tc_nodelay = 0,
     tc_defragment = 0, tc_failures = []\<rparr>"

definition on_impl :: "(('p, 'z) client_conn \<Rightarrow> ('p, 'z) client_conn) \<Rightarrow> ('p, 'z) client \<Rightarrow> ('p, 'z) client" where
  "on_impl f t = (case tc_impl t of None \<Rightarrow> t | Some c \<Rightarrow> t\<lparr>tc_impl := Some (f c)\<rparr>)"

text \<open>\<open>blank\<close> is the connection as its class constructs it.  Of the settings, the packet limit, the
  buffer size and the timeout are passed on; \<open>nodelay_\<close> and \<open>defragment_\<close> are not.\<close>

definition client_Start :: "('p, 'z) conn_scheme \<Rightarrow> endpoint \<Rightarrow> ('p, 'z) client \<Rightarrow> ('p, 'z) client result" where
  "client_Start blank ep t =
     (let c = (new_client_conn (conn_bind blank))\<lparr>cl_on_connect := True\<rparr>;
          c = on_base (conn_SetMaxPacketLength (tc_max_packet_length t)) c;
          c = on_base (conn_SetRecvbufSize (tc_recv_buf_length t)) c;
          c = client_conn_SetConnectTimeout (tc_connect_timeout t) c
      in and_then (client_conn_Start ep c) (\<lambda>c. Inr (t\<lparr>tc_impl := Some c\<rparr>)))"

text \<open>Start by name: \<open>endpoints\<close> is what the resolver gives, \<open>r\<close> what \<open>rand\<close> gives.\<close>

definition client_Start_name :: "('p, 'z) conn_scheme \<Rightarrow> endpoint list \<Rightarrow> nat \<Rightarrow> ('p, 'z) client \<Rightarrow> ('p, 'z) client result" where
  "client_Start_name blank endpoints r t =
     (if endpoints \<noteq> [] then client_Start blank (endpoints ! (r mod length endpoints)) t
      else Inr (t\<lparr>tc_failures := tc_failures t @ [NoSuchDevice]\<rparr>))"

definition client_Start_ip :: "('p, 'z) conn_scheme \<Rightarrow> u32 \<Rightarrow> u16 \<Rightarrow> ('p, 'z) client \<Rightarrow> ('p, 'z) client result" where
  "client_Start_ip blank ip port t = client_Start blank (Endpoint ip port) t"

definition client_Send :: "bytes \<Rightarrow> 'p option \<Rightarrow> ('p, 'z) client \<Rightarrow> ('p, 'z) client result" where
  "client_Send data pfn t = (case tc_impl t of None \<Rightarrow> Inl NullPointer
     | Some c \<Rightarrow> Inr (t\<lparr>tc_impl := Some (on_base (conn_Send data pfn) c)\<rparr>))"

definition client_SendV :: "bytes list \<Rightarrow> 'p option \<Rightarrow> ('p, 'z) client \<Rightarrow> ('p, 'z) client result" where
  "client_SendV datas pfn t = (case tc_impl t of None \<Rightarrow> Inl NullPointer
     | Some c \<Rightarrow> Inr (t\<lparr>tc_impl := Some (on_base (conn_SendV datas pfn) c)\<rparr>))"

definition client_SetMaxPacketLength :: "u32 \<Rightarrow> ('p, 'z) client \<Rightarrow> ('p, 'z) client" where
  "client_SetMaxPacketLength l t =
     on_impl (on_base (conn_SetMaxPacketLength l)) (t\<lparr>tc_max_packet_length := l\<rparr>)"

definition client_SetNoDelay :: "int \<Rightarrow> ('p, 'z) client \<Rightarrow> ('p, 'z) client" where
  "client_SetNoDelay n t = on_impl (on_base (conn_SetNoDelay n)) (t\<lparr>tc_nodelay := n\<rparr>)"

definition tcp_client_SetDefragment :: "int \<Rightarrow> ('p, 'z tcp_conn_ext) client \<Rightarrow> ('p, 'z tcp_conn_ext) client" where
  "tcp_client_SetDefragment d t = on_impl (on_base (tcp_SetDefragment d)) (t\<lparr>tc_defragment := d\<rparr>)"

definition client_SetRecvbufSize :: "u64 \<Rightarrow> ('p, 'z) client \<Rightarrow> ('p, 'z) client" where
  "client_SetRecvbufSize l t = on_impl (on_base (conn_SetRecvbufSize l)) (t\<lparr>tc_recv_buf_length := l\<rparr>)"

definition client_SetConnectTimeout :: "u32 \<Rightarrow> ('p, 'z) client \<Rightarrow> ('p, 'z) client" where
  "client_SetConnectTimeout l t = on_impl (client_conn_SetConnectTimeout l) (t\<lparr>tc_connect_timeout := l\<rparr>)"

definition tcp_client_Close :: "('p, 'z tcp_conn_ext) client \<Rightarrow> ('p, 'z tcp_conn_ext) client" where
  "tcp_client_Close = on_impl (on_base tcp_Close)"

definition raw_client_Close :: "('p, 'z) client \<Rightarrow> ('p, 'z) client" where
  "raw_client_Close = on_impl (\<lambda>c. on_base raw_Close
     (on_base (\<lambda>b. b\<lparr>on_disconnect := False, on_recv := False\<rparr>) (c\<lparr>cl_on_connect := False\<rparr>)))"

definition client_BlockRecv :: "bool \<Rightarrow> ('p, 'z) client \<Rightarrow> ('p, 'z) client" where
  "client_BlockRecv b = on_impl (on_base (conn_BlockRecv b))"

text \<open>The destructors close the connection and drop it.\<close>

definition tcp_client_destroy :: "('p, 'z tcp_conn_ext) client \<Rightarrow> ('p, 'z) tcp_conn_scheme option" where
  "tcp_client_destroy t = map_option (\<lambda>c. tcp_Close (cl_conn c)) (tc_impl t)"

subsection \<open>The handlers of a client connection, as events\<close>

datatype 'p client_event =
  CevConnect error_code
| CevTimeout error_code
| CevConn "'p conn_event"

fun client_step :: "('p conn_event \<Rightarrow> ('p, 'z) conn_scheme \<Rightarrow> ('p, 'z) conn_scheme result)
    \<Rightarrow> (('p, 'z) conn_scheme \<Rightarrow> ('p, 'z) conn_scheme result)
    \<Rightarrow> 'p client_event \<Rightarrow> ('p, 'z) client_conn \<Rightarrow> ('p, 'z) client_conn result" where
  "client_step step do_recv (CevConnect e) c = client_conn__OnConnect do_recv e c"
| "client_step step do_recv (CevTimeout e) c = Inr (client_conn__OnConnectTimeout e c)"
| "client_step step do_recv (CevConn ev) c = on_base_result (step ev) c"

subsection \<open>RawTcpClient\<close>

text \<open>The raw twins, over \<^verbatim>\<open>RawTCPConnection\<close>.\<close>

definition raw_client_conn_SetConnectTimeout :: "u32 \<Rightarrow> ('p, unit) client_conn \<Rightarrow> ('p, unit) client_conn" where
  "raw_client_conn_SetConnectTimeout = client_conn_SetConnectTimeout"
definition raw_client_conn_Start :: "endpoint \<Rightarrow> ('p, unit) client_conn \<Rightarrow> ('p, unit) client_conn result" where
  "raw_client_conn_Start = client_conn_Start"
definition raw_client_conn__OnConnect :: "error_code \<Rightarrow> ('p, unit) client_conn \<Rightarrow> ('p, unit) client_conn result" where
  "raw_client_conn__OnConnect = client_conn__OnConnect raw__DoRecv"
definition raw_client_conn__OnConnectTimeout :: "error_code \<Rightarrow> ('p, unit) client_conn \<Rightarrow> ('p, unit) client_conn" where
  "raw_client_conn__OnConnectTimeout = client_conn__OnConnectTimeout"
definition raw_client_Start :: "endpoint \<Rightarrow> ('p, unit) client \<Rightarrow> ('p, unit) client result" where
  "raw_client_Start = client_Start new_raw_conn"
definition raw_client_Start_name :: "endpoint list \<Rightarrow> nat \<Rightarrow> ('p, unit) client \<Rightarrow> ('p, unit) client result" where
  "raw_client_Start_name = client_Start_name new_raw_conn"
definition raw_client_Start_ip :: "u32 \<Rightarrow> u16 \<Rightarrow> ('p, unit) client \<Rightarrow> ('p, unit) client result" where
  "raw_client_Start_ip = client_Start_ip new_raw_conn"
definition raw_client_Send :: "bytes \<Rightarrow> 'p option \<Rightarrow> ('p, unit) client \<Rightarrow> ('p, unit) client result" where
  "raw_client_Send = client_Send"
definition raw_client_SendV :: "bytes list \<Rightarrow> 'p option \<Rightarrow> ('p, unit) client \<Rightarrow> ('p, unit) client result" where
  "raw_client_SendV = client_SendV"
definition raw_client_SetMaxPacketLength :: "u32 \<Rightarrow> ('p, unit) client \<Rightarrow> ('p, unit) client" where
  "raw_client_SetMaxPacketLength = client_SetMaxPacketLength"
definition raw_client_SetNoDelay :: "int \<Rightarrow> ('p, unit) client \<Rightarrow> ('p, unit) client" where
  "raw_client_SetNoDelay = client_SetNoDelay"
definition raw_client_SetRecvbufSize :: "u64 \<Rightarrow> ('p, unit) client \<Rightarrow> ('p, unit) client" where
  "raw_client_SetRecvbufSize = client_SetRecvbufSize"
definition raw_client_SetConnectTimeout :: "u32 \<Rightarrow> ('p, unit) client \<Rightarrow> ('p, unit) client" where
  "raw_client_SetConnectTimeout = client_SetConnectTimeout"
definition raw_client_BlockRecv :: "bool \<Rightarrow> ('p, unit) client \<Rightarrow> ('p, unit) client" where
  "raw_client_BlockRecv = client_BlockRecv"
definition raw_client_destroy :: "('p, unit) client \<Rightarrow> 'p conn option" where
  "raw_client_destroy t = map_option (\<lambda>c. raw_Close (cl_conn c)) (tc_impl t)"

end
