(* ===== verification/NetClient_Props.thy ===== *)
theory NetClient_Props
  imports NetClient Link
begin

text \<open>
  What the clients promise.  \<open>client_base\<close> asks of a connection class that its handlers keep
  the contract of \<open>conn_object\<close>; a client connection over such a class then keeps it too, with
  the connect and timeout handlers among its events.
\<close>

locale client_base =
  fixes step :: "'p conn_event \<Rightarrow> ('p, 'z) conn_scheme \<Rightarrow> ('p, 'z) conn_scheme result"
    and do_recv :: "('p, 'z) conn_scheme \<Rightarrow> ('p, 'z) conn_scheme result"
  assumes base_step: "step ev c = Inr c' \<Longrightarrow> io_step c c'"
    and base_recv: "do_recv c = Inr c' \<Longrightarrow> io_step c c'"
begin

lemma connect_io: "client_conn__OnConnect do_recv e c = Inr c' \<Longrightarrow> io_step (cl_conn c) (cl_conn c')"
proof -
  assume r: "client_conn__OnConnect do_recv e c = Inr c'"
  define d where "d = (if cl_timer c then on_base (emit CancelTimer) (c\<lparr>cl_timer := False\<rparr>) else c)"
  have d: "io_step (cl_conn c) (cl_conn d)" by (simp add: d_def on_base_def io_step_emit)
  show ?thesis
  proof (cases e)
    case (Some er)
    then have "c' = on_base (conn__Shutdown er) d" using r by (simp add: client_conn__OnConnect_def d_def)
    then show ?thesis using io_step_trans [OF d io_step_Shutdown] by (simp add: on_base_def)
  next
    case None
    then obtain b1 b2 where b: "conn__SetOpt ((cl_conn d)\<lparr>sending_pkt := None\<rparr>) = Inr b1" "do_recv b1 = Inr b2"
      "cl_conn c' = conn__DoSend b2 \<or> cl_conn c' = emit CallConnect (conn__DoSend b2)"
      using r by (auto simp: client_conn__OnConnect_def d_def on_base_def on_base_result_def
          and_then_eq_Inr Let_def split: if_splits)
    have "io_step (cl_conn d) ((cl_conn d)\<lparr>sending_pkt := None\<rparr>)" by (rule io_step_same) simp_all
    then have "io_step (cl_conn c) (conn__DoSend b2)"
      using d io_step_SetOpt [OF b(1)] base_recv [OF b(2)] io_step_DoSend by (blast intro: io_step_trans)
    moreover have "io_step (conn__DoSend b2) (emit CallConnect (conn__DoSend b2))" by (rule io_step_emit) auto
    ultimately show ?thesis using b(3) by (auto intro: io_step_trans)
  qed
qed

lemma client_io: "client_step step do_recv ev c = Inr c' \<Longrightarrow> io_step (cl_conn c) (cl_conn c')"
  by (cases ev) (auto simp: connect_io client_conn__OnConnectTimeout_def on_base_def on_base_result_def
      and_then_eq_Inr io_step_Shutdown base_step)

end

sublocale client_base \<subseteq> conn_object "client_step step do_recv" "\<lambda>c. io (cl_conn c)"
    "\<lambda>c. on_disconnect (cl_conn c)" "\<lambda>c. on_recv (cl_conn c)"
  by unfold_locales (use client_io io_step_def in blast)

interpretation tcp_client: client_base tcp_step tcp__DoRecv
  by unfold_locales (auto intro: tcp_step_io io_step_tcp_DoRecv)

interpretation raw_client: client_base raw_step raw__DoRecv
  by unfold_locales (auto intro: raw_step_io io_step_raw_DoRecv)

subsection \<open>Properties of the clients\<close>

lemma DoSend_busy: "sending_pkt c \<noteq> None \<Longrightarrow> conn__DoSend c = c"
  by (simp add: conn__DoSend_def)

lemma sends_queue:
  "sending_pkt c \<noteq> None \<Longrightarrow> on_allocbuf c \<Longrightarrow>
   fold_result tcp_step (map (\<lambda>(x, p). EvRun (TSend x p)) msgs) c = Inr d \<Longrightarrow>
    io d = io c \<and> sending_pkt d = sending_pkt c \<and> on_allocbuf d \<and> socket d = socket c
    \<and> queued d = queued c @ concat (map (\<lambda>(x, p). frame x) msgs)
    \<and> (msgs \<noteq> [] \<longrightarrow> outgoing_queue d \<noteq> [])"
proof (induction msgs arbitrary: c)
  case (Cons m msgs)
  obtain x p where m: "m = (x, p)" by (cases m)
  obtain ps where ps: "ps \<noteq> []" "concat (map fst ps) = frame x"
    "tcp__Send x p c = conn__DoSend (push ps c)"
    using Send_push [OF Cons.prems(2)] by blast
  have c: "tcp__Send x p c = push ps c" using ps(3) Cons.prems(1) by (simp add: DoSend_busy push_def)
  then have "fold_result tcp_step (map (\<lambda>(x, p). EvRun (TSend x p)) msgs) (push ps c) = Inr d"
    using Cons.prems(3) by (simp add: m)
  note IH = Cons.IH [OF _ _ this]
  have "outgoing_queue d \<noteq> []"
  proof (cases msgs)
    case Nil
    then show ?thesis using Cons.prems(3) ps(1) c by (auto simp: m push_def)
  next
    case (Cons y ys)
    then show ?thesis using IH Cons.prems(1,2) by (simp add: push_def)
  qed
  then show ?case using IH Cons.prems(1,2) ps(2) by (simp add: push_def queued_def m)
qed (simp add: queued_def)

text \<open>What is sent on a client before it is connected is kept, in order, and nothing is asked of the
  socket meanwhile; the connect handler then starts the first write, and the bytes of that write
  followed by those still queued are exactly the frames of what was sent.\<close>

theorem client_queues_until_connected:
  assumes "client_conn_Start ep c = Inr d"
    and "fold_result tcp_step (map (\<lambda>(x, p). EvRun (TSend x p)) msgs) (cl_conn d) = Inr b"
    and "client_conn__OnConnect tcp__DoRecv None (d\<lparr>cl_conn := b\<rparr>) = Inr e" and "msgs \<noteq> []"
  shows "io b = io (cl_conn d)
    \<and> (\<exists>pkt. sending_pkt (cl_conn e) = Some pkt \<and> AsyncWrite pkt \<in> set (io (cl_conn e))
        \<and> pkt @ queued (cl_conn e) = queued (cl_conn c) @ concat (map (\<lambda>(x, p). frame x) msgs))"
proof -
  have d: "sending_pkt (cl_conn d) = Some []" "on_allocbuf (cl_conn d)" "socket (cl_conn d) = Some True"
    "queued (cl_conn d) = queued (cl_conn c)"
    using assms(1) by (auto simp: client_conn_Start_def on_base_def emit_def Let_def queued_def split: if_splits)
  have b: "io b = io (cl_conn d)" "socket b = Some True" "outgoing_queue b \<noteq> []"
    "queued b = queued (cl_conn c) @ concat (map (\<lambda>(x, p). frame x) msgs)"
    using sends_queue [OF _ d(2) assms(2)] d assms(4) by simp_all
  define b0 where "b0 = (if cl_timer d then emit CancelTimer b else b)\<lparr>sending_pkt := None\<rparr>"
  have b0: "sending_pkt b0 = None" "outgoing_queue b0 = outgoing_queue b" "socket b0 = socket b"
    by (simp_all add: b0_def emit_def)
  obtain b1 b2 where s: "conn__SetOpt b0 = Inr b1" "tcp__DoRecv b1 = Inr b2"
    "cl_conn e = conn__DoSend b2 \<or> cl_conn e = emit CallConnect (conn__DoSend b2)"
    using assms(3) by (auto simp: client_conn__OnConnect_def on_base_def on_base_result_def
        and_then_eq_Inr Let_def b0_def split: if_splits)
  have b2: "sending_pkt b2 = None" "outgoing_queue b2 = outgoing_queue b" "socket b2 = Some True"
    using s(1,2) b0 b(2) by (auto simp: conn__SetOpt_def tcp__DoRecv_def conn__DoRecv_def emit_def Let_def split: if_splits)
  obtain pkt pfn q where q: "outgoing_queue b2 = (pkt, pfn) # q" using b(3) b2(2) by (metis list.exhaust surj_pair)
  have ds: "sending_pkt (conn__DoSend b2) = Some pkt" "AsyncWrite pkt \<in> set (io (conn__DoSend b2))"
    "outgoing_queue (conn__DoSend b2) = q"
    unfolding conn__DoSend_def b2(1,3) q by (auto simp: emit_def Let_def split: option.splits)
  have "sending_pkt (cl_conn e) = Some pkt \<and> AsyncWrite pkt \<in> set (io (cl_conn e)) \<and> outgoing_queue (cl_conn e) = q"
    using s(3) ds by (auto simp: emit_def)
  moreover have "queued b = pkt @ concat (map fst q)" using q b2(2) by (simp add: queued_def)
  ultimately show ?thesis using b by (simp add: queued_def)
qed

theorem client_queues_until_connected_witness:
  "\<exists>e :: (unit, unit tcp_conn_ext) client_conn. \<exists>pkt. AsyncWrite pkt \<in> set (io (cl_conn e))
    \<and> pkt @ queued (cl_conn e) = frame [1] @ frame [2]"
proof -
  let ?c = "new_client_conn (conn_bind (new_tcp_conn :: unit tcp_conn))"
  obtain d where d: "client_conn_Start (Endpoint 1 80) ?c = Inr d"
    by (simp add: client_conn_Start_def new_client_conn_def conn_bind_def new_tcp_conn_def on_base_def emit_def)
  let ?msgs = "[([1], None), ([2], None)] :: (bytes \<times> unit option) list"
  obtain b where b: "fold_result tcp_step (map (\<lambda>(x, p). EvRun (TSend x p)) ?msgs) (cl_conn d) = Inr b"
    by simp
  obtain e where e: "client_conn__OnConnect tcp__DoRecv None (d\<lparr>cl_conn := b\<rparr>) = Inr e"
    using d b by (auto simp: client_conn_Start_def new_client_conn_def conn_bind_def new_tcp_conn_def
        on_base_def emit_def client_conn__OnConnect_def on_base_result_def conn__SetOpt_def tcp__DoRecv_def
        conn__DoRecv_def tcp__Send_def push_def conn__DoSend_def Let_def)
  have "queued (cl_conn ?c) = []" by (simp add: new_client_conn_def conn_bind_def new_tcp_conn_def queued_def)
  then show ?thesis using client_queues_until_connected [OF d b e] by fastforce
qed

text \<open>A client tells its owner about its end at most once, with connect failures and the connect
  timeout among what can end it.\<close>

theorem client_notified_once:
  assumes "fold_result (client_step tcp_step tcp__DoRecv) evs c = Inr d"
  shows "disconnects (io (cl_conn d)) \<le> disconnects (io (cl_conn c)) + 1"
  using tcp_client.run_disconnects [OF assms] by (auto simp: of_bool_def split: if_splits)

theorem client_notified_once_witness:
  "\<exists>d :: (unit, unit tcp_conn_ext) client_conn.
    fold_result (client_step tcp_step tcp__DoRecv) [CevTimeout None, CevConnect (Some OperationAborted)]
      (new_client_conn (conn_bind new_tcp_conn)) = Inr d
    \<and> disconnects (io (cl_conn d)) \<le> 1"
proof -
  let ?c = "new_client_conn (conn_bind (new_tcp_conn :: unit tcp_conn))"
  obtain d where d: "fold_result (client_step tcp_step tcp__DoRecv)
      [CevTimeout None, CevConnect (Some OperationAborted)] ?c = Inr d"
    by (simp add: client_conn__OnConnect_def)
  have "io (cl_conn ?c) = []" by (simp add: new_client_conn_def conn_bind_def new_tcp_conn_def)
  then show ?thesis using client_notified_once [OF d] d by auto
qed

text \<open>The \<open>no_delay\<close> and \<open>packet_defragment\<close> settings of a client never reach its connection:
  Start builds a fresh connection and passes on the packet limit, the buffer size and the timeout
  only.\<close>

theorem client_settings_dropped:
  assumes "client_Start new_tcp_conn ep (client_SetNoDelay n (tcp_client_SetDefragment f t)) = Inr u"
  shows "\<exists>c. tc_impl u = Some c \<and> nodelay (cl_conn c) = 0 \<and> defragment (cl_conn c) = 0
    \<and> max_packet_length (cl_conn c) = tc_max_packet_length t
    \<and> cl_connect_timeout c = (if tc_connect_timeout t = 0 then 30 else tc_connect_timeout t)"
  using assms
  by (auto simp: client_Start_def client_SetNoDelay_def tcp_client_SetDefragment_def on_impl_def
      client_conn_Start_def new_client_conn_def conn_bind_def new_tcp_conn_def on_base_def emit_def
      conn_SetMaxPacketLength_def conn_SetRecvbufSize_def client_conn_SetConnectTimeout_def
      DEFAULT_CONNECT_TIMEOUT_def Let_def split: if_splits option.splits)

theorem client_settings_dropped_witness:
  "\<exists>u :: (unit, unit tcp_conn_ext) client. \<exists>c. tc_nodelay u = 1 \<and> tc_impl u = Some c \<and> nodelay (cl_conn c) = 0"
proof -
  let ?t = "client_SetNoDelay 1 (tcp_client_SetDefragment 1 (new_client :: (unit, unit tcp_conn_ext) client))"
  obtain u where u: "client_Start new_tcp_conn (Endpoint 1 80) ?t = Inr u" "tc_nodelay u = 1"
    by (simp add: client_Start_def client_SetNoDelay_def tcp_client_SetDefragment_def on_impl_def
      client_conn_Start_def new_client_conn_def conn_bind_def new_tcp_conn_def on_base_def emit_def
      conn_SetMaxPacketLength_def conn_SetRecvbufSize_def client_conn_SetConnectTimeout_def new_client_def Let_def)
  from client_settings_dropped [OF u(1)] u(2) show ?thesis by blast
qed

end
