(* ===== verification/Config.thy ===== *)
theory Config
  imports Prelude "HOL-Library.Multiset"
begin

text \<open>
  Configuration and small utilities: \<^verbatim>\<open>stdafx.h\<close> (\<^verbatim>\<open>fnv_hash_int\<close>,
  \<^verbatim>\<open>trim\<close>), \<^verbatim>\<open>config.h\<close>, \<^verbatim>\<open>config.cpp\<close> of both programs, and the reading
  half of \<^verbatim>\<open>deps/common/xmlserializer.h\<close>.  An XML document is the tree rapidxml builds of
  it; rapidxml's \<open>parse\<close> is a parameter of the functions that load a file; \<^verbatim>\<open>ConfigFile\<close>
  gives it the model of the parser.
\<close>

subsection \<open>stdafx.h\<close>

text \<open>\<open>*p\<close> is a \<open>char\<close>, signed on the platforms of the build: it is sign-extended
  before the unsigned multiplication.  Multiplication binds tighter than the exclusive or.\<close>

definition fnv_hash_int :: "u32 \<Rightarrow> u32" where
  "fnv_hash_int v = fold (\<lambda>p hash. hash XOR (scast p * 16777619)) (put32 v) 2166136261"

fun find_first_not_of :: "char \<Rightarrow> string \<Rightarrow> nat option" where
  "find_first_not_of c [] = None"
| "find_first_not_of c (x # xs) = (if x \<noteq> c then Some 0 else map_option Suc (find_first_not_of c xs))"

definition find_last_not_of :: "char \<Rightarrow> string \<Rightarrow> nat option" where
  "find_last_not_of c s = map_option (\<lambda>i. length s - 1 - i) (find_first_not_of c (rev s))"

text \<open>\<open>npos\<close> is beyond every string: \<open>substr\<close> from there throws.\<close>

definition trim :: "string \<Rightarrow> string result" where
  "trim str = (case (find_first_not_of CHR '' '' str, find_last_not_of CHR '' '' str) of
     (Some i, Some j) \<Rightarrow> Inr (take (j - i + 1) (drop i str))
   | _ \<Rightarrow> Inl OutOfRange)"

subsection \<open>Reading values from attributes\<close>

datatype xml_elem = Elem (xml_name: string) (xml_attrs: "(string \<times> string) list") (xml_children: "xml_elem list")

definition is_space :: "char \<Rightarrow> bool" where
  "is_space c \<longleftrightarrow> c = CHR '' '' \<or> (9 \<le> (of_char c :: nat) \<and> (of_char c :: nat) \<le> 13)"

definition is_digit :: "char \<Rightarrow> bool" where
  "is_digit c \<longleftrightarrow> 48 \<le> (of_char c :: nat) \<and> (of_char c :: nat) \<le> 57"

definition digits_value :: "string \<Rightarrow> nat" where
  "digits_value ds = foldl (\<lambda>n d. 10 * n + (of_char d - 48)) 0 ds"

text \<open>\<open>iss >> v\<close> on a fresh \<open>istringstream\<close>: leading white space is skipped; if nothing is
  left, \<open>v\<close> keeps its value; otherwise a sign and digits are read, no digits giving 0 and a number
  out of range the nearest bound.  A negative number is wrapped into an unsigned type.\<close>

definition read_sign :: "string \<Rightarrow> bool \<times> string" where
  "read_sign s = (if s \<noteq> [] \<and> hd s = CHR ''-'' then (True, tl s)
     else if s \<noteq> [] \<and> hd s = CHR ''+'' then (False, tl s) else (False, s))"

definition read_number :: "string \<Rightarrow> (bool \<times> nat option) option" where
  "read_number str =
     (let s = dropWhile is_space str in
      if s = [] then None
      else let (neg, t) = read_sign s; ds = takeWhile is_digit t
           in Some (neg, if ds = [] then None else Some (digits_value ds)))"

definition from_string_u32 :: "string \<Rightarrow> u32 \<Rightarrow> u32" where
  "from_string_u32 str v =
     (case read_number str of
        None \<Rightarrow> v
      | Some (neg, None) \<Rightarrow> 0
      | Some (neg, Some n) \<Rightarrow> if n \<ge> 2 ^ 32 then - 1 else if neg then - of_nat n else of_nat n)"

definition from_string_int :: "string \<Rightarrow> int \<Rightarrow> int" where
  "from_string_int str v =
     (case read_number str of
        None \<Rightarrow> v
      | Some (neg, None) \<Rightarrow> 0
      | Some (neg, Some n) \<Rightarrow>
          if neg then max (- (2 ^ 31)) (- int n) else min (2 ^ 31 - 1) (int n))"

subsection \<open>xmlserializer.h\<close>

text \<open>\<open>handle_item\<close> reads the first attribute of that name; an absent one leaves the member.\<close>

definition handle_item :: "(string \<Rightarrow> 'v \<Rightarrow> 'v) \<Rightarrow> string \<Rightarrow> xml_elem \<Rightarrow> 'v \<Rightarrow> 'v" where
  "handle_item from name root v =
     (case map_of (xml_attrs root) name of None \<Rightarrow> v | Some a \<Rightarrow> from a v)"

abbreviation from_string_str :: "string \<Rightarrow> string \<Rightarrow> string" where
  "from_string_str a v \<equiv> a"

definition children_named :: "string \<Rightarrow> xml_elem \<Rightarrow> xml_elem list" where
  "children_named name root = filter (\<lambda>e. xml_name e = name) (xml_children root)"

definition handle_node :: "(xml_elem \<Rightarrow> 'v \<Rightarrow> 'v) \<Rightarrow> string \<Rightarrow> xml_elem \<Rightarrow> 'v \<Rightarrow> 'v" where
  "handle_node action name root v =
     (case children_named name root of [] \<Rightarrow> v | node # _ \<Rightarrow> action node v)"

definition handle_node_group ::
    "(xml_elem \<Rightarrow> 'v \<Rightarrow> 'v) \<Rightarrow> 'v \<Rightarrow> string \<Rightarrow> xml_elem \<Rightarrow> 'v list \<Rightarrow> 'v list" where
  "handle_node_group action blank name root vs =
     vs @ map (\<lambda>node. action node blank) (children_named name root)"

text \<open>\<open>FromFile\<close>: \<open>content\<close> is what is in the file, if it can be opened; \<open>parse\<close> gives the
  top-level elements of the document, or \<open>None\<close> for a \<open>parse_error\<close>.  A document without a
  root of the wanted name leaves \<open>root_\<close> null, and the first action on it fails its assertion
  (or dereferences it, where assertions are off).\<close>

definition xml_from_file :: "(string \<Rightarrow> xml_elem list option) \<Rightarrow> string \<Rightarrow> string option
    \<Rightarrow> xml_elem option option" where
  "xml_from_file parse node_name content =
     (case content of
        None \<Rightarrow> None
      | Some text \<Rightarrow>
          if length text < 4 then None
          else case parse text of
                 None \<Rightarrow> None
               | Some doc \<Rightarrow> Some (find (\<lambda>e. xml_name e = node_name) doc))"

definition from_file :: "(xml_elem \<Rightarrow> 'v \<Rightarrow> 'v) \<Rightarrow> (string \<Rightarrow> xml_elem list option) \<Rightarrow> string
    \<Rightarrow> string option \<Rightarrow> 'v \<Rightarrow> (bool \<times> 'v) result" where
  "from_file action parse node_name content v =
     (case xml_from_file parse node_name content of
        None \<Rightarrow> Inr (False, v)
      | Some None \<Rightarrow> Inl NullPointer
      | Some (Some root) \<Rightarrow> Inr (True, action root v))"

subsection \<open>config.h\<close>

record address_info =
  cf_address :: string
  cf_port :: string

record node_info = address_info +
  cf_service_port :: string
  cf_concurrency :: u32

record system_config =
  cf_load_policy :: string
  cf_recv_buf_size :: u32
  cf_max_packet_size :: u32
  cf_queue_limit :: u32
  cf_tcp_send_no_delay :: int
  cf_tcp_connect_timeout :: u32
  cf_packet_defragment :: int

definition default_system :: system_config where
  "default_system = \<lparr>cf_load_policy = ''IP'', cf_recv_buf_size = 4096, cf_max_packet_size = 1024 * 110,
     cf_queue_limit = 10, cf_tcp_send_no_delay = 1, cf_tcp_connect_timeout = 30, cf_packet_defragment = 1\<rparr>"

definition system_action :: "xml_elem \<Rightarrow> system_config \<Rightarrow> system_config" where
  "system_action ss c =
     c\<lparr>cf_load_policy := handle_item from_string_str ''load_policy'' ss (cf_load_policy c),
       cf_max_packet_size := handle_item from_string_u32 ''max_packet_size'' ss (cf_max_packet_size c),
       cf_recv_buf_size := handle_item from_string_u32 ''recv_buf_size'' ss (cf_recv_buf_size c),
       cf_queue_limit := handle_item from_string_u32 ''queue_limit'' ss (cf_queue_limit c),
       cf_tcp_send_no_delay := handle_item from_string_int ''tcp_send_no_delay'' ss (cf_tcp_send_no_delay c),
       cf_tcp_connect_timeout := handle_item from_string_u32 ''tcp_connect_timeout'' ss (cf_tcp_connect_timeout c),
       cf_packet_defragment := handle_item from_string_int ''packet_defragment'' ss (cf_packet_defragment c)\<rparr>"

definition CONFIG_LOAD_POLICY_IP :: u32 where "CONFIG_LOAD_POLICY_IP = 0"
definition CONFIG_LOAD_POLICY_SEQ :: u32 where "CONFIG_LOAD_POLICY_SEQ = 1"

definition to_lower :: "char \<Rightarrow> char" where
  "to_lower c = (if 65 \<le> (of_char c :: nat) \<and> (of_char c :: nat) \<le> 90
     then char_of ((of_char c :: nat) + 32) else c)"

definition stricmp_eq :: "string \<Rightarrow> string \<Rightarrow> bool" where
  "stricmp_eq a b \<longleftrightarrow> map to_lower a = map to_lower b"

definition LoadPolicy :: "system_config \<Rightarrow> u32" where
  "LoadPolicy c = (if stricmp_eq (cf_load_policy c) ''SEQ'' then CONFIG_LOAD_POLICY_SEQ
     else CONFIG_LOAD_POLICY_IP)"

definition address_action :: "xml_elem \<Rightarrow> address_info \<Rightarrow> address_info" where
  "address_action ss a =
     a\<lparr>cf_address := handle_item from_string_str ''address'' ss (cf_address a),
       cf_port := handle_item from_string_str ''port'' ss (cf_port a)\<rparr>"

definition node_action :: "xml_elem \<Rightarrow> node_info \<Rightarrow> node_info" where
  "node_action ss a =
     a\<lparr>cf_address := handle_item from_string_str ''address'' ss (cf_address a),
       cf_port := handle_item from_string_str ''port'' ss (cf_port a),
       cf_service_port := handle_item from_string_str ''service_port'' ss (cf_service_port a),
       cf_concurrency := handle_item from_string_u32 ''concurrency'' ss (cf_concurrency a)\<rparr>"

record relay_config =
  rc_system :: system_config
  rc_locals :: "address_info list"

record agent_config =
  ac_system :: system_config
  ac_locals :: "node_info list"
  ac_remotes :: "node_info list"

definition default_relay_config :: relay_config where
  "default_relay_config = \<lparr>rc_system = default_system, rc_locals = []\<rparr>"

definition default_agent_config :: agent_config where
  "default_agent_config = \<lparr>ac_system = default_system, ac_locals = [], ac_remotes = []\<rparr>"

definition blank_address :: address_info where
  "blank_address = \<lparr>cf_address = '''', cf_port = ''''\<rparr>"

definition blank_node :: node_info where
  "blank_node = \<lparr>cf_address = '''', cf_port = '''', cf_service_port = '''', cf_concurrency = 1\<rparr>"

definition relay_config_action :: "xml_elem \<Rightarrow> relay_config \<Rightarrow> relay_config" where
  "relay_config_action ss c =
     c\<lparr>rc_system := handle_node system_action ''system'' ss (rc_system c),
       rc_locals := handle_node (handle_node_group address_action blank_address ''node'') ''local'' ss (rc_locals c)\<rparr>"

definition agent_config_action :: "xml_elem \<Rightarrow> agent_config \<Rightarrow> agent_config" where
  "agent_config_action ss c =
     c\<lparr>ac_system := handle_node system_action ''system'' ss (ac_system c),
       ac_locals := handle_node (handle_node_group node_action blank_node ''node'') ''service'' ss (ac_locals c),
       ac_remotes := handle_node (handle_node_group node_action blank_node ''node'') ''remote'' ss (ac_remotes c)\<rparr>"

subsection \<open>config.cpp\<close>

definition relay_config_init :: "(string \<Rightarrow> xml_elem list option) \<Rightarrow> string option
    \<Rightarrow> relay_config \<Rightarrow> (bool \<times> relay_config) result" where
  "relay_config_init parse content c =
     and_then (from_file relay_config_action parse ''config'' content c) (\<lambda>(ok, c).
       if \<not> ok then Inr (False, c)
       else if length (rc_locals c) = 0 then Inr (False, c)
       else Inr (True, c))"

definition agent_config_init :: "(string \<Rightarrow> xml_elem list option) \<Rightarrow> string option
    \<Rightarrow> agent_config \<Rightarrow> (bool \<times> agent_config) result" where
  "agent_config_init parse content c =
     and_then (from_file agent_config_action parse ''config'' content c) (\<lambda>(ok, c).
       if \<not> ok then Inr (False, c)
       else if length (ac_remotes c) = 0 then Inr (False, c)
       else if length (ac_locals c) = 0 then Inr (False, c)
       else Inr (True, c))"

subsection \<open>Properties\<close>

lemma find_first_takeWhile:
  "find_first_not_of c s = (if \<forall>x \<in> set s. x = c then None else Some (length (takeWhile (\<lambda>x. x = c) s)))"
  by (induction s) auto

lemma first_spaces: "u \<noteq> [] \<Longrightarrow> hd u \<noteq> c \<Longrightarrow> find_first_not_of c (replicate m c @ u) = Some m"
  by (induction m) (cases u, auto)+

lemma last_spaces:
  "u \<noteq> [] \<Longrightarrow> List.last u \<noteq> c \<Longrightarrow>
    find_last_not_of c (replicate m c @ u @ replicate n c) = Some (m + length u - 1)"
  using first_spaces [of "rev u @ replicate m c" c n]
  by (simp add: find_last_not_of_def hd_append hd_rev)

lemma trim_spaces:
  assumes "u \<noteq> []" "hd u \<noteq> CHR '' ''" "List.last u \<noteq> CHR '' ''"
  shows "trim (replicate m CHR '' '' @ u @ replicate n CHR '' '') = Inr u"
proof -
  have "Suc (length u - Suc 0) = length u" using assms(1) by (cases u) auto
  then show ?thesis
    using assms first_spaces [of "u @ replicate n CHR '' ''" "CHR '' ''" m]
      last_spaces [OF assms(1,3), of m n] by (simp add: trim_def hd_append)
qed

lemma all_spaces: "set s \<subseteq> {c} \<Longrightarrow> s = a @ t @ b \<Longrightarrow> t \<noteq> [] \<Longrightarrow> hd t = c"
  by (cases t) auto

lemma split_spaces:
  assumes "\<not> set s \<subseteq> {c}"
  shows "\<exists>m u n. s = replicate m c @ u @ replicate n c \<and> u \<noteq> [] \<and> hd u \<noteq> c \<and> List.last u \<noteq> c"
proof -
  let ?t = "dropWhile (\<lambda>x. x = c) s"
  let ?u = "rev (dropWhile (\<lambda>x. x = c) (rev ?t))"
  have spaces: "takeWhile (\<lambda>x. x = c) xs = replicate (length (takeWhile (\<lambda>x. x = c) xs)) c" for xs
    by (rule replicate_length_same [symmetric]) (auto dest: set_takeWhileD)
  define m where "m = length (takeWhile (\<lambda>x. x = c) s)"
  define n where "n = length (takeWhile (\<lambda>x. x = c) (rev ?t))"
  have t: "s = replicate m c @ ?t"
    using takeWhile_dropWhile_id [of "\<lambda>x. x = c" s] by (simp only: m_def spaces [of s, symmetric])
  have tne: "?t \<noteq> []" "hd ?t \<noteq> c" using assms hd_dropWhile [of "\<lambda>x. x = c" s] by auto
  have "rev ?t = replicate n c @ rev ?u"
    using takeWhile_dropWhile_id [of "\<lambda>x. x = c" "rev ?t"]
    by (simp only: n_def spaces [of "rev ?t", symmetric] rev_rev_ident)
  then have "rev (rev ?t) = rev (replicate n c @ rev ?u)" by (rule arg_cong)
  then have u: "?t = ?u @ replicate n c" by simp
  have d: "dropWhile (\<lambda>x. x = c) (rev ?t) \<noteq> []"
    using tne hd_in_set [of ?t] by (simp only: dropWhile_eq_Nil_conv set_rev) blast
  have une: "?u \<noteq> []" and ul: "List.last ?u \<noteq> c" using d hd_dropWhile [OF d]
    by (auto simp: last_rev)
  have uh: "hd ?u \<noteq> c" using tne(2) u une by (metis hd_append2)
  have "replicate m c @ ?t = replicate m c @ ?u @ replicate n c"
    by (rule arg_cong [where f = "\<lambda>x. replicate m c @ x", OF u])
  with t have "s = replicate m c @ ?u @ replicate n c" by (rule trans)
  with une ul uh show ?thesis by (intro exI conjI)
qed

text \<open>C39: \<open>trim\<close> removes the spaces at both ends and nothing else, and throws exactly on a
  string without any other character, the empty one included.\<close>

theorem trim_correct:
  "(trim s = Inr t) = (\<exists>m n. s = replicate m CHR '' '' @ t @ replicate n CHR '' ''
      \<and> t \<noteq> [] \<and> hd t \<noteq> CHR '' '' \<and> List.last t \<noteq> CHR '' '')
   \<and> (trim s = Inl OutOfRange) = (set s \<subseteq> {CHR '' ''})"
proof (cases "set s \<subseteq> {CHR '' ''}")
  case True
  then have "trim s = Inl OutOfRange" by (auto simp: trim_def find_first_takeWhile)
  moreover have "\<not> (\<exists>m n. s = replicate m CHR '' '' @ t @ replicate n CHR '' '' \<and> t \<noteq> []
      \<and> hd t \<noteq> CHR '' '' \<and> List.last t \<noteq> CHR '' '')"
    using all_spaces [OF True] by metis
  ultimately show ?thesis using True by simp
next
  case False
  then obtain m u n where s: "s = replicate m CHR '' '' @ u @ replicate n CHR '' ''"
    and u: "u \<noteq> []" "hd u \<noteq> CHR '' ''" "List.last u \<noteq> CHR '' ''"
    using split_spaces [OF False] by metis
  have trim_u: "trim s = Inr u" using trim_spaces [OF u] by (simp add: s)
  have "t = u" if "s = replicate m' CHR '' '' @ t @ replicate n' CHR '' ''"
    "t \<noteq> []" "hd t \<noteq> CHR '' ''" "List.last t \<noteq> CHR '' ''" for m' n'
    using trim_spaces [OF that(2-4)] trim_u that(1) by simp
  then have "(trim s = Inr t) = (\<exists>m n. s = replicate m CHR '' '' @ t @ replicate n CHR '' ''
      \<and> t \<noteq> [] \<and> hd t \<noteq> CHR '' '' \<and> List.last t \<noteq> CHR '' '')"
    using u by (metis s trim_u sum.inject(2))
  with False trim_u show ?thesis by simp
qed

text \<open>The hash that assigns users to agents under the IP policy does not depend on the order of
  the bytes of the address: the multiplication is applied to the byte, not to the hash, so two
  addresses with the same bytes in any order always meet at the same agent.\<close>

theorem fnv_hash_int_unordered:
  "mset (put32 v) = mset (put32 w) \<Longrightarrow> fnv_hash_int v = fnv_hash_int w"
  unfolding fnv_hash_int_def
  by (rule fun_cong [OF fold_multiset_equiv]) (simp_all add: fun_eq_iff ac_simps)

theorem fnv_hash_int_unordered_witness: "fnv_hash_int 0x0A000001 = fnv_hash_int 0x0100000A"
  by (rule fnv_hash_int_unordered) code_simp

text \<open>Decimal notation, to state what the number reader accepts.\<close>

fun decimal :: "nat \<Rightarrow> string" where
  "decimal n = (if n < 10 then [char_of (48 + n)] else decimal (n div 10) @ [char_of (48 + n mod 10)])"

declare decimal.simps [simp del]

lemma digit_char: "(n::nat) < 10 \<Longrightarrow> is_digit (char_of (48 + n)) \<and> (of_char (char_of (48 + n)) :: nat) = 48 + n"
  by (simp add: is_digit_def)

lemma decimal_digits: "decimal n \<noteq> [] \<and> list_all is_digit (decimal n)"
proof (induction n rule: decimal.induct)
  case (1 n)
  then show ?case using digit_char [of n] digit_char [of "n mod 10"]
    by (cases "n < 10") (simp_all add: decimal.simps [of n])
qed

lemma decimal_value: "digits_value (decimal n) = n"
proof (induction n rule: decimal.induct)
  case (1 n)
  show ?case
  proof (cases "n < 10")
    case False
    then have "digits_value (decimal (n div 10)) = n div 10" by (rule "1.IH")
    with False show ?thesis by (subst decimal.simps) (simp add: digits_value_def)
  qed (subst decimal.simps, simp add: digits_value_def)
qed

lemma digit_not_space: "is_digit c \<Longrightarrow> \<not> is_space c \<and> c \<noteq> CHR ''-'' \<and> c \<noteq> CHR ''+''"
  by (auto simp: is_digit_def is_space_def)

lemma read_decimal:
  assumes "list_all is_space ws" and "list_all (\<lambda>c. \<not> is_digit c) (take 1 rest)"
  shows "read_number (ws @ decimal n @ rest) = Some (False, Some n)"
proof -
  obtain d ds where d: "decimal n = d # ds" "is_digit d" "list_all is_digit ds"
    using decimal_digits [of n] that by (cases "decimal n") auto
  have "dropWhile is_space (ws @ decimal n @ rest) = decimal n @ rest"
    using assms(1) digit_not_space [OF d(2)] by (induction ws) (auto simp: d)
  moreover have "takeWhile is_digit (decimal n @ rest) = decimal n"
  proof -
    have "takeWhile is_digit rest = []" using assms(2) by (cases rest) auto
    then show ?thesis using decimal_digits [of n] by (simp add: list_all_iff)
  qed
  moreover have "read_sign (decimal n @ rest) = (False, decimal n @ rest)"
    using digit_not_space [OF d(2)] by (simp add: read_sign_def d(1))
  ultimately show ?thesis using decimal_digits [of n] by (simp add: read_number_def decimal_value)
qed

text \<open>A numeric setting written in decimal, with white space before it and anything but a digit
  after it, is read as that number if it fits the member, and as the largest value of the member
  otherwise; no out-of-range setting wraps around.\<close>

theorem numbers_read_back:
  assumes "list_all is_space ws" and "list_all (\<lambda>c. \<not> is_digit c) (take 1 rest)"
  shows "unat (from_string_u32 (ws @ decimal n @ rest) v) = min n (2 ^ 32 - 1)
    \<and> from_string_int (ws @ decimal n @ rest) w = min (int n) (2 ^ 31 - 1)"
  using read_decimal [OF assms, of n]
  by (auto simp: from_string_u32_def from_string_int_def unsigned_of_nat take_bit_nat_eq_self
      unsigned_minus_1_eq_mask mask_eq_exp_minus_1 min_def)

theorem numbers_read_back_witness:
  "unat (from_string_u32 ('' '' @ decimal 4096 @ ''k'') 10) = 4096"
  using numbers_read_back [of "'' ''" "''k''" 4096 10 0]
  by (simp add: is_space_def is_digit_def)

text \<open>A program that has loaded its configuration has at least one node to listen on (the relay)
  or a service and a remote node (the agent), and keeps the default of every section the file
  does not have.\<close>

theorem config_init_nodes:
  "relay_config_init parse content default_relay_config = Inr (True, c) \<Longrightarrow>
   agent_config_init parse' content' default_agent_config = Inr (True, d) \<Longrightarrow>
    rc_locals c \<noteq> [] \<and> ac_locals d \<noteq> [] \<and> ac_remotes d \<noteq> []
    \<and> (\<exists>root. xml_from_file parse ''config'' content = Some (Some root)
        \<and> rc_system c = (case children_named ''system'' root of
            [] \<Rightarrow> default_system | e # _ \<Rightarrow> system_action e default_system))"
  by (auto simp: relay_config_init_def agent_config_init_def and_then_eq_Inr from_file_def
      relay_config_action_def agent_config_action_def handle_node_def default_relay_config_def
      split: if_splits option.splits list.splits)

theorem config_init_nodes_witness:
  "\<exists>c. relay_config_init (\<lambda>_. Some [Elem ''config'' [] [Elem ''local'' []
        [Elem ''node'' [(''address'', ''0.0.0.0''), (''port'', ''9000'')] []]]]) (Some ''<xml>'')
        default_relay_config = Inr (True, c)
    \<and> rc_locals c \<noteq> [] \<and> cf_queue_limit (rc_system c) = 10"
proof -
  let ?n = "[Elem ''node'' [(''address'', ''0.0.0.0''), (''port'', ''9000'')] []]"
  let ?p = "\<lambda>_. Some [Elem ''config'' [] [Elem ''local'' [] ?n]]"
  let ?q = "\<lambda>_. Some [Elem ''config'' [] [Elem ''service'' [] ?n, Elem ''remote'' [] ?n]]"
  obtain c where c: "relay_config_init ?p (Some ''<xml>'') default_relay_config = Inr (True, c)"
    "cf_queue_limit (rc_system c) = 10"
    by (simp add: relay_config_init_def from_file_def xml_from_file_def relay_config_action_def
        handle_node_def handle_node_group_def children_named_def default_relay_config_def default_system_def)
  obtain d where "agent_config_init ?q (Some ''<xml>'') default_agent_config = Inr (True, d)"
    by (simp add: agent_config_init_def from_file_def xml_from_file_def agent_config_action_def
        handle_node_def handle_node_group_def children_named_def default_agent_config_def)
  from config_init_nodes [OF c(1) this] c show ?thesis by blast
qed

text \<open>A configuration file that is well-formed XML but has no \<open>config\<close> element does not make
  \<open>init\<close> return false: the null root is used, and the program aborts.\<close>

theorem config_without_root_aborts:
  assumes "length text \<ge> 4" and "parse text = Some doc" and "find (\<lambda>e. xml_name e = ''config'') doc = None"
  shows "relay_config_init parse (Some text) c = Inl NullPointer
    \<and> agent_config_init parse (Some text) d = Inl NullPointer"
  using assms by (simp add: relay_config_init_def agent_config_init_def from_file_def xml_from_file_def)

theorem config_without_root_aborts_witness:
  "relay_config_init (\<lambda>_. Some [Elem ''cfg'' [] []]) (Some ''<cfg/>'') default_relay_config = Inl NullPointer"
  using config_without_root_aborts [of "''<cfg/>''" "\<lambda>_. Some [Elem ''cfg'' [] []]" "[Elem ''cfg'' [] []]"]
  by simp

end
