(* ===== verification/FlowGate.thy ===== *)
theory FlowGate
  imports Prelude
begin

text \<open>
  The flow control the relay and the agent apply to each direction of a session: a counter of
  buffers handed to the next connection and not yet written, and a flag that says the source has
  been told to stop.  The flag goes up when the counter passes the queue limit and comes down when
  it falls to half of it.  \<open>flow_gate\<close> is the contract of such a pair of operations on a
  session; the components that keep it interpret the locale on their own records.  The two operations are
  atomic here; \<^verbatim>\<open>FlowRace\<close> interleaves their statements.
\<close>

definition must_cork :: "u32 \<Rightarrow> bool \<Rightarrow> u32 \<Rightarrow> bool" where
  "must_cork queue_limit corked traffic \<longleftrightarrow> queue_limit \<noteq> 0 \<and> \<not> corked \<and> traffic > queue_limit"

definition must_uncork :: "u32 \<Rightarrow> bool \<Rightarrow> u32 \<Rightarrow> bool" where
  "must_uncork queue_limit corked traffic \<longleftrightarrow> queue_limit \<noteq> 0 \<and> corked \<and> traffic \<le> queue_limit div 2"

locale flow_gate =
  fixes limit :: u32
    and traffic :: "'s \<Rightarrow> u32"
    and corked :: "'s \<Rightarrow> bool"
    and submit :: "'s \<Rightarrow> 's"
    and complete :: "'s \<Rightarrow> 's"
  assumes submit_traffic: "traffic (submit s) = traffic s + 1"
    and submit_corked: "corked (submit s) = (corked s \<or> must_cork limit (corked s) (traffic s + 1))"
    and complete_traffic: "traffic (complete s) = traffic s - 1"
    and complete_corked: "corked (complete s) = (corked s \<and> \<not> must_uncork limit (corked s) (traffic s - 1))"
begin

text \<open>A corked source always has more than half the limit outstanding.\<close>

definition gate_ok :: "'s \<Rightarrow> bool" where
  "gate_ok s \<longleftrightarrow> (corked s \<longrightarrow> limit \<noteq> 0 \<and> traffic s > limit div 2)"

lemma half_le: "(l::u32) < n \<Longrightarrow> l div 2 < n"
  by (metis div_le_dividend le_less_trans unat_div_distrib word_le_nat_alt)

lemma no_wrap: "(n::u32) \<noteq> - 1 \<Longrightarrow> l < n \<Longrightarrow> l < n + 1"
proof -
  assume n: "n \<noteq> - 1" and "l < n"
  have "1 + n \<noteq> 0" using n by (metis add.inverse_inverse add.right_inverse add_left_cancel add_minus_cancel)
  then have "unat (1 + n) = Suc (unat n)" by (rule unatSuc)
  with \<open>l < n\<close> show ?thesis by (simp add: word_less_nat_alt add.commute)
qed

lemma submit_ok: "gate_ok s \<Longrightarrow> traffic s \<noteq> - 1 \<Longrightarrow> gate_ok (submit s)"
  using half_le no_wrap
  by (auto simp: gate_ok_def submit_traffic submit_corked must_cork_def)

lemma complete_ok: "gate_ok s \<Longrightarrow> gate_ok (complete s)"
  by (auto simp: gate_ok_def complete_traffic complete_corked must_uncork_def)

text \<open>No lost wake-up: once everything outstanding has completed, the source is not corked.\<close>

lemma drained: "gate_ok s \<Longrightarrow> traffic s = 0 \<Longrightarrow> \<not> corked s"
  by (auto simp: gate_ok_def)

lemma completes_traffic: "traffic ((complete ^^ n) s) = traffic s - of_nat n"
  by (induction n) (simp_all add: complete_traffic)

lemma completes_ok: "gate_ok s \<Longrightarrow> gate_ok ((complete ^^ n) s)"
  by (induction n) (simp_all add: complete_ok)

lemma all_complete: "gate_ok s \<Longrightarrow> \<not> corked ((complete ^^ unat (traffic s)) s)"
  using drained [OF completes_ok] by (simp add: completes_traffic)

end

end
