(* ===== verification/RelayApp.thy ===== *)
theory RelayApp
  imports Protocol NetServer_Props Config FlowGate
begin

text \<open>
  \<^verbatim>\<open>AppLogic1\<close> of the relay (\<^verbatim>\<open>r-nat-s/app1/\<close>): the services agents have bound, the
  agents connected, and the sessions of users, with the handlers of both servers and the
  completion closures they pass down.  Sessions and services are shared (\<open>shared_ptr\<close> in several
  tables and in closures), so they live in stores by address; an agent is reached through
  \<open>agents_\<close> only.  The servers are the records of \<open>NetServer\<close>; Send, SendV, BlockRecv
  and Close of a connection are what they post.
\<close>

subsection \<open>State\<close>

text \<open>The closures given to Send and SendV, with what they capture: the service, the session, the
  sequence number whose connection the closure resumes, and the queue limit.\<close>

datatype completion = TunnelDone nat nat u32 u32 | UserDone nat nat u32 u32

record session =
  ss_seq :: u32
  ss_agent_id :: u32
  ss_using_session_conn :: bool
  ss_user_traffic :: u32
  ss_tunnel_traffic :: u32
  ss_user_corked :: bool
  ss_tunnel_corked :: bool
  ss_user_disconnected :: bool
  ss_tunnel_disconnected :: bool
  ss_tunnel_hard_disconnected :: bool

definition new_session :: session where
  "new_session = \<lparr>ss_seq = 0, ss_agent_id = 0, ss_using_session_conn = False, ss_user_traffic = 0,
     ss_tunnel_traffic = 0, ss_user_corked = False, ss_tunnel_corked = False,
     ss_user_disconnected = False, ss_tunnel_disconnected = False, ss_tunnel_hard_disconnected = False\<rparr>"

type_synonym user_server = "(completion, completion conn) server"
type_synonym agent_server = "(completion, completion tcp_conn) server"

record service =
  sv_port :: u16
  sv_tcpserver :: user_server
  sv_agents :: "u32 list"
  sv_sessions :: "(u32, nat) omap"

record agent =
  ag_seq :: u32
  ag_ports :: "u16 list"
  ag_sessions :: "(u32, nat) omap"

record relay =
  rl_config :: relay_config
  rl_ioservices :: nat
  rl_pooling :: bool
  rl_queue_limit :: u32
  rl_load_policy :: u32
  rl_listenep :: "endpoint list"
  rl_services :: "(u16, nat) omap"
  rl_svc :: "nat \<Rightarrow> service"
  rl_next_svc :: nat
  rl_ses :: "nat \<Rightarrow> session"
  rl_next_ses :: nat
  rl_agents :: "(u32, agent) omap"
  rl_agent_srv :: agent_server

definition blank_service :: service where
  "blank_service = \<lparr>sv_port = 0, sv_tcpserver = new_server 0 new_raw_conn, sv_agents = [], sv_sessions = []\<rparr>"

definition new_relay :: "relay_config \<Rightarrow> nat \<Rightarrow> relay" where
  "new_relay cfg n = \<lparr>rl_config = cfg, rl_ioservices = n, rl_pooling = True, rl_queue_limit = 0,
     rl_load_policy = 0, rl_listenep = [], rl_services = [], rl_svc = (\<lambda>_. blank_service),
     rl_next_svc = 0, rl_ses = (\<lambda>_. new_session), rl_next_ses = 0, rl_agents = [],
     rl_agent_srv = new_server n new_tcp_conn\<rparr>"

definition upd_svc :: "nat \<Rightarrow> (service \<Rightarrow> service) \<Rightarrow> relay \<Rightarrow> relay" where
  "upd_svc sid f s = s\<lparr>rl_svc := (rl_svc s)(sid := f (rl_svc s sid))\<rparr>"

definition upd_ses :: "nat \<Rightarrow> (session \<Rightarrow> session) \<Rightarrow> relay \<Rightarrow> relay" where
  "upd_ses k f s = s\<lparr>rl_ses := (rl_ses s)(k := f (rl_ses s k))\<rparr>"

definition upd_agent :: "u32 \<Rightarrow> (agent \<Rightarrow> agent) \<Rightarrow> relay \<Rightarrow> relay" where
  "upd_agent seq f s = (case map_find (rl_agents s) seq of
     None \<Rightarrow> s | Some a \<Rightarrow> s\<lparr>rl_agents := map_put seq (f a) (rl_agents s)\<rparr>)"

definition on_agent_srv :: "(agent_server \<Rightarrow> agent_server) \<Rightarrow> relay \<Rightarrow> relay" where
  "on_agent_srv f s = s\<lparr>rl_agent_srv := f (rl_agent_srv s)\<rparr>"

definition on_user_srv :: "nat \<Rightarrow> (user_server \<Rightarrow> user_server) \<Rightarrow> relay \<Rightarrow> relay" where
  "on_user_srv sid f = upd_svc sid (\<lambda>v. v\<lparr>sv_tcpserver := f (sv_tcpserver v)\<rparr>)"

subsection \<open>Init, Start, Stop\<close>

text \<open>\<open>resolve\<close> is asio's resolver: the endpoints of an address and a port.\<close>

fun relay_resolve :: "(string \<Rightarrow> string \<Rightarrow> endpoint list) \<Rightarrow> address_info list \<Rightarrow> relay \<Rightarrow> relay result" where
  "relay_resolve resolve [] s = Inr s"
| "relay_resolve resolve (l # ls) s =
     and_then (trim (cf_address l)) (\<lambda>address.
       relay_resolve resolve ls
         (s\<lparr>rl_listenep := rl_listenep s @ resolve address (cf_port l)\<rparr>))"

definition relay_Init :: "(string \<Rightarrow> string \<Rightarrow> endpoint list) \<Rightarrow> relay \<Rightarrow> (bool \<times> relay) result" where
  "relay_Init resolve s =
     (let s = s\<lparr>rl_load_policy := LoadPolicy (rc_system (rl_config s)),
                rl_queue_limit := cf_queue_limit (rc_system (rl_config s))\<rparr>
      in and_then (relay_resolve resolve (rc_locals (rl_config s)) s) (\<lambda>s.
           if length (rl_listenep s) = 0 then Inr (False, s) else Inr (True, s)))"

definition relay_Start :: "(endpoint \<Rightarrow> u16 option) \<Rightarrow> relay \<Rightarrow> relay result" where
  "relay_Start os s =
     (let sys = rc_system (rl_config s);
          srv = srv_bind_callbacks
            (srv_SetDefragment (cf_packet_defragment sys)
              (srv_SetRecvbufSize (ucast (cf_recv_buf_size sys))
                (srv_SetNoDelay (cf_tcp_send_no_delay sys)
                  (srv_SetMaxPacketLength (cf_max_packet_size sys)
                    (new_server (rl_ioservices s) new_tcp_conn)))))
      in and_then (srv_Start tcp_class os (rl_listenep s) srv) (\<lambda>(_, srv).
           Inr (s\<lparr>rl_pooling := True, rl_agent_srv := srv\<rparr>)))"

definition relay_Stop :: "relay \<Rightarrow> relay" where
  "relay_Stop s =
     (let s = on_agent_srv (srv_Close tcp_class) (s\<lparr>rl_pooling := False\<rparr>);
          s = fold (\<lambda>(_, sid). on_user_srv sid (srv_Close raw_class)) (rl_services s) s
      in s\<lparr>rl_services := [], rl_agents := []\<rparr>)"

subsection \<open>Sessions\<close>

definition relay__CleanSession :: "nat \<Rightarrow> nat \<Rightarrow> relay \<Rightarrow> relay" where
  "relay__CleanSession sid k s =
     (let session = rl_ses s k in
      if ss_user_disconnected session \<and> ss_tunnel_disconnected session
      then let s = upd_svc sid (\<lambda>v. v\<lparr>sv_sessions := map_erase (ss_seq session) (sv_sessions v)\<rparr>) s;
               s = on_user_srv sid (srv_CloseConn (ss_seq session)) s
           in upd_agent (ss_agent_id session)
                (\<lambda>a. a\<lparr>ag_sessions := map_erase (ss_seq session) (ag_sessions a)\<rparr>) s
      else s)"

text \<open>The closure of DATA, run when a buffer for the user has been taken by its connection.  The
  connection posts it to its own \<open>io_service\<close> (\<^verbatim>\<open>network/tcpconnection.hpp\<close>, line 231), not to
  the strand of the program, so in the program it may overlap a handler.  Here each closure is one step
  between two handlers: the definitions below are the effect of its whole body.  \<^verbatim>\<open>FlowRace\<close> runs
  the flow control of handler and closure statement by statement, and shows that this is what the
  statements come to when they do not overlap.\<close>

definition ses_tunnel_submit :: "u32 \<Rightarrow> session \<Rightarrow> session" where
  "ses_tunnel_submit limit x =
     (let x = x\<lparr>ss_tunnel_traffic := ss_tunnel_traffic x + 1\<rparr>
      in if must_cork limit (ss_tunnel_corked x) (ss_tunnel_traffic x)
         then x\<lparr>ss_tunnel_corked := True\<rparr> else x)"

definition ses_tunnel_complete :: "u32 \<Rightarrow> session \<Rightarrow> session" where
  "ses_tunnel_complete limit x =
     (let x = x\<lparr>ss_tunnel_traffic := ss_tunnel_traffic x - 1\<rparr>
      in if must_uncork limit (ss_tunnel_corked x) (ss_tunnel_traffic x)
         then x\<lparr>ss_tunnel_corked := False\<rparr> else x)"

definition relay_tunnel_done :: "nat \<Rightarrow> nat \<Rightarrow> u32 \<Rightarrow> u32 \<Rightarrow> relay \<Rightarrow> relay" where
  "relay_tunnel_done sid k seq limit s =
     (let corked = ss_tunnel_corked (rl_ses s k);
          s = upd_ses k (ses_tunnel_complete limit) s;
          s = (if corked \<and> \<not> ss_tunnel_corked (rl_ses s k)
               then on_agent_srv (srv_BlockRecv seq False) s else s)
      in relay__CleanSession sid k s)"

text \<open>The closure of a user's data, run when the tunnel has taken it.  The test reads
  \<open>tunnel_traffic_\<close>, as the source does.\<close>

definition relay_user_done :: "nat \<Rightarrow> nat \<Rightarrow> u32 \<Rightarrow> u32 \<Rightarrow> relay \<Rightarrow> relay" where
  "relay_user_done sid k seq limit s =
     (let s = upd_ses k (\<lambda>x. x\<lparr>ss_user_traffic := ss_user_traffic x - 1\<rparr>) s;
          x = rl_ses s k;
          s = (if must_uncork limit (ss_user_corked x) (ss_tunnel_traffic x)
               then on_user_srv sid (srv_BlockRecv seq False)
                      (upd_ses k (\<lambda>x. x\<lparr>ss_user_corked := False\<rparr>) s)
               else s)
      in relay__CleanSession sid k s)"

fun relay_run_completion :: "completion \<Rightarrow> relay \<Rightarrow> relay" where
  "relay_run_completion (TunnelDone sid k seq limit) s = relay_tunnel_done sid k seq limit s"
| "relay_run_completion (UserDone sid k seq limit) s = relay_user_done sid k seq limit s"

subsection \<open>Agents\<close>

definition relay__OnAgentConnect :: "u32 \<Rightarrow> endpoint \<Rightarrow> relay \<Rightarrow> relay" where
  "relay__OnAgentConnect seq ep s =
     s\<lparr>rl_agents := map_put seq \<lparr>ag_seq = seq, ag_ports = [], ag_sessions = []\<rparr> (rl_agents s)\<rparr>"

text \<open>The body of the loop over the agent's ports.\<close>

definition relay_drop_session :: "nat \<Rightarrow> nat \<Rightarrow> relay \<Rightarrow> relay" where
  "relay_drop_session sid k s =
     relay__CleanSession sid k
       (upd_ses k (\<lambda>x. x\<lparr>ss_tunnel_disconnected := True, ss_tunnel_hard_disconnected := True\<rparr>) s)"

text \<open>\<open>service->agents_.erase(seq)\<close>, and the shutdown of a service without agents.\<close>

definition relay_leave_service :: "u32 \<Rightarrow> u16 \<Rightarrow> nat \<Rightarrow> relay \<Rightarrow> relay" where
  "relay_leave_service seq port sid s =
     (let s = upd_svc sid (\<lambda>v. v\<lparr>sv_agents := set_erase seq (sv_agents v)\<rparr>) s
      in if length (sv_agents (rl_svc s sid)) = 0
         then let s = on_user_srv sid (srv_Close raw_class) s
              in s\<lparr>rl_services := map_erase port (rl_services s)\<rparr>
         else s)"

definition relay_drop_port :: "u32 \<Rightarrow> agent \<Rightarrow> u16 \<Rightarrow> relay \<Rightarrow> relay" where
  "relay_drop_port seq agent port s =
     (case map_find (rl_services s) port of
        None \<Rightarrow> s
      | Some sid \<Rightarrow>
          relay_leave_service seq port sid
            (fold (\<lambda>(_, k). relay_drop_session sid k) (ag_sessions agent) s))"

definition relay__OnAgentDisconnect :: "u32 \<Rightarrow> err \<Rightarrow> relay \<Rightarrow> relay" where
  "relay__OnAgentDisconnect seq e s =
     (case map_find (rl_agents s) seq of
        None \<Rightarrow> s
      | Some agent \<Rightarrow>
          fold (relay_drop_port seq agent) (ag_ports agent)
            (s\<lparr>rl_agents := map_erase seq (rl_agents s)\<rparr>))"

text \<open>The branches of \<open>__OnAgentRecv\<close>.\<close>

definition relay_send_ack :: "u32 \<Rightarrow> r2a \<Rightarrow> relay \<Rightarrow> relay" where
  "relay_send_ack seq rep = on_agent_srv (srv_Send seq (r2a_encode rep) None)"

definition new_service_server :: "relay \<Rightarrow> user_server" where
  "new_service_server s =
     (let sys = rc_system (rl_config s)
      in srv_bind_callbacks
           (srv_SetRecvbufSize (ucast (cf_recv_buf_size sys))
             (srv_SetNoDelay (cf_tcp_send_no_delay sys)
               (srv_SetMaxPacketLength (cf_max_packet_size sys)
                 (new_server (rl_ioservices s) new_raw_conn)))))"

definition relay_on_bind :: "(endpoint \<Rightarrow> u16 option) \<Rightarrow> u32 \<Rightarrow> u16 \<Rightarrow> relay \<Rightarrow> relay result" where
  "relay_on_bind os seq port s =
     (case map_find (rl_agents s) seq of
        None \<Rightarrow> Inr s
      | Some agent \<Rightarrow>
          (case map_find (rl_services s) port of
             None \<Rightarrow>
               and_then (srv_Start raw_class os [Endpoint 0 port] (new_service_server s))
                 (\<lambda>(ok, srv).
                   let sid = rl_next_svc s;
                       service = \<lparr>sv_port = port, sv_tcpserver = srv, sv_agents = set_put seq [], sv_sessions = []\<rparr>
                   in if ok
                      then let s = s\<lparr>rl_svc := (rl_svc s)(sid := service), rl_next_svc := Suc sid,
                                     rl_services := map_put port sid (rl_services s)\<rparr>;
                               s = upd_agent seq (\<lambda>a. a\<lparr>ag_ports := set_put port (ag_ports a)\<rparr>) s
                           in Inr (relay_send_ack seq (R2A_bind port 0) s)
                      else Inr (relay_send_ack seq (R2A_bind port (- 1)) s))
           | Some sid \<Rightarrow>
               let s = upd_svc sid (\<lambda>v. v\<lparr>sv_agents := set_put seq (sv_agents v)\<rparr>) s;
                   s = upd_agent seq (\<lambda>a. a\<lparr>ag_ports := set_put port (ag_ports a)\<rparr>) s
               in Inr (relay_send_ack seq (R2A_bind port 0) s)))"

definition relay_on_unbind :: "u32 \<Rightarrow> u16 \<Rightarrow> relay \<Rightarrow> relay" where
  "relay_on_unbind seq port s =
     (case map_find (rl_agents s) seq of
        None \<Rightarrow> s
      | Some agent \<Rightarrow>
          let s = upd_agent seq (\<lambda>a. a\<lparr>ag_ports := set_erase port (ag_ports a)\<rparr>) s;
              s = (case map_find (rl_services s) port of
                     None \<Rightarrow> s
                   | Some sid \<Rightarrow> relay_leave_service seq port sid s)
          in relay_send_ack seq (R2A_unbind port 0) s)"

definition relay_on_data :: "u32 \<Rightarrow> u16 \<Rightarrow> u32 \<Rightarrow> bytes \<Rightarrow> relay \<Rightarrow> relay" where
  "relay_on_data seq port user_id payload s =
     (case map_find (rl_agents s) seq of
        None \<Rightarrow> s
      | Some agent \<Rightarrow>
          (case map_find (rl_services s) port of
             None \<Rightarrow> s
           | Some sid \<Rightarrow>
               (case map_find (sv_sessions (rl_svc s sid)) user_id of
                  None \<Rightarrow> s
                | Some k \<Rightarrow>
                    let limit = rl_queue_limit s;
                        corked = ss_tunnel_corked (rl_ses s k);
                        s = upd_ses k (ses_tunnel_submit limit) s;
                        s = (if \<not> corked \<and> ss_tunnel_corked (rl_ses s k)
                             then on_agent_srv (srv_BlockRecv seq True) s else s)
                    in on_user_srv sid (srv_Send user_id payload (Some (TunnelDone sid k seq limit))) s)))"

definition relay_on_disconnect :: "u16 \<Rightarrow> u32 \<Rightarrow> relay \<Rightarrow> relay" where
  "relay_on_disconnect port uid s =
     (case map_find (rl_services s) port of
        None \<Rightarrow> s
      | Some sid \<Rightarrow>
          (case map_find (sv_sessions (rl_svc s sid)) uid of
             None \<Rightarrow> s
           | Some k \<Rightarrow>
               relay__CleanSession sid k (upd_ses k (\<lambda>x. x\<lparr>ss_tunnel_disconnected := True\<rparr>) s)))"

text \<open>SESSION.  The lookup is by the agent's own sequence number, as the source has it.\<close>

definition relay_on_session :: "u32 \<Rightarrow> u16 \<Rightarrow> u32 \<Rightarrow> relay \<Rightarrow> relay" where
  "relay_on_session seq port uid s =
     (case map_find (rl_agents s) seq of
        None \<Rightarrow> s
      | Some agent \<Rightarrow>
          let s = upd_agent seq (\<lambda>a. a\<lparr>ag_ports := set_put port (ag_ports a)\<rparr>) s in
          (case map_find (rl_services s) port of
             None \<Rightarrow> s
           | Some sid \<Rightarrow>
               (case map_find (sv_sessions (rl_svc s sid)) seq of
                  None \<Rightarrow>
                    let k = rl_next_ses s;
                        s = s\<lparr>rl_ses := (rl_ses s)(k := new_session\<lparr>ss_agent_id := seq, ss_using_session_conn := True\<rparr>),
                              rl_next_ses := Suc k\<rparr>;
                        s = upd_svc sid (\<lambda>v. v\<lparr>sv_sessions := map_put uid k (sv_sessions v)\<rparr>) s
                    in upd_agent seq (\<lambda>a. a\<lparr>ag_sessions := map_put uid k (ag_sessions a)\<rparr>) s
                | Some k \<Rightarrow>
                    let s = upd_agent (ss_agent_id (rl_ses s k))
                              (\<lambda>a. a\<lparr>ag_sessions := map_erase uid (ag_sessions a)\<rparr>) s;
                        s = upd_ses k (\<lambda>x. x\<lparr>ss_agent_id := seq, ss_using_session_conn := True\<rparr>) s
                    in upd_agent seq (\<lambda>a. a\<lparr>ag_sessions := map_put uid k (ag_sessions a)\<rparr>) s)))"

definition relay__OnAgentRecv :: "(endpoint \<Rightarrow> u16 option) \<Rightarrow> u32 \<Rightarrow> bytes \<Rightarrow> relay \<Rightarrow> relay result" where
  "relay__OnAgentRecv os seq data s =
     (case a2r_decode data of
        None \<Rightarrow> Inr s
      | Some (A2R_bind port) \<Rightarrow> relay_on_bind os seq port s
      | Some (A2R_unbind port) \<Rightarrow> Inr (relay_on_unbind seq port s)
      | Some (A2R_data port uid) \<Rightarrow>
          Inr (relay_on_data seq port uid (drop (a2r_sizeof (A2R_data port uid)) data) s)
      | Some (A2R_disconnect port uid) \<Rightarrow> Inr (relay_on_disconnect port uid s)
      | Some (A2R_session port uid) \<Rightarrow> Inr (relay_on_session seq port uid s))"

subsection \<open>Users\<close>

text \<open>The choice of an agent: the \<open>cli_index % size\<close>-th of the ordered set.\<close>

definition relay_pick :: "u32 \<Rightarrow> u32 \<Rightarrow> endpoint \<Rightarrow> u32 list \<Rightarrow> u32" where
  "relay_pick policy seq ep agents =
     (let cli_index = (if policy = CONFIG_LOAD_POLICY_IP then fnv_hash_int (ep_ip ep) else seq)
      in agents ! (unat cli_index mod length agents))"

definition relay__OnUserConnect :: "nat \<Rightarrow> u32 \<Rightarrow> endpoint \<Rightarrow> relay \<Rightarrow> relay" where
  "relay__OnUserConnect sid seq ep s =
     (if length (sv_agents (rl_svc s sid)) = 0
      then on_user_srv sid (srv_CloseConn seq) s
      else let agent_seq = relay_pick (rl_load_policy s) seq ep (sv_agents (rl_svc s sid)) in
        (case map_find (rl_agents s) agent_seq of
           None \<Rightarrow> s
         | Some agent \<Rightarrow>
             let k = rl_next_ses s;
                 s = s\<lparr>rl_ses := (rl_ses s)(k := new_session\<lparr>ss_seq := seq, ss_agent_id := agent_seq\<rparr>),
                       rl_next_ses := Suc k\<rparr>;
                 s = upd_svc sid (\<lambda>v. v\<lparr>sv_sessions := map_put seq k (sv_sessions v)\<rparr>) s;
                 s = upd_agent agent_seq (\<lambda>a. a\<lparr>ag_sessions := map_put seq k (ag_sessions a)\<rparr>) s
             in on_agent_srv (srv_Send agent_seq
                  (r2a_encode (R2A_connect (sv_port (rl_svc s sid)) seq (ep_ip ep) (ep_port ep))) None) s))"

definition relay__OnUserDisconnect :: "nat \<Rightarrow> u32 \<Rightarrow> err \<Rightarrow> relay \<Rightarrow> relay" where
  "relay__OnUserDisconnect sid seq e s =
     (case map_find (sv_sessions (rl_svc s sid)) seq of
        None \<Rightarrow> s
      | Some k \<Rightarrow>
          let s = upd_ses k (\<lambda>x. x\<lparr>ss_user_disconnected := True\<rparr>) s;
              s = (if \<not> ss_tunnel_hard_disconnected (rl_ses s k)
                   then on_agent_srv (srv_Send (ss_agent_id (rl_ses s k))
                          (r2a_encode (R2A_disconnect (sv_port (rl_svc s sid)) seq)) None) s
                   else s)
          in relay__CleanSession sid k s)"

definition relay__OnUserRecv :: "nat \<Rightarrow> u32 \<Rightarrow> bytes \<Rightarrow> relay \<Rightarrow> relay" where
  "relay__OnUserRecv sid seq buf s =
     (case map_find (sv_sessions (rl_svc s sid)) seq of
        None \<Rightarrow> s
      | Some k \<Rightarrow>
          let rep_buf = r2a_encode (R2A_data (sv_port (rl_svc s sid)) seq);
              limit = rl_queue_limit s;
              s = upd_ses k (\<lambda>x. x\<lparr>ss_user_traffic := ss_user_traffic x + 1\<rparr>) s;
              x = rl_ses s k;
              s = (if must_cork limit (ss_user_corked x) (ss_user_traffic x)
                   then on_user_srv sid (srv_BlockRecv seq True)
                          (upd_ses k (\<lambda>x. x\<lparr>ss_user_corked := True\<rparr>) s)
                   else s)
          in on_agent_srv (srv_SendV (ss_agent_id (rl_ses s k)) [rep_buf, buf]
               (Some (UserDone sid k seq limit))) s)"

subsection \<open>The handlers as events\<close>

text \<open>\<open>RAgentNet\<close> and \<open>RUserNet\<close> are the handlers of the two kinds of servers themselves.\<close>

datatype relay_event =
  RAgentConnect u32 endpoint
| RAgentDisconnect u32 err
| RAgentRecv "endpoint \<Rightarrow> u16 option" u32 bytes
| RUserConnect nat u32 endpoint
| RUserDisconnect nat u32 err
| RUserRecv nat u32 bytes
| RCompletion completion
| RAgentNet "(completion, completion tcp_conn) srv_event"
| RUserNet nat "(completion, completion conn) srv_event"

fun relay_handle :: "relay_event \<Rightarrow> relay \<Rightarrow> relay result" where
  "relay_handle (RAgentConnect seq ep) s = Inr (relay__OnAgentConnect seq ep s)"
| "relay_handle (RAgentDisconnect seq e) s = Inr (relay__OnAgentDisconnect seq e s)"
| "relay_handle (RAgentRecv os seq data) s = relay__OnAgentRecv os seq data s"
| "relay_handle (RUserConnect sid seq ep) s = Inr (relay__OnUserConnect sid seq ep s)"
| "relay_handle (RUserDisconnect sid seq e) s = Inr (relay__OnUserDisconnect sid seq e s)"
| "relay_handle (RUserRecv sid seq buf) s = Inr (relay__OnUserRecv sid seq buf s)"
| "relay_handle (RCompletion c) s = Inr (relay_run_completion c s)"
| "relay_handle (RAgentNet ev) s =
     and_then (srv_step tcp_class ev (rl_agent_srv s)) (\<lambda>srv. Inr (s\<lparr>rl_agent_srv := srv\<rparr>))"
| "relay_handle (RUserNet sid ev) s =
     and_then (srv_step raw_class ev (sv_tcpserver (rl_svc s sid)))
       (\<lambda>srv. Inr (on_user_srv sid (\<lambda>_. srv) s))"

end
