(* ===== verification/RelayInv.thy ===== *)
theory RelayInv
  imports RelayApp
begin

text \<open>
  The binding tables of the relay.  \<open>bindings\<close> is the part of the state they consist of;
  \<open>reg\<close> abstracts it to the set of pairs (port, agent) an agent has bound and not unbound, and
  the handlers are shown to implement the obvious operations on that set.  \<open>relay_inv\<close> is the
  invariant that ties the services, their agents and the agents' ports together.
\<close>

subsection \<open>What the tables consist of\<close>

definition ports_of :: "relay \<Rightarrow> u32 \<Rightarrow> u16 list option" where
  "ports_of s a = map_option ag_ports (map_find (rl_agents s) a)"

definition svc_view :: "relay \<Rightarrow> nat \<Rightarrow> u16 \<times> u32 list" where
  "svc_view s sid = (sv_port (rl_svc s sid), sv_agents (rl_svc s sid))"

definition bindings :: "relay \<Rightarrow> (u16, nat) omap \<times> nat \<times> (nat \<Rightarrow> u16 \<times> u32 list) \<times> (u32 \<Rightarrow> u16 list option)" where
  "bindings s = (rl_services s, rl_next_svc s, svc_view s, ports_of s)"

lemma bindings_upd_ses [simp]: "bindings (upd_ses k f s) = bindings s"
  by (simp add: bindings_def upd_ses_def svc_view_def ports_of_def fun_eq_iff)

lemma bindings_on_agent_srv [simp]: "bindings (on_agent_srv f s) = bindings s"
  by (simp add: bindings_def on_agent_srv_def svc_view_def ports_of_def fun_eq_iff)

lemma bindings_upd_svc:
  "(\<And>v. sv_port (f v) = sv_port v \<and> sv_agents (f v) = sv_agents v) \<Longrightarrow> bindings (upd_svc sid f s) = bindings s"
  by (simp add: bindings_def upd_svc_def svc_view_def ports_of_def fun_eq_iff)

lemma bindings_on_user_srv [simp]: "bindings (on_user_srv sid f s) = bindings s"
  by (simp add: on_user_srv_def bindings_upd_svc)

lemma bindings_upd_agent:
  "(\<And>a. ag_ports (f a) = ag_ports a) \<Longrightarrow> bindings (upd_agent seq f s) = bindings s"
  by (simp add: bindings_def upd_agent_def svc_view_def ports_of_def fun_eq_iff split: option.split)

lemma bindings_new_ses [simp]:
  "bindings (s\<lparr>rl_ses := h, rl_next_ses := n\<rparr>) = bindings s"
  by (simp add: bindings_def svc_view_def ports_of_def fun_eq_iff)

lemma bindings_CleanSession [simp]: "bindings (relay__CleanSession sid k s) = bindings s"
  by (simp add: relay__CleanSession_def Let_def bindings_upd_agent bindings_upd_svc)

lemma bindings_drop_sessions [simp]:
  "bindings (fold (\<lambda>(u, k). relay_drop_session sid k) ks s) = bindings s"
  by (induction ks arbitrary: s) (auto simp: relay_drop_session_def)

lemma bindings_tunnel_done [simp]: "bindings (relay_tunnel_done sid k seq limit s) = bindings s"
  by (simp add: relay_tunnel_done_def Let_def)

lemma bindings_user_done [simp]: "bindings (relay_user_done sid k seq limit s) = bindings s"
  by (simp add: relay_user_done_def Let_def)

lemma bindings_completion [simp]: "bindings (relay_run_completion c s) = bindings s"
  by (cases c) simp_all

lemma bindings_on_data [simp]: "bindings (relay_on_data seq port uid payload s) = bindings s"
  by (simp add: relay_on_data_def Let_def split: option.split)

lemma bindings_on_disconnect [simp]: "bindings (relay_on_disconnect port uid s) = bindings s"
  by (simp add: relay_on_disconnect_def split: option.split)

lemma bindings_OnUserConnect [simp]: "bindings (relay__OnUserConnect sid seq ep s) = bindings s"
  by (simp add: relay__OnUserConnect_def Let_def bindings_upd_agent bindings_upd_svc split: option.split)

lemma bindings_OnUserDisconnect [simp]: "bindings (relay__OnUserDisconnect sid seq e s) = bindings s"
  by (simp add: relay__OnUserDisconnect_def Let_def split: option.split)

lemma bindings_OnUserRecv [simp]: "bindings (relay__OnUserRecv sid seq buf s) = bindings s"
  by (simp add: relay__OnUserRecv_def Let_def split: option.split)

subsection \<open>The invariant\<close>

text \<open>\<open>gone\<close> is the agent being removed and \<open>P\<close> the ports of it still to be processed; the
  invariant between handlers has no such ports.\<close>

definition inv_on :: "u32 \<Rightarrow> u16 set \<Rightarrow> (u16 \<Rightarrow> nat option) \<Rightarrow> nat \<Rightarrow> (nat \<Rightarrow> u16 \<times> u32 list)
    \<Rightarrow> (u32 \<Rightarrow> u16 list option) \<Rightarrow> bool" where
  "inv_on gone P svcs n view ports \<longleftrightarrow>
     (\<forall>p sid. svcs p = Some sid \<longrightarrow> sid < n \<and> fst (view sid) = p \<and> snd (view sid) \<noteq> [])
   \<and> (\<forall>sid a. sid < n \<and> a \<in> set (snd (view sid)) \<longrightarrow>
        svcs (fst (view sid)) = Some sid
        \<and> ((a = gone \<and> fst (view sid) \<in> P)
           \<or> (\<exists>ps. ports a = Some ps \<and> fst (view sid) \<in> set ps)))"

definition inv_except :: "u32 \<Rightarrow> u16 set \<Rightarrow> relay \<Rightarrow> bool" where
  "inv_except gone P s =
     inv_on gone P (map_find (rl_services s)) (rl_next_svc s) (svc_view s) (ports_of s)"

definition relay_inv :: "relay \<Rightarrow> bool" where
  "relay_inv s = inv_except 0 {} s"

lemma inv_except_empty: "inv_except a {} s \<longleftrightarrow> relay_inv s"
  by (simp add: relay_inv_def inv_except_def inv_on_def)

lemma inv_except_cong: "bindings s' = bindings s \<Longrightarrow> inv_except g P s' = inv_except g P s"
  by (simp only: inv_except_def bindings_def prod.inject)

lemma relay_inv_cong: "bindings s' = bindings s \<Longrightarrow> relay_inv s' = relay_inv s"
  unfolding relay_inv_def by (rule inv_except_cong)

lemma relay_inv_new: "relay_inv (new_relay cfg n)"
  by (simp add: relay_inv_def inv_except_def inv_on_def new_relay_def)

lemma inv_onI:
  assumes "\<And>p sid. svcs p = Some sid \<Longrightarrow> sid < n \<and> fst (view sid) = p \<and> snd (view sid) \<noteq> []"
    and "\<And>sid a. sid < n \<Longrightarrow> a \<in> set (snd (view sid)) \<Longrightarrow> svcs (fst (view sid)) = Some sid"
    and "\<And>sid a. sid < n \<Longrightarrow> a \<in> set (snd (view sid)) \<Longrightarrow>
      (a = gone \<and> fst (view sid) \<in> P) \<or> (\<exists>ps. ports a = Some ps \<and> fst (view sid) \<in> set ps)"
  shows "inv_on gone P svcs n view ports"
  unfolding inv_on_def using assms by blast

lemma inv_onD:
  assumes "inv_on gone P svcs n view ports"
  shows "svcs p = Some sid \<Longrightarrow> sid < n"
    and "svcs p = Some sid \<Longrightarrow> fst (view sid) = p"
    and "svcs p = Some sid \<Longrightarrow> snd (view sid) \<noteq> []"
    and "sid < n \<Longrightarrow> a \<in> set (snd (view sid)) \<Longrightarrow> svcs (fst (view sid)) = Some sid"
    and "sid < n \<Longrightarrow> a \<in> set (snd (view sid)) \<Longrightarrow>
      (a = gone \<and> fst (view sid) \<in> P) \<or> (\<exists>ps. ports a = Some ps \<and> fst (view sid) \<in> set ps)"
  using assms unfolding inv_on_def by blast+

text \<open>An agent leaves one service: its entry goes, and with the last entry the service.\<close>

lemma inv_on_leave:
  assumes inv: "inv_on g P svcs n view ports" and p: "svcs p = Some sid"
    and view': "view' = view(sid := (fst (view sid), set_erase g (snd (view sid))))"
    and svcs': "svcs' = (if set_erase g (snd (view sid)) = [] then svcs(p := None) else svcs)"
  shows "inv_on g (P - {p}) svcs' n view' ports"
proof (rule inv_onI)
  note D = inv_onD [OF inv]
  have port: "fst (view sid) = p" using D(2) [OF p] .
  have uniq: "svcs q = Some sid \<longleftrightarrow> q = p" for q using D(2) [of q sid] port p by blast
  { fix q sid' assume "svcs' q = Some sid'"
    then have q: "svcs q = Some sid'" "sid' = sid \<Longrightarrow> set_erase g (snd (view sid)) \<noteq> []"
      by (auto simp: svcs' uniq split: if_splits)
    show "sid' < n \<and> fst (view' sid') = q \<and> snd (view' sid') \<noteq> []"
      using D(1-3) [OF q(1)] q(2) by (auto simp: view') }
  fix sid' a assume sid': "sid' < n" and a': "a \<in> set (snd (view' sid'))"
  then have a: "a \<in> set (snd (view sid'))" and ag: "sid' = sid \<Longrightarrow> a \<noteq> g"
    by (auto simp: view' split: if_splits)
  have fv: "fst (view' sid') = fst (view sid')" by (simp add: view')
  have s: "svcs (fst (view sid')) = Some sid'" by (rule D(4) [OF sid' a])
  have keep: "fst (view sid') = p \<Longrightarrow> sid' = sid" using s p by simp
  have "set_erase g (snd (view sid)) \<noteq> []" if "sid' = sid"
    using a' that by (auto simp: view' simp del: set_set_erase)
  then show "svcs' (fst (view' sid')) = Some sid'" using s keep by (auto simp: svcs' fv)
  show "(a = g \<and> fst (view' sid') \<in> P - {p}) \<or> (\<exists>ps. ports a = Some ps \<and> fst (view' sid') \<in> set ps)"
    using D(5) [OF sid' a] keep ag by (auto simp: fv)
qed

text \<open>The abstract registry.\<close>

definition reg :: "relay \<Rightarrow> (u16 \<times> u32) set" where
  "reg s = {(p, a). \<exists>sid. map_find (rl_services s) p = Some sid \<and> a \<in> set (sv_agents (rl_svc s sid))}"

lemma reg_mem: "(p, a) \<in> reg s \<longleftrightarrow>
    (case map_find (rl_services s) p of None \<Rightarrow> False | Some sid \<Rightarrow> a \<in> set (sv_agents (rl_svc s sid)))"
  by (simp add: reg_def split: option.split)

lemma reg_cong: "bindings s' = bindings s \<Longrightarrow> reg s' = reg s"
proof -
  assume b: "bindings s' = bindings s"
  then have v: "svc_view s' = svc_view s" and svcs: "rl_services s' = rl_services s"
    by (simp_all only: bindings_def prod.inject)
  have "sv_agents (rl_svc s' sid) = sv_agents (rl_svc s sid)" for sid
    using fun_cong [OF v, of sid] by (simp add: svc_view_def)
  then show ?thesis by (simp add: reg_def svcs)
qed

lemma inv_unique_service:
  assumes "inv_except g P s" "map_find (rl_services s) p = Some sid" "map_find (rl_services s) q = Some sid"
  shows "p = q"
  using inv_onD(2) [OF assms(1) [unfolded inv_except_def] assms(2)]
    inv_onD(2) [OF assms(1) [unfolded inv_except_def] assms(3)] by simp

lemma same_bindings: "bindings t = bindings s \<Longrightarrow> relay_inv s \<Longrightarrow> relay_inv t \<and> reg t = reg s"
  using relay_inv_cong reg_cong by blast

subsection \<open>Leaving a service\<close>

lemma leave_service_views:
  assumes "map_find (rl_services s) port = Some sid"
  shows "rl_next_svc (relay_leave_service seq port sid s) = rl_next_svc s"
    and "ports_of (relay_leave_service seq port sid s) = ports_of s"
    and "svc_view (relay_leave_service seq port sid s) =
      (svc_view s)(sid := (fst (svc_view s sid), set_erase seq (snd (svc_view s sid))))"
    and "map_find (rl_services (relay_leave_service seq port sid s)) =
      (if set_erase seq (snd (svc_view s sid)) = [] then (map_find (rl_services s))(port := None)
       else map_find (rl_services s))"
  by (simp_all add: relay_leave_service_def Let_def on_user_srv_def upd_svc_def svc_view_def
      ports_of_def fun_eq_iff)

lemma leave_service_inv:
  assumes inv: "inv_except seq P s" and port: "map_find (rl_services s) port = Some sid"
  shows "inv_except seq (P - {port}) (relay_leave_service seq port sid s)"
  using inv_on_leave [OF inv [unfolded inv_except_def] port leave_service_views(3) [OF port]
      leave_service_views(4) [OF port]]
  by (simp only: inv_except_def leave_service_views(1,2) [OF port])

lemma leave_service_reg:
  assumes inv: "inv_except g P s" and port: "map_find (rl_services s) port = Some sid"
  shows "reg (relay_leave_service seq port sid s) = reg s - {(port, seq)}"
proof -
  have uniq: "map_find (rl_services s) q = Some sid \<longleftrightarrow> q = port" for q
    using inv_unique_service [OF inv _ port] port by blast
  have ag: "sv_agents (rl_svc (relay_leave_service seq port sid s) x) =
      (if x = sid then set_erase seq (sv_agents (rl_svc s x)) else sv_agents (rl_svc s x))" for x
    using fun_cong [OF leave_service_views(3) [OF port, of seq], of x]
    by (auto simp: svc_view_def split: if_splits)
  show ?thesis
  proof (intro set_eqI, clarify)
    fix q a
    have "(\<exists>x. map_find (rl_services (relay_leave_service seq port sid s)) q = Some x \<and>
        a \<in> set (sv_agents (rl_svc (relay_leave_service seq port sid s) x))) \<longleftrightarrow>
      (\<exists>x. map_find (rl_services s) q = Some x \<and> a \<in> set (sv_agents (rl_svc s x)) \<and> \<not> (x = sid \<and> a = seq))"
      unfolding leave_service_views(4) [OF port] ag
      by (cases "set_erase seq (snd (svc_view s sid)) = []"; cases "q = port")
        (auto simp: port svc_view_def set_erase_def filter_empty_conv split: if_splits)
    then show "(q, a) \<in> reg (relay_leave_service seq port sid s) \<longleftrightarrow> (q, a) \<in> reg s - {(port, seq)}"
      using uniq [of q] by (auto simp: reg_def)
  qed
qed

lemma drop_port_inv:
  assumes "inv_except seq P s"
  shows "inv_except seq (P - {port}) (relay_drop_port seq agent port s)"
proof (cases "map_find (rl_services s) port")
  case None
  have "inv_except seq (P - {port}) s"
    unfolding inv_except_def
  proof (rule inv_onI)
    note D = inv_onD [OF assms [unfolded inv_except_def]]
    fix sid a assume sid: "sid < rl_next_svc s" and a: "a \<in> set (snd (svc_view s sid))"
    have "fst (svc_view s sid) \<noteq> port" using D(4) [OF sid a] None by auto
    with D(5) [OF sid a] show "(a = seq \<and> fst (svc_view s sid) \<in> P - {port})
        \<or> (\<exists>ps. ports_of s a = Some ps \<and> fst (svc_view s sid) \<in> set ps)" by blast
  qed (use inv_onD [OF assms [unfolded inv_except_def]] in blast)+
  then show ?thesis by (simp add: relay_drop_port_def None)
next
  case (Some sid)
  let ?t = "fold (\<lambda>(u, k). relay_drop_session sid k) (ag_sessions agent) s"
  have b: "bindings ?t = bindings s" by simp
  then have "map_find (rl_services ?t) port = Some sid" using Some by (simp add: bindings_def)
  moreover have "inv_except seq P ?t" using assms inv_except_cong [OF b] by simp
  ultimately show ?thesis using leave_service_inv by (simp add: relay_drop_port_def Some)
qed

lemma drop_port_reg:
  assumes "inv_except seq P s"
  shows "reg (relay_drop_port seq agent port s) = reg s - {(port, seq)}"
proof (cases "map_find (rl_services s) port")
  case None
  then show ?thesis by (auto simp: relay_drop_port_def reg_def)
next
  case (Some sid)
  let ?t = "fold (\<lambda>(u, k). relay_drop_session sid k) (ag_sessions agent) s"
  have b: "bindings ?t = bindings s" by simp
  then have "map_find (rl_services ?t) port = Some sid" using Some by (simp add: bindings_def)
  moreover have "inv_except seq P ?t" using assms inv_except_cong [OF b] by simp
  ultimately show ?thesis using leave_service_reg reg_cong [OF b] by (simp add: relay_drop_port_def Some)
qed

subsection \<open>Every handler keeps the invariant and implements its operation on the registry\<close>

lemma bindings_RAgentSrv [simp]: "bindings (s\<lparr>rl_agent_srv := x\<rparr>) = bindings s"
  by (simp add: bindings_def svc_view_def ports_of_def fun_eq_iff)

lemma fold_drop_ports:
  "inv_except seq P s \<Longrightarrow>
    inv_except seq (P - set ports) (fold (relay_drop_port seq agent) ports s)
    \<and> reg (fold (relay_drop_port seq agent) ports s) = reg s - set ports \<times> {seq}"
proof (induction ports arbitrary: s P)
  case (Cons p ports)
  have "inv_except seq (P - {p}) (relay_drop_port seq agent p s)"
    and r: "reg (relay_drop_port seq agent p s) = reg s - {(p, seq)}"
    using drop_port_inv [OF Cons.prems] drop_port_reg [OF Cons.prems] by blast+
  from Cons.IH [OF this(1)] r show ?case by (auto simp: Diff_insert2 [symmetric] insert_commute)
qed simp

lemma erase_agent_inv:
  assumes inv: "relay_inv s" and a: "map_find (rl_agents s) seq = Some agent"
  shows "inv_except seq (set (ag_ports agent)) (s\<lparr>rl_agents := map_erase seq (rl_agents s)\<rparr>)"
proof -
  have "inv_on 0 {} (map_find (rl_services s)) (rl_next_svc s) (svc_view s) (ports_of s)"
    using inv by (simp add: relay_inv_def inv_except_def)
  note D = inv_onD [OF this]
  have v: "svc_view (s\<lparr>rl_agents := map_erase seq (rl_agents s)\<rparr>) = svc_view s"
    by (simp add: svc_view_def fun_eq_iff)
  have ps: "ports_of (s\<lparr>rl_agents := map_erase seq (rl_agents s)\<rparr>) = (ports_of s)(seq := None)"
    by (simp add: ports_of_def fun_eq_iff)
  have p0: "ports_of s seq = Some (ag_ports agent)" using a by (simp add: ports_of_def)
  show ?thesis unfolding inv_except_def v ps
  proof (rule inv_onI)
    fix sid b assume "sid < rl_next_svc (s\<lparr>rl_agents := map_erase seq (rl_agents s)\<rparr>)"
      and b: "b \<in> set (snd (svc_view s sid))"
    then have sid: "sid < rl_next_svc s" by simp
    show "(b = seq \<and> fst (svc_view s sid) \<in> set (ag_ports agent)) \<or>
        (\<exists>ps. ((ports_of s)(seq := None)) b = Some ps \<and> fst (svc_view s sid) \<in> set ps)"
      using D(5) [OF sid b] p0 by auto
  qed (use D in auto)
qed

lemma reg_agents [simp]: "reg (s\<lparr>rl_agents := x\<rparr>) = reg s"
  by (simp add: reg_def)

lemma reg_ports:
  assumes "relay_inv s" and "(p, a) \<in> reg s"
  shows "\<exists>ag. map_find (rl_agents s) a = Some ag \<and> p \<in> set (ag_ports ag)"
proof -
  have "inv_on 0 {} (map_find (rl_services s)) (rl_next_svc s) (svc_view s) (ports_of s)"
    using assms(1) by (simp add: relay_inv_def inv_except_def)
  note D = inv_onD [OF this]
  obtain sid where sid: "map_find (rl_services s) p = Some sid" "a \<in> set (snd (svc_view s sid))"
    using assms(2) by (auto simp: reg_def svc_view_def)
  show ?thesis using D(5) [OF D(1) [OF sid(1)] sid(2)] D(2) [OF sid(1)]
    by (auto simp: ports_of_def)
qed

lemma OnAgentDisconnect_inv_reg:
  assumes inv: "relay_inv s"
  shows "relay_inv (relay__OnAgentDisconnect seq e s)
    \<and> reg (relay__OnAgentDisconnect seq e s) = {(p, a) \<in> reg s. a \<noteq> seq}"
proof (cases "map_find (rl_agents s) seq")
  case None
  then show ?thesis using inv reg_ports [OF inv, of _ seq] by (auto simp: relay__OnAgentDisconnect_def)
next
  case (Some agent)
  have "reg s - set (ag_ports agent) \<times> {seq} = {(p, a) \<in> reg s. a \<noteq> seq}"
    using reg_ports [OF inv, of _ seq] Some by auto
  with fold_drop_ports [OF erase_agent_inv [OF inv Some], of "ag_ports agent" agent]
  show ?thesis by (simp add: relay__OnAgentDisconnect_def Some inv_except_empty)
qed

lemma OnAgentConnect_inv_reg:
  assumes inv: "relay_inv s" and fresh: "map_find (rl_agents s) seq = None"
  shows "relay_inv (relay__OnAgentConnect seq ep s) \<and> reg (relay__OnAgentConnect seq ep s) = reg s"
proof -
  let ?t = "relay__OnAgentConnect seq ep s"
  have "inv_on 0 {} (map_find (rl_services s)) (rl_next_svc s) (svc_view s) (ports_of s)"
    using inv by (simp add: relay_inv_def inv_except_def)
  note D = inv_onD [OF this]
  have v: "svc_view ?t = svc_view s" and ps: "ports_of ?t = (ports_of s)(seq := Some [])"
    and r: "rl_services ?t = rl_services s" "rl_next_svc ?t = rl_next_svc s"
    by (simp_all add: relay__OnAgentConnect_def svc_view_def ports_of_def fun_eq_iff)
  have none: "ports_of s seq = None" by (simp add: ports_of_def fresh)
  have "relay_inv ?t" unfolding relay_inv_def inv_except_def v ps r
  proof (rule inv_onI)
    fix sid b assume sid: "sid < rl_next_svc s" and b: "b \<in> set (snd (svc_view s sid))"
    show "(b = 0 \<and> fst (svc_view s sid) \<in> {}) \<or>
        (\<exists>ps. ((ports_of s)(seq \<mapsto> [])) b = Some ps \<and> fst (svc_view s sid) \<in> set ps)"
      using D(5) [OF sid b] none by auto
  qed (use D in auto)
  then show ?thesis by (simp add: relay__OnAgentConnect_def)
qed

lemma add_port_views:
  assumes "map_find (rl_agents s) seq = Some agent"
  shows "svc_view (upd_agent seq (\<lambda>a. a\<lparr>ag_ports := f (ag_ports a)\<rparr>) s) = svc_view s"
    and "ports_of (upd_agent seq (\<lambda>a. a\<lparr>ag_ports := f (ag_ports a)\<rparr>) s) = (ports_of s)(seq \<mapsto> f (ag_ports agent))"
    and "rl_services (upd_agent seq (\<lambda>a. a\<lparr>ag_ports := f (ag_ports a)\<rparr>) s) = rl_services s"
    and "rl_next_svc (upd_agent seq (\<lambda>a. a\<lparr>ag_ports := f (ag_ports a)\<rparr>) s) = rl_next_svc s"
    and "reg (upd_agent seq (\<lambda>a. a\<lparr>ag_ports := f (ag_ports a)\<rparr>) s) = reg s"
  using assms by (simp_all add: upd_agent_def svc_view_def ports_of_def reg_def fun_eq_iff)

text \<open>An agent joins a service, an existing one or a new one, or only notes a port.\<close>

lemma inv_on_port:
  assumes inv: "inv_on 0 {} svcs n view ports" and ps: "ports seq = Some ps"
  shows "inv_on 0 {} svcs n view (ports(seq \<mapsto> set_put p ps))"
proof (rule inv_onI)
  note D = inv_onD [OF inv]
  fix sid a assume "sid < n" and "a \<in> set (snd (view sid))"
  from D(5) [OF this] ps
  show "(a = 0 \<and> fst (view sid) \<in> {}) \<or>
      (\<exists>qs. (ports(seq \<mapsto> set_put p ps)) a = Some qs \<and> fst (view sid) \<in> set qs)" by auto
qed (use inv_onD [OF inv] in auto)

lemma inv_on_join:
  assumes inv: "inv_on 0 {} svcs n view ports" and ps: "ports seq = Some ps" and p: "svcs p = Some sid"
    and view': "view' = view(sid := (fst (view sid), set_put seq (snd (view sid))))"
    and ports': "ports' = ports(seq \<mapsto> set_put p ps)"
  shows "inv_on 0 {} svcs n view' ports'"
proof (rule inv_onI)
  note D = inv_onD [OF inv]
  have fv: "fst (view' x) = fst (view x)" for x by (simp add: view')
  { fix q sid' assume q: "svcs q = Some sid'"
    have "snd (view' sid') \<noteq> []" using D(3) [OF q] by (simp add: view')
    then show "sid' < n \<and> fst (view' sid') = q \<and> snd (view' sid') \<noteq> []"
      using D(1,2) [OF q] fv by simp }
  fix sid' a assume sid': "sid' < n" and "a \<in> set (snd (view' sid'))"
  then consider (new) "sid' = sid" "a = seq" | (old) "a \<in> set (snd (view sid'))"
    by (auto simp: view' split: if_splits)
  then have "svcs (fst (view sid')) = Some sid' \<and>
      (\<exists>qs. ports' a = Some qs \<and> fst (view sid') \<in> set qs)"
  proof cases
    case new
    then show ?thesis using p D(2) [OF p] by (simp add: ports')
  next
    case old
    show ?thesis using D(4,5) [OF sid' old] ps by (auto simp: ports')
  qed
  then show "svcs (fst (view' sid')) = Some sid'"
    and "(a = 0 \<and> fst (view' sid') \<in> {}) \<or> (\<exists>qs. ports' a = Some qs \<and> fst (view' sid') \<in> set qs)"
    by (simp_all add: fv)
qed

lemma inv_on_create:
  assumes inv: "inv_on 0 {} svcs n view ports" and ps: "ports seq = Some ps" and p: "svcs p = None"
    and svcs': "svcs' = svcs(p \<mapsto> n)" and view': "view' = view(n := (p, set_put seq []))"
    and ports': "ports' = ports(seq \<mapsto> set_put p ps)"
  shows "inv_on 0 {} svcs' (Suc n) view' ports'"
proof (rule inv_onI)
  note D = inv_onD [OF inv]
  { fix q sid' assume q: "svcs' q = Some sid'"
    then have "q = p \<and> sid' = n \<or> (q \<noteq> p \<and> svcs q = Some sid')" by (auto simp: svcs' split: if_splits)
    then show "sid' < Suc n \<and> fst (view' sid') = q \<and> snd (view' sid') \<noteq> []"
      using D(1-3) [of q sid'] by (auto simp: view') }
  fix sid' a assume sid': "sid' < Suc n" and "a \<in> set (snd (view' sid'))"
  then consider (new) "sid' = n" "a = seq" | (old) "sid' < n" "a \<in> set (snd (view sid'))"
    by (auto simp: view' split: if_splits)
  then have "svcs' (fst (view' sid')) = Some sid' \<and>
      (\<exists>qs. ports' a = Some qs \<and> fst (view' sid') \<in> set qs)"
  proof cases
    case new
    then show ?thesis by (simp add: ports' svcs' view')
  next
    case old
    have "svcs (fst (view sid')) = Some sid'" by (rule D(4) [OF old])
    then show ?thesis using D(5) [OF old] ps p old by (auto simp: ports' svcs' view')
  qed
  then show "svcs' (fst (view' sid')) = Some sid'"
    and "(a = 0 \<and> fst (view' sid') \<in> {}) \<or> (\<exists>qs. ports' a = Some qs \<and> fst (view' sid') \<in> set qs)"
    by simp_all
qed

lemma relay_inv_unfold: "relay_inv s =
    inv_on 0 {} (map_find (rl_services s)) (rl_next_svc s) (svc_view s) (ports_of s)"
  by (simp add: relay_inv_def inv_except_def)

lemma ports_of_Some: "map_find (rl_agents s) seq = Some agent \<Longrightarrow> ports_of s seq = Some (ag_ports agent)"
  by (simp add: ports_of_def)

lemma bindings_send_ack [simp]: "bindings (relay_send_ack seq rep s) = bindings s"
  by (simp add: relay_send_ack_def)

lemma on_bind_join:
  assumes a: "map_find (rl_agents s) seq = Some agent" and p: "map_find (rl_services s) port = Some sid"
    and inv: "relay_inv s" and t: "relay_on_bind os seq port s = Inr t"
  shows "relay_inv t \<and> reg t = insert (port, seq) (reg s)"
proof -
  let ?u = "upd_svc sid (\<lambda>v. v\<lparr>sv_agents := set_put seq (sv_agents v)\<rparr>) s"
  let ?v = "upd_agent seq (\<lambda>a. a\<lparr>ag_ports := set_put port (ag_ports a)\<rparr>) ?u"
  have au: "map_find (rl_agents ?u) seq = Some agent" using a by (simp add: upd_svc_def)
  have b: "bindings t = bindings ?v" using t by (auto simp: relay_on_bind_def a p Let_def)
  have svc: "svc_view ?u = (svc_view s)(sid := (fst (svc_view s sid), set_put seq (snd (svc_view s sid))))"
    "ports_of ?u = ports_of s" "rl_services ?u = rl_services s" "rl_next_svc ?u = rl_next_svc s"
    by (simp_all add: upd_svc_def svc_view_def ports_of_def fun_eq_iff)
  have "relay_inv ?v"
    unfolding relay_inv_unfold add_port_views [OF au] svc
    by (rule inv_on_join [OF inv [unfolded relay_inv_unfold] ports_of_Some [OF a] p refl refl])
  moreover have "reg ?u = insert (port, seq) (reg s)"
  proof -
    have "map_find (rl_services s) q = Some sid \<longleftrightarrow> q = port" for q
      using p inv_unique_service [OF inv [unfolded relay_inv_def] _ p] by blast
    moreover have "rl_services ?u = rl_services s" by (simp add: upd_svc_def)
    ultimately have "(q, b) \<in> reg ?u \<longleftrightarrow> (q, b) \<in> insert (port, seq) (reg s)" for q b
      by (cases "q = port") (auto simp: p reg_mem upd_svc_def split: option.split)
    then show ?thesis by auto
  qed
  ultimately show ?thesis
    unfolding relay_inv_cong [OF b] reg_cong [OF b] add_port_views(5) [OF au] by blast
qed

lemma on_bind_create:
  assumes a: "map_find (rl_agents s) seq = Some agent" and p: "map_find (rl_services s) port = None"
    and inv: "relay_inv s" and t: "relay_on_bind os seq port s = Inr t"
  shows "relay_inv t \<and> reg t = insert (port, seq) (reg s)"
proof -
  obtain ok srv where st: "srv_Start raw_class os [Endpoint 0 port] (new_service_server s) = Inr (ok, srv)"
    using t by (auto simp: relay_on_bind_def a p and_then_eq_Inr)
  have ok: "ok" using st
    by (auto simp: new_service_server_def srv_bind_callbacks_def srv_SetRecvbufSize_def srv_SetNoDelay_def
        srv_SetMaxPacketLength_def Let_def new_server_def Start_eq and_then_eq_Inr StartNext_eq
        srv_listening_def srv_emit_def split: option.splits)
  let ?n = "rl_next_svc s"
  let ?svc = "\<lparr>sv_port = port, sv_tcpserver = srv, sv_agents = set_put seq [], sv_sessions = []\<rparr>"
  let ?u = "s\<lparr>rl_svc := (rl_svc s)(?n := ?svc), rl_next_svc := Suc ?n, rl_services := map_put port ?n (rl_services s)\<rparr>"
  let ?v = "upd_agent seq (\<lambda>a. a\<lparr>ag_ports := set_put port (ag_ports a)\<rparr>) ?u"
  have au: "map_find (rl_agents ?u) seq = Some agent" using a by simp
  have b: "bindings t = bindings ?v" using t st ok by (auto simp: relay_on_bind_def a p Let_def)
  have svc: "svc_view ?u = (svc_view s)(?n := (port, set_put seq []))" "ports_of ?u = ports_of s"
    "map_find (rl_services ?u) = (map_find (rl_services s))(port \<mapsto> ?n)" "rl_next_svc ?u = Suc ?n"
    by (simp_all add: svc_view_def ports_of_def fun_eq_iff)
  have "relay_inv ?v"
    unfolding relay_inv_unfold add_port_views [OF au] svc
    by (rule inv_on_create [OF inv [unfolded relay_inv_unfold] ports_of_Some [OF a] p refl refl refl])
  moreover have "reg ?u = insert (port, seq) (reg s)"
  proof -
    have "sid \<noteq> ?n" if "map_find (rl_services s) q = Some sid" for q sid
      using inv_onD(1) [OF inv [unfolded relay_inv_unfold] that] by simp
    then show ?thesis using p by (auto simp: reg_def split: if_splits)
  qed
  ultimately show ?thesis
    unfolding relay_inv_cong [OF b] reg_cong [OF b] add_port_views(5) [OF au] by blast
qed

lemma on_bind_inv_reg:
  assumes inv: "relay_inv s" and t: "relay_on_bind os seq port s = Inr t"
  shows "relay_inv t \<and> reg t =
    (if map_find (rl_agents s) seq = None then reg s else insert (port, seq) (reg s))"
proof (cases "map_find (rl_agents s) seq")
  case None
  then show ?thesis using assms by (simp add: relay_on_bind_def)
next
  case (Some agent)
  then show ?thesis
    using on_bind_join [OF Some _ inv t] on_bind_create [OF Some _ inv t]
    by (cases "map_find (rl_services s) port") auto
qed

lemma on_unbind_inv_reg:
  assumes inv: "relay_inv s"
  shows "relay_inv (relay_on_unbind seq port s) \<and> reg (relay_on_unbind seq port s) = reg s - {(port, seq)}"
proof (cases "map_find (rl_agents s) seq")
  case None
  then show ?thesis using inv reg_ports [OF inv, of port seq] by (auto simp: relay_on_unbind_def)
next
  case (Some agent)
  let ?u = "upd_agent seq (\<lambda>a. a\<lparr>ag_ports := set_erase port (ag_ports a)\<rparr>) s"
  have u: "inv_except seq {port} ?u"
    unfolding inv_except_def add_port_views [OF Some]
  proof (rule inv_onI)
    note D = inv_onD [OF inv [unfolded relay_inv_unfold]]
    fix sid a assume sid: "sid < rl_next_svc s" and a: "a \<in> set (snd (svc_view s sid))"
    show "(a = seq \<and> fst (svc_view s sid) \<in> {port}) \<or>
        (\<exists>ps. ((ports_of s)(seq \<mapsto> set_erase port (ag_ports agent))) a = Some ps
          \<and> fst (svc_view s sid) \<in> set ps)"
      using D(5) [OF sid a] ports_of_Some [OF Some] by auto
  qed (use inv_onD [OF inv [unfolded relay_inv_unfold]] in auto)
  let ?v = "case map_find (rl_services ?u) port of None \<Rightarrow> ?u | Some sid \<Rightarrow> relay_leave_service seq port sid ?u"
  have v: "relay_inv ?v \<and> reg ?v = reg ?u - {(port, seq)}"
  proof (cases "map_find (rl_services ?u) port")
    case None
    have "?u = relay_drop_port seq agent port ?u" by (simp add: relay_drop_port_def None)
    then have "inv_except seq ({port} - {port}) ?u" using drop_port_inv [OF u, of port agent] by simp
    then show ?thesis using None by (auto simp: inv_except_empty reg_def)
  next
    case (Some sid)
    with leave_service_inv [OF u Some] leave_service_reg [OF u Some, of seq]
    show ?thesis by (simp add: inv_except_empty)
  qed
  have t: "relay_on_unbind seq port s = relay_send_ack seq (R2A_unbind port 0) ?v"
    by (simp only: relay_on_unbind_def Some option.simps Let_def)
  have b: "bindings (relay_on_unbind seq port s) = bindings ?v" unfolding t by (rule bindings_send_ack)
  show ?thesis
    using v unfolding relay_inv_cong [OF b] reg_cong [OF b] add_port_views(5) [OF Some] .
qed

lemma on_session_inv_reg:
  assumes inv: "relay_inv s"
  shows "relay_inv (relay_on_session seq port uid s) \<and> reg (relay_on_session seq port uid s) = reg s"
proof (cases "map_find (rl_agents s) seq")
  case None
  then show ?thesis using inv by (simp add: relay_on_session_def)
next
  case (Some agent)
  let ?u = "upd_agent seq (\<lambda>a. a\<lparr>ag_ports := set_put port (ag_ports a)\<rparr>) s"
  have b: "bindings (relay_on_session seq port uid s) = bindings ?u"
    by (simp add: relay_on_session_def Some Let_def bindings_upd_agent bindings_upd_svc split: option.split)
  have "relay_inv ?u"
    unfolding relay_inv_unfold add_port_views [OF Some]
    by (rule inv_on_port [OF inv [unfolded relay_inv_unfold] ports_of_Some [OF Some]])
  then show ?thesis
    unfolding relay_inv_cong [OF b] reg_cong [OF b] add_port_views(5) [OF Some] by simp
qed

subsection \<open>The registry as an abstract machine\<close>

text \<open>What an agent's packet does to the registry, and what any event does.\<close>

fun reg_packet :: "bool \<Rightarrow> u32 \<Rightarrow> a2r option \<Rightarrow> (u16 \<times> u32) set \<Rightarrow> (u16 \<times> u32) set" where
  "reg_packet known seq (Some (A2R_bind port)) R = (if known then insert (port, seq) R else R)"
| "reg_packet known seq (Some (A2R_unbind port)) R = R - {(port, seq)}"
| "reg_packet known seq _ R = R"

fun reg_step :: "bool \<Rightarrow> relay_event \<Rightarrow> (u16 \<times> u32) set \<Rightarrow> (u16 \<times> u32) set" where
  "reg_step known (RAgentRecv os seq data) R = reg_packet known seq (a2r_decode data) R"
| "reg_step known (RAgentDisconnect seq e) R = {(p, a) \<in> R. a \<noteq> seq}"
| "reg_step known _ R = R"

fun event_agent :: "relay_event \<Rightarrow> u32" where
  "event_agent (RAgentConnect seq ep) = seq"
| "event_agent (RAgentDisconnect seq e) = seq"
| "event_agent (RAgentRecv os seq data) = seq"
| "event_agent _ = 0"

text \<open>What the event loop guarantees: the agent server gives a connection a number no connected
  agent has (\<open>accept_fresh\<close>), callbacks of a service exist once it does, a closure was made by a
  handler of this relay, and fewer than \<open>2 ^ 32 - 1\<close> buffers are outstanding for a session.\<close>

definition traffic_bounded :: "relay \<Rightarrow> bool" where
  "traffic_bounded s \<longleftrightarrow> list_all (\<lambda>k. ss_tunnel_traffic (rl_ses s k) \<noteq> - 1) [0..<rl_next_ses s]"

fun relay_enabled :: "relay \<Rightarrow> relay_event \<Rightarrow> bool" where
  "relay_enabled s (RAgentConnect seq ep) = (map_find (rl_agents s) seq = None)"
| "relay_enabled s (RAgentRecv os seq data) = traffic_bounded s"
| "relay_enabled s (RUserConnect sid seq ep) = (sid < rl_next_svc s)"
| "relay_enabled s (RUserDisconnect sid seq e) = (sid < rl_next_svc s)"
| "relay_enabled s (RUserRecv sid seq buf) = (sid < rl_next_svc s)"
| "relay_enabled s (RUserNet sid ev) = (sid < rl_next_svc s)"
| "relay_enabled s (RCompletion (TunnelDone sid k seq limit)) =
     (sid < rl_next_svc s \<and> k < rl_next_ses s \<and> limit = rl_queue_limit s)"
| "relay_enabled s (RCompletion (UserDone sid k seq limit)) =
     (sid < rl_next_svc s \<and> k < rl_next_ses s \<and> limit = rl_queue_limit s)"
| "relay_enabled s _ = True"

lemma relay_handle_inv_reg:
  assumes inv: "relay_inv s" and en: "relay_enabled s ev" and t: "relay_handle ev s = Inr t"
  shows "relay_inv t \<and> reg t = reg_step (map_find (rl_agents s) (event_agent ev) \<noteq> None) ev (reg s)"
proof (cases ev)
  case (RAgentConnect seq ep)
  then show ?thesis using OnAgentConnect_inv_reg [OF inv] en t by auto
next
  case (RAgentDisconnect seq e)
  then show ?thesis using OnAgentDisconnect_inv_reg [OF inv] t by auto
next
  case (RAgentRecv os seq data)
  then have r: "relay__OnAgentRecv os seq data s = Inr t" using t by simp
  show ?thesis
  proof (cases "a2r_decode data")
    case None
    then show ?thesis using r inv by (simp add: relay__OnAgentRecv_def RAgentRecv)
  next
    case (Some m)
    have bd: "relay_inv (relay_on_data seq port uid pl s) \<and> reg (relay_on_data seq port uid pl s) = reg s"
      for port uid pl
      using same_bindings [OF bindings_on_data inv] .
    have bc: "relay_inv (relay_on_disconnect port uid s) \<and> reg (relay_on_disconnect port uid s) = reg s"
      for port uid
      using same_bindings [OF bindings_on_disconnect inv] .
    show ?thesis
    proof (cases m)
      case (A2R_bind port)
      with r Some have "relay_on_bind os seq port s = Inr t" by (simp add: relay__OnAgentRecv_def)
      from on_bind_inv_reg [OF inv this] show ?thesis by (simp add: RAgentRecv Some A2R_bind)
    next
      case (A2R_unbind port)
      with r Some have t: "t = relay_on_unbind seq port s" by (simp add: relay__OnAgentRecv_def)
      show ?thesis using on_unbind_inv_reg [OF inv] by (simp add: t RAgentRecv Some A2R_unbind)
    next
      case (A2R_data port uid)
      with r Some have t: "t = relay_on_data seq port uid (drop 7 data) s" by (simp add: relay__OnAgentRecv_def)
      show ?thesis using bd by (simp add: t RAgentRecv Some A2R_data)
    next
      case (A2R_disconnect port uid)
      with r Some have t: "t = relay_on_disconnect port uid s" by (simp add: relay__OnAgentRecv_def)
      show ?thesis using bc by (simp add: t RAgentRecv Some A2R_disconnect)
    next
      case (A2R_session port uid)
      with r Some have t: "t = relay_on_session seq port uid s" by (simp add: relay__OnAgentRecv_def)
      show ?thesis using on_session_inv_reg [OF inv] by (simp add: t RAgentRecv Some A2R_session)
    qed
  qed
next
  case (RUserConnect sid seq ep)
  then have "bindings t = bindings s" using t by auto
  from same_bindings [OF this inv] show ?thesis by (simp add: RUserConnect)
next
  case (RUserDisconnect sid seq e)
  then have "bindings t = bindings s" using t by auto
  from same_bindings [OF this inv] show ?thesis by (simp add: RUserDisconnect)
next
  case (RUserRecv sid seq buf)
  then have "bindings t = bindings s" using t by auto
  from same_bindings [OF this inv] show ?thesis by (simp add: RUserRecv)
next
  case (RCompletion c)
  then have "bindings t = bindings s" using t by auto
  from same_bindings [OF this inv] show ?thesis by (simp add: RCompletion)
next
  case (RAgentNet x)
  then have "bindings t = bindings s" using t by (auto simp: and_then_eq_Inr)
  from same_bindings [OF this inv] show ?thesis by (simp add: RAgentNet)
next
  case (RUserNet sid x)
  then have "bindings t = bindings s" using t by (auto simp: and_then_eq_Inr)
  from same_bindings [OF this inv] show ?thesis by (simp add: RUserNet)
qed

end
