(* ===== verification/RelaySessions.thy ===== *)
theory RelaySessions
  imports RelayInv
begin

text \<open>
  The sessions of the relay: every session object belongs to one user of one service, and the
  tunnel direction of each keeps the flow-control contract \<open>flow_gate\<close>.  \<open>ses_frame\<close> is
  what almost every operation does to the sessions: it may drop entries, and changes neither the
  counters nor the queue limit.
\<close>

subsection \<open>The contract of the tunnel direction\<close>

interpretation relay_tunnel: flow_gate limit ss_tunnel_traffic ss_tunnel_corked
    "ses_tunnel_submit limit" "ses_tunnel_complete limit" for limit
  by unfold_locales (auto simp: ses_tunnel_submit_def ses_tunnel_complete_def Let_def
      must_cork_def must_uncork_def)

abbreviation tunnel_ok :: "u32 \<Rightarrow> session \<Rightarrow> bool" where
  "tunnel_ok \<equiv> relay_tunnel.gate_ok"

definition flow_view :: "session \<Rightarrow> u32 \<times> bool" where
  "flow_view x = (ss_tunnel_traffic x, ss_tunnel_corked x)"

lemma tunnel_ok_view: "flow_view x = flow_view y \<Longrightarrow> tunnel_ok l x = tunnel_ok l y"
  by (simp add: flow_view_def relay_tunnel.gate_ok_def)

lemma tunnel_ok_new: "tunnel_ok l (new_session\<lparr>ss_seq := a, ss_agent_id := b\<rparr>)"
  "tunnel_ok l (new_session\<lparr>ss_agent_id := b, ss_using_session_conn := c\<rparr>)"
  by (simp_all add: relay_tunnel.gate_ok_def new_session_def)

subsection \<open>The frame of an operation\<close>

definition ses_frame :: "relay \<Rightarrow> relay \<Rightarrow> bool" where
  "ses_frame s t \<longleftrightarrow> rl_next_ses t = rl_next_ses s \<and> rl_next_svc t = rl_next_svc s
     \<and> rl_queue_limit t = rl_queue_limit s
     \<and> (\<forall>k. flow_view (rl_ses t k) = flow_view (rl_ses s k))
     \<and> (\<forall>sid. set (sv_sessions (rl_svc t sid)) \<subseteq> set (sv_sessions (rl_svc s sid)))"

lemma ses_frame_refl [simp, intro]: "ses_frame s s"
  by (simp add: ses_frame_def)

lemma ses_frame_trans: "ses_frame s t \<Longrightarrow> ses_frame t u \<Longrightarrow> ses_frame s u"
  unfolding ses_frame_def by (metis (no_types, lifting) subset_trans)

lemma ses_frame_upd_ses: "(\<And>x. flow_view (f x) = flow_view x) \<Longrightarrow> ses_frame s (upd_ses k f s)"
  by (simp add: ses_frame_def upd_ses_def)

lemma ses_frame_upd_svc:
  "(\<And>v. set (sv_sessions (f v)) \<subseteq> set (sv_sessions v)) \<Longrightarrow> ses_frame s (upd_svc sid f s)"
  by (simp add: ses_frame_def upd_svc_def)

lemma ses_frame_on_user_srv [simp]: "ses_frame s (on_user_srv sid f s)"
  by (simp add: on_user_srv_def ses_frame_upd_svc)

lemma ses_frame_on_agent_srv [simp]: "ses_frame s (on_agent_srv f s)"
  by (simp add: ses_frame_def on_agent_srv_def)

lemma ses_frame_upd_agent [simp]: "ses_frame s (upd_agent seq f s)"
  by (simp add: ses_frame_def upd_agent_def split: option.split)

lemma ses_frame_tables [simp]:
  "ses_frame s (s\<lparr>rl_services := x\<rparr>)" "ses_frame s (s\<lparr>rl_agents := y\<rparr>)" "ses_frame s (s\<lparr>rl_agent_srv := z\<rparr>)"
  by (simp_all add: ses_frame_def)

lemma ses_frame_erase: "ses_frame s (upd_svc sid (\<lambda>v. v\<lparr>sv_sessions := map_erase u (sv_sessions v)\<rparr>) s)"
  by (rule ses_frame_upd_svc) auto

lemma ses_frame_CleanSession: "ses_frame s (relay__CleanSession sid k s)"
  unfolding relay__CleanSession_def Let_def
  by (simp, intro impI ses_frame_trans [OF ses_frame_erase ses_frame_trans
        [OF ses_frame_on_user_srv ses_frame_upd_agent]])

lemma ses_frame_drop_session: "ses_frame s (relay_drop_session sid k s)"
  unfolding relay_drop_session_def
  by (rule ses_frame_trans [OF ses_frame_upd_ses ses_frame_CleanSession]) (simp add: flow_view_def)

lemma ses_frame_fold:
  assumes "\<And>x s. ses_frame s (f x s)"
  shows "ses_frame s (fold f xs s)"
  using assms by (induction xs arbitrary: s) (auto intro: ses_frame_trans)

lemma ses_frame_leave: "ses_frame s (relay_leave_service seq port sid s)"
proof -
  let ?t = "upd_svc sid (\<lambda>v. v\<lparr>sv_agents := set_erase seq (sv_agents v)\<rparr>) s"
  have t: "ses_frame s ?t" by (rule ses_frame_upd_svc) simp
  have "ses_frame ?t ((on_user_srv sid (srv_Close raw_class) ?t)\<lparr>rl_services :=
      map_erase port (rl_services (on_user_srv sid (srv_Close raw_class) ?t))\<rparr>)"
    by (rule ses_frame_trans [OF ses_frame_on_user_srv ses_frame_tables(1)])
  with t show ?thesis by (auto simp: relay_leave_service_def Let_def intro: ses_frame_trans)
qed

lemma ses_frame_drop_port: "ses_frame s (relay_drop_port seq agent port s)"
  unfolding relay_drop_port_def
  by (auto split: option.split intro!: ses_frame_trans [OF ses_frame_fold ses_frame_leave] ses_frame_drop_session)

lemma ses_frame_OnAgentDisconnect: "ses_frame s (relay__OnAgentDisconnect seq e s)"
  unfolding relay__OnAgentDisconnect_def
  by (auto split: option.split intro!: ses_frame_trans [OF ses_frame_tables(2) ses_frame_fold] ses_frame_drop_port)

lemma ses_frame_unbind: "ses_frame s (relay_on_unbind seq port s)"
  unfolding relay_on_unbind_def relay_send_ack_def Let_def
  by (auto split: option.split intro: ses_frame_trans [OF ses_frame_upd_agent
        ses_frame_trans [OF ses_frame_leave ses_frame_on_agent_srv]]
        ses_frame_trans [OF ses_frame_upd_agent ses_frame_on_agent_srv])

lemma ses_frame_disconnect: "ses_frame s (relay_on_disconnect port uid s)"
  unfolding relay_on_disconnect_def
  by (auto split: option.split intro!: ses_frame_trans [OF ses_frame_upd_ses ses_frame_CleanSession]
      simp: flow_view_def)

lemma ses_frame_user_done: "ses_frame s (relay_user_done sid k seq limit s)"
proof -
  let ?t = "upd_ses k (\<lambda>x. x\<lparr>ss_user_traffic := ss_user_traffic x - 1\<rparr>) s"
  have t: "ses_frame s ?t" by (rule ses_frame_upd_ses) (simp add: flow_view_def)
  have u: "ses_frame ?t (on_user_srv sid g (upd_ses k (\<lambda>x. x\<lparr>ss_user_corked := False\<rparr>) ?t))" for g
    by (rule ses_frame_trans [OF ses_frame_upd_ses ses_frame_on_user_srv]) (simp add: flow_view_def)
  show ?thesis unfolding relay_user_done_def Let_def
    by (auto intro: ses_frame_trans [OF t ses_frame_CleanSession]
        ses_frame_trans [OF ses_frame_trans [OF t u] ses_frame_CleanSession])
qed

lemma ses_frame_OnUserDisconnect: "ses_frame s (relay__OnUserDisconnect sid seq e s)"
proof -
  have t: "ses_frame s (upd_ses k (\<lambda>x. x\<lparr>ss_user_disconnected := True\<rparr>) s)" for k
    by (rule ses_frame_upd_ses) (simp add: flow_view_def)
  show ?thesis unfolding relay__OnUserDisconnect_def Let_def
    by (auto split: option.split intro: ses_frame_trans [OF t ses_frame_CleanSession]
        ses_frame_trans [OF ses_frame_trans [OF t ses_frame_on_agent_srv] ses_frame_CleanSession])
qed

lemma ses_frame_OnUserRecv: "ses_frame s (relay__OnUserRecv sid seq buf s)"
proof -
  have t: "ses_frame s (upd_ses k (\<lambda>x. x\<lparr>ss_user_traffic := ss_user_traffic x + 1\<rparr>) s)" for k
    by (rule ses_frame_upd_ses) (simp add: flow_view_def)
  have u: "ses_frame s (on_user_srv sid g (upd_ses k (\<lambda>x. x\<lparr>ss_user_corked := True\<rparr>) s))" for k g s
    by (rule ses_frame_trans [OF ses_frame_upd_ses ses_frame_on_user_srv]) (simp add: flow_view_def)
  show ?thesis unfolding relay__OnUserRecv_def Let_def
    by (auto split: option.split intro: ses_frame_trans [OF t ses_frame_on_agent_srv]
        ses_frame_trans [OF ses_frame_trans [OF t u] ses_frame_on_agent_srv])
qed

subsection \<open>The invariant of the sessions\<close>

definition ses_inv :: "relay \<Rightarrow> bool" where
  "ses_inv s \<longleftrightarrow>
     (\<forall>sid u k. sid < rl_next_svc s \<and> (u, k) \<in> set (sv_sessions (rl_svc s sid)) \<longrightarrow> k < rl_next_ses s)
   \<and> (\<forall>sid sid' u u' k. sid < rl_next_svc s \<and> sid' < rl_next_svc s
        \<and> (u, k) \<in> set (sv_sessions (rl_svc s sid)) \<and> (u', k) \<in> set (sv_sessions (rl_svc s sid'))
        \<longrightarrow> sid = sid' \<and> u = u')
   \<and> (\<forall>k < rl_next_ses s. tunnel_ok (rl_queue_limit s) (rl_ses s k))"

lemma ses_invD:
  assumes "ses_inv s"
  shows "sid < rl_next_svc s \<Longrightarrow> (u, k) \<in> set (sv_sessions (rl_svc s sid)) \<Longrightarrow> k < rl_next_ses s"
    and "sid < rl_next_svc s \<Longrightarrow> sid' < rl_next_svc s \<Longrightarrow> (u, k) \<in> set (sv_sessions (rl_svc s sid)) \<Longrightarrow>
      (u', k) \<in> set (sv_sessions (rl_svc s sid')) \<Longrightarrow> sid = sid' \<and> u = u'"
    and "k < rl_next_ses s \<Longrightarrow> tunnel_ok (rl_queue_limit s) (rl_ses s k)"
  using assms unfolding ses_inv_def by blast+

lemma ses_invI:
  assumes "\<And>sid u k. sid < rl_next_svc s \<Longrightarrow> (u, k) \<in> set (sv_sessions (rl_svc s sid)) \<Longrightarrow> k < rl_next_ses s"
    and "\<And>sid sid' u u' k. sid < rl_next_svc s \<Longrightarrow> sid' < rl_next_svc s \<Longrightarrow>
      (u, k) \<in> set (sv_sessions (rl_svc s sid)) \<Longrightarrow> (u', k) \<in> set (sv_sessions (rl_svc s sid')) \<Longrightarrow>
      sid = sid' \<and> u = u'"
    and "\<And>k. k < rl_next_ses s \<Longrightarrow> tunnel_ok (rl_queue_limit s) (rl_ses s k)"
  shows "ses_inv s"
  unfolding ses_inv_def using assms by blast

lemma ses_inv_frame:
  assumes inv: "ses_inv s" and fr: "ses_frame s t"
  shows "ses_inv t"
proof (rule ses_invI)
  note D = ses_invD [OF inv]
  have f: "rl_next_ses t = rl_next_ses s" "rl_next_svc t = rl_next_svc s"
    "rl_queue_limit t = rl_queue_limit s"
    "flow_view (rl_ses t k) = flow_view (rl_ses s k)"
    "x \<in> set (sv_sessions (rl_svc t sid)) \<Longrightarrow> x \<in> set (sv_sessions (rl_svc s sid))" for k sid x
    using fr unfolding ses_frame_def by auto
  { fix sid u k assume "sid < rl_next_svc t" "(u, k) \<in> set (sv_sessions (rl_svc t sid))"
    then show "k < rl_next_ses t" using D(1) [of sid u k] f by simp }
  { fix sid sid' u u' k assume "sid < rl_next_svc t" "sid' < rl_next_svc t"
      "(u, k) \<in> set (sv_sessions (rl_svc t sid))" "(u', k) \<in> set (sv_sessions (rl_svc t sid'))"
    then show "sid = sid' \<and> u = u'" using D(2) [of sid sid' u k u'] f by simp }
  fix k assume "k < rl_next_ses t"
  then show "tunnel_ok (rl_queue_limit t) (rl_ses t k)"
    using D(3) [of k] f tunnel_ok_view [OF f(4) [of k]] by simp
qed

text \<open>A new session, at the next address, entered in one service.\<close>

lemma ses_inv_new:
  assumes inv: "ses_inv s" and x: "tunnel_ok (rl_queue_limit s) x"
    and k: "k = rl_next_ses s"
  shows "ses_inv (upd_svc sid (\<lambda>v. v\<lparr>sv_sessions := map_put uid k (sv_sessions v)\<rparr>)
    (s\<lparr>rl_ses := (rl_ses s)(k := x), rl_next_ses := Suc k\<rparr>))" (is "ses_inv ?t")
proof (rule ses_invI)
  note D = ses_invD [OF inv]
  have mem: "y \<in> set (sv_sessions (rl_svc s a)) \<or> (a = sid \<and> y = (uid, k))"
    if "y \<in> set (sv_sessions (rl_svc ?t a))" for y a
    using that by (auto simp: upd_svc_def split: if_splits dest!: in_put)
  have n: "rl_next_svc ?t = rl_next_svc s" "rl_next_ses ?t = Suc (rl_next_ses s)"
    "rl_queue_limit ?t = rl_queue_limit s" by (simp_all add: upd_svc_def k)
  { fix a u j assume a: "a < rl_next_svc ?t" and "(u, j) \<in> set (sv_sessions (rl_svc ?t a))"
    then show "j < rl_next_ses ?t" using mem D(1) [of a u j] n k by fastforce }
  { fix a b u u' j assume ab: "a < rl_next_svc ?t" "b < rl_next_svc ?t"
      and u: "(u, j) \<in> set (sv_sessions (rl_svc ?t a))" and u': "(u', j) \<in> set (sv_sessions (rl_svc ?t b))"
    have "j \<noteq> k" if "(u, j) \<in> set (sv_sessions (rl_svc s a)) \<or> (u', j) \<in> set (sv_sessions (rl_svc s b))"
      using that D(1) [of a u j] D(1) [of b u' j] ab n k by auto
    with mem [OF u] mem [OF u'] show "a = b \<and> u = u'" using D(2) [of a b u j u'] ab n by auto }
  fix j assume "j < rl_next_ses ?t"
  then show "tunnel_ok (rl_queue_limit ?t) (rl_ses ?t j)"
    using D(3) [of j] x by (auto simp: upd_svc_def k less_Suc_eq)
qed

lemma ses_inv_upd_ses:
  assumes inv: "ses_inv s"
    and f: "\<And>x. tunnel_ok (rl_queue_limit s) x \<Longrightarrow> x = rl_ses s k \<Longrightarrow> tunnel_ok (rl_queue_limit s) (f x)"
  shows "ses_inv (upd_ses k f s)"
proof (rule ses_invI)
  note D = ses_invD [OF inv]
  fix j assume "j < rl_next_ses (upd_ses k f s)"
  then show "tunnel_ok (rl_queue_limit (upd_ses k f s)) (rl_ses (upd_ses k f s) j)"
    using D(3) [of j] f by (auto simp: upd_ses_def)
qed (use ses_invD [OF inv] in \<open>auto simp: upd_ses_def\<close>)

lemma ses_inv_on_data:
  assumes inv: "ses_inv s" and rinv: "relay_inv s" and b: "traffic_bounded s"
  shows "ses_inv (relay_on_data seq port uid payload s)"
proof -
  { fix sid k assume p: "map_find (rl_services s) port = Some sid"
      and u: "map_find (sv_sessions (rl_svc s sid)) uid = Some k"
    have sid: "sid < rl_next_svc s" using inv_onD(1) [OF rinv [unfolded relay_inv_unfold] p] .
    have k: "k < rl_next_ses s" using ses_invD(1) [OF inv sid map_of_SomeD [OF u]] .
    then have "ss_tunnel_traffic (rl_ses s k) \<noteq> - 1" using b by (auto simp: traffic_bounded_def list_all_iff)
    then have "ses_inv (upd_ses k (ses_tunnel_submit (rl_queue_limit s)) s)"
      by (intro ses_inv_upd_ses [OF inv]) (auto intro: relay_tunnel.submit_ok) }
  note upd = this
  show ?thesis
    unfolding relay_on_data_def Let_def
    by (auto split: option.split simp: inv
        intro: ses_inv_frame [OF upd ses_frame_on_user_srv]
          ses_inv_frame [OF ses_inv_frame [OF upd ses_frame_on_agent_srv] ses_frame_on_user_srv])
qed

lemma ses_inv_tunnel_done:
  assumes inv: "ses_inv s" and limit: "limit = rl_queue_limit s"
  shows "ses_inv (relay_tunnel_done sid k seq limit s)"
proof -
  have u: "ses_inv (upd_ses k (ses_tunnel_complete limit) s)"
    by (intro ses_inv_upd_ses [OF inv]) (simp add: limit relay_tunnel.complete_ok)
  show ?thesis unfolding relay_tunnel_done_def Let_def
    by (auto intro: ses_inv_frame [OF u ses_frame_CleanSession]
        ses_inv_frame [OF u ses_frame_trans [OF ses_frame_on_agent_srv ses_frame_CleanSession]])
qed

lemma ses_inv_OnUserConnect:
  assumes inv: "ses_inv s"
  shows "ses_inv (relay__OnUserConnect sid seq ep s)"
  unfolding relay__OnUserConnect_def Let_def
  by (auto split: option.split simp: inv
      intro: ses_inv_frame [OF inv]
        ses_inv_frame [OF ses_inv_new [OF inv tunnel_ok_new(1) refl]
          ses_frame_trans [OF ses_frame_upd_agent ses_frame_on_agent_srv]])

lemma ses_inv_on_session:
  assumes inv: "ses_inv s"
  shows "ses_inv (relay_on_session seq port uid s)"
proof -
  let ?s = "upd_agent seq (\<lambda>a. a\<lparr>ag_ports := set_put port (ag_ports a)\<rparr>) s"
  have i: "ses_inv ?s" using inv ses_frame_upd_agent by (rule ses_inv_frame)
  have u: "ses_frame t (upd_ses k (\<lambda>x. x\<lparr>ss_agent_id := seq, ss_using_session_conn := True\<rparr>) t)" for k t
    by (rule ses_frame_upd_ses) (simp add: flow_view_def)
  show ?thesis
    unfolding relay_on_session_def Let_def
    by (auto split: option.split simp: inv i
        intro: ses_inv_frame [OF ses_inv_new [OF i tunnel_ok_new(2) refl] ses_frame_upd_agent]
          ses_inv_frame [OF i ses_frame_trans [OF ses_frame_upd_agent
            ses_frame_trans [OF u ses_frame_upd_agent]]])
qed

lemma ses_inv_on_bind:
  assumes inv: "ses_inv s" and t: "relay_on_bind os seq port s = Inr t"
  shows "ses_inv t"
proof -
  have create: "ses_inv (s\<lparr>rl_svc := (rl_svc s)(rl_next_svc s := v), rl_next_svc := Suc (rl_next_svc s),
      rl_services := x\<rparr>)" if "sv_sessions v = []" for v x
    using ses_invD [OF inv] that by (intro ses_invI) (auto simp: less_Suc_eq split: if_splits)
  have join: "ses_frame s (upd_svc sid (\<lambda>v. v\<lparr>sv_agents := set_put seq (sv_agents v)\<rparr>) s)" for sid
    by (rule ses_frame_upd_svc) simp
  show ?thesis using t
    by (auto simp: relay_on_bind_def relay_send_ack_def and_then_eq_Inr Let_def inv
        split: option.splits if_splits
        intro: ses_inv_frame [OF create ses_frame_trans [OF ses_frame_upd_agent ses_frame_on_agent_srv]]
          ses_inv_frame [OF inv]
          ses_inv_frame [OF inv ses_frame_trans [OF join ses_frame_trans [OF ses_frame_upd_agent ses_frame_on_agent_srv]]])
qed

lemma relay_handle_ses_inv:
  assumes inv: "ses_inv s" "relay_inv s" and en: "relay_enabled s ev" and t: "relay_handle ev s = Inr t"
  shows "ses_inv t"
proof (cases ev)
  case (RAgentRecv os seq data)
  then have r: "relay__OnAgentRecv os seq data s = Inr t" and b: "traffic_bounded s" using t en by auto
  show ?thesis
    using r inv ses_inv_on_bind [OF inv(1), of os seq _ t] ses_inv_on_data [OF inv b]
      ses_inv_on_session [OF inv(1)] ses_inv_frame [OF inv(1) ses_frame_unbind]
      ses_inv_frame [OF inv(1) ses_frame_disconnect]
    by (auto simp: relay__OnAgentRecv_def split: option.splits a2r.splits)
next
  case (RCompletion c)
  then show ?thesis using t en ses_inv_tunnel_done [OF inv(1)] ses_inv_frame [OF inv(1) ses_frame_user_done]
    by (cases c) auto
next
  case (RUserNet sid ev')
  then show ?thesis using t ses_inv_frame [OF inv(1) ses_frame_on_user_srv] by (auto simp: and_then_eq_Inr)
next
  case (RAgentNet ev')
  then show ?thesis using t ses_inv_frame [OF inv(1) ses_frame_tables(3)] by (auto simp: and_then_eq_Inr)
next
  case (RAgentConnect seq ep)
  then show ?thesis using t ses_inv_frame [OF inv(1) ses_frame_tables(2)]
    by (auto simp: relay__OnAgentConnect_def)
qed (use t ses_inv_OnUserConnect [OF inv(1)] ses_inv_frame [OF inv(1)] ses_frame_OnAgentDisconnect
      ses_frame_OnUserDisconnect ses_frame_OnUserRecv in auto)

end
