(* ===== verification/RelayProps.thy ===== *)
theory RelayProps
  imports RelaySessions
begin

text \<open>
  What the relay guarantees, over every run of its handlers from a successful Init and Start, and
  where its code does not do what it means to.
\<close>

subsection \<open>Reachable states\<close>

inductive relay_reach :: "relay_config \<Rightarrow> nat \<Rightarrow> relay \<Rightarrow> bool" for cfg n where
  rr_start: "relay_Init resolve (new_relay cfg n) = Inr (True, s) \<Longrightarrow> relay_Start os s = Inr t \<Longrightarrow>
    relay_reach cfg n t"
| rr_step: "relay_reach cfg n s \<Longrightarrow> relay_enabled s ev \<Longrightarrow> relay_handle ev s = Inr t \<Longrightarrow>
    relay_reach cfg n t"

lemma resolve_frame:
  "relay_resolve resolve ls s = Inr t \<Longrightarrow> \<exists>eps. t = s\<lparr>rl_listenep := eps\<rparr>"
proof (induction resolve ls s rule: relay_resolve.induct)
  case (1 resolve s)
  then have "t = s\<lparr>rl_listenep := rl_listenep s\<rparr>" by simp
  then show ?case by blast
next
  case (2 resolve l ls s)
  then obtain address eps where "t = s\<lparr>rl_listenep := rl_listenep s @ resolve address (cf_port l), rl_listenep := eps\<rparr>"
    by (auto simp: and_then_eq_Inr)
  then show ?case by auto
qed

lemma started_tables:
  assumes "relay_Init resolve (new_relay cfg n) = Inr (True, s)" and "relay_Start os s = Inr t"
  shows "rl_services t = [] \<and> rl_agents t = [] \<and> rl_next_svc t = 0 \<and> rl_next_ses t = 0
    \<and> rl_queue_limit t = cf_queue_limit (rc_system cfg)"
proof -
  obtain u where u: "relay_resolve resolve (rc_locals cfg)
      ((new_relay cfg n)\<lparr>rl_load_policy := LoadPolicy (rc_system cfg),
         rl_queue_limit := cf_queue_limit (rc_system cfg)\<rparr>) = Inr u" "s = u"
    using assms(1) by (auto simp: relay_Init_def and_then_eq_Inr new_relay_def split: if_splits)
  obtain srv where "t = s\<lparr>rl_pooling := True, rl_agent_srv := srv\<rparr>"
    using assms(2) by (auto simp: relay_Start_def and_then_eq_Inr Let_def)
  with resolve_frame [OF u(1)] u(2) show ?thesis by (auto simp: new_relay_def)
qed

lemma relay_reach_inv: "relay_reach cfg n s \<Longrightarrow> relay_inv s \<and> ses_inv s"
proof (induction rule: relay_reach.induct)
  case (rr_start resolve s os t)
  from started_tables [OF rr_start] show ?case
    by (simp add: relay_inv_unfold inv_on_def ses_inv_def)
next
  case (rr_step s ev t)
  then show ?case using relay_handle_inv_reg [of s ev t] relay_handle_ses_inv [of s ev t] by blast
qed

text \<open>A concrete relay for the witnesses: two agents connected, agent 1 listening for users on
  port 80.\<close>

definition demo_cfg :: relay_config where
  "demo_cfg = \<lparr>rc_system = default_system\<lparr>cf_queue_limit := 2\<rparr>, rc_locals = [\<lparr>cf_address = ''h'', cf_port = ''1''\<rparr>]\<rparr>"

definition demo_os :: "endpoint \<Rightarrow> u16 option" where
  "demo_os ep = Some (ep_port ep)"

definition run_relay :: "relay_event list \<Rightarrow> relay result" where
  "run_relay evs =
     and_then (relay_Init (\<lambda>_ _. [Endpoint 0 9000]) (new_relay demo_cfg 1)) (\<lambda>(_, s).
       and_then (relay_Start demo_os s) (fold_result relay_handle evs))"

definition demo_events :: "relay_event list" where
  "demo_events = [RAgentConnect 1 (Endpoint 7 7), RAgentConnect 5 (Endpoint 7 8),
     RAgentRecv demo_os 1 (a2r_encode (A2R_bind 80))]"

lemmas relay_eval = run_relay_def demo_cfg_def demo_os_def demo_events_def relay_Init_def new_relay_def
  default_system_def LoadPolicy_def relay_Start_def srv_bind_callbacks_def srv_SetDefragment_def
  srv_SetRecvbufSize_def srv_SetNoDelay_def srv_SetMaxPacketLength_def new_server_def Start_eq
  srv_listening_def srv__StartNextConnection_def srv__GetNextSeq_def next_seq_from.simps srv_emit_def
  trim_def find_last_not_of_def relay__OnAgentConnect_def relay__OnAgentRecv_def relay_on_bind_def
  new_service_server_def relay_send_ack_def on_agent_srv_def on_user_srv_def upd_agent_def upd_svc_def
  upd_ses_def srv_Send_def srv_SendV_def srv_BlockRecv_def srv_CloseConn_def
  a2r_codec.dec_enc [of _ "[]", simplified]

fun enabled_run :: "relay_event list \<Rightarrow> relay \<Rightarrow> bool" where
  "enabled_run [] s = True"
| "enabled_run (ev # evs) s = (relay_enabled s ev \<and>
     (case relay_handle ev s of Inl _ \<Rightarrow> True | Inr t \<Rightarrow> enabled_run evs t))"

lemma reach_run:
  "relay_reach cfg n s \<Longrightarrow> enabled_run evs s \<Longrightarrow> fold_result relay_handle evs s = Inr t \<Longrightarrow>
    relay_reach cfg n t"
proof (induction evs arbitrary: s)
  case (Cons ev evs)
  then obtain u where u: "relay_handle ev s = Inr u" "fold_result relay_handle evs u = Inr t"
    by (auto simp: and_then_eq_Inr)
  with Cons.prems have "relay_reach cfg n u" "enabled_run evs u" by (auto intro: rr_step)
  from Cons.IH [OF this u(2)] show ?case .
qed simp

lemma demo_start: "\<exists>s. relay_reach demo_cfg 1 s \<and> rl_agents s = [] \<and> rl_services s = []
    \<and> rl_ioservices s = 1 \<and> rl_next_svc s = 0 \<and> rl_next_ses s = 0 \<and> rl_config s = demo_cfg \<and> rl_queue_limit s = 2
    \<and> srv_conns (rl_agent_srv s) = [(1, 0)]"
proof -
  obtain s t where st: "relay_Init (\<lambda>_ _. [Endpoint 0 9000]) (new_relay demo_cfg 1) = Inr (True, s)"
    "relay_Start demo_os s = Inr t" "rl_ioservices t = 1" "rl_config t = demo_cfg"
    "srv_conns (rl_agent_srv t) = [(1, 0)]"
    by (simp add: relay_eval)
  then show ?thesis using rr_start [OF st(1,2)] started_tables [OF st(1,2)]
    by (auto simp: demo_cfg_def)
qed

lemma demo_reach: "\<exists>s. relay_reach demo_cfg 1 s \<and> map_find (rl_services s) 80 = Some 0
    \<and> sv_agents (rl_svc s 0) = [1] \<and> sv_sessions (rl_svc s 0) = []
    \<and> map_find (rl_agents s) 1 = Some \<lparr>ag_seq = 1, ag_ports = [80], ag_sessions = []\<rparr>
    \<and> map_find (rl_agents s) 5 = Some \<lparr>ag_seq = 5, ag_ports = [], ag_sessions = []\<rparr>
    \<and> rl_next_ses s = 0 \<and> rl_queue_limit s = 2 \<and> srv_conns (rl_agent_srv s) = [(1, 0)]"
proof -
  obtain s where s: "relay_reach demo_cfg 1 s" and st: "rl_agents s = []" "rl_services s = []"
    "rl_ioservices s = 1" "rl_next_svc s = 0" "rl_next_ses s = 0" "rl_config s = demo_cfg"
    "rl_queue_limit s = 2" "srv_conns (rl_agent_srv s) = [(1, 0)]"
    using demo_start by blast
  obtain t where t: "fold_result relay_handle demo_events s = Inr t"
    "map_find (rl_services t) 80 = Some 0" "sv_agents (rl_svc t 0) = [1]" "sv_sessions (rl_svc t 0) = []"
    "map_find (rl_agents t) 1 = Some \<lparr>ag_seq = 1, ag_ports = [80], ag_sessions = []\<rparr>"
    "map_find (rl_agents t) 5 = Some \<lparr>ag_seq = 5, ag_ports = [], ag_sessions = []\<rparr>" "rl_next_ses t = 0"
    "rl_queue_limit t = 2" "srv_conns (rl_agent_srv t) = [(1, 0)]"
    by (simp add: relay_eval st del: a2r_encode.simps)
  have "enabled_run demo_events s"
    by (simp add: relay_eval st traffic_bounded_def del: a2r_encode.simps)
  from reach_run [OF s this t(1)] t show ?thesis by blast
qed

subsection \<open>Bindings\<close>

text \<open>C3: the binding tables of the relay implement the set of bound (port, agent) pairs: BIND adds
  the agent's pair, UNBIND removes it, the end of an agent's connection removes all of its pairs,
  and no other packet, user event or completion changes the set.\<close>

theorem registry_refined:
  assumes "relay_reach cfg n s" and "relay_enabled s ev" and "relay_handle ev s = Inr t"
  shows "reg t = reg_step (map_find (rl_agents s) (event_agent ev) \<noteq> None) ev (reg s)"
  using relay_handle_inv_reg relay_reach_inv assms by blast

theorem registry_refined_witness:
  "\<exists>s t. relay_handle (RAgentRecv demo_os 1 (a2r_encode (A2R_unbind 80))) s = Inr t
    \<and> (80, 1) \<in> reg s \<and> reg t = reg s - {(80, 1)}"
proof -
  obtain s where s: "relay_reach demo_cfg 1 s" "map_find (rl_services s) 80 = Some 0"
    "sv_agents (rl_svc s 0) = [1]" "rl_next_ses s = 0" using demo_reach by blast
  let ?ev = "RAgentRecv demo_os 1 (a2r_encode (A2R_unbind 80))"
  have d: "a2r_decode (a2r_encode (A2R_unbind 80)) = Some (A2R_unbind 80)"
    using a2r_codec.dec_enc [of _ "[]"] by (simp only: append_Nil2)
  obtain t where t: "relay_handle ?ev s = Inr t" by (simp add: relay__OnAgentRecv_def d del: a2r_encode.simps)
  moreover have "reg t = reg s - {(80, 1)}"
    using registry_refined [OF s(1) _ t] s(4)
    by (simp add: d traffic_bounded_def del: a2r_encode.simps)
  moreover have "(80, 1) \<in> reg s" using s by (simp add: reg_mem)
  ultimately show ?thesis by blast
qed

text \<open>The relay listens for users on exactly the ports some connected agent has bound, and
  every agent a service lists is connected and knows the port as its own.\<close>

theorem registry_tables:
  assumes "relay_reach cfg n s"
  shows "fst ` reg s = dom (map_find (rl_services s))
    \<and> reg s \<subseteq> {(p, a). \<exists>ag. map_find (rl_agents s) a = Some ag \<and> p \<in> set (ag_ports ag)}"
proof -
  have inv: "relay_inv s" using relay_reach_inv [OF assms] by blast
  have "p \<in> fst ` reg s" if p: "map_find (rl_services s) p = Some sid" for p sid
  proof -
    obtain a where "a \<in> set (sv_agents (rl_svc s sid))"
      using inv_onD(3) [OF inv [unfolded relay_inv_unfold] p] by (cases "sv_agents (rl_svc s sid)") (auto simp: svc_view_def)
    with p have "(p, a) \<in> reg s" by (simp add: reg_mem)
    then have "fst (p, a) \<in> fst ` reg s" by (rule imageI)
    then show ?thesis by simp
  qed
  moreover have "p \<in> dom (map_find (rl_services s))" if "(p, a) \<in> reg s" for p a
    using that by (auto simp: reg_def)
  ultimately show ?thesis using reg_ports [OF inv] by fastforce
qed

theorem registry_tables_witness:
  "\<exists>s. relay_reach demo_cfg 1 s \<and> (80, 1) \<in> reg s \<and> 80 \<in> dom (map_find (rl_services s))"
proof -
  obtain s where s: "relay_reach demo_cfg 1 s" "map_find (rl_services s) 80 = Some 0"
    "sv_agents (rl_svc s 0) = [1]" using demo_reach by blast
  have "(80, 1) \<in> reg s" using s by (simp add: reg_mem)
  moreover have "80 \<in> dom (map_find (rl_services s))"
    using registry_tables [OF s(1)] imageI [OF \<open>(80, 1) \<in> reg s\<close>, of fst] by simp
  ultimately show ?thesis using s(1) by blast
qed

subsection \<open>Users\<close>

lemma pick_member: "agents \<noteq> [] \<Longrightarrow> relay_pick policy seq ep agents \<in> set agents"
  by (simp add: relay_pick_def Let_def)

text \<open>C5: a user who connects to a service is always served: an agent that has the port bound is
  found, a fresh session links the user and that agent in both tables, and the agent is sent the
  CONNECT message with the user's number and address.\<close>

theorem user_is_served:
  assumes "relay_reach cfg n s" and "map_find (rl_services s) port = Some sid"
    and "a = relay_pick (rl_load_policy s) seq ep (sv_agents (rl_svc s sid))"
    and "t = relay__OnUserConnect sid seq ep s"
  shows "(port, a) \<in> reg s
    \<and> map_find (sv_sessions (rl_svc t sid)) seq = Some (rl_next_ses s)
    \<and> (\<exists>ag. map_find (rl_agents t) a = Some ag \<and> map_find (ag_sessions ag) seq = Some (rl_next_ses s))
    \<and> rl_ses t (rl_next_ses s) = new_session\<lparr>ss_seq := seq, ss_agent_id := a\<rparr>
    \<and> (seq, rl_next_ses s) \<notin> set (sv_sessions (rl_svc s sid))
    \<and> srv_out (rl_agent_srv t) = srv_out (rl_agent_srv s)
        @ [SPost (SSend a (r2a_encode (R2A_connect port seq (ep_ip ep) (ep_port ep))) None)]"
proof -
  have inv: "relay_inv s" and sinv: "ses_inv s" using relay_reach_inv [OF assms(1)] by blast+
  note D = inv_onD [OF inv [unfolded relay_inv_unfold]]
  have ne: "sv_agents (rl_svc s sid) \<noteq> []" using D(3) [OF assms(2)] by (simp add: svc_view_def)
  have port: "sv_port (rl_svc s sid) = port" using D(2) [OF assms(2)] by (simp add: svc_view_def)
  have a: "(port, a) \<in> reg s" using assms(2,3) pick_member [OF ne] by (simp add: reg_mem)
  obtain ag where ag: "map_find (rl_agents s) a = Some ag" using reg_ports [OF inv a] by blast
  have fresh: "(seq, rl_next_ses s) \<notin> set (sv_sessions (rl_svc s sid))"
    using ses_invD(1) [OF sinv D(1) [OF assms(2)]] by blast
  have len: "length (sv_agents (rl_svc s sid)) \<noteq> 0" using ne by simp
  let ?k = "rl_next_ses s"
  let ?s1 = "upd_svc sid (\<lambda>v. v\<lparr>sv_sessions := map_put seq ?k (sv_sessions v)\<rparr>)
      (s\<lparr>rl_ses := (rl_ses s)(?k := new_session\<lparr>ss_seq := seq, ss_agent_id := a\<rparr>), rl_next_ses := Suc ?k\<rparr>)"
  have t: "t = on_agent_srv (srv_Send a
      (r2a_encode (R2A_connect port seq (ep_ip ep) (ep_port ep))) None)
      (upd_agent a (\<lambda>x. x\<lparr>ag_sessions := map_put seq ?k (ag_sessions x)\<rparr>) ?s1)"
    unfolding assms(4) relay__OnUserConnect_def
    using len ag by (simp add: assms(3) [symmetric] Let_def upd_svc_def upd_agent_def on_agent_srv_def port)
  show ?thesis using a ag fresh
    by (simp add: t on_agent_srv_def upd_agent_def upd_svc_def srv_Send_def srv_emit_def del: r2a_encode.simps)
qed

theorem user_is_served_witness:
  "\<exists>s t. relay_reach demo_cfg 1 s \<and> t = relay__OnUserConnect 0 1 (Endpoint 9 9) s
    \<and> map_find (sv_sessions (rl_svc t 0)) 1 = Some (rl_next_ses s)"
proof -
  obtain s where s: "relay_reach demo_cfg 1 s" "map_find (rl_services s) 80 = Some 0" using demo_reach by blast
  from user_is_served [OF s refl refl] s(1) show ?thesis by blast
qed

text \<open>Under the IP policy the agent depends on the address only, so a user who reconnects
  reaches the same agent while the bindings stay; under the SEQ policy any run of as many
  consecutive sequence numbers as there are agents visits every agent once, in order.\<close>

theorem load_balancing:
  assumes "n + length agents \<le> 2 ^ 32"
  shows "(ep_ip ep = ep_ip ep' \<longrightarrow> relay_pick CONFIG_LOAD_POLICY_IP seq ep agents
      = relay_pick CONFIG_LOAD_POLICY_IP seq' ep' agents)
    \<and> map (\<lambda>i. relay_pick CONFIG_LOAD_POLICY_SEQ (of_nat i) ep agents) [n..<n + length agents]
      = rotate n agents"
proof
  show "ep_ip ep = ep_ip ep' \<longrightarrow> relay_pick CONFIG_LOAD_POLICY_IP seq ep agents
      = relay_pick CONFIG_LOAD_POLICY_IP seq' ep' agents"
    by (simp add: relay_pick_def)
  show "map (\<lambda>i. relay_pick CONFIG_LOAD_POLICY_SEQ (of_nat i) ep agents) [n..<n + length agents]
      = rotate n agents"
  proof (rule nth_equalityI)
    fix i assume "i < length (map (\<lambda>i. relay_pick CONFIG_LOAD_POLICY_SEQ (of_nat i) ep agents) [n..<n + length agents])"
    then have i: "i < length agents" by simp
    then have "n + i < 2 ^ 32" using assms by simp
    then have u: "unat (of_nat (n + i) :: u32) = n + i"
      by (simp add: unsigned_of_nat take_bit_nat_eq_self del: of_nat_add)
    show "map (\<lambda>i. relay_pick CONFIG_LOAD_POLICY_SEQ (of_nat i) ep agents) [n..<n + length agents] ! i
        = rotate n agents ! i"
      using i u by (simp add: relay_pick_def Let_def CONFIG_LOAD_POLICY_IP_def CONFIG_LOAD_POLICY_SEQ_def
          nth_rotate add.commute del: of_nat_add)
  qed simp
qed

theorem load_balancing_witness:
  "map (\<lambda>i. relay_pick CONFIG_LOAD_POLICY_SEQ (of_nat i) (Endpoint 1 1) [4, 6, 9]) [2..<5] = [9, 4, 6]"
  using load_balancing [of 2 "[4, 6, 9]" "Endpoint 1 1" "Endpoint 1 1" 0 0]
  by (simp add: rotate_drop_take)

subsection \<open>Data\<close>

text \<open>What a user sends is passed to the agent of the user's session, and to no one else, as one
  packet which the agent's parser reads as DATA of that user on that port, followed by exactly the
  user's bytes.\<close>

theorem user_data_path:
  assumes "map_find (sv_sessions (rl_svc s sid)) seq = Some k"
    and "t = relay__OnUserRecv sid seq buf s"
  shows "\<exists>hdr. srv_out (rl_agent_srv t) = srv_out (rl_agent_srv s)
        @ [SPost (SSendV (ss_agent_id (rl_ses s k)) [hdr, buf] (Some (UserDone sid k seq (rl_queue_limit s))))]
    \<and> r2a_decode (concat [hdr, buf]) = Some (R2A_data (sv_port (rl_svc s sid)) seq)
    \<and> drop (r2a_sizeof (R2A_data (sv_port (rl_svc s sid)) seq)) (concat [hdr, buf]) = buf
    \<and> rl_services t = rl_services s \<and> rl_agents t = rl_agents s"
proof -
  let ?m = "R2A_data (sv_port (rl_svc s sid)) seq"
  have d: "r2a_decode (r2a_encode ?m @ buf) = Some ?m" by (rule r2a_codec.dec_enc)
  have p: "drop (r2a_sizeof ?m) (r2a_encode ?m @ buf) = buf" by (rule r2a_codec.payload)
  show ?thesis
    by (rule exI [of _ "r2a_encode ?m"])
      (use assms d p in \<open>simp add: relay__OnUserRecv_def Let_def on_agent_srv_def on_user_srv_def
        upd_svc_def upd_ses_def srv_SendV_def srv_emit_def del: r2a_encode.simps\<close>)
qed

text \<open>A session of user 1 on the demo relay.\<close>

lemma demo_session: "\<exists>s. relay_reach demo_cfg 1 s \<and> map_find (rl_services s) 80 = Some 0
    \<and> map_find (sv_sessions (rl_svc s 0)) 1 = Some 0 \<and> rl_next_ses s = 1
    \<and> map_find (rl_agents s) 1 \<noteq> None \<and> map_find (rl_agents s) 5 \<noteq> None
    \<and> rl_ses s 0 = new_session\<lparr>ss_seq := 1, ss_agent_id := 1\<rparr> \<and> rl_queue_limit s = 2
    \<and> map_find (sv_sessions (rl_svc s 0)) 5 = None \<and> srv_conns (rl_agent_srv s) = [(1, 0)]"
proof -
  obtain s where s: "relay_reach demo_cfg 1 s" "map_find (rl_services s) 80 = Some 0"
    "sv_agents (rl_svc s 0) = [1]" "sv_sessions (rl_svc s 0) = []"
    "map_find (rl_agents s) 1 = Some \<lparr>ag_seq = 1, ag_ports = [80], ag_sessions = []\<rparr>"
    "map_find (rl_agents s) 5 = Some \<lparr>ag_seq = 5, ag_ports = [], ag_sessions = []\<rparr>" "rl_next_ses s = 0"
    and q: "rl_queue_limit s = 2" "srv_conns (rl_agent_srv s) = [(1, 0)]"
    using demo_reach by blast
  let ?t = "relay__OnUserConnect 0 1 (Endpoint 9 9) s"
  have n: "0 < rl_next_svc s" using inv_onD(1) s(2) relay_reach_inv [OF s(1)] relay_inv_unfold by blast
  have "relay_reach demo_cfg 1 ?t" by (rule rr_step [OF s(1), where ev = "RUserConnect 0 1 (Endpoint 9 9)"]) (simp_all add: n)
  moreover have "relay_pick l 1 (Endpoint 9 9) [1] = 1" for l by (simp add: relay_pick_def)
  ultimately show ?thesis
    using s q by (intro exI [of _ ?t]) (simp add: relay__OnUserConnect_def relay_eval Let_def)
qed

theorem user_data_path_witness:
  "\<exists>(s :: relay) hdr. r2a_decode (concat [hdr, [1, 2, 3]]) = Some (R2A_data (sv_port (rl_svc s 0)) 1)"
proof -
  obtain s :: relay where "map_find (sv_sessions (rl_svc s 0)) 1 = Some 0" using demo_session by blast
  from user_data_path [OF this refl] show ?thesis by blast
qed

text \<open>What an agent sends for a user is queued on that user's connection of that service, and
  reaches no other connection: the payload that followed the DATA header, unchanged.\<close>

theorem agent_data_path:
  assumes "map_find (rl_agents s) a \<noteq> None" and "map_find (rl_services s) port = Some sid"
    and "map_find (sv_sessions (rl_svc s sid)) uid = Some k"
    and "relay__OnAgentRecv os a (a2r_encode (A2R_data port uid) @ payload) s = Inr t"
  shows "srv_out (sv_tcpserver (rl_svc t sid)) = srv_out (sv_tcpserver (rl_svc s sid))
        @ [SPost (SSend uid payload (Some (TunnelDone sid k a (rl_queue_limit s))))]
    \<and> rl_svc t = (rl_svc s)(sid := rl_svc t sid)
    \<and> ss_tunnel_traffic (rl_ses t k) = ss_tunnel_traffic (rl_ses s k) + 1"
proof -
  obtain ag where ag: "map_find (rl_agents s) a = Some ag" using assms(1) by blast
  have d: "a2r_decode (a2r_encode (A2R_data port uid) @ payload) = Some (A2R_data port uid)"
    by (rule a2r_codec.dec_enc)
  have p: "drop (a2r_sizeof (A2R_data port uid)) (a2r_encode (A2R_data port uid) @ payload) = payload"
    by (rule a2r_codec.payload)
  have "t = relay_on_data a port uid payload s"
    using assms(4) by (simp add: relay__OnAgentRecv_def d p del: a2r_encode.simps a2r_sizeof.simps drop_append)
  then show ?thesis
    by (simp add: relay_on_data_def ag assms(2,3) Let_def on_user_srv_def on_agent_srv_def upd_svc_def
        upd_ses_def srv_Send_def srv_emit_def fun_eq_iff relay_tunnel.submit_traffic)
qed

theorem agent_data_path_witness:
  "\<exists>s t. relay__OnAgentRecv demo_os 1 (a2r_encode (A2R_data 80 1) @ [1, 2, 3]) s = Inr t
    \<and> ss_tunnel_traffic (rl_ses t 0) = ss_tunnel_traffic (rl_ses s 0) + 1"
proof -
  obtain s :: relay where s: "map_find (rl_services s) 80 = Some 0"
    "map_find (sv_sessions (rl_svc s 0)) 1 = Some 0" "map_find (rl_agents s) 1 \<noteq> None"
    using demo_session by blast
  have d: "a2r_decode (a2r_encode (A2R_data 80 1) @ [1, 2, 3]) = Some (A2R_data 80 1)"
    by (rule a2r_codec.dec_enc)
  obtain t where t: "relay__OnAgentRecv demo_os 1 (a2r_encode (A2R_data 80 1) @ [1, 2, 3]) s = Inr t"
    by (simp add: relay__OnAgentRecv_def d del: a2r_encode.simps)
  from agent_data_path [OF s(3,1,2) t] t show ?thesis by blast
qed

subsection \<open>Flow control\<close>

text \<open>Back pressure towards an agent, while no completion overlaps a handler: a session whose agent has
  been told to stop has more than half the queue limit of its buffers still on their way to the user,
  and when all of those have been written it is not corked any more.  \<^verbatim>\<open>FlowRace\<close> has what is left
  of this when the threads overlap.\<close>

theorem tunnel_flow_control:
  assumes "relay_reach cfg n s" and "k < rl_next_ses s"
    and "x = rl_ses s k" and "limit = rl_queue_limit s"
  shows "(ss_tunnel_corked x \<longrightarrow> limit \<noteq> 0 \<and> ss_tunnel_traffic x > limit div 2)
    \<and> \<not> ss_tunnel_corked ((ses_tunnel_complete limit ^^ unat (ss_tunnel_traffic x)) x)"
proof -
  have "ses_inv s" using relay_reach_inv [OF assms(1)] by blast
  then have ok: "tunnel_ok limit x" using ses_invD(3) [OF _ assms(2)] assms(3,4) by simp
  then show ?thesis using relay_tunnel.all_complete [OF ok]
    by (auto simp: relay_tunnel.gate_ok_def)
qed

theorem tunnel_flow_control_witness:
  "\<exists>s. relay_reach demo_cfg 1 s \<and> 0 < rl_next_ses s
    \<and> \<not> ss_tunnel_corked ((ses_tunnel_complete 2 ^^ unat (ss_tunnel_traffic (rl_ses s 0))) (rl_ses s 0))"
proof -
  obtain s where s: "relay_reach demo_cfg 1 s" "rl_next_ses s = 1" "rl_queue_limit s = 2"
    using demo_session by blast
  have "0 < rl_next_ses s" by (simp add: s)
  from tunnel_flow_control [OF s(1) this refl refl] this s show ?thesis by auto
qed

text \<open>The user direction does lose it: its completion tests the traffic of the other direction.
  While more than half the limit is on its way to a user, the last of that user's own buffers
  completes without resuming the user's connection, which stays blocked with nothing outstanding.\<close>

theorem user_direction_stalls:
  assumes "ss_user_corked (rl_ses s k)" and "ss_user_traffic (rl_ses s k) = 1"
    and "ss_tunnel_traffic (rl_ses s k) > limit div 2"
    and "\<not> ss_user_disconnected (rl_ses s k)"
    and "t = relay_user_done sid k seq limit s"
  shows "ss_user_corked (rl_ses t k) \<and> ss_user_traffic (rl_ses t k) = 0
    \<and> rl_svc t = rl_svc s \<and> rl_agent_srv t = rl_agent_srv s"
  using assms
  by (auto simp: relay_user_done_def Let_def upd_ses_def must_uncork_def relay__CleanSession_def)

theorem user_direction_stalls_witness:
  "ss_user_corked (rl_ses (relay_user_done 0 0 1 2 ((new_relay demo_cfg 1)\<lparr>rl_ses :=
      (\<lambda>_. new_session\<lparr>ss_user_corked := True, ss_user_traffic := 1, ss_tunnel_traffic := 2\<rparr>)\<rparr>)) 0)"
  using user_direction_stalls [OF _ _ _ _ refl,
    of "(new_relay demo_cfg 1)\<lparr>rl_ses :=
      (\<lambda>_. new_session\<lparr>ss_user_corked := True, ss_user_traffic := 1, ss_tunnel_traffic := 2\<rparr>)\<rparr>" 0 2 0 1]
  by (simp add: new_session_def)

text \<open>What DATA does to the session and to the agent server, and what its completion does.\<close>

lemma data_effect:
  assumes "map_find (rl_agents s) a \<noteq> None" and "map_find (rl_services s) port = Some sid"
    and "map_find (sv_sessions (rl_svc s sid)) uid = Some k"
  shows "relay_handle (RAgentRecv os a (a2r_encode (A2R_data port uid) @ payload)) s =
    Inr (on_user_srv sid (srv_Send uid payload (Some (TunnelDone sid k a (rl_queue_limit s))))
      ((if \<not> ss_tunnel_corked (rl_ses s k) \<and> ss_tunnel_corked (ses_tunnel_submit (rl_queue_limit s) (rl_ses s k))
        then on_agent_srv (srv_BlockRecv a True) else id)
       (upd_ses k (ses_tunnel_submit (rl_queue_limit s)) s)))"
proof -
  have d: "a2r_decode (a2r_encode (A2R_data port uid) @ payload) = Some (A2R_data port uid)"
    by (rule a2r_codec.dec_enc)
  have p: "drop (a2r_sizeof (A2R_data port uid)) (a2r_encode (A2R_data port uid) @ payload) = payload"
    by (rule a2r_codec.payload)
  from assms show ?thesis
    by (auto simp: relay__OnAgentRecv_def d p relay_on_data_def Let_def upd_ses_def
        simp del: a2r_encode.simps a2r_sizeof.simps drop_append)
qed

lemma data_step:
  assumes "map_find (rl_agents s) a \<noteq> None" and "map_find (rl_services s) port = Some sid"
    and "map_find (sv_sessions (rl_svc s sid)) uid = Some k"
    and "rl_ses s k = x" and "y = ses_tunnel_submit (rl_queue_limit s) x"
  obtains t where "relay_handle (RAgentRecv os a (a2r_encode (A2R_data port uid) @ payload)) s = Inr t"
    "rl_agents t = rl_agents s" "rl_services t = rl_services s"
    "sv_sessions (rl_svc t sid) = sv_sessions (rl_svc s sid)" "rl_queue_limit t = rl_queue_limit s"
    "rl_ses t k = y"
    "srv_out (rl_agent_srv t) = srv_out (rl_agent_srv s) @
      (if \<not> ss_tunnel_corked x \<and> ss_tunnel_corked y then [SPost (SBlockRecv a True)] else [])"
  by (rule that [OF data_effect [OF assms(1-3)]])
    (simp_all add: assms(4,5) on_user_srv_def on_agent_srv_def upd_svc_def upd_ses_def srv_BlockRecv_def srv_emit_def)

lemma done_step:
  assumes "rl_ses s k = x" and "y = ses_tunnel_complete limit x"
    and "\<not> ss_user_disconnected y"
  obtains t where "relay_handle (RCompletion (TunnelDone sid k a limit)) s = Inr t" "rl_ses t k = y"
    "srv_out (rl_agent_srv t) = srv_out (rl_agent_srv s) @
      (if ss_tunnel_corked x \<and> \<not> ss_tunnel_corked y then [SPost (SBlockRecv a False)] else [])"
  using that [of "relay_tunnel_done sid k a limit s"] assms
  by (auto simp: relay_tunnel_done_def Let_def relay__CleanSession_def on_agent_srv_def upd_ses_def
      srv_BlockRecv_def srv_emit_def)

text \<open>The resume may go to the wrong connection.  An agent may send the data of one user over two
  connections (its tunnel, then the session connection).  With a queue limit of 2, two packets over
  connection \<open>a\<close> and one over \<open>b\<close> block \<open>b\<close>; once all three have been written the session is
  idle, and the only resume that was posted is for \<open>a\<close>: \<open>b\<close> stays blocked for good.\<close>

theorem resume_misdirected:
  assumes "map_find (rl_agents s) a \<noteq> None" and "map_find (rl_agents s) b \<noteq> None"
    and "map_find (rl_services s) port = Some sid"
    and "map_find (sv_sessions (rl_svc s sid)) uid = Some k"
    and "rl_queue_limit s = 2" and "rl_ses s k = new_session\<lparr>ss_seq := uid, ss_agent_id := c\<rparr>"
    and "data = (\<lambda>x. RAgentRecv os x (a2r_encode (A2R_data port uid) @ payload))"
    and "fin = (\<lambda>x. RCompletion (TunnelDone sid k x 2))"
  shows "\<exists>t. fold_result relay_handle [data a, data a, data b, fin a, fin a, fin b] s = Inr t
    \<and> ss_tunnel_traffic (rl_ses t k) = 0 \<and> \<not> ss_tunnel_corked (rl_ses t k)
    \<and> srv_out (rl_agent_srv t) = srv_out (rl_agent_srv s)
        @ [SPost (SBlockRecv b True), SPost (SBlockRecv a False)]"
proof -
  let ?x = "\<lambda>n c'. new_session\<lparr>ss_seq := uid, ss_agent_id := c, ss_tunnel_traffic := n, ss_tunnel_corked := c'\<rparr>"
  let ?l = "rl_queue_limit s"
  have x0: "rl_ses s k = ?x 0 False" using assms(6) by (simp add: new_session_def)
  have sub: "ses_tunnel_submit 2 (?x 0 False) = ?x 1 False" "ses_tunnel_submit 2 (?x 1 False) = ?x 2 False"
    "ses_tunnel_submit 2 (?x 2 False) = ?x 3 True"
    by (simp_all add: ses_tunnel_submit_def must_cork_def new_session_def Let_def)
  have com: "ses_tunnel_complete 2 (?x 3 True) = ?x 2 True" "ses_tunnel_complete 2 (?x 2 True) = ?x 1 False"
    "ses_tunnel_complete 2 (?x 1 False) = ?x 0 False"
    by (simp_all add: ses_tunnel_complete_def must_uncork_def new_session_def Let_def word_le_nat_alt)
  obtain t1 where t1: "relay_handle (data a) s = Inr t1" "rl_agents t1 = rl_agents s"
    "rl_services t1 = rl_services s" "sv_sessions (rl_svc t1 sid) = sv_sessions (rl_svc s sid)"
    "rl_queue_limit t1 = ?l" "rl_ses t1 k = ?x 1 False" "srv_out (rl_agent_srv t1) = srv_out (rl_agent_srv s)"
    using data_step [OF assms(1,3,4) x0 refl, of os payload] sub(1) by (auto simp: assms(5,7))
  obtain t2 where t2: "relay_handle (data a) t1 = Inr t2" "rl_agents t2 = rl_agents s"
    "rl_services t2 = rl_services s" "sv_sessions (rl_svc t2 sid) = sv_sessions (rl_svc s sid)"
    "rl_queue_limit t2 = ?l" "rl_ses t2 k = ?x 2 False" "srv_out (rl_agent_srv t2) = srv_out (rl_agent_srv s)"
    using data_step [OF _ _ _ t1(6) refl, of a port sid uid os payload] assms(1,3,4) t1 sub(2)
    by (auto simp: assms(5,7))
  obtain t3 where t3: "relay_handle (data b) t2 = Inr t3" "rl_ses t3 k = ?x 3 True"
    "srv_out (rl_agent_srv t3) = srv_out (rl_agent_srv s) @ [SPost (SBlockRecv b True)]"
    using data_step [OF _ _ _ t2(6) refl, of b port sid uid os payload] assms(2,3,4) t2 sub(3)
    by (auto simp: assms(5,7))
  obtain t4 where t4: "relay_handle (fin a) t3 = Inr t4" "rl_ses t4 k = ?x 2 True"
    "srv_out (rl_agent_srv t4) = srv_out (rl_agent_srv s) @ [SPost (SBlockRecv b True)]"
    using done_step [OF t3(2) com(1) [symmetric], of sid a] t3(3) by (auto simp: assms(8) new_session_def)
  obtain t5 where t5: "relay_handle (fin a) t4 = Inr t5" "rl_ses t5 k = ?x 1 False"
    "srv_out (rl_agent_srv t5) = srv_out (rl_agent_srv s) @ [SPost (SBlockRecv b True), SPost (SBlockRecv a False)]"
    using done_step [OF t4(2) com(2) [symmetric], of sid a] t4(3) by (auto simp: assms(8) new_session_def)
  obtain t6 where t6: "relay_handle (fin b) t5 = Inr t6" "rl_ses t6 k = ?x 0 False"
    "srv_out (rl_agent_srv t6) = srv_out (rl_agent_srv s) @ [SPost (SBlockRecv b True), SPost (SBlockRecv a False)]"
    using done_step [OF t5(2) com(3) [symmetric], of sid b] t5(3) by (auto simp: assms(8) new_session_def)
  show ?thesis using t1(1) t2(1) t3(1) t4(1) t5(1) t6 by (intro exI [of _ t6]) simp
qed

theorem resume_misdirected_witness:
  "\<exists>s (t :: relay). relay_reach demo_cfg 1 s \<and> \<not> ss_tunnel_corked (rl_ses t 0)
    \<and> srv_out (rl_agent_srv t) = srv_out (rl_agent_srv s)
        @ [SPost (SBlockRecv 5 True), SPost (SBlockRecv 1 False)]"
proof -
  obtain s where s: "relay_reach demo_cfg 1 s" "map_find (rl_services s) 80 = Some 0"
    "map_find (sv_sessions (rl_svc s 0)) 1 = Some 0" "map_find (rl_agents s) 1 \<noteq> None"
    "map_find (rl_agents s) 5 \<noteq> None" "rl_ses s 0 = new_session\<lparr>ss_seq := 1, ss_agent_id := 1\<rparr>"
    "rl_queue_limit s = 2"
    using demo_session by blast
  from resume_misdirected [OF s(4,5,2,3,7,6) refl refl, of demo_os "[]"] s(1) show ?thesis by blast
qed

subsection \<open>The end of a session\<close>

text \<open>A session is cleaned up when both ends have gone, and only then: its entry leaves the tables of
  its service and of its agent, and the user's connection is closed.\<close>

theorem clean_session:
  assumes "x = rl_ses s k" and "t = relay__CleanSession sid k s"
  shows "if ss_user_disconnected x \<and> ss_tunnel_disconnected x
    then map_find (sv_sessions (rl_svc t sid)) = (map_find (sv_sessions (rl_svc s sid)))(ss_seq x := None)
      \<and> srv_out (sv_tcpserver (rl_svc t sid)) = srv_out (sv_tcpserver (rl_svc s sid)) @ [SPost (SClose (ss_seq x))]
      \<and> map_option (\<lambda>a. map_find (ag_sessions a)) (map_find (rl_agents t) (ss_agent_id x))
        = map_option (\<lambda>a. (map_find (ag_sessions a))(ss_seq x := None)) (map_find (rl_agents s) (ss_agent_id x))
    else t = s"
  using assms
  by (auto simp: relay__CleanSession_def Let_def on_user_srv_def upd_svc_def upd_agent_def
      srv_CloseConn_def srv_emit_def split: option.split)

theorem clean_session_witness:
  "srv_out (sv_tcpserver (rl_svc (relay__CleanSession 0 0 ((new_relay demo_cfg 1)\<lparr>rl_ses :=
      (\<lambda>_. new_session\<lparr>ss_seq := 7, ss_user_disconnected := True, ss_tunnel_disconnected := True\<rparr>)\<rparr>)) 0))
    = [SPost (SClose 7)]"
  using clean_session [OF refl refl, of "(new_relay demo_cfg 1)\<lparr>rl_ses :=
      (\<lambda>_. new_session\<lparr>ss_seq := 7, ss_user_disconnected := True, ss_tunnel_disconnected := True\<rparr>)\<rparr>" 0 0]
  by (simp add: new_session_def new_relay_def blank_service_def new_server_def)

text \<open>C27: SESSION looks the session up under the agent's number instead of the user's.  When the agent's
  number is no user of the service, the user's live session is replaced by a blank one whose
  \<open>seq_\<close> is 0; when both ends then disconnect, the entry of the user stays in the service and
  connection 0 is closed in place of the user's.\<close>

theorem session_lookup_by_agent:
  assumes "map_find (rl_agents s) a \<noteq> None" and "map_find (rl_services s) port = Some sid"
    and "map_find (sv_sessions (rl_svc s sid)) uid = Some k" and "uid \<noteq> 0"
    and "map_find (sv_sessions (rl_svc s sid)) a = None"
    and "t = relay_on_session a port uid s"
    and "u = relay_on_disconnect port uid (relay__OnUserDisconnect sid uid e t)"
  shows "map_find (sv_sessions (rl_svc t sid)) uid = Some (rl_next_ses s)
    \<and> ss_seq (rl_ses t (rl_next_ses s)) = 0
    \<and> map_find (sv_sessions (rl_svc u sid)) uid = Some (rl_next_ses s)
    \<and> List.last (srv_out (sv_tcpserver (rl_svc u sid))) = SPost (SClose 0)"
proof -
  obtain ag where ag: "map_find (rl_agents s) a = Some ag" using assms(1) by blast
  let ?k = "rl_next_ses s"
  let ?x = "new_session\<lparr>ss_agent_id := a, ss_using_session_conn := True\<rparr>"
  have t: "rl_services t = rl_services s" "rl_ses t = (rl_ses s)(?k := ?x)"
    "sv_sessions (rl_svc t sid) = map_put uid ?k (sv_sessions (rl_svc s sid))"
    by (simp_all add: assms(6) relay_on_session_def ag assms(2,5) upd_agent_def upd_svc_def Let_def)
  have r: "rl_services (relay__OnUserDisconnect sid uid e t) = rl_services s"
    "sv_sessions (rl_svc (relay__OnUserDisconnect sid uid e t) sid) = map_put uid ?k (sv_sessions (rl_svc s sid))"
    "rl_ses (relay__OnUserDisconnect sid uid e t) ?k = ?x\<lparr>ss_user_disconnected := True\<rparr>"
    by (simp_all add: relay__OnUserDisconnect_def t upd_ses_def relay__CleanSession_def on_agent_srv_def
        new_session_def Let_def)
  show ?thesis
    using assms(2,4)
    by (simp add: assms(7) relay_on_disconnect_def r t upd_ses_def relay__CleanSession_def Let_def
        on_user_srv_def upd_svc_def upd_agent_def srv_CloseConn_def srv_emit_def new_session_def
        split: option.split)
qed

theorem session_lookup_by_agent_witness:
  "\<exists>s t. relay_reach demo_cfg 1 s \<and> t = relay_on_session 5 80 1 s \<and> ss_seq (rl_ses s 0) = 1
    \<and> map_find (sv_sessions (rl_svc t 0)) 1 = Some (rl_next_ses s) \<and> ss_seq (rl_ses t (rl_next_ses s)) = 0"
proof -
  obtain s where s: "relay_reach demo_cfg 1 s" "map_find (rl_services s) 80 = Some 0"
    "map_find (sv_sessions (rl_svc s 0)) 1 = Some 0" "map_find (rl_agents s) 5 \<noteq> None"
    "map_find (sv_sessions (rl_svc s 0)) 5 = None" "rl_ses s 0 = new_session\<lparr>ss_seq := 1, ss_agent_id := 1\<rparr>"
    using demo_session by blast
  have "(1::u32) \<noteq> 0" by simp
  from session_lookup_by_agent [OF s(4,2,3) this s(5) refl refl] s(1,6) show ?thesis by auto
qed

end
