(* ===== verification/AgentApp.thy ===== *)
theory AgentApp
  imports Protocol NetClient_Props Config FlowGate
begin

text \<open>
  \<^verbatim>\<open>AppLogic1\<close> of the agent (\<^verbatim>\<open>r-nat-c/app1/\<close>): the tunnels to the relays,
  the sessions of the users a relay has announced, each with a connection of its own to the relay
  and one to the local service, and the handlers of the three kinds of connections.  Remotes and
  sessions are shared (closures hold them), so they live in stores by address; a client belongs to
  one remote or one session and is a field of it.
\<close>

subsection \<open>State\<close>

type_synonym user = "u16 \<times> u32"

text \<open>The closures given to Send and SendV: the remote, the session and the user they capture.\<close>

datatype acompletion = ATunnelDone nat nat user | AUserDone nat nat user

type_synonym raw_cl = "(acompletion, unit) client"
type_synonym tcp_cl = "(acompletion, unit tcp_conn_ext) client"

record ases =
  as_user_conn :: raw_cl
  as_session_conn :: tcp_cl
  as_ready :: bool
  as_user_traffic :: u32
  as_tunnel_traffic :: u32
  as_user_corked :: bool
  as_tunnel_corked :: bool
  as_user_disconnected :: bool
  as_tunnel_disconnected :: bool
  as_tunnel_hard_disconnected :: bool

definition new_ases :: "raw_cl \<Rightarrow> tcp_cl \<Rightarrow> ases" where
  "new_ases u t = \<lparr>as_user_conn = u, as_session_conn = t, as_ready = False, as_user_traffic = 0,
     as_tunnel_traffic = 0, as_user_corked = False, as_tunnel_corked = False,
     as_user_disconnected = False, as_tunnel_disconnected = False, as_tunnel_hard_disconnected = False\<rparr>"

record remote =
  ri_ep :: endpoint
  ri_tcpclient :: tcp_cl
  ri_users :: "(user, nat) omap"

record agentapp =
  aa_config :: agent_config
  aa_ioservices :: nat
  aa_next_io :: nat                \<comment> \<open>\<open>Server::next_ioservice_\<close>\<close>
  aa_pooling :: bool
  aa_queue_limit :: u32
  aa_load_policy :: u32
  aa_service_ep :: "(u16, endpoint list) omap"
  aa_remote_ep :: "endpoint list"
  aa_relays :: "nat list"
  aa_remotes :: "nat \<Rightarrow> remote"
  aa_next_remote :: nat
  aa_ses :: "nat \<Rightarrow> ases"
  aa_next_ses :: nat
  aa_posted :: "nat list"          \<comment> \<open>remotes whose reconnect is posted to the strand\<close>

definition new_agentapp :: "agent_config \<Rightarrow> nat \<Rightarrow> agentapp" where
  "new_agentapp cfg n = \<lparr>aa_config = cfg, aa_ioservices = n, aa_next_io = 0, aa_pooling = True,
     aa_queue_limit = 0, aa_load_policy = 0, aa_service_ep = [], aa_remote_ep = [], aa_relays = [],
     aa_remotes = (\<lambda>_. \<lparr>ri_ep = Endpoint 0 0, ri_tcpclient = new_client, ri_users = []\<rparr>),
     aa_next_remote = 0, aa_ses = (\<lambda>_. new_ases new_client new_client), aa_next_ses = 0, aa_posted = []\<rparr>"

definition upd_remote :: "nat \<Rightarrow> (remote \<Rightarrow> remote) \<Rightarrow> agentapp \<Rightarrow> agentapp" where
  "upd_remote r f s = s\<lparr>aa_remotes := (aa_remotes s)(r := f (aa_remotes s r))\<rparr>"

definition upd_ases :: "nat \<Rightarrow> (ases \<Rightarrow> ases) \<Rightarrow> agentapp \<Rightarrow> agentapp" where
  "upd_ases k f s = s\<lparr>aa_ses := (aa_ses s)(k := f (aa_ses s k))\<rparr>"

text \<open>Calls on the clients of a remote and of a session.\<close>

definition on_tunnel :: "nat \<Rightarrow> (tcp_cl \<Rightarrow> tcp_cl result) \<Rightarrow> agentapp \<Rightarrow> agentapp result" where
  "on_tunnel r f s = and_then (f (ri_tcpclient (aa_remotes s r)))
     (\<lambda>t. Inr (upd_remote r (\<lambda>x. x\<lparr>ri_tcpclient := t\<rparr>) s))"

definition on_session_conn :: "nat \<Rightarrow> (tcp_cl \<Rightarrow> tcp_cl result) \<Rightarrow> agentapp \<Rightarrow> agentapp result" where
  "on_session_conn k f s = and_then (f (as_session_conn (aa_ses s k)))
     (\<lambda>t. Inr (upd_ases k (\<lambda>x. x\<lparr>as_session_conn := t\<rparr>) s))"

definition on_user_conn :: "nat \<Rightarrow> (raw_cl \<Rightarrow> raw_cl result) \<Rightarrow> agentapp \<Rightarrow> agentapp result" where
  "on_user_conn k f s = and_then (f (as_user_conn (aa_ses s k)))
     (\<lambda>t. Inr (upd_ases k (\<lambda>x. x\<lparr>as_user_conn := t\<rparr>) s))"

subsection \<open>Init\<close>

text \<open>\<open>(uint16_t)atol(s)\<close>.\<close>

definition atol_u16 :: "string \<Rightarrow> u16" where
  "atol_u16 str =
     (case read_number str of
        None \<Rightarrow> 0
      | Some (neg, None) \<Rightarrow> 0
      | Some (neg, Some n) \<Rightarrow>
          word_of_int (if neg then max (- (2 ^ 63)) (- int n) else min (2 ^ 63 - 1) (int n)))"

definition service_insert :: "u16 \<Rightarrow> endpoint \<Rightarrow> (u16, endpoint list) omap \<Rightarrow> (u16, endpoint list) omap" where
  "service_insert port ep m =
     map_put port (set_put ep (case map_find m port of None \<Rightarrow> [] | Some eps \<Rightarrow> eps)) m"

fun agent_resolve_locals :: "(string \<Rightarrow> string \<Rightarrow> endpoint list) \<Rightarrow> node_info list \<Rightarrow> agentapp \<Rightarrow> agentapp result" where
  "agent_resolve_locals resolve [] s = Inr s"
| "agent_resolve_locals resolve (l # ls) s =
     and_then (trim (cf_address l)) (\<lambda>address.
       agent_resolve_locals resolve ls
         (s\<lparr>aa_service_ep := fold (service_insert (atol_u16 (cf_service_port l)))
              (resolve address (cf_port l)) (aa_service_ep s)\<rparr>))"

fun agent_resolve_remotes :: "(string \<Rightarrow> string \<Rightarrow> endpoint list) \<Rightarrow> node_info list \<Rightarrow> agentapp \<Rightarrow> agentapp result" where
  "agent_resolve_remotes resolve [] s = Inr s"
| "agent_resolve_remotes resolve (l # ls) s =
     and_then (trim (cf_address l)) (\<lambda>address.
       agent_resolve_remotes resolve ls
         (s\<lparr>aa_remote_ep := aa_remote_ep s
              @ concat (map (replicate (unat (cf_concurrency l))) (resolve address (cf_port l)))\<rparr>))"

definition agent_Init :: "(string \<Rightarrow> string \<Rightarrow> endpoint list) \<Rightarrow> agentapp \<Rightarrow> (bool \<times> agentapp) result" where
  "agent_Init resolve s =
     (let s = s\<lparr>aa_load_policy := LoadPolicy (ac_system (aa_config s)),
                aa_queue_limit := cf_queue_limit (ac_system (aa_config s))\<rparr>
      in and_then (agent_resolve_locals resolve (ac_locals (aa_config s)) s) (\<lambda>s.
           if length (aa_service_ep s) = 0 then Inr (False, s)
           else and_then (agent_resolve_remotes resolve (ac_remotes (aa_config s)) s) (\<lambda>s.
             if length (aa_remote_ep s) = 0 then Inr (False, s) else Inr (True, s))))"

subsection \<open>Clients\<close>

definition Server_GetIoService :: "agentapp \<Rightarrow> (nat \<times> agentapp) result" where
  "Server_GetIoService s =
     (let next = aa_next_io s; s = s\<lparr>aa_next_io := Suc next\<rparr>
      in if aa_ioservices s = 0 then Inl DivideByZero else Inr (next mod aa_ioservices s, s))"

definition client_callbacks :: "('p, 'z) client \<Rightarrow> ('p, 'z) client" where
  "client_callbacks t = t\<lparr>tc_on_connect := True, tc_on_disconnect := True, tc_on_recv := True\<rparr>"

definition agent__CreateTcpClient :: "agentapp \<Rightarrow> (tcp_cl \<times> agentapp) result" where
  "agent__CreateTcpClient s =
     and_then (Server_GetIoService s) (\<lambda>(_, s).
       let sys = ac_system (aa_config s)
       in Inr (tcp_client_SetDefragment (cf_packet_defragment sys)
                 (client_SetConnectTimeout (cf_tcp_connect_timeout sys)
                   (client_SetRecvbufSize (ucast (cf_recv_buf_size sys))
                     (client_SetNoDelay (cf_tcp_send_no_delay sys)
                       (client_SetMaxPacketLength (cf_max_packet_size sys) new_client)))), s))"

definition agent__CreateRawTcpClient :: "agentapp \<Rightarrow> (raw_cl \<times> agentapp) result" where
  "agent__CreateRawTcpClient s =
     and_then (Server_GetIoService s) (\<lambda>(_, s).
       let sys = ac_system (aa_config s)
       in Inr (client_SetConnectTimeout (cf_tcp_connect_timeout sys)
                 (client_SetRecvbufSize (ucast (cf_recv_buf_size sys))
                   (client_SetNoDelay (cf_tcp_send_no_delay sys)
                     (client_SetMaxPacketLength (cf_max_packet_size sys) new_client))), s))"

definition agent__CreateTunnelConn :: "agentapp \<Rightarrow> (tcp_cl \<times> agentapp) result" where
  "agent__CreateTunnelConn s = and_then (agent__CreateTcpClient s) (\<lambda>(t, s). Inr (client_callbacks t, s))"

definition agent__CreateSessionTunnelConn :: "agentapp \<Rightarrow> (tcp_cl \<times> agentapp) result" where
  "agent__CreateSessionTunnelConn s = and_then (agent__CreateTcpClient s) (\<lambda>(t, s). Inr (client_callbacks t, s))"

definition agent__CreateUserConn :: "agentapp \<Rightarrow> (raw_cl \<times> agentapp) result" where
  "agent__CreateUserConn s = and_then (agent__CreateRawTcpClient s) (\<lambda>(t, s). Inr (client_callbacks t, s))"

subsection \<open>Start and Stop\<close>

definition agent_add_relay :: "endpoint \<Rightarrow> agentapp \<Rightarrow> agentapp result" where
  "agent_add_relay ep s =
     and_then (agent__CreateTunnelConn s) (\<lambda>(t, s).
       let r = aa_next_remote s
       in Inr (s\<lparr>aa_remotes := (aa_remotes s)(r := \<lparr>ri_ep = ep, ri_tcpclient = t, ri_users = []\<rparr>),
                 aa_next_remote := Suc r, aa_relays := aa_relays s @ [r]\<rparr>))"

definition agent_start_tunnel :: "nat \<Rightarrow> agentapp \<Rightarrow> agentapp result" where
  "agent_start_tunnel r s = on_tunnel r (client_Start new_tcp_conn (ri_ep (aa_remotes s r))) s"

definition agent_Start :: "agentapp \<Rightarrow> agentapp result" where
  "agent_Start s =
     and_then (fold_result agent_add_relay (aa_remote_ep s) (s\<lparr>aa_pooling := True\<rparr>)) (\<lambda>s.
       fold_result agent_start_tunnel (aa_relays s) s)"

definition agent_Stop :: "agentapp \<Rightarrow> agentapp" where
  "agent_Stop s =
     (let s = fold (\<lambda>r. upd_remote r (\<lambda>x. x\<lparr>ri_tcpclient := tcp_client_Close (ri_tcpclient x)\<rparr>))
                (aa_relays s) (s\<lparr>aa_pooling := False\<rparr>)
      in s\<lparr>aa_relays := []\<rparr>)"

subsection \<open>Sessions\<close>

definition close_user_conn :: "ases \<Rightarrow> ases" where
  "close_user_conn x = x\<lparr>as_user_conn := raw_client_Close (as_user_conn x)\<rparr>"

definition close_session_conn :: "ases \<Rightarrow> ases" where
  "close_session_conn x = x\<lparr>as_session_conn := tcp_client_Close (as_session_conn x)\<rparr>"

definition agent__CleanSession :: "nat \<Rightarrow> nat \<Rightarrow> user \<Rightarrow> agentapp \<Rightarrow> agentapp" where
  "agent__CleanSession r k usr s =
     (if as_user_disconnected (aa_ses s k) \<and> as_tunnel_disconnected (aa_ses s k)
      then upd_remote r (\<lambda>x. x\<lparr>ri_users := map_erase usr (ri_users x)\<rparr>)
             (upd_ases k (\<lambda>x. close_session_conn (close_user_conn x)) s)
      else s)"

definition ases_tunnel_submit :: "u32 \<Rightarrow> ases \<Rightarrow> ases" where
  "ases_tunnel_submit limit x =
     (let x = x\<lparr>as_tunnel_traffic := as_tunnel_traffic x + 1\<rparr>
      in if must_cork limit (as_tunnel_corked x) (as_tunnel_traffic x)
         then x\<lparr>as_tunnel_corked := True,
                as_session_conn := client_BlockRecv True (as_session_conn x)\<rparr> else x)"

definition ases_tunnel_complete :: "u32 \<Rightarrow> ases \<Rightarrow> ases" where
  "ases_tunnel_complete limit x =
     (let x = x\<lparr>as_tunnel_traffic := as_tunnel_traffic x - 1\<rparr>
      in if must_uncork limit (as_tunnel_corked x) (as_tunnel_traffic x)
         then x\<lparr>as_tunnel_corked := False,
                as_session_conn := client_BlockRecv False (as_session_conn x)\<rparr> else x)"

definition ases_user_submit :: "u32 \<Rightarrow> ases \<Rightarrow> ases" where
  "ases_user_submit limit x =
     (let x = x\<lparr>as_user_traffic := as_user_traffic x + 1\<rparr>
      in if must_cork limit (as_user_corked x) (as_user_traffic x)
         then x\<lparr>as_user_corked := True, as_user_conn := client_BlockRecv True (as_user_conn x)\<rparr> else x)"

definition ases_user_complete :: "u32 \<Rightarrow> ases \<Rightarrow> ases" where
  "ases_user_complete limit x =
     (let x = x\<lparr>as_user_traffic := as_user_traffic x - 1\<rparr>
      in if must_uncork limit (as_user_corked x) (as_user_traffic x)
         then x\<lparr>as_user_corked := False, as_user_conn := client_BlockRecv False (as_user_conn x)\<rparr> else x)"

text \<open>The two closures; both read \<open>queue_limit_\<close> when they run.  The connections post them to their
  own \<open>io_service\<close>, not to the strand of the program; each is one step between two handlers here, and
  \<^verbatim>\<open>FlowRace\<close> has the statements of handler and closure interleaved.\<close>

definition agent_tunnel_done :: "nat \<Rightarrow> nat \<Rightarrow> user \<Rightarrow> agentapp \<Rightarrow> agentapp" where
  "agent_tunnel_done r k usr s =
     agent__CleanSession r k usr (upd_ases k (ases_tunnel_complete (aa_queue_limit s)) s)"

definition agent_user_done :: "nat \<Rightarrow> nat \<Rightarrow> user \<Rightarrow> agentapp \<Rightarrow> agentapp" where
  "agent_user_done r k usr s =
     agent__CleanSession r k usr (upd_ases k (ases_user_complete (aa_queue_limit s)) s)"

fun agent_run_completion :: "acompletion \<Rightarrow> agentapp \<Rightarrow> agentapp" where
  "agent_run_completion (ATunnelDone r k usr) s = agent_tunnel_done r k usr s"
| "agent_run_completion (AUserDone r k usr) s = agent_user_done r k usr s"

subsection \<open>The tunnel to the relay\<close>

definition agent__OnServerConnect :: "nat \<Rightarrow> agentapp \<Rightarrow> agentapp result" where
  "agent__OnServerConnect r s =
     fold_result (\<lambda>ep. on_tunnel r
         (client_Send (a2r_encode (A2R_bind (atol_u16 (cf_service_port ep)))) None))
       (ac_locals (aa_config s)) s"

definition agent__OnServerDisconnect :: "err \<Rightarrow> nat \<Rightarrow> agentapp \<Rightarrow> agentapp" where
  "agent__OnServerDisconnect e r s =
     (let s = fold (\<lambda>(_, k). upd_ases k (\<lambda>x. close_session_conn (close_user_conn x)))
                (ri_users (aa_remotes s r)) s;
          s = upd_remote r (\<lambda>x. x\<lparr>ri_users := []\<rparr>) s
      in s\<lparr>aa_posted := aa_posted s @ [r]\<rparr>)"

text \<open>The closure it posts.\<close>

definition agent_reconnect :: "nat \<Rightarrow> agentapp \<Rightarrow> agentapp result" where
  "agent_reconnect r s =
     and_then (agent__CreateTunnelConn s) (\<lambda>(t, s).
       agent_start_tunnel r (upd_remote r (\<lambda>x. x\<lparr>ri_tcpclient := t\<rparr>) s))"

definition agent_on_data :: "nat \<Rightarrow> user \<Rightarrow> bytes \<Rightarrow> agentapp \<Rightarrow> agentapp result" where
  "agent_on_data r usr payload s =
     (case map_find (ri_users (aa_remotes s r)) usr of
        None \<Rightarrow> Inr s
      | Some k \<Rightarrow>
          on_user_conn k (client_Send payload (Some (ATunnelDone r k usr)))
            (upd_ases k (ases_tunnel_submit (aa_queue_limit s)) s))"

definition agent_pick :: "u32 \<Rightarrow> u32 \<Rightarrow> u32 \<Rightarrow> endpoint list \<Rightarrow> endpoint" where
  "agent_pick policy uid ip eps =
     (let cli_index = (if policy = CONFIG_LOAD_POLICY_IP then fnv_hash_int ip else uid)
      in eps ! (unat cli_index mod length eps))"

definition agent_on_connect :: "nat \<Rightarrow> user \<Rightarrow> u32 \<Rightarrow> agentapp \<Rightarrow> agentapp result" where
  "agent_on_connect r usr ip s =
     (case map_find (ri_users (aa_remotes s r)) usr of
        Some _ \<Rightarrow> Inr s
      | None \<Rightarrow>
          (case map_find (aa_service_ep s) (fst usr) of
             None \<Rightarrow> Inr s
           | Some eps \<Rightarrow>
               if length eps = 0 then Inr s
               else let service_ep = agent_pick (aa_load_policy s) (snd usr) ip eps in
                 and_then (agent__CreateSessionTunnelConn s) (\<lambda>(t, s).
                 and_then (agent__CreateUserConn s) (\<lambda>(u, s).
                   let k = aa_next_ses s;
                       s = s\<lparr>aa_ses := (aa_ses s)(k := new_ases u t), aa_next_ses := Suc k\<rparr>;
                       s = upd_remote r (\<lambda>x. x\<lparr>ri_users := map_put usr k (ri_users x)\<rparr>) s
                   in and_then (on_session_conn k (client_Start new_tcp_conn (ri_ep (aa_remotes s r))) s)
                        (on_user_conn k (client_Start new_raw_conn service_ep))))))"

definition agent_on_disconnect :: "nat \<Rightarrow> user \<Rightarrow> agentapp \<Rightarrow> agentapp" where
  "agent_on_disconnect r usr s =
     (case map_find (ri_users (aa_remotes s r)) usr of
        None \<Rightarrow> s
      | Some k \<Rightarrow>
          agent__CleanSession r k usr
            (upd_ases k (\<lambda>x. (close_session_conn x)\<lparr>as_tunnel_disconnected := True\<rparr>) s))"

text \<open>BIND and UNBIND acknowledgements are printed, nothing else.\<close>

definition agent__OnServerRecv :: "bytes \<Rightarrow> nat \<Rightarrow> agentapp \<Rightarrow> agentapp result" where
  "agent__OnServerRecv data r s =
     (case r2a_decode data of
        None \<Rightarrow> Inr s
      | Some (R2A_bind port err) \<Rightarrow> Inr s
      | Some (R2A_unbind port err) \<Rightarrow> Inr s
      | Some (R2A_data port uid) \<Rightarrow>
          agent_on_data r (port, uid) (drop (r2a_sizeof (R2A_data port uid)) data) s
      | Some (R2A_connect port uid ip uport) \<Rightarrow> agent_on_connect r (port, uid) ip s
      | Some (R2A_disconnect port uid) \<Rightarrow> Inr (agent_on_disconnect r (port, uid) s))"

subsection \<open>The session connection to the relay\<close>

definition agent__OnSessionConnect :: "nat \<Rightarrow> nat \<Rightarrow> user \<Rightarrow> agentapp \<Rightarrow> agentapp result" where
  "agent__OnSessionConnect r k usr s =
     and_then (on_session_conn k (client_Send (a2r_encode (A2R_session (fst usr) (snd usr))) None) s)
       (\<lambda>s. Inr (upd_ases k (\<lambda>x. x\<lparr>as_ready := True\<rparr>) s))"

definition agent__OnSessionDisconnect :: "err \<Rightarrow> nat \<Rightarrow> nat \<Rightarrow> user \<Rightarrow> agentapp \<Rightarrow> agentapp" where
  "agent__OnSessionDisconnect e r k usr s =
     agent__CleanSession r k usr
       (upd_ases k (\<lambda>x. (close_session_conn x)\<lparr>as_tunnel_disconnected := True,
          as_tunnel_hard_disconnected := True\<rparr>) s)"

definition agent__OnSessionRecv :: "bytes \<Rightarrow> nat \<Rightarrow> nat \<Rightarrow> user \<Rightarrow> agentapp \<Rightarrow> agentapp result" where
  "agent__OnSessionRecv data r k usr s =
     (case r2a_decode data of
        Some (R2A_data port uid) \<Rightarrow>
          agent_on_data r (port, uid) (drop (r2a_sizeof (R2A_data port uid)) data) s
      | Some (R2A_disconnect port uid) \<Rightarrow> Inr (agent_on_disconnect r (port, uid) s)
      | _ \<Rightarrow> Inr s)"

subsection \<open>The connection to the service\<close>

definition agent__OnUserConnect :: "nat \<Rightarrow> nat \<Rightarrow> user \<Rightarrow> agentapp \<Rightarrow> agentapp" where
  "agent__OnUserConnect r k usr s = s"

text \<open>\<open>session_conn_ready_ ? session_conn_ : tcpclient_\<close>.\<close>

definition agent_to_relay :: "nat \<Rightarrow> nat \<Rightarrow> (tcp_cl \<Rightarrow> tcp_cl result) \<Rightarrow> agentapp \<Rightarrow> agentapp result" where
  "agent_to_relay r k f s = (if as_ready (aa_ses s k) then on_session_conn k f s else on_tunnel r f s)"

definition agent__OnUserDisconnect :: "err \<Rightarrow> nat \<Rightarrow> nat \<Rightarrow> user \<Rightarrow> agentapp \<Rightarrow> agentapp result" where
  "agent__OnUserDisconnect e r k usr s =
     (let s = upd_ases k (\<lambda>x. (close_user_conn x)\<lparr>as_user_disconnected := True\<rparr>) s
      in and_then (agent_to_relay r k
             (client_Send (a2r_encode (A2R_disconnect (fst usr) (snd usr))) None) s)
           (\<lambda>s. Inr (agent__CleanSession r k usr s)))"

definition agent__OnUserRecv :: "bytes \<Rightarrow> nat \<Rightarrow> nat \<Rightarrow> user \<Rightarrow> agentapp \<Rightarrow> agentapp result" where
  "agent__OnUserRecv data r k usr s =
     agent_to_relay r k
       (client_SendV [a2r_encode (A2R_data (fst usr) (snd usr)), data] (Some (AUserDone r k usr)))
       (upd_ases k (ases_user_submit (aa_queue_limit s)) s)"

subsection \<open>The handlers as events\<close>

text \<open>\<open>ATunnelNet\<close>, \<open>ASessionNet\<close> and \<open>AUserNet\<close> are the handlers of the clients
  themselves.\<close>

datatype agent_event =
  AServerConnect nat
| AServerDisconnect err nat
| AServerRecv bytes nat
| AReconnect nat
| ASessionConnect nat nat user
| ASessionDisconnect err nat nat user
| ASessionRecv bytes nat nat user
| AUserConnect nat nat user
| AUserDisconnect err nat nat user
| AUserRecv bytes nat nat user
| ACompletion acompletion
| ATunnelNet nat "acompletion client_event"
| ASessionNet nat "acompletion client_event"
| AUserNet nat "acompletion client_event"

definition impl_step :: "(('p, 'z) client_conn \<Rightarrow> ('p, 'z) client_conn result) \<Rightarrow> ('p, 'z) client \<Rightarrow> ('p, 'z) client result" where
  "impl_step f t = (case tc_impl t of
     None \<Rightarrow> Inr t | Some c \<Rightarrow> and_then (f c) (\<lambda>c. Inr (t\<lparr>tc_impl := Some c\<rparr>)))"

fun agent_handle :: "agent_event \<Rightarrow> agentapp \<Rightarrow> agentapp result" where
  "agent_handle (AServerConnect r) s = agent__OnServerConnect r s"
| "agent_handle (AServerDisconnect e r) s = Inr (agent__OnServerDisconnect e r s)"
| "agent_handle (AServerRecv data r) s = agent__OnServerRecv data r s"
| "agent_handle (AReconnect r) s = agent_reconnect r (s\<lparr>aa_posted := remove1 r (aa_posted s)\<rparr>)"
| "agent_handle (ASessionConnect r k usr) s = agent__OnSessionConnect r k usr s"
| "agent_handle (ASessionDisconnect e r k usr) s = Inr (agent__OnSessionDisconnect e r k usr s)"
| "agent_handle (ASessionRecv data r k usr) s = agent__OnSessionRecv data r k usr s"
| "agent_handle (AUserConnect r k usr) s = Inr (agent__OnUserConnect r k usr s)"
| "agent_handle (AUserDisconnect e r k usr) s = agent__OnUserDisconnect e r k usr s"
| "agent_handle (AUserRecv data r k usr) s = agent__OnUserRecv data r k usr s"
| "agent_handle (ACompletion c) s = Inr (agent_run_completion c s)"
| "agent_handle (ATunnelNet r ev) s = on_tunnel r (impl_step (client_step tcp_step tcp__DoRecv ev)) s"
| "agent_handle (ASessionNet k ev) s = on_session_conn k (impl_step (client_step tcp_step tcp__DoRecv ev)) s"
| "agent_handle (AUserNet k ev) s = on_user_conn k (impl_step (client_step raw_step raw__DoRecv ev)) s"

end
