(* ===== verification/AgentInv.thy ===== *)
theory AgentInv
  imports AgentApp
begin

text \<open>
  The invariant of the agent: every client the handlers call has been started (its \<open>impl_\<close> is
  never null), every session belongs to one user of one remote, and both directions of a session
  keep \<open>flow_gate\<close>.  \<open>ases_ok\<close> is the part of it about one session, \<open>aframe\<close> what
  almost every operation does.
\<close>

subsection \<open>Both directions keep the flow-control contract\<close>

interpretation agent_tunnel: flow_gate limit as_tunnel_traffic as_tunnel_corked
    "ases_tunnel_submit limit" "ases_tunnel_complete limit" for limit
  by unfold_locales (auto simp: ases_tunnel_submit_def ases_tunnel_complete_def Let_def
      must_cork_def must_uncork_def)

interpretation agent_user: flow_gate limit as_user_traffic as_user_corked
    "ases_user_submit limit" "ases_user_complete limit" for limit
  by unfold_locales (auto simp: ases_user_submit_def ases_user_complete_def Let_def
      must_cork_def must_uncork_def)

definition started :: "('p, 'z) client \<Rightarrow> bool" where
  "started t \<longleftrightarrow> tc_impl t \<noteq> None"

definition has_impls :: "ases \<Rightarrow> bool" where
  "has_impls x \<longleftrightarrow> started (as_user_conn x) \<and> started (as_session_conn x)"

definition ases_ok :: "u32 \<Rightarrow> ases \<Rightarrow> bool" where
  "ases_ok l x \<longleftrightarrow> has_impls x \<and> agent_tunnel.gate_ok l x \<and> agent_user.gate_ok l x"

lemma started_on_impl [simp]: "started (on_impl f t) = started t"
  by (simp add: started_def on_impl_def split: option.split)

lemma started_close [simp]:
  "started (tcp_client_Close t) = started t" "started (raw_client_Close u) = started u"
  "started (client_BlockRecv b u) = started u"
  by (simp_all add: tcp_client_Close_def raw_client_Close_def client_BlockRecv_def)

lemma ases_ok_close [simp]:
  "ases_ok l (close_user_conn x) = ases_ok l x" "ases_ok l (close_session_conn x) = ases_ok l x"
  by (simp_all add: ases_ok_def has_impls_def close_user_conn_def close_session_conn_def
      agent_tunnel.gate_ok_def agent_user.gate_ok_def)

lemma ases_ok_flags [simp]:
  "ases_ok l (x\<lparr>as_ready := a\<rparr>) = ases_ok l x" "ases_ok l (x\<lparr>as_user_disconnected := a\<rparr>) = ases_ok l x"
  "ases_ok l (x\<lparr>as_tunnel_disconnected := a\<rparr>) = ases_ok l x"
  "ases_ok l (x\<lparr>as_tunnel_hard_disconnected := a\<rparr>) = ases_ok l x"
  by (simp_all add: ases_ok_def has_impls_def agent_tunnel.gate_ok_def agent_user.gate_ok_def)

lemma ases_ok_clients:
  "started t \<Longrightarrow> ases_ok l x \<Longrightarrow> ases_ok l (x\<lparr>as_session_conn := t\<rparr>)"
  "started u \<Longrightarrow> ases_ok l x \<Longrightarrow> ases_ok l (x\<lparr>as_user_conn := u\<rparr>)"
  by (simp_all add: ases_ok_def has_impls_def agent_tunnel.gate_ok_def agent_user.gate_ok_def)

lemma ases_ok_tunnel_complete: "ases_ok l x \<Longrightarrow> ases_ok l (ases_tunnel_complete l x)"
  using agent_tunnel.complete_ok [of l x]
  by (auto simp: ases_ok_def has_impls_def agent_user.gate_ok_def ases_tunnel_complete_def Let_def)

lemma ases_ok_user_complete: "ases_ok l x \<Longrightarrow> ases_ok l (ases_user_complete l x)"
  using agent_user.complete_ok [of l x]
  by (auto simp: ases_ok_def has_impls_def agent_tunnel.gate_ok_def ases_user_complete_def Let_def)

lemma ases_ok_tunnel_submit:
  "ases_ok l x \<Longrightarrow> as_tunnel_traffic x \<noteq> - 1 \<Longrightarrow> ases_ok l (ases_tunnel_submit l x)"
  using agent_tunnel.submit_ok [of l x]
  by (auto simp: ases_ok_def has_impls_def agent_user.gate_ok_def ases_tunnel_submit_def Let_def)

lemma ases_ok_user_submit:
  "ases_ok l x \<Longrightarrow> as_user_traffic x \<noteq> - 1 \<Longrightarrow> ases_ok l (ases_user_submit l x)"
  using agent_user.submit_ok [of l x]
  by (auto simp: ases_ok_def has_impls_def agent_tunnel.gate_ok_def ases_user_submit_def Let_def)

lemma ases_ok_new: "started u \<Longrightarrow> started t \<Longrightarrow> ases_ok l (new_ases u t)"
  by (simp add: ases_ok_def has_impls_def new_ases_def agent_tunnel.gate_ok_def agent_user.gate_ok_def)

subsection \<open>Clients\<close>

lemma client_Start_eq:
  assumes "socket blank = Some b"
  shows "\<exists>u. client_Start blank ep t = Inr u \<and> started u"
  by (auto simp: started_def client_Start_def client_conn_Start_def new_client_conn_def conn_bind_def
      on_base_def emit_def conn_SetMaxPacketLength_def conn_SetRecvbufSize_def
      client_conn_SetConnectTimeout_def Let_def assms)

lemma client_Start_ok:
  assumes "socket blank \<noteq> None"
  obtains u where "client_Start blank ep t = Inr u" "started u"
  using assms client_Start_eq [of blank] that by fastforce

lemma client_Send_ok:
  assumes "started t"
  obtains u where "client_Send data pfn t = Inr u" "started u"
  using assms that by (auto simp: started_def client_Send_def)

lemma client_SendV_ok:
  assumes "started t"
  obtains u where "client_SendV datas pfn t = Inr u" "started u"
  using assms that by (auto simp: started_def client_SendV_def)

lemma impl_step_keeps: "impl_step f t = Inr u \<Longrightarrow> started t \<Longrightarrow> started u"
  by (auto simp: started_def impl_step_def and_then_eq_Inr split: option.splits)

subsection \<open>The frame of an operation\<close>

definition aframe :: "agentapp \<Rightarrow> agentapp \<Rightarrow> bool" where
  "aframe s t \<longleftrightarrow> aa_next_remote t = aa_next_remote s \<and> aa_next_ses t = aa_next_ses s
     \<and> aa_ioservices t = aa_ioservices s \<and> aa_queue_limit t = aa_queue_limit s
     \<and> (\<forall>r. started (ri_tcpclient (aa_remotes s r)) \<longrightarrow> started (ri_tcpclient (aa_remotes t r)))
     \<and> (\<forall>k. ases_ok (aa_queue_limit s) (aa_ses s k) \<longrightarrow> ases_ok (aa_queue_limit s) (aa_ses t k))
     \<and> (\<forall>r. set (ri_users (aa_remotes t r)) \<subseteq> set (ri_users (aa_remotes s r)))"

lemma aframe_refl [simp, intro]: "aframe s s"
  by (simp add: aframe_def)

lemma aframe_trans: "aframe s t \<Longrightarrow> aframe t u \<Longrightarrow> aframe s u"
  unfolding aframe_def by (metis (no_types, lifting) subset_trans)

lemma aframe_upd_ases:
  "(\<And>x. ases_ok (aa_queue_limit s) x \<Longrightarrow> ases_ok (aa_queue_limit s) (f x)) \<Longrightarrow> aframe s (upd_ases k f s)"
  by (simp add: aframe_def upd_ases_def)

lemma aframe_upd_remote:
  "(\<And>x. started (ri_tcpclient x) \<Longrightarrow> started (ri_tcpclient (f x))) \<Longrightarrow>
   (\<And>x. set (ri_users (f x)) \<subseteq> set (ri_users x)) \<Longrightarrow> aframe s (upd_remote r f s)"
  by (simp add: aframe_def upd_remote_def)

lemma aframe_misc [simp]: "aframe s (s\<lparr>aa_posted := x\<rparr>)" "aframe s (s\<lparr>aa_next_io := n\<rparr>)"
  by (simp_all add: aframe_def)

lemma aframe_CleanSession: "aframe s (agent__CleanSession r k usr s)"
proof -
  have "aframe s (upd_ases k (\<lambda>x. close_session_conn (close_user_conn x)) s)" by (rule aframe_upd_ases) simp
  moreover have "aframe t (upd_remote r (\<lambda>x. x\<lparr>ri_users := map_erase usr (ri_users x)\<rparr>) t)" for t
    by (rule aframe_upd_remote) auto
  ultimately show ?thesis by (auto simp: agent__CleanSession_def intro: aframe_trans)
qed

lemma aframe_completion: "aframe s (agent_run_completion c s)"
  by (cases c) (auto simp: agent_tunnel_done_def agent_user_done_def
      intro!: aframe_trans [OF aframe_upd_ases aframe_CleanSession] ases_ok_tunnel_complete ases_ok_user_complete)

lemma aframe_OnServerDisconnect: "aframe s (agent__OnServerDisconnect e r s)"
proof -
  have f: "aframe s (fold (\<lambda>(_, k). upd_ases k (\<lambda>x. close_session_conn (close_user_conn x))) us s)" for us
  proof (induction us arbitrary: s)
    case (Cons u us)
    obtain v k where u: "u = (v, k)" by (cases u)
    have "aframe s (upd_ases k (\<lambda>x. close_session_conn (close_user_conn x)) s)" by (rule aframe_upd_ases) simp
    from aframe_trans [OF this Cons.IH] show ?case by (simp add: u)
  qed simp
  have g: "aframe t (upd_remote r (\<lambda>x. x\<lparr>ri_users := []\<rparr>) t)" for t by (rule aframe_upd_remote) auto
  show ?thesis unfolding agent__OnServerDisconnect_def Let_def
    by (rule aframe_trans [OF aframe_trans [OF f g] aframe_misc(1)])
qed

lemma aframe_on_disconnect: "aframe s (agent_on_disconnect r usr s)"
  by (auto simp: agent_on_disconnect_def split: option.split
      intro!: aframe_trans [OF aframe_upd_ases aframe_CleanSession])

lemma aframe_OnSessionDisconnect: "aframe s (agent__OnSessionDisconnect e r k usr s)"
  unfolding agent__OnSessionDisconnect_def
  by (rule aframe_trans [OF aframe_upd_ases aframe_CleanSession]) simp

text \<open>A call on a client that has been started.\<close>

lemma on_tunnel_frame:
  assumes "f (ri_tcpclient (aa_remotes s r)) = Inr t" and "started t"
  obtains u where "on_tunnel r f s = Inr u" "aframe s u"
proof -
  have "aframe s (upd_remote r (\<lambda>x. x\<lparr>ri_tcpclient := t\<rparr>) s)"
    using assms(2) by (intro aframe_upd_remote) simp_all
  with that assms(1) show ?thesis by (simp add: on_tunnel_def)
qed

lemma on_session_conn_frame:
  assumes "f (as_session_conn (aa_ses s k)) = Inr t" and "started t"
  obtains u where "on_session_conn k f s = Inr u" "aframe s u"
proof -
  have "aframe s (upd_ases k (\<lambda>x. x\<lparr>as_session_conn := t\<rparr>) s)"
    using assms(2) by (intro aframe_upd_ases ases_ok_clients)
  with that assms(1) show ?thesis by (simp add: on_session_conn_def)
qed

lemma on_user_conn_frame:
  assumes "f (as_user_conn (aa_ses s k)) = Inr t" and "started t"
  obtains u where "on_user_conn k f s = Inr u" "aframe s u"
proof -
  have "aframe s (upd_ases k (\<lambda>x. x\<lparr>as_user_conn := t\<rparr>) s)"
    using assms(2) by (intro aframe_upd_ases ases_ok_clients)
  with that assms(1) show ?thesis by (simp add: on_user_conn_def)
qed

subsection \<open>The invariant\<close>

definition agent_inv :: "agentapp \<Rightarrow> bool" where
  "agent_inv s \<longleftrightarrow> aa_ioservices s \<noteq> 0
     \<and> (\<forall>r < aa_next_remote s. started (ri_tcpclient (aa_remotes s r)))
     \<and> (\<forall>k < aa_next_ses s. ases_ok (aa_queue_limit s) (aa_ses s k))
     \<and> (\<forall>r u k. r < aa_next_remote s \<and> (u, k) \<in> set (ri_users (aa_remotes s r)) \<longrightarrow> k < aa_next_ses s)
     \<and> (\<forall>r r' u u' k. r < aa_next_remote s \<and> r' < aa_next_remote s \<and> (u, k) \<in> set (ri_users (aa_remotes s r))
          \<and> (u', k) \<in> set (ri_users (aa_remotes s r')) \<longrightarrow> r = r' \<and> u = u')"

lemma agent_invD:
  assumes "agent_inv s"
  shows "aa_ioservices s \<noteq> 0"
    and "r < aa_next_remote s \<Longrightarrow> started (ri_tcpclient (aa_remotes s r))"
    and "k < aa_next_ses s \<Longrightarrow> ases_ok (aa_queue_limit s) (aa_ses s k)"
    and "r < aa_next_remote s \<Longrightarrow> (u, k) \<in> set (ri_users (aa_remotes s r)) \<Longrightarrow> k < aa_next_ses s"
    and "r < aa_next_remote s \<Longrightarrow> r' < aa_next_remote s \<Longrightarrow> (u, k) \<in> set (ri_users (aa_remotes s r)) \<Longrightarrow>
      (u', k) \<in> set (ri_users (aa_remotes s r')) \<Longrightarrow> r = r' \<and> u = u'"
  using assms unfolding agent_inv_def by blast+

lemma agent_invI:
  assumes "aa_ioservices s \<noteq> 0"
    and "\<And>r. r < aa_next_remote s \<Longrightarrow> started (ri_tcpclient (aa_remotes s r))"
    and "\<And>k. k < aa_next_ses s \<Longrightarrow> ases_ok (aa_queue_limit s) (aa_ses s k)"
    and "\<And>r u k. r < aa_next_remote s \<Longrightarrow> (u, k) \<in> set (ri_users (aa_remotes s r)) \<Longrightarrow> k < aa_next_ses s"
    and "\<And>r r' u u' k. r < aa_next_remote s \<Longrightarrow> r' < aa_next_remote s \<Longrightarrow> (u, k) \<in> set (ri_users (aa_remotes s r)) \<Longrightarrow>
      (u', k) \<in> set (ri_users (aa_remotes s r')) \<Longrightarrow> r = r' \<and> u = u'"
  shows "agent_inv s"
  unfolding agent_inv_def using assms by blast

lemma agent_inv_frame:
  assumes inv: "agent_inv s" and fr: "aframe s t"
  shows "agent_inv t"
proof (rule agent_invI)
  note D = agent_invD [OF inv]
  have f: "aa_next_remote t = aa_next_remote s" "aa_next_ses t = aa_next_ses s"
    "aa_ioservices t = aa_ioservices s" "aa_queue_limit t = aa_queue_limit s"
    "started (ri_tcpclient (aa_remotes s r)) \<Longrightarrow> started (ri_tcpclient (aa_remotes t r))"
    "ases_ok (aa_queue_limit s) (aa_ses s k) \<Longrightarrow> ases_ok (aa_queue_limit s) (aa_ses t k)"
    "x \<in> set (ri_users (aa_remotes t r)) \<Longrightarrow> x \<in> set (ri_users (aa_remotes s r))" for r k x
    using fr unfolding aframe_def by auto
  show "aa_ioservices t \<noteq> 0" using D(1) f by simp
  { fix r assume "r < aa_next_remote t"
    then show "started (ri_tcpclient (aa_remotes t r))" using f(5) D(2) f(1) by simp }
  { fix k assume "k < aa_next_ses t"
    then show "ases_ok (aa_queue_limit t) (aa_ses t k)" using f(6) D(3) f(2,4) by simp }
  { fix r u k assume "r < aa_next_remote t" "(u, k) \<in> set (ri_users (aa_remotes t r))"
    then show "k < aa_next_ses t" using D(4) [of r u k] f by simp }
  fix r r' u u' k assume "r < aa_next_remote t" "r' < aa_next_remote t"
    "(u, k) \<in> set (ri_users (aa_remotes t r))" "(u', k) \<in> set (ri_users (aa_remotes t r'))"
  then show "r = r' \<and> u = u'" using D(5) [of r r' u k u'] f by simp
qed

end
