(* ===== verification/AgentReach.thy ===== *)
theory AgentReach
  imports AgentInv
begin

text \<open>
  Every handler of the agent runs without an exception or a null dereference and keeps
  \<open>agent_inv\<close>, so both hold in every state a run reaches.
\<close>

subsection \<open>Creating clients\<close>

lemma create_ok:
  assumes "aa_ioservices s \<noteq> 0"
  shows "\<exists>u. agent__CreateTunnelConn s = Inr (u, s\<lparr>aa_next_io := Suc (aa_next_io s)\<rparr>)"
    and "\<exists>u. agent__CreateSessionTunnelConn s = Inr (u, s\<lparr>aa_next_io := Suc (aa_next_io s)\<rparr>)"
    and "\<exists>u. agent__CreateUserConn s = Inr (u, s\<lparr>aa_next_io := Suc (aa_next_io s)\<rparr>)"
  using assms by (simp_all add: agent__CreateTunnelConn_def agent__CreateSessionTunnelConn_def
      agent__CreateUserConn_def agent__CreateTcpClient_def agent__CreateRawTcpClient_def
      Server_GetIoService_def Let_def)

lemma sockets_of_new [simp]: "socket new_tcp_conn = Some False" "socket new_raw_conn = Some False"
  by (simp_all add: new_tcp_conn_def new_raw_conn_def)

definition agent_keeps :: "agentapp \<Rightarrow> agentapp \<Rightarrow> bool" where
  "agent_keeps s t \<longleftrightarrow> agent_inv t \<and> aa_next_remote t = aa_next_remote s"

lemma agent_keeps_frame: "agent_inv s \<Longrightarrow> aframe s t \<Longrightarrow> agent_keeps s t"
  using agent_inv_frame by (auto simp: agent_keeps_def aframe_def)

lemma agent_keeps_refl: "agent_inv s \<Longrightarrow> agent_keeps s s"
  by (simp add: agent_keeps_def)

subsection \<open>The handlers\<close>

lemma OnServerConnect_ok:
  assumes "started (ri_tcpclient (aa_remotes s r))"
  shows "\<exists>t. agent__OnServerConnect r s = Inr t \<and> aframe s t"
proof -
  have "\<exists>t. fold_result (\<lambda>ep. on_tunnel r (client_Send (g ep) None)) eps s = Inr t \<and> aframe s t"
    for g :: "node_info \<Rightarrow> bytes" and eps
    using assms
  proof (induction eps arbitrary: s)
    case (Cons ep eps)
    obtain t u where t: "on_tunnel r (client_Send (g ep) None) s = Inr u" "aframe s u"
      using client_Send_ok [OF Cons.prems] on_tunnel_frame by metis
    then have "started (ri_tcpclient (aa_remotes u r))" using Cons.prems by (simp add: aframe_def)
    from Cons.IH [OF this] t show ?case by (auto intro: aframe_trans)
  qed simp
  then show ?thesis by (simp add: agent__OnServerConnect_def)
qed

lemma on_data_ok:
  assumes inv: "agent_inv s" and r: "r < aa_next_remote s"
    and tr: "\<And>k. k < aa_next_ses s \<Longrightarrow> as_tunnel_traffic (aa_ses s k) \<noteq> - 1"
  shows "\<exists>t. agent_on_data r usr payload s = Inr t \<and> aframe s t"
proof (cases "map_find (ri_users (aa_remotes s r)) usr")
  case None
  then show ?thesis by (simp add: agent_on_data_def)
next
  case (Some k)
  then have "(usr, k) \<in> set (ri_users (aa_remotes s r))" by (rule map_of_SomeD)
  then have n: "k < aa_next_ses s" using agent_invD(4) [OF inv r] by blast
  have k: "ases_ok (aa_queue_limit s) (aa_ses s k)" using agent_invD(3) [OF inv n] .
  define s1 where "s1 = upd_ases k (ases_tunnel_submit (aa_queue_limit s)) s"
  have ok: "ases_ok (aa_queue_limit s) (ases_tunnel_submit (aa_queue_limit s) (aa_ses s k))"
    using ases_ok_tunnel_submit [OF k tr [OF n]] .
  have f: "aframe s s1" using ok by (simp add: s1_def aframe_def upd_ases_def)
  have "started (as_user_conn (aa_ses s1 k))"
    using ok by (simp add: s1_def upd_ases_def ases_ok_def has_impls_def)
  then obtain u where "client_Send payload (Some (ATunnelDone r k usr)) (as_user_conn (aa_ses s1 k)) = Inr u" "started u"
    by (rule client_Send_ok)
  then obtain t where "on_user_conn k (client_Send payload (Some (ATunnelDone r k usr))) s1 = Inr t" "aframe s1 t"
    by (rule on_user_conn_frame)
  then show ?thesis using Some f by (auto simp: agent_on_data_def s1_def intro: aframe_trans)
qed

lemma to_relay_ok:
  assumes "\<And>t. started t \<Longrightarrow> \<exists>u. f t = Inr u \<and> started u"
    and "started (ri_tcpclient (aa_remotes s r))" and "has_impls (aa_ses s k)"
  shows "\<exists>t. agent_to_relay r k f s = Inr t \<and> aframe s t"
proof (cases "as_ready (aa_ses s k)")
  case True
  obtain u where "f (as_session_conn (aa_ses s k)) = Inr u" "started u"
    using assms(1,3) by (auto simp: has_impls_def)
  then show ?thesis using True on_session_conn_frame by (metis agent_to_relay_def)
next
  case False
  obtain u where "f (ri_tcpclient (aa_remotes s r)) = Inr u" "started u" using assms(1,2) by blast
  then show ?thesis using False on_tunnel_frame by (metis agent_to_relay_def)
qed

lemma Send_started: "started t \<Longrightarrow> \<exists>u. client_Send d p t = Inr u \<and> started u"
  using client_Send_ok by blast

lemma SendV_started: "started t \<Longrightarrow> \<exists>u. client_SendV d p t = Inr u \<and> started u"
  using client_SendV_ok by blast

lemma OnSessionConnect_ok:
  assumes "has_impls (aa_ses s k)"
  shows "\<exists>t. agent__OnSessionConnect r k usr s = Inr t \<and> aframe s t"
proof -
  have "started (as_session_conn (aa_ses s k))" using assms by (simp add: has_impls_def)
  then obtain u where "client_Send (a2r_encode (A2R_session (fst usr) (snd usr))) None (as_session_conn (aa_ses s k)) = Inr u"
    "started u" by (rule client_Send_ok)
  then obtain t where t: "on_session_conn k (client_Send (a2r_encode (A2R_session (fst usr) (snd usr))) None) s = Inr t"
    "aframe s t" by (rule on_session_conn_frame)
  have "aframe t (upd_ases k (\<lambda>x. x\<lparr>as_ready := True\<rparr>) t)" by (rule aframe_upd_ases) simp
  with t show ?thesis by (auto simp: agent__OnSessionConnect_def intro: aframe_trans)
qed

lemma OnUserDisconnect_ok:
  assumes "started (ri_tcpclient (aa_remotes s r))" and k: "ases_ok (aa_queue_limit s) (aa_ses s k)"
  shows "\<exists>t. agent__OnUserDisconnect e r k usr s = Inr t \<and> aframe s t"
proof -
  define s1 where "s1 = upd_ases k (\<lambda>x. (close_user_conn x)\<lparr>as_user_disconnected := True\<rparr>) s"
  have f: "aframe s s1" unfolding s1_def by (rule aframe_upd_ases) simp
  then have s1: "started (ri_tcpclient (aa_remotes s1 r))" "has_impls (aa_ses s1 k)"
    using assms by (simp_all add: aframe_def ases_ok_def)
  obtain t where t: "agent_to_relay r k (client_Send (a2r_encode (A2R_disconnect (fst usr) (snd usr))) None) s1 = Inr t"
    "aframe s1 t"
    using to_relay_ok [where f = "client_Send (a2r_encode (A2R_disconnect (fst usr) (snd usr))) None", OF Send_started s1]
    by blast
  from t(1) have "agent__OnUserDisconnect e r k usr s = Inr (agent__CleanSession r k usr t)"
    by (simp add: agent__OnUserDisconnect_def Let_def s1_def del: a2r_encode.simps)
  then show ?thesis using f t(2) aframe_CleanSession by (blast intro: aframe_trans)
qed

lemma OnUserRecv_ok:
  assumes "started (ri_tcpclient (aa_remotes s r))" and k: "ases_ok (aa_queue_limit s) (aa_ses s k)"
    and tr: "as_user_traffic (aa_ses s k) \<noteq> - 1"
  shows "\<exists>t. agent__OnUserRecv data r k usr s = Inr t \<and> aframe s t"
proof -
  define s1 where "s1 = upd_ases k (ases_user_submit (aa_queue_limit s)) s"
  have "ases_ok (aa_queue_limit s) (ases_user_submit (aa_queue_limit s) (aa_ses s k))"
    by (rule ases_ok_user_submit [OF k tr])
  then have f: "aframe s s1" "has_impls (aa_ses s1 k)"
    by (simp_all add: s1_def aframe_def upd_ases_def ases_ok_def)
  then have "started (ri_tcpclient (aa_remotes s1 r))" using assms by (simp add: aframe_def)
  from to_relay_ok [where f = "client_SendV [a2r_encode (A2R_data (fst usr) (snd usr)), data] (Some (AUserDone r k usr))",
      OF SendV_started this f(2)] f(1) show ?thesis
    unfolding agent__OnUserRecv_def s1_def by (blast intro: aframe_trans)
qed

lemma reconnect_ok:
  assumes inv: "agent_inv s" and r: "r < aa_next_remote s"
  shows "\<exists>t. agent_reconnect r s = Inr t \<and> agent_keeps s t"
proof -
  note D = agent_invD [OF inv]
  define s1 where "s1 = s\<lparr>aa_next_io := Suc (aa_next_io s)\<rparr>"
  obtain u where u: "agent__CreateTunnelConn s = Inr (u, s1)" using create_ok(1) [OF D(1)] s1_def by blast
  obtain v where v: "client_Start new_tcp_conn (ri_ep (aa_remotes s r)) u = Inr v" "started v"
    using client_Start_eq [OF sockets_of_new(1)] by blast
  define t where "t = upd_remote r (\<lambda>x. x\<lparr>ri_tcpclient := v\<rparr>) (upd_remote r (\<lambda>x. x\<lparr>ri_tcpclient := u\<rparr>) s1)"
  have "agent_reconnect r s = Inr t"
    using u v(1) by (simp add: agent_reconnect_def agent_start_tunnel_def on_tunnel_def t_def upd_remote_def s1_def)
  moreover have "aframe s t" using v(2) by (simp add: t_def s1_def aframe_def upd_remote_def)
  ultimately show ?thesis using agent_keeps_frame [OF inv] by blast
qed

text \<open>CONNECT is the one handler that adds a session.\<close>

lemma agent_inv_new_session:
  assumes inv: "agent_inv s" and r: "r < aa_next_remote s" and k: "k = aa_next_ses s"
    and t: "aa_next_remote t = aa_next_remote s" "aa_next_ses t = Suc k" "aa_ioservices t = aa_ioservices s"
      "aa_queue_limit t = aa_queue_limit s" "aa_ses t = (aa_ses s)(k := x)" "ases_ok (aa_queue_limit s) x"
      "\<And>q. ri_tcpclient (aa_remotes t q) = ri_tcpclient (aa_remotes s q)"
      "\<And>q. ri_users (aa_remotes t q) =
        (if q = r then map_put usr k (ri_users (aa_remotes s q)) else ri_users (aa_remotes s q))"
  shows "agent_inv t"
proof (rule agent_invI)
  note D = agent_invD [OF inv]
  have users: "(u, j) \<in> set (ri_users (aa_remotes s q)) \<or> (j = k \<and> q = r \<and> u = usr)"
    if "(u, j) \<in> set (ri_users (aa_remotes t q))" for u j q
    using that t(8) in_put [of "(u, j)" usr k] by (auto split: if_splits)
  have old: "j < k" if "(u, j) \<in> set (ri_users (aa_remotes s q))" "q < aa_next_remote s" for u j q
    using D(4) [OF that(2,1)] k by simp
  show "aa_ioservices t \<noteq> 0" using D(1) t(3) by simp
  { fix q assume "q < aa_next_remote t"
    then show "started (ri_tcpclient (aa_remotes t q))" using D(2) t by simp }
  { fix j assume "j < aa_next_ses t"
    then show "ases_ok (aa_queue_limit t) (aa_ses t j)" using D(3) [of j] t k by (cases "j = k") auto }
  { fix q u j assume "q < aa_next_remote t" "(u, j) \<in> set (ri_users (aa_remotes t q))"
    then show "j < aa_next_ses t" using users old t(1,2) by fastforce }
  fix q q' u u' j assume q: "q < aa_next_remote t" "q' < aa_next_remote t"
    "(u, j) \<in> set (ri_users (aa_remotes t q))" "(u', j) \<in> set (ri_users (aa_remotes t q'))"
  have "j < k \<and> (u, j) \<in> set (ri_users (aa_remotes s q)) \<or> (j = k \<and> q = r \<and> u = usr)"
    "j < k \<and> (u', j) \<in> set (ri_users (aa_remotes s q')) \<or> (j = k \<and> q' = r \<and> u' = usr)"
    using users [OF q(3)] users [OF q(4)] old [of u j q] old [of u' j q'] q(1,2) t(1) by auto
  then show "q = q' \<and> u = u'" using D(5) [of q q' u j u'] q(1,2) t(1) by auto
qed

lemma on_connect_eq:
  assumes io: "aa_ioservices s \<noteq> 0" and new: "map_find (ri_users (aa_remotes s r)) usr = None"
    and svc: "map_find (aa_service_ep s) (fst usr) = Some eps" "eps \<noteq> []"
  obtains t x y u v where "agent_on_connect r usr ip s = Inr t"
    and "client_Start new_tcp_conn (ri_ep (aa_remotes s r)) x = Inr y" "started y"
    and "client_Start new_raw_conn (agent_pick (aa_load_policy s) (snd usr) ip eps) u = Inr v" "started v"
    and "t = s\<lparr>aa_next_io := Suc (Suc (aa_next_io s)), aa_next_ses := Suc (aa_next_ses s),
        aa_ses := (aa_ses s)(aa_next_ses s := new_ases v y),
        aa_remotes := (aa_remotes s)(r := (aa_remotes s r)\<lparr>ri_users :=
          map_put usr (aa_next_ses s) (ri_users (aa_remotes s r))\<rparr>)\<rparr>"
proof -
  let ?ep = "agent_pick (aa_load_policy s) (snd usr) ip eps"
  define s1 where "s1 = s\<lparr>aa_next_io := Suc (aa_next_io s)\<rparr>"
  have s1: "aa_ioservices s1 \<noteq> 0" "aa_next_io s1 = Suc (aa_next_io s)" using io by (simp_all add: s1_def)
  obtain x where x: "agent__CreateSessionTunnelConn s = Inr (x, s1)" using create_ok(2) [OF io] s1_def by blast
  obtain u where u: "agent__CreateUserConn s1 = Inr (u, s\<lparr>aa_next_io := Suc (Suc (aa_next_io s))\<rparr>)"
    using create_ok(3) [OF s1(1)] s1(2) by (auto simp: s1_def)
  obtain y where y: "client_Start new_tcp_conn (ri_ep (aa_remotes s r)) x = Inr y" "started y"
    using client_Start_eq [OF sockets_of_new(1)] by blast
  obtain v where v: "client_Start new_raw_conn ?ep u = Inr v" "started v"
    using client_Start_eq [OF sockets_of_new(2)] by blast
  show ?thesis
  proof (rule that [OF _ y v refl])
    show "agent_on_connect r usr ip s = Inr (s\<lparr>aa_next_io := Suc (Suc (aa_next_io s)), aa_next_ses := Suc (aa_next_ses s),
        aa_ses := (aa_ses s)(aa_next_ses s := new_ases v y),
        aa_remotes := (aa_remotes s)(r := (aa_remotes s r)\<lparr>ri_users :=
          map_put usr (aa_next_ses s) (ri_users (aa_remotes s r))\<rparr>)\<rparr>)"
      using x u y(1) v(1) new svc
      by (simp add: agent_on_connect_def Let_def on_session_conn_def on_user_conn_def upd_remote_def
          upd_ases_def new_ases_def)
  qed
qed

lemma on_connect_ok:
  assumes inv: "agent_inv s" and r: "r < aa_next_remote s"
  shows "\<exists>t. agent_on_connect r usr ip s = Inr t \<and> agent_keeps s t"
proof (cases "\<exists>eps. map_find (ri_users (aa_remotes s r)) usr = None
    \<and> map_find (aa_service_ep s) (fst usr) = Some eps \<and> eps \<noteq> []")
  case True
  then obtain eps where e: "map_find (ri_users (aa_remotes s r)) usr = None"
    "map_find (aa_service_ep s) (fst usr) = Some eps" "eps \<noteq> []" by blast
  from on_connect_eq [OF agent_invD(1) [OF inv] e, of ip] obtain t x y u v where
    t: "agent_on_connect r usr ip s = Inr t" "started y" "started v"
    "t = s\<lparr>aa_next_io := Suc (Suc (aa_next_io s)), aa_next_ses := Suc (aa_next_ses s),
        aa_ses := (aa_ses s)(aa_next_ses s := new_ases v y),
        aa_remotes := (aa_remotes s)(r := (aa_remotes s r)\<lparr>ri_users :=
          map_put usr (aa_next_ses s) (ri_users (aa_remotes s r))\<rparr>)\<rparr>" by metis
  have "agent_inv t"
    by (rule agent_inv_new_session [OF inv r refl, of t "new_ases v y" usr])
      (simp_all add: t(4) ases_ok_new t(2,3))
  then show ?thesis using t(1,4) by (simp add: agent_keeps_def)
next
  case False
  then have "agent_on_connect r usr ip s = Inr s"
    by (cases "map_find (ri_users (aa_remotes s r)) usr"; cases "map_find (aa_service_ep s) (fst usr)")
      (auto simp: agent_on_connect_def)
  then show ?thesis using agent_keeps_refl [OF inv] by blast
qed

subsection \<open>All events\<close>

text \<open>What is known when a handler runs: a closure holds a remote and a session that exist, and no
  traffic counter is at its largest value when one more buffer is counted.\<close>

definition agent_traffic_bounded :: "agentapp \<Rightarrow> bool" where
  "agent_traffic_bounded s \<longleftrightarrow> (\<forall>k < aa_next_ses s.
     as_tunnel_traffic (aa_ses s k) \<noteq> - 1 \<and> as_user_traffic (aa_ses s k) \<noteq> - 1)"

fun agent_enabled :: "agentapp \<Rightarrow> agent_event \<Rightarrow> bool" where
  "agent_enabled s (AServerConnect r) = (r < aa_next_remote s)"
| "agent_enabled s (AServerDisconnect e r) = (r < aa_next_remote s)"
| "agent_enabled s (AServerRecv data r) = (r < aa_next_remote s \<and> agent_traffic_bounded s)"
| "agent_enabled s (AReconnect r) = (r \<in> set (aa_posted s))"
| "agent_enabled s (ASessionConnect r k usr) = (r < aa_next_remote s \<and> k < aa_next_ses s)"
| "agent_enabled s (ASessionDisconnect e r k usr) = (r < aa_next_remote s \<and> k < aa_next_ses s)"
| "agent_enabled s (ASessionRecv data r k usr) =
     (r < aa_next_remote s \<and> k < aa_next_ses s \<and> agent_traffic_bounded s)"
| "agent_enabled s (AUserConnect r k usr) = (r < aa_next_remote s \<and> k < aa_next_ses s)"
| "agent_enabled s (AUserDisconnect e r k usr) = (r < aa_next_remote s \<and> k < aa_next_ses s)"
| "agent_enabled s (AUserRecv data r k usr) =
     (r < aa_next_remote s \<and> k < aa_next_ses s \<and> agent_traffic_bounded s)"
| "agent_enabled s (ACompletion (ATunnelDone r k usr)) = (r < aa_next_remote s \<and> k < aa_next_ses s)"
| "agent_enabled s (ACompletion (AUserDone r k usr)) = (r < aa_next_remote s \<and> k < aa_next_ses s)"
| "agent_enabled s (ATunnelNet r ev) = (r < aa_next_remote s)"
| "agent_enabled s (ASessionNet k ev) = (k < aa_next_ses s)"
| "agent_enabled s (AUserNet k ev) = (k < aa_next_ses s)"

fun app_event :: "agent_event \<Rightarrow> bool" where
  "app_event (ATunnelNet r ev) = False"
| "app_event (ASessionNet k ev) = False"
| "app_event (AUserNet k ev) = False"
| "app_event _ = True"

text \<open>Only remotes that exist are posted for a reconnect.\<close>

definition posted_ok :: "agentapp \<Rightarrow> bool" where
  "posted_ok s \<longleftrightarrow> (\<forall>r \<in> set (aa_posted s). r < aa_next_remote s)"

definition agent_ok :: "agentapp \<Rightarrow> bool" where
  "agent_ok s \<longleftrightarrow> agent_inv s \<and> posted_ok s"

lemma frame_ok: "agent_inv s \<Longrightarrow> \<exists>t. x = Inr t \<and> aframe s t \<Longrightarrow> \<exists>t. x = Inr t \<and> agent_keeps s t"
  using agent_keeps_frame by blast

lemma agent_handle_inv:
  assumes ok: "agent_ok s" and en: "agent_enabled s ev" and app: "app_event ev"
  shows "\<exists>t. agent_handle ev s = Inr t \<and> agent_keeps s t"
proof -
  have inv: "agent_inv s" and posted: "posted_ok s" using ok by (simp_all add: agent_ok_def)
  note D = agent_invD [OF inv]
  have impls: "k < aa_next_ses s \<Longrightarrow> has_impls (aa_ses s k)" for k using D(3) by (simp add: ases_ok_def)
  show ?thesis
  proof (cases ev)
    case (AServerConnect r)
    then show ?thesis using frame_ok [OF inv OnServerConnect_ok] D(2) en by simp
  next
    case (AServerDisconnect e r)
    then show ?thesis using agent_keeps_frame [OF inv aframe_OnServerDisconnect] by simp
  next
    case (AServerRecv data r)
    then have r: "r < aa_next_remote s" "\<And>k. k < aa_next_ses s \<Longrightarrow> as_tunnel_traffic (aa_ses s k) \<noteq> - 1"
      using en by (simp_all add: agent_traffic_bounded_def)
    show ?thesis
      using AServerRecv agent_keeps_refl [OF inv] frame_ok [OF inv on_data_ok [OF inv r]] on_connect_ok [OF inv r(1)]
        agent_keeps_frame [OF inv aframe_on_disconnect]
      by (cases "r2a_decode data") (auto simp: agent__OnServerRecv_def simp del: r2a_sizeof.simps split: r2a.split)
  next
    case (AReconnect r)
    define s' where "s' = s\<lparr>aa_posted := remove1 r (aa_posted s)\<rparr>"
    have "agent_inv s'" unfolding s'_def by (rule agent_inv_frame [OF inv]) simp
    moreover have "r < aa_next_remote s'" using en AReconnect posted by (simp add: posted_ok_def s'_def)
    ultimately show ?thesis using reconnect_ok [of s' r] AReconnect
      by (simp add: s'_def agent_keeps_def)
  next
    case (ASessionConnect r k usr)
    then show ?thesis using frame_ok [OF inv OnSessionConnect_ok] impls en by simp
  next
    case (ASessionDisconnect e r k usr)
    then show ?thesis using agent_keeps_frame [OF inv aframe_OnSessionDisconnect] by simp
  next
    case (ASessionRecv data r k usr)
    then have r: "r < aa_next_remote s" "\<And>k. k < aa_next_ses s \<Longrightarrow> as_tunnel_traffic (aa_ses s k) \<noteq> - 1"
      using en by (simp_all add: agent_traffic_bounded_def)
    show ?thesis
      using ASessionRecv agent_keeps_refl [OF inv] frame_ok [OF inv on_data_ok [OF inv r]] agent_keeps_frame [OF inv aframe_on_disconnect]
      by (cases "r2a_decode data") (auto simp: agent__OnSessionRecv_def simp del: r2a_sizeof.simps split: r2a.split)
  next
    case (AUserConnect r k usr)
    then show ?thesis using agent_keeps_refl [OF inv] by (simp add: agent__OnUserConnect_def)
  next
    case (AUserDisconnect e r k usr)
    then show ?thesis using frame_ok [OF inv OnUserDisconnect_ok] D(2,3) en by simp
  next
    case (AUserRecv data r k usr)
    then show ?thesis using frame_ok [OF inv OnUserRecv_ok] D(2,3) en by (simp add: agent_traffic_bounded_def)
  next
    case (ACompletion c)
    then show ?thesis using agent_keeps_frame [OF inv aframe_completion] by simp
  qed (use app in simp_all)
qed

lemma net_event_frame:
  assumes t: "agent_handle ev s = Inr t" and net: "\<not> app_event ev"
  shows "aframe s t \<and> aa_posted t = aa_posted s"
  using net
proof (cases ev)
  case (ATunnelNet r e)
  then obtain u where u: "impl_step (client_step tcp_step tcp__DoRecv e) (ri_tcpclient (aa_remotes s r)) = Inr u"
    "t = upd_remote r (\<lambda>x. x\<lparr>ri_tcpclient := u\<rparr>) s" using t by (auto simp: on_tunnel_def and_then_eq_Inr)
  show ?thesis using impl_step_keeps [OF u(1)] u(2) by (auto simp: aframe_def upd_remote_def)
next
  case (ASessionNet k e)
  then obtain u where u: "impl_step (client_step tcp_step tcp__DoRecv e) (as_session_conn (aa_ses s k)) = Inr u"
    "t = upd_ases k (\<lambda>x. x\<lparr>as_session_conn := u\<rparr>) s" using t by (auto simp: on_session_conn_def and_then_eq_Inr)
  show ?thesis using impl_step_keeps [OF u(1)] u(2)
    by (auto simp: aframe_def upd_ases_def intro!: ases_ok_clients) (auto simp: ases_ok_def has_impls_def)
next
  case (AUserNet k e)
  then obtain u where u: "impl_step (client_step raw_step raw__DoRecv e) (as_user_conn (aa_ses s k)) = Inr u"
    "t = upd_ases k (\<lambda>x. x\<lparr>as_user_conn := u\<rparr>) s" using t by (auto simp: on_user_conn_def and_then_eq_Inr)
  show ?thesis using impl_step_keeps [OF u(1)] u(2)
    by (auto simp: aframe_def upd_ases_def intro!: ases_ok_clients) (auto simp: ases_ok_def has_impls_def)
qed simp_all

lemma posted_simps [simp]:
  "aa_posted (upd_remote r f s) = aa_posted s" "aa_posted (upd_ases k g s) = aa_posted s"
  "aa_posted (agent__CleanSession r k usr s) = aa_posted s"
  "aa_posted (agent_run_completion c s) = aa_posted s" "aa_posted (agent_on_disconnect r usr s) = aa_posted s"
  by (simp_all add: upd_remote_def upd_ases_def)
    (auto simp: agent__CleanSession_def upd_remote_def upd_ases_def,
     cases c, auto simp: agent_tunnel_done_def agent_user_done_def agent__CleanSession_def upd_remote_def upd_ases_def,
     auto simp: agent_on_disconnect_def agent__CleanSession_def upd_remote_def upd_ases_def split: option.split)

lemma posted_results:
  "on_tunnel r f s = Inr t \<Longrightarrow> aa_posted t = aa_posted s"
  "on_session_conn k f s = Inr t \<Longrightarrow> aa_posted t = aa_posted s"
  "on_user_conn k g s = Inr t \<Longrightarrow> aa_posted t = aa_posted s"
  "agent_to_relay r k f s = Inr t \<Longrightarrow> aa_posted t = aa_posted s"
  by (auto simp: on_tunnel_def on_session_conn_def on_user_conn_def agent_to_relay_def and_then_eq_Inr split: if_splits)

lemma posted_on_data: "agent_on_data r usr payload s = Inr t \<Longrightarrow> aa_posted t = aa_posted s"
  by (auto simp: agent_on_data_def dest!: posted_results split: option.splits)

lemma posted_creates:
  "agent__CreateTunnelConn s = Inr (u, t) \<Longrightarrow> aa_posted t = aa_posted s"
  "agent__CreateSessionTunnelConn s = Inr (u, t) \<Longrightarrow> aa_posted t = aa_posted s"
  "agent__CreateUserConn s = Inr (v, t) \<Longrightarrow> aa_posted t = aa_posted s"
  by (auto simp: agent__CreateTunnelConn_def agent__CreateSessionTunnelConn_def agent__CreateUserConn_def
      agent__CreateTcpClient_def agent__CreateRawTcpClient_def Server_GetIoService_def Let_def
      and_then_eq_Inr split: if_splits)

lemma posted_on_connect: "agent_on_connect r usr ip s = Inr t \<Longrightarrow> aa_posted t = aa_posted s"
  by (auto simp: agent_on_connect_def Let_def and_then_eq_Inr
      dest!: posted_results posted_creates split: option.splits if_splits)

lemma posted_OnServerConnect: "agent__OnServerConnect r s = Inr t \<Longrightarrow> aa_posted t = aa_posted s"
  unfolding agent__OnServerConnect_def
  by (erule fold_result_invariant [where I = "\<lambda>x. aa_posted x = aa_posted s"]) (auto dest: posted_results)

lemma posted_OnServerDisconnect: "aa_posted (agent__OnServerDisconnect e r s) = aa_posted s @ [r]"
proof -
  have "aa_posted (fold (\<lambda>(_, k). upd_ases k h) us s) = aa_posted s" for h and us :: "(user \<times> nat) list"
    by (rule fold_invariant) auto
  then show ?thesis by (simp add: agent__OnServerDisconnect_def Let_def)
qed

lemma handle_posted:
  assumes "agent_handle ev s = Inr t" and "app_event ev"
  shows "aa_posted t = (case ev of AServerDisconnect e r \<Rightarrow> aa_posted s @ [r]
    | AReconnect r \<Rightarrow> remove1 r (aa_posted s) | _ \<Rightarrow> aa_posted s)"
  using assms
  by (cases ev)
    (auto simp: posted_OnServerConnect posted_OnServerDisconnect agent__OnServerRecv_def agent__OnSessionRecv_def
      agent__OnSessionConnect_def agent__OnSessionDisconnect_def agent__OnUserConnect_def agent__OnUserDisconnect_def
      agent__OnUserRecv_def agent_reconnect_def agent_start_tunnel_def and_then_eq_Inr Let_def
      simp del: r2a_sizeof.simps a2r_encode.simps
      dest!: posted_results posted_on_data posted_on_connect posted_creates
      split: option.splits r2a.splits)

lemma agent_step_ok:
  assumes "agent_ok s" and "agent_enabled s ev" and "agent_handle ev s = Inr t"
  shows "agent_ok t"
proof (cases "app_event ev")
  case True
  then have k: "agent_inv t" "aa_next_remote t = aa_next_remote s"
    using agent_handle_inv [OF assms(1,2)] assms(3) by (auto simp: agent_keeps_def)
  have old: "r \<in> set (aa_posted s) \<Longrightarrow> r < aa_next_remote s" for r
    using assms(1) by (simp add: agent_ok_def posted_ok_def)
  have "set (aa_posted t) \<subseteq> {q. q < aa_next_remote s}"
  proof (cases ev)
    case (AServerDisconnect e r)
    then show ?thesis using handle_posted [OF assms(3) True] assms(2) old by auto
  next
    case (AReconnect r)
    then have "set (aa_posted t) \<subseteq> set (aa_posted s)"
      using handle_posted [OF assms(3) True] set_remove1_subset by simp
    then show ?thesis using old by blast
  qed (simp_all add: handle_posted [OF assms(3) True] subset_iff old)
  then show ?thesis using k by (auto simp: agent_ok_def posted_ok_def)
next
  case False
  have f: "aframe s t" "aa_posted t = aa_posted s" using net_event_frame [OF assms(3) False] by simp_all
  have "agent_inv s" "posted_ok s" using assms(1) by (simp_all add: agent_ok_def)
  moreover have "aa_next_remote t = aa_next_remote s" using f(1) by (simp add: aframe_def)
  ultimately show ?thesis using agent_inv_frame [OF _ f(1)] f(2) by (simp add: agent_ok_def posted_ok_def)
qed

subsection \<open>From Init and Start\<close>

lemma add_relays:
  "fold_result agent_add_relay eps s = Inr t \<Longrightarrow>
    aa_relays t = aa_relays s @ [aa_next_remote s ..< aa_next_remote t]
    \<and> aa_next_remote t = aa_next_remote s + length eps \<and> aa_next_ses t = aa_next_ses s
    \<and> aa_ioservices t = aa_ioservices s \<and> aa_posted t = aa_posted s \<and> aa_service_ep t = aa_service_ep s
    \<and> aa_queue_limit t = aa_queue_limit s \<and> aa_config t = aa_config s
    \<and> (\<forall>r < aa_next_remote s. aa_remotes t r = aa_remotes s r)
    \<and> (\<forall>i < length eps. ri_users (aa_remotes t (aa_next_remote s + i)) = []
        \<and> ri_ep (aa_remotes t (aa_next_remote s + i)) = eps ! i)"
proof (induction eps arbitrary: s)
  case (Cons ep eps)
  obtain u x where u: "agent_add_relay ep s = Inr u" "agent__CreateTunnelConn s = Inr (x, s\<lparr>aa_next_io := Suc (aa_next_io s)\<rparr>)"
    "u = s\<lparr>aa_next_io := Suc (aa_next_io s), aa_remotes := (aa_remotes s)(aa_next_remote s :=
         \<lparr>ri_ep = ep, ri_tcpclient = x, ri_users = []\<rparr>),
       aa_next_remote := Suc (aa_next_remote s), aa_relays := aa_relays s @ [aa_next_remote s]\<rparr>"
    using Cons.prems by (auto simp: agent_add_relay_def and_then_eq_Inr Let_def agent__CreateTunnelConn_def
      agent__CreateTcpClient_def Server_GetIoService_def split: if_splits)
  from Cons.prems u(1) have IH: "fold_result agent_add_relay eps u = Inr t" by simp
  note I = Cons.IH [OF IH]
  have "ri_users (aa_remotes t (aa_next_remote s + i)) = []
      \<and> ri_ep (aa_remotes t (aa_next_remote s + i)) = (ep # eps) ! i" if "i < Suc (length eps)" for i
    using that I by (cases i) (auto simp: u(3))
  moreover have "[aa_next_remote s ..< Suc (aa_next_remote s + length eps)] =
      aa_next_remote s # [Suc (aa_next_remote s) ..< Suc (aa_next_remote s + length eps)]"
    by (rule upt_conv_Cons) simp
  ultimately show ?case using I by (simp add: u(3) less_Suc_eq del: upt_Suc)
qed simp

lemma start_tunnel:
  obtains c where "agent_start_tunnel r s = Inr (upd_remote r (\<lambda>x. x\<lparr>ri_tcpclient := c\<rparr>) s)" "started c"
proof -
  obtain c where "client_Start new_tcp_conn (ri_ep (aa_remotes s r)) (ri_tcpclient (aa_remotes s r)) = Inr c" "started c"
    using client_Start_eq [OF sockets_of_new(1)] by blast
  then show ?thesis using that by (simp add: agent_start_tunnel_def on_tunnel_def)
qed

lemma start_tunnels:
  "\<exists>t. fold_result agent_start_tunnel rs s = Inr t \<and> aframe s t \<and> aa_posted t = aa_posted s
    \<and> (\<forall>r \<in> set rs. started (ri_tcpclient (aa_remotes t r)))
    \<and> (\<forall>r. ri_users (aa_remotes t r) = ri_users (aa_remotes s r) \<and> ri_ep (aa_remotes t r) = ri_ep (aa_remotes s r))
    \<and> aa_service_ep t = aa_service_ep s \<and> aa_config t = aa_config s"
proof (induction rs arbitrary: s)
  case (Cons r rs)
  obtain c where c: "agent_start_tunnel r s = Inr (upd_remote r (\<lambda>x. x\<lparr>ri_tcpclient := c\<rparr>) s)" "started c"
    by (rule start_tunnel)
  let ?u = "upd_remote r (\<lambda>x. x\<lparr>ri_tcpclient := c\<rparr>) s"
  obtain t where t: "fold_result agent_start_tunnel rs ?u = Inr t" "aframe ?u t" "aa_posted t = aa_posted ?u"
    "\<forall>r \<in> set rs. started (ri_tcpclient (aa_remotes t r))"
    "\<forall>r. ri_users (aa_remotes t r) = ri_users (aa_remotes ?u r) \<and> ri_ep (aa_remotes t r) = ri_ep (aa_remotes ?u r)"
    "aa_service_ep t = aa_service_ep ?u" "aa_config t = aa_config ?u"
    using Cons.IH by blast
  have u: "aframe s ?u" by (rule aframe_upd_remote) (simp_all add: c(2))
  have "started (ri_tcpclient (aa_remotes t r))" using t(2) c(2) by (simp add: aframe_def upd_remote_def)
  then show ?case using c t u aframe_trans [OF u t(2)] by (simp add: upd_remote_def)
qed simp

lemma Start_ok:
  assumes s: "aa_ioservices s \<noteq> 0" "aa_next_remote s = 0" "aa_next_ses s = 0" "aa_relays s = []" "aa_posted s = []"
    and t: "agent_Start s = Inr t"
  shows "agent_ok t \<and> aa_next_remote t = length (aa_remote_ep s) \<and> aa_next_ses t = 0
    \<and> aa_queue_limit t = aa_queue_limit s \<and> aa_service_ep t = aa_service_ep s
    \<and> aa_config t = aa_config s \<and> aa_ioservices t = aa_ioservices s
    \<and> (\<forall>i < length (aa_remote_ep s). ri_users (aa_remotes t i) = [] \<and> ri_ep (aa_remotes t i) = aa_remote_ep s ! i)"
proof -
  obtain u where u: "fold_result agent_add_relay (aa_remote_ep s) (s\<lparr>aa_pooling := True\<rparr>) = Inr u"
    "fold_result agent_start_tunnel (aa_relays u) u = Inr t"
    using t by (auto simp: agent_Start_def and_then_eq_Inr)
  note A = add_relays [OF u(1)]
  have T: "aframe u t" "aa_posted t = aa_posted u" "\<forall>r \<in> set (aa_relays u). started (ri_tcpclient (aa_remotes t r))"
    "\<forall>r. ri_users (aa_remotes t r) = ri_users (aa_remotes u r) \<and> ri_ep (aa_remotes t r) = ri_ep (aa_remotes u r)"
    "aa_service_ep t = aa_service_ep u" "aa_config t = aa_config u"
    using start_tunnels [of "aa_relays u" u] u(2) by auto
  have F: "aa_next_remote t = aa_next_remote u" "aa_next_ses t = aa_next_ses u" "aa_ioservices t = aa_ioservices u"
    "aa_queue_limit t = aa_queue_limit u" using T(1) by (simp_all add: aframe_def)
  have "agent_inv t"
    by (rule agent_invI) (use A T F s in \<open>auto simp: agent_ok_def\<close>)
  moreover have "posted_ok t" using A T(2) s by (simp add: posted_ok_def)
  ultimately show ?thesis using A T F s by (simp add: agent_ok_def)
qed

lemma resolve_locals_frame:
  "agent_resolve_locals resolve ls s = Inr t \<Longrightarrow> \<exists>m. t = s\<lparr>aa_service_ep := m\<rparr>"
proof (induction resolve ls s rule: agent_resolve_locals.induct)
  case (1 resolve s)
  then have "t = s\<lparr>aa_service_ep := aa_service_ep s\<rparr>" by simp
  then show ?case by blast
next
  case (2 resolve l ls s)
  obtain address where a: "trim (cf_address l) = Inr address" using "2.prems" by (auto simp: and_then_eq_Inr)
  with "2.prems" have "agent_resolve_locals resolve ls (s\<lparr>aa_service_ep :=
      fold (service_insert (atol_u16 (cf_service_port l))) (resolve address (cf_port l)) (aa_service_ep s)\<rparr>) = Inr t"
    by simp
  from "2.IH" [OF this] show ?case by auto
qed

lemma resolve_remotes_frame:
  "agent_resolve_remotes resolve ls s = Inr t \<Longrightarrow> \<exists>m. t = s\<lparr>aa_remote_ep := m\<rparr>"
proof (induction resolve ls s rule: agent_resolve_remotes.induct)
  case (1 resolve s)
  then have "t = s\<lparr>aa_remote_ep := aa_remote_ep s\<rparr>" by simp
  then show ?case by blast
next
  case (2 resolve l ls s)
  obtain address where a: "trim (cf_address l) = Inr address" using "2.prems" by (auto simp: and_then_eq_Inr)
  with "2.prems" have "agent_resolve_remotes resolve ls (s\<lparr>aa_remote_ep := aa_remote_ep s
      @ concat (map (replicate (unat (cf_concurrency l))) (resolve address (cf_port l)))\<rparr>) = Inr t" by simp
  from "2.IH" [OF this] show ?case by auto
qed

inductive agent_reach :: "agent_config \<Rightarrow> nat \<Rightarrow> agentapp \<Rightarrow> bool" for cfg n where
  ar_start: "agent_Init resolve (new_agentapp cfg n) = Inr (True, s) \<Longrightarrow> agent_Start s = Inr t \<Longrightarrow>
    agent_reach cfg n t"
| ar_step: "agent_reach cfg n s \<Longrightarrow> agent_enabled s ev \<Longrightarrow> agent_handle ev s = Inr t \<Longrightarrow>
    agent_reach cfg n t"

lemma Init_frame:
  assumes "agent_Init resolve (new_agentapp cfg n) = Inr (b, s)"
  shows "\<exists>m eps. s = (new_agentapp cfg n)\<lparr>aa_load_policy := LoadPolicy (ac_system cfg),
      aa_queue_limit := cf_queue_limit (ac_system cfg), aa_service_ep := m, aa_remote_ep := eps\<rparr>"
proof -
  let ?s = "(new_agentapp cfg n)\<lparr>aa_load_policy := LoadPolicy (ac_system cfg),
      aa_queue_limit := cf_queue_limit (ac_system cfg)\<rparr>"
  have c: "aa_config (new_agentapp cfg n) = cfg" by (simp add: new_agentapp_def)
  obtain u where u: "agent_resolve_locals resolve (ac_locals cfg) ?s = Inr u"
    "(if length (aa_service_ep u) = 0 then Inr (False, u)
      else and_then (agent_resolve_remotes resolve (ac_remotes (aa_config u)) u) (\<lambda>s.
        if length (aa_remote_ep s) = 0 then Inr (False, s) else Inr (True, s))) = Inr (b, s)"
    using assms by (auto simp: agent_Init_def Let_def and_then_eq_Inr c)
  obtain m where m: "u = ?s\<lparr>aa_service_ep := m\<rparr>" using resolve_locals_frame [OF u(1)] by blast
  have "\<exists>eps. s = u\<lparr>aa_remote_ep := eps\<rparr>"
  proof (cases "length (aa_service_ep u) = 0")
    case True
    then have "s = u\<lparr>aa_remote_ep := aa_remote_ep u\<rparr>" using u(2) by simp
    then show ?thesis by blast
  next
    case False
    then have "agent_resolve_remotes resolve (ac_remotes (aa_config u)) u = Inr s"
      using u(2) by (auto simp: and_then_eq_Inr split: if_splits)
    then show ?thesis by (rule resolve_remotes_frame)
  qed
  then show ?thesis using m by auto
qed

lemma agent_reach_ok:
  assumes "agent_reach cfg n s" and "n \<noteq> 0"
  shows "agent_ok s"
  using assms(1)
proof (induction rule: agent_reach.induct)
  case (ar_start resolve s t)
  obtain m eps where "s = (new_agentapp cfg n)\<lparr>aa_load_policy := LoadPolicy (ac_system cfg),
      aa_queue_limit := cf_queue_limit (ac_system cfg), aa_service_ep := m, aa_remote_ep := eps\<rparr>"
    using Init_frame [OF ar_start(1)] by blast
  then show ?case using Start_ok [OF _ _ _ _ _ ar_start(2)] assms(2) by (simp add: new_agentapp_def)
next
  case (ar_step s ev t)
  then show ?case using agent_step_ok by blast
qed

end
