(* ===== verification/AgentProps.thy ===== *)
theory AgentProps
  imports AgentReach
begin

text \<open>
  What the agent guarantees, over every run of its handlers from a successful Init and Start, and
  where its code does not do what it means to.
\<close>

subsection \<open>A concrete agent for the witnesses\<close>

definition demo_agent_cfg :: agent_config where
  "demo_agent_cfg = \<lparr>ac_system = default_system\<lparr>cf_queue_limit := 2\<rparr>,
     ac_locals = [\<lparr>cf_address = ''h'', cf_port = ''7000'', cf_service_port = ''80'', cf_concurrency = 1\<rparr>],
     ac_remotes = [\<lparr>cf_address = ''h'', cf_port = ''9000'', cf_service_port = '''', cf_concurrency = 1\<rparr>]\<rparr>"

definition demo_resolve :: "string \<Rightarrow> string \<Rightarrow> endpoint list" where
  "demo_resolve address port = [Endpoint 1 (if port = ''7000'' then 7000 else 9000)]"

definition demo_connect :: agent_event where
  "demo_connect = AServerRecv (r2a_encode (R2A_connect 80 1 9 9)) 0"

lemma demo_init: "agent_Init demo_resolve (new_agentapp demo_agent_cfg 1) = Inr (True,
    (new_agentapp demo_agent_cfg 1)\<lparr>aa_load_policy := LoadPolicy (ac_system demo_agent_cfg), aa_queue_limit := 2,
       aa_service_ep := [(80, [Endpoint 1 7000])], aa_remote_ep := [Endpoint 1 9000]\<rparr>)"
proof -
  have u: "atol_u16 ''80'' = 80" and t: "trim ''h'' = Inr ''h''" by code_simp+
  have l: "ac_locals demo_agent_cfg = [\<lparr>cf_address = ''h'', cf_port = ''7000'', cf_service_port = ''80'', cf_concurrency = 1\<rparr>]"
    "ac_remotes demo_agent_cfg = [\<lparr>cf_address = ''h'', cf_port = ''9000'', cf_service_port = [], cf_concurrency = 1\<rparr>]"
    "cf_queue_limit (ac_system demo_agent_cfg) = 2"
    by (simp_all add: demo_agent_cfg_def)
  show ?thesis
    by (simp add: agent_Init_def Let_def new_agentapp_def l t u demo_resolve_def service_insert_def)
qed

lemma demo_agent_start: "\<exists>s. agent_reach demo_agent_cfg 1 s \<and> aa_next_remote s = 1 \<and> aa_next_ses s = 0
    \<and> map_find (aa_service_ep s) 80 = Some [Endpoint 1 7000] \<and> ri_users (aa_remotes s 0) = []
    \<and> ri_ep (aa_remotes s 0) = Endpoint 1 9000 \<and> aa_queue_limit s = 2"
proof -
  let ?s = "(new_agentapp demo_agent_cfg 1)\<lparr>aa_load_policy := LoadPolicy (ac_system demo_agent_cfg), aa_queue_limit := 2,
       aa_service_ep := [(80, [Endpoint 1 7000])], aa_remote_ep := [Endpoint 1 9000]\<rparr>"
  have z: "aa_ioservices ?s \<noteq> 0" "aa_next_remote ?s = 0" "aa_next_ses ?s = 0" "aa_relays ?s = []" "aa_posted ?s = []"
    by (simp_all add: new_agentapp_def)
  have "\<exists>t. agent_Start ?s = Inr t"
  proof -
    obtain u x where "agent_add_relay (Endpoint 1 9000) (?s\<lparr>aa_pooling := True\<rparr>) = Inr u"
      using create_ok(1) [of "?s\<lparr>aa_pooling := True\<rparr>"] z(1) by (auto simp: agent_add_relay_def Let_def)
    then show ?thesis using start_tunnels [of "aa_relays u" u] by (auto simp: agent_Start_def)
  qed
  then obtain t where t: "agent_Start ?s = Inr t" by blast
  from Start_ok [OF z t] ar_start [OF demo_init t] show ?thesis by (intro exI [of _ t]) simp
qed

text \<open>After CONNECT of user 1 of port 80 over tunnel 0.\<close>

lemma demo_agent_session: "\<exists>s. agent_reach demo_agent_cfg 1 s \<and> aa_next_remote s = 1 \<and> aa_next_ses s = 1
    \<and> map_find (ri_users (aa_remotes s 0)) (80, 1) = Some 0 \<and> aa_queue_limit s = 2
    \<and> (\<exists>u v. aa_ses s 0 = new_ases u v)"
proof -
  obtain s where s: "agent_reach demo_agent_cfg 1 s" "aa_next_remote s = 1" "aa_next_ses s = 0"
    "map_find (aa_service_ep s) 80 = Some [Endpoint 1 7000]" "ri_users (aa_remotes s 0) = []" "aa_queue_limit s = 2"
    using demo_agent_start by blast
  have ok: "agent_inv s" using agent_reach_ok [OF s(1)] by (simp add: agent_ok_def)
  have svc: "map_find (aa_service_ep s) (fst (80, 1 :: u32)) = Some [Endpoint 1 7000]" using s(4) by simp
  have new: "map_find (ri_users (aa_remotes s 0)) (80, 1) = None" using s(5) by simp
  have ne: "[Endpoint 1 7000] \<noteq> []" by simp
  from on_connect_eq [OF agent_invD(1) [OF ok] new svc ne, of 9] obtain t x y u v where
    t: "agent_on_connect 0 (80, 1) 9 s = Inr t"
      "t = s\<lparr>aa_next_io := Suc (Suc (aa_next_io s)), aa_next_ses := Suc (aa_next_ses s),
        aa_ses := (aa_ses s)(aa_next_ses s := new_ases v y),
        aa_remotes := (aa_remotes s)(0 := (aa_remotes s 0)\<lparr>ri_users :=
          map_put (80, 1) (aa_next_ses s) (ri_users (aa_remotes s 0))\<rparr>)\<rparr>" by metis
  have "r2a_decode (r2a_encode (R2A_connect 80 1 9 9) @ []) = Some (R2A_connect 80 1 9 9)" by (rule r2a_codec.dec_enc)
  then have h: "agent_handle demo_connect s = Inr t"
    using t(1) by (simp add: demo_connect_def agent__OnServerRecv_def del: r2a_encode.simps)
  have "agent_reach demo_agent_cfg 1 t"
    using ar_step [OF s(1) _ h] s(2,3) by (simp add: demo_connect_def agent_traffic_bounded_def)
  moreover have "aa_next_remote t = 1" "aa_next_ses t = 1" "map_find (ri_users (aa_remotes t 0)) (80, 1) = Some 0"
    "aa_queue_limit t = 2" "\<exists>u v. aa_ses t 0 = new_ases u v"
    using s by (auto simp: t(2))
  ultimately show ?thesis by blast
qed

lemma agent_run:
  assumes "agent_reach cfg n s" and "n \<noteq> 0" and "agent_enabled s ev" and "app_event ev"
  obtains t where "agent_handle ev s = Inr t" "agent_reach cfg n t" "agent_inv t"
    "aa_next_remote t = aa_next_remote s"
proof -
  have ok: "agent_ok s" by (rule agent_reach_ok [OF assms(1,2)])
  then obtain t where "agent_handle ev s = Inr t" "agent_inv t" "aa_next_remote t = aa_next_remote s"
    using agent_handle_inv [OF ok assms(3,4)] by (auto simp: agent_keeps_def)
  then show ?thesis using that ar_step [OF assms(1,3)] by blast
qed

subsection \<open>No handler fails\<close>

text \<open>C22: in every state that a run of an agent with at least one \<open>io_service\<close> reaches, every handler of
  the application that can be called there (the callbacks of its clients, the timer that reconnects, the
  completions of sends) runs to its end: no client is used before it was started, no exception is thrown,
  and the state it leaves is reachable again.  The network handlers of the connections themselves are not
  among them; one of those throws, see the theorem on bytes after DISCONNECT.\<close>

theorem agent_never_fails:
  assumes "agent_reach cfg n s" and "n \<noteq> 0" and "agent_enabled s ev" and "app_event ev"
  shows "\<exists>t. agent_handle ev s = Inr t \<and> agent_reach cfg n t
    \<and> (\<forall>r < aa_next_remote t. tc_impl (ri_tcpclient (aa_remotes t r)) \<noteq> None)
    \<and> (\<forall>k < aa_next_ses t. tc_impl (as_user_conn (aa_ses t k)) \<noteq> None
        \<and> tc_impl (as_session_conn (aa_ses t k)) \<noteq> None)"
proof -
  obtain t where t: "agent_handle ev s = Inr t" "agent_reach cfg n t" "agent_inv t" by (rule agent_run [OF assms])
  note D = agent_invD [OF t(3)]
  show ?thesis using t(1,2) D(2,3)
    by (intro exI [of _ t]) (simp add: ases_ok_def has_impls_def started_def del: not_None_eq)
qed

theorem agent_never_fails_witness:
  "\<exists>s t. agent_reach demo_agent_cfg 1 s \<and> agent_handle (AServerConnect 0) s = Inr t \<and> agent_reach demo_agent_cfg 1 t"
proof -
  obtain s where s: "agent_reach demo_agent_cfg 1 s" "aa_next_remote s = 1" using demo_agent_start by blast
  from agent_never_fails [OF s(1), of "AServerConnect 0"] s show ?thesis by auto
qed

subsection \<open>Flow control\<close>

text \<open>Both directions of every session keep the flow-control contract while no completion overlaps a
  handler: a direction whose source has been told to stop has more than half the queue limit
  outstanding, and is not corked any more once everything outstanding has completed.
  \<^verbatim>\<open>FlowRace\<close> has what is left of this when the threads overlap.\<close>

theorem agent_flow_control:
  assumes "agent_reach cfg n s" and "n \<noteq> 0" and "k < aa_next_ses s"
    and "x = aa_ses s k" and "limit = aa_queue_limit s"
  shows "(as_tunnel_corked x \<longrightarrow> limit \<noteq> 0 \<and> as_tunnel_traffic x > limit div 2)
    \<and> \<not> as_tunnel_corked ((ases_tunnel_complete limit ^^ unat (as_tunnel_traffic x)) x)
    \<and> (as_user_corked x \<longrightarrow> limit \<noteq> 0 \<and> as_user_traffic x > limit div 2)
    \<and> \<not> as_user_corked ((ases_user_complete limit ^^ unat (as_user_traffic x)) x)"
proof -
  have "agent_inv s" using agent_reach_ok [OF assms(1,2)] by (simp add: agent_ok_def)
  then have "ases_ok limit x" using agent_invD(3) assms(3-5) by blast
  then have g: "agent_tunnel.gate_ok limit x" "agent_user.gate_ok limit x" by (simp_all add: ases_ok_def)
  show ?thesis using agent_tunnel.all_complete [OF g(1)] agent_user.all_complete [OF g(2)] g
    by (simp add: agent_tunnel.gate_ok_def agent_user.gate_ok_def)
qed

theorem agent_flow_control_witness:
  "\<exists>s. agent_reach demo_agent_cfg 1 s \<and> \<not> as_user_corked ((ases_user_complete 2 ^^ unat (as_user_traffic (aa_ses s 0))) (aa_ses s 0))"
proof -
  obtain s where s: "agent_reach demo_agent_cfg 1 s" "aa_next_ses s = 1" "aa_queue_limit s = 2"
    using demo_agent_session by blast
  from agent_flow_control [OF s(1) _ _ refl refl, of 0] s show ?thesis by auto
qed

subsection \<open>Sessions\<close>

lemma started_io:
  assumes "client_Start blank ep t = Inr u" and "socket blank \<noteq> None"
  shows "\<exists>c. tc_impl u = Some c \<and> AsyncConnect (ep_ip ep) (ep_port ep) \<in> set (io (cl_conn c))"
  using assms
  by (auto simp: client_Start_def client_conn_Start_def on_base_def emit_def Let_def and_then_eq_Inr split: if_splits)

text \<open>C24: CONNECT for a new user of a configured service creates a session of its own, entered under
  that user and nobody else, and starts its two connections, one to the relay the message came from and
  one to the endpoint the load policy picks.\<close>

theorem agent_connect:
  assumes "agent_reach cfg n s" and "n \<noteq> 0" and "r < aa_next_remote s"
    and "map_find (ri_users (aa_remotes s r)) (port, uid) = None"
    and "map_find (aa_service_ep s) port = Some eps" and "eps \<noteq> []"
    and "k = aa_next_ses s" and "ep = agent_pick (aa_load_policy s) uid ip eps"
  shows "\<exists>t c d. agent_handle (AServerRecv (r2a_encode (R2A_connect port uid ip uport)) r) s = Inr t
    \<and> map_find (ri_users (aa_remotes t r)) = (map_find (ri_users (aa_remotes s r)))((port, uid) \<mapsto> k)
    \<and> (\<forall>q. q \<noteq> r \<longrightarrow> aa_remotes t q = aa_remotes s q) \<and> (\<forall>j. j \<noteq> k \<longrightarrow> aa_ses t j = aa_ses s j)
    \<and> (\<forall>q usr. q < aa_next_remote s \<longrightarrow> (usr, k) \<notin> set (ri_users (aa_remotes s q)))
    \<and> tc_impl (as_session_conn (aa_ses t k)) = Some c \<and> tc_impl (as_user_conn (aa_ses t k)) = Some d
    \<and> AsyncConnect (ep_ip (ri_ep (aa_remotes s r))) (ep_port (ri_ep (aa_remotes s r))) \<in> set (io (cl_conn c))
    \<and> AsyncConnect (ep_ip ep) (ep_port ep) \<in> set (io (cl_conn d)) \<and> ep \<in> set eps
    \<and> \<not> as_ready (aa_ses t k)"
proof -
  have inv: "agent_inv s" using agent_reach_ok [OF assms(1,2)] by (simp add: agent_ok_def)
  note D = agent_invD [OF inv]
  have svc: "map_find (aa_service_ep s) (fst (port, uid)) = Some eps" using assms(5) by simp
  from on_connect_eq [OF D(1) assms(4) svc assms(6), of ip] obtain t x y u v where
    t: "agent_on_connect r (port, uid) ip s = Inr t"
      "client_Start new_tcp_conn (ri_ep (aa_remotes s r)) x = Inr y" "client_Start new_raw_conn ep u = Inr v"
      "t = s\<lparr>aa_next_io := Suc (Suc (aa_next_io s)), aa_next_ses := Suc (aa_next_ses s),
        aa_ses := (aa_ses s)(aa_next_ses s := new_ases v y),
        aa_remotes := (aa_remotes s)(r := (aa_remotes s r)\<lparr>ri_users :=
          map_put (port, uid) (aa_next_ses s) (ri_users (aa_remotes s r))\<rparr>)\<rparr>"
    unfolding snd_conv assms(8) [symmetric] by metis
  have "r2a_decode (r2a_encode (R2A_connect port uid ip uport) @ []) = Some (R2A_connect port uid ip uport)"
    by (rule r2a_codec.dec_enc)
  then have h: "agent_handle (AServerRecv (r2a_encode (R2A_connect port uid ip uport)) r) s = Inr t"
    using t(1) by (simp add: agent__OnServerRecv_def del: r2a_encode.simps)
  obtain c where c: "tc_impl y = Some c" "AsyncConnect (ep_ip (ri_ep (aa_remotes s r))) (ep_port (ri_ep (aa_remotes s r))) \<in> set (io (cl_conn c))"
    using started_io [OF t(2)] by auto
  obtain d where d: "tc_impl v = Some d" "AsyncConnect (ep_ip ep) (ep_port ep) \<in> set (io (cl_conn d))"
    using started_io [OF t(3)] by auto
  have "ep \<in> set eps" using assms(6,8) by (simp add: agent_pick_def Let_def)
  moreover have "(usr, k) \<notin> set (ri_users (aa_remotes s q))" if "q < aa_next_remote s" for q usr
    using D(4) [OF that, of "usr" k] assms(7) by (cases usr) auto
  moreover have "map_find (ri_users (aa_remotes t r)) = (map_find (ri_users (aa_remotes s r)))((port, uid) \<mapsto> k)"
    "\<forall>q. q \<noteq> r \<longrightarrow> aa_remotes t q = aa_remotes s q" "\<forall>j. j \<noteq> k \<longrightarrow> aa_ses t j = aa_ses s j"
    "aa_ses t k = new_ases v y" by (simp_all add: t(4) assms(7))
  ultimately show ?thesis using h c d
    by (intro exI [of _ t] exI [of _ c] exI [of _ d]) (simp add: new_ases_def del: r2a_encode.simps agent_handle.simps)
qed

theorem agent_connect_witness:
  "\<exists>s t. agent_reach demo_agent_cfg 1 s \<and> agent_handle demo_connect s = Inr t
    \<and> map_find (ri_users (aa_remotes t 0)) (80, 1) = Some 0"
proof -
  obtain s where s: "agent_reach demo_agent_cfg 1 s" "aa_next_remote s = 1" "aa_next_ses s = 0"
    "map_find (aa_service_ep s) 80 = Some [Endpoint 1 7000]" "ri_users (aa_remotes s 0) = []"
    using demo_agent_start by blast
  from agent_connect [OF s(1) _ _ _ s(4) _ refl refl, of 0 1 9 9] s show ?thesis
    unfolding demo_connect_def by (auto simp del: r2a_encode.simps agent_handle.simps)
qed

subsection \<open>Data\<close>

text \<open>What a client has asked of its connection so far.\<close>

definition client_log :: "('p, 'z) client \<Rightarrow> 'p io_call list" where
  "client_log t = (case tc_impl t of None \<Rightarrow> [] | Some c \<Rightarrow> io (cl_conn c))"

lemma log_BlockRecv [simp]: "client_log (client_BlockRecv True t) = client_log t"
  by (simp add: client_log_def client_BlockRecv_def on_impl_def on_base_def conn_BlockRecv_def split: option.split)

lemma log_Send: "client_Send d p t = Inr u \<Longrightarrow> client_log u = client_log t @ [Post (TSend d p)]"
  by (auto simp: client_Send_def client_log_def on_base_def conn_Send_def emit_def split: option.splits)

lemma log_SendV: "client_SendV ds p t = Inr u \<Longrightarrow> client_log u = client_log t @ [Post (TSendV ds p)]"
  by (auto simp: client_SendV_def client_log_def on_base_def conn_SendV_def emit_def split: option.splits)

lemma submit_logs [simp]:
  "client_log (as_user_conn (ases_user_submit l x)) = client_log (as_user_conn x)"
  "as_session_conn (ases_user_submit l x) = as_session_conn x"
  "as_ready (ases_user_submit l x) = as_ready x"
  "client_log (as_session_conn (ases_tunnel_submit l x)) = client_log (as_session_conn x)"
  "as_user_conn (ases_tunnel_submit l x) = as_user_conn x"
  by (simp_all add: ases_user_submit_def ases_tunnel_submit_def Let_def)

lemma user_data_up:
  assumes "agent_handle (AUserRecv data r k usr) s = Inr t"
  defines "pkt \<equiv> Post (TSendV [a2r_encode (A2R_data (fst usr) (snd usr)), data] (Some (AUserDone r k usr)))"
  shows "client_log (as_session_conn (aa_ses t k)) =
      client_log (as_session_conn (aa_ses s k)) @ (if as_ready (aa_ses s k) then [pkt] else [])"
    and "client_log (ri_tcpclient (aa_remotes t r)) =
      client_log (ri_tcpclient (aa_remotes s r)) @ (if as_ready (aa_ses s k) then [] else [pkt])"
    and "q \<noteq> r \<Longrightarrow> aa_remotes t q = aa_remotes s q" and "j \<noteq> k \<Longrightarrow> aa_ses t j = aa_ses s j"
    and "as_ready (aa_ses t k) = as_ready (aa_ses s k)" and "aa_queue_limit t = aa_queue_limit s"
  using assms
  by (auto simp: agent__OnUserRecv_def agent_to_relay_def on_session_conn_def on_tunnel_def and_then_eq_Inr
      upd_ases_def upd_remote_def log_SendV pkt_def simp del: a2r_encode.simps split: if_splits)

lemma user_data_keeps:
  assumes "agent_handle (AUserRecv data r k usr) s = Inr t"
  shows "aa_next_ses t = aa_next_ses s" and "as_user_traffic (aa_ses t k) = as_user_traffic (aa_ses s k) + 1"
    and "as_tunnel_traffic (aa_ses t k) = as_tunnel_traffic (aa_ses s k)"
  using assms
  by (auto simp: agent__OnUserRecv_def agent_to_relay_def on_session_conn_def on_tunnel_def and_then_eq_Inr
      upd_ases_def upd_remote_def ases_user_submit_def Let_def simp del: a2r_encode.simps split: if_splits)

lemma session_connect_keeps:
  assumes "agent_handle (ASessionConnect r k usr) s = Inr t"
  shows "aa_next_ses t = aa_next_ses s" and "as_user_traffic (aa_ses t k) = as_user_traffic (aa_ses s k)"
    and "as_tunnel_traffic (aa_ses t k) = as_tunnel_traffic (aa_ses s k)" and "as_ready (aa_ses t k)"
    and "as_user_disconnected (aa_ses t k) = as_user_disconnected (aa_ses s k)" and "aa_remotes t = aa_remotes s"
  using assms
  by (auto simp: agent__OnSessionConnect_def on_session_conn_def and_then_eq_Inr upd_ases_def simp del: a2r_encode.simps)

lemma relay_data_down:
  assumes "agent_on_data r usr payload s = Inr t" and "map_find (ri_users (aa_remotes s r)) usr = Some k"
  shows "client_log (as_user_conn (aa_ses t k)) =
      client_log (as_user_conn (aa_ses s k)) @ [Post (TSend payload (Some (ATunnelDone r k usr)))]"
    and "j \<noteq> k \<Longrightarrow> aa_ses t j = aa_ses s j" and "aa_remotes t = aa_remotes s"
  using assms
  by (auto simp: agent_on_data_def on_user_conn_def and_then_eq_Inr upd_ases_def log_Send)

lemma r2a_data_read:
  "r2a_decode (r2a_encode (R2A_data port uid) @ payload) = Some (R2A_data port uid)"
  "drop (r2a_sizeof (R2A_data port uid)) (r2a_encode (R2A_data port uid) @ payload) = payload"
  by (rule r2a_codec.dec_enc, rule r2a_codec.payload)

lemma a2r_data_read:
  "a2r_decode (a2r_encode (A2R_data port uid) @ payload) = Some (A2R_data port uid)"
  "drop (a2r_sizeof (A2R_data port uid)) (a2r_encode (A2R_data port uid) @ payload) = payload"
  by (rule a2r_codec.dec_enc, rule a2r_codec.payload)

lemma recv_data_eq:
  "agent_handle (AServerRecv (r2a_encode (R2A_data port uid) @ payload) r) s = agent_on_data r (port, uid) payload s"
  "agent_handle (ASessionRecv (r2a_encode (R2A_data port uid) @ payload) r k usr) s = agent_on_data r (port, uid) payload s"
  by (simp_all add: agent__OnServerRecv_def agent__OnSessionRecv_def r2a_data_read
      del: r2a_encode.simps r2a_sizeof.simps drop_append)

subsection \<open>Where the code goes wrong\<close>

text \<open>The bytes of one user may leave on two connections.  Until the session connection is up they
  go over the shared tunnel, afterwards over the session connection; nothing waits for the first ones
  to arrive, so the relay may see the later bytes of the stream first.\<close>

theorem agent_splits_stream:
  assumes "\<not> as_ready (aa_ses s k)"
    and "fold_result agent_handle [AUserRecv x r k usr, ASessionConnect r k usr, AUserRecv y r k usr] s = Inr t"
    and "pkt = (\<lambda>data. Post (TSendV [a2r_encode (A2R_data (fst usr) (snd usr)), data] (Some (AUserDone r k usr))))"
  shows "client_log (ri_tcpclient (aa_remotes t r)) = client_log (ri_tcpclient (aa_remotes s r)) @ [pkt x]
    \<and> client_log (as_session_conn (aa_ses t k)) = client_log (as_session_conn (aa_ses s k))
        @ [Post (TSend (a2r_encode (A2R_session (fst usr) (snd usr))) None), pkt y]"
proof -
  obtain s1 s2 where st: "agent_handle (AUserRecv x r k usr) s = Inr s1"
    "agent_handle (ASessionConnect r k usr) s1 = Inr s2" "agent_handle (AUserRecv y r k usr) s2 = Inr t"
    using assms(2) by (auto simp: and_then_eq_Inr simp del: agent_handle.simps)
  have "as_ready (aa_ses s2 k)" "aa_remotes s2 = aa_remotes s1"
    "client_log (as_session_conn (aa_ses s2 k)) = client_log (as_session_conn (aa_ses s1 k))
      @ [Post (TSend (a2r_encode (A2R_session (fst usr) (snd usr))) None)]"
    using st(2) by (auto simp: agent__OnSessionConnect_def on_session_conn_def and_then_eq_Inr upd_ases_def log_Send
        simp del: a2r_encode.simps)
  then show ?thesis
    using user_data_up(1,2) [OF st(1)] user_data_up(1,2) [OF st(3)] assms(1,3) by (simp del: a2r_encode.simps)
qed

theorem agent_splits_stream_witness:
  "\<exists>s t. agent_reach demo_agent_cfg 1 s \<and> agent_reach demo_agent_cfg 1 t
    \<and> client_log (ri_tcpclient (aa_remotes t 0)) = client_log (ri_tcpclient (aa_remotes s 0))
        @ [Post (TSendV [a2r_encode (A2R_data 80 1), [1]] (Some (AUserDone 0 0 (80, 1))))]"
proof -
  obtain s u v where s: "agent_reach demo_agent_cfg 1 s" "aa_next_remote s = 1" "aa_next_ses s = 1"
    "aa_ses s 0 = new_ases u v" using demo_agent_session by blast
  let ?e = "[AUserRecv [1] 0 0 (80, 1), ASessionConnect 0 0 (80, 1), AUserRecv [2] 0 0 (80, 1)]"
  obtain t where t: "fold_result agent_handle ?e s = Inr t" "agent_reach demo_agent_cfg 1 t"
  proof -
    have b0: "agent_traffic_bounded s" "as_user_traffic (aa_ses s 0) = 0" "as_tunnel_traffic (aa_ses s 0) = 0"
      using s(3,4) by (simp_all add: agent_traffic_bounded_def new_ases_def)
    obtain s1 where s1: "agent_handle (AUserRecv [1] 0 0 (80, 1)) s = Inr s1" "agent_reach demo_agent_cfg 1 s1"
      "aa_next_remote s1 = 1"
      using agent_run [OF s(1), of "AUserRecv [1] 0 0 (80, 1)"] s(2,3) b0(1) by auto
    note k1 = user_data_keeps [OF s1(1)]
    obtain s2 where s2: "agent_handle (ASessionConnect 0 0 (80, 1)) s1 = Inr s2" "agent_reach demo_agent_cfg 1 s2"
      "aa_next_remote s2 = 1"
      using agent_run [OF s1(2), of "ASessionConnect 0 0 (80, 1)"] s1(3) k1(1) s(3) by auto
    note k2 = session_connect_keeps [OF s2(1)]
    have b2: "agent_traffic_bounded s2" using k1 k2 s(3) b0 by (simp add: agent_traffic_bounded_def)
    obtain t where t: "agent_handle (AUserRecv [2] 0 0 (80, 1)) s2 = Inr t" "agent_reach demo_agent_cfg 1 t"
      using agent_run [OF s2(2), of "AUserRecv [2] 0 0 (80, 1)"] s2(3) b2 k1(1) k2(1) s(3) by auto
    show ?thesis by (rule that [OF _ t(2)]) (simp add: s1(1) s2(1) t(1) del: agent_handle.simps)
  qed
  have "\<not> as_ready (aa_ses s 0)" by (simp add: s(4) new_ases_def)
  from agent_splits_stream [OF this t(1) refl] s(1) t(2) show ?thesis
    by (auto simp del: a2r_encode.simps)
qed

text \<open>C28: once the relay has sent DISCONNECT for a user whose session connection is up, the next bytes
  that user's service sends are posted to the session connection, which is closed but still counts as
  ready; the posted SendV then throws out of the connection's \<open>io_service\<close>.\<close>

theorem agent_throws_after_disconnect:
  assumes "map_find (ri_users (aa_remotes s r)) (port, uid) = Some k" and "as_ready (aa_ses s k)"
    and "\<not> as_user_disconnected (aa_ses s k)" and "tc_impl (as_session_conn (aa_ses s k)) \<noteq> None"
    and "fold_result agent_handle [AServerRecv (r2a_encode (R2A_disconnect port uid)) r,
      AUserRecv data r k (port, uid)] s = Inr t"
    and "pkt = TSendV [a2r_encode (A2R_data port uid), data] (Some (AUserDone r k (port, uid)))"
  shows "List.last (client_log (as_session_conn (aa_ses t k))) = Post pkt
    \<and> agent_handle (ASessionNet k (CevConn (EvRun pkt))) t = Inl BadFunctionCall"
proof -
  have "r2a_decode (r2a_encode (R2A_disconnect port uid) @ []) = Some (R2A_disconnect port uid)" by (rule r2a_codec.dec_enc)
  then have d: "agent_handle (AServerRecv (r2a_encode (R2A_disconnect port uid)) r) s = Inr (agent_on_disconnect r (port, uid) s)"
    by (simp add: agent__OnServerRecv_def del: r2a_encode.simps)
  define s1 where "s1 = agent_on_disconnect r (port, uid) s"
  have s1: "aa_ses s1 k = (close_session_conn (aa_ses s k))\<lparr>as_tunnel_disconnected := True\<rparr>"
    using assms(1,3) by (simp add: s1_def agent_on_disconnect_def agent__CleanSession_def upd_ases_def close_session_conn_def)
  have run: "agent_handle (AUserRecv data r k (port, uid)) s1 = Inr t"
    using assms(5) d by (simp add: s1_def and_then_eq_Inr del: agent_handle.simps r2a_encode.simps)
  obtain c where c: "tc_impl (as_session_conn (aa_ses s k)) = Some c" using assms(4) by blast
  have "tc_impl (as_session_conn (aa_ses t k)) = Some (on_base (conn_SendV [a2r_encode (A2R_data port uid), data]
      (Some (AUserDone r k (port, uid)))) (on_base tcp_Close c))"
    using run assms(2) c
    by (auto simp: agent__OnUserRecv_def agent_to_relay_def on_session_conn_def and_then_eq_Inr upd_ases_def s1
        close_session_conn_def tcp_client_Close_def on_impl_def client_SendV_def simp del: a2r_encode.simps)
  then show ?thesis
    by (simp add: client_log_def on_base_def conn_SendV_def emit_def assms(6) on_session_conn_def impl_step_def
        on_base_result_def tcp__SendV_def tcp_Close_def close_socket_def del: a2r_encode.simps)
qed

theorem agent_throws_after_disconnect_witness:
  "\<exists>t. agent_reach demo_agent_cfg 1 t
    \<and> agent_handle (ASessionNet 0 (CevConn (EvRun (TSendV [a2r_encode (A2R_data 80 1), [1]]
        (Some (AUserDone 0 0 (80, 1))))))) t = Inl BadFunctionCall"
proof -
  obtain s u v where s: "agent_reach demo_agent_cfg 1 s" "aa_next_remote s = 1" "aa_next_ses s = 1"
    "map_find (ri_users (aa_remotes s 0)) (80, 1) = Some 0" "aa_ses s 0 = new_ases u v"
    using demo_agent_session by blast
  obtain s1 where s1: "agent_handle (ASessionConnect 0 0 (80, 1)) s = Inr s1" "agent_reach demo_agent_cfg 1 s1"
    "aa_next_remote s1 = 1" "agent_inv s1"
    using agent_run [OF s(1), of "ASessionConnect 0 0 (80, 1)"] s(2,3) by auto
  note k = session_connect_keeps [OF s1(1)]
  have b: "agent_traffic_bounded s1" "aa_next_ses s1 = 1" "\<not> as_user_disconnected (aa_ses s1 0)"
    using k(1-3,5) s(3,5) by (simp_all add: agent_traffic_bounded_def new_ases_def)
  have impl: "tc_impl (as_session_conn (aa_ses s1 0)) \<noteq> None"
    using agent_invD(3) [OF s1(4), of 0] b(2) by (simp add: ases_ok_def has_impls_def started_def del: not_None_eq)
  let ?d = "AServerRecv (r2a_encode (R2A_disconnect 80 1)) 0"
  obtain s2 where s2: "agent_handle ?d s1 = Inr s2" "agent_reach demo_agent_cfg 1 s2" "aa_next_remote s2 = 1"
    using agent_run [OF s1(2), of ?d] s1(3) b(1) by auto
  have "r2a_decode (r2a_encode (R2A_disconnect 80 1) @ []) = Some (R2A_disconnect 80 1)" by (rule r2a_codec.dec_enc)
  then have "s2 = agent_on_disconnect 0 (80, 1) s1"
    using s2(1) by (simp add: agent__OnServerRecv_def del: r2a_encode.simps)
  then have b2: "agent_traffic_bounded s2" "aa_next_ses s2 = 1"
    using b k(6) s(4)
    by (auto simp: agent_on_disconnect_def agent__CleanSession_def upd_ases_def close_session_conn_def agent_traffic_bounded_def)
  obtain t where t: "agent_handle (AUserRecv [1] 0 0 (80, 1)) s2 = Inr t" "agent_reach demo_agent_cfg 1 t"
    using agent_run [OF s2(2), of "AUserRecv [1] 0 0 (80, 1)"] s2(3) b2 by auto
  have run: "fold_result agent_handle [?d, AUserRecv [1] 0 0 (80, 1)] s1 = Inr t"
    by (simp add: s2(1) t(1) del: agent_handle.simps r2a_encode.simps)
  have u: "map_find (ri_users (aa_remotes s1 0)) (80, 1) = Some 0" using k(6) s(4) by simp
  from agent_throws_after_disconnect [OF u k(4) b(3) impl run refl] t(2) show ?thesis by blast
qed

end
