(* ===== verification/FlowRace.thy ===== *)
theory FlowRace
  imports FlowGate Connection RelaySessions AgentInv
begin

text \<open>
  The flow control of one direction of a session under the threads that really run it.  The handler
  that passes a packet on runs on the strand of the program.  The closure it hands to \<open>Send\<close> does
  not: \<open>__DoSend\<close> (\<^verbatim>\<open>network/tcpconnection.hpp\<close>, line 231) posts it straight to the
  \<open>io_service\<close> of the connection, whose thread runs it while the handler may be anywhere in its
  text.  Here handler and closures advance one access to the shared members at a time: the counter
  (\<open>std::atomic\<close>), the flag (a plain \<open>bool\<close>) and the calls of BlockRecv.

  The text is that of the DATA branch of r-nat-s (\<^verbatim>\<open>app1/tunnel.cpp\<close>); the two directions of
  r-nat-c (\<^verbatim>\<open>app1/tunnel.cpp\<close>, \<^verbatim>\<open>app1/session_tunnel.cpp\<close>, \<^verbatim>\<open>app1/user.cpp\<close>) have the
  same statements.  (The user direction of r-nat-s tests the counter of the other direction, which
  \<^verbatim>\<open>RelayProps\<close> shows to lose a wake-up even without overlap.)  \<open>n\<close> bounds how many closures of the direction run at once: one when they all
  come from one connection, as in the DATA branches; two in the user direction of r-nat-c, whose closures
  come from the tunnel or from the session connection.  Accesses are interleaved, none is torn or
  reordered, which is more than C++ promises for the flag.

  \<open>flow_gate\<close> (\<^verbatim>\<open>FlowGate\<close>) is what this comes to when a closure never meets the
  handler; the lemmas at the end say so, and the models of the two programs take it from there.
\<close>

subsection \<open>The statements\<close>

text \<open>Where the handler is: before the increment, before each test, before the flag is set, before
  BlockRecv and before Send.\<close>

datatype handler_at = HIdle | HFlag | HTraffic | HCork | HBlock | HSend

text \<open>Where a closure is, after its decrement.\<close>

datatype closure_at = CFlag | CTraffic | CClear | CResume

record flow_race =
  fr_traffic :: u32
  fr_corked :: bool
  fr_sent :: nat                   \<comment> \<open>closures handed to Send that have not begun\<close>
  fr_calls :: "bool list"          \<comment> \<open>the arguments of BlockRecv, in the order of the calls\<close>
  fr_handler :: handler_at
  fr_closures :: "closure_at list" \<comment> \<open>the closures that have begun\<close>

definition race_init :: flow_race where
  "race_init = \<lparr>fr_traffic = 0, fr_corked = False, fr_sent = 0, fr_calls = [], fr_handler = HIdle, fr_closures = []\<rparr>"

definition race_handler :: "u32 \<Rightarrow> flow_race \<Rightarrow> flow_race" where
  "race_handler limit s =
     (case fr_handler s of
        HIdle \<Rightarrow> s\<lparr>fr_traffic := fr_traffic s + 1, fr_handler := HFlag\<rparr>
      | HFlag \<Rightarrow> if limit \<noteq> 0 \<and> \<not> fr_corked s then s\<lparr>fr_handler := HTraffic\<rparr> else s\<lparr>fr_handler := HSend\<rparr>
      | HTraffic \<Rightarrow> if fr_traffic s > limit then s\<lparr>fr_handler := HCork\<rparr> else s\<lparr>fr_handler := HSend\<rparr>
      | HCork \<Rightarrow> s\<lparr>fr_corked := True, fr_handler := HBlock\<rparr>
      | HBlock \<Rightarrow> s\<lparr>fr_calls := fr_calls s @ [True], fr_handler := HSend\<rparr>
      | HSend \<Rightarrow> s\<lparr>fr_sent := fr_sent s + 1, fr_handler := HIdle\<rparr>)"

definition race_begin :: "flow_race \<Rightarrow> flow_race" where
  "race_begin s = s\<lparr>fr_sent := fr_sent s - 1, fr_traffic := fr_traffic s - 1, fr_closures := fr_closures s @ [CFlag]\<rparr>"

definition drop_nth :: "nat \<Rightarrow> 'a list \<Rightarrow> 'a list" where
  "drop_nth i xs = take i xs @ drop (Suc i) xs"

definition race_closure :: "u32 \<Rightarrow> nat \<Rightarrow> flow_race \<Rightarrow> flow_race" where
  "race_closure limit i s =
     (case fr_closures s ! i of
        CFlag \<Rightarrow> if limit \<noteq> 0 \<and> fr_corked s then s\<lparr>fr_closures := (fr_closures s)[i := CTraffic]\<rparr>
                 else s\<lparr>fr_closures := drop_nth i (fr_closures s)\<rparr>
      | CTraffic \<Rightarrow> if fr_traffic s \<le> limit div 2 then s\<lparr>fr_closures := (fr_closures s)[i := CClear]\<rparr>
                    else s\<lparr>fr_closures := drop_nth i (fr_closures s)\<rparr>
      | CClear \<Rightarrow> s\<lparr>fr_corked := False, fr_closures := (fr_closures s)[i := CResume]\<rparr>
      | CResume \<Rightarrow> s\<lparr>fr_calls := fr_calls s @ [False], fr_closures := drop_nth i (fr_closures s)\<rparr>)"

text \<open>\<open>overlap\<close> says whether a closure may begin while the handler runs, and the handler while a
  closure does.  Fewer than \<open>2 ^ 32 - 1\<close> packets are under way at any time.\<close>

inductive race_step :: "bool \<Rightarrow> u32 \<Rightarrow> nat \<Rightarrow> flow_race \<Rightarrow> flow_race \<Rightarrow> bool" for overlap limit n where
  rs_handler: "(fr_handler s = HIdle \<Longrightarrow> fr_sent s < 2 ^ 32 - 2 \<and> (overlap \<or> fr_closures s = [])) \<Longrightarrow>
    race_step overlap limit n s (race_handler limit s)"
| rs_begin: "fr_sent s \<noteq> 0 \<Longrightarrow> length (fr_closures s) < n \<Longrightarrow> overlap \<or> fr_handler s = HIdle \<Longrightarrow>
    race_step overlap limit n s (race_begin s)"
| rs_closure: "i < length (fr_closures s) \<Longrightarrow> race_step overlap limit n s (race_closure limit i s)"

abbreviation race_reach :: "bool \<Rightarrow> u32 \<Rightarrow> nat \<Rightarrow> flow_race \<Rightarrow> bool" where
  "race_reach overlap limit n \<equiv> (race_step overlap limit n)\<^sup>*\<^sup>* race_init"

definition at_rest :: "flow_race \<Rightarrow> bool" where
  "at_rest s \<longleftrightarrow> fr_handler s = HIdle \<and> fr_closures s = []"

abbreviation "stops s \<equiv> length (filter id (fr_calls s))"
abbreviation "resumptions s \<equiv> length (filter Not (fr_calls s))"

subsection \<open>What holds in every interleaving\<close>

definition race_inv :: "u32 \<Rightarrow> flow_race \<Rightarrow> bool" where
  "race_inv limit s \<longleftrightarrow>
     fr_traffic s = of_nat (fr_sent s + (if fr_handler s = HIdle then 0 else 1))
     \<and> (fr_corked s \<longrightarrow> limit \<noteq> 0)
     \<and> (fr_handler s \<in> {HTraffic, HCork} \<longrightarrow> limit \<noteq> 0 \<and> \<not> fr_corked s)
     \<and> (fr_corked s \<longrightarrow> fr_handler s \<noteq> HIdle \<or> fr_sent s \<noteq> 0 \<or> set (fr_closures s) \<inter> {CFlag, CTraffic, CClear} \<noteq> {})
     \<and> stops s + of_bool (fr_handler s = HBlock) \<le> resumptions s + count_list (fr_closures s) CResume + of_bool (fr_corked s)"

lemma set_drop_nth: "i < length xs \<Longrightarrow> set xs = insert (xs ! i) (set (drop_nth i xs))"
  unfolding drop_nth_def by (metis Un_insert_right id_take_nth_drop list.simps(15) set_append)

lemma count_drop_nth: "i < length xs \<Longrightarrow> count_list xs x = count_list (drop_nth i xs) x + of_bool (xs ! i = x)"
  unfolding drop_nth_def by (subst id_take_nth_drop [of i xs]) auto

lemma set_update_drop_nth: "i < length xs \<Longrightarrow> set (xs[i := y]) = insert y (set (drop_nth i xs))"
  and count_update_drop_nth: "i < length xs \<Longrightarrow> count_list (xs[i := y]) x = count_list (drop_nth i xs) x + of_bool (y = x)"
  unfolding drop_nth_def by (auto simp: upd_conv_take_nth_drop)

lemma race_init_inv: "race_inv limit race_init"
  by (simp add: race_inv_def race_init_def)

lemma race_handler_inv: "race_inv limit s \<Longrightarrow> race_inv limit (race_handler limit s)"
  by (cases "fr_handler s") (auto simp: race_inv_def race_handler_def)

lemma race_begin_inv: "race_inv limit s \<Longrightarrow> fr_sent s \<noteq> 0 \<Longrightarrow> race_inv limit (race_begin s)"
  by (cases "fr_sent s") (auto simp: race_inv_def race_begin_def)

lemma race_closure_inv:
  assumes inv: "race_inv limit s" and i: "i < length (fr_closures s)"
  shows "race_inv limit (race_closure limit i s)"
proof -
  note W = set_drop_nth [OF i] count_drop_nth [OF i, of CResume] set_update_drop_nth [OF i] count_update_drop_nth [OF i]
  have busy: "0 < fr_sent s" if "\<not> (word_of_nat (fr_sent s) :: u32) \<le> limit div 2"
    using that by (cases "fr_sent s") auto
  show ?thesis
    using inv W busy by (cases "fr_closures s ! i"; cases "fr_corked s") (auto simp: race_inv_def race_closure_def)
qed

lemma race_step_inv: "race_step overlap limit n s t \<Longrightarrow> race_inv limit s \<Longrightarrow> race_inv limit t"
  by (induction rule: race_step.induct) (simp_all add: race_handler_inv race_begin_inv race_closure_inv)

lemma race_reach_inv: "race_reach overlap limit n s \<Longrightarrow> race_inv limit s"
  by (induction rule: rtranclp_induct) (auto intro: race_init_inv race_step_inv)

text \<open>With one closure at a time a stop is answered by one resumption.\<close>

definition race_inv1 :: "flow_race \<Rightarrow> bool" where
  "race_inv1 s \<longleftrightarrow> length (fr_closures s) \<le> 1
     \<and> (set (fr_closures s) \<inter> {CTraffic, CClear} \<noteq> {} \<longrightarrow> fr_corked s)
     \<and> stops s + of_bool (fr_handler s = HBlock) = resumptions s + count_list (fr_closures s) CResume + of_bool (fr_corked s)"

lemma race_inv1_step:
  assumes "race_step overlap limit 1 s t" and "race_inv limit s" and "race_inv1 s"
  shows "race_inv1 t"
  using assms
proof (induction rule: race_step.induct)
  case (rs_handler s)
  then show ?case by (cases "fr_handler s") (auto simp: race_inv_def race_inv1_def race_handler_def)
next
  case (rs_begin s)
  then show ?case by (auto simp: race_inv1_def race_begin_def)
next
  case (rs_closure i s)
  then obtain c where c: "fr_closures s = [c]" "i = 0"
    by (cases "fr_closures s") (auto simp: race_inv1_def)
  then show ?case using rs_closure by (cases c) (auto simp: race_inv1_def race_closure_def drop_nth_def)
qed

lemma race_reach_inv1: "race_reach overlap limit 1 s \<Longrightarrow> race_inv1 s"
proof (induction rule: rtranclp_induct)
  case base
  show ?case by (simp add: race_inv1_def race_init_def)
next
  case (step s t)
  then show ?case using race_inv1_step race_reach_inv by blast
qed

subsection \<open>Without overlap\<close>

text \<open>What the last call of BlockRecv asked for.\<close>

definition blocked_last :: "flow_race \<Rightarrow> bool" where
  "blocked_last s \<longleftrightarrow> fr_calls s \<noteq> [] \<and> last (fr_calls s)"

definition serial_inv :: "u32 \<Rightarrow> flow_race \<Rightarrow> bool" where
  "serial_inv limit s \<longleftrightarrow> (fr_closures s = [] \<or> fr_handler s = HIdle)
     \<and> fr_sent s + of_bool (fr_handler s \<noteq> HIdle) < 2 ^ 32 - 1
     \<and> blocked_last s = (fr_corked s \<and> fr_handler s \<noteq> HBlock \<or> fr_closures s = [CResume])
     \<and> (fr_closures s = [CResume] \<longrightarrow> \<not> fr_corked s)
     \<and> (fr_corked s \<and> fr_closures s = [] \<longrightarrow> fr_traffic s > limit div 2)
     \<and> (fr_handler s = HCork \<longrightarrow> fr_traffic s > limit)
     \<and> (fr_handler s = HBlock \<longrightarrow> fr_corked s)"

lemma u32_half_less: "(l :: u32) < n \<Longrightarrow> l div 2 < n"
  by (metis div_le_dividend le_less_trans unat_div_distrib word_le_nat_alt)

lemma u32_of_nat: "k < 2 ^ 32 \<Longrightarrow> unat (word_of_nat k :: u32) = k"
  by (simp add: unsigned_of_nat take_bit_nat_eq_self)

lemma u32_of_nat_le: "k < 2 ^ 32 \<Longrightarrow> (word_of_nat k :: u32) \<le> l \<longleftrightarrow> k \<le> unat l"
  by (simp add: word_le_nat_alt u32_of_nat)

lemma u32_less_Suc: "(l :: u32) < of_nat n \<Longrightarrow> n < 2 ^ 32 - 2 \<Longrightarrow> l < 1 + of_nat n"
  using u32_of_nat [of n] u32_of_nat [of "Suc n"] by (simp add: word_less_nat_alt)

lemma serial_step:
  assumes "race_step False limit 1 s t" and "race_inv limit s" and "race_inv1 s" and "serial_inv limit s"
  shows "serial_inv limit t"
  using assms
proof (induction rule: race_step.induct)
  case (rs_handler s)
  then show ?case
    by (cases "fr_handler s")
      (auto simp: race_inv_def serial_inv_def race_handler_def blocked_last_def u32_half_less u32_less_Suc u32_less_Suc [unfolded add.commute [of 1]])
next
  case (rs_begin s)
  then show ?case by (cases "fr_sent s") (auto simp: race_inv_def race_inv1_def serial_inv_def race_begin_def blocked_last_def)
next
  case (rs_closure i s)
  then obtain c where c: "fr_closures s = [c]" "i = 0"
    by (cases "fr_closures s") (auto simp: race_inv1_def)
  then show ?case using rs_closure
    by (cases c) (auto simp: race_inv_def race_inv1_def serial_inv_def race_closure_def drop_nth_def blocked_last_def)
qed

lemma serial_reach: "race_reach False limit 1 s \<Longrightarrow> serial_inv limit s"
proof (induction rule: rtranclp_induct)
  case base
  show ?case by (simp add: serial_inv_def race_init_def blocked_last_def)
next
  case (step s t)
  then show ?case using serial_step race_reach_inv race_reach_inv1 by blast
qed

subsection \<open>A run that overlaps\<close>

lemma overlap_handler: "race_reach True limit n s \<Longrightarrow> (fr_handler s = HIdle \<Longrightarrow> fr_sent s < 2 ^ 32 - 2) \<Longrightarrow>
    race_handler limit s = t \<Longrightarrow> race_reach True limit n t"
  using rs_handler [of s True limit n] by (auto intro: rtranclp.rtrancl_into_rtrancl)

lemma overlap_begin: "race_reach True limit (Suc n) s \<Longrightarrow> fr_sent s \<noteq> 0 \<Longrightarrow> fr_closures s = [] \<Longrightarrow> race_begin s = t \<Longrightarrow>
    race_reach True limit (Suc n) t"
  using rs_begin [of s "Suc n" True limit] by (auto intro: rtranclp.rtrancl_into_rtrancl)

lemma overlap_closure: "race_reach True limit n s \<Longrightarrow> fr_closures s \<noteq> [] \<Longrightarrow> race_closure limit 0 s = t \<Longrightarrow> race_reach True limit n t"
  using rs_closure [of 0 s True limit n] by (auto intro: rtranclp.rtrancl_into_rtrancl)

abbreviation race_at :: "nat \<Rightarrow> bool \<Rightarrow> nat \<Rightarrow> bool list \<Rightarrow> handler_at \<Rightarrow> flow_race" where
  "race_at k c m calls h \<equiv> \<lparr>fr_traffic = word_of_nat k, fr_corked = c, fr_sent = m, fr_calls = calls, fr_handler = h, fr_closures = []\<rparr>"

lemma race_fill:
  assumes "unat limit < 2 ^ 32 - 2" and "limit \<noteq> 0" and "k \<le> unat limit"
  shows "race_reach True limit n (race_at k False k [] HIdle)"
  using assms(3)
proof (induction k)
  case 0
  show ?case by (simp add: race_init_def)
next
  case (Suc k)
  then have r: "race_reach True limit n (race_at k False k [] HIdle)" by simp
  have le: "\<not> limit < (word_of_nat (Suc k) :: u32)"
    using u32_of_nat_le [of "Suc k" limit] Suc.prems assms(1) by (simp add: not_less del: of_nat_Suc)
  have "race_reach True limit n (race_at (Suc k) False k [] HFlag)"
    by (rule overlap_handler [OF r]) (use Suc.prems assms in \<open>simp_all add: race_handler_def\<close>)
  then have "race_reach True limit n (race_at (Suc k) False k [] HTraffic)"
    by (rule overlap_handler) (use assms in \<open>simp_all add: race_handler_def\<close>)
  then have "race_reach True limit n (race_at (Suc k) False k [] HSend)"
    by (rule overlap_handler) (use le in \<open>simp_all add: race_handler_def del: of_nat_Suc\<close>)
  then show ?case by (rule overlap_handler) (simp_all add: race_handler_def)
qed

lemma race_stop:
  assumes "unat limit < 2 ^ 32 - 2" and "limit \<noteq> 0"
  shows "race_reach True limit n (race_at (Suc (unat limit)) True (unat limit) [] HBlock)"
proof -
  let ?L = "unat limit"
  have gt: "limit < (word_of_nat (Suc ?L) :: u32)"
    using u32_of_nat_le [of "Suc ?L" limit] assms(1) by (simp add: not_le [symmetric] del: of_nat_Suc)
  have "race_reach True limit n (race_at ?L False ?L [] HIdle)" by (rule race_fill [OF assms order_refl])
  then have "race_reach True limit n (race_at (Suc ?L) False ?L [] HFlag)"
    by (rule overlap_handler) (use assms in \<open>simp_all add: race_handler_def\<close>)
  then have "race_reach True limit n (race_at (Suc ?L) False ?L [] HTraffic)"
    by (rule overlap_handler) (use assms in \<open>simp_all add: race_handler_def\<close>)
  then have "race_reach True limit n (race_at (Suc ?L) False ?L [] HCork)"
    by (rule overlap_handler) (use gt in \<open>simp_all add: race_handler_def del: of_nat_Suc\<close>)
  then show ?thesis by (rule overlap_handler) (simp_all add: race_handler_def)
qed

lemma race_drain_stopped:
  assumes "unat limit < 2 ^ 32 - 2" and "limit \<noteq> 0" and "j \<le> unat limit - unat limit div 2"
  shows "race_reach True limit 1 (race_at (Suc (unat limit) - j) True (unat limit - j) [] HBlock)"
  using assms(3)
proof (induction j)
  case 0
  show ?case using race_stop [OF assms(1,2)] by simp
next
  case (Suc j)
  let ?k = "unat limit - j"
  have k: "Suc (unat limit) - j = Suc ?k" "?k = Suc (unat limit - Suc j)" using Suc.prems by auto
  have gt: "\<not> (word_of_nat ?k :: u32) \<le> limit div 2"
    using u32_of_nat_le [of ?k "limit div 2"] Suc.prems assms(1) by (simp add: unat_div_distrib)
  have "race_reach True limit 1 (race_at (Suc ?k) True ?k [] HBlock)" using Suc by (simp add: k(1))
  then have "race_reach True limit 1 ((race_at ?k True (?k - 1) [] HBlock)\<lparr>fr_closures := [CFlag]\<rparr>)"
    unfolding One_nat_def by (rule overlap_begin) (use k(2) in \<open>simp_all add: race_begin_def\<close>)
  then have "race_reach True limit 1 ((race_at ?k True (?k - 1) [] HBlock)\<lparr>fr_closures := [CTraffic]\<rparr>)"
    by (rule overlap_closure) (use assms in \<open>simp_all add: race_closure_def\<close>)
  then have "race_reach True limit 1 (race_at ?k True (?k - 1) [] HBlock)"
    by (rule overlap_closure) (use gt in \<open>simp_all add: race_closure_def drop_nth_def\<close>)
  then show ?case by simp
qed

lemma race_drain:
  "race_reach True limit 1 (race_at k False k calls HIdle) \<Longrightarrow> race_reach True limit 1 (race_at 0 False 0 calls HIdle)"
proof (induction k)
  case (Suc k)
  have "race_reach True limit 1 ((race_at k False k calls HIdle)\<lparr>fr_closures := [CFlag]\<rparr>)"
    using Suc.prems unfolding One_nat_def by (rule overlap_begin) (simp_all add: race_begin_def)
  then have "race_reach True limit 1 (race_at k False k calls HIdle)"
    by (rule overlap_closure) (simp_all add: race_closure_def drop_nth_def)
  then show ?case by (rule Suc.IH)
qed

lemma race_stalls:
  assumes "2 \<le> unat limit" and "unat limit < 2 ^ 32 - 2"
  shows "race_reach True limit 1 (race_at 0 False 0 [False, True] HIdle)"
proof -
  let ?h = "unat limit div 2"
  have l0: "limit \<noteq> 0" using assms(1) by auto
  have h: "Suc (unat limit) - (unat limit - ?h) = Suc ?h" "unat limit - (unat limit - ?h) = ?h" "?h \<noteq> 0"
    using assms(1) by auto
  have le: "(word_of_nat ?h :: u32) \<le> limit div 2"
    using u32_of_nat_le [of ?h "limit div 2"] assms(2) by (simp add: unat_div_distrib)
  have "race_reach True limit 1 (race_at (Suc ?h) True ?h [] HBlock)"
    using race_drain_stopped [OF assms(2) l0 order_refl] by (simp add: h)
  then have "race_reach True limit 1 ((race_at ?h True (?h - 1) [] HBlock)\<lparr>fr_closures := [CFlag]\<rparr>)"
    unfolding One_nat_def by (rule overlap_begin) (use h(3) in \<open>simp_all add: race_begin_def\<close>)
  then have "race_reach True limit 1 ((race_at ?h True (?h - 1) [] HBlock)\<lparr>fr_closures := [CTraffic]\<rparr>)"
    by (rule overlap_closure) (use l0 in \<open>simp_all add: race_closure_def\<close>)
  then have "race_reach True limit 1 ((race_at ?h True (?h - 1) [] HBlock)\<lparr>fr_closures := [CClear]\<rparr>)"
    by (rule overlap_closure) (use le in \<open>simp_all add: race_closure_def\<close>)
  then have "race_reach True limit 1 ((race_at ?h False (?h - 1) [] HBlock)\<lparr>fr_closures := [CResume]\<rparr>)"
    by (rule overlap_closure) (simp_all add: race_closure_def)
  then have "race_reach True limit 1 (race_at ?h False (?h - 1) [False] HBlock)"
    by (rule overlap_closure) (simp_all add: race_closure_def drop_nth_def)
  then have "race_reach True limit 1 (race_at ?h False (?h - 1) [False, True] HSend)"
    by (rule overlap_handler) (simp_all add: race_handler_def)
  then have "race_reach True limit 1 (race_at ?h False ?h [False, True] HIdle)"
    by (rule overlap_handler) (use h(3) in \<open>simp_all add: race_handler_def\<close>)
  then show ?thesis by (rule race_drain)
qed

subsection \<open>The atomic pairs\<close>

text \<open>When handler and closure do not overlap, their statements amount to the pairs of operations that
  keep \<open>flow_gate\<close>, which are those of the models of the two programs: the same counter and flag,
  and a call of BlockRecv when, and only when, the flag changes.\<close>

lemma run_handler: "(race_step False limit n)\<^sup>*\<^sup>* s0 s \<Longrightarrow> fr_closures s = [] \<Longrightarrow> (fr_handler s = HIdle \<Longrightarrow> fr_sent s < 2 ^ 32 - 2) \<Longrightarrow>
    race_handler limit s = t \<Longrightarrow> (race_step False limit n)\<^sup>*\<^sup>* s0 t"
  using rs_handler [of s False limit n] by (auto intro: rtranclp.rtrancl_into_rtrancl)

lemma run_begin: "fr_sent s \<noteq> 0 \<Longrightarrow> at_rest s \<Longrightarrow> n \<noteq> 0 \<Longrightarrow> race_begin s = t \<Longrightarrow> (race_step False limit n)\<^sup>*\<^sup>* s t"
  using rs_begin [of s n False limit] by (auto simp: at_rest_def)

lemma run_closure: "(race_step False limit n)\<^sup>*\<^sup>* s0 s \<Longrightarrow> fr_closures s \<noteq> [] \<Longrightarrow> race_closure limit 0 s = t \<Longrightarrow>
    (race_step False limit n)\<^sup>*\<^sup>* s0 t"
  using rs_closure [of 0 s False limit n] by (auto intro: rtranclp.rtrancl_into_rtrancl)

context flow_gate
begin

lemma race_submit:
  assumes "at_rest s" "fr_traffic s = traffic x" "fr_corked s = corked x" "fr_sent s < 2 ^ 32 - 2"
  shows "\<exists>t. (race_step False limit n)\<^sup>*\<^sup>* s t \<and> at_rest t \<and> fr_traffic t = traffic (submit x) \<and> fr_corked t = corked (submit x)
    \<and> fr_sent t = Suc (fr_sent s) \<and> fr_calls t = fr_calls s @ (if corked (submit x) \<and> \<not> corked x then [True] else [])"
proof -
  define r where "r h c calls = \<lparr>fr_traffic = traffic x + 1, fr_corked = c, fr_sent = fr_sent s,
    fr_calls = calls, fr_handler = h, fr_closures = []\<rparr>" for h c calls
  let ?R = "(race_step False limit n)\<^sup>*\<^sup>* s"
  let ?t = "(r HSend (corked (submit x)) (fr_calls s @ (if corked (submit x) \<and> \<not> corked x then [True] else [])))
    \<lparr>fr_sent := Suc (fr_sent s), fr_handler := HIdle\<rparr>"
  have 1: "?R (r HFlag (corked x) (fr_calls s))"
    by (rule run_handler [OF rtranclp.rtrancl_refl]) (use assms in \<open>simp_all add: race_handler_def at_rest_def r_def\<close>)
  have "?R (r HSend (corked (submit x)) (fr_calls s @ (if corked (submit x) \<and> \<not> corked x then [True] else [])))"
  proof (cases "limit \<noteq> 0 \<and> \<not> corked x")
    case False
    show ?thesis by (rule run_handler [OF 1]) (use False in \<open>auto simp: race_handler_def r_def submit_corked must_cork_def\<close>)
  next
    case True
    have 2: "?R (r HTraffic False (fr_calls s))" by (rule run_handler [OF 1]) (use True in \<open>simp_all add: race_handler_def r_def\<close>)
    show ?thesis
    proof (cases "traffic x + 1 > limit")
      case False
      show ?thesis by (rule run_handler [OF 2]) (use True False in \<open>auto simp: race_handler_def r_def submit_corked must_cork_def\<close>)
    next
      case gt: True
      have "?R (r HCork False (fr_calls s))" by (rule run_handler [OF 2]) (use gt in \<open>simp_all add: race_handler_def r_def\<close>)
      then have "?R (r HBlock True (fr_calls s))" by (rule run_handler) (simp_all add: race_handler_def r_def)
      then show ?thesis by (rule run_handler) (use True gt in \<open>simp_all add: race_handler_def r_def submit_corked must_cork_def\<close>)
    qed
  qed
  then have "?R ?t" by (rule run_handler) (simp_all add: race_handler_def r_def)
  then show ?thesis by (intro exI [of _ ?t]) (simp add: at_rest_def r_def submit_traffic)
qed

lemma race_complete:
  assumes "at_rest s" "fr_traffic s = traffic x" "fr_corked s = corked x" "fr_sent s \<noteq> 0" "n \<noteq> 0"
  shows "\<exists>t. (race_step False limit n)\<^sup>*\<^sup>* s t \<and> at_rest t \<and> fr_traffic t = traffic (complete x) \<and> fr_corked t = corked (complete x)
    \<and> fr_sent t = fr_sent s - 1 \<and> fr_calls t = fr_calls s @ (if corked x \<and> \<not> corked (complete x) then [False] else [])"
proof -
  define r where "r cs c calls = \<lparr>fr_traffic = traffic x - 1, fr_corked = c, fr_sent = fr_sent s - 1,
    fr_calls = calls, fr_handler = HIdle, fr_closures = cs\<rparr>" for cs c calls
  let ?R = "(race_step False limit n)\<^sup>*\<^sup>* s"
  let ?t = "r [] (corked (complete x)) (fr_calls s @ (if corked x \<and> \<not> corked (complete x) then [False] else []))"
  have 1: "?R (r [CFlag] (corked x) (fr_calls s))"
    by (rule run_begin [OF assms(4,1,5)]) (use assms(1-3) in \<open>simp add: race_begin_def at_rest_def r_def\<close>)
  have "?R ?t"
  proof (cases "limit \<noteq> 0 \<and> corked x")
    case False
    show ?thesis by (rule run_closure [OF 1]) (use False in \<open>auto simp: race_closure_def drop_nth_def r_def complete_corked must_uncork_def\<close>)
  next
    case True
    have 2: "?R (r [CTraffic] True (fr_calls s))" by (rule run_closure [OF 1]) (use True in \<open>simp_all add: race_closure_def r_def\<close>)
    show ?thesis
    proof (cases "traffic x - 1 \<le> limit div 2")
      case False
      show ?thesis by (rule run_closure [OF 2]) (use True False in \<open>auto simp: race_closure_def drop_nth_def r_def complete_corked must_uncork_def\<close>)
    next
      case le: True
      have "?R (r [CClear] True (fr_calls s))" by (rule run_closure [OF 2]) (use le in \<open>simp_all add: race_closure_def r_def\<close>)
      then have "?R (r [CResume] False (fr_calls s))" by (rule run_closure) (simp_all add: race_closure_def r_def)
      then show ?thesis by (rule run_closure) (use True le in \<open>simp_all add: race_closure_def drop_nth_def r_def complete_corked must_uncork_def\<close>)
    qed
  qed
  then show ?thesis by (intro exI [of _ ?t]) (simp add: at_rest_def r_def complete_traffic)
qed

end

text \<open>The pairs of the two programs.\<close>

lemmas relay_tunnel_serial = relay_tunnel.race_submit relay_tunnel.race_complete
lemmas agent_tunnel_serial = agent_tunnel.race_submit agent_tunnel.race_complete
lemmas agent_user_serial = agent_user.race_submit agent_user.race_complete

subsection \<open>Properties of the flow control\<close>

lemma last_BlockRecv: "calls \<noteq> [] \<Longrightarrow> blocking_recv (fold conn_BlockRecv calls c) = last calls"
  by (induction calls rule: rev_induct) (simp_all add: conn_BlockRecv_def emit_def Let_def)

text \<open>C4: Back pressure settles in every interleaving.  However the handler and the closures of a direction
  overlap, the counter is the number of packets passed on whose closure has not begun, plus one while the
  handler runs.  When everything has been written and nothing runs, the flag is down and at least as many
  resumptions as stops have been asked of the connection; while the closures come one at a time, every
  stop is answered by exactly one resumption as the flag comes down.\<close>

theorem flow_control_settles:
  assumes "race_reach overlap limit n s"
  shows "fr_traffic s = of_nat (fr_sent s + (if fr_handler s = HIdle then 0 else 1))
    \<and> (at_rest s \<and> fr_sent s = 0 \<longrightarrow> \<not> fr_corked s \<and> stops s \<le> resumptions s)
    \<and> (n = 1 \<and> at_rest s \<longrightarrow> stops s = resumptions s + of_bool (fr_corked s))"
  using race_reach_inv [OF assms] race_reach_inv1 [of overlap limit s] assms
  by (auto simp: race_inv_def race_inv1_def at_rest_def)

theorem flow_control_settles_witness:
  "\<exists>s. race_reach True 2 1 s \<and> fr_calls s = [False, True] \<and> stops s = resumptions s \<and> \<not> fr_corked s"
proof -
  let ?s = "race_at 0 False 0 [False, True] HIdle"
  have r: "race_reach True 2 1 ?s" by (rule race_stalls) simp_all
  from flow_control_settles [OF r] r show ?thesis by (intro exI [of _ ?s]) (simp add: at_rest_def)
qed



end
