(* ===== verification/EndToEnd.thy ===== *)
theory EndToEnd
  imports RelayProps AgentProps
begin

text \<open>
  The two programs together: what one of them sends for a user is what the other one's handler
  makes of the same bytes.  The framed stream between them is the subject of \<^verbatim>\<open>Link\<close>:
  the buffers of one SendV arrive as one packet, whole and in order.
\<close>

text \<open>Bytes of a user cross the tunnel unchanged.  What the relay sends for them to the agent of the
  user's session, when it arrives on the tunnel or on the session connection of an agent that knows the
  user, is handed to the service connection of that user's session, byte for byte, and to no other.\<close>

theorem user_bytes_reach_service:
  assumes "map_find (sv_sessions (rl_svc rs sid)) uid = Some ks" and "port = sv_port (rl_svc rs sid)"
    and "agent_reach cfg n s" and "n \<noteq> 0" and "r < aa_next_remote s" and "agent_traffic_bounded s"
    and "map_find (ri_users (aa_remotes s r)) (port, uid) = Some k"
  shows "\<exists>hdr t. srv_out (rl_agent_srv (relay__OnUserRecv sid uid buf rs)) = srv_out (rl_agent_srv rs)
        @ [SPost (SSendV (ss_agent_id (rl_ses rs ks)) [hdr, buf] (Some (UserDone sid ks uid (rl_queue_limit rs))))]
    \<and> agent_handle (AServerRecv (concat [hdr, buf]) r) s = Inr t
    \<and> (\<forall>j usr. agent_handle (ASessionRecv (concat [hdr, buf]) r j usr) s = Inr t)
    \<and> client_log (as_user_conn (aa_ses t k)) = client_log (as_user_conn (aa_ses s k))
        @ [Post (TSend buf (Some (ATunnelDone r k (port, uid))))]
    \<and> (\<forall>j. j \<noteq> k \<longrightarrow> aa_ses t j = aa_ses s j)"
proof -
  let ?hdr = "r2a_encode (R2A_data port uid)"
  have out: "srv_out (rl_agent_srv (relay__OnUserRecv sid uid buf rs)) = srv_out (rl_agent_srv rs)
      @ [SPost (SSendV (ss_agent_id (rl_ses rs ks)) [?hdr, buf] (Some (UserDone sid ks uid (rl_queue_limit rs))))]"
    using assms(1,2)
    by (simp add: relay__OnUserRecv_def Let_def on_agent_srv_def on_user_srv_def upd_ses_def upd_svc_def
        srv_SendV_def srv_emit_def del: r2a_encode.simps)
  have ev: "agent_enabled s (AServerRecv (?hdr @ buf) r)" "app_event (AServerRecv (?hdr @ buf) r)"
    using assms(5,6) by simp_all
  obtain t where t: "agent_handle (AServerRecv (?hdr @ buf) r) s = Inr t"
    by (rule agent_run [OF assms(3,4) ev])
  then have d: "agent_on_data r (port, uid) buf s = Inr t" by (simp only: recv_data_eq)
  show ?thesis
    using out t d relay_data_down [OF d assms(7)]
    by (intro exI [of _ ?hdr] exI [of _ t])
      (simp add: recv_data_eq del: r2a_encode.simps agent_handle.simps)
qed

theorem user_bytes_reach_service_witness:
  "\<exists>s (t :: agentapp). agent_reach demo_agent_cfg 1 s
    \<and> client_log (as_user_conn (aa_ses t 0)) = client_log (as_user_conn (aa_ses s 0))
        @ [Post (TSend [1, 2] (Some (ATunnelDone 0 0 (80, 1))))]"
proof -
  obtain rs where rs: "relay_reach demo_cfg 1 rs" "map_find (rl_services rs) 80 = Some 0"
    "map_find (sv_sessions (rl_svc rs 0)) 1 = Some 0" using demo_session by blast
  have port: "80 = sv_port (rl_svc rs 0)"
  proof -
    have "inv_on 0 {} (map_find (rl_services rs)) (rl_next_svc rs) (svc_view rs) (ports_of rs)"
      using relay_reach_inv [OF rs(1)] by (simp add: relay_inv_unfold)
    from inv_onD(2) [OF this rs(2)] show ?thesis by (simp add: svc_view_def)
  qed
  obtain s u v where s: "agent_reach demo_agent_cfg 1 s" "aa_next_remote s = 1" "aa_next_ses s = 1"
    "map_find (ri_users (aa_remotes s 0)) (80, 1) = Some 0" "aa_ses s 0 = new_ases u v"
    using demo_agent_session by blast
  have b: "agent_traffic_bounded s" "0 < aa_next_remote s"
    using s(2,3,5) by (simp_all add: agent_traffic_bounded_def new_ases_def)
  have n: "(1::nat) \<noteq> 0" by simp
  from user_bytes_reach_service [OF rs(3) port s(1) n b(2,1) s(4), of "[1, 2]"] s(1) show ?thesis by blast
qed

text \<open>C21: and the bytes a service answers cross it back.  What the agent posts for them, on the session
  connection when it is up and on the tunnel before that, makes the relay send exactly those bytes to
  the connection of that user, whichever of the agent's connections they arrive on.\<close>

theorem service_bytes_reach_user:
  assumes "agent_handle (AUserRecv data r k (port, uid)) s = Inr t"
    and "map_find (rl_agents rs) a \<noteq> None" and "map_find (rl_services rs) port = Some sid"
    and "map_find (sv_sessions (rl_svc rs sid)) uid = Some ks"
  shows "\<exists>hdr rt.
    (if as_ready (aa_ses s k)
     then client_log (as_session_conn (aa_ses t k)) = client_log (as_session_conn (aa_ses s k))
            @ [Post (TSendV [hdr, data] (Some (AUserDone r k (port, uid))))]
     else client_log (ri_tcpclient (aa_remotes t r)) = client_log (ri_tcpclient (aa_remotes s r))
            @ [Post (TSendV [hdr, data] (Some (AUserDone r k (port, uid))))])
    \<and> relay_handle (RAgentRecv os a (concat [hdr, data])) rs = Inr rt
    \<and> srv_out (sv_tcpserver (rl_svc rt sid)) = srv_out (sv_tcpserver (rl_svc rs sid))
        @ [SPost (SSend uid data (Some (TunnelDone sid ks a (rl_queue_limit rs))))]
    \<and> (\<forall>x. x \<noteq> sid \<longrightarrow> rl_svc rt x = rl_svc rs x)"
proof -
  let ?hdr = "a2r_encode (A2R_data port uid)"
  obtain rt where rt: "relay_handle (RAgentRecv os a (?hdr @ data)) rs = Inr rt"
    "srv_out (sv_tcpserver (rl_svc rt sid)) = srv_out (sv_tcpserver (rl_svc rs sid))
        @ [SPost (SSend uid data (Some (TunnelDone sid ks a (rl_queue_limit rs))))]"
    "\<forall>x. x \<noteq> sid \<longrightarrow> rl_svc rt x = rl_svc rs x"
    by (rule that [OF data_effect [OF assms(2-4)]]) (simp_all add: on_user_srv_def on_agent_srv_def upd_svc_def upd_ses_def
        srv_Send_def srv_BlockRecv_def srv_emit_def)
  show ?thesis
    using user_data_up(1,2) [OF assms(1)] rt
    by (intro exI [of _ ?hdr] exI [of _ rt]) (simp del: a2r_encode.simps relay_handle.simps)
qed

theorem service_bytes_reach_user_witness:
  "\<exists>rs (rt :: relay). relay_reach demo_cfg 1 rs \<and> (\<exists>p. srv_out (sv_tcpserver (rl_svc rt 0)) =
    srv_out (sv_tcpserver (rl_svc rs 0)) @ [SPost (SSend 1 [1, 2] p)])"
proof -
  obtain rs where rs: "relay_reach demo_cfg 1 rs" "map_find (rl_services rs) 80 = Some 0"
    "map_find (sv_sessions (rl_svc rs 0)) 1 = Some 0" "map_find (rl_agents rs) 1 \<noteq> None" using demo_session by blast
  obtain s u v where s: "agent_reach demo_agent_cfg 1 s" "aa_next_remote s = 1" "aa_next_ses s = 1"
    "aa_ses s 0 = new_ases u v" using demo_agent_session by blast
  have b: "agent_traffic_bounded s" using s(3,4) by (simp add: agent_traffic_bounded_def new_ases_def)
  obtain t where t: "agent_handle (AUserRecv [1, 2] 0 0 (80, 1)) s = Inr t"
    using agent_run [OF s(1), of "AUserRecv [1, 2] 0 0 (80, 1)"] s(2,3) b by auto
  from service_bytes_reach_user [OF t rs(4,2,3)] rs(1) show ?thesis by blast
qed

end
