(* ===== verification/UserStream.thy ===== *)
theory UserStream
  imports EndToEnd Link "HOL-Library.Sublist"
begin

text \<open>
  The whole stream of a user, through both programs: the handlers of the relay, the strand of its server
  for the agents, which drops what is posted for a number without a connection, the framed connection
  to the agent with its queue, its writes and its two-phase reads (\<^verbatim>\<open>Link\<close>), and the handlers of the
  agent, in any interleaving.  The theorem: per connection of the relay, the service connection of the
  user is handed a subsequence of what the user sent, and as long as the server drops nothing a prefix
  without a gap, all of it when nothing is under way.

  A strand and an \<open>io_service\<close> run what is posted to them in order (\<^verbatim>\<open>Strand\<close>,
  \<^verbatim>\<open>Scheduler\<close>), so both are queues here.  A number stands for one connection: that the number of a
  closed connection is given out again after \<open>2 ^ 32\<close> accepts is not followed.
\<close>

subsection \<open>Packets\<close>

fun packet_of :: "'p srv_call \<Rightarrow> (u32 \<times> bytes) list" where
  "packet_of (SPost (SSend a data pfn)) = [(a, data)]"
| "packet_of (SPost (SSendV a datas pfn)) = [(a, concat datas)]"
| "packet_of _ = []"

text \<open>The packets posted to the connection \<open>a\<close>, and the bytes of a user in packets.\<close>

definition packets :: "u32 \<Rightarrow> 'p srv_call list \<Rightarrow> bytes list" where
  "packets a out = map snd (filter (\<lambda>x. fst x = a) (concat (map packet_of out)))"

definition user_payload :: "user \<Rightarrow> bytes \<Rightarrow> bytes list" where
  "user_payload usr p =
     (case r2a_decode p of
        Some (R2A_data port uid) \<Rightarrow> if (port, uid) = usr then [drop (r2a_sizeof (R2A_data port uid)) p] else []
      | _ \<Rightarrow> [])"

definition payloads :: "user \<Rightarrow> bytes list \<Rightarrow> bytes list" where
  "payloads usr ps = concat (map (user_payload usr) ps)"

lemma packets_append [simp]: "packets a (xs @ ys) = packets a xs @ packets a ys"
  by (simp add: packets_def)

lemma payloads_append [simp]: "payloads usr (xs @ ys) = payloads usr xs @ payloads usr ys"
  by (simp add: payloads_def)

lemma payloads_Nil [simp]: "payloads usr [] = []"
  by (simp add: payloads_def)

lemma payloads_Cons: "payloads usr (p # ps) = user_payload usr p @ payloads usr ps"
  by (simp add: payloads_def)

text \<open>What a handler of the relay takes from a user: the connection the session uses, the user, the
  bytes.\<close>

fun fed :: "relay_event \<Rightarrow> relay \<Rightarrow> (u32 \<times> user \<times> bytes) list" where
  "fed (RUserRecv sid uid buf) s =
     (case map_find (sv_sessions (rl_svc s sid)) uid of
        None \<Rightarrow> []
      | Some k \<Rightarrow> [(ss_agent_id (rl_ses s k), (sv_port (rl_svc s sid), uid), buf)])"
| "fed _ s = []"

definition sent_to :: "u32 \<Rightarrow> user \<Rightarrow> (u32 \<times> user \<times> bytes) list \<Rightarrow> bytes list" where
  "sent_to a usr xs = map (\<lambda>x. snd (snd x)) (filter (\<lambda>x. fst x = a \<and> fst (snd x) = usr) xs)"

lemma sent_to_append [simp]: "sent_to a usr (xs @ ys) = sent_to a usr xs @ sent_to a usr ys"
  by (simp add: sent_to_def)

text \<open>Posts to the server of the agents that are no handler of the application, and are excluded.\<close>

fun owner_post :: "relay_event \<Rightarrow> bool" where
  "owner_post (RAgentNet (SevPost t)) = True"
| "owner_post _ = False"

subsection \<open>The relay\<close>

text \<open>\<open>quiet s t\<close>: what was posted to the agents' server carries no data of users.\<close>

definition quiet_out :: "'p srv_call list \<Rightarrow> 'p srv_call list \<Rightarrow> bool" where
  "quiet_out out out' \<longleftrightarrow> (\<exists>new. out' = out @ new \<and> (\<forall>a usr. payloads usr (packets a new) = []))"

abbreviation quiet :: "relay \<Rightarrow> relay \<Rightarrow> bool" where
  "quiet s t \<equiv> quiet_out (srv_out (rl_agent_srv s)) (srv_out (rl_agent_srv t))"

lemma quiet_refl [simp]: "quiet_out out out"
  by (auto simp: quiet_out_def packets_def)

lemma quiet_trans [trans]: "quiet_out x y \<Longrightarrow> quiet_out y z \<Longrightarrow> quiet_out x z"
  by (fastforce simp: quiet_out_def)

lemma quiet_snoc: "(\<And>a d usr. (a, d) \<in> set (packet_of x) \<Longrightarrow> user_payload usr d = []) \<Longrightarrow> quiet_out out (out @ [x])"
  by (auto simp: quiet_out_def packets_def payloads_def)

lemma quiet_emit: "packet_of x = [] \<Longrightarrow> quiet_out (srv_out srv) (srv_out (srv_emit x srv))"
  by (auto simp: srv_emit_def intro!: quiet_snoc)

lemma agent_srv_simps [simp]:
  "rl_agent_srv (upd_svc sid f s) = rl_agent_srv s" "rl_agent_srv (upd_ses k g s) = rl_agent_srv s"
  "rl_agent_srv (upd_agent a h s) = rl_agent_srv s" "rl_agent_srv (on_user_srv sid q s) = rl_agent_srv s"
  "rl_agent_srv (relay__CleanSession sid k s) = rl_agent_srv s"
  by (simp_all add: upd_svc_def upd_ses_def upd_agent_def on_user_srv_def relay__CleanSession_def Let_def split: option.split)

lemma agent_srv_disconnect: "rl_agent_srv (relay__OnAgentDisconnect seq e s) = rl_agent_srv s"
proof -
  have drop: "rl_agent_srv (fold (\<lambda>(_, k). relay_drop_session sid k) ks u) = rl_agent_srv u" for sid u and ks :: "(u32 \<times> nat) list"
    by (induction ks arbitrary: u) (auto simp: relay_drop_session_def)
  have port: "rl_agent_srv (relay_drop_port seq ag port u) = rl_agent_srv u" for ag port u
    by (simp add: relay_drop_port_def relay_leave_service_def Let_def drop split: option.split)
  have "rl_agent_srv (fold (relay_drop_port seq ag) ps u) = rl_agent_srv u" for ag ps u
    by (induction ps arbitrary: u) (simp_all add: port)
  then show ?thesis by (simp add: relay__OnAgentDisconnect_def split: option.split)
qed

lemma no_payload: "(\<And>port uid. m \<noteq> R2A_data port uid) \<Longrightarrow> user_payload usr (r2a_encode m) = []"
  using r2a_codec.dec_enc [of m "[]"] by (cases m) (auto simp: user_payload_def simp del: r2a_encode.simps)

lemma data_payload: "user_payload usr (r2a_encode (R2A_data port uid) @ buf) = (if (port, uid) = usr then [buf] else [])"
  by (simp add: user_payload_def r2a_data_read del: r2a_encode.simps r2a_sizeof.simps drop_append)

lemma quiet_Send: "rl_agent_srv u = rl_agent_srv s \<Longrightarrow> (\<And>port uid. m \<noteq> R2A_data port uid) \<Longrightarrow>
    quiet s (on_agent_srv (srv_Send seq (r2a_encode m) pfn) u)"
  using no_payload [of m] by (auto simp: on_agent_srv_def srv_Send_def srv_emit_def simp del: r2a_encode.simps intro!: quiet_snoc)

lemma quiet_BlockRecv: "rl_agent_srv u = rl_agent_srv s \<Longrightarrow> quiet s (on_agent_srv (srv_BlockRecv seq b) u)"
  using quiet_emit [of "SPost (SBlockRecv seq b)" "rl_agent_srv s"] by (simp add: on_agent_srv_def srv_BlockRecv_def)

lemma quiet_srv_step:
  assumes "srv_step cc ev srv = Inr srv'" "\<And>t. ev \<noteq> SevPost t"
  shows "quiet_out (srv_out srv) (srv_out srv')"
proof -
  have next_conn: "quiet_out (srv_out u) (srv_out v)" if "srv__StartNextConnection cc acceptor u = Inr v" for u v acceptor
    using that by (auto simp: srv__StartNextConnection_def srv__GetNextSeq_def and_then_eq_Inr Let_def intro!: quiet_emit
        split: option.splits if_splits)
      (auto simp: srv_emit_def intro!: quiet_snoc)
  have opened: "srv_out v = srv_out u" if "srv_open os eps u = Inr v" for u v os eps
    using that by (induction os eps u rule: srv_open.induct) (auto split: option.splits)
  have closed: "quiet_out (srv_out u) (srv_out (fold (\<lambda>ep. srv_emit (SAcceptorClose ep)) eps u))" for u eps
  proof (induction eps arbitrary: u)
    case (Cons ep eps)
    show ?case using quiet_trans [OF quiet_emit [of "SAcceptorClose ep" u] Cons.IH] by simp
  qed simp
  show ?thesis
  proof (cases ev)
    case (SevStart os eps)
    then obtain u b where u: "srv_open os eps srv = Inr u"
      and f: "fold_result (srv__StartNextConnection cc) (srv_acceptors u) (srv_listening os u) = Inr srv'"
      using assms(1) by (auto simp: Start_eq and_then_eq_Inr)
    have "quiet_out (srv_out (srv_listening os u)) (srv_out srv')"
      by (rule fold_result_invariant [OF f, where I = "\<lambda>v. quiet_out (srv_out (srv_listening os u)) (srv_out v)"])
        (auto intro: quiet_trans next_conn)
    then show ?thesis using opened [OF u] by simp
  next
    case (SevAccept e seq cid acceptor ep)
    then show ?thesis using assms(1)
      by (auto simp: srv__OnAccept_def srv_accepted_def and_then_eq_Inr srv_emit_def split: if_splits
          dest!: next_conn intro: quiet_trans [rotated] intro!: quiet_snoc)
  next
    case (SevDisconnect seq e)
    then show ?thesis using assms(1) by (auto simp: srv_conn_disconnect_def Let_def srv_emit_def split: if_splits intro!: quiet_snoc)
  next
    case (SevRecv seq buf)
    then show ?thesis using assms(1) by (auto simp: srv_conn_recv_def srv_emit_def split: if_splits intro!: quiet_snoc)
  next
    case (SevTask t)
    then show ?thesis using assms(1)
      by (cases t) (auto simp: srv__Send_def srv__SendV_def srv__BlockRecv_def srv__Close_def srv_on_conn_def split: option.splits)
  next
    case SevClose
    then show ?thesis using assms(1) closed [of "srv\<lparr>srv_inited := False, srv_on_connect := False, srv_on_disconnect := False, srv_on_recv := False\<rparr>"]
      by (auto simp: srv_Close_def Let_def)
  qed (use assms in auto)
qed

lemma quiet_on_bind: "relay_on_bind os seq port s = Inr t \<Longrightarrow> quiet s t"
  by (auto simp: relay_on_bind_def relay_send_ack_def Let_def and_then_eq_Inr simp del: r2a_encode.simps intro!: quiet_Send
      split: option.splits if_splits)

lemma quiet_on_unbind: "quiet s (relay_on_unbind seq port s)"
  by (auto simp: relay_on_unbind_def relay_send_ack_def relay_leave_service_def Let_def simp del: r2a_encode.simps intro!: quiet_Send
      split: option.splits)

lemma quiet_AgentRecv:
  assumes "relay__OnAgentRecv os seq data s = Inr t"
  shows "quiet s t"
proof -
  have "quiet s (relay_on_data seq port uid pl s)" for port uid pl
    by (auto simp: relay_on_data_def Let_def intro!: quiet_BlockRecv split: option.splits)
  moreover have "rl_agent_srv (relay_on_disconnect port uid s) = rl_agent_srv s" for port uid
    by (simp add: relay_on_disconnect_def split: option.split)
  moreover have "rl_agent_srv (relay_on_session seq port uid s) = rl_agent_srv s" for port uid
    by (simp add: relay_on_session_def Let_def split: option.split)
  ultimately show ?thesis
    using assms quiet_on_bind quiet_on_unbind by (auto simp: relay__OnAgentRecv_def split: option.splits a2r.splits)
qed

lemma relay_posts:
  assumes t: "relay_handle ev s = Inr t" and p: "\<not> owner_post ev"
  shows "\<exists>new. srv_out (rl_agent_srv t) = srv_out (rl_agent_srv s) @ new \<and> (\<forall>a usr. payloads usr (packets a new) = sent_to a usr (fed ev s))"
proof -
  have quiet: ?thesis if "quiet s t" "fed ev s = []" using that by (auto simp: quiet_out_def sent_to_def)
  show ?thesis
  proof (cases ev)
    case (RAgentConnect seq ep)
    then show ?thesis using t by (intro quiet) (auto simp: relay__OnAgentConnect_def)
  next
    case (RAgentDisconnect seq e)
    then show ?thesis using t by (intro quiet) (auto simp: agent_srv_disconnect)
  next
    case (RAgentRecv os seq data)
    then show ?thesis using t quiet_AgentRecv by (intro quiet) auto
  next
    case (RUserConnect sid seq ep)
    have "quiet s (relay__OnUserConnect sid seq ep s)"
      by (auto simp: relay__OnUserConnect_def Let_def simp del: r2a_encode.simps intro!: quiet_Send split: option.split)
    then show ?thesis using t RUserConnect by (intro quiet) auto
  next
    case (RUserDisconnect sid seq e)
    have "quiet s (relay__OnUserDisconnect sid seq e s)"
      by (auto simp: relay__OnUserDisconnect_def Let_def simp del: r2a_encode.simps intro!: quiet_Send split: option.split)
    then show ?thesis using t RUserDisconnect by (intro quiet) auto
  next
    case (RUserRecv sid uid buf)
    show ?thesis
    proof (cases "map_find (sv_sessions (rl_svc s sid)) uid")
      case None
      then show ?thesis using t RUserRecv by (intro quiet) (auto simp: relay__OnUserRecv_def)
    next
      case (Some k)
      have "srv_out (rl_agent_srv t) = srv_out (rl_agent_srv s)
          @ [SPost (SSendV (ss_agent_id (rl_ses s k)) [r2a_encode (R2A_data (sv_port (rl_svc s sid)) uid), buf] (Some (UserDone sid k uid (rl_queue_limit s))))]"
        using t RUserRecv Some
        by (auto simp: relay__OnUserRecv_def Let_def on_agent_srv_def on_user_srv_def upd_ses_def upd_svc_def
            srv_SendV_def srv_emit_def simp del: r2a_encode.simps)
      then show ?thesis using RUserRecv Some
        by (auto simp: packets_def payloads_def sent_to_def data_payload simp del: r2a_encode.simps)
    qed
  next
    case (RCompletion c)
    have "quiet s (relay_run_completion c s)"
    proof (cases c)
      case (TunnelDone sid k seq limit)
      then show ?thesis by (auto simp: relay_tunnel_done_def Let_def intro!: quiet_BlockRecv)
    next
      case (UserDone sid k seq limit)
      then show ?thesis by (simp add: relay_user_done_def Let_def)
    qed
    then show ?thesis using t RCompletion by (intro quiet) auto
  next
    case (RAgentNet e)
    have "e \<noteq> SevPost x" for x using p RAgentNet by auto
    then show ?thesis using t RAgentNet quiet_srv_step [of tcp_class e] by (intro quiet) (auto simp: and_then_eq_Inr)
  next
    case (RUserNet sid e)
    then show ?thesis using t by (intro quiet) (auto simp: and_then_eq_Inr)
  qed
qed

subsection \<open>What a connection is asked to send\<close>

fun send_of :: "'p io_call \<Rightarrow> bytes list" where
  "send_of (Post (TSend d pfn)) = [d]"
| "send_of _ = []"

definition sends :: "'p io_call list \<Rightarrow> bytes list" where
  "sends xs = concat (map send_of xs)"

lemma sends_append [simp]: "sends (xs @ ys) = sends xs @ sends ys"
  by (simp add: sends_def)

lemma sends_emit [simp]: "sends (io (emit x c)) = sends (io c) @ send_of x"
  by (simp add: emit_def sends_def)

lemma sends_DoSend [simp]: "sends (io (conn__DoSend c)) = sends (io c)"
  by (auto simp: conn__DoSend_def Let_def split: list.split option.split)

lemma sends_Shutdown [simp]: "sends (io (conn__Shutdown e c)) = sends (io c)"
  by (simp add: conn__Shutdown_def Let_def)

lemma sends_OnSend [simp]: "sends (io (conn__OnSendCallback e c)) = sends (io c)"
  by (simp add: conn__OnSendCallback_def Let_def split: option.split)

lemma sends_Close [simp]: "sends (io (raw_Close c)) = sends (io c)"
  by (simp add: raw_Close_def close_socket_def)

lemma sends_push [simp]: "io (push ps c) = io c"
  by (simp add: push_def)

lemma sends_BlockRecv [simp]: "sends (io (conn_BlockRecv b c)) = sends (io c)"
  by (simp add: conn_BlockRecv_def Let_def)

lemma sends_SetOpt: "conn__SetOpt c = Inr d \<Longrightarrow> sends (io d) = sends (io c)"
  by (auto simp: conn__SetOpt_def Let_def split: if_splits)

lemma sends_DoRecv: "raw__DoRecv c = Inr d \<Longrightarrow> sends (io d) = sends (io c)"
  by (auto simp: raw__DoRecv_def conn__DoRecv_def split: if_splits)

lemma sends_task: "raw_run_task t c = Inr d \<Longrightarrow> sends (io d) = sends (io c)"
  by (cases t) (auto simp: raw__Send_def raw__SendV_def raw__Start_def and_then_eq_Inr dest!: sends_SetOpt sends_DoRecv)

lemma sends_OnRecv: "raw__OnRecvCallback e bs c = Inr d \<Longrightarrow> sends (io d) = sends (io c)"
  by (auto simp: raw__OnRecvCallback_def conn__OnRecvCallback_def Let_def dest!: sends_DoRecv split: option.splits)

lemma sends_step: "raw_step ev c = Inr d \<Longrightarrow> (\<And>x p. ev \<noteq> EvSend x p) \<Longrightarrow> sends (io d) = sends (io c)"
  by (cases ev) (auto simp: conn_SendV_def dest!: sends_task sends_OnRecv)

lemma sends_client_step:
  assumes "client_step raw_step raw__DoRecv ev c = Inr d" "\<And>x p. ev \<noteq> CevConn (EvSend x p)"
  shows "sends (io (cl_conn d)) = sends (io (cl_conn c))"
proof (cases ev)
  case (CevConnect e)
  then show ?thesis using assms(1)
    by (auto simp: client_conn__OnConnect_def Let_def on_base_def on_base_result_def and_then_eq_Inr
        dest!: sends_SetOpt sends_DoRecv split: option.splits if_splits)
next
  case (CevTimeout e)
  then show ?thesis using assms(1) by (auto simp: client_conn__OnConnectTimeout_def on_base_def)
next
  case (CevConn e)
  then show ?thesis using assms sends_step [of e "cl_conn c"] by (auto simp: on_base_result_def and_then_eq_Inr)
qed

lemma sends_impl_step:
  assumes "impl_step (client_step raw_step raw__DoRecv ev) t = Inr u" "\<And>x p. ev \<noteq> CevConn (EvSend x p)"
  shows "sends (client_log u) = sends (client_log t)"
  using assms sends_client_step [of ev] by (auto simp: impl_step_def client_log_def and_then_eq_Inr split: option.splits)

lemma sends_client [simp]: "sends (client_log (raw_client_Close u)) = sends (client_log u)"
  "sends (client_log (client_BlockRecv b u)) = sends (client_log u)"
  by (simp_all add: raw_client_Close_def client_BlockRecv_def on_impl_def client_log_def on_base_def split: option.split)

subsection \<open>The agent\<close>

text \<open>What the connection to the service of the session \<open>k\<close> has been handed, and the packets from a
  relay, with the remote they belong to.\<close>

definition handed :: "nat \<Rightarrow> agentapp \<Rightarrow> bytes list" where
  "handed k s = sends (client_log (as_user_conn (aa_ses s k)))"

fun arrived :: "agent_event \<Rightarrow> (nat \<times> bytes) option" where
  "arrived (AServerRecv p r) = Some (r, p)"
| "arrived (ASessionRecv p r k usr) = Some (r, p)"
| "arrived _ = None"

fun owner_send :: "agent_event \<Rightarrow> bool" where
  "owner_send (AUserNet k (CevConn (EvSend d p))) = True"
| "owner_send _ = False"

definition knows :: "nat \<Rightarrow> user \<Rightarrow> nat \<Rightarrow> agentapp \<Rightarrow> bool" where
  "knows r usr k s \<longleftrightarrow> map_find (ri_users (aa_remotes s r)) usr = Some k"

text \<open>The session \<open>k\<close> has been made for this user of this remote, and for no other.\<close>

definition owned :: "nat \<Rightarrow> user \<Rightarrow> nat \<Rightarrow> agentapp \<Rightarrow> bool" where
  "owned r usr k s \<longleftrightarrow> k < aa_next_ses s \<and> (\<forall>q u. q < aa_next_remote s \<longrightarrow> knows q u k s \<longrightarrow> q = r \<and> u = usr)"

text \<open>A handler that hands nothing to the session \<open>k\<close>, and makes nobody know it who did not.\<close>

definition spares :: "nat \<Rightarrow> agentapp \<Rightarrow> agentapp \<Rightarrow> bool" where
  "spares k s t \<longleftrightarrow> handed k t = handed k s \<and> aa_next_ses s \<le> aa_next_ses t
     \<and> aa_next_remote t = aa_next_remote s \<and> (\<forall>q u. knows q u k t \<longrightarrow> knows q u k s)"

lemma spares_refl [simp]: "spares k s s"
  by (simp add: spares_def)

lemma spares_trans [trans]: "spares k s t \<Longrightarrow> spares k t u \<Longrightarrow> spares k s u"
  unfolding spares_def by (metis order_trans)

lemma spares_ases: "(\<And>x. sends (client_log (as_user_conn (f x))) = sends (client_log (as_user_conn x))) \<Longrightarrow> spares k s (upd_ases j f s)"
  by (simp add: spares_def handed_def knows_def upd_ases_def)

lemma spares_remote: "(\<And>x u. map_find (ri_users (f x)) u = Some k \<Longrightarrow> map_find (ri_users x) u = Some k) \<Longrightarrow> spares k s (upd_remote r f s)"
  by (auto simp: spares_def handed_def knows_def upd_remote_def split: if_splits)

lemma spares_on_tunnel: "on_tunnel r f s = Inr t \<Longrightarrow> spares k s t"
  by (auto simp: on_tunnel_def and_then_eq_Inr intro!: spares_remote)

lemma spares_on_session_conn: "on_session_conn j f s = Inr t \<Longrightarrow> spares k s t"
  by (auto simp: on_session_conn_def and_then_eq_Inr intro!: spares_ases)

lemma spares_to_relay: "agent_to_relay r j f s = Inr t \<Longrightarrow> spares k s t"
  by (auto simp: agent_to_relay_def dest: spares_on_tunnel spares_on_session_conn split: if_splits)

lemma spares_on_user_conn:
  "on_user_conn j f s = Inr t \<Longrightarrow> j \<noteq> k \<or> (\<forall>x u. f x = Inr u \<longrightarrow> sends (client_log u) = sends (client_log x)) \<Longrightarrow> spares k s t"
  by (auto simp: on_user_conn_def and_then_eq_Inr spares_def handed_def knows_def upd_ases_def)

lemma sends_closed [simp]: "as_user_conn (close_session_conn x) = as_user_conn x"
  "sends (client_log (as_user_conn (close_user_conn x))) = sends (client_log (as_user_conn x))"
  "sends (client_log (as_user_conn (ases_tunnel_submit l x))) = sends (client_log (as_user_conn x))"
  "sends (client_log (as_user_conn (ases_tunnel_complete l x))) = sends (client_log (as_user_conn x))"
  "sends (client_log (as_user_conn (ases_user_submit l x))) = sends (client_log (as_user_conn x))"
  "sends (client_log (as_user_conn (ases_user_complete l x))) = sends (client_log (as_user_conn x))"
  by (simp_all add: close_session_conn_def close_user_conn_def ases_tunnel_submit_def ases_tunnel_complete_def
      ases_user_submit_def ases_user_complete_def Let_def)

lemma spares_Clean: "spares k s (agent__CleanSession r j usr s)"
  by (auto simp: agent__CleanSession_def intro!: spares_trans [OF spares_ases spares_remote] split: if_splits)

lemma spares_on_disconnect: "spares k s (agent_on_disconnect r usr s)"
  by (auto simp: agent_on_disconnect_def intro!: spares_trans [OF spares_ases spares_Clean] split: option.split)

lemma spares_create:
  "agent__CreateTunnelConn s = Inr (u, t) \<Longrightarrow> spares k s t" "agent__CreateSessionTunnelConn s = Inr (u, t) \<Longrightarrow> spares k s t"
  "agent__CreateUserConn s = Inr (v, t) \<Longrightarrow> spares k s t"
  by (auto simp: agent__CreateTunnelConn_def agent__CreateSessionTunnelConn_def agent__CreateUserConn_def
      agent__CreateTcpClient_def agent__CreateRawTcpClient_def Server_GetIoService_def Let_def and_then_eq_Inr
      spares_def handed_def knows_def split: if_splits)

lemma spares_on_connect:
  assumes t: "agent_on_connect r usr ip s = Inr t" and k: "k < aa_next_ses s"
  shows "spares k s t"
proof (cases "t = s")
  case False
  then obtain eps ct s1 cu s2 where c: "agent__CreateSessionTunnelConn s = Inr (ct, s1)" "agent__CreateUserConn s1 = Inr (cu, s2)"
    and n: "and_then (on_session_conn (aa_next_ses s2) (client_Start new_tcp_conn (ri_ep (aa_remotes
        (upd_remote r (\<lambda>x. x\<lparr>ri_users := map_put usr (aa_next_ses s2) (ri_users x)\<rparr>)
          (s2\<lparr>aa_ses := (aa_ses s2)(aa_next_ses s2 := new_ases cu ct), aa_next_ses := Suc (aa_next_ses s2)\<rparr>)) r)))
        (upd_remote r (\<lambda>x. x\<lparr>ri_users := map_put usr (aa_next_ses s2) (ri_users x)\<rparr>)
          (s2\<lparr>aa_ses := (aa_ses s2)(aa_next_ses s2 := new_ases cu ct), aa_next_ses := Suc (aa_next_ses s2)\<rparr>)))
      (on_user_conn (aa_next_ses s2) (client_Start new_raw_conn (agent_pick (aa_load_policy s) (snd usr) ip eps))) = Inr t"
    using t by (auto simp: agent_on_connect_def Let_def and_then_eq_Inr split: option.splits if_splits)
  define s3 where "s3 = upd_remote r (\<lambda>x. x\<lparr>ri_users := map_put usr (aa_next_ses s2) (ri_users x)\<rparr>)
          (s2\<lparr>aa_ses := (aa_ses s2)(aa_next_ses s2 := new_ases cu ct), aa_next_ses := Suc (aa_next_ses s2)\<rparr>)"
  have s2: "spares k s s2" using spares_create(2) [OF c(1)] spares_create(3) [OF c(2)] spares_trans by blast
  then have k2: "k < aa_next_ses s2" using k by (auto simp: spares_def)
  then have "spares k s2 s3" by (auto simp: s3_def spares_def handed_def knows_def upd_remote_def split: if_splits)
  moreover obtain s4 where "on_session_conn (aa_next_ses s2) (client_Start new_tcp_conn (ri_ep (aa_remotes s3 r))) s3 = Inr s4"
    "on_user_conn (aa_next_ses s2) (client_Start new_raw_conn (agent_pick (aa_load_policy s) (snd usr) ip eps)) s4 = Inr t"
    using n by (auto simp: and_then_eq_Inr s3_def)
  moreover have "aa_next_ses s2 \<noteq> k" using k2 by simp
  ultimately have "spares k s2 s3" "spares k s3 s4" "spares k s4 t"
    using spares_on_session_conn spares_on_user_conn by blast+
  then show ?thesis using s2 spares_trans by blast
qed simp

lemma spares_OnServerConnect: "agent__OnServerConnect r s = Inr t \<Longrightarrow> spares k s t"
  unfolding agent__OnServerConnect_def
  by (erule fold_result_invariant [where I = "spares k s"]) (auto intro: spares_trans dest: spares_on_tunnel)

lemma spares_OnServerDisconnect: "spares k s (agent__OnServerDisconnect e r s)"
proof -
  have "spares k s (fold (\<lambda>(_, j). upd_ases j (\<lambda>x. close_session_conn (close_user_conn x))) us s)" for us :: "(user \<times> nat) list"
    by (rule fold_invariant) (auto intro!: spares_trans [OF _ spares_ases])
  moreover have "spares k u ((upd_remote r (\<lambda>x. x\<lparr>ri_users := []\<rparr>) u)\<lparr>aa_posted := p\<rparr>)" for u p
    by (auto simp: spares_def handed_def knows_def upd_remote_def split: if_splits)
  ultimately show ?thesis unfolding agent__OnServerDisconnect_def Let_def by (blast intro: spares_trans)
qed

lemma spares_reconnect:
  assumes "agent_reconnect r s = Inr t"
  shows "spares k s t"
proof -
  obtain c s1 where c: "agent__CreateTunnelConn s = Inr (c, s1)"
    "agent_start_tunnel r (upd_remote r (\<lambda>x. x\<lparr>ri_tcpclient := c\<rparr>) s1) = Inr t"
    using assms by (auto simp: agent_reconnect_def and_then_eq_Inr)
  have "spares k s1 (upd_remote r (\<lambda>x. x\<lparr>ri_tcpclient := c\<rparr>) s1)" by (rule spares_remote) simp
  then show ?thesis using spares_create(1) [OF c(1)] spares_on_tunnel c(2) unfolding agent_start_tunnel_def
    by (blast intro: spares_trans)
qed

lemma data_handed:
  assumes t: "agent_on_data q u pl s = Inr t" and o: "owned r usr k s" and q: "q < aa_next_remote s"
  shows "handed k t = handed k s @ (if q = r \<and> u = usr \<and> knows r usr k s then [pl] else [])"
    "aa_next_ses t = aa_next_ses s" "knows p v k t = knows p v k s" "aa_next_remote t = aa_next_remote s"
proof -
  show "aa_next_ses t = aa_next_ses s" "knows p v k t = knows p v k s" "aa_next_remote t = aa_next_remote s"
    using t by (auto simp: agent_on_data_def on_user_conn_def and_then_eq_Inr upd_ases_def knows_def split: option.splits)
  show "handed k t = handed k s @ (if q = r \<and> u = usr \<and> knows r usr k s then [pl] else [])"
  proof (cases "map_find (ri_users (aa_remotes s q)) u")
    case None
    then show ?thesis using t by (auto simp: agent_on_data_def knows_def)
  next
    case (Some j)
    note D = relay_data_down [OF t Some]
    show ?thesis
    proof (cases "j = k")
      case True
      then have "knows q u k s" using Some by (simp add: knows_def)
      then have "q = r \<and> u = usr" using o q unfolding owned_def by blast
      then show ?thesis using D(1) Some True by (simp add: handed_def knows_def sends_def)
    next
      case False
      then have "aa_ses t k = aa_ses s k" using D(2) [of k] by simp
      moreover have "\<not> (q = r \<and> u = usr \<and> knows r usr k s)" using False Some by (auto simp: knows_def)
      ultimately show ?thesis by (auto simp: handed_def)
    qed
  qed
qed

lemma spares_event:
  assumes t: "agent_handle ev s = Inr t" and a: "arrived ev = None" and n: "\<not> owner_send ev"
  shows "spares k s t"
proof (cases ev)
  case (AReconnect r)
  have "spares k s (s\<lparr>aa_posted := remove1 r (aa_posted s)\<rparr>)" by (simp add: spares_def handed_def knows_def)
  also have "spares k \<dots> t" by (rule spares_reconnect) (use t AReconnect in simp)
  finally show ?thesis .
next
  case (ASessionConnect r j usr)
  then obtain u where "on_session_conn j (client_Send (a2r_encode (A2R_session (fst usr) (snd usr))) None) s = Inr u"
    "t = upd_ases j (\<lambda>x. x\<lparr>as_ready := True\<rparr>) u"
    using t by (auto simp: agent__OnSessionConnect_def and_then_eq_Inr simp del: a2r_encode.simps)
  then show ?thesis using spares_trans [OF spares_on_session_conn [of j _ s u k] spares_ases [of "\<lambda>x. x\<lparr>as_ready := True\<rparr>" k u j]]
    by simp
next
  case (ASessionDisconnect e r j usr)
  then show ?thesis using t by (auto simp: agent__OnSessionDisconnect_def intro!: spares_trans [OF spares_ases spares_Clean])
next
  case (AUserConnect r j usr)
  then show ?thesis using t by (simp add: agent__OnUserConnect_def)
next
  case (AUserDisconnect e r j usr)
  define u where "u = upd_ases j (\<lambda>x. (close_user_conn x)\<lparr>as_user_disconnected := True\<rparr>) s"
  have u: "spares k s u" unfolding u_def by (rule spares_ases) simp
  obtain v where v: "agent_to_relay r j (client_Send (a2r_encode (A2R_disconnect (fst usr) (snd usr))) None) u = Inr v"
    "t = agent__CleanSession r j usr v"
    using t AUserDisconnect by (auto simp: agent__OnUserDisconnect_def and_then_eq_Inr u_def Let_def simp del: a2r_encode.simps)
  show ?thesis using u spares_to_relay [OF v(1)] spares_Clean v(2) by (blast intro: spares_trans)
next
  case (AUserRecv data r j usr)
  have "spares k s (upd_ases j (ases_user_submit (aa_queue_limit s)) s)" by (rule spares_ases) simp
  then show ?thesis using t AUserRecv spares_to_relay by (auto simp: agent__OnUserRecv_def simp del: a2r_encode.simps intro: spares_trans)
next
  case (ACompletion c)
  then show ?thesis using t
    by (cases c) (auto simp: agent_tunnel_done_def agent_user_done_def intro!: spares_trans [OF spares_ases spares_Clean])
next
  case (AUserNet j e)
  then have "e \<noteq> CevConn (EvSend x p)" for x p using n by auto
  then have "sends (client_log u) = sends (client_log c)" if "impl_step (client_step raw_step raw__DoRecv e) c = Inr u" for c u
    using sends_impl_step [OF that] by blast
  then show ?thesis using t AUserNet by (auto intro: spares_on_user_conn)
qed (use t a spares_OnServerConnect spares_OnServerDisconnect spares_on_tunnel spares_on_session_conn in auto)

lemma agent_hands:
  assumes t: "agent_handle ev s = Inr t" and o: "owned r usr k s" and n: "\<not> owner_send ev" and e: "agent_enabled s ev"
  shows "handed k t = handed k s @ (case arrived ev of None \<Rightarrow> []
      | Some (q, p) \<Rightarrow> if q = r \<and> knows r usr k s then user_payload usr p else [])"
    "owned r usr k t" "knows r usr k t \<Longrightarrow> knows r usr k s"
proof -
  have k: "k < aa_next_ses s" using o by (simp add: owned_def)
  have spared: "owned r usr k u \<and> (knows r usr k u \<longrightarrow> knows r usr k s)" if "spares k s u" for u
  proof -
    have le: "aa_next_ses s \<le> aa_next_ses u" and nr: "aa_next_remote u = aa_next_remote s" and kn: "\<And>q v. knows q v k u \<Longrightarrow> knows q v k s"
      using that unfolding spares_def by blast+
    have "k < aa_next_ses u" using k le by simp
    moreover have "\<And>q v. q < aa_next_remote s \<Longrightarrow> knows q v k u \<Longrightarrow> q = r \<and> v = usr" using kn o unfolding owned_def by blast
    ultimately show ?thesis using kn unfolding owned_def nr by blast
  qed
  have data: "handed k t = handed k s @ (if q = r \<and> knows r usr k s then user_payload usr p else [])
      \<and> owned r usr k t \<and> (knows r usr k t \<longrightarrow> knows r usr k s)"
    if "r2a_decode p = Some (R2A_data port uid)" "agent_on_data q (port, uid) (drop (r2a_sizeof (R2A_data port uid)) p) s = Inr t"
      "q < aa_next_remote s" for p port uid q
    using data_handed [OF that(2) o that(3)] that(1) o by (auto simp: user_payload_def owned_def simp del: r2a_sizeof.simps)
  have other: "user_payload usr p = []" if "\<And>port uid. r2a_decode p \<noteq> Some (R2A_data port uid)" for p
    using that by (auto simp: user_payload_def split: option.split r2a.split)
  have "handed k t = handed k s @ (case arrived ev of None \<Rightarrow> []
      | Some (q, p) \<Rightarrow> if q = r \<and> knows r usr k s then user_payload usr p else [])
      \<and> owned r usr k t \<and> (knows r usr k t \<longrightarrow> knows r usr k s)"
  proof (cases "arrived ev")
    case None
    then show ?thesis using spares_event [OF t None n] spared [of t] by (auto simp: spares_def)
  next
    case (Some qp)
    then obtain q p where qp: "arrived ev = Some (q, p)" by (cases qp) auto
    show ?thesis
    proof (cases "\<exists>port uid. r2a_decode p = Some (R2A_data port uid)")
      case True
      then obtain port uid where d: "r2a_decode p = Some (R2A_data port uid)" by blast
      then have "agent_on_data q (port, uid) (drop (r2a_sizeof (R2A_data port uid)) p) s = Inr t"
        using t qp by (cases ev) (auto simp: agent__OnServerRecv_def agent__OnSessionRecv_def simp del: r2a_sizeof.simps)
      moreover have "q < aa_next_remote s" using e qp by (cases ev) auto
      ultimately show ?thesis using data [OF d] qp by simp
    next
      case False
      then have "spares k s t" using t qp spares_on_connect [OF _ k] spares_on_disconnect
        by (cases ev) (auto simp: agent__OnServerRecv_def agent__OnSessionRecv_def split: option.splits r2a.splits)
      then show ?thesis using other [of p] False qp spared [of t] by (auto simp: spares_def)
    qed
  qed
  then show "handed k t = handed k s @ (case arrived ev of None \<Rightarrow> []
      | Some (q, p) \<Rightarrow> if q = r \<and> knows r usr k s then user_payload usr p else [])"
    "owned r usr k t" "knows r usr k t \<Longrightarrow> knows r usr k s" by blast+
qed

subsection \<open>From the strand of the server to the connection\<close>

fun posted_task :: "'p srv_call \<Rightarrow> 'p srv_task list" where
  "posted_task (SPost t) = [t]"
| "posted_task _ = []"

definition posted :: "'p srv_call list \<Rightarrow> 'p srv_task list" where
  "posted out = concat (map posted_task out)"

fun task_packet :: "'p srv_task \<Rightarrow> (u32 \<times> bytes) list" where
  "task_packet (SSend a data pfn) = [(a, data)]"
| "task_packet (SSendV a datas pfn) = [(a, concat datas)]"
| "task_packet _ = []"

definition task_packets :: "u32 \<Rightarrow> 'p srv_task list \<Rightarrow> bytes list" where
  "task_packets a ts = map snd (filter (\<lambda>x. fst x = a) (concat (map task_packet ts)))"

lemma packet_of_posted: "packet_of x = concat (map task_packet (posted_task x))"
  by (cases x rule: packet_of.cases) simp_all

lemma task_packets_posted: "task_packets a (posted out) = packets a out"
  by (induction out) (simp_all add: task_packets_def packets_def posted_def packet_of_posted)

lemma task_packets_append [simp]: "task_packets a (ts @ us) = task_packets a ts @ task_packets a us"
  by (simp add: task_packets_def)

lemma task_packets_Nil [simp]: "task_packets a [] = []"
  by (simp add: task_packets_def)

lemma task_packets_Cons: "task_packets a (t # ts) = (if task_seq t = a then map snd (task_packet t) else []) @ task_packets a ts"
  by (cases t) (auto simp: task_packets_def)

text \<open>What a connection is asked to send, by a call of its Send or SendV.\<close>

fun send_task :: "'p io_call \<Rightarrow> 'p task list" where
  "send_task (Post (TSend d pfn)) = [TSend d pfn]"
| "send_task (Post (TSendV ds pfn)) = [TSendV ds pfn]"
| "send_task _ = []"

definition send_tasks :: "'p io_call list \<Rightarrow> 'p task list" where
  "send_tasks xs = concat (map send_task xs)"

fun conn_packet :: "'p task \<Rightarrow> bytes list" where
  "conn_packet (TSend d pfn) = [d]"
| "conn_packet (TSendV ds pfn) = [concat ds]"
| "conn_packet _ = []"

definition conn_packets :: "'p task list \<Rightarrow> bytes list" where
  "conn_packets ts = concat (map conn_packet ts)"

lemma conn_packets_append [simp]: "conn_packets (ts @ us) = conn_packets ts @ conn_packets us"
  by (simp add: conn_packets_def)

lemma conn_packets_simps [simp]: "conn_packets [] = []" "conn_packets (t # ts) = conn_packet t @ conn_packets ts"
  by (simp_all add: conn_packets_def)

text \<open>A call of the server's strand asks the connection of its number for the packet it carries.\<close>

lemma task_call_packet:
  "conn_packets (send_tasks (drop (length (io c)) (io (task_call tcp_class t c)))) = map snd (task_packet t)"
  by (cases t) (auto simp: tcp_class_def conn_Send_def conn_SendV_def conn_BlockRecv_def tcp_Close_def close_socket_def emit_def
      send_tasks_def conn_packets_def Let_def)

text \<open>The connection runs Send and SendV from its own \<open>io_service\<close>.\<close>

fun link_submit :: "'p task \<Rightarrow> 'p link \<Rightarrow> 'p link option" where
  "link_submit (TSend d pfn) l = Some (drain_tx (tcp__Send d pfn (tx_conn l)) (l\<lparr>sent := sent l @ [d]\<rparr>))"
| "link_submit (TSendV ds pfn) l =
     (case tcp__SendV ds pfn (tx_conn l) of Inl _ \<Rightarrow> None | Inr c \<Rightarrow> Some (drain_tx c (l\<lparr>sent := sent l @ [concat ds]\<rparr>)))"
| "link_submit _ l = None"

lemma link_submit_step: "link_submit t l = Some l' \<Longrightarrow> link_step l l' \<and> sent l' = sent l @ conn_packet t"
  by (cases "(t, l)" rule: link_submit.cases) (auto intro: ls_send ls_sendv split: sum.splits)

lemma absorb_tx_got: "got (fold absorb_tx xs l) = got l"
proof (induction xs arbitrary: l)
  case (Cons x xs)
  then show ?case by (cases x) auto
qed simp

lemma absorb_rx_got: "\<exists>x. got (fold absorb_rx xs l) = got l @ x"
proof (induction xs arbitrary: l)
  case (Cons x xs)
  obtain y where "got (fold absorb_rx xs (absorb_rx x l)) = got (absorb_rx x l) @ y" using Cons.IH by blast
  then show ?case by (cases "(x, l)" rule: absorb_rx.cases) auto
qed simp

lemma drain_tx_got [simp]: "got (drain_tx c l) = got l"
  by (simp add: drain_tx_def absorb_tx_got)

lemma drain_rx_got: "got l0 = got l \<Longrightarrow> \<exists>x. got (drain_rx c l0) = got l @ x"
  using absorb_rx_got [of "io c" "l0\<lparr>rx_conn := c\<lparr>io := []\<rparr>\<rparr>"] by (simp add: drain_rx_def)

lemma link_handler_got: "link_handler l l' \<Longrightarrow> \<exists>x. got l' = got l @ x"
  by (induction rule: link_handler.induct) (simp_all add: drain_rx_got del: tcp_step.simps tcp_run_task.simps)

lemma link_step_got: "link_step l l' \<Longrightarrow> \<exists>x. got l' = got l @ x"
  by (induction rule: link_step.induct) (simp_all add: drain_rx_got link_handler_got)

lemma link_prefix: "link_inv m l \<Longrightarrow> \<exists>rest. sent l = got l @ rest"
  by (auto simp: link_inv_def stream_ok_def split: option.splits read_req.splits)

subsection \<open>Both programs and the connections between them\<close>

record user_stream =
  us_relay :: relay
  us_agent :: agentapp
  us_posts :: "completion srv_task list"            \<comment> \<open>posted to the strand of the agents' server\<close>
  us_conn :: "u32 \<Rightarrow> completion task list"           \<comment> \<open>posted to the connection of a number\<close>
  us_link :: "u32 \<Rightarrow> completion link"                 \<comment> \<open>the connection and its end at the agent\<close>
  us_taken :: "u32 \<Rightarrow> nat"                            \<comment> \<open>how many packets the agent's handlers have run for\<close>
  us_dropped :: "u32 \<Rightarrow> bytes list"                   \<comment> \<open>packets for a number without a connection\<close>

definition relay_moves :: "relay \<Rightarrow> user_stream \<Rightarrow> user_stream" where
  "relay_moves rt y =
     (let new = drop (length (srv_out (rl_agent_srv (us_relay y)))) (srv_out (rl_agent_srv rt))
      in y\<lparr>us_relay := rt, us_posts := us_posts y @ posted new\<rparr>)"

text \<open>The strand runs its next task \<open>t\<close>, which has made the relay \<open>rt\<close>: what it has posted to the
  connection is queued there, and without a connection of that number the packet is gone.\<close>

definition strand_moves :: "completion srv_task \<Rightarrow> relay \<Rightarrow> user_stream \<Rightarrow> user_stream" where
  "strand_moves t rt y =
     (let a = task_seq t; old = rl_agent_srv (us_relay y); y' = y\<lparr>us_relay := rt, us_posts := tl (us_posts y)\<rparr>
      in case map_find (srv_conns old) a of
           None \<Rightarrow> y'\<lparr>us_dropped := (us_dropped y)(a := us_dropped y a @ map snd (task_packet t))\<rparr>
         | Some cid \<Rightarrow> y'\<lparr>us_conn := (us_conn y)(a := us_conn y a
             @ send_tasks (drop (length (io (srv_heap old cid))) (io (srv_heap (rl_agent_srv rt) cid))))\<rparr>)"

fun strand_event :: "relay_event \<Rightarrow> bool" where
  "strand_event (RAgentNet (SevTask t)) = True"
| "strand_event _ = False"

text \<open>\<open>conn_of a\<close>: the remote of the agent that the connection \<open>a\<close> belongs to, as its tunnel or as
  the connection of one of its sessions.  The list collects what was taken from users.\<close>

inductive stream_run :: "(u32 \<Rightarrow> nat) \<Rightarrow> user_stream \<Rightarrow> (u32 \<times> user \<times> bytes) list \<Rightarrow> user_stream \<Rightarrow> bool" for conn_of y where
  us_start: "stream_run conn_of y [] y"
| us_relay_step: "stream_run conn_of y xs z \<Longrightarrow> relay_enabled (us_relay z) ev \<Longrightarrow> relay_handle ev (us_relay z) = Inr rt \<Longrightarrow>
    \<not> owner_post ev \<Longrightarrow> \<not> strand_event ev \<Longrightarrow> stream_run conn_of y (xs @ fed ev (us_relay z)) (relay_moves rt z)"
| us_strand_step: "stream_run conn_of y xs z \<Longrightarrow> us_posts z = t # ts \<Longrightarrow> relay_handle (RAgentNet (SevTask t)) (us_relay z) = Inr rt \<Longrightarrow>
    stream_run conn_of y xs (strand_moves t rt z)"
| us_submit: "stream_run conn_of y xs z \<Longrightarrow> us_conn z a = t # ts \<Longrightarrow> link_submit t (us_link z a) = Some l \<Longrightarrow>
    stream_run conn_of y xs (z\<lparr>us_conn := (us_conn z)(a := ts), us_link := (us_link z)(a := l)\<rparr>)"
| us_link_step: "stream_run conn_of y xs z \<Longrightarrow> link_step (us_link z a) l \<Longrightarrow> sent l = sent (us_link z a) \<Longrightarrow>
    stream_run conn_of y xs (z\<lparr>us_link := (us_link z)(a := l)\<rparr>)"
| us_agent_step: "stream_run conn_of y xs z \<Longrightarrow> agent_enabled (us_agent z) ev \<Longrightarrow> agent_handle ev (us_agent z) = Inr t \<Longrightarrow>
    arrived ev = None \<Longrightarrow> \<not> owner_send ev \<Longrightarrow> stream_run conn_of y xs (z\<lparr>us_agent := t\<rparr>)"
| us_deliver: "stream_run conn_of y xs z \<Longrightarrow> us_taken z a < length (got (us_link z a)) \<Longrightarrow> p = got (us_link z a) ! us_taken z a \<Longrightarrow>
    arrived ev = Some (conn_of a, p) \<Longrightarrow> agent_enabled (us_agent z) ev \<Longrightarrow> agent_handle ev (us_agent z) = Inr t \<Longrightarrow>
    stream_run conn_of y xs (z\<lparr>us_agent := t, us_taken := (us_taken z)(a := Suc (us_taken z a))\<rparr>)"

text \<open>What is under way on the connection \<open>a\<close>, the oldest first.\<close>

definition under_way :: "user_stream \<Rightarrow> u32 \<Rightarrow> bytes list" where
  "under_way z a = drop (us_taken z a) (sent (us_link z a)) @ conn_packets (us_conn z a) @ task_packets a (us_posts z)"

definition links_ok :: "u32 \<Rightarrow> user_stream \<Rightarrow> bool" where
  "links_ok m z \<longleftrightarrow> (\<forall>a. link_inv m (us_link z a) \<and> us_taken z a \<le> length (got (us_link z a)))"

definition user_stream_ok :: "(u32 \<Rightarrow> nat) \<Rightarrow> nat \<Rightarrow> user \<Rightarrow> nat \<Rightarrow> user_stream \<Rightarrow> (u32 \<times> user \<times> bytes) list \<Rightarrow> user_stream \<Rightarrow> (u32 \<times> bytes) list \<Rightarrow> bool" where
  "user_stream_ok conn_of r usr k y xs z log \<longleftrightarrow> owned r usr k (us_agent z)
     \<and> handed k (us_agent z) = handed k (us_agent y) @ map snd log
     \<and> (\<forall>a. subseq (map snd (filter (\<lambda>x. fst x = a) log) @ payloads usr (under_way z a)) (payloads usr (under_way y a) @ sent_to a usr xs)
          \<and> (\<exists>d. us_dropped z a = us_dropped y a @ d \<and> (d = [] \<longrightarrow>
              (\<exists>lost. payloads usr (under_way y a) @ sent_to a usr xs = map snd (filter (\<lambda>x. fst x = a) log) @ lost @ payloads usr (under_way z a)
                \<and> (knows r usr k (us_agent z) \<and> conn_of a = r \<longrightarrow> lost = [])))))"

lemma user_stream_okI:
  assumes "user_stream_ok conn_of r usr k y xs z log" "us_agent z' = us_agent z" "us_dropped z' = us_dropped z"
    "\<And>a. payloads usr (under_way z' a) = payloads usr (under_way z a) @ sent_to a usr new"
  shows "user_stream_ok conn_of r usr k y (xs @ new) z' log"
  unfolding user_stream_ok_def
proof (intro conjI allI)
  fix a
  obtain d where s: "subseq (map snd (filter (\<lambda>x. fst x = a) log) @ payloads usr (under_way z a)) (payloads usr (under_way y a) @ sent_to a usr xs)"
    and d: "us_dropped z a = us_dropped y a @ d" "d = [] \<longrightarrow>
      (\<exists>lost. payloads usr (under_way y a) @ sent_to a usr xs = map snd (filter (\<lambda>x. fst x = a) log) @ lost @ payloads usr (under_way z a)
        \<and> (knows r usr k (us_agent z) \<and> conn_of a = r \<longrightarrow> lost = []))"
    using assms(1) unfolding user_stream_ok_def by blast
  show "subseq (map snd (filter (\<lambda>x. fst x = a) log) @ payloads usr (under_way z' a)) (payloads usr (under_way y a) @ sent_to a usr (xs @ new))"
    using list_emb_append_mono [OF s, of "sent_to a usr new" "sent_to a usr new"] by (simp add: assms(4))
  show "\<exists>d. us_dropped z' a = us_dropped y a @ d \<and> (d = [] \<longrightarrow>
      (\<exists>lost. payloads usr (under_way y a) @ sent_to a usr (xs @ new) = map snd (filter (\<lambda>x. fst x = a) log) @ lost @ payloads usr (under_way z' a)
        \<and> (knows r usr k (us_agent z') \<and> conn_of a = r \<longrightarrow> lost = [])))"
    using d by (intro exI [of _ d]) (auto simp: assms(2-4))
qed (use assms(1,2) in \<open>simp_all add: user_stream_ok_def\<close>)

lemma user_stream_ok_relay:
  assumes ok: "user_stream_ok conn_of r usr k y xs z log" and t: "relay_handle ev (us_relay z) = Inr rt" "\<not> owner_post ev"
  shows "user_stream_ok conn_of r usr k y (xs @ fed ev (us_relay z)) (relay_moves rt z) log"
proof -
  obtain new where n: "srv_out (rl_agent_srv rt) = srv_out (rl_agent_srv (us_relay z)) @ new"
    "\<And>a usr. payloads usr (packets a new) = sent_to a usr (fed ev (us_relay z))"
    using relay_posts [OF t] by blast
  show ?thesis
    by (rule user_stream_okI [OF ok]) (simp_all add: relay_moves_def n(1) Let_def under_way_def task_packets_posted n(2))
qed

lemma user_stream_ok_strand:
  assumes ok: "user_stream_ok conn_of r usr k y xs z log" and q: "us_posts z = t # ts"
    and t: "relay_handle (RAgentNet (SevTask t)) (us_relay z) = Inr rt"
  shows "user_stream_ok conn_of r usr k y xs (strand_moves t rt z) log"
proof -
  let ?srv = "rl_agent_srv (us_relay z)" and ?z = "strand_moves t rt z"
  have rt: "rl_agent_srv rt = srv_on_conn (task_seq t) (task_call tcp_class t) ?srv" using t by (auto simp: run_task_eq)
  show ?thesis
  proof (cases "map_find (srv_conns ?srv) (task_seq t)")
    case (Some cid)
    then have "us_agent ?z = us_agent z" "us_dropped ?z = us_dropped z" "under_way ?z a = under_way z a" for a
      by (auto simp: strand_moves_def Let_def rt srv_on_conn_def under_way_def q task_packets_Cons task_call_packet)
    then show ?thesis using user_stream_okI [OF ok, of ?z "[]"] by (simp add: sent_to_def)
  next
    case None
    let ?lost = "map snd (task_packet t)"
    have z: "us_agent ?z = us_agent z" "us_dropped ?z a = us_dropped z a @ (if a = task_seq t then ?lost else [])"
      "under_way z a = drop (us_taken z a) (sent (us_link z a)) @ conn_packets (us_conn z a) @ (if a = task_seq t then ?lost else []) @ task_packets a ts"
      "under_way ?z a = drop (us_taken z a) (sent (us_link z a)) @ conn_packets (us_conn z a) @ task_packets a ts" for a
      using None by (auto simp: strand_moves_def Let_def under_way_def q task_packets_Cons)
    show ?thesis
      unfolding user_stream_ok_def
    proof (intro conjI allI)
      fix a
      obtain d where s: "subseq (map snd (filter (\<lambda>x. fst x = a) log) @ payloads usr (under_way z a)) (payloads usr (under_way y a) @ sent_to a usr xs)"
        and d: "us_dropped z a = us_dropped y a @ d" "d = [] \<longrightarrow>
          (\<exists>lost. payloads usr (under_way y a) @ sent_to a usr xs = map snd (filter (\<lambda>x. fst x = a) log) @ lost @ payloads usr (under_way z a)
            \<and> (knows r usr k (us_agent z) \<and> conn_of a = r \<longrightarrow> lost = []))"
        using ok unfolding user_stream_ok_def by blast
      have "subseq (payloads usr (under_way ?z a)) (payloads usr (under_way z a))"
        unfolding z(3,4) payloads_append by (intro list_emb_append_mono subseq_order.order_refl) (simp add: subseq_drop_many)
      then show "subseq (map snd (filter (\<lambda>x. fst x = a) log) @ payloads usr (under_way ?z a)) (payloads usr (under_way y a) @ sent_to a usr xs)"
        by (intro subseq_order.order_trans [OF _ s] list_emb_append_mono subseq_order.order_refl)
      show "\<exists>d. us_dropped ?z a = us_dropped y a @ d \<and> (d = [] \<longrightarrow>
          (\<exists>lost. payloads usr (under_way y a) @ sent_to a usr xs = map snd (filter (\<lambda>x. fst x = a) log) @ lost @ payloads usr (under_way ?z a)
            \<and> (knows r usr k (us_agent ?z) \<and> conn_of a = r \<longrightarrow> lost = [])))"
        using d by (intro exI [of _ "d @ (if a = task_seq t then ?lost else [])"]) (auto simp: z)
    qed (use ok in \<open>simp_all add: user_stream_ok_def z(1)\<close>)
  qed
qed

lemma user_stream_ok_link:
  assumes ok: "user_stream_ok conn_of r usr k y xs z log" and l: "links_ok m z"
    and s: "conn_packets (us_conn z a) = new @ conn_packets ts" "sent l = sent (us_link z a) @ new"
  shows "user_stream_ok conn_of r usr k y xs (z\<lparr>us_conn := (us_conn z)(a := ts), us_link := (us_link z)(a := l)\<rparr>) log"
proof -
  obtain rest where "sent (us_link z a) = got (us_link z a) @ rest" "us_taken z a \<le> length (got (us_link z a))"
    using l link_prefix unfolding links_ok_def by blast
  then have "us_taken z a \<le> length (sent (us_link z a))" by simp
  then have "under_way (z\<lparr>us_conn := (us_conn z)(a := ts), us_link := (us_link z)(a := l)\<rparr>) b = under_way z b" for b
    by (simp add: under_way_def s)
  then show ?thesis using user_stream_okI [OF ok, of "z\<lparr>us_conn := (us_conn z)(a := ts), us_link := (us_link z)(a := l)\<rparr>" "[]"]
    by (simp add: sent_to_def)
qed

lemma user_stream_ok_agent:
  assumes ok: "user_stream_ok conn_of r usr k y xs z log" 
    and t: "agent_enabled (us_agent z) ev" "agent_handle ev (us_agent z) = Inr t" "arrived ev = None" "\<not> owner_send ev"
  shows "user_stream_ok conn_of r usr k y xs (z\<lparr>us_agent := t\<rparr>) log"
proof -
  have o: "owned r usr k (us_agent z)" using ok by (simp add: user_stream_ok_def)
  note H = agent_hands [OF t(2) o t(4,1), unfolded t(3)]
  have w: "under_way (z\<lparr>us_agent := t\<rparr>) = under_way z" by (simp add: under_way_def fun_eq_iff)
  show ?thesis using ok H unfolding user_stream_ok_def w by simp metis
qed

lemma user_stream_ok_deliver:
  assumes ok: "user_stream_ok conn_of r usr k y xs z log" and l: "links_ok m z"
    and w: "us_taken z a < length (got (us_link z a))" "p = got (us_link z a) ! us_taken z a"
    and t: "arrived ev = Some (conn_of a, p)" "agent_enabled (us_agent z) ev" "agent_handle ev (us_agent z) = Inr t"
  defines "taken \<equiv> if conn_of a = r \<and> knows r usr k (us_agent z) then user_payload usr p else []"
  defines "z' \<equiv> z\<lparr>us_agent := t, us_taken := (us_taken z)(a := Suc (us_taken z a))\<rparr>"
  shows "user_stream_ok conn_of r usr k y xs z' (log @ map (Pair a) taken)"
proof -
  have o: "owned r usr k (us_agent z)" using ok by (simp add: user_stream_ok_def)
  have "\<not> owner_send ev" using t(1) by (cases ev) auto
  note H = agent_hands [OF t(3) o this t(2), unfolded t(1), simplified, folded taken_def]
  obtain rest where g: "sent (us_link z a) = got (us_link z a) @ rest" using l link_prefix unfolding links_ok_def by blast
  have "drop (us_taken z a) (sent (us_link z a)) = p # drop (Suc (us_taken z a)) (sent (us_link z a))"
    using w by (simp add: g Cons_nth_drop_Suc)
  then have u: "under_way z b = (if b = a then p # under_way z' a else under_way z' b)" for b
    by (auto simp: under_way_def z'_def)
  have la: "map snd (filter (\<lambda>x. fst x = b) (log @ map (Pair a) taken)) = map snd (filter (\<lambda>x. fst x = b) log) @ (if b = a then taken else [])" for b
    by (simp add: filter_map o_def)
  show ?thesis
    unfolding user_stream_ok_def la
  proof (intro conjI allI)
    fix b
    let ?log = "map snd (filter (\<lambda>x. fst x = b) log)" and ?new = "if b = a then taken else []"
    obtain d where s: "subseq (?log @ payloads usr (under_way z b)) (payloads usr (under_way y b) @ sent_to b usr xs)"
      and d: "us_dropped z b = us_dropped y b @ d" "d = [] \<longrightarrow>
        (\<exists>lost. payloads usr (under_way y b) @ sent_to b usr xs = ?log @ lost @ payloads usr (under_way z b)
          \<and> (knows r usr k (us_agent z) \<and> conn_of b = r \<longrightarrow> lost = []))"
      using ok unfolding user_stream_ok_def by blast
    have "subseq (?new @ payloads usr (under_way z' b)) (payloads usr (under_way z b))"
      by (auto simp: u payloads_Cons taken_def subseq_drop_many)
    then show "subseq ((?log @ ?new) @ payloads usr (under_way z' b)) (payloads usr (under_way y b) @ sent_to b usr xs)"
      unfolding append_assoc by (intro subseq_order.order_trans [OF _ s] list_emb_append_mono subseq_order.order_refl)
    have "us_dropped z' b = us_dropped y b @ d" using d(1) by (simp add: z'_def)
    moreover have "\<exists>lost. payloads usr (under_way y b) @ sent_to b usr xs = (?log @ ?new) @ lost @ payloads usr (under_way z' b)
        \<and> (knows r usr k (us_agent z') \<and> conn_of b = r \<longrightarrow> lost = [])" if e: "d = []"
    proof -
      obtain lost where "payloads usr (under_way y b) @ sent_to b usr xs = ?log @ lost @ payloads usr (under_way z b)"
        "knows r usr k (us_agent z) \<and> conn_of b = r \<longrightarrow> lost = []" using d(2) e by blast
      then show ?thesis using H(3)
        by (intro exI [of _ "if b = a \<and> taken = [] then lost @ user_payload usr p else if b = a then [] else lost"])
          (auto simp: u payloads_Cons taken_def z'_def)
    qed
    ultimately show "\<exists>d. us_dropped z' b = us_dropped y b @ d \<and> (d = [] \<longrightarrow>
        (\<exists>lost. payloads usr (under_way y b) @ sent_to b usr xs = (?log @ ?new) @ lost @ payloads usr (under_way z' b)
          \<and> (knows r usr k (us_agent z') \<and> conn_of b = r \<longrightarrow> lost = [])))" by blast
  qed (use ok H in \<open>simp_all add: user_stream_ok_def z'_def o_def\<close>)
qed

lemma subseq_append_self: "subseq xs (xs @ ys)"
  by (simp add: list_emb_prefix subseq_order.order_refl)

lemma moves_simps [simp]:
  "us_link (relay_moves rt z) = us_link z" "us_taken (relay_moves rt z) = us_taken z"
  "us_link (strand_moves t rt z) = us_link z" "us_taken (strand_moves t rt z) = us_taken z"
  by (simp_all add: relay_moves_def strand_moves_def Let_def split: option.split)

lemma stream_run_sent: "stream_run conn_of y xs z \<Longrightarrow> set (sent (us_link y a)) \<subseteq> set (sent (us_link z a))"
proof (induction rule: stream_run.induct)
  case (us_submit xs z b t ts l)
  then show ?case using link_submit_step [OF us_submit.hyps(3)] by (cases "a = b") auto
next
  case (us_link_step xs z b l)
  then show ?case by (cases "a = b") simp_all
qed simp_all

lemma links_ok_step:
  assumes "links_ok m z" "link_step (us_link z a) l" "list_all (fits m) (sent l)"
  shows "links_ok m (z\<lparr>us_conn := cs, us_link := (us_link z)(a := l)\<rparr>)"
proof -
  have "link_inv m (us_link z a)" "us_taken z a \<le> length (got (us_link z a))" using assms(1) by (simp_all add: links_ok_def)
  moreover have "link_inv m l" using link_step_inv [OF assms(2)] calculation(1) assms(3) by (simp add: list_all_iff)
  moreover have "us_taken z a \<le> length (got l)" using link_step_got [OF assms(2)] calculation(2) by auto
  ultimately show ?thesis using assms(1) by (simp add: links_ok_def)
qed

lemma stream_run_ok:
  assumes "stream_run conn_of y xs z" "links_ok m y" "owned r usr k (us_agent y)" "\<And>a. list_all (fits m) (sent (us_link z a))"
  shows "links_ok m z \<and> (\<exists>log. user_stream_ok conn_of r usr k y xs z log)"
  using assms
proof (induction rule: stream_run.induct)
  case us_start
  have "user_stream_ok conn_of r usr k y [] y []" using us_start by (simp add: user_stream_ok_def sent_to_def)
  then show ?case using us_start by blast
next
  case (us_relay_step xs z ev rt)
  then have "links_ok m z" "\<exists>log. user_stream_ok conn_of r usr k y xs z log" by simp_all
  then show ?case using user_stream_ok_relay [OF _ us_relay_step.hyps(3,4)] by (simp add: links_ok_def) blast
next
  case (us_strand_step xs z t ts rt)
  then have "links_ok m z" "\<exists>log. user_stream_ok conn_of r usr k y xs z log" by simp_all
  then show ?case using user_stream_ok_strand [OF _ us_strand_step.hyps(2,3)] by (simp add: links_ok_def) blast
next
  case (us_submit xs z a t ts l)
  let ?z = "z\<lparr>us_conn := (us_conn z)(a := ts), us_link := (us_link z)(a := l)\<rparr>"
  have l: "link_step (us_link z a) l" "sent l = sent (us_link z a) @ conn_packet t"
    using link_submit_step [OF us_submit.hyps(3)] by blast+
  have fit: "list_all (fits m) (sent (us_link ?z b))" for b using us_submit.prems(3) .
  then have "list_all (fits m) (sent (us_link z b))" for b using fit [of b] l(2) by (cases "b = a") auto
  then have "links_ok m z" "\<exists>log. user_stream_ok conn_of r usr k y xs z log" using us_submit.IH us_submit.prems(1,2) by blast+
  moreover have "links_ok m ?z" using links_ok_step [OF calculation(1) l(1)] fit [of a] by simp
  moreover have "conn_packets (us_conn z a) = conn_packet t @ conn_packets ts" by (simp add: us_submit.hyps(2))
  ultimately show ?case using user_stream_ok_link [OF _ _ _ l(2)] by blast
next
  case (us_link_step xs z a l)
  let ?z = "z\<lparr>us_link := (us_link z)(a := l)\<rparr>"
  have z: "?z = z\<lparr>us_conn := (us_conn z)(a := us_conn z a), us_link := (us_link z)(a := l)\<rparr>" by simp
  have fit: "list_all (fits m) (sent (us_link ?z b))" for b using us_link_step.prems(3) .
  then have "list_all (fits m) (sent (us_link z b))" for b using fit [of b] us_link_step.hyps(3) by (cases "b = a") auto
  then have "links_ok m z" "\<exists>log. user_stream_ok conn_of r usr k y xs z log" using us_link_step.IH us_link_step.prems(1,2) by blast+
  moreover have "links_ok m ?z" using links_ok_step [OF calculation(1) us_link_step.hyps(2), of "us_conn z"] fit [of a] by simp
  moreover have "sent l = sent (us_link z a) @ []" using us_link_step.hyps(3) by simp
  moreover have "conn_packets (us_conn z a) = [] @ conn_packets (us_conn z a)" by simp
  ultimately show ?case unfolding z using user_stream_ok_link by blast
next
  case (us_agent_step xs z ev t)
  then have "links_ok m z" "\<exists>log. user_stream_ok conn_of r usr k y xs z log" by simp_all
  then show ?case using user_stream_ok_agent [OF _ us_agent_step.hyps(2-5)] by (simp add: links_ok_def) blast
next
  case (us_deliver xs z a p ev t)
  then have "links_ok m z" "\<exists>log. user_stream_ok conn_of r usr k y xs z log" by simp_all
  moreover from this(1) us_deliver.hyps(2) have "links_ok m (z\<lparr>us_agent := t, us_taken := (us_taken z)(a := Suc (us_taken z a))\<rparr>)"
    by (simp add: links_ok_def)
  ultimately show ?case using user_stream_ok_deliver us_deliver.hyps by blast
qed

subsection \<open>The theorem\<close>

lemma user_stream_ok_lossless:
  assumes ok: "user_stream_ok conn_of r usr k y xs z log" and e: "us_dropped z a = us_dropped y a"
  shows "\<exists>lost. payloads usr (under_way y a) @ sent_to a usr xs = map snd (filter (\<lambda>x. fst x = a) log) @ lost @ payloads usr (under_way z a)
    \<and> (knows r usr k (us_agent z) \<and> conn_of a = r \<longrightarrow> lost = [])"
proof -
  obtain d where d: "us_dropped z a = us_dropped y a @ d" "d = [] \<longrightarrow>
      (\<exists>lost. payloads usr (under_way y a) @ sent_to a usr xs = map snd (filter (\<lambda>x. fst x = a) log) @ lost @ payloads usr (under_way z a)
        \<and> (knows r usr k (us_agent z) \<and> conn_of a = r \<longrightarrow> lost = []))"
    using ok unfolding user_stream_ok_def by blast
  have "d = []" using d(1) e by simp
  then show ?thesis using d(2) by blast
qed

lemma user_stream_ok_one:
  assumes ok: "user_stream_ok conn_of r usr k y xs z log" and one: "\<And>b. b \<noteq> a \<Longrightarrow> payloads usr (under_way y b) @ sent_to b usr xs = []"
    and d: "us_dropped z a = us_dropped y a"
  shows "\<exists>rest. payloads usr (under_way y a) @ sent_to a usr xs = map snd log @ rest
    \<and> (knows r usr k (us_agent z) \<and> conn_of a = r \<and> payloads usr (under_way z a) = [] \<longrightarrow> rest = [])"
proof -
  have "fst x = a" if "x \<in> set log" for x
  proof (rule ccontr)
    assume b: "fst x \<noteq> a"
    have "subseq (map snd (filter (\<lambda>v. fst v = fst x) log) @ payloads usr (under_way z (fst x)))
        (payloads usr (under_way y (fst x)) @ sent_to (fst x) usr xs)"
      using ok unfolding user_stream_ok_def by blast
    then have "map snd (filter (\<lambda>v. fst v = fst x) log) @ payloads usr (under_way z (fst x)) = []"
      unfolding one [OF b] by (rule list_emb_Nil2)
    then have "filter (\<lambda>v. fst v = fst x) log = []" by simp
    then show False using that by (auto simp: filter_empty_conv)
  qed
  then have f: "filter (\<lambda>x. fst x = a) log = log" by (simp add: filter_id_conv)
  obtain lost where l: "payloads usr (under_way y a) @ sent_to a usr xs = map snd (filter (\<lambda>x. fst x = a) log) @ lost @ payloads usr (under_way z a)"
    "knows r usr k (us_agent z) \<and> conn_of a = r \<longrightarrow> lost = []" using user_stream_ok_lossless [OF ok d] by blast
  then show ?thesis unfolding f by (intro exI [of _ "lost @ payloads usr (under_way z a)"]) simp
qed

lemma reached_owned:
  assumes "agent_reach cfg n s" "n \<noteq> 0" "r < aa_next_remote s" "knows r usr k s"
  shows "owned r usr k s"
proof -
  have inv: "agent_inv s" using agent_reach_ok [OF assms(1,2)] by (simp add: agent_ok_def)
  have m: "(u, k) \<in> set (ri_users (aa_remotes s q))" if "knows q u k s" for q u
    using that by (simp add: knows_def map_of_SomeD)
  have "k < aa_next_ses s" using agent_invD(4) [OF inv assms(3) m [OF assms(4)]] .
  moreover have "q = r \<and> u = usr" if "q < aa_next_remote s" "knows q u k s" for q u
    using agent_invD(5) [OF inv that(1) assms(3) m [OF that(2)] m [OF assms(4)]] .
  ultimately show ?thesis unfolding owned_def by blast
qed

text \<open>C2: The stream of a user goes through both programs in order.  Take any state in which the agent
  knows the user and the connections between the programs are as some run of theirs leaves them, and let
  everything run in any interleaving: the handlers of the relay, the strand of its server, which passes
  packets to the connection of their number or drops them, each connection with its queue, its writes in
  chunks and its reads of header and body, blocked and resumed at will, and the handlers of the agent.  What
  the connection to the service has been handed since is put together from, for each connection
  between the programs, a subsequence of what was under way for that user and what the users have sent
  over it since; while the server has dropped nothing of that connection it is a prefix without a gap
  (what is not in it is still under way, unless the agent has forgotten the user).  When everything
  goes over one connection of which nothing is dropped, the service is handed a prefix of the stream, and
  the whole of it once nothing of it is under way and the user is still known.  Across two connections the
  order is not kept, and the code does not see to it.\<close>

theorem user_stream_delivered:
  assumes run: "stream_run conn_of y xs z" and ag: "agent_reach cfg n (us_agent y)" "n \<noteq> 0"
    and kn: "r < aa_next_remote (us_agent y)" "knows r usr k (us_agent y)"
    and links: "\<And>a. (\<exists>d. link_reach d m (us_link y a)) \<and> us_taken y a \<le> length (got (us_link y a))"
    and fit: "\<And>a. list_all (fits m) (sent (us_link z a))"
  shows "\<exists>log. handed k (us_agent z) = handed k (us_agent y) @ map snd log
    \<and> (\<forall>a. subseq (map snd (filter (\<lambda>x. fst x = a) log)) (payloads usr (under_way y a) @ sent_to a usr xs)
         \<and> (us_dropped z a = us_dropped y a \<longrightarrow>
              (\<exists>lost. payloads usr (under_way y a) @ sent_to a usr xs = map snd (filter (\<lambda>x. fst x = a) log) @ lost @ payloads usr (under_way z a)
                 \<and> (knows r usr k (us_agent z) \<and> conn_of a = r \<longrightarrow> lost = []))))
    \<and> (\<forall>a. (\<forall>b. b \<noteq> a \<longrightarrow> payloads usr (under_way y b) @ sent_to b usr xs = []) \<longrightarrow> us_dropped z a = us_dropped y a \<longrightarrow>
         (\<exists>rest. payloads usr (under_way y a) @ sent_to a usr xs = map snd log @ rest
            \<and> (knows r usr k (us_agent z) \<and> conn_of a = r \<and> payloads usr (under_way z a) = [] \<longrightarrow> rest = [])))"
proof -
  have "link_inv m (us_link y a)" for a
  proof -
    have "\<forall>p \<in> set (sent (us_link y a)). fits m p" using fit [of a] stream_run_sent [OF run, of a] by (auto simp: list_all_iff)
    then show ?thesis using links [of a] link_reach_inv by blast
  qed
  then have "links_ok m y" using links by (simp add: links_ok_def)
  then obtain log where ok: "user_stream_ok conn_of r usr k y xs z log"
    using stream_run_ok [OF run _ reached_owned [OF ag kn] fit] by blast
  have s: "subseq (map snd (filter (\<lambda>x. fst x = a) log)) (payloads usr (under_way y a) @ sent_to a usr xs)" for a
  proof -
    have "subseq (map snd (filter (\<lambda>x. fst x = a) log) @ payloads usr (under_way z a)) (payloads usr (under_way y a) @ sent_to a usr xs)"
      using ok unfolding user_stream_ok_def by blast
    then show ?thesis by (rule subseq_order.order_trans [rotated]) (rule subseq_append_self)
  qed
  show ?thesis
    using ok s user_stream_ok_lossless [OF ok] user_stream_ok_one [OF ok]
    by (intro exI [of _ log] conjI) (simp_all add: user_stream_ok_def)
qed

text \<open>A user sends two bytes; the packet is passed to the connection, written, read, and delivered.\<close>

lemma link_handlers_run:
  assumes "link_handler\<^sup>*\<^sup>* (us_link z a) l" "stream_run conn_of y xs z"
  shows "stream_run conn_of y xs (z\<lparr>us_link := (us_link z)(a := l)\<rparr>)"
  using assms(1)
proof (induction rule: rtranclp_induct)
  case base
  then show ?case using assms(2) by simp
next
  case (step l l')
  then have "link_step l l'" "sent l' = sent l" by (simp_all add: ls_handler link_handler_sent)
  moreover have "us_link (z\<lparr>us_link := (us_link z)(a := l)\<rparr>) a = l" by simp
  ultimately have "stream_run conn_of y xs ((z\<lparr>us_link := (us_link z)(a := l)\<rparr>)
      \<lparr>us_link := (us_link (z\<lparr>us_link := (us_link z)(a := l)\<rparr>))(a := l')\<rparr>)"
    by (intro us_link_step [OF step.IH]) simp_all
  then show ?case by (simp del: fun_upd_apply)
qed

lemma demo_link:
  assumes l: "link_submit (TSendV ds pfn) (link_init 0 0) = Some l" and n: "length (concat ds) < 2 ^ 32"
  shows "\<exists>l'. link_handler\<^sup>*\<^sup>* l l' \<and> sent l' = [concat ds] \<and> got l' = [concat ds]"
proof -
  have s: "link_step (link_init 0 0) l" "sent l = [concat ds]" using link_submit_step [OF l] by (simp_all add: link_init_def)
  then have "link_reach 0 0 l" using lr_step [OF lr_init] by blast
  moreover have fit: "\<forall>p \<in> set (sent l). fits 0 p" using n by (simp add: s(2) fits_def)
  ultimately have inv: "link_inv 0 l" by (rule link_reach_inv)
  obtain c where c: "tcp__SendV ds pfn (tx_conn (link_init 0 0 :: 'a link)) = Inr c" "l = drain_tx c ((link_init 0 0)\<lparr>sent := [concat ds]\<rparr>)"
    using l by (auto simp: link_init_def split: sum.splits)
  have "rx_conn (fold absorb_tx xs k) = rx_conn k" for xs and k :: "'a link"
  proof (induction xs arbitrary: k)
    case (Cons x xs)
    then show ?case by (cases x) auto
  qed simp
  then have "\<not> blocking_recv (rx_conn l)" by (simp add: c(2) drain_tx_def link_init_def new_tcp_conn_def)
  from link_completes [OF inv fit this] show ?thesis by (simp add: s(2))
qed

lemma user_stream_delivered_witness:
  "\<exists>y z. stream_run (\<lambda>_. 0) y [(1, (80, 1), [1, 2])] z \<and> agent_reach demo_agent_cfg 1 (us_agent y)
     \<and> relay_reach demo_cfg 1 (us_relay y) \<and> handed 0 (us_agent z) = handed 0 (us_agent y) @ [[1, 2]]"
proof -
  obtain rs where rs: "relay_reach demo_cfg 1 rs" "map_find (rl_services rs) 80 = Some 0"
    "map_find (sv_sessions (rl_svc rs 0)) 1 = Some 0" "rl_ses rs 0 = new_session\<lparr>ss_seq := 1, ss_agent_id := 1\<rparr>"
    "srv_conns (rl_agent_srv rs) = [(1, 0)]" using demo_session by blast
  have inv: "inv_on 0 {} (map_find (rl_services rs)) (rl_next_svc rs) (svc_view rs) (ports_of rs)"
    using relay_reach_inv [OF rs(1)] by (simp add: relay_inv_unfold)
  have port: "sv_port (rl_svc rs 0) = 80" "0 < rl_next_svc rs" using inv_onD(1,2) [OF inv rs(2)] by (auto simp: svc_view_def)
  obtain s u v where s: "agent_reach demo_agent_cfg 1 s" "aa_next_remote s = 1" "aa_next_ses s = 1"
    "map_find (ri_users (aa_remotes s 0)) (80, 1) = Some 0" "aa_ses s 0 = new_ases u v"
    using demo_agent_session by blast
  have b: "agent_traffic_bounded s" using s(3,5) by (simp add: agent_traffic_bounded_def new_ases_def)
  let ?hdr = "r2a_encode (R2A_data 80 1)" and ?pfn = "Some (UserDone 0 0 1 (rl_queue_limit rs))"
  let ?pkt = "?hdr @ [1, 2]" and ?task = "SSendV 1 [?hdr, [1, 2]] ?pfn"
  define y where "y = \<lparr>us_relay = rs, us_agent = s, us_posts = [], us_conn = (\<lambda>_. []), us_link = (\<lambda>_. link_init 0 0),
    us_taken = (\<lambda>_. 0), us_dropped = (\<lambda>_. [])\<rparr>"
  define r1 where "r1 = relay__OnUserRecv 0 1 [1, 2] rs"
  define y1 where "y1 = relay_moves r1 y"
  have fed: "fed (RUserRecv 0 1 [1, 2]) (us_relay y) = [(1, (80, 1), [1, 2])]" by (simp add: y_def rs(3,4) port new_session_def)
  have "stream_run (\<lambda>_. 0) y ([] @ fed (RUserRecv 0 1 [1, 2]) (us_relay y)) y1"
    unfolding y1_def r1_def by (rule us_relay_step [OF us_start]) (simp_all add: y_def port)
  then have run1: "stream_run (\<lambda>_. 0) y [(1, (80, 1), [1, 2])] y1" by (simp only: fed append_Nil)
  have p1: "us_posts y1 = [?task]" "us_relay y1 = r1" "us_agent y1 = s" "us_conn y1 = (\<lambda>_. [])" "us_link y1 = (\<lambda>_. link_init 0 0)"
      "us_taken y1 = (\<lambda>_. 0)" "us_dropped y1 = (\<lambda>_. [])" "srv_conns (rl_agent_srv r1) = [(1, 0)]"
    by (simp_all add: y1_def r1_def y_def relay_moves_def relay__OnUserRecv_def rs(3-5) port Let_def on_agent_srv_def on_user_srv_def
        upd_ses_def upd_svc_def srv_SendV_def srv_emit_def posted_def new_session_def del: r2a_encode.simps)
  obtain r2 where r2: "relay_handle (RAgentNet (SevTask ?task)) (us_relay y1) = Inr r2" by simp
  define y2 where "y2 = strand_moves ?task r2 y1"
  have run2: "stream_run (\<lambda>_. 0) y [(1, (80, 1), [1, 2])] y2" unfolding y2_def by (rule us_strand_step [OF run1 p1(1) r2])
  have p2: "us_conn y2 1 = [TSendV [?hdr, [1, 2]] ?pfn]" "us_agent y2 = s" "us_link y2 = (\<lambda>_. link_init 0 0)"
      "us_taken y2 = (\<lambda>_. 0)" "us_dropped y2 = (\<lambda>_. [])" "us_posts y2 = []" "c \<noteq> 1 \<Longrightarrow> us_conn y2 c = []" for c
    using r2 by (auto simp: y2_def strand_moves_def Let_def p1 srv__SendV_def srv_on_conn_def tcp_class_def conn_SendV_def emit_def send_tasks_def
        simp del: r2a_encode.simps)
  obtain l where l: "link_submit (TSendV [?hdr, [1, 2]] ?pfn) (link_init 0 0) = Some l"
    by (simp add: link_init_def tcp__SendV_def Let_def del: r2a_encode.simps)
  define y3 where "y3 = y2\<lparr>us_conn := (us_conn y2)(1 := []), us_link := (us_link y2)(1 := l)\<rparr>"
  have run3: "stream_run (\<lambda>_. 0) y [(1, (80, 1), [1, 2])] y3"
    unfolding y3_def by (rule us_submit [OF run2 p2(1)]) (use l in \<open>simp add: p2(3) del: r2a_encode.simps link_submit.simps\<close>)
  have len: "length (concat [?hdr, [1, 2]]) < 2 ^ 32" by (simp add: put16_def put32_def)
  obtain l' where l': "link_handler\<^sup>*\<^sup>* l l'" "sent l' = [?pkt]" "got l' = [?pkt]"
    using demo_link [OF l len] by (auto simp del: r2a_encode.simps)
  define y4 where "y4 = y3\<lparr>us_link := (us_link y3)(1 := l')\<rparr>"
  have run4: "stream_run (\<lambda>_. 0) y [(1, (80, 1), [1, 2])] y4"
    unfolding y4_def by (rule link_handlers_run [OF _ run3]) (simp add: y3_def l'(1))
  have p4: "us_link y4 = (\<lambda>_. link_init 0 0)(1 := l')" "us_taken y4 = (\<lambda>_. 0)" "us_agent y4 = s" "us_conn y4 = (\<lambda>_. [])" "us_posts y4 = []"
      "us_dropped y4 = (\<lambda>_. [])"
    by (auto simp: y4_def y3_def p2)
  have en: "agent_enabled (us_agent y4) (AServerRecv ?pkt 0)" using p4(3) s(2) b by simp
  obtain t where t: "agent_handle (AServerRecv ?pkt 0) (us_agent y4) = Inr t"
    using agent_run [OF s(1), of "AServerRecv ?pkt 0"] en p4(3) by auto
  define z where "z = y4\<lparr>us_agent := t, us_taken := (us_taken y4)(1 := Suc (us_taken y4 1))\<rparr>"
  have run: "stream_run (\<lambda>_. 0) y [(1, (80, 1), [1, 2])] z"
    unfolding z_def by (rule us_deliver [OF run4 _ _ _ en t]) (simp_all add: p4 l' del: r2a_encode.simps)
  have d: "agent_on_data 0 (80, 1) [1, 2] s = Inr t" using t p4(3) by (simp only: recv_data_eq)
  have kn: "knows 0 (80, 1) 0 (us_agent z)" using relay_data_down(3) [OF d s(4)] s(4) by (simp add: z_def knows_def)
  have w: "under_way z c = []" "under_way y c = []" "us_dropped z c = us_dropped y c" for c
    by (simp_all add: z_def y_def p4 under_way_def l' link_init_def del: r2a_encode.simps)
  have n: "(1 :: nat) \<noteq> 0" "0 < aa_next_remote (us_agent y)" "knows 0 (80, 1) 0 (us_agent y)" "agent_reach demo_agent_cfg 1 (us_agent y)"
    using s by (simp_all add: y_def knows_def)
  have links: "(\<exists>d. link_reach d 0 (us_link y c)) \<and> us_taken y c \<le> length (got (us_link y c))" for c
    using lr_init by (auto simp: y_def)
  have fit: "list_all (fits 0) (sent (us_link z c))" for c
    using len by (simp add: z_def p4 l' link_init_def fits_def del: r2a_encode.simps)
  from user_stream_delivered [OF run n(4,1,2,3) links fit] obtain log :: "(u32 \<times> bytes) list" where
    L: "handed 0 (us_agent z) = handed 0 (us_agent y) @ map snd log"
    "\<forall>a'. (\<forall>b. b \<noteq> a' \<longrightarrow> payloads (80, 1) (under_way y b) @ sent_to b (80, 1) [(1, (80, 1), [1, 2])] = []) \<longrightarrow>
       us_dropped z a' = us_dropped y a' \<longrightarrow>
       (\<exists>rest. payloads (80, 1) (under_way y a') @ sent_to a' (80, 1) [(1, (80, 1), [1, 2])] = map snd log @ rest
          \<and> (knows 0 (80, 1) 0 (us_agent z) \<and> 0 = (0 :: nat) \<and> payloads (80, 1) (under_way z a') = [] \<longrightarrow> rest = []))"
    by (elim exE conjE) (rule that)
  have "map snd log = [[1, 2]]" using L(2) [rule_format, of 1] kn by (simp add: w sent_to_def)
  then show ?thesis using L(1) run s(1) rs(1) by (intro exI [of _ y] exI [of _ z]) (auto simp: y_def)
qed

end
