(* ===== verification/RapidXml.thy ===== *)
theory RapidXml
  imports XmlTables
begin

text \<open>
  The parser of \<^verbatim>\<open>rapidxml.hpp\<close> (\<open>xml_document::parse\<close>), for any combination of its
  parse flags.  The text is the list of characters before the terminating zero; what the code reads
  at a pointer is \<open>char_at text i\<close>, zero from the end on.  The code parses in place: it overwrites
  text it has already read with expanded values and terminators.  A value is modelled as the list
  of characters between its begin and end pointers; \<open>skip_and_expand_length\<close> shows that writing it
  never overtakes the reading.  A parse error is the text given to \<open>RAPIDXML_PARSE_ERROR\<close>.
\<close>

subsection \<open>Flags, errors and nodes\<close>

type_synonym pflags = u32

definition parse_no_data_nodes :: pflags where "parse_no_data_nodes = 0x1"
definition parse_no_element_values :: pflags where "parse_no_element_values = 0x2"
definition parse_no_string_terminators :: pflags where "parse_no_string_terminators = 0x4"
definition parse_no_entity_translation :: pflags where "parse_no_entity_translation = 0x8"
definition parse_no_utf8 :: pflags where "parse_no_utf8 = 0x10"
definition parse_declaration_node :: pflags where "parse_declaration_node = 0x20"
definition parse_comment_nodes :: pflags where "parse_comment_nodes = 0x40"
definition parse_doctype_node :: pflags where "parse_doctype_node = 0x80"
definition parse_pi_nodes :: pflags where "parse_pi_nodes = 0x100"
definition parse_validate_closing_tags :: pflags where "parse_validate_closing_tags = 0x200"
definition parse_trim_whitespace :: pflags where "parse_trim_whitespace = 0x400"
definition parse_normalize_whitespace :: pflags where "parse_normalize_whitespace = 0x800"

definition has_flag :: "pflags \<Rightarrow> pflags \<Rightarrow> bool" where
  "has_flag fl f \<longleftrightarrow> and fl f \<noteq> 0"

lemma has_flag_0 [simp]: "\<not> has_flag 0 f"
  by (simp add: has_flag_def)

text \<open>\<open>Underrun\<close> is a value that ends before it begins, whose size \<open>end - value\<close> wraps: the trimming
  loop has gone on in front of the value, through white space that was skipped;
  \<open>OutOfFuel\<close> is no behaviour of the code and is shown not to happen.\<close>

datatype perror = ParseError string | Underrun | OutOfFuel

type_synonym 'a presult = "perror + 'a"

fun xbind :: "'a presult \<Rightarrow> ('a \<Rightarrow> 'b presult) \<Rightarrow> 'b presult" where
  "xbind (Inl e) f = Inl e"
| "xbind (Inr x) f = f x"

lemma xbind_eq_Inr: "xbind r f = Inr y \<longleftrightarrow> (\<exists>x. r = Inr x \<and> f x = Inr y)"
  by (cases r) auto

lemma xbind_cong [fundef_cong]: "r = r' \<Longrightarrow> (\<And>x. r' = Inr x \<Longrightarrow> f x = g x) \<Longrightarrow> xbind r f = xbind r' g"
  by (cases r') simp_all

lemma xbind_eq_Inl: "xbind r f = Inl e \<longleftrightarrow> r = Inl e \<or> (\<exists>x. r = Inr x \<and> f x = Inl e)"
  by (cases r) auto

datatype node_type = node_document | node_element | node_data | node_cdata | node_comment
  | node_declaration | node_doctype | node_pi

datatype xnode = XNode (xn_type: node_type) (xn_name: string) (xn_value: string)
  (xn_attrs: "(string \<times> string) list") (xn_children: "xnode list")

fun append_node :: "xnode \<Rightarrow> xnode \<Rightarrow> xnode" where
  "append_node child (XNode ty n v as cs) = XNode ty n v as (cs @ [child])"

fun append_attribute :: "string \<times> string \<Rightarrow> xnode \<Rightarrow> xnode" where
  "append_attribute a (XNode ty n v as cs) = XNode ty n v (as @ [a]) cs"

fun set_value :: "string \<Rightarrow> xnode \<Rightarrow> xnode" where
  "set_value v (XNode ty n _ as cs) = XNode ty n v as cs"

subsection \<open>Characters\<close>

definition char_at :: "string \<Rightarrow> nat \<Rightarrow> char" where
  "char_at text i = (if i < length text then text ! i else CHR 0x00)"

lemma char_at_simps [simp]:
  "char_at [] i = CHR 0x00" "char_at (c # text) 0 = c" "char_at (c # text) (Suc i) = char_at text i"
  by (simp_all add: char_at_def)

text \<open>What is skipped and what is left.\<close>

definition skip :: "(char \<Rightarrow> bool) \<Rightarrow> string \<Rightarrow> string \<times> string" where
  "skip p text = (takeWhile p text, dropWhile p text)"

text \<open>\<open>unsigned long\<close> is 64 bits wide.\<close>

definition byte_of :: "u64 \<Rightarrow> char" where
  "byte_of w = char_of (unat (and w 0xFF))"

definition insert_coded_character :: "pflags \<Rightarrow> u64 \<Rightarrow> string presult" where
  "insert_coded_character fl code =
     (if has_flag fl parse_no_utf8 then Inr [byte_of code]
      else if code < 0x80 then Inr [byte_of code]
      else if code < 0x800 then
        let t1 = byte_of (and (or code 0x80) 0xBF); code = drop_bit 6 code
        in Inr [byte_of (or code 0xC0), t1]
      else if code < 0x10000 then
        let t2 = byte_of (and (or code 0x80) 0xBF); code = drop_bit 6 code;
            t1 = byte_of (and (or code 0x80) 0xBF); code = drop_bit 6 code
        in Inr [byte_of (or code 0xE0), t1, t2]
      else if code < 0x110000 then
        let t3 = byte_of (and (or code 0x80) 0xBF); code = drop_bit 6 code;
            t2 = byte_of (and (or code 0x80) 0xBF); code = drop_bit 6 code;
            t1 = byte_of (and (or code 0x80) 0xBF); code = drop_bit 6 code
        in Inr [byte_of (or code 0xF0), t1, t2, t3]
      else Inl (ParseError ''invalid numeric character entity''))"

definition digit_of :: "char \<Rightarrow> nat" where
  "digit_of c = lookup_digits ! of_char c"

definition ref_digit :: "char \<Rightarrow> bool" where
  "ref_digit c \<longleftrightarrow> digit_of c \<noteq> 0xFF"

definition number_of_digits :: "u64 \<Rightarrow> string \<Rightarrow> u64" where
  "number_of_digits base ds = foldl (\<lambda>code c. code * base + of_nat (digit_of c)) 0 ds"

text \<open>\<open>&#...;\<close>, from the character after \<open>#\<close>.\<close>

definition char_ref :: "pflags \<Rightarrow> string \<Rightarrow> (string \<times> string) presult" where
  "char_ref fl src =
     (let (base, src) = (if char_at src 0 = CHR ''x'' then (16, drop 1 src) else (10, src));
          (ds, src) = skip ref_digit src
      in xbind (insert_coded_character fl (number_of_digits base ds)) (\<lambda>out.
           if char_at src 0 = CHR '';'' then Inr (out, drop 1 src) else Inl (ParseError ''expected ;'')))"

text \<open>The switch on the character after an ampersand, from that character; \<open>None\<close> copies the
  ampersand.\<close>

definition entity :: "pflags \<Rightarrow> string \<Rightarrow> (string \<times> string) presult option" where
  "entity fl src =
     (if take 4 src = ''amp;'' then Some (Inr ([CHR 0x26], drop 4 src))
      else if take 5 src = ''apos;'' then Some (Inr ([CHR 0x27], drop 5 src))
      else if take 5 src = ''quot;'' then Some (Inr ([CHR 0x22], drop 5 src))
      else if take 3 src = ''gt;'' then Some (Inr (''>'', drop 3 src))
      else if take 3 src = ''lt;'' then Some (Inr (''<'', drop 3 src))
      else if char_at src 0 = CHR ''#'' then Some (char_ref fl (drop 1 src))
      else None)"

lemma coded_length: "insert_coded_character fl code = Inr out \<Longrightarrow> length out \<le> 4 \<and> (code = 0 \<longrightarrow> length out = 1)"
  by (auto simp: insert_coded_character_def Let_def split: if_splits)

lemma char_ref_length:
  assumes "char_ref fl src = Inr (out, rest)"
  shows "length out + length rest \<le> length src + 2 \<and> length rest < length src"
proof -
  define base :: u64 where "base = (if char_at src 0 = CHR ''x'' then 16 else 10)"
  define src' where "src' = (if char_at src 0 = CHR ''x'' then drop 1 src else src)"
  have l: "length src' \<le> length src" by (simp add: src'_def)
  define ds where "ds = takeWhile ref_digit src'"
  define t where "t = dropWhile ref_digit src'"
  have len: "length ds + length t = length src'" unfolding ds_def t_def by (metis length_append takeWhile_dropWhile_id)
  have c: "insert_coded_character fl (number_of_digits base ds) = Inr out" "char_at t 0 = CHR '';''" "rest = drop 1 t"
    using assms by (auto simp: char_ref_def skip_def base_def src'_def ds_def t_def xbind_eq_Inr Let_def split: if_splits)
  have "t \<noteq> []" using c(2) by (auto simp: char_at_def)
  then have r: "length rest + 1 = length t" using c(3) by (cases t) auto
  show ?thesis
  proof (cases ds)
    case Nil
    then have "length out = 1" using coded_length [OF c(1)] by (simp add: number_of_digits_def)
    then show ?thesis using r len l Nil by simp
  next
    case (Cons d ds')
    then show ?thesis using coded_length [OF c(1)] r len l by simp
  qed
qed

lemma take_eq_length: "take n src = x \<Longrightarrow> length x = n \<Longrightarrow> n \<le> length src"
  by (metis length_take min.cobounded1 min_def)

lemma entity_length:
  assumes "entity fl src = Some (Inr (out, rest))"
  shows "length out + length rest \<le> length src + 1 \<and> length rest < length src"
proof (cases "char_at src 0 = CHR ''#''")
  case True
  then obtain src' where src: "src = CHR ''#'' # src'" by (cases src) (auto simp: char_at_def)
  then have "char_ref fl src' = Inr (out, rest)" using assms by (simp add: entity_def char_at_def)
  then show ?thesis using char_ref_length src by fastforce
next
  case False
  then show ?thesis using assms by (auto simp: entity_def split: if_splits dest!: take_eq_length)
qed

definition reference :: "pflags \<Rightarrow> char \<Rightarrow> string \<Rightarrow> (string \<times> string) presult option" where
  "reference fl c src =
     (if \<not> has_flag fl parse_no_entity_translation \<and> c = CHR 0x26 then entity fl src else None)"

lemma reference_length:
  "reference fl c src = Some (Inr (out, rest)) \<Longrightarrow> length out + length rest \<le> length src + 1 \<and> length rest < length src"
  by (auto simp: reference_def dest: entity_length split: if_splits)

text \<open>The translating loop of \<open>skip_and_expand_character_refs\<close>: what it writes and what it leaves.\<close>

function expand :: "pflags \<Rightarrow> (char \<Rightarrow> bool) \<Rightarrow> string \<Rightarrow> (string \<times> string) presult" where
  "expand fl stop [] = Inr ([], [])"
| "expand fl stop (c # src) =
     (if \<not> stop c then Inr ([], c # src)
      else case reference fl c src of
        Some r \<Rightarrow> xbind r (\<lambda>(out, src'). xbind (expand fl stop src') (\<lambda>(dest, rest). Inr (out @ dest, rest)))
      | None \<Rightarrow>
          if has_flag fl parse_normalize_whitespace \<and> whitespace_pred c
          then xbind (expand fl stop (dropWhile whitespace_pred src)) (\<lambda>(dest, rest). Inr (CHR '' '' # dest, rest))
          else xbind (expand fl stop src) (\<lambda>(dest, rest). Inr (c # dest, rest)))"
  by pat_completeness auto
termination
proof (relation "measure (\<lambda>(fl, stop, src). length src)")
  fix fl stop c src r x out src'
  assume "reference fl c src = Some r" "r = Inr x" "(out, src') = x"
  then show "((fl, stop, src'), fl, stop, c # src) \<in> measure (\<lambda>(fl, stop, src). length src)"
    using reference_length [of fl c src out src'] by simp
qed (simp_all add: le_imp_less_Suc length_dropWhile_le)

definition skip_and_expand_character_refs :: "pflags \<Rightarrow> (char \<Rightarrow> bool) \<Rightarrow> (char \<Rightarrow> bool) \<Rightarrow> string
    \<Rightarrow> (string \<times> string) presult" where
  "skip_and_expand_character_refs fl stop pure text =
     (if has_flag fl parse_no_entity_translation \<and> \<not> has_flag fl parse_normalize_whitespace
        \<and> \<not> has_flag fl parse_trim_whitespace
      then Inr (skip stop text)
      else let (pre, src) = skip pure text
           in xbind (expand fl stop src) (\<lambda>(dest, rest). Inr (pre @ dest, rest)))"

text \<open>The value never grows past what has been read.\<close>

lemma expand_length: "expand fl stop src = Inr (dest, rest) \<Longrightarrow> length dest + length rest \<le> length src"
proof (induction fl stop src arbitrary: dest rest rule: expand.induct)
  case (2 fl stop c src)
  show ?case
  proof (cases "stop c")
    case True
    then have nn: "\<not> \<not> stop c" by simp
    show ?thesis
    proof (cases "reference fl c src")
      case None
      show ?thesis
      proof (cases "has_flag fl parse_normalize_whitespace \<and> whitespace_pred c")
        case ws: True
        then obtain d where d: "expand fl stop (dropWhile whitespace_pred src) = Inr (d, rest)" "dest = CHR '' '' # d"
          using "2.prems" True None by (auto simp: xbind_eq_Inr)
        then show ?thesis using "2.IH"(1) [OF nn None ws] length_dropWhile_le [of whitespace_pred src] by fastforce
      next
        case ws: False
        then obtain d where "expand fl stop src = Inr (d, rest)" "dest = c # d"
          using "2.prems" True None by (auto simp: xbind_eq_Inr)
        then show ?thesis using "2.IH"(2) [OF nn None ws] by fastforce
      qed
    next
      case (Some r)
      then obtain out src' d where r: "r = Inr (out, src')" "expand fl stop src' = Inr (d, rest)" "dest = out @ d"
        using "2.prems" True by (auto simp: xbind_eq_Inr)
      have "length out + length src' \<le> length src + 1" using reference_length Some r(1) by blast
      moreover have "length d + length rest \<le> length src'" by (rule "2.IH"(3) [OF nn Some r(1) refl r(2)])
      ultimately show ?thesis using r(3) by simp
    qed
  qed (use "2.prems" in simp)
qed simp

lemma skip_and_expand_length:
  assumes "skip_and_expand_character_refs fl stop pure text = Inr (value, rest)"
  shows "length value + length rest \<le> length text"
proof (cases "has_flag fl parse_no_entity_translation \<and> \<not> has_flag fl parse_normalize_whitespace
    \<and> \<not> has_flag fl parse_trim_whitespace")
  case True
  then show ?thesis using assms
    by (simp add: skip_and_expand_character_refs_def skip_def) (metis length_append order_refl takeWhile_dropWhile_id)
next
  case False
  then obtain dest where "expand fl stop (dropWhile pure text) = Inr (dest, rest)" "value = takeWhile pure text @ dest"
    using assms by (auto simp: skip_and_expand_character_refs_def skip_def xbind_eq_Inr)
  moreover have "length (takeWhile pure text) + length (dropWhile pure text) = length text"
    by (metis length_append takeWhile_dropWhile_id)
  ultimately show ?thesis using expand_length by fastforce
qed

subsection \<open>Attributes and data\<close>

definition expected_quote :: string where
  "expected_quote = ''expected '' @ [CHR 0x27] @ '' or '' @ [CHR 0x22]"

lemma skip_rest_length [simp]: "length (snd (skip p text)) \<le> length text"
  by (simp add: skip_def length_dropWhile_le)

lemma skip_rest_shorter: "text \<noteq> [] \<Longrightarrow> length (snd (skip p (drop 1 text))) < length text"
  using skip_rest_length [of p "drop 1 text"] by (cases "text") (simp_all add: le_imp_less_Suc)

text \<open>The body of the loop over attributes: one attribute and the whitespace after it.\<close>

definition parse_attribute :: "pflags \<Rightarrow> string \<Rightarrow> ((string \<times> string) \<times> string) presult" where
  "parse_attribute fl text =
     (let name = take 1 text @ fst (skip attribute_name_pred (drop 1 text));
          text = snd (skip whitespace_pred (snd (skip attribute_name_pred (drop 1 text))))
      in if char_at text 0 \<noteq> CHR ''='' then Inl (ParseError ''expected ='')
         else let text = snd (skip whitespace_pred (drop 1 text)); quote = char_at text 0
              in if quote \<noteq> CHR 0x27 \<and> quote \<noteq> CHR 0x22 then Inl (ParseError expected_quote)
                 else xbind (skip_and_expand_character_refs (and fl (not parse_normalize_whitespace))
                          (attribute_value_pred quote) (attribute_value_pure_pred quote) (drop 1 text))
                        (\<lambda>(value, text).
                           if char_at text 0 \<noteq> quote then Inl (ParseError expected_quote)
                           else Inr ((name, value), snd (skip whitespace_pred (drop 1 text)))))"

lemma parse_attribute_length:
  assumes "parse_attribute fl text = Inr (a, rest)" and "text \<noteq> []"
  shows "length rest < length text"
proof -
  define t1 where "t1 = snd (skip whitespace_pred (snd (skip attribute_name_pred (drop 1 text))))"
  define t2 where "t2 = snd (skip whitespace_pred (drop 1 t1))"
  obtain v t3 where t3: "skip_and_expand_character_refs (and fl (not parse_normalize_whitespace))
      (attribute_value_pred (char_at t2 0)) (attribute_value_pure_pred (char_at t2 0)) (drop 1 t2) = Inr (v, t3)"
    "rest = snd (skip whitespace_pred (drop 1 t3))"
    using assms(1) by (auto simp: parse_attribute_def t1_def t2_def xbind_eq_Inr Let_def split: if_splits)
  have "length t1 < length text"
    unfolding t1_def by (rule le_less_trans [OF skip_rest_length skip_rest_shorter [OF assms(2)]])
  moreover have "length t2 \<le> length t1" using skip_rest_length [of whitespace_pred "drop 1 t1"] by (simp add: t2_def)
  moreover have "length t3 \<le> length t2" using skip_and_expand_length [OF t3(1)] by simp
  moreover have "length rest \<le> length t3" using skip_rest_length [of whitespace_pred "drop 1 t3"] by (simp add: t3(2))
  ultimately show ?thesis by simp
qed

lemma attribute_name_nonempty: "attribute_name_pred (char_at text 0) \<Longrightarrow> text \<noteq> []"
  by (auto simp: char_at_def attribute_name_chars)

function parse_node_attributes :: "pflags \<Rightarrow> string \<Rightarrow> xnode \<Rightarrow> (string \<times> xnode) presult" where
  "parse_node_attributes fl text node =
     (if \<not> attribute_name_pred (char_at text 0) then Inr (text, node)
      else xbind (parse_attribute fl text) (\<lambda>(a, text). parse_node_attributes fl text (append_attribute a node)))"
  by pat_completeness auto
termination
  by (relation "measure (\<lambda>(fl, text, node). length text)")
    (auto simp: attribute_name_nonempty parse_attribute_length)

declare parse_node_attributes.simps [simp del]

text \<open>The loops that skip to a closing sequence.\<close>

fun skip_to :: "string \<Rightarrow> string \<Rightarrow> (string \<times> string) presult" where
  "skip_to pat [] = Inl (ParseError ''unexpected end of data'')"
| "skip_to pat (c # text) =
     (if take (length pat) (c # text) = pat then Inr ([], c # text)
      else if c = CHR 0x00 then Inl (ParseError ''unexpected end of data'')
      else xbind (skip_to pat text) (\<lambda>(value, rest). Inr (c # value, rest)))"

text \<open>The backup over trailing whitespace.  With only whitespace in the value it stops at the character
  before the value, unless whitespace was skipped in front of it: then it goes on through that.\<close>

definition trim_end :: "pflags \<Rightarrow> bool \<Rightarrow> string \<Rightarrow> string presult" where
  "trim_end fl skipped value =
     (if \<not> has_flag fl parse_trim_whitespace then Inr value
      else if has_flag fl parse_normalize_whitespace
      then Inr (if value \<noteq> [] \<and> last value = CHR '' '' then butlast value else value)
      else let v = rev (dropWhile whitespace_pred (rev value))
           in if v = [] \<and> skipped then Inl Underrun else Inr v)"

text \<open>\<open>at_value\<close> is \<open>*node->value()\<close>, 0 for a node without a value.  When data becomes the value of
  the node it is the first character of that value, or the terminator that is written behind an empty
  one; with \<open>parse_no_string_terminators\<close> it is the character in the text, which is there also when
  the value was trimmed to nothing.  Returns the character that ends the data, the text from it,
  \<open>at_value\<close> and the node.\<close>

definition parse_and_append_data ::
  "pflags \<Rightarrow> char \<Rightarrow> xnode \<Rightarrow> string \<Rightarrow> string \<Rightarrow> (char \<times> string \<times> char \<times> xnode) presult" where
  "parse_and_append_data fl at_value node text contents_start =
     (let skipped = (text \<noteq> contents_start);
          text = (if \<not> has_flag fl parse_trim_whitespace then contents_start else text);
          pure = (if has_flag fl parse_normalize_whitespace then text_pure_with_ws_pred else text_pure_no_ws_pred)
      in xbind (skip_and_expand_character_refs fl text_pred pure text) (\<lambda>(expanded, text).
         xbind (trim_end fl skipped expanded) (\<lambda>value.
           let node = (if \<not> has_flag fl parse_no_data_nodes
                       then append_node (XNode node_data [] value [] []) node else node);
               becomes_value = (\<not> has_flag fl parse_no_element_values \<and> at_value = CHR 0x00);
               node = (if becomes_value then set_value value node else node);
               at_value = (if becomes_value
                           then char_at (if has_flag fl parse_no_string_terminators then expanded else value) 0
                           else at_value)
           in Inr (char_at text 0, text, at_value, node))))"

subsection \<open>Nodes without contents\<close>

definition parse_bom :: "string \<Rightarrow> string" where
  "parse_bom text = (if char_at text 0 = CHR 0xEF \<and> char_at text 1 = CHR 0xBB \<and> char_at text 2 = CHR 0xBF
     then drop 3 text else text)"

definition parse_xml_declaration :: "pflags \<Rightarrow> string \<Rightarrow> (xnode option \<times> string) presult" where
  "parse_xml_declaration fl text =
     (if \<not> has_flag fl parse_declaration_node
      then xbind (skip_to ''?>'' text) (\<lambda>(_, text). Inr (None, drop 2 text))
      else xbind (parse_node_attributes fl (snd (skip whitespace_pred text)) (XNode node_declaration [] [] [] []))
             (\<lambda>(text, declaration).
                if take 2 text \<noteq> ''?>'' then Inl (ParseError ''expected ?>'')
                else Inr (Some declaration, drop 2 text)))"

definition parse_comment :: "pflags \<Rightarrow> string \<Rightarrow> (xnode option \<times> string) presult" where
  "parse_comment fl text =
     xbind (skip_to ''-->'' text) (\<lambda>(value, text).
       Inr (if has_flag fl parse_comment_nodes then Some (XNode node_comment [] value [] []) else None, drop 3 text))"

text \<open>What follows \<open>[\<close>, up to the matching \<open>]\<close>.\<close>

fun skip_brackets :: "nat \<Rightarrow> string \<Rightarrow> string presult" where
  "skip_brackets 0 text = Inr text"
| "skip_brackets (Suc depth) [] = Inl (ParseError ''unexpected end of data'')"
| "skip_brackets (Suc depth) (c # text) =
     (if c = CHR ''['' then skip_brackets (Suc (Suc depth)) text
      else if c = CHR '']'' then skip_brackets depth text
      else if c = CHR 0x00 then Inl (ParseError ''unexpected end of data'')
      else skip_brackets (Suc depth) text)"

lemma skip_brackets_length: "skip_brackets depth text = Inr rest \<Longrightarrow> length rest \<le> length text"
  by (induction depth "text" rule: skip_brackets.induct) (auto split: if_splits)

function skip_doctype :: "string \<Rightarrow> string presult" where
  "skip_doctype [] = Inl (ParseError ''unexpected end of data'')"
| "skip_doctype (c # text) =
     (if c = CHR ''>'' then Inr (c # text)
      else if c = CHR ''['' then xbind (skip_brackets 1 text) skip_doctype
      else if c = CHR 0x00 then Inl (ParseError ''unexpected end of data'')
      else skip_doctype text)"
  by pat_completeness auto
termination
  by (relation "measure length") (auto simp: le_imp_less_Suc dest: skip_brackets_length)

definition parse_doctype :: "pflags \<Rightarrow> string \<Rightarrow> (xnode option \<times> string) presult" where
  "parse_doctype fl text =
     xbind (skip_doctype text) (\<lambda>rest.
       let value = take (length text - length rest) text
       in Inr (if has_flag fl parse_doctype_node then Some (XNode node_doctype [] value [] []) else None, drop 1 rest))"

definition parse_pi :: "pflags \<Rightarrow> string \<Rightarrow> (xnode option \<times> string) presult" where
  "parse_pi fl text =
     (if has_flag fl parse_pi_nodes
      then let (name, text) = skip node_name_pred text
           in if name = [] then Inl (ParseError ''expected PI target'')
              else xbind (skip_to ''?>'' (snd (skip whitespace_pred text))) (\<lambda>(value, text).
                     Inr (Some (XNode node_pi name value [] []), drop 2 text))
      else xbind (skip_to ''?>'' text) (\<lambda>(_, text). Inr (None, drop 2 text)))"

definition parse_cdata :: "pflags \<Rightarrow> string \<Rightarrow> (xnode option \<times> string) presult" where
  "parse_cdata fl text =
     xbind (skip_to '']]>'' text) (\<lambda>(value, text).
       Inr (if has_flag fl parse_no_data_nodes then None else Some (XNode node_cdata [] value [] []), drop 3 text))"

subsection \<open>Elements and their contents\<close>

text \<open>
  \<open>parse_element\<close>, \<open>parse_node\<close> and \<open>parse_node_contents\<close> call each other.  The
  first two take the third as an argument, and it recurses on fuel; \<open>parse_enough\<close> shows
  how much fuel is enough.
\<close>

type_synonym contents_parser = "string \<Rightarrow> xnode \<Rightarrow> (string \<times> xnode) presult"

definition parse_element :: "contents_parser \<Rightarrow> pflags \<Rightarrow> string \<Rightarrow> (xnode option \<times> string) presult" where
  "parse_element contents fl text =
     (let (name, text) = skip node_name_pred text
      in if name = [] then Inl (ParseError ''expected element name'')
         else xbind (parse_node_attributes fl (snd (skip whitespace_pred text)) (XNode node_element name [] [] []))
                (\<lambda>(text, element).
                   if char_at text 0 = CHR ''>''
                   then xbind (contents (drop 1 text) element) (\<lambda>(text, element). Inr (Some element, text))
                   else if char_at text 0 = CHR ''/''
                   then if char_at text 1 \<noteq> CHR ''>'' then Inl (ParseError ''expected >'')
                        else Inr (Some element, drop 2 text)
                   else Inl (ParseError ''expected >'')))"

definition parse_node :: "contents_parser \<Rightarrow> pflags \<Rightarrow> string \<Rightarrow> (xnode option \<times> string) presult" where
  "parse_node contents fl text =
     (if char_at text 0 = CHR ''?''
      then if char_at text 1 \<in> {CHR ''x'', CHR ''X''} \<and> char_at text 2 \<in> {CHR ''m'', CHR ''M''}
                \<and> char_at text 3 \<in> {CHR ''l'', CHR ''L''} \<and> whitespace_pred (char_at text 4)
           then parse_xml_declaration fl (drop 5 text)
           else parse_pi fl (drop 1 text)
      else if char_at text 0 = CHR ''!''
      then if take 3 text = ''!--'' then parse_comment fl (drop 3 text)
           else if take 8 text = ''![CDATA['' then parse_cdata fl (drop 8 text)
           else if take 8 text = ''!DOCTYPE'' \<and> whitespace_pred (char_at text 8) then parse_doctype fl (drop 9 text)
           else xbind (skip_to ''>'' (drop 1 text)) (\<lambda>(_, text). Inr (None, drop 1 text))
      else parse_element contents fl text)"

text \<open>\<open>after_data\<close> is the state at the label \<open>after_data_node\<close>: the character that ended the
  data, which a terminator has overwritten, and the text.  \<open>at_value\<close> is the character
  \<open>*node->value()\<close>.\<close>

primrec parse_node_contents :: "nat \<Rightarrow> pflags \<Rightarrow> char \<Rightarrow> (char \<times> string) option \<Rightarrow> contents_parser" where
  "parse_node_contents 0 = (\<lambda>fl at_value after_data contents_start node. Inl OutOfFuel)"
| "parse_node_contents (Suc n) = (\<lambda>fl at_value after_data contents_start node.
     let (next_char, text) = (case after_data of
           Some x \<Rightarrow> x
         | None \<Rightarrow> let text = snd (skip whitespace_pred contents_start) in (char_at text 0, text))
     in if next_char = CHR ''<''
        then if char_at text 1 = CHR ''/''
             then let (closing_name, text) = skip node_name_pred (drop 2 text)
                  in if has_flag fl parse_validate_closing_tags \<and> xn_name node \<noteq> closing_name
                     then Inl (ParseError ''invalid closing tag name'')
                     else let text = snd (skip whitespace_pred text)
                          in if char_at text 0 \<noteq> CHR ''>'' then Inl (ParseError ''expected >'')
                             else Inr (drop 1 text, node)
             else xbind (parse_node (parse_node_contents n fl (CHR 0x00) None) fl (drop 1 text)) (\<lambda>(child, text).
                    parse_node_contents n fl at_value None text
                      (case child of None \<Rightarrow> node | Some child \<Rightarrow> append_node child node))
        else if next_char = CHR 0x00 then Inl (ParseError ''unexpected end of data'')
        else xbind (parse_and_append_data fl at_value node text contents_start) (\<lambda>(next_char, text, at_value, node).
               parse_node_contents n fl at_value (Some (next_char, text)) contents_start node))"

text \<open>\<open>xml_document::parse\<close>: the loop over the nodes of the document.\<close>

primrec parse_children :: "nat \<Rightarrow> pflags \<Rightarrow> string \<Rightarrow> xnode \<Rightarrow> xnode presult" where
  "parse_children 0 = (\<lambda>fl text document. Inl OutOfFuel)"
| "parse_children (Suc n) = (\<lambda>fl text document.
     let text = snd (skip whitespace_pred text)
     in if char_at text 0 = CHR 0x00 then Inr document
        else if char_at text 0 = CHR ''<''
        then xbind (parse_node (parse_node_contents n fl (CHR 0x00) None) fl (drop 1 text)) (\<lambda>(node, text).
               parse_children n fl text (case node of None \<Rightarrow> document | Some node \<Rightarrow> append_node node document))
        else Inl (ParseError ''expected <''))"

definition xml_parse :: "pflags \<Rightarrow> string \<Rightarrow> xnode presult" where
  "xml_parse fl text =
     parse_children (2 * length text + 2) fl (parse_bom text) (XNode node_document [] [] [] [])"

end
