(* ===== verification/RapidXml_Props.thy ===== *)
theory RapidXml_Props
  imports RapidXml
begin

text \<open>
  What the parser guarantees: the tables are the character classes they are said to be, every scan
  ends inside the text, in-place expansion never overtakes the reading, and the parse always ends, with a
  document, a parse error or, under trimming, the broken value that \<open>trim_end\<close> can make.
\<close>

subsection \<open>Errors and lengths\<close>

text \<open>The errors a parse with the flags \<open>fl\<close> may end in: those of the code, and the broken value of
  \<open>trim_end\<close>, which takes the trimming.\<close>

definition fine :: "pflags \<Rightarrow> perror \<Rightarrow> bool" where
  "fine fl e \<longleftrightarrow> e \<noteq> OutOfFuel \<and> (e = Underrun \<longrightarrow> has_flag fl parse_trim_whitespace \<and> \<not> has_flag fl parse_normalize_whitespace)"

lemma fine_ParseError [simp]: "fine fl (ParseError m)"
  by (simp add: fine_def)

text \<open>A parse step ends in no other error and leaves at most \<open>m\<close> characters.\<close>

definition within :: "pflags \<Rightarrow> ('a \<Rightarrow> string) \<Rightarrow> nat \<Rightarrow> 'a presult \<Rightarrow> bool" where
  "within fl f m r \<longleftrightarrow> (case r of Inl e \<Rightarrow> fine fl e | Inr x \<Rightarrow> length (f x) \<le> m)"

lemma within_simps [simp]:
  "within fl f m (Inl e) \<longleftrightarrow> fine fl e" "within fl f m (Inr x) \<longleftrightarrow> length (f x) \<le> m"
  by (simp_all add: within_def)

lemma within_bind:
  "within fl f m r \<Longrightarrow> (\<And>x. r = Inr x \<Longrightarrow> length (f x) \<le> m \<Longrightarrow> within fl g k (h x)) \<Longrightarrow> within fl g k (xbind r h)"
  by (cases r) auto

lemma within_mono: "within fl f m r \<Longrightarrow> m \<le> k \<Longrightarrow> within fl f k r"
  by (cases r) auto

lemma char_ref_error: "char_ref fl src = Inl e \<Longrightarrow> fine gl e"
  by (auto simp: char_ref_def insert_coded_character_def Let_def xbind_eq_Inl split: if_splits prod.splits)

lemma reference_error: "reference fl c src = Some (Inl e) \<Longrightarrow> fine gl e"
  by (auto simp: reference_def entity_def dest: char_ref_error split: if_splits)

lemma expand_error: "expand fl stop src = Inl e \<Longrightarrow> fine gl e"
proof (induction fl stop src arbitrary: e rule: expand.induct)
  case (2 fl stop c src)
  then show ?case
    by (cases "stop c"; cases "reference fl c src") (auto simp: xbind_eq_Inl dest: reference_error split: if_splits)
qed simp

lemma skip_and_expand_within: "within gl snd (length text) (skip_and_expand_character_refs fl stop pure text)"
proof (cases "skip_and_expand_character_refs fl stop pure text")
  case (Inl e)
  then have "fine gl e"
    using expand_error by (auto simp: skip_and_expand_character_refs_def xbind_eq_Inl Let_def split: if_splits prod.splits)
  then show ?thesis using Inl by simp
next
  case (Inr x)
  then show ?thesis using skip_and_expand_length [of fl stop pure "text" "fst x" "snd x"] by simp
qed

lemma attribute_error: "parse_attribute fl text = Inl e \<Longrightarrow> fine gl e"
proof -
  assume "parse_attribute fl text = Inl e"
  then consider "fine gl e" | f p q t where "skip_and_expand_character_refs f p q t = Inl e"
    by (auto simp: parse_attribute_def xbind_eq_Inl Let_def split: if_splits prod.splits)
  then show ?thesis
  proof cases
    case (2 f p q t)
    then show ?thesis using skip_and_expand_within [of gl t f p q] by simp
  qed
qed

lemma attributes_within: "within fl fst (length text) (parse_node_attributes fl text node)"
proof (induction fl "text" node rule: parse_node_attributes.induct)
  case (1 fl src node)
  show ?case
  proof (cases "attribute_name_pred (char_at src 0)")
    case False
    then show ?thesis by (subst parse_node_attributes.simps) simp
  next
    case True
    show ?thesis
    proof (cases "parse_attribute fl src")
      case (Inl e)
      then have "fine fl e" by (rule attribute_error)
      then show ?thesis using True Inl by (subst parse_node_attributes.simps) simp
    next
      case (Inr x)
      obtain a rest where x: "x = (a, rest)" by (cases x)
      have "length rest < length src"
        using parse_attribute_length [of fl src a rest] attribute_name_nonempty [OF True] Inr x by simp
      moreover have "within fl fst (length rest) (parse_node_attributes fl rest (append_attribute a node))"
        using "1.IH" True Inr x by simp
      ultimately have "within fl fst (length src) (parse_node_attributes fl rest (append_attribute a node))"
        by (blast intro: within_mono less_imp_le)
      then show ?thesis using True Inr x by (subst parse_node_attributes.simps) simp
    qed
  qed
qed

lemma skip_to_within: "within fl snd (length text) (skip_to pat text)"
proof (induction pat "text" rule: skip_to.induct)
  case (2 pat c src)
  show ?case
  proof (cases "take (length pat) (c # src) = pat \<or> c = CHR 0x00")
    case False
    then have "within fl snd (length src) (skip_to pat src)" using "2.IH" by simp
    then show ?thesis using False by (auto intro!: within_bind)
  qed auto
qed simp

lemma skip_brackets_error: "skip_brackets depth text = Inl e \<Longrightarrow> fine fl e"
  by (induction depth "text" rule: skip_brackets.induct) (auto split: if_splits)

lemma skip_doctype_within: "within fl (\<lambda>x. x) (length text) (skip_doctype text)"
proof (induction "text" rule: skip_doctype.induct)
  case (2 c src)
  show ?case
  proof (cases "c = CHR ''[''")
    case True
    show ?thesis
    proof (cases "skip_brackets 1 src")
      case (Inl e)
      then show ?thesis using True skip_brackets_error [OF Inl] by auto
    next
      case (Inr rest)
      have "within fl (\<lambda>x. x) (length rest) (skip_doctype rest)" using "2.IH"(1) True Inr by simp
      moreover have "length rest \<le> length src" by (rule skip_brackets_length [OF Inr])
      ultimately show ?thesis using True Inr by (auto intro: within_mono)
    qed
  next
    case False
    then show ?thesis using "2.IH"(2) by (auto intro: within_mono)
  qed
qed simp

lemma leaf_within:
  "within fl snd (length text) (parse_xml_declaration fl text)" "within fl snd (length text) (parse_comment fl text)"
  "within fl snd (length text) (parse_doctype fl text)" "within fl snd (length text) (parse_pi fl text)"
  "within fl snd (length text) (parse_cdata fl text)"
proof -
  have ws: "length (snd (skip p text)) \<le> length text" for p by simp
  show "within fl snd (length text) (parse_xml_declaration fl text)"
    by (auto simp: parse_xml_declaration_def intro!: within_bind [OF skip_to_within]
        within_bind [OF within_mono [OF attributes_within ws]] split: prod.split)
  show "within fl snd (length text) (parse_comment fl text)" "within fl snd (length text) (parse_cdata fl text)"
    by (auto simp: parse_comment_def parse_cdata_def intro!: within_bind [OF skip_to_within])
  show "within fl snd (length text) (parse_doctype fl text)"
    by (auto simp: parse_doctype_def Let_def intro!: within_bind [OF skip_doctype_within])
  have ws2: "length (snd (skip whitespace_pred (dropWhile p text))) \<le> length text" for p
    using skip_rest_length [of whitespace_pred "dropWhile p text"] length_dropWhile_le [of p "text"] by linarith
  show "within fl snd (length text) (parse_pi fl text)"
    by (auto simp: parse_pi_def skip_def [of node_name_pred] intro!: within_bind [OF skip_to_within]
        within_bind [OF within_mono [OF skip_to_within ws2]])
qed

subsection \<open>The parse ends\<close>

lemma expand_rest:
  "\<not> stop (CHR 0x00) \<Longrightarrow> expand fl stop src = Inr (dest, rest) \<Longrightarrow>
    \<not> stop (char_at rest 0) \<and> (stop (char_at src 0) \<longrightarrow> length rest < length src)"
proof (induction fl stop src arbitrary: dest rest rule: expand.induct)
  case (1 fl stop)
  then show ?case by (simp add: char_at_def)
next
  case (2 fl stop c src)
  show ?case
  proof (cases "stop c")
    case False
    then show ?thesis using "2.prems" by auto
  next
    case True
    then have nn: "\<not> \<not> stop c" by simp
    have "\<exists>src' d. expand fl stop src' = Inr (d, rest) \<and> length src' \<le> length src \<and> \<not> stop (char_at rest 0)"
    proof (cases "reference fl c src")
      case None
      show ?thesis
      proof (cases "has_flag fl parse_normalize_whitespace \<and> whitespace_pred c")
        case ws: True
        then obtain d where d: "expand fl stop (dropWhile whitespace_pred src) = Inr (d, rest)"
          using "2.prems"(2) True None by (auto simp: xbind_eq_Inr)
        show ?thesis using d "2.IH"(1) [OF nn None ws "2.prems"(1) d] length_dropWhile_le [of whitespace_pred src] by blast
      next
        case ws: False
        then obtain d where d: "expand fl stop src = Inr (d, rest)"
          using "2.prems"(2) True None by (auto simp: xbind_eq_Inr)
        show ?thesis using d "2.IH"(2) [OF nn None ws "2.prems"(1) d] by blast
      qed
    next
      case (Some r)
      then obtain out src' d where r: "r = Inr (out, src')" "expand fl stop src' = Inr (d, rest)"
        using "2.prems"(2) True by (auto simp: xbind_eq_Inr)
      have "length src' < length src" using reference_length Some r(1) by blast
      then show ?thesis using r(2) "2.IH"(3) [OF nn Some r(1) refl "2.prems"(1) r(2)] by (blast intro: less_imp_le)
    qed
    then show ?thesis using expand_length by fastforce
  qed
qed

lemma dropWhile_stops: "\<not> p (CHR 0x00) \<Longrightarrow> \<not> p (char_at (dropWhile p text) 0)"
  by (induction "text") auto

lemma dropWhile_consumes: "p (char_at text 0) \<Longrightarrow> \<not> p (CHR 0x00) \<Longrightarrow> length (dropWhile p text) < length text"
  by (cases "text") (auto simp: le_imp_less_Suc length_dropWhile_le)

lemma skip_and_expand_rest:
  assumes "skip_and_expand_character_refs fl stop pure text = Inr (v, rest)"
    and "\<not> stop (CHR 0x00)" and "\<And>c. pure c \<Longrightarrow> stop c"
  shows "\<not> stop (char_at rest 0) \<and> (stop (char_at text 0) \<longrightarrow> length rest < length text)"
proof (cases "has_flag fl parse_no_entity_translation \<and> \<not> has_flag fl parse_normalize_whitespace
    \<and> \<not> has_flag fl parse_trim_whitespace")
  case True
  then show ?thesis using assms(1,2) dropWhile_stops dropWhile_consumes
    by (auto simp: skip_and_expand_character_refs_def skip_def)
next
  case False
  then obtain dest where d: "expand fl stop (dropWhile pure text) = Inr (dest, rest)"
    using assms(1) by (auto simp: skip_and_expand_character_refs_def skip_def xbind_eq_Inr)
  have pure0: "\<not> pure (CHR 0x00)" using assms(2,3) by blast
  show ?thesis
  proof (cases "pure (char_at text 0)")
    case True
    then have "length (dropWhile pure text) < length text" using pure0 by (rule dropWhile_consumes)
    then show ?thesis using expand_rest [OF assms(2) d] expand_length [OF d] by linarith
  next
    case False
    then have "dropWhile pure text = text" by (cases "text") (auto simp: char_at_def)
    then show ?thesis using expand_rest [OF assms(2) d] by simp
  qed
qed

lemma data_within:
  assumes "t = snd (skip whitespace_pred cs)" and "text_pred (char_at t 0)"
  shows "within fl (\<lambda>(c, t, a, nd). t) (length cs - 1) (parse_and_append_data fl at_value node t cs)
    \<and> (\<forall>c u a nd. parse_and_append_data fl at_value node t cs = Inr (c, u, a, nd) \<longrightarrow> c = char_at u 0 \<and> \<not> text_pred c)"
proof -
  define s where "s = (if \<not> has_flag fl parse_trim_whitespace then cs else t)"
  define pure where "pure = (if has_flag fl parse_normalize_whitespace then text_pure_with_ws_pred else text_pure_no_ws_pred)"
  have pure: "pure c \<Longrightarrow> text_pred c" for c by (auto simp: pure_def text_chars split: if_splits)
  have t: "length t \<le> length cs" "cs \<noteq> []"
    using assms by (auto simp: skip_def length_dropWhile_le char_at_def text_chars)
  have s0: "text_pred (char_at s 0)"
  proof (cases "whitespace_pred (char_at cs 0)")
    case True
    then have "text_pred (char_at cs 0)" by (auto simp: ws_chars text_chars)
    then show ?thesis using assms(2) by (simp add: s_def)
  next
    case False
    then have "t = cs" using assms(1) t(2) by (cases cs) (auto simp: skip_def char_at_def)
    then show ?thesis using assms(2) by (simp add: s_def)
  qed
  have n0: "\<not> text_pred (CHR 0x00)" by (simp add: text_chars)
  have len: "length s \<le> length cs" using t by (simp add: s_def)
  note rest = skip_and_expand_rest [of fl text_pred pure s, OF _ n0 pure]
  have tr: "within fl (\<lambda>_. []) 0 (trim_end fl b v)" for b v by (auto simp: trim_end_def fine_def Let_def)
  have eq: "parse_and_append_data fl at_value node t cs = xbind (skip_and_expand_character_refs fl text_pred pure s) (\<lambda>(v, u).
      xbind (trim_end fl (t \<noteq> cs) v) (\<lambda>w.
        let node = (if \<not> has_flag fl parse_no_data_nodes then append_node (XNode node_data [] w [] []) node else node);
            b = (\<not> has_flag fl parse_no_element_values \<and> at_value = CHR 0x00);
            node = (if b then set_value w node else node);
            at_value = (if b then char_at (if has_flag fl parse_no_string_terminators then v else w) 0 else at_value)
        in Inr (char_at u 0, u, at_value, node)))"
    by (simp add: parse_and_append_data_def s_def pure_def Let_def)
  show ?thesis
  proof (cases "skip_and_expand_character_refs fl text_pred pure s")
    case (Inl e)
    then show ?thesis using skip_and_expand_within [of fl s fl text_pred pure] by (simp add: eq)
  next
    case (Inr x)
    obtain v u where x: "x = (v, u)" by (cases x)
    have u: "\<not> text_pred (char_at u 0)" "length u < length s" using rest [OF Inr [unfolded x]] s0 by simp_all
    have "length u \<le> length cs - 1" using u(2) len by simp
    then show ?thesis using Inr x u(1) tr [of "t \<noteq> cs" v]
      by (cases "trim_end fl (t \<noteq> cs) v") (auto simp: eq Let_def)
  qed
qed

lemma element_within:
  assumes "\<And>cs node. 2 * length cs < n \<Longrightarrow> within fl fst (length cs) (contents cs node)"
    and "2 * length text < n + 4"
  shows "within fl snd (length text) (parse_element contents fl text)"
proof -
  define t where "t = dropWhile node_name_pred text"
  have t: "length t < length text" if "takeWhile node_name_pred text \<noteq> []"
    using that unfolding t_def by (cases "text") (auto simp: le_imp_less_Suc length_dropWhile_le split: if_splits)
  have "within fl snd (length text) (xbind (parse_node_attributes fl (snd (skip whitespace_pred t)) nd) (\<lambda>(u, element).
      if char_at u 0 = CHR ''>'' then xbind (contents (drop 1 u) element) (\<lambda>(u, element). Inr (Some element, u))
      else if char_at u 0 = CHR ''/'' then if char_at u 1 \<noteq> CHR ''>'' then Inl (ParseError ''expected >'') else Inr (Some element, drop 2 u)
      else Inl (ParseError ''expected >'')))" if "takeWhile node_name_pred text \<noteq> []" for nd
  proof (rule within_bind [OF attributes_within], clarify)
    fix u :: string and element :: xnode
    assume "length (fst (u, element)) \<le> length (snd (skip whitespace_pred t))"
    then have "length u \<le> length t" using skip_rest_length [of whitespace_pred t] by (simp del: skip_rest_length)
    then have u: "length u < length text" using t [OF that] by simp
    have c: "within fl fst (length (drop 1 u)) (contents (drop 1 u) element)" if "char_at u 0 = CHR ''>''"
      by (rule assms(1)) (use u assms(2) that in \<open>cases u; simp\<close>)
    show "within fl snd (length text) (if char_at u 0 = CHR ''>'' then xbind (contents (drop 1 u) element) (\<lambda>(u, element). Inr (Some element, u))
      else if char_at u 0 = CHR ''/'' then if char_at u 1 \<noteq> CHR ''>'' then Inl (ParseError ''expected >'') else Inr (Some element, drop 2 u)
      else Inl (ParseError ''expected >''))"
    proof (cases "char_at u 0 = CHR ''>''")
      case True
      have "within fl snd (length text) (xbind (contents (drop 1 u) element) (\<lambda>(u, element). Inr (Some element, u)))"
        by (rule within_bind [OF c [OF True]]) (use u in auto)
      then show ?thesis using True by simp
    qed (use u in auto)
  qed
  then show ?thesis by (auto simp: parse_element_def skip_def t_def Let_def)
qed

lemma node_within:
  assumes "\<And>cs node. 2 * length cs < n \<Longrightarrow> within fl fst (length cs) (contents cs node)"
    and "2 * length text < n + 4"
  shows "within fl snd (length text) (parse_node contents fl text)"
proof -
  have d: "within fl snd (length (drop k text)) r \<Longrightarrow> within fl snd (length text) r" for k and r :: "(xnode option \<times> string) presult"
    by (erule within_mono) simp
  have "within fl snd (length text) (xbind (skip_to ''>'' (drop 1 text)) (\<lambda>(v, rest). Inr (None :: xnode option, drop 1 rest)))"
    by (rule within_bind [OF skip_to_within]) auto
  then show ?thesis using element_within [OF assms] d [OF leaf_within(1)] d [OF leaf_within(2)] d [OF leaf_within(3)]
      d [OF leaf_within(4)] d [OF leaf_within(5)]
    by (simp add: parse_node_def del: One_nat_def)
qed

lemma drop_skip_le: "length text \<le> m \<Longrightarrow> length (drop k (snd (skip p text))) \<le> m"
  using skip_rest_length [of p "text"] by (simp del: skip_rest_length)

lemma parse_enough:
  "case after_data of None \<Rightarrow> 2 * length cs < n
   | Some (c, t) \<Rightarrow> c = char_at t 0 \<and> \<not> text_pred c \<and> 2 * length t < n \<Longrightarrow>
   within fl fst (case after_data of None \<Rightarrow> length cs | Some (c, t) \<Rightarrow> length t) (parse_node_contents n fl at_value after_data cs node)"
proof (induction n arbitrary: at_value after_data cs node)
  case (Suc n)
  define ct where "ct = (case after_data of Some x \<Rightarrow> x
      | None \<Rightarrow> let text = snd (skip whitespace_pred cs) in (char_at text 0, text))"
  obtain c t where ct': "ct = (c, t)" by (cases ct)
  define m where "m = (case after_data of None \<Rightarrow> length cs | Some (c, t) \<Rightarrow> length t)"
  have c: "c = char_at t 0" and t: "length t \<le> m" and m: "2 * m < Suc n"
    and data: "text_pred c \<Longrightarrow> after_data = None \<and> t = snd (skip whitespace_pred cs)"
    using Suc.prems ct' by (auto simp: ct_def m_def Let_def split: option.splits)
  have IH0: "2 * length cs < n \<Longrightarrow> within fl fst (length cs) (parse_node_contents n fl at_value None cs node)" for at_value cs node
    using Suc.IH [where after_data = None and cs = cs and node = node] by simp
  have eq: "parse_node_contents (Suc n) fl at_value after_data cs node =
    (if c = CHR ''<''
     then if char_at t 1 = CHR ''/''
          then let (closing_name, t) = skip node_name_pred (drop 2 t)
               in if has_flag fl parse_validate_closing_tags \<and> xn_name node \<noteq> closing_name
                  then Inl (ParseError ''invalid closing tag name'')
                  else let t = snd (skip whitespace_pred t)
                       in if char_at t 0 \<noteq> CHR ''>'' then Inl (ParseError ''expected >'') else Inr (drop 1 t, node)
          else xbind (parse_node (parse_node_contents n fl (CHR 0x00) None) fl (drop 1 t)) (\<lambda>(child, t).
                 parse_node_contents n fl at_value None t (case child of None \<Rightarrow> node | Some child \<Rightarrow> append_node child node))
     else if c = CHR 0x00 then Inl (ParseError ''unexpected end of data'')
     else xbind (parse_and_append_data fl at_value node t cs) (\<lambda>(c, t, at_value, node). parse_node_contents n fl at_value (Some (c, t)) cs node))"
    using ct' by (simp add: ct_def)
  show ?case unfolding m_def [symmetric]
  proof (cases "c = CHR ''<''")
    case lt: True
    then have ne: "t \<noteq> []" using c by auto
    show "within fl fst m (parse_node_contents (Suc n) fl at_value after_data cs node)"
    proof (cases "char_at t 1 = CHR ''/''")
      case True
      have "length (drop 1 (snd (skip whitespace_pred (dropWhile node_name_pred (drop 2 t))))) \<le> m"
        by (rule drop_skip_le) (use length_dropWhile_le [of node_name_pred "drop 2 t"] t in simp)
      then show ?thesis unfolding eq using lt True by (simp add: skip_def [of node_name_pred] Let_def)
    next
      case False
      have l: "length (drop 1 t) < m" using ne t by (cases t) auto
      have n: "2 * length (drop 1 t) < n + 4" using l m by simp
      have "within fl fst m (xbind (parse_node (parse_node_contents n fl (CHR 0x00) None) fl (drop 1 t)) (\<lambda>(child, t).
          parse_node_contents n fl at_value None t (case child of None \<Rightarrow> node | Some child \<Rightarrow> append_node child node)))"
      proof (rule within_bind [OF node_within [where contents = "parse_node_contents n fl (CHR 0x00) None", OF IH0 n]])
        fix x :: "xnode option \<times> string"
        obtain child u where x: "x = (child, u)" by (cases x)
        assume "length (snd x) \<le> length (drop 1 t)"
        then have u: "length u < m" using l x by simp
        then have "2 * length u < n" using m by simp
        then have "within fl fst (length u) (parse_node_contents n fl at_value None u nd)" for nd by (rule IH0)
        then show "within fl fst m (case x of (child, t) \<Rightarrow>
            parse_node_contents n fl at_value None t (case child of None \<Rightarrow> node | Some child \<Rightarrow> append_node child node))"
          using u within_mono less_imp_le unfolding x prod.case by blast
      qed
      then show ?thesis unfolding eq using lt False by simp
    qed
  next
    case nlt: False
    show "within fl fst m (parse_node_contents (Suc n) fl at_value after_data cs node)"
    proof (cases "c = CHR 0x00")
      case True
      then show ?thesis unfolding eq using nlt True by simp
    next
      case False
      then have tp: "text_pred c" using nlt by (simp add: text_chars)
      then have a: "after_data = None" "t = snd (skip whitespace_pred cs)" using data by blast+
      note dw = data_within [OF a(2), of fl at_value node, folded c, OF tp]
      have mc: "m = length cs" using a(1) by (simp add: m_def)
      have cs: "cs \<noteq> []" using tp c a(2) by (auto simp: skip_def text_chars)
      have "within fl fst m (xbind (parse_and_append_data fl at_value node t cs) (\<lambda>(c, t, at_value, node). parse_node_contents n fl at_value (Some (c, t)) cs node))"
      proof (rule within_bind [OF dw [THEN conjunct1]])
        fix x :: "char \<times> string \<times> char \<times> xnode"
        obtain d u a nd where x: "x = (d, u, a, nd)" by (cases x)
        assume "parse_and_append_data fl at_value node t cs = Inr x" and le: "length (case x of (c, t, a, nd) \<Rightarrow> t) \<le> length cs - 1"
        then have p: "parse_and_append_data fl at_value node t cs = Inr (d, u, a, nd)" by (simp add: x)
        have u: "length u < m" using le mc cs by (cases cs) (auto simp: x)
        have "within fl fst (length u) (parse_node_contents n fl a (Some (d, u)) cs nd)"
          using Suc.IH [where after_data = "Some (d, u)" and cs = cs and node = nd and at_value = a] dw [THEN conjunct2] p u m by auto
        then show "within fl fst m (case x of (c, t, at_value, node) \<Rightarrow> parse_node_contents n fl at_value (Some (c, t)) cs node)"
          using u within_mono less_imp_le unfolding x prod.case by blast
      qed
      then show ?thesis unfolding eq using nlt False by simp
    qed
  qed
qed (auto split: option.splits)

lemma children_enough: "2 * length text < n \<Longrightarrow> within fl (\<lambda>_. []) 0 (parse_children n fl text document)"
proof (induction n arbitrary: "text" document)
  case (Suc n)
  let ?t = "snd (skip whitespace_pred text)"
  have IH0: "2 * length cs < n \<Longrightarrow> within fl fst (length cs) (parse_node_contents n fl at_value None cs node)" for at_value cs node
    using parse_enough [where after_data = None and cs = cs and n = n and fl = fl and node = node] by simp
  show ?case
  proof (cases "char_at ?t 0 = CHR ''<''")
    case True
    then have ne: "0 < length ?t" by (auto simp: char_at_def split: if_splits)
    have "length (drop 1 ?t) = length ?t - 1" by simp
    also have "\<dots> < length ?t" using ne by simp
    also have "length ?t \<le> length text" by (rule skip_rest_length)
    finally have l: "length (drop 1 ?t) < length text" .
    then have n: "2 * length (drop 1 ?t) < n + 4" using Suc.prems by simp
    show ?thesis
    proof (cases "parse_node (parse_node_contents n fl (CHR 0x00) None) fl (drop 1 ?t)")
      case (Inl e)
      then have "fine fl e" using node_within [where contents = "parse_node_contents n fl (CHR 0x00) None" and fl = fl, OF IH0 n] by (simp del: One_nat_def)
      then show ?thesis using Inl True by (simp add: Let_def)
    next
      case (Inr x)
      obtain nd u where x: "x = (nd, u)" by (cases x)
      have "length u < length text" using node_within [where contents = "parse_node_contents n fl (CHR 0x00) None" and fl = fl, OF IH0 n] Inr x l by simp
      then have "2 * length u < n" using Suc.prems by simp
      then show ?thesis using Suc.IH True Inr x by (simp add: Let_def)
    qed
  qed (simp add: Let_def)
qed simp

lemma bom_length: "length (parse_bom text) \<le> length text"
  by (simp add: parse_bom_def)

text \<open>C40: parsing ends on every text and for every combination of flags, with the fuel the model gives
  its loops, and not by the lack of it.  The result is a document, a parse error of the code, or, when
  trailing white space is trimmed and not normalised, a value that ends before it begins: the loop that
  trims a value of white space only, written as a character reference after white space that was
  skipped, goes on in front of it, and the size of the value wraps.\<close>

theorem xml_parse_ends:
  "(\<exists>doc. xml_parse fl text = Inr doc) \<or> (\<exists>what. xml_parse fl text = Inl (ParseError what))
   \<or> xml_parse fl text = Inl Underrun \<and> has_flag fl parse_trim_whitespace \<and> \<not> has_flag fl parse_normalize_whitespace"
proof (cases "xml_parse fl text")
  case (Inl e)
  have "within fl (\<lambda>_. []) 0 (xml_parse fl text)"
    unfolding xml_parse_def by (rule children_enough) (use bom_length [of "text"] in simp)
  then have "fine fl e" using Inl by simp
  then show ?thesis using Inl by (cases e) (auto simp: fine_def)
qed simp

text \<open>The broken value occurs.\<close>

lemma xml_parse_underrun: "xml_parse parse_trim_whitespace ''<a> &#32;</a>'' = Inl Underrun"
  by code_simp

text \<open>With trimming and normalising (0xC00) a value that was trimmed to nothing is as good as none; without
  terminators (0xC04) the white space in the text keeps the next data from replacing it.\<close>

lemma empty_value_kept:
  "parse_and_append_data 0xC00 (CHR 0x00) (XNode node_element ''a'' [] [] []) ''&#32;<'' ''&#32;<''
     = Inr (CHR ''<'', ''<'', CHR 0x00, XNode node_element ''a'' [] [] [XNode node_data [] [] [] []])"
  "parse_and_append_data 0xC04 (CHR 0x00) (XNode node_element ''a'' [] [] []) ''&#32;<'' ''&#32;<''
     = Inr (CHR ''<'', ''<'', CHR '' '', XNode node_element ''a'' [] [] [XNode node_data [] [] [] []])"
  by code_simp+

text \<open>Each lookup table of the parser is the class of characters its comment gives, and no scan
  passes the terminating zero.\<close>

theorem lookup_tables_classes:
  "whitespace_pred c = (c \<in> {CHR '' '', CHR 0x09, CHR 0x0A, CHR 0x0D})
   \<and> node_name_pred c = (c \<notin> {CHR '' '', CHR 0x09, CHR 0x0A, CHR 0x0D, CHR ''/'', CHR ''>'', CHR ''?'', CHR 0x00})
   \<and> attribute_name_pred c = (c \<notin> {CHR '' '', CHR 0x09, CHR 0x0A, CHR 0x0D, CHR ''/'', CHR ''<'', CHR ''>'',
      CHR ''='', CHR ''?'', CHR ''!'', CHR 0x00})
   \<and> text_pred c = (c \<notin> {CHR ''<'', CHR 0x00})
   \<and> attribute_value_pred (CHR 0x27) c = (c \<notin> {CHR 0x27, CHR 0x00})
   \<and> attribute_value_pred (CHR 0x22) c = (c \<notin> {CHR 0x22, CHR 0x00})"
  by (simp only: ws_chars node_name_chars attribute_name_chars text_chars attribute_value_chars insertI1 insertI2
      simp_thms)

end
