(* ===== verification/XmlInPlace.thy ===== *)
theory XmlInPlace
  imports RapidXml_Props
begin

text \<open>
  The translating loop of \<^verbatim>\<open>skip_and_expand_character_refs\<close> as the code runs it: on one
  buffer, read at \<open>src\<close> and overwritten at \<open>dest\<close>.  It computes what \<^const>\<open>expand\<close>
  computes on an untouched text.
\<close>

definition write_at :: "nat \<Rightarrow> string \<Rightarrow> string \<Rightarrow> string" where
  "write_at dest out buf = take dest buf @ out @ drop (dest + length out) buf"

fun scan_digits :: "nat \<Rightarrow> u64 \<Rightarrow> string \<Rightarrow> nat \<Rightarrow> u64 \<Rightarrow> u64 \<times> nat" where
  "scan_digits 0 base buf src code = (code, src)"
| "scan_digits (Suc n) base buf src code =
     (if digit_of (char_at buf src) = 0xFF then (code, src)
      else scan_digits n base buf (src + 1) (code * base + of_nat (digit_of (char_at buf src))))"

text \<open>The character of a numeric reference is put into the buffer before the semicolon is tested.\<close>

definition numeric_reference :: "pflags \<Rightarrow> string \<Rightarrow> nat \<Rightarrow> nat \<Rightarrow> (string \<times> nat \<times> nat) presult" where
  "numeric_reference fl buf src dest =
     (let (base, src) = (if char_at buf (src + 2) = CHR ''x'' then (16, src + 3) else (10, src + 2));
          (code, src) = scan_digits (length buf) base buf src 0
      in xbind (insert_coded_character fl code) (\<lambda>out.
           let buf = write_at dest out buf
           in if char_at buf src = CHR '';'' then Inr (buf, src + 1, dest + length out)
              else Inl (ParseError ''expected ;'')))"

text \<open>\<open>None\<close> leaves the switch by \<open>break\<close>.\<close>

definition in_place_reference :: "pflags \<Rightarrow> string \<Rightarrow> nat \<Rightarrow> nat \<Rightarrow> (string \<times> nat \<times> nat) presult option" where
  "in_place_reference fl buf src dest =
     (let at = (\<lambda>i. char_at buf (src + i));
          replace = (\<lambda>c n. Some (Inr (write_at dest [c] buf, src + n, dest + 1)))
      in if has_flag fl parse_no_entity_translation then None
         else if at 0 \<noteq> CHR 0x26 then None
         else if at 1 = CHR ''a'' then
           if at 2 = CHR ''m'' \<and> at 3 = CHR ''p'' \<and> at 4 = CHR '';'' then replace (CHR 0x26) 5
           else if at 2 = CHR ''p'' \<and> at 3 = CHR ''o'' \<and> at 4 = CHR ''s'' \<and> at 5 = CHR '';'' then replace (CHR 0x27) 6
           else None
         else if at 1 = CHR ''q'' then
           if at 2 = CHR ''u'' \<and> at 3 = CHR ''o'' \<and> at 4 = CHR ''t'' \<and> at 5 = CHR '';'' then replace (CHR 0x22) 6
           else None
         else if at 1 = CHR ''g'' then if at 2 = CHR ''t'' \<and> at 3 = CHR '';'' then replace (CHR ''>'') 4 else None
         else if at 1 = CHR ''l'' then if at 2 = CHR ''t'' \<and> at 3 = CHR '';'' then replace (CHR ''<'') 4 else None
         else if at 1 = CHR ''#'' then
           Some (numeric_reference fl buf src dest)
         else None)"

fun skip_at :: "nat \<Rightarrow> (char \<Rightarrow> bool) \<Rightarrow> string \<Rightarrow> nat \<Rightarrow> nat" where
  "skip_at 0 p buf i = i"
| "skip_at (Suc n) p buf i = (if p (char_at buf i) then skip_at n p buf (i + 1) else i)"

primrec expand_in_place :: "nat \<Rightarrow> pflags \<Rightarrow> (char \<Rightarrow> bool) \<Rightarrow> string \<Rightarrow> nat \<Rightarrow> nat \<Rightarrow> (string \<times> nat \<times> nat) presult" where
  "expand_in_place 0 = (\<lambda>fl stop buf src dest. Inl OutOfFuel)"
| "expand_in_place (Suc n) = (\<lambda>fl stop buf src dest.
     if \<not> stop (char_at buf src) then Inr (buf, src, dest)
     else case in_place_reference fl buf src dest of
       Some r \<Rightarrow> xbind r (\<lambda>(buf, src, dest). expand_in_place n fl stop buf src dest)
     | None \<Rightarrow>
         if has_flag fl parse_normalize_whitespace \<and> whitespace_pred (char_at buf src)
         then let buf = write_at dest '' '' buf
              in expand_in_place n fl stop buf (skip_at (length buf) whitespace_pred buf (src + 1)) (dest + 1)
         else expand_in_place n fl stop (write_at dest [char_at buf src] buf) (src + 1) (dest + 1))"

subsection \<open>Reading and writing the buffer\<close>

lemma char_at_drop: "char_at buf (i + k) = char_at (drop i buf) k"
  by (auto simp: char_at_def)

lemma write_length [simp]: "dest + length out \<le> length buf \<Longrightarrow> length (write_at dest out buf) = length buf"
  by (simp add: write_at_def)

lemma write_drop: "dest + length out \<le> src \<Longrightarrow> src \<le> length buf \<Longrightarrow> drop src (write_at dest out buf) = drop src buf"
  by (simp add: write_at_def)

lemma write_take: "dest + length out \<le> length buf \<Longrightarrow>
    take (dest + length out) (write_at dest out buf) = take dest buf @ out"
  by (simp add: write_at_def)

lemma skip_at_result: "length buf \<le> n + i \<Longrightarrow> \<not> p (CHR 0x00) \<Longrightarrow> i \<le> length buf \<Longrightarrow>
    skip_at n p buf i \<le> length buf \<and> drop (skip_at n p buf i) buf = dropWhile p (drop i buf)
    \<and> i \<le> skip_at n p buf i"
proof (induction n arbitrary: i)
  case (Suc n)
  show ?case
  proof (cases "i < length buf")
    case True
    then have "drop i buf = buf ! i # drop (i + 1) buf" "char_at buf i = buf ! i"
      by (simp_all add: Cons_nth_drop_Suc char_at_def)
    then show ?thesis using Suc.IH [of "i + 1"] Suc.prems True by (cases "p (buf ! i)") auto
  next
    case False
    then show ?thesis using Suc.prems by (simp add: char_at_def)
  qed
qed simp

lemma digit_zero: "digit_of (CHR 0x00) = 0xFF"
  by code_simp

lemma scan_digits_result: "length buf \<le> n + i \<Longrightarrow> i \<le> length buf \<Longrightarrow>
    (\<exists>j. scan_digits n base buf i code = (foldl (\<lambda>code c. code * base + of_nat (digit_of c)) code (takeWhile ref_digit (drop i buf)), j)
      \<and> j = i + length (takeWhile ref_digit (drop i buf)) \<and> j \<le> length buf
      \<and> drop j buf = dropWhile ref_digit (drop i buf))"
proof (induction n arbitrary: i code)
  case (Suc n)
  show ?case
  proof (cases "i < length buf")
    case True
    then have d: "drop i buf = buf ! i # drop (i + 1) buf" "char_at buf i = buf ! i"
      by (simp_all add: Cons_nth_drop_Suc char_at_def)
    show ?thesis
    proof (cases "ref_digit (buf ! i)")
      case True
      then show ?thesis using Suc.IH [of "i + 1" "code * base + of_nat (digit_of (buf ! i))"] Suc.prems \<open>i < length buf\<close>
        by (simp add: d(2) ref_digit_def) (simp add: d(1) ref_digit_def)
    next
      case False
      then show ?thesis using Suc.prems by (simp add: d ref_digit_def)
    qed
  next
    case False
    then show ?thesis using Suc.prems by (simp add: char_at_def digit_zero)
  qed
qed simp

subsection \<open>One reference\<close>

lemma take_Suc_iff: "c \<noteq> CHR 0x00 \<Longrightarrow> take (Suc n) s = c # p \<longleftrightarrow> char_at s 0 = c \<and> take n (drop 1 s) = p"
  by (cases s) auto

lemma entity_chars:
  "take 4 s = ''amp;'' \<longleftrightarrow> char_at s 0 = CHR ''a'' \<and> char_at s 1 = CHR ''m'' \<and> char_at s 2 = CHR ''p'' \<and> char_at s 3 = CHR '';''"
  "take 5 s = ''apos;'' \<longleftrightarrow> char_at s 0 = CHR ''a'' \<and> char_at s 1 = CHR ''p'' \<and> char_at s 2 = CHR ''o'' \<and> char_at s 3 = CHR ''s''
     \<and> char_at s 4 = CHR '';''"
  "take 5 s = ''quot;'' \<longleftrightarrow> char_at s 0 = CHR ''q'' \<and> char_at s 1 = CHR ''u'' \<and> char_at s 2 = CHR ''o'' \<and> char_at s 3 = CHR ''t''
     \<and> char_at s 4 = CHR '';''"
  "take 3 s = ''gt;'' \<longleftrightarrow> char_at s 0 = CHR ''g'' \<and> char_at s 1 = CHR ''t'' \<and> char_at s 2 = CHR '';''"
  "take 3 s = ''lt;'' \<longleftrightarrow> char_at s 0 = CHR ''l'' \<and> char_at s 1 = CHR ''t'' \<and> char_at s 2 = CHR '';''"
  by (simp_all add: eval_nat_numeral take_Suc_iff char_at_drop [symmetric])

lemma byte_count: "insert_coded_character fl code = Inr out \<Longrightarrow> code < 0x80 \<Longrightarrow> length out = 1"
  by (auto simp: insert_coded_character_def split: if_splits)

lemma digit_range: "ref_digit c \<Longrightarrow> digit_of c < 16"
proof -
  have "list_all (\<lambda>d. d = 0xFF \<or> d < 16) lookup_digits" by code_simp
  moreover have "length lookup_digits = 256" by code_simp
  ultimately have "lookup_digits ! of_char c = 0xFF \<or> lookup_digits ! of_char c < 16"
    using nat_of_char_less_256 [of c] by (simp only: list_all_length)
  then show "ref_digit c \<Longrightarrow> digit_of c < 16" by (simp add: ref_digit_def digit_of_def)
qed

text \<open>A coded character is no longer than the \<open>&#\<close> and the digits it stands for.\<close>

lemma coded_fits:
  assumes "insert_coded_character fl (number_of_digits base ds) = Inr out" and "\<forall>c \<in> set ds. ref_digit c"
  shows "length out \<le> 2 + length ds"
proof (cases ds)
  case Nil
  then show ?thesis using byte_count [OF assms(1)] by (simp add: number_of_digits_def)
next
  case (Cons d ds')
  show ?thesis
  proof (cases ds')
    case Nil
    have "digit_of d < 16" using digit_range assms(2) Cons by simp
    then have "word_of_nat (digit_of d) < (0x80 :: u64)" by (simp add: word_less_nat_alt unat_of_nat)
    then show ?thesis using byte_count [OF assms(1)] Cons Nil by (simp add: number_of_digits_def)
  next
    case (Cons e es)
    then show ?thesis using coded_length [OF assms(1)] \<open>ds = d # ds'\<close> by simp
  qed
qed

text \<open>How the results of the two views of a step correspond.\<close>

definition written :: "string \<Rightarrow> nat \<Rightarrow> (string \<times> nat \<times> nat) presult \<Rightarrow> (string \<times> string) presult \<Rightarrow> bool" where
  "written buf dest r r' \<longleftrightarrow> (case r' of
     Inl e \<Rightarrow> r = Inl e
   | Inr (out, rest) \<Rightarrow> \<exists>src. r = Inr (write_at dest out buf, src, dest + length out)
       \<and> drop src buf = rest \<and> src \<le> length buf \<and> dest + length out \<le> src)"

lemma written_simps [simp]:
  "written buf dest r (Inl e) \<longleftrightarrow> r = Inl e"
  by (simp add: written_def)

lemma char_at_in: "char_at buf i = c \<Longrightarrow> c \<noteq> CHR 0x00 \<Longrightarrow> i < length buf"
  by (auto simp: char_at_def split: if_splits)

lemma written_char:
  "char_at buf (src + k) = CHR '';'' \<Longrightarrow> dest \<le> src \<Longrightarrow>
    written buf dest (Inr (write_at dest [c] buf, src + k + 1, dest + 1)) (Inr ([c], drop (src + k + 1) buf))"
  using char_at_in [of buf "src + k"] by (auto simp: written_def)

lemma in_place_char_ref:
  assumes "dest \<le> src" and "src + 2 \<le> length buf"
  shows "written buf dest (numeric_reference fl buf src dest) (char_ref fl (drop (src + 2) buf))"
proof -
  note add_2_eq_Suc' [simp del] add_2_eq_Suc [simp del]
  define x where "x = (char_at buf (src + 2) = CHR ''x'')"
  define base :: u64 where "base = (if x then 16 else 10)"
  define i where "i = (if x then src + 3 else src + 2)"
  have i: "i \<le> length buf" "src + 2 \<le> i" using char_at_in [of buf "src + 2"] assms(2) by (auto simp: i_def x_def)
  define ds where "ds = takeWhile ref_digit (drop i buf)"
  define j where "j = i + length ds"
  have sc: "scan_digits (length buf) base buf i 0 = (number_of_digits base ds, j)" "j \<le> length buf"
    "drop j buf = dropWhile ref_digit (drop i buf)"
    using scan_digits_result [of buf "length buf" i base 0] i(1) by (auto simp: number_of_digits_def ds_def j_def)
  have c0: "char_at (drop (src + 2) buf) 0 = char_at buf (src + 2)" by (simp add: char_at_drop [symmetric])
  have d1: "drop 1 (drop (src + 2) buf) = drop (src + 3) buf" by (simp add: add.commute)
  have ref: "char_ref fl (drop (src + 2) buf) = xbind (insert_coded_character fl (number_of_digits base ds)) (\<lambda>out.
      if char_at (drop j buf) 0 = CHR '';'' then Inr (out, drop 1 (drop j buf)) else Inl (ParseError ''expected ;''))"
    by (cases x) (simp_all only: char_ref_def c0 d1 skip_def sc(3) x_def ds_def base_def i_def Let_def prod.case if_True if_False simp_thms)
  have lhs: "numeric_reference fl buf src dest =
     xbind (insert_coded_character fl (number_of_digits base ds)) (\<lambda>out.
          let buf = write_at dest out buf
          in if char_at buf j = CHR '';'' then Inr (buf, j + 1, dest + length out)
             else Inl (ParseError ''expected ;''))"
    using sc(1) by (cases x) (simp_all add: numeric_reference_def x_def [symmetric] base_def i_def)
  show ?thesis
  proof (cases "insert_coded_character fl (number_of_digits base ds)")
    case (Inr out)
    have "length out \<le> 2 + length ds" by (rule coded_fits [OF Inr]) (auto simp: ds_def dest: set_takeWhileD)
    then have fit: "dest + length out \<le> j" using assms(1) i(2) by (simp add: j_def)
    then have c: "char_at (write_at dest out buf) j = char_at (drop j buf) 0"
      using char_at_drop [of _ j 0] write_drop [OF fit sc(2)] by simp
    show ?thesis
      unfolding lhs ref using Inr c fit char_at_in [of buf j] char_at_drop [of buf j 0]
      by (auto simp: written_def Let_def)
  qed (simp add: lhs ref)
qed

lemma switch:
  assumes "b \<Longrightarrow> W x y"
    and "\<not> b \<Longrightarrow> case s of None \<Rightarrow> r = None | Some r' \<Rightarrow> \<exists>r0. r = Some r0 \<and> W r0 r'"
  shows "case (if b then Some y else s) of None \<Rightarrow> (if b then Some x else r) = None
    | Some r' \<Rightarrow> \<exists>r0. (if b then Some x else r) = Some r0 \<and> W r0 r'"
  using assms by auto

lemma in_place_reference_written:
  assumes "dest \<le> src" and "src < length buf"
  shows "case reference fl (char_at buf src) (drop (src + 1) buf) of
      None \<Rightarrow> in_place_reference fl buf src dest = None
    | Some r' \<Rightarrow> \<exists>r. in_place_reference fl buf src dest = Some r \<and> written buf dest r r'"
proof -
  have d: "char_at (drop (src + 1) buf) k = char_at buf (src + (k + 1))" for k
    by (subst char_at_drop [symmetric], rule arg_cong [where f = "char_at buf"]) simp
  have d': "char_at (drop (src + 1) buf) 0 = char_at buf (src + 1)" "char_at (drop (src + 1) buf) 1 = char_at buf (src + 2)"
    "char_at (drop (src + 1) buf) 2 = char_at buf (src + 3)" "char_at (drop (src + 1) buf) 3 = char_at buf (src + 4)"
    "char_at (drop (src + 1) buf) 4 = char_at buf (src + 5)"
    by (subst d, rule arg_cong [where f = "char_at buf"], simp)+
  have w: "char_at buf (src + k) = CHR '';'' \<Longrightarrow> written buf dest (Inr (write_at dest [c] buf, src + k + 1, dest + 1))
      (Inr ([c], drop k (drop (src + 1) buf)))" for k c
    using written_char [of buf src k dest c] assms(1) by (simp add: ac_simps)
  show ?thesis
  proof (cases "has_flag fl parse_no_entity_translation \<or> char_at buf src \<noteq> CHR 0x26")
    case True
    then show ?thesis by (auto simp: reference_def in_place_reference_def)
  next
    case False
    show ?thesis
    proof (cases "char_at buf (src + 1) = CHR ''#''")
      case True
      then have l: "src + 2 \<le> length buf" using char_at_in [of buf "src + 1"] by simp
      have "entity fl (drop (src + 1) buf) = Some (char_ref fl (drop 1 (drop (src + 1) buf)))"
        by (simp only: entity_def entity_chars d' True char.inject) simp
      moreover have "drop 1 (drop (src + 1) buf) = drop (src + 2) buf" by simp
      ultimately have r: "reference fl (char_at buf src) (drop (src + 1) buf) = Some (char_ref fl (drop (src + 2) buf))"
        using False by (simp only: reference_def de_Morgan_disj not_not simp_thms if_True)
      have "in_place_reference fl buf src dest = Some (numeric_reference fl buf src dest)"
        using False True by (simp only: in_place_reference_def Let_def add_0_right char.inject) simp
      then show ?thesis using in_place_char_ref [OF assms(1) l, of fl] by (simp only: r option.case) blast
    next
      case nh: False
      note chars = entity_chars [of "drop (src + 1) buf", unfolded d']
      have ipr: "in_place_reference fl buf src dest =
        (if take 4 (drop (src + 1) buf) = ''amp;'' then Some (Inr (write_at dest [CHR 0x26] buf, src + 5, dest + 1))
         else if take 5 (drop (src + 1) buf) = ''apos;'' then Some (Inr (write_at dest [CHR 0x27] buf, src + 6, dest + 1))
         else if take 5 (drop (src + 1) buf) = ''quot;'' then Some (Inr (write_at dest [CHR 0x22] buf, src + 6, dest + 1))
         else if take 3 (drop (src + 1) buf) = ''gt;'' then Some (Inr (write_at dest ''>'' buf, src + 4, dest + 1))
         else if take 3 (drop (src + 1) buf) = ''lt;'' then Some (Inr (write_at dest ''<'' buf, src + 4, dest + 1))
         else None)"
        unfolding chars using False nh by (simp add: in_place_reference_def Let_def)
      have ref: "reference fl (char_at buf src) (drop (src + 1) buf) = entity fl (drop (src + 1) buf)"
        using False by (simp only: reference_def de_Morgan_disj not_not simp_thms if_True)
      have w': "take 4 (drop (src + 1) buf) = ''amp;'' \<Longrightarrow> written buf dest (Inr (write_at dest [CHR 0x26] buf, src + 5, dest + 1))
          (Inr ([CHR 0x26], drop 4 (drop (src + 1) buf)))"
        "take 5 (drop (src + 1) buf) = ''apos;'' \<Longrightarrow> written buf dest (Inr (write_at dest [CHR 0x27] buf, src + 6, dest + 1))
          (Inr ([CHR 0x27], drop 5 (drop (src + 1) buf)))"
        "take 5 (drop (src + 1) buf) = ''quot;'' \<Longrightarrow> written buf dest (Inr (write_at dest [CHR 0x22] buf, src + 6, dest + 1))
          (Inr ([CHR 0x22], drop 5 (drop (src + 1) buf)))"
        "take 3 (drop (src + 1) buf) = ''gt;'' \<Longrightarrow> written buf dest (Inr (write_at dest ''>'' buf, src + 4, dest + 1))
          (Inr (''>'', drop 3 (drop (src + 1) buf)))"
        "take 3 (drop (src + 1) buf) = ''lt;'' \<Longrightarrow> written buf dest (Inr (write_at dest ''<'' buf, src + 4, dest + 1))
          (Inr (''<'', drop 3 (drop (src + 1) buf)))"
        unfolding chars using w [of 3 "CHR ''>''"] w [of 3 "CHR ''<''"] w [of 4 "CHR 0x26"] w [of 5 "CHR 0x27"] w [of 5 "CHR 0x22"]
        by (simp_all add: add.commute [of src])
      have "char_at (drop (src + 1) buf) 0 \<noteq> CHR ''#''" using nh unfolding d' .
      then show ?thesis unfolding ipr ref entity_def if_not_P
        by (intro switch w') simp_all
    qed
  qed
qed

subsection \<open>The loop\<close>

text \<open>The buffer after the loop: the value behind what was before \<open>dest\<close>, then leftovers, then the
  unread rest.\<close>

definition expanded :: "string \<Rightarrow> nat \<Rightarrow> (string \<times> nat \<times> nat) presult \<Rightarrow> (string \<times> string) presult \<Rightarrow> bool" where
  "expanded buf dest r r' \<longleftrightarrow> (case r' of
     Inl e \<Rightarrow> r = Inl e
   | Inr (v, rest) \<Rightarrow> \<exists>buf' src'. r = Inr (buf', src', dest + length v)
       \<and> take (dest + length v) buf' = take dest buf @ v \<and> drop src' buf' = rest
       \<and> dest + length v \<le> src' \<and> src' \<le> length buf' \<and> length buf' = length buf)"

text \<open>Put \<open>out\<close> at \<open>dest\<close> and go on from \<open>src'\<close>.\<close>

lemma expanded_step:
  assumes "expanded (write_at dest out buf) (dest + length out) r r'" and "dest + length out \<le> length buf"
  shows "expanded buf dest r (xbind r' (\<lambda>(v, rest). Inr (out @ v, rest)))"
  using assms by (cases r') (auto simp: expanded_def write_take add.assoc)

lemma expand_in_place_expanded:
  "\<not> stop (CHR 0x00) \<Longrightarrow> dest \<le> src \<Longrightarrow> src \<le> length buf \<Longrightarrow> length buf - src < n \<Longrightarrow>
    expanded buf dest (expand_in_place n fl stop buf src dest) (expand fl stop (drop src buf))"
proof (induction n arbitrary: buf src dest)
  case (Suc n)
  show ?case
  proof (cases "stop (char_at buf src)")
    case stop: True
    then have src: "src < length buf" using Suc.prems(1) by (cases "src < length buf") (auto simp: char_at_def)
    define c where "c = char_at buf src"
    define tl where "tl = drop (src + 1) buf"
    have d: "drop src buf = c # tl" using src by (simp add: c_def tl_def char_at_def Cons_nth_drop_Suc)
    have IH: "expanded buf dest (expand_in_place n fl stop (write_at dest out buf) src' (dest + length out))
        (xbind (expand fl stop rest) (\<lambda>(v, rest). Inr (out @ v, rest)))"
      if "dest + length out \<le> src'" "src < src'" "src' \<le> length buf" "drop src' buf = rest" for out src' rest
    proof (rule expanded_step)
      have w: "drop src' (write_at dest out buf) = rest" using write_drop [OF that(1,3)] that(4) by simp
      show "expanded (write_at dest out buf) (dest + length out)
          (expand_in_place n fl stop (write_at dest out buf) src' (dest + length out)) (expand fl stop rest)"
        using Suc.IH [of "dest + length out" src' "write_at dest out buf"] Suc.prems(1,4) that w by simp
    qed (use that in simp)
    have ref: "case reference fl c tl of None \<Rightarrow> in_place_reference fl buf src dest = None
      | Some r' \<Rightarrow> \<exists>r. in_place_reference fl buf src dest = Some r \<and> written buf dest r r'"
      unfolding c_def tl_def by (rule in_place_reference_written [OF Suc.prems(2) src])
    show ?thesis
    proof (cases "reference fl c tl")
      case (Some r')
      then obtain r where r: "in_place_reference fl buf src dest = Some r" "written buf dest r r'" using ref by auto
      show ?thesis
      proof (cases r')
        case (Inl e)
        then show ?thesis using r Some stop d by (simp add: expanded_def c_def)
      next
        case (Inr x)
        obtain out rest where x: "x = (out, rest)" by (cases x)
        obtain src' where src': "r = Inr (write_at dest out buf, src', dest + length out)" "drop src' buf = rest"
          "src' \<le> length buf" "dest + length out \<le> src'" using r(2) by (auto simp: Inr x written_def)
        have "length rest < length tl" using reference_length [of fl c tl out rest] Some Inr x by simp
        then have "src < src'" using src'(2,3) src by (auto simp: tl_def)
        from IH [OF src'(4) this src'(3,2)] show ?thesis using r(1) Some stop d by (simp add: c_def Inr x src'(1))
      qed
    next
      case None
      then have nr: "in_place_reference fl buf src dest = None" using ref by simp
      show ?thesis
      proof (cases "has_flag fl parse_normalize_whitespace \<and> whitespace_pred c")
        case True
        define buf1 where "buf1 = write_at dest '' '' buf"
        define src' where "src' = skip_at (length buf1) whitespace_pred buf1 (src + 1)"
        have l: "length buf1 = length buf" using Suc.prems(2) src by (simp add: buf1_def)
        have d1: "drop (src + 1) buf1 = tl" unfolding buf1_def tl_def
          by (rule write_drop) (use Suc.prems(2) src in simp_all)
        have s: "src' \<le> length buf" "drop src' buf1 = dropWhile whitespace_pred tl" "src < src'"
          using skip_at_result [of buf1 "length buf1" "src + 1" whitespace_pred] src d1 l by (auto simp: src'_def ws_chars)
        have d2: "drop src' buf = dropWhile whitespace_pred tl" unfolding s(2) [symmetric] buf1_def
          by (rule write_drop [symmetric]) (use Suc.prems(2) s in simp_all)
        have "dest + length '' '' \<le> src'" using Suc.prems(2) s(3) by simp
        from IH [OF this s(3,1) d2] show ?thesis
          using True None nr stop d by (simp add: c_def [symmetric] src'_def buf1_def Let_def case_prod_beta)
      next
        case False
        then show ?thesis
          using IH [of "[c]" "src + 1" tl] Suc.prems(2) src None nr stop d by (auto simp: c_def [symmetric] tl_def)
      qed
    qed
  next
    case False
    then have "expand fl stop (drop src buf) = Inr ([], drop src buf)"
      using char_at_drop [of buf src 0] by (cases "drop src buf") auto
    then show ?thesis using False Suc.prems by (simp add: expanded_def)
  qed
qed simp

text \<open>Translating references and white space in the buffer being read gives the value and the
  rest that an expansion of an untouched copy would give: no write overtakes the reading, not even the
  bytes of a numeric reference, which are put in place before its semicolon is read.\<close>

theorem expansion_in_place:
  assumes "\<not> stop (CHR 0x00)" and "src \<le> length buf"
  shows "case expand fl stop (drop src buf) of
      Inl e \<Rightarrow> expand_in_place (length buf + 1) fl stop buf src src = Inl e
    | Inr (v, rest) \<Rightarrow> \<exists>buf' src'. expand_in_place (length buf + 1) fl stop buf src src = Inr (buf', src', src + length v)
        \<and> take (length v) (drop src buf') = v \<and> drop src' buf' = rest
        \<and> take src buf' = take src buf \<and> length buf' = length buf"
proof -
  have "expanded buf src (expand_in_place (length buf + 1) fl stop buf src src) (expand fl stop (drop src buf))"
    by (rule expand_in_place_expanded) (use assms in simp_all)
  moreover have "take (length v) (drop src buf') = v \<and> take src buf' = take src buf"
    if "take (src + length v) buf' = take src buf @ v" "length buf' = length buf" for v buf'
    using assms(2) arg_cong [OF that(1), of "take src"] arg_cong [OF that(1), of "drop src"]
    by (auto simp: drop_take take_take min_def)
  ultimately show ?thesis
    by (cases "expand fl stop (drop src buf)") (auto simp: expanded_def simp del: One_nat_def add_Suc_right)
qed

theorem expansion_in_place_witness:
  "\<exists>buf' src'. expand_in_place 16 0 text_pred ''a&#65;b&lt;<x/>'' 1 1 = Inr (buf', src', 1 + length ''Ab<'')
     \<and> take (length ''Ab<'') (drop 1 buf') = ''Ab<'' \<and> drop src' buf' = ''<x/>''"
proof -
  let ?b = "''a&#65;b&lt;<x/>''"
  have e: "expand 0 text_pred (drop 1 ?b) = Inr (''Ab<'', ''<x/>'')" by code_simp
  have l: "length ?b + 1 = 16" by simp
  have "\<not> text_pred (CHR 0x00)" "1 \<le> length ?b" by (simp_all add: text_chars)
  from expansion_in_place [where fl = 0 and stop = text_pred and src = 1 and buf = ?b, OF this] show ?thesis unfolding e l sum.case prod.case by blast
qed

end
