(* ===== verification/IoBuffer.thy ===== *)
theory IoBuffer
  imports Prelude
begin

text \<open>
  The stream buffers the packets live in (\<open>asio::basic_streambuf\<close>) and the pools both programs
  take them from (\<open>__CreateIoBuffer\<close>).  The rest of the development reads a buffer as the list
  of bytes of its input sequence; the refinement here justifies that.
\<close>

subsection \<open>basic_streambuf\<close>

text \<open>The pointers of \<open>std::streambuf\<close> as offsets from \<open>&buffer_[0]\<close>; \<open>eback\<close> always is
  the begin of the buffer.\<close>

record streambuf =
  sb_max_size :: nat
  sb_buffer :: bytes
  sb_gptr :: nat
  sb_egptr :: nat
  sb_pptr :: nat
  sb_epptr :: nat

definition buffer_delta :: nat where "buffer_delta = 128"

text \<open>\<open>std::vector::resize\<close>.\<close>

definition resize :: "nat \<Rightarrow> bytes \<Rightarrow> bytes" where
  "resize n xs = take n xs @ replicate (n - length xs) 0"

definition new_streambuf :: "nat \<Rightarrow> streambuf" where
  "new_streambuf maximum_size =
     (let pend = min maximum_size buffer_delta
      in \<lparr>sb_max_size = maximum_size, sb_buffer = resize (max pend 1) [], sb_gptr = 0, sb_egptr = 0,
          sb_pptr = 0, sb_epptr = pend\<rparr>)"

definition sb_size :: "streambuf \<Rightarrow> nat" where
  "sb_size b = sb_pptr b - sb_gptr b"

definition sb_data :: "streambuf \<Rightarrow> bytes" where
  "sb_data b = take (sb_pptr b - sb_gptr b) (drop (sb_gptr b) (sb_buffer b))"

text \<open>The get area shifted to the start of the buffer (\<open>memmove\<close>).\<close>

definition shifted :: "streambuf \<Rightarrow> bytes \<times> nat" where
  "shifted b =
     (if sb_gptr b > 0
      then let pnext = sb_pptr b - sb_gptr b
           in (take pnext (drop (sb_gptr b) (sb_buffer b)) @ drop pnext (sb_buffer b), pnext)
      else (sb_buffer b, sb_pptr b))"

definition sb_reserve :: "nat \<Rightarrow> streambuf \<Rightarrow> streambuf result" where
  "sb_reserve n b =
     (if n \<le> sb_epptr b - sb_pptr b then Inr b
      else let (buffer, pnext) = shifted b
           in if n > sb_epptr b - pnext
              then if n \<le> sb_max_size b \<and> pnext \<le> sb_max_size b - n
                   then Inr (b\<lparr>sb_buffer := resize (max (pnext + n) 1) buffer, sb_gptr := 0, sb_egptr := pnext,
                       sb_pptr := pnext, sb_epptr := pnext + n\<rparr>)
                   else Inl LengthError
              else Inr (b\<lparr>sb_buffer := buffer, sb_gptr := 0, sb_egptr := pnext, sb_pptr := pnext\<rparr>))"

text \<open>The throw comes after the shift and before the pointers are set: the bytes have moved, the pointers
  have not.\<close>

definition sb_after_throw :: "streambuf \<Rightarrow> streambuf" where
  "sb_after_throw b = b\<lparr>sb_buffer := fst (shifted b)\<rparr>"

text \<open>\<open>prepare\<close> returns the area of \<open>n\<close> bytes at \<open>pptr\<close>; the caller writes it through a pointer or
  lets a read fill it.\<close>

definition sb_prepare :: "nat \<Rightarrow> streambuf \<Rightarrow> streambuf result" where
  "sb_prepare n b = sb_reserve n b"

definition sb_fill :: "bytes \<Rightarrow> streambuf \<Rightarrow> streambuf" where
  "sb_fill xs b = b\<lparr>sb_buffer := take (sb_pptr b) (sb_buffer b) @ xs @ drop (sb_pptr b + length xs) (sb_buffer b)\<rparr>"

text \<open>\<open>pbump\<close> and \<open>gbump\<close> take an \<open>int\<close>.\<close>

definition bump :: "nat \<Rightarrow> nat \<Rightarrow> nat" where
  "bump p n = nat (int p + signed_take_bit 31 (int n))"

definition sb_commit :: "nat \<Rightarrow> streambuf \<Rightarrow> streambuf" where
  "sb_commit n b =
     (let n = (if sb_pptr b + n > sb_epptr b then sb_epptr b - sb_pptr b else n);
          p = bump (sb_pptr b) n
      in b\<lparr>sb_pptr := p, sb_egptr := p\<rparr>)"

definition sb_consume :: "nat \<Rightarrow> streambuf \<Rightarrow> streambuf" where
  "sb_consume n b =
     (let b = (if sb_egptr b < sb_pptr b then b\<lparr>sb_egptr := sb_pptr b\<rparr> else b);
          n = (if sb_gptr b + n > sb_pptr b then sb_pptr b - sb_gptr b else n)
      in b\<lparr>sb_gptr := bump (sb_gptr b) n\<rparr>)"

definition sb_underflow :: "streambuf \<Rightarrow> u8 option \<times> streambuf" where
  "sb_underflow b =
     (if sb_gptr b < sb_pptr b then (Some (sb_buffer b ! sb_gptr b), b\<lparr>sb_egptr := sb_pptr b\<rparr>) else (None, b))"

definition sb_overflow :: "u8 \<Rightarrow> streambuf \<Rightarrow> streambuf result" where
  "sb_overflow c b =
     and_then
       (if sb_pptr b = sb_epptr b
        then let buffer_size = sb_pptr b - sb_gptr b
             in if buffer_size < sb_max_size b \<and> sb_max_size b - buffer_size < buffer_delta
                then sb_reserve (sb_max_size b - buffer_size) b
                else sb_reserve buffer_delta b
        else Inr b)
       (\<lambda>b. Inr (b\<lparr>sb_buffer := (sb_buffer b)[sb_pptr b := c], sb_pptr := bump (sb_pptr b) 1\<rparr>))"

text \<open>How the programs write a packet: prepare, fill, commit.\<close>

definition sb_write :: "bytes \<Rightarrow> streambuf \<Rightarrow> streambuf result" where
  "sb_write xs b = and_then (sb_prepare (length xs) b) (\<lambda>b. Inr (sb_commit (length xs) (sb_fill xs b)))"

subsection \<open>The byte-list view\<close>

definition sb_ok :: "streambuf \<Rightarrow> bool" where
  "sb_ok b \<longleftrightarrow> sb_gptr b \<le> sb_pptr b \<and> sb_pptr b \<le> sb_epptr b \<and> sb_epptr b \<le> length (sb_buffer b)
     \<and> sb_epptr b \<le> sb_max_size b \<and> sb_egptr b \<le> sb_pptr b"

lemma bump_small [simp]: "n < 2 ^ 31 \<Longrightarrow> bump p n = p + n"
  by (simp add: bump_def signed_take_bit_int_eq_self nat_add_distrib)

lemma length_resize [simp]: "length (resize n xs) = n"
  by (simp add: resize_def)

lemma new_streambuf_ok: "sb_ok (new_streambuf m) \<and> sb_data (new_streambuf m) = [] \<and> sb_max_size (new_streambuf m) = m"
  by (simp add: new_streambuf_def sb_ok_def sb_data_def Let_def)

lemma size_data: "sb_ok b \<Longrightarrow> sb_size b = length (sb_data b)"
  by (auto simp: sb_size_def sb_data_def sb_ok_def min_def)

lemma shifted_data:
  "sb_ok b \<Longrightarrow> shifted b = (buffer, pnext) \<Longrightarrow>
    pnext = sb_size b \<and> take pnext buffer = sb_data b \<and> length buffer = length (sb_buffer b)"
  by (cases "sb_gptr b = 0") (auto simp: shifted_def sb_ok_def sb_size_def sb_data_def Let_def)

lemma take_resize: "k \<le> n \<Longrightarrow> k \<le> length xs \<Longrightarrow> take k (resize n xs) = take k xs"
  by (simp add: resize_def)

text \<open>Reserving changes nothing that can be read, and throws exactly when the maximum size would be
  exceeded.\<close>

lemma reserve_spec:
  assumes "sb_ok b"
  shows "case sb_reserve n b of
      Inl e \<Rightarrow> e = LengthError \<and> sb_max_size b < sb_size b + n
    | Inr b' \<Rightarrow> sb_ok b' \<and> sb_data b' = sb_data b \<and> sb_max_size b' = sb_max_size b \<and> sb_size b' = sb_size b
        \<and> sb_size b + n \<le> sb_max_size b \<and> n \<le> sb_epptr b' - sb_pptr b'"
proof (cases "n \<le> sb_epptr b - sb_pptr b")
  case True
  then show ?thesis using assms by (auto simp: sb_reserve_def sb_ok_def sb_size_def)
next
  case False
  obtain buffer pnext where s: "shifted b = (buffer, pnext)" by (cases "shifted b")
  note sh = shifted_data [OF assms s]
  have le: "pnext \<le> length buffer" "pnext \<le> sb_epptr b" "sb_epptr b \<le> length buffer" "sb_epptr b \<le> sb_max_size b"
    using sh assms by (auto simp: sb_ok_def sb_size_def)
  show ?thesis
  proof (cases "n > sb_epptr b - pnext")
    case True
    then show ?thesis using False s sh le
      by (auto simp: sb_reserve_def sb_ok_def sb_data_def sb_size_def take_resize)
  next
    case nt: False
    then show ?thesis using False s sh le by (auto simp: sb_reserve_def sb_ok_def sb_data_def sb_size_def)
  qed
qed

lemma reserve_throws: "sb_ok b \<Longrightarrow> sb_reserve n b = Inl e \<Longrightarrow> e = LengthError \<and> sb_max_size b < sb_size b + n"
  using reserve_spec [of b n] by simp

text \<open>A \<open>length_error\<close> can leave other bytes in the input sequence than there were; nothing is lost if
  the sequence starts at the begin of the storage.\<close>

lemma throw_moves_bytes:
  "sb_gptr b = 0 \<Longrightarrow> sb_after_throw b = b"
  "\<exists>b n. sb_ok b \<and> sb_reserve n b = Inl LengthError \<and> sb_data b = [2, 3] \<and> sb_data (sb_after_throw b) = [3, 3]"
proof -
  show "sb_gptr b = 0 \<Longrightarrow> sb_after_throw b = b" by (simp add: sb_after_throw_def shifted_def)
  show "\<exists>b n. sb_ok b \<and> sb_reserve n b = Inl LengthError \<and> sb_data b = [2, 3] \<and> sb_data (sb_after_throw b) = [3, 3]"
    by (intro exI [of _ "\<lparr>sb_max_size = 4, sb_buffer = [1, 2, 3, 0], sb_gptr = 1, sb_egptr = 3, sb_pptr = 3, sb_epptr = 4\<rparr>"]
        exI [of _ 4]) (simp add: sb_ok_def sb_reserve_def sb_data_def sb_after_throw_def shifted_def)
qed

lemma reserve_ok: "sb_ok b \<Longrightarrow> sb_size b + n \<le> sb_max_size b \<Longrightarrow> \<exists>b'. sb_reserve n b = Inr b' \<and> sb_ok b'
    \<and> sb_data b' = sb_data b \<and> sb_max_size b' = sb_max_size b \<and> sb_size b' = sb_size b \<and> n \<le> sb_epptr b' - sb_pptr b'"
  using reserve_spec [of b n] by (cases "sb_reserve n b") auto

lemma commit_fill:
  assumes "sb_ok b" and "length xs \<le> sb_epptr b - sb_pptr b" and "length xs < 2 ^ 31"
  shows "sb_ok (sb_commit (length xs) (sb_fill xs b)) \<and> sb_data (sb_commit (length xs) (sb_fill xs b)) = sb_data b @ xs"
  using assms by (auto simp: sb_commit_def sb_fill_def sb_ok_def sb_data_def Let_def drop_take)

lemma write_spec:
  assumes "sb_ok b" and "length xs < 2 ^ 31"
  shows "if sb_size b + length xs \<le> sb_max_size b
    then \<exists>b'. sb_write xs b = Inr b' \<and> sb_ok b' \<and> sb_data b' = sb_data b @ xs \<and> sb_max_size b' = sb_max_size b
    else sb_write xs b = Inl LengthError"
proof (cases "sb_reserve (length xs) b")
  case (Inl e)
  then show ?thesis using reserve_throws [OF assms(1) Inl] by (simp add: sb_write_def sb_prepare_def)
next
  case (Inr b')
  then show ?thesis using reserve_spec [OF assms(1), of "length xs"] commit_fill [of b' xs] assms(2)
    by (auto simp: sb_write_def sb_prepare_def sb_commit_def sb_fill_def Let_def)
qed

lemma consume_spec:
  assumes "sb_ok b" and "sb_size b < 2 ^ 31"
  shows "sb_ok (sb_consume n b) \<and> sb_data (sb_consume n b) = drop n (sb_data b) \<and> sb_max_size (sb_consume n b) = sb_max_size b"
  using assms by (auto simp: sb_consume_def sb_ok_def sb_data_def sb_size_def Let_def drop_take add.commute)

lemma overflow_spec:
  assumes "sb_ok b"
  shows "if sb_size b < sb_max_size b
    then \<exists>b'. sb_overflow c b = Inr b' \<and> sb_ok b' \<and> sb_data b' = sb_data b @ [c] \<and> sb_max_size b' = sb_max_size b
    else sb_overflow c b = Inl LengthError"
proof -
  have put: "sb_ok (b'\<lparr>sb_buffer := (sb_buffer b')[sb_pptr b' := c], sb_pptr := sb_pptr b' + 1\<rparr>)
    \<and> sb_data (b'\<lparr>sb_buffer := (sb_buffer b')[sb_pptr b' := c], sb_pptr := sb_pptr b' + 1\<rparr>) = sb_data b' @ [c]"
    if "sb_ok b'" "0 < sb_epptr b' - sb_pptr b'" for b'
    using that by (auto simp: sb_ok_def sb_data_def Suc_diff_le take_Suc_conv_app_nth drop_update_swap)
  show ?thesis
  proof (cases "sb_pptr b = sb_epptr b")
    case False
    then have "0 < sb_epptr b - sb_pptr b" "sb_size b < sb_max_size b" using assms by (auto simp: sb_ok_def sb_size_def)
    with put [OF assms] False show ?thesis by (simp add: sb_overflow_def)
  next
    case full: True
    define n where "n = (if sb_size b < sb_max_size b \<and> sb_max_size b - sb_size b < buffer_delta
      then sb_max_size b - sb_size b else buffer_delta)"
    have o: "sb_overflow c b = and_then (sb_reserve n b)
        (\<lambda>b. Inr (b\<lparr>sb_buffer := (sb_buffer b)[sb_pptr b := c], sb_pptr := sb_pptr b + 1\<rparr>))"
      using full by (simp add: sb_overflow_def n_def sb_size_def Let_def)
    show ?thesis
    proof (cases "sb_size b < sb_max_size b")
      case True
      then have n: "sb_size b + n \<le> sb_max_size b" "0 < n" by (auto simp: n_def buffer_delta_def)
      obtain b' where b': "sb_reserve n b = Inr b'" "sb_ok b'" "sb_data b' = sb_data b" "sb_max_size b' = sb_max_size b"
        "n \<le> sb_epptr b' - sb_pptr b'" using reserve_ok [OF assms n(1)] by auto
      then show ?thesis using put [of b'] n(2) True o by simp
    next
      case False
      then have "\<not> sb_size b + n \<le> sb_max_size b" by (simp add: n_def buffer_delta_def)
      then have "sb_reserve n b = Inl LengthError"
        using reserve_spec [OF assms, of n] by (cases "sb_reserve n b") auto
      then show ?thesis using False o by simp
    qed
  qed
qed

subsection \<open>The contract\<close>

text \<open>What the users of a buffer rely on: writes append while there is room, consuming drops from the
  front.  \<open>pbump\<close> counts in an \<open>int\<close>, so the room of a stream buffer ends below 2 GiB.\<close>

locale byte_queue =
  fixes put :: "bytes \<Rightarrow> 'b \<Rightarrow> 'b result" and consume :: "nat \<Rightarrow> 'b \<Rightarrow> 'b"
    and view :: "'b \<Rightarrow> bytes" and ok :: "'b \<Rightarrow> bool" and room :: nat
  assumes put_view: "ok b \<Longrightarrow> length (view b) + length xs < room \<Longrightarrow>
      \<exists>b'. put xs b = Inr b' \<and> ok b' \<and> view b' = view b @ xs"
    and consume_view: "ok b \<Longrightarrow> ok (consume n b) \<and> view (consume n b) = drop n (view b)"
begin

lemma writes: "ok b \<Longrightarrow> length (view b) + length (concat xss) < room \<Longrightarrow>
    \<exists>b'. fold_result put xss b = Inr b' \<and> ok b' \<and> view b' = view b @ concat xss"
proof (induction xss arbitrary: b)
  case (Cons xs xss)
  obtain b' where b': "put xs b = Inr b'" "ok b'" "view b' = view b @ xs"
    using put_view [of b xs] Cons.prems by auto
  from Cons.IH [OF b'(2)] b' Cons.prems show ?case by auto
qed auto

lemma consume_all: "ok b \<Longrightarrow> length (view b) \<le> n \<Longrightarrow> view (consume n b) = []"
  using consume_view by simp

end

definition SIZE_MAX :: nat where "SIZE_MAX = 2 ^ 64 - 1"

definition good_buffer :: "streambuf \<Rightarrow> bool" where
  "good_buffer b \<longleftrightarrow> sb_ok b \<and> sb_size b < 2 ^ 31 \<and> sb_max_size b = SIZE_MAX"

lemma good_new: "good_buffer (new_streambuf SIZE_MAX)"
  using new_streambuf_ok [of SIZE_MAX] size_data [of "new_streambuf SIZE_MAX"] by (simp add: good_buffer_def)

lemma good_consume: "good_buffer b \<Longrightarrow> good_buffer (sb_consume n b) \<and> sb_data (sb_consume n b) = drop n (sb_data b)"
  using consume_spec [of b n] size_data [of b] size_data [of "sb_consume n b"] by (auto simp: good_buffer_def)

lemma good_write:
  assumes "good_buffer b" and "sb_size b + length xs < 2 ^ 31"
  shows "\<exists>b'. sb_write xs b = Inr b' \<and> good_buffer b' \<and> sb_data b' = sb_data b @ xs"
proof -
  have "length xs < 2 ^ 31" "sb_size b + length xs \<le> sb_max_size b" using assms by (simp_all add: good_buffer_def SIZE_MAX_def)
  then obtain b' where b': "sb_write xs b = Inr b'" "sb_ok b'" "sb_data b' = sb_data b @ xs" "sb_max_size b' = sb_max_size b"
    using write_spec [of b xs] assms(1) by (auto simp: good_buffer_def)
  then show ?thesis using assms size_data [of b] size_data [of b'] by (auto simp: good_buffer_def)
qed

interpretation sb: byte_queue sb_write sb_consume sb_data good_buffer "2 ^ 31"
proof
  show "\<exists>b'. sb_write xs b = Inr b' \<and> good_buffer b' \<and> sb_data b' = sb_data b @ xs"
    if "good_buffer b" "length (sb_data b) + length xs < 2 ^ 31" for b xs
    using good_write [OF that(1), of xs] that size_data [of b] by (simp add: good_buffer_def)
  show "good_buffer (sb_consume n b) \<and> sb_data (sb_consume n b) = drop n (sb_data b)" if "good_buffer b" for b n
    by (rule good_consume [OF that])
qed

text \<open>C32: a stream buffer is a queue of bytes: writing a packet appends its bytes, consuming drops
  bytes at the front, and growing, shifting and reusing the storage never changes what can be read.
  Writing throws exactly when the maximum size would be exceeded.\<close>

theorem streambuf_refines_queue:
  assumes "sb_ok b" and "length xs < 2 ^ 31" and "sb_size b < 2 ^ 31"
  shows "(if length (sb_data b) + length xs \<le> sb_max_size b
      then \<exists>b'. sb_write xs b = Inr b' \<and> sb_ok b' \<and> sb_data b' = sb_data b @ xs
      else sb_write xs b = Inl LengthError)
    \<and> sb_ok (sb_consume n b) \<and> sb_data (sb_consume n b) = drop n (sb_data b)
    \<and> sb_size b = length (sb_data b)"
  using write_spec [OF assms(1,2)] consume_spec [OF assms(1,3)] size_data [OF assms(1)] by (auto split: if_splits)

theorem streambuf_refines_queue_witness:
  "\<exists>b'. sb_write [1, 2, 3] (new_streambuf 4096) = Inr b' \<and> sb_data b' = [1, 2, 3]"
proof -
  have b: "sb_ok (new_streambuf 4096)" "sb_data (new_streambuf 4096) = []" "sb_max_size (new_streambuf 4096) = 4096"
    using new_streambuf_ok by blast+
  have s: "sb_size (new_streambuf 4096) = 0" by (simp add: size_data [OF b(1)] b(2))
  show ?thesis using streambuf_refines_queue [OF b(1), of "[1, 2, 3]" 0] b(2,3) s by auto
qed

end
