(* ===== verification/BufferPool.thy ===== *)
theory BufferPool
  imports IoBuffer
begin

text \<open>
  The pool of stream buffers of both programs, \<open>AppLogic1::__CreateIoBuffer\<close>: a buffer handed
  out comes back when its last \<open>shared_ptr\<close> goes, is emptied and handed out again.
\<close>

record pool =
  bp_heap :: "nat \<rightharpoonup> streambuf"
  bp_next :: nat
  bp_pool :: "nat list"
  bp_enabled :: bool

definition new_pool :: pool where
  "new_pool = \<lparr>bp_heap = Map.empty, bp_next = 0, bp_pool = [], bp_enabled = True\<rparr>"

definition CreateIoBuffer :: "pool \<Rightarrow> nat \<times> pool" where
  "CreateIoBuffer t =
     (case bp_pool t of
        p # ps \<Rightarrow> (p, t\<lparr>bp_pool := ps\<rparr>)
      | [] \<Rightarrow> (bp_next t, t\<lparr>bp_heap := (bp_heap t)(bp_next t \<mapsto> new_streambuf SIZE_MAX), bp_next := bp_next t + 1\<rparr>))"

text \<open>The deleter of the \<open>shared_ptr\<close>.\<close>

definition release :: "nat \<Rightarrow> pool \<Rightarrow> pool" where
  "release p t =
     (if bp_enabled t
      then t\<lparr>bp_heap := (bp_heap t)(p := map_option (\<lambda>b. sb_consume (sb_size b) b) (bp_heap t p)), bp_pool := bp_pool t @ [p]\<rparr>
      else t\<lparr>bp_heap := (bp_heap t)(p := None)\<rparr>)"

text \<open>\<open>Start\<close> and \<open>Stop\<close> switch the pooling.\<close>

definition set_pooling :: "bool \<Rightarrow> pool \<Rightarrow> pool" where
  "set_pooling on t = t\<lparr>bp_enabled := on\<rparr>"

definition on_buffer :: "nat \<Rightarrow> (streambuf \<Rightarrow> streambuf result) \<Rightarrow> pool \<Rightarrow> pool result" where
  "on_buffer p f t = (case bp_heap t p of None \<Rightarrow> Inl NullPointer
     | Some b \<Rightarrow> and_then (f b) (\<lambda>b. Inr (t\<lparr>bp_heap := (bp_heap t)(p \<mapsto> b)\<rparr>)))"

text \<open>Reachable pools with the buffers in use: what the holder of a buffer does with it are writes and
  reads, below the 2 GiB the \<open>int\<close> of \<open>pbump\<close> can count.\<close>

inductive pool_reach :: "pool \<Rightarrow> nat set \<Rightarrow> bool" where
  pool_new: "pool_reach new_pool {}"
| pool_create: "pool_reach t used \<Longrightarrow> CreateIoBuffer t = (p, t') \<Longrightarrow> pool_reach t' (insert p used)"
| pool_write: "pool_reach t used \<Longrightarrow> p \<in> used \<Longrightarrow> bp_heap t p = Some b \<Longrightarrow> sb_size b + length xs < 2 ^ 31 \<Longrightarrow>
    on_buffer p (sb_write xs) t = Inr t' \<Longrightarrow> pool_reach t' used"
| pool_consume: "pool_reach t used \<Longrightarrow> p \<in> used \<Longrightarrow>
    on_buffer p (\<lambda>b. Inr (sb_consume n b)) t = Inr t' \<Longrightarrow> pool_reach t' used"
| pool_release: "pool_reach t used \<Longrightarrow> p \<in> used \<Longrightarrow> pool_reach (release p t) (used - {p})"
| pool_switch: "pool_reach t used \<Longrightarrow> pool_reach (set_pooling on t) used"

inductive_cases pool_reachE: "pool_reach t used"

definition pool_inv :: "pool \<Rightarrow> nat set \<Rightarrow> bool" where
  "pool_inv t used \<longleftrightarrow> distinct (bp_pool t) \<and> set (bp_pool t) \<inter> used = {}
     \<and> (\<forall>p \<in> set (bp_pool t). p < bp_next t \<and> (\<exists>b. bp_heap t p = Some b \<and> good_buffer b \<and> sb_data b = []))
     \<and> (\<forall>p \<in> used. p < bp_next t \<and> (\<exists>b. bp_heap t p = Some b \<and> good_buffer b))"

lemma pool_inv_create:
  assumes "pool_inv t used" and "CreateIoBuffer t = (p, t')"
  shows "pool_inv t' (insert p used) \<and> p \<notin> used \<and> (\<exists>b. bp_heap t' p = Some b \<and> good_buffer b \<and> sb_data b = [])
    \<and> (\<forall>q \<in> used. bp_heap t' q = bp_heap t q)"
proof (cases "bp_pool t")
  case Nil
  then have t': "p = bp_next t" "t' = t\<lparr>bp_heap := (bp_heap t)(p \<mapsto> new_streambuf SIZE_MAX), bp_next := p + 1\<rparr>"
    using assms(2) by (auto simp: CreateIoBuffer_def)
  then show ?thesis using assms(1) Nil good_new new_streambuf_ok [of SIZE_MAX]
    by (auto simp: pool_inv_def less_Suc_eq)
next
  case (Cons q ps)
  then show ?thesis using assms by (auto simp: CreateIoBuffer_def pool_inv_def)
qed

lemma pool_inv_on_buffer:
  assumes "pool_inv t used" and "p \<in> used" and "on_buffer p f t = Inr t'"
    and "\<And>b b'. bp_heap t p = Some b \<Longrightarrow> good_buffer b \<Longrightarrow> f b = Inr b' \<Longrightarrow> good_buffer b'"
  shows "pool_inv t' used"
proof -
  obtain b b' where b: "bp_heap t p = Some b" "f b = Inr b'" "t' = t\<lparr>bp_heap := (bp_heap t)(p \<mapsto> b')\<rparr>"
    using assms(3) by (auto simp: on_buffer_def and_then_eq_Inr split: option.splits)
  have "good_buffer b" using assms(1,2) b(1) by (auto simp: pool_inv_def)
  then have "good_buffer b'" by (rule assms(4) [OF b(1) _ b(2)])
  moreover have "p \<notin> set (bp_pool t)" using assms(1,2) by (auto simp: pool_inv_def)
  ultimately show ?thesis using assms(1) b(3) by (auto simp: pool_inv_def)
qed

lemma pool_inv_release:
  assumes "pool_inv t used" and "p \<in> used"
  shows "pool_inv (release p t) (used - {p})"
proof -
  obtain b where b: "bp_heap t p = Some b" "good_buffer b" using assms by (auto simp: pool_inv_def)
  have p: "p \<notin> set (bp_pool t)" using assms by (auto simp: pool_inv_def)
  have "sb_data (sb_consume (sb_size b) b) = []" using good_consume [OF b(2), of "sb_size b"] size_data [of b] b(2)
    by (simp add: good_buffer_def)
  then show ?thesis using assms p b good_consume [OF b(2), of "sb_size b"] by (auto simp: release_def pool_inv_def)
qed

lemma pool_reach_inv: "pool_reach t used \<Longrightarrow> pool_inv t used"
proof (induction rule: pool_reach.induct)
  case pool_new
  then show ?case by (simp add: pool_inv_def new_pool_def)
next
  case (pool_create t used p t')
  then show ?case using pool_inv_create by blast
next
  case (pool_write t used p b xs t')
  show ?case by (rule pool_inv_on_buffer [OF pool_write.IH pool_write.hyps(2,5)])
      (use pool_write.hyps(3,4) good_write in fastforce)
next
  case (pool_consume t used p n t')
  show ?case by (rule pool_inv_on_buffer [OF pool_consume.IH pool_consume.hyps(2,3)]) (use good_consume in auto)
next
  case (pool_release t used p)
  then show ?case by (simp add: pool_inv_release)
next
  case (pool_switch t used on)
  then show ?case by (simp add: set_pooling_def pool_inv_def)
qed

text \<open>C31: whatever was written before, the pool only hands out buffers that are empty and in no other
  hands, and handing one out does not touch a buffer in use; what is then written to it piece by piece
  (a header and the buffers of a SendV) is what it holds: no packet carries bytes of another.\<close>

theorem pool_hands_out_empty:
  assumes "pool_reach t used" and "CreateIoBuffer t = (p, t')"
  shows "p \<notin> used \<and> (\<exists>b. bp_heap t' p = Some b \<and> sb_data b = []) \<and> (\<forall>q \<in> used. bp_heap t' q = bp_heap t q)
    \<and> (length (concat xss) < 2 ^ 31 \<longrightarrow>
        (\<exists>t'' b. on_buffer p (fold_result sb_write xss) t' = Inr t'' \<and> bp_heap t'' p = Some b \<and> sb_data b = concat xss))"
proof -
  note inv = pool_inv_create [OF pool_reach_inv [OF assms(1)] assms(2)]
  then obtain b where b: "bp_heap t' p = Some b" "good_buffer b" "sb_data b = []" by blast
  then have "sb_size b = 0" using size_data [of b] by (simp add: good_buffer_def)
  then show ?thesis using inv b sb.writes [OF b(2), of xss] by (auto simp: on_buffer_def)
qed

text \<open>A buffer is taken, written, given back and taken again.\<close>

theorem pool_hands_out_empty_witness:
  "\<exists>t p t' b. pool_reach t {} \<and> bp_pool t = [p] \<and> CreateIoBuffer t = (p, t') \<and> bp_heap t' p = Some b \<and> sb_data b = []"
proof -
  define t1 where "t1 = snd (CreateIoBuffer new_pool)"
  have c: "CreateIoBuffer new_pool = (0, t1)" "bp_heap t1 0 = Some (new_streambuf SIZE_MAX)" "bp_pool t1 = []" "bp_enabled t1"
    by (simp_all add: CreateIoBuffer_def new_pool_def t1_def)
  have r1: "pool_reach t1 {0}" using pool_create [OF pool_new c(1)] .
  obtain b where b: "sb_write [7, 7] (new_streambuf SIZE_MAX) = Inr b" using good_write [OF good_new, of "[7, 7]"]
    size_data [of "new_streambuf SIZE_MAX"] new_streambuf_ok [of SIZE_MAX] by auto
  define t2 where "t2 = t1\<lparr>bp_heap := (bp_heap t1)(0 \<mapsto> b)\<rparr>"
  have w: "on_buffer 0 (sb_write [7, 7]) t1 = Inr t2" using b c(2) by (simp add: on_buffer_def t2_def)
  have l: "sb_size (new_streambuf SIZE_MAX) + length [7, 7 :: u8] < 2 ^ 31"
    using size_data [of "new_streambuf SIZE_MAX"] new_streambuf_ok [of SIZE_MAX] by simp
  have "pool_reach t2 {0}" by (rule pool_write [OF r1 _ c(2) l w]) simp
  then have r3: "pool_reach (release 0 t2) {}" using pool_release [of t2 "{0}" 0] by simp
  have p: "bp_pool (release 0 t2) = [0]" using c(3,4) by (simp add: release_def t2_def)
  then have cr: "CreateIoBuffer (release 0 t2) = (0, (release 0 t2)\<lparr>bp_pool := []\<rparr>)" by (simp add: CreateIoBuffer_def)
  from pool_hands_out_empty [OF r3 cr] r3 p cr show ?thesis by blast
qed

end
