(* ===== verification/XmlLinks.thy ===== *)
theory XmlLinks
  imports Main
begin

text \<open>
  The doubly linked lists of \<^verbatim>\<open>rapidxml.hpp\<close>: the children of a node and its attributes.  The
  fields of the structs are maps from addresses, one record for the family of fields of children
  (\<open>m_first_node\<close>, \<open>m_last_node\<close>, \<open>m_parent\<close>, \<open>m_prev_sibling\<close>,
  \<open>m_next_sibling\<close>) and one for that of attributes, which the code treats alike.  Fields the
  constructors leave uninitialized keep whatever value the map has.
\<close>

record links =
  lk_first :: "nat \<Rightarrow> nat option"
  lk_last :: "nat \<Rightarrow> nat option"
  lk_parent :: "nat \<Rightarrow> nat option"
  lk_prev :: "nat \<Rightarrow> nat option"
  lk_next :: "nat \<Rightarrow> nat option"

definition set_first :: "nat \<Rightarrow> nat option \<Rightarrow> links \<Rightarrow> links" where
  "set_first p v t = t\<lparr>lk_first := (lk_first t)(p := v)\<rparr>"
definition set_last :: "nat \<Rightarrow> nat option \<Rightarrow> links \<Rightarrow> links" where
  "set_last p v t = t\<lparr>lk_last := (lk_last t)(p := v)\<rparr>"
definition set_parent :: "nat \<Rightarrow> nat option \<Rightarrow> links \<Rightarrow> links" where
  "set_parent p v t = t\<lparr>lk_parent := (lk_parent t)(p := v)\<rparr>"
definition set_prev :: "nat \<Rightarrow> nat option \<Rightarrow> links \<Rightarrow> links" where
  "set_prev p v t = t\<lparr>lk_prev := (lk_prev t)(p := v)\<rparr>"
definition set_next :: "nat \<Rightarrow> nat option \<Rightarrow> links \<Rightarrow> links" where
  "set_next p v t = t\<lparr>lk_next := (lk_next t)(p := v)\<rparr>"

lemmas set_defs = set_first_def set_last_def set_parent_def set_prev_def set_next_def

subsection \<open>The operations\<close>

text \<open>The constructors of a node and of an attribute clear \<open>m_parent\<close>, and that of a node also the
  first child.\<close>

definition construct :: "nat \<Rightarrow> links \<Rightarrow> links" where
  "construct p t = set_first p None (set_parent p None t)"

definition link_prepend :: "nat \<Rightarrow> nat \<Rightarrow> links \<Rightarrow> links" where
  "link_prepend n child t =
     (let t = (case lk_first t n of
                 Some f \<Rightarrow> set_prev f (Some child) (set_next child (Some f) t)
               | None \<Rightarrow> set_last n (Some child) (set_next child None t))
      in set_prev child None (set_parent child (Some n) (set_first n (Some child) t)))"

definition the_last :: "links \<Rightarrow> nat \<Rightarrow> nat" where
  "the_last t n = (case lk_last t n of Some l \<Rightarrow> l | None \<Rightarrow> 0)"

definition link_append :: "nat \<Rightarrow> nat \<Rightarrow> links \<Rightarrow> links" where
  "link_append n child t =
     (let t = (case lk_first t n of
                 Some f \<Rightarrow> set_next (the_last t n) (Some child) (set_prev child (lk_last t n) t)
               | None \<Rightarrow> set_first n (Some child) (set_prev child None t))
      in set_next child None (set_parent child (Some n) (set_last n (Some child) t)))"

definition link_insert :: "nat \<Rightarrow> nat option \<Rightarrow> nat \<Rightarrow> links \<Rightarrow> links" where
  "link_insert n place child t =
     (if place = lk_first t n then link_prepend n child t
      else case place of
        None \<Rightarrow> link_append n child t
      | Some w \<Rightarrow>
          let t = set_prev child (lk_prev t w) t;
              t = set_next child (Some w) t;
              t = (case lk_prev t w of Some p \<Rightarrow> set_next p (Some child) t | None \<Rightarrow> t);
              t = set_prev w (Some child) t
          in set_parent child (Some n) t)"

definition link_remove_first :: "nat \<Rightarrow> links \<Rightarrow> links" where
  "link_remove_first n t =
     (case lk_first t n of
        None \<Rightarrow> t
      | Some child \<Rightarrow>
          let t = set_first n (lk_next t child) t;
              t = (case lk_next t child of Some s \<Rightarrow> set_prev s None t | None \<Rightarrow> set_last n None t)
          in set_parent child None t)"

definition link_remove_last :: "nat \<Rightarrow> links \<Rightarrow> links" where
  "link_remove_last n t =
     (let child = the_last t n;
          t = (case lk_prev t child of
                 Some p \<Rightarrow> set_next p None (set_last n (Some p) t)
               | None \<Rightarrow> set_first n None t)
      in set_parent child None t)"

definition link_remove :: "nat \<Rightarrow> nat \<Rightarrow> links \<Rightarrow> links" where
  "link_remove n w t =
     (if lk_first t n = Some w then link_remove_first n t
      else if lk_last t n = Some w then link_remove_last n t
      else let t = (case lk_prev t w of Some p \<Rightarrow> set_next p (lk_next t w) t | None \<Rightarrow> t);
               t = (case lk_next t w of Some s \<Rightarrow> set_prev s (lk_prev t w) t | None \<Rightarrow> t)
           in set_parent w None t)"

text \<open>The loop of \<open>remove_all_nodes\<close>, over the list from \<open>p\<close>; the fuel is above the length.\<close>

fun clear_parents :: "nat \<Rightarrow> nat option \<Rightarrow> links \<Rightarrow> links" where
  "clear_parents k None t = t"
| "clear_parents 0 (Some p) t = t"
| "clear_parents (Suc k) (Some p) t = clear_parents k (lk_next t p) (set_parent p None t)"

definition link_remove_all :: "nat \<Rightarrow> nat \<Rightarrow> links \<Rightarrow> links" where
  "link_remove_all k n t = set_first n None (clear_parents k (lk_first t n) t)"

subsection \<open>The lists they represent\<close>

fun seg :: "links \<Rightarrow> nat \<Rightarrow> nat option \<Rightarrow> nat list \<Rightarrow> nat option \<Rightarrow> bool" where
  "seg t n p [] s \<longleftrightarrow> True"
| "seg t n p (x # xs) s \<longleftrightarrow> lk_parent t x = Some n \<and> lk_prev t x = p
     \<and> lk_next t x = (case xs of [] \<Rightarrow> s | y # _ \<Rightarrow> Some y) \<and> seg t n (Some x) xs s"

definition list_of :: "links \<Rightarrow> nat \<Rightarrow> nat list \<Rightarrow> bool" where
  "list_of t n xs \<longleftrightarrow> distinct xs \<and> lk_first t n = (if xs = [] then None else Some (hd xs))
     \<and> (xs \<noteq> [] \<longrightarrow> lk_last t n = Some (last xs)) \<and> seg t n None xs None"

lemma seg_append:
  "seg t n p (xs @ ys) s \<longleftrightarrow> seg t n p xs (if ys = [] then s else Some (hd ys))
     \<and> seg t n (if xs = [] then p else Some (last xs)) ys s"
  by (induction t n p xs s rule: seg.induct) (auto split: list.splits)

lemma seg_frame:
  "seg t n p xs s \<Longrightarrow> (\<And>x. x \<in> set xs \<Longrightarrow> lk_parent t' x = lk_parent t x \<and> lk_prev t' x = lk_prev t x \<and> lk_next t' x = lk_next t x) \<Longrightarrow>
    seg t' n p xs s"
  by (induction t n p xs s rule: seg.induct) auto

lemma seg_parent: "seg t n p xs s \<Longrightarrow> x \<in> set xs \<Longrightarrow> lk_parent t x = Some n"
  by (induction t n p xs s rule: seg.induct) auto

lemma list_frame:
  assumes "list_of t m ys" and "lk_first t' m = lk_first t m" and "lk_last t' m = lk_last t m"
    and "\<And>x. lk_parent t x = Some m \<Longrightarrow> lk_parent t' x = Some m \<and> lk_prev t' x = lk_prev t x \<and> lk_next t' x = lk_next t x"
  shows "list_of t' m ys"
proof -
  have s: "seg t m None ys None" using assms(1) by (simp add: list_of_def)
  have "seg t' m None ys None" by (rule seg_frame [OF s]) (use assms(4) seg_parent [OF s] in auto)
  then show ?thesis using assms(1-3) by (simp add: list_of_def)
qed

lemma list_parent: "list_of t n xs \<Longrightarrow> lk_parent t c \<noteq> Some n \<Longrightarrow> c \<notin> set xs"
  using seg_parent [of t n None xs None c] by (auto simp: list_of_def)

lemma seg_single: "seg t n p [x] s \<longleftrightarrow> lk_parent t x = Some n \<and> lk_prev t x = p \<and> lk_next t x = s"
  by simp

lemma prepend_list:
  assumes "list_of t n xs" and "lk_parent t c = None"
  shows "list_of (link_prepend n c t) n (c # xs)"
proof -
  have c: "c \<notin> set xs" using list_parent assms by simp
  show ?thesis
  proof (cases xs)
    case Nil
    then show ?thesis using assms(1) by (simp add: list_of_def link_prepend_def set_defs)
  next
    case (Cons x ys)
    have xs: "x \<noteq> c" "x \<notin> set ys" "c \<notin> set ys" "distinct ys" "lk_first t n = Some x" "lk_last t n = Some (last xs)"
      using assms(1) c Cons by (auto simp: list_of_def)
    have s: "lk_parent t x = Some n" "lk_next t x = (case ys of [] \<Rightarrow> None | y # _ \<Rightarrow> Some y)" "seg t n (Some x) ys None"
      using assms(1) Cons by (simp_all add: list_of_def)
    define t' where "t' = link_prepend n c t"
    have t': "lk_first t' n = Some c" "lk_last t' n = Some (last xs)" "lk_parent t' = (lk_parent t)(c := Some n)"
      "lk_prev t' = (lk_prev t)(x := Some c, c := None)" "lk_next t' = (lk_next t)(c := Some x)"
      using xs by (simp_all add: t'_def link_prepend_def set_defs)
    have "seg t' n (Some x) ys None" by (rule seg_frame [OF s(3)]) (use xs t' in auto)
    then show ?thesis using xs s(1,2) c t' by (simp add: t'_def [symmetric] list_of_def Cons)
  qed
qed

lemma append_list:
  assumes "list_of t n xs" and "lk_parent t c = None"
  shows "list_of (link_append n c t) n (xs @ [c])"
proof -
  have c: "c \<notin> set xs" using list_parent assms by simp
  show ?thesis
  proof (cases xs rule: rev_cases)
    case Nil
    then show ?thesis using assms(1) by (simp add: list_of_def link_append_def set_defs)
  next
    case (snoc ys l)
    have l: "l \<noteq> c" "l \<notin> set ys" "c \<notin> set ys" "distinct ys" using assms(1) c snoc by (auto simp: list_of_def)
    have f: "lk_first t n = Some (hd xs)" "the_last t n = l" "lk_last t n = Some l"
      using assms(1) snoc by (auto simp: list_of_def the_last_def)
    have s: "seg t n None ys (Some l)" "lk_parent t l = Some n" "lk_prev t l = (if ys = [] then None else Some (last ys))"
      using assms(1) snoc by (auto simp: list_of_def seg_append)
    define t' where "t' = link_append n c t"
    have t': "lk_first t' n = Some (hd xs)" "lk_last t' n = Some c" "lk_parent t' = (lk_parent t)(c := Some n)"
      "lk_prev t' = (lk_prev t)(c := Some l)" "lk_next t' = (lk_next t)(l := Some c, c := None)"
      using f by (simp_all add: t'_def link_append_def set_defs)
    have "seg t' n None ys (Some l)" by (rule seg_frame [OF s(1)]) (use l t' in auto)
    moreover have "seg t' n (if ys = [] then None else Some (last ys)) [l, c] None" using s(2,3) t' l by simp
    ultimately have "seg t' n None (ys @ [l, c]) None" by (simp add: seg_append)
    then show ?thesis using l t' by (simp add: t'_def [symmetric] list_of_def snoc hd_append)
  qed
qed

lemma insert_list:
  assumes "list_of t n (as @ w # bs)" and "lk_parent t c = None"
  shows "list_of (link_insert n (Some w) c t) n (as @ c # w # bs)"
proof (cases as rule: rev_cases)
  case Nil
  then have "lk_first t n = Some w" using assms(1) by (simp add: list_of_def)
  then show ?thesis using prepend_list [OF assms] Nil by (simp add: link_insert_def)
next
  case (snoc cs p)
  have c: "c \<notin> set (as @ w # bs)" using list_parent [OF assms(1), of c] assms(2) by simp
  have d: "distinct (cs @ p # w # bs)" "c \<notin> set (cs @ p # w # bs)" using assms(1) c snoc by (auto simp: list_of_def)
  have f: "lk_first t n = Some (hd (cs @ [p]))" "lk_last t n = Some (last (w # bs))" using assms(1) snoc
    by (auto simp: list_of_def hd_append)
  have nf: "Some w \<noteq> lk_first t n" using f(1) d(1) by (cases cs) auto
  have s: "seg t n None cs (Some p)" "lk_parent t p = Some n" "lk_prev t p = (if cs = [] then None else Some (last cs))"
    "lk_parent t w = Some n" "lk_prev t w = Some p" "lk_next t w = (case bs of [] \<Rightarrow> None | y # _ \<Rightarrow> Some y)"
    "seg t n (Some w) bs None"
    using assms(1) snoc by (auto simp: list_of_def seg_append)
  define t' where "t' = link_insert n (Some w) c t"
  have t': "lk_first t' = lk_first t" "lk_last t' = lk_last t" "lk_parent t' = (lk_parent t)(c := Some n)"
    "lk_prev t' = (lk_prev t)(c := Some p, w := Some c)" "lk_next t' = (lk_next t)(c := Some w, p := Some c)"
    using nf s(5) d by (auto simp: t'_def link_insert_def set_defs Let_def)
  have "seg t' n None cs (Some p)" by (rule seg_frame [OF s(1)]) (use d t' in auto)
  moreover have "seg t' n (Some w) bs None" by (rule seg_frame [OF s(7)]) (use d t' in auto)
  ultimately have "seg t' n None (cs @ p # c # w # bs) None" using s d t' by (simp add: seg_append)
  then show ?thesis using d f t' by (auto simp: t'_def [symmetric] list_of_def snoc hd_append)
qed

lemma remove_first_list:
  assumes "list_of t n (x # xs)"
  shows "list_of (link_remove_first n t) n xs"
proof (cases xs)
  case Nil
  then show ?thesis using assms by (simp add: list_of_def link_remove_first_def set_defs Let_def)
next
  case (Cons y ys)
  have d: "x \<noteq> y" "x \<notin> set ys" "y \<notin> set ys" "distinct ys" and f: "lk_first t n = Some x" "lk_last t n = Some (last xs)"
    and s: "lk_next t x = Some y" "lk_parent t y = Some n" "lk_next t y = (case ys of [] \<Rightarrow> None | z # _ \<Rightarrow> Some z)"
      "seg t n (Some y) ys None"
    using assms Cons by (auto simp: list_of_def)
  define t' where "t' = link_remove_first n t"
  have t': "lk_first t' n = Some y" "lk_last t' = lk_last t" "lk_parent t' = (lk_parent t)(x := None)"
    "lk_prev t' = (lk_prev t)(y := None)" "lk_next t' = lk_next t"
    using f s(1) by (simp_all add: t'_def link_remove_first_def set_defs Let_def)
  have "seg t' n (Some y) ys None" by (rule seg_frame [OF s(4)]) (use d t' in auto)
  then show ?thesis using d f s(2,3) t' Cons by (simp add: t'_def [symmetric] list_of_def)
qed

lemma remove_last_list:
  assumes "list_of t n (xs @ [x])"
  shows "list_of (link_remove_last n t) n xs"
proof (cases xs rule: rev_cases)
  case Nil
  then show ?thesis using assms by (simp add: list_of_def link_remove_last_def the_last_def set_defs Let_def)
next
  case (snoc ys l)
  have d: "l \<noteq> x" "l \<notin> set ys" "x \<notin> set ys" "distinct ys" and f: "lk_first t n = Some (hd xs)" "the_last t n = x"
    and s: "seg t n None ys (Some l)" "lk_parent t l = Some n" "lk_prev t l = (if ys = [] then None else Some (last ys))"
      "lk_prev t x = Some l"
    using assms snoc by (auto simp: list_of_def seg_append the_last_def hd_append)
  define t' where "t' = link_remove_last n t"
  have t': "lk_first t' = lk_first t" "lk_last t' n = Some l" "lk_parent t' = (lk_parent t)(x := None)"
    "lk_prev t' = lk_prev t" "lk_next t' = (lk_next t)(l := None)"
    using f(2) s(4) by (simp_all add: t'_def link_remove_last_def set_defs Let_def)
  have "seg t' n None ys (Some l)" by (rule seg_frame [OF s(1)]) (use d t' in auto)
  then have "seg t' n None (ys @ [l]) None" using s(2,3) d t' by (simp add: seg_append)
  then show ?thesis using d f t' snoc by (simp add: t'_def [symmetric] list_of_def)
qed

lemma remove_list:
  assumes "list_of t n (as @ w # bs)"
  shows "list_of (link_remove n w t) n (as @ bs)"
proof (cases "as = [] \<or> bs = []")
  case True
  have f: "lk_first t n = Some (hd (as @ w # bs))" "lk_last t n = Some (last (as @ w # bs))" "w \<notin> set as"
    using assms by (auto simp: list_of_def)
  show ?thesis
  proof (cases "as = []")
    case True
    then show ?thesis using f assms remove_first_list [of t n w bs] by (simp add: link_remove_def)
  next
    case False
    then have "bs = []" "lk_first t n \<noteq> Some w" "lk_last t n = Some w" using True f by (auto simp: hd_append)
    then show ?thesis using assms remove_last_list [of t n as w] by (simp add: link_remove_def)
  qed
next
  case False
  obtain cs p where p: "as = cs @ [p]" using False by (cases as rule: rev_cases) auto
  obtain q ds where q: "bs = q # ds" using False by (cases bs) auto
  have d: "distinct (cs @ p # w # q # ds)" and f: "lk_first t n = Some (hd (cs @ [p]))" "lk_last t n = Some (last (q # ds))"
    and s: "seg t n None cs (Some p)" "lk_parent t p = Some n" "lk_prev t p = (if cs = [] then None else Some (last cs))"
      "lk_prev t w = Some p" "lk_next t w = Some q" "lk_parent t q = Some n"
      "lk_next t q = (case ds of [] \<Rightarrow> None | y # _ \<Rightarrow> Some y)" "seg t n (Some q) ds None"
    using assms p q by (auto simp: list_of_def seg_append hd_append)
  have nf: "lk_first t n \<noteq> Some w" "lk_last t n \<noteq> Some w" using f d by (auto simp: hd_append)
  define t' where "t' = link_remove n w t"
  have t': "lk_first t' = lk_first t" "lk_last t' = lk_last t" "lk_parent t' = (lk_parent t)(w := None)"
    "lk_prev t' = (lk_prev t)(q := Some p)" "lk_next t' = (lk_next t)(p := Some q)"
    using nf s(4,5) d by (auto simp: t'_def link_remove_def set_defs Let_def)
  have "seg t' n None cs (Some p)" by (rule seg_frame [OF s(1)]) (use d t' in auto)
  moreover have "seg t' n (Some q) ds None" by (rule seg_frame [OF s(8)]) (use d t' in auto)
  ultimately have "seg t' n None (cs @ p # q # ds) None" using s d t' by (simp add: seg_append)
  then show ?thesis using d f t' by (auto simp: t'_def [symmetric] list_of_def p q hd_append)
qed

lemma clear_parents_fields:
  "lk_first (clear_parents k p t) = lk_first t \<and> lk_last (clear_parents k p t) = lk_last t
   \<and> lk_prev (clear_parents k p t) = lk_prev t \<and> lk_next (clear_parents k p t) = lk_next t"
  by (induction k p t rule: clear_parents.induct) (auto simp: set_defs)

lemma clear_parents_list:
  "seg t n p xs None \<Longrightarrow> distinct xs \<Longrightarrow> length xs \<le> k \<Longrightarrow>
    lk_parent (clear_parents k (if xs = [] then None else Some (hd xs)) t) = (\<lambda>x. if x \<in> set xs then None else lk_parent t x)"
proof (induction xs arbitrary: k p t)
  case (Cons x xs)
  obtain j where k: "k = Suc j" using Cons.prems(3) by (cases k) auto
  have n: "lk_next t x = (if xs = [] then None else Some (hd xs))" using Cons.prems(1) by (cases xs) auto
  have s: "seg t n (Some x) xs None" using Cons.prems(1) by simp
  have "seg (set_parent x None t) n (Some x) xs None"
    by (rule seg_frame [OF s]) (use Cons.prems(2) in \<open>auto simp: set_parent_def\<close>)
  from Cons.IH [OF this, of j] Cons.prems(2,3) k
  show ?case by (auto simp: n fun_eq_iff set_parent_def)
qed simp

lemma remove_all_list:
  "list_of t n xs \<Longrightarrow> length xs \<le> k \<Longrightarrow> list_of (link_remove_all k n t) n []"
  by (simp add: link_remove_all_def list_of_def set_first_def)

subsection \<open>All lists of a document\<close>

text \<open>Every node of \<open>A\<close> has its list, and a list holds nodes of \<open>A\<close>.\<close>

definition forest :: "links \<Rightarrow> nat set \<Rightarrow> (nat \<Rightarrow> nat list) \<Rightarrow> bool" where
  "forest t A kids \<longleftrightarrow> (\<forall>n \<in> A. list_of t n (kids n) \<and> set (kids n) \<subseteq> A)"

text \<open>An operation on the list of \<open>n\<close> leaves the other lists alone if it touches only members of that
  list and nodes without a parent.\<close>

lemma other_list:
  assumes "list_of t n xs" and "list_of t m ys" and "m \<noteq> n"
    and "lk_first t' = (lk_first t)(n := a)" and "lk_last t' = (lk_last t)(n := b)"
    and "\<And>x. x \<notin> set xs \<Longrightarrow> lk_parent t x \<noteq> None \<Longrightarrow> lk_parent t' x = lk_parent t x \<and> lk_prev t' x = lk_prev t x \<and> lk_next t' x = lk_next t x"
  shows "list_of t' m ys"
proof (rule list_frame [OF assms(2)])
  fix x assume p: "lk_parent t x = Some m"
  have "x \<notin> set xs" by (rule list_parent [OF assms(1)]) (use p assms(3) in simp)
  then show "lk_parent t' x = Some m \<and> lk_prev t' x = lk_prev t x \<and> lk_next t' x = lk_next t x" using assms(6) p by simp
qed (use assms(3-5) in simp_all)

lemma first_member: "list_of t n xs \<Longrightarrow> lk_first t n = Some f \<Longrightarrow> f \<in> set xs"
  by (auto simp: list_of_def split: if_splits)

lemma last_member: "list_of t n xs \<Longrightarrow> xs \<noteq> [] \<Longrightarrow> the_last t n \<in> set xs"
  by (simp add: list_of_def the_last_def)

lemma neighbours:
  assumes "list_of t n xs" and "x \<in> set xs"
  shows "(\<forall>y. lk_next t x = Some y \<longrightarrow> y \<in> set xs) \<and> (\<forall>y. lk_prev t x = Some y \<longrightarrow> y \<in> set xs)"
proof -
  obtain as bs where xs: "xs = as @ x # bs" using assms(2) by (auto simp: in_set_conv_decomp)
  then have "lk_next t x = (case bs of [] \<Rightarrow> None | y # _ \<Rightarrow> Some y)" "lk_prev t x = (if as = [] then None else Some (last as))"
    using assms(1) by (auto simp: list_of_def seg_append)
  then show ?thesis by (auto simp: xs split: list.splits)
qed

lemma prepend_other:
  assumes "list_of t n xs" and "lk_parent t c = None" and "list_of t m ys" and "m \<noteq> n"
  shows "list_of (link_prepend n c t) m ys"
  by (rule other_list [OF assms(1,3,4), where a = "lk_first (link_prepend n c t) n" and b = "lk_last (link_prepend n c t) n"])
    (use assms(2) first_member [OF assms(1)] in \<open>auto simp: link_prepend_def set_defs fun_eq_iff split: option.splits\<close>)

lemma append_other:
  assumes "list_of t n xs" and "lk_parent t c = None" and "list_of t m ys" and "m \<noteq> n"
  shows "list_of (link_append n c t) m ys"
proof -
  have "lk_first t n \<noteq> None \<Longrightarrow> the_last t n \<in> set xs" using last_member [OF assms(1)] first_member [OF assms(1)] by (cases "xs = []") auto
  then show ?thesis
    by (intro other_list [OF assms(1,3,4), where a = "lk_first (link_append n c t) n" and b = "lk_last (link_append n c t) n"])
      (use assms(2) in \<open>auto simp: link_append_def set_defs fun_eq_iff split: option.splits\<close>)
qed

lemma insert_other:
  assumes "list_of t n xs" and "lk_parent t c = None" and "list_of t m ys" and "m \<noteq> n" and "w \<in> set xs"
  shows "list_of (link_insert n (Some w) c t) m ys"
proof (cases "Some w = lk_first t n")
  case True
  then show ?thesis using prepend_other [OF assms(1-4)] by (simp add: link_insert_def)
next
  case False
  then show ?thesis
    by (intro other_list [OF assms(1,3,4), where a = "lk_first t n" and b = "lk_last t n"])
      (use assms(2,5) neighbours [OF assms(1,5)] in \<open>auto simp: link_insert_def set_defs Let_def split: option.splits\<close>)
qed

lemma remove_first_other:
  assumes "list_of t n xs" and "list_of t m ys" and "m \<noteq> n"
  shows "list_of (link_remove_first n t) m ys"
proof (cases "lk_first t n")
  case (Some f)
  note f = first_member [OF assms(1) Some]
  show ?thesis
    by (rule other_list [OF assms, where a = "lk_first (link_remove_first n t) n" and b = "lk_last (link_remove_first n t) n"])
      (use Some f neighbours [OF assms(1) f] in \<open>auto simp: link_remove_first_def set_defs Let_def fun_eq_iff split: option.splits\<close>)
qed (use assms(2) in \<open>simp add: link_remove_first_def\<close>)

lemma remove_last_other:
  assumes "list_of t n xs" and "list_of t m ys" and "m \<noteq> n" and "xs \<noteq> []"
  shows "list_of (link_remove_last n t) m ys"
proof -
  note l = last_member [OF assms(1,4)]
  show ?thesis
    by (rule other_list [OF assms(1-3), where a = "lk_first (link_remove_last n t) n" and b = "lk_last (link_remove_last n t) n"])
      (use l neighbours [OF assms(1) l] in \<open>auto simp: link_remove_last_def set_defs Let_def fun_eq_iff split: option.splits\<close>)
qed

lemma remove_other:
  assumes "list_of t n xs" and "list_of t m ys" and "m \<noteq> n" and "w \<in> set xs"
  shows "list_of (link_remove n w t) m ys"
proof -
  have "xs \<noteq> []" using assms(4) by auto
  then consider "lk_first t n = Some w" | "lk_first t n \<noteq> Some w" "lk_last t n = Some w"
    | "lk_first t n \<noteq> Some w" "lk_last t n \<noteq> Some w" by blast
  then show ?thesis
  proof cases
    case 3
    then show ?thesis
      by (intro other_list [OF assms(1-3), where a = "lk_first t n" and b = "lk_last t n"])
        (use assms(4) neighbours [OF assms(1,4)] in \<open>auto simp: link_remove_def set_defs Let_def split: option.splits\<close>)
  qed (use remove_first_other [OF assms(1-3)] remove_last_other [OF assms(1-3) \<open>xs \<noteq> []\<close>] in \<open>simp_all add: link_remove_def\<close>)
qed

lemma remove_all_other:
  assumes "list_of t n xs" and "list_of t m ys" and "m \<noteq> n" and "length xs \<le> k"
  shows "list_of (link_remove_all k n t) m ys"
proof -
  have xs: "seg t n None xs None" "distinct xs" "lk_first t n = (if xs = [] then None else Some (hd xs))"
    using assms(1) by (auto simp: list_of_def)
  note c = clear_parents_fields [of k "lk_first t n" t]
  show ?thesis
    by (rule other_list [OF assms(1-3), where a = None and b = "lk_last t n"])
      (use c clear_parents_list [OF xs(1,2) assms(4)] xs(3) in \<open>auto simp: link_remove_all_def set_first_def\<close>)
qed

subsection \<open>Refinement\<close>

datatype link_op = LNew nat | LPrepend nat nat | LAppend nat nat | LInsert nat "nat option" nat
  | LRemoveFirst nat | LRemoveLast nat | LRemove nat nat | LRemoveAll nat

fun link_run :: "nat \<Rightarrow> link_op \<Rightarrow> links \<Rightarrow> links" where
  "link_run k (LNew p) t = construct p t"
| "link_run k (LPrepend n c) t = link_prepend n c t"
| "link_run k (LAppend n c) t = link_append n c t"
| "link_run k (LInsert n w c) t = link_insert n w c t"
| "link_run k (LRemoveFirst n) t = link_remove_first n t"
| "link_run k (LRemoveLast n) t = link_remove_last n t"
| "link_run k (LRemove n w) t = link_remove n w t"
| "link_run k (LRemoveAll n) t = link_remove_all k n t"

text \<open>The same operations on lists.\<close>

fun link_abs :: "link_op \<Rightarrow> (nat \<Rightarrow> nat list) \<Rightarrow> nat \<Rightarrow> nat list" where
  "link_abs (LNew p) kids = kids(p := [])"
| "link_abs (LPrepend n c) kids = kids(n := c # kids n)"
| "link_abs (LAppend n c) kids = kids(n := kids n @ [c])"
| "link_abs (LInsert n None c) kids = kids(n := kids n @ [c])"
| "link_abs (LInsert n (Some w) c) kids = kids(n := takeWhile (\<lambda>x. x \<noteq> w) (kids n) @ c # dropWhile (\<lambda>x. x \<noteq> w) (kids n))"
| "link_abs (LRemoveFirst n) kids = kids(n := tl (kids n))"
| "link_abs (LRemoveLast n) kids = kids(n := butlast (kids n))"
| "link_abs (LRemove n w) kids = kids(n := remove1 w (kids n))"
| "link_abs (LRemoveAll n) kids = kids(n := [])"

text \<open>What the code asserts or documents: a new address, a child without a parent, a place in the list,
  a list that is not empty.\<close>

fun link_pre :: "nat \<Rightarrow> link_op \<Rightarrow> links \<Rightarrow> nat set \<Rightarrow> (nat \<Rightarrow> nat list) \<Rightarrow> bool" where
  "link_pre k (LNew p) t A kids \<longleftrightarrow> p \<notin> A"
| "link_pre k (LPrepend n c) t A kids \<longleftrightarrow> n \<in> A \<and> c \<in> A \<and> lk_parent t c = None"
| "link_pre k (LAppend n c) t A kids \<longleftrightarrow> n \<in> A \<and> c \<in> A \<and> lk_parent t c = None"
| "link_pre k (LInsert n w c) t A kids \<longleftrightarrow> n \<in> A \<and> c \<in> A \<and> lk_parent t c = None \<and> (\<forall>x. w = Some x \<longrightarrow> x \<in> set (kids n))"
| "link_pre k (LRemoveFirst n) t A kids \<longleftrightarrow> n \<in> A \<and> kids n \<noteq> []"
| "link_pre k (LRemoveLast n) t A kids \<longleftrightarrow> n \<in> A \<and> kids n \<noteq> []"
| "link_pre k (LRemove n w) t A kids \<longleftrightarrow> n \<in> A \<and> w \<in> set (kids n)"
| "link_pre k (LRemoveAll n) t A kids \<longleftrightarrow> n \<in> A \<and> length (kids n) \<le> k"

fun link_alive :: "link_op \<Rightarrow> nat set \<Rightarrow> nat set" where
  "link_alive (LNew p) A = insert p A"
| "link_alive _ A = A"

lemma forest_update:
  assumes "forest t A kids" and "n \<in> A" and "list_of t' n xs" and "set xs \<subseteq> A"
    and "\<And>m. m \<in> A \<Longrightarrow> m \<noteq> n \<Longrightarrow> list_of t m (kids m) \<Longrightarrow> list_of t' m (kids m)"
  shows "forest t' A (kids(n := xs))"
  using assms by (auto simp: forest_def)

lemma construct_other: "list_of t m ys \<Longrightarrow> m \<noteq> p \<Longrightarrow> p \<notin> set ys \<Longrightarrow> list_of (construct p t) m ys"
proof -
  assume l: "list_of t m ys" and m: "m \<noteq> p" and p: "p \<notin> set ys"
  then have s: "seg t m None ys None" by (simp add: list_of_def)
  have "seg (construct p t) m None ys None"
    by (rule seg_frame [OF s]) (use p in \<open>auto simp: construct_def set_defs\<close>)
  then show ?thesis using l m by (simp add: list_of_def construct_def set_defs)
qed

lemma split_at: "w \<in> set xs \<Longrightarrow> distinct xs \<Longrightarrow> \<exists>as bs. xs = as @ w # bs \<and> takeWhile (\<lambda>x. x \<noteq> w) xs = as
    \<and> dropWhile (\<lambda>x. x \<noteq> w) xs = w # bs \<and> remove1 w xs = as @ bs"
proof -
  assume "w \<in> set xs" "distinct xs"
  then obtain as bs where xs: "xs = as @ w # bs" "w \<notin> set as" by (auto simp: in_set_conv_decomp)
  then show ?thesis by (intro exI [of _ as] exI [of _ bs]) (auto simp: takeWhile_append dropWhile_append remove1_append)
qed

lemma link_step:
  assumes f: "forest t A kids" and pre: "link_pre k op t A kids"
  shows "forest (link_run k op t) (link_alive op A) (link_abs op kids)"
proof -
  have l: "n \<in> A \<Longrightarrow> list_of t n (kids n)" "n \<in> A \<Longrightarrow> set (kids n) \<subseteq> A" for n using f by (auto simp: forest_def)
  have d: "n \<in> A \<Longrightarrow> distinct (kids n)" for n using l(1) by (auto simp: list_of_def)
  show ?thesis
  proof (cases op)
    case (LNew p)
    then have p: "p \<notin> A" using pre by simp
    have "list_of (construct p t) n (kids n)" if "n \<in> A" for n
      by (rule construct_other [OF l(1) [OF that]]) (use that p l(2) in auto)
    moreover have "list_of (construct p t) p []" by (simp add: list_of_def construct_def set_defs)
    ultimately show ?thesis using LNew l(2) p by (auto simp: forest_def)
  next
    case (LPrepend n c)
    then show ?thesis using pre subsetD [OF l(2)]
      by (auto intro!: forest_update [OF f] prepend_list [OF l(1)] prepend_other [OF l(1)])
  next
    case (LAppend n c)
    then show ?thesis using pre subsetD [OF l(2)]
      by (auto intro!: forest_update [OF f] append_list [OF l(1)] append_other [OF l(1)])
  next
    case (LInsert n w c)
    show ?thesis
    proof (cases w)
      case None
      have e: "link_insert n None c t = link_append n c t"
      proof (cases "lk_first t n")
        case None
        then show ?thesis by (simp add: link_insert_def link_append_def link_prepend_def set_defs fun_upd_twist Let_def)
      qed (simp add: link_insert_def)
      then show ?thesis using LInsert None pre subsetD [OF l(2)]
        by (auto simp: e intro!: forest_update [OF f] append_list [OF l(1)] append_other [OF l(1)])
    next
      case (Some x)
      then have x: "n \<in> A" "c \<in> A" "lk_parent t c = None" "x \<in> set (kids n)" using pre LInsert by auto
      obtain as bs where s: "kids n = as @ x # bs" "takeWhile (\<lambda>y. y \<noteq> x) (kids n) = as"
        "dropWhile (\<lambda>y. y \<noteq> x) (kids n) = x # bs" using split_at [OF x(4) d [OF x(1)]] by auto
      have "list_of (link_insert n (Some x) c t) n (as @ c # x # bs)"
        by (rule insert_list) (use l(1) [OF x(1)] s(1) x(3) in auto)
      then have "forest (link_insert n (Some x) c t) A (kids(n := as @ c # x # bs))"
        using s(1) x l(2) [OF x(1)] by (intro forest_update [OF f x(1)]) (auto intro: insert_other [OF l(1) [OF x(1)]])
      then show ?thesis using LInsert Some s(2,3) by simp
    qed
  next
    case (LRemoveFirst n)
    then have n: "n \<in> A" "kids n \<noteq> []" using pre by auto
    then obtain x xs where xs: "kids n = x # xs" by (cases "kids n") auto
    have "list_of (link_remove_first n t) n xs" by (rule remove_first_list) (use l(1) [OF n(1)] xs in simp)
    then show ?thesis using LRemoveFirst n l(2) [OF n(1)] xs
      by (auto intro!: forest_update [OF f n(1)] remove_first_other [OF l(1) [OF n(1)]])
  next
    case (LRemoveLast n)
    then have n: "n \<in> A" "kids n \<noteq> []" using pre by auto
    then obtain xs x where xs: "kids n = xs @ [x]" by (cases "kids n" rule: rev_cases) auto
    have "list_of (link_remove_last n t) n xs" by (rule remove_last_list) (use l(1) [OF n(1)] xs in simp)
    then show ?thesis using LRemoveLast n l(2) [OF n(1)] xs
      by (auto intro!: forest_update [OF f n(1)] remove_last_other [OF l(1) [OF n(1)]])
  next
    case (LRemove n w)
    then have n: "n \<in> A" "w \<in> set (kids n)" using pre by auto
    obtain as bs where s: "kids n = as @ w # bs" "remove1 w (kids n) = as @ bs" using split_at [OF n(2) d [OF n(1)]] by auto
    have "list_of (link_remove n w t) n (as @ bs)" by (rule remove_list) (use l(1) [OF n(1)] s(1) in simp)
    then have "forest (link_remove n w t) A (kids(n := as @ bs))"
      using s(1) l(2) [OF n(1)] n by (intro forest_update [OF f n(1)]) (auto intro: remove_other [OF l(1) [OF n(1)]])
    then show ?thesis using LRemove s(2) by simp
  next
    case (LRemoveAll n)
    then show ?thesis using pre
      by (auto intro!: forest_update [OF f] remove_all_list [OF l(1)] remove_all_other [OF l(1)])
  qed
qed

subsection \<open>Walking a list\<close>

text \<open>The loops of the lookups, forward from a node and backward; the fuel is above the length.\<close>

fun walk :: "(nat \<Rightarrow> nat option) \<Rightarrow> nat \<Rightarrow> (nat \<Rightarrow> bool) \<Rightarrow> nat option \<Rightarrow> nat option" where
  "walk step k P None = None"
| "walk step 0 P (Some p) = None"
| "walk step (Suc k) P (Some p) = (if P p then Some p else walk step k P (step p))"

lemma walk_next:
  "seg t n p xs None \<Longrightarrow> length xs \<le> k \<Longrightarrow>
    walk (lk_next t) k P (if xs = [] then None else Some (hd xs)) = find P xs"
proof (induction xs arbitrary: p k)
  case (Cons x xs)
  obtain j where "k = Suc j" using Cons.prems(2) by (cases k) auto
  then show ?case using Cons by (cases xs) auto
qed simp

lemma walk_prev:
  "seg t n None xs s \<Longrightarrow> length xs \<le> k \<Longrightarrow>
    walk (lk_prev t) k P (if xs = [] then None else Some (last xs)) = find P (rev xs)"
proof (induction xs arbitrary: s k rule: rev_induct)
  case (snoc x xs)
  obtain j where k: "k = Suc j" using snoc.prems(2) by (cases k) auto
  have "seg t n None xs (Some x)" "lk_prev t x = (if xs = [] then None else Some (last xs))"
    using snoc.prems(1) by (simp_all add: seg_append)
  with snoc.IH [of "Some x" j] snoc.prems(2) k show ?case by simp
qed simp

text \<open>Every operation on the linked nodes and attributes of a document does to the lists they
  represent what its name says, leaves all other lists alone, and keeps every link consistent,
  although fields the constructors do not set hold arbitrary values.\<close>

theorem links_refine_lists:
  assumes "forest t A kids" and "link_pre k op t A kids"
  shows "forest (link_run k op t) (link_alive op A) (link_abs op kids)"
  by (rule link_step [OF assms])

text \<open>Three nodes are made in memory full of garbage, and one is appended to another.\<close>

theorem links_refine_lists_witness:
  "\<exists>t. forest t {0, 1, 2} ((\<lambda>_. [])(0 := [1]))"
proof -
  define t where "t = \<lparr>lk_first = \<lambda>_. Some 7, lk_last = \<lambda>_. Some 7, lk_parent = \<lambda>_. Some 7, lk_prev = \<lambda>_. Some 7, lk_next = \<lambda>_. Some 7\<rparr>"
  have n: "(\<lambda>_. [])(p := []) = (\<lambda>_. [])" for p :: nat by (simp add: fun_eq_iff)
  have "forest t {} (\<lambda>_. [])" by (simp add: forest_def)
  then have "forest (link_run 9 (LNew 0) t) {0} (\<lambda>_. [])" using link_step [of t "{}" "\<lambda>_. []" 9 "LNew 0"] by (simp add: n)
  then have "forest (link_run 9 (LNew 1) (link_run 9 (LNew 0) t)) {0, 1} (\<lambda>_. [])"
    using link_step [of _ "{0}" "\<lambda>_. []" 9 "LNew 1"] by (simp add: n insert_commute)
  then have f: "forest (link_run 9 (LNew 2) (link_run 9 (LNew 1) (link_run 9 (LNew 0) t))) {0, 1, 2} (\<lambda>_. [])"
    using link_step [of _ "{0, 1}" "\<lambda>_. []" 9 "LNew 2"] by (simp add: n insert_commute)
  define u where "u = link_run 9 (LNew 2) (link_run 9 (LNew 1) (link_run 9 (LNew 0) t))"
  have p: "lk_parent u 1 = None" "lk_parent u 2 = None" "lk_first u 0 = None" by (simp_all add: u_def construct_def set_defs)
  define v where "v = link_run 9 (LAppend 0 1) u"
  have v: "forest v {0, 1, 2} ((\<lambda>_. [])(0 := [1]))"
    using links_refine_lists [OF f [folded u_def], of 9 "LAppend 0 1"] p by (simp add: v_def)
  then show ?thesis by blast
qed

end
