(* ===== verification/XmlDom.thy ===== *)
theory XmlDom
  imports RapidXml XmlLinks
begin

text \<open>
  The document tree of \<^verbatim>\<open>rapidxml.hpp\<close> as linked structs, and the lookups by name that the
  serializer uses.  The parser theory keeps children and attributes as lists; the links of
  \<^verbatim>\<open>XmlLinks\<close> represent these lists, and here every lookup is shown to be the search in the
  list.
\<close>

record xdom =
  xd_type :: "nat \<Rightarrow> node_type"
  xd_name :: "nat \<Rightarrow> string"
  xd_nodes :: links
  xd_attr_name :: "nat \<Rightarrow> string"
  xd_attrs :: links

subsection \<open>Comparing names\<close>

fun compare_chars :: "bool \<Rightarrow> string \<Rightarrow> string \<Rightarrow> bool" where
  "compare_chars case_sensitive (a # p1) (b # p2) =
     (if case_sensitive then (if a \<noteq> b then False else compare_chars case_sensitive p1 p2)
      else if lookup_upcase ! of_char a \<noteq> lookup_upcase ! of_char b then False
      else compare_chars case_sensitive p1 p2)"
| "compare_chars case_sensitive _ _ = True"

definition compare :: "string \<Rightarrow> string \<Rightarrow> bool \<Rightarrow> bool" where
  "compare p1 p2 case_sensitive = (if length p1 \<noteq> length p2 then False else compare_chars case_sensitive p1 p2)"

lemma compare_sensitive [simp]: "compare p1 p2 True \<longleftrightarrow> p1 = p2"
proof -
  have "length p1 = length p2 \<Longrightarrow> compare_chars True p1 p2 \<longleftrightarrow> p1 = p2"
    by (induction p1 p2 rule: list_induct2) auto
  then show ?thesis by (auto simp: compare_def)
qed

definition upcase :: "char \<Rightarrow> nat" where
  "upcase c = lookup_upcase ! of_char c"

lemma compare_insensitive: "compare p1 p2 False \<longleftrightarrow> map upcase p1 = map upcase p2"
proof -
  have "length p1 = length p2 \<Longrightarrow> compare_chars False p1 p2 \<longleftrightarrow> map upcase p1 = map upcase p2"
    by (induction p1 p2 rule: list_induct2) (auto simp: upcase_def)
  then show ?thesis by (auto simp: compare_def dest: map_eq_imp_length_eq)
qed

subsection \<open>Lookups\<close>

text \<open>Without a name the neighbour itself is returned.  The fuel bounds the loops.\<close>

definition lookup :: "(nat \<Rightarrow> string) \<Rightarrow> (nat \<Rightarrow> nat option) \<Rightarrow> nat \<Rightarrow> string option \<Rightarrow> bool \<Rightarrow> nat option \<Rightarrow> nat option" where
  "lookup names step k name case_sensitive start =
     (case name of
        Some nm \<Rightarrow> walk step k (\<lambda>x. compare (names x) nm case_sensitive) start
      | None \<Rightarrow> start)"

definition first_node :: "nat \<Rightarrow> xdom \<Rightarrow> nat \<Rightarrow> string option \<Rightarrow> bool \<Rightarrow> nat option" where
  "first_node k d n name cs = lookup (xd_name d) (lk_next (xd_nodes d)) k name cs (lk_first (xd_nodes d) n)"

definition last_node :: "nat \<Rightarrow> xdom \<Rightarrow> nat \<Rightarrow> string option \<Rightarrow> bool \<Rightarrow> nat option" where
  "last_node k d n name cs = lookup (xd_name d) (lk_prev (xd_nodes d)) k name cs (lk_last (xd_nodes d) n)"

definition next_sibling :: "nat \<Rightarrow> xdom \<Rightarrow> nat \<Rightarrow> string option \<Rightarrow> bool \<Rightarrow> nat option" where
  "next_sibling k d x name cs = lookup (xd_name d) (lk_next (xd_nodes d)) k name cs (lk_next (xd_nodes d) x)"

definition previous_sibling :: "nat \<Rightarrow> xdom \<Rightarrow> nat \<Rightarrow> string option \<Rightarrow> bool \<Rightarrow> nat option" where
  "previous_sibling k d x name cs = lookup (xd_name d) (lk_prev (xd_nodes d)) k name cs (lk_prev (xd_nodes d) x)"

definition first_attribute :: "nat \<Rightarrow> xdom \<Rightarrow> nat \<Rightarrow> string option \<Rightarrow> bool \<Rightarrow> nat option" where
  "first_attribute k d n name cs = lookup (xd_attr_name d) (lk_next (xd_attrs d)) k name cs (lk_first (xd_attrs d) n)"

definition last_attribute :: "nat \<Rightarrow> xdom \<Rightarrow> nat \<Rightarrow> string option \<Rightarrow> bool \<Rightarrow> nat option" where
  "last_attribute k d n name cs =
     (case name of
        Some nm \<Rightarrow> lookup (xd_attr_name d) (lk_prev (xd_attrs d)) k name cs (lk_last (xd_attrs d) n)
      | None \<Rightarrow> if lk_first (xd_attrs d) n \<noteq> None then lk_last (xd_attrs d) n else None)"

definition next_attribute :: "nat \<Rightarrow> xdom \<Rightarrow> nat \<Rightarrow> string option \<Rightarrow> bool \<Rightarrow> nat option" where
  "next_attribute k d x name cs =
     (case name of
        Some nm \<Rightarrow> lookup (xd_attr_name d) (lk_next (xd_attrs d)) k name cs (lk_next (xd_attrs d) x)
      | None \<Rightarrow> if lk_parent (xd_attrs d) x \<noteq> None then lk_next (xd_attrs d) x else None)"

definition previous_attribute :: "nat \<Rightarrow> xdom \<Rightarrow> nat \<Rightarrow> string option \<Rightarrow> bool \<Rightarrow> nat option" where
  "previous_attribute k d x name cs =
     (case name of
        Some nm \<Rightarrow> lookup (xd_attr_name d) (lk_prev (xd_attrs d)) k name cs (lk_prev (xd_attrs d) x)
      | None \<Rightarrow> if lk_parent (xd_attrs d) x \<noteq> None then lk_prev (xd_attrs d) x else None)"

text \<open>The root of the tree a node is in, if it is a document; the fuel is above the depth.\<close>

fun root_of :: "nat \<Rightarrow> links \<Rightarrow> nat \<Rightarrow> nat" where
  "root_of 0 t x = x"
| "root_of (Suc k) t x = (case lk_parent t x of None \<Rightarrow> x | Some p \<Rightarrow> root_of k t p)"

definition document :: "nat \<Rightarrow> xdom \<Rightarrow> nat \<Rightarrow> nat option" where
  "document k d x = (let r = root_of k (xd_nodes d) x in if xd_type d r = node_document then Some r else None)"

text \<open>The loop of \<open>handle_node_group\<close>: the nodes it visits.\<close>

fun group_loop :: "nat \<Rightarrow> xdom \<Rightarrow> string \<Rightarrow> nat option \<Rightarrow> nat list" where
  "group_loop k d nm None = []"
| "group_loop 0 d nm (Some x) = []"
| "group_loop (Suc k) d nm (Some x) = x # group_loop k d nm (next_sibling k d x (Some nm) True)"

subsection \<open>Operations on attributes\<close>

definition prepend_attribute :: "nat \<Rightarrow> nat \<Rightarrow> xdom \<Rightarrow> xdom" where
  "prepend_attribute n a d = d\<lparr>xd_attrs := link_prepend n a (xd_attrs d)\<rparr>"

definition insert_attribute :: "nat \<Rightarrow> nat option \<Rightarrow> nat \<Rightarrow> xdom \<Rightarrow> xdom" where
  "insert_attribute n place a d = d\<lparr>xd_attrs := link_insert n place a (xd_attrs d)\<rparr>"

definition remove_first_attribute :: "nat \<Rightarrow> xdom \<Rightarrow> xdom" where
  "remove_first_attribute n d = d\<lparr>xd_attrs := link_remove_first n (xd_attrs d)\<rparr>"

definition remove_last_attribute :: "nat \<Rightarrow> xdom \<Rightarrow> xdom" where
  "remove_last_attribute n d = d\<lparr>xd_attrs := link_remove_last n (xd_attrs d)\<rparr>"

definition remove_attribute :: "nat \<Rightarrow> nat \<Rightarrow> xdom \<Rightarrow> xdom" where
  "remove_attribute n a d = d\<lparr>xd_attrs := link_remove n a (xd_attrs d)\<rparr>"

definition remove_all_attributes :: "nat \<Rightarrow> nat \<Rightarrow> xdom \<Rightarrow> xdom" where
  "remove_all_attributes k n d = d\<lparr>xd_attrs := link_remove_all k n (xd_attrs d)\<rparr>"

subsection \<open>The lookups search the lists\<close>

lemma lookup_first: "list_of t n xs \<Longrightarrow> length xs \<le> k \<Longrightarrow>
    lookup names (lk_next t) k (Some nm) cs (lk_first t n) = find (\<lambda>x. compare (names x) nm cs) xs"
  using walk_next [of t n None xs k] by (simp add: lookup_def list_of_def)

lemma lookup_last: "list_of t n xs \<Longrightarrow> xs \<noteq> [] \<Longrightarrow> length xs \<le> k \<Longrightarrow>
    lookup names (lk_prev t) k (Some nm) cs (lk_last t n) = find (\<lambda>x. compare (names x) nm cs) (rev xs)"
  using walk_prev [of t n xs None k] by (simp add: lookup_def list_of_def)

lemma lookup_after:
  assumes "list_of t n (as @ x # bs)" and "length bs \<le> k"
  shows "lookup names (lk_next t) k (Some nm) cs (lk_next t x) = find (\<lambda>y. compare (names y) nm cs) bs"
proof -
  have "seg t n (Some x) bs None" "lk_next t x = (if bs = [] then None else Some (hd bs))"
    using assms(1) by (auto simp: list_of_def seg_append split: list.splits)
  then show ?thesis using walk_next [of t n "Some x" bs k] assms(2) by (simp add: lookup_def)
qed

lemma lookup_before:
  assumes "list_of t n (as @ x # bs)" and "length as \<le> k"
  shows "lookup names (lk_prev t) k (Some nm) cs (lk_prev t x) = find (\<lambda>y. compare (names y) nm cs) (rev as)"
proof -
  have "seg t n None as (Some x)" "lk_prev t x = (if as = [] then None else Some (last as))"
    using assms(1) by (auto simp: list_of_def seg_append)
  then show ?thesis using walk_prev [of t n as "Some x" k] assms(2) by (simp add: lookup_def)
qed

lemma group_rest:
  "list_of (xd_nodes d) n (as @ bs) \<Longrightarrow> length bs \<le> k \<Longrightarrow>
    group_loop k d nm (find (\<lambda>x. xd_name d x = nm) bs) = filter (\<lambda>x. xd_name d x = nm) bs"
proof (induction bs arbitrary: as k)
  case (Cons x bs)
  obtain j where k: "k = Suc j" using Cons.prems(2) by (cases k) auto
  show ?case
  proof (cases "xd_name d x = nm")
    case True
    have "next_sibling j d x (Some nm) True = find (\<lambda>x. xd_name d x = nm) bs"
      using lookup_after [OF Cons.prems(1), of j] Cons.prems(2) k by (simp add: next_sibling_def)
    then show ?thesis using True k Cons.IH [of "as @ [x]" j] Cons.prems by simp
  next
    case False
    then show ?thesis using Cons.IH [of "as @ [x]" k] Cons.prems by simp
  qed
qed simp

text \<open>The loops over the links find what a search in the represented list finds: \<open>first_node\<close> and
  \<open>first_attribute\<close> the first of that name, \<open>last_node\<close> the last, and the loop over the nodes of a
  group visits exactly the children of that name, in order.\<close>

theorem dom_lookups:
  assumes "list_of (xd_nodes d) n xs" and "length xs \<le> k" and "list_of (xd_attrs d) n as" and "length as \<le> k"
  shows "first_node k d n (Some nm) True = find (\<lambda>x. xd_name d x = nm) xs
    \<and> first_attribute k d n (Some nm) True = find (\<lambda>a. xd_attr_name d a = nm) as
    \<and> (xs \<noteq> [] \<longrightarrow> last_node k d n (Some nm) True = find (\<lambda>x. xd_name d x = nm) (rev xs))
    \<and> group_loop k d nm (first_node k d n (Some nm) True) = filter (\<lambda>x. xd_name d x = nm) xs"
proof -
  have f: "first_node k d n (Some nm) True = find (\<lambda>x. xd_name d x = nm) xs"
    using lookup_first [OF assms(1,2)] by (simp add: first_node_def)
  have g: "group_loop k d nm (find (\<lambda>x. xd_name d x = nm) xs) = filter (\<lambda>x. xd_name d x = nm) xs"
    by (rule group_rest [where as = "[]"]) (use assms(1,2) in simp_all)
  show ?thesis unfolding f using g lookup_first [OF assms(3,4)] lookup_last [OF assms(1) _ assms(2)]
    by (simp add: first_attribute_def last_node_def)
qed

text \<open>A node with the children a, b, a.\<close>

theorem dom_lookups_witness:
  "\<exists>d. first_node 3 d 0 (Some ''b'') True = Some 2 \<and> last_node 3 d 0 (Some ''a'') True = Some 3
     \<and> group_loop 3 d ''a'' (first_node 3 d 0 (Some ''a'') True) = [1, 3]"
proof -
  define t where "t = \<lparr>lk_first = (\<lambda>_. None)(0 := Some 1), lk_last = \<lambda>_. Some 3, lk_parent = \<lambda>_. Some 0,
    lk_prev = (\<lambda>_. None)(2 := Some 1, 3 := Some 2), lk_next = (\<lambda>_. None)(1 := Some 2, 2 := Some 3)\<rparr>"
  define e where "e = \<lparr>lk_first = \<lambda>_. None, lk_last = \<lambda>_. None, lk_parent = \<lambda>_. None, lk_prev = \<lambda>_. None, lk_next = \<lambda>_. None\<rparr>"
  define d where "d = \<lparr>xd_type = \<lambda>_. node_element, xd_name = \<lambda>x. if x = 2 then ''b'' else ''a'', xd_nodes = t,
    xd_attr_name = \<lambda>_. [], xd_attrs = e\<rparr>"
  have l: "list_of (xd_nodes d) 0 [1, 2, 3]" "list_of (xd_attrs d) 0 []" by (simp_all add: d_def t_def e_def list_of_def)
  have k: "length [1, 2, 3 :: nat] \<le> 3" "length ([] :: nat list) \<le> 3" by simp_all
  have nm: "xd_name d = (\<lambda>x. if x = 2 then ''b'' else ''a'')" by (simp add: d_def)
  have th: "first_node 3 d 0 (Some nm) True = find (\<lambda>x. xd_name d x = nm) [1, 2, 3]"
    "last_node 3 d 0 (Some nm) True = find (\<lambda>x. xd_name d x = nm) (rev [1, 2, 3])"
    "group_loop 3 d nm (first_node 3 d 0 (Some nm) True) = filter (\<lambda>x. xd_name d x = nm) [1, 2, 3]" for nm
    using dom_lookups [OF l(1) k(1) l(2) k(2), of nm] by blast+
  have "first_node 3 d 0 (Some ''b'') True = Some 2" "last_node 3 d 0 (Some ''a'') True = Some 3"
    unfolding th nm by simp_all
  moreover have "group_loop 3 d ''a'' (first_node 3 d 0 (Some ''a'') True) = [1, 3]" unfolding th(3) nm by simp
  ultimately show ?thesis by blast
qed

end
