(* ===== verification/XmlClone.thy ===== *)
theory XmlClone
  imports XmlDom
begin

text \<open>
  The copying of trees: \<open>clone_node\<close> of the memory pool, with the functions that allocate nodes,
  attributes and strings, and the loops of \<^verbatim>\<open>rapidxml_utils.hpp\<close> and
  \<^verbatim>\<open>rapidxml_iterators.hpp\<close> over the lists of a node.  Names and values are pointers into the
  text, as in the code, since the clone shares them: what is copied is the pointer and the length, and a
  length of 0 makes \<open>allocate_attribute\<close> look for a terminator.  Nodes and attributes are numbered in the order
  of their allocation; that their memory is disjoint is \<^verbatim>\<open>XmlPool\<close>.
\<close>

subsection \<open>Pointers to strings\<close>

text \<open>\<open>Null_str\<close> is the static empty string of \<open>nullstr\<close>; a name that is not set is \<open>None\<close>.\<close>

datatype cptr = Null_str | At nat

type_synonym cstr = "cptr \<times> nat"

record xheap =
  xh_text :: string
  xh_type :: "nat \<Rightarrow> node_type"
  xh_name :: "nat \<Rightarrow> cstr option"
  xh_value :: "nat \<Rightarrow> cstr option"
  xh_nodes :: links
  xh_attr_name :: "nat \<Rightarrow> cstr option"
  xh_attr_value :: "nat \<Rightarrow> cstr option"
  xh_attrs :: links
  xh_top :: nat
  xh_attr_top :: nat

text \<open>\<open>name()\<close> and \<open>name_size()\<close>, and the same for the value.\<close>

definition xb_str :: "cstr option \<Rightarrow> cptr" where
  "xb_str m = (case m of Some (p, n) \<Rightarrow> p | None \<Rightarrow> Null_str)"

definition xb_size :: "cstr option \<Rightarrow> nat" where
  "xb_size m = (case m of Some (p, n) \<Rightarrow> n | None \<Rightarrow> 0)"

text \<open>The loop stops at the terminator; \<open>None\<close> is a read past the end of the text.\<close>

fun measure_loop :: "string \<Rightarrow> nat option" where
  "measure_loop [] = None"
| "measure_loop (c # cs) = (if c = CHR 0x00 then Some 0 else map_option Suc (measure_loop cs))"

definition measure_str :: "string \<Rightarrow> cptr \<Rightarrow> nat option" where
  "measure_str text p = (case p of Null_str \<Rightarrow> Some 0 | At i \<Rightarrow> measure_loop (drop i text))"

text \<open>A name given to the functions that allocate: none, or a pointer and a length, where 0 stands for
  the length up to the terminator.\<close>

definition given_str :: "string \<Rightarrow> (cptr \<times> nat) option \<Rightarrow> cstr option option" where
  "given_str text g =
     (case g of
        None \<Rightarrow> Some None
      | Some (p, n) \<Rightarrow> if n > 0 then Some (Some (p, n)) else map_option (\<lambda>k. Some (p, k)) (measure_str text p))"

subsection \<open>Allocation\<close>

definition allocate_node :: "node_type \<Rightarrow> (cptr \<times> nat) option \<Rightarrow> (cptr \<times> nat) option \<Rightarrow> xheap \<Rightarrow> (nat \<times> xheap) option" where
  "allocate_node ty name value h =
     (let r = xh_top h
      in case (given_str (xh_text h) name, given_str (xh_text h) value) of
           (Some nm, Some v) \<Rightarrow>
             Some (r, h\<lparr>xh_type := (xh_type h)(r := ty), xh_name := (xh_name h)(r := nm), xh_value := (xh_value h)(r := v),
               xh_nodes := construct r (xh_nodes h), xh_attrs := set_first r None (xh_attrs h), xh_top := Suc r\<rparr>)
         | _ \<Rightarrow> None)"

definition allocate_attribute :: "(cptr \<times> nat) option \<Rightarrow> (cptr \<times> nat) option \<Rightarrow> xheap \<Rightarrow> (nat \<times> xheap) option" where
  "allocate_attribute name value h =
     (let a = xh_attr_top h
      in case (given_str (xh_text h) name, given_str (xh_text h) value) of
           (Some nm, Some v) \<Rightarrow>
             Some (a, h\<lparr>xh_attr_name := (xh_attr_name h)(a := nm), xh_attr_value := (xh_attr_value h)(a := v),
               xh_attrs := set_parent a None (xh_attrs h), xh_attr_top := Suc a\<rparr>)
         | _ \<Rightarrow> None)"

text \<open>The copy is put behind the text; without a source the new characters are left as they are
  (\<open>fill\<close>).  The end of a source of size 0 is its terminator, which is copied too.\<close>

definition allocate_string :: "(nat \<Rightarrow> char) \<Rightarrow> cptr option \<Rightarrow> nat \<Rightarrow> xheap \<Rightarrow> (cptr \<times> xheap) option" where
  "allocate_string fill source sz h =
     (case (if sz = 0 then Option.bind source (\<lambda>p. map_option Suc (measure_str (xh_text h) p)) else Some sz) of
        None \<Rightarrow> None
      | Some n \<Rightarrow>
          let result = At (length (xh_text h));
              copy = (case source of
                        None \<Rightarrow> Some (map fill [0..<n])
                      | Some Null_str \<Rightarrow> if n \<le> 1 then Some [CHR 0x00] else None
                      | Some (At i) \<Rightarrow> if i + n \<le> length (xh_text h) then Some (take n (drop i (xh_text h))) else None)
          in map_option (\<lambda>s. (result, h\<lparr>xh_text := xh_text h @ s\<rparr>)) copy)"

subsection \<open>Cloning\<close>

definition xh_set_type :: "nat \<Rightarrow> node_type \<Rightarrow> xheap \<Rightarrow> xheap" where
  "xh_set_type r ty h = h\<lparr>xh_type := (xh_type h)(r := ty)\<rparr>"

definition xh_set_name :: "nat \<Rightarrow> cptr \<Rightarrow> nat \<Rightarrow> xheap \<Rightarrow> xheap" where
  "xh_set_name r p n h = h\<lparr>xh_name := (xh_name h)(r := Some (p, n))\<rparr>"

definition xh_set_value :: "nat \<Rightarrow> cptr \<Rightarrow> nat \<Rightarrow> xheap \<Rightarrow> xheap" where
  "xh_set_value r p n h = h\<lparr>xh_value := (xh_value h)(r := Some (p, n))\<rparr>"

definition xh_append_node :: "nat \<Rightarrow> nat \<Rightarrow> xheap \<Rightarrow> xheap" where
  "xh_append_node r c h = h\<lparr>xh_nodes := link_append r c (xh_nodes h)\<rparr>"

definition xh_append_attribute :: "nat \<Rightarrow> nat \<Rightarrow> xheap \<Rightarrow> xheap" where
  "xh_append_attribute r a h = h\<lparr>xh_attrs := link_append r a (xh_attrs h)\<rparr>"

definition xh_next_attribute :: "nat \<Rightarrow> xheap \<Rightarrow> nat option" where
  "xh_next_attribute a h = (if lk_parent (xh_attrs h) a \<noteq> None then lk_next (xh_attrs h) a else None)"

fun clone_attrs :: "nat \<Rightarrow> nat option \<Rightarrow> nat \<Rightarrow> xheap \<Rightarrow> xheap option" where
  "clone_attrs k None r h = Some h"
| "clone_attrs 0 (Some a) r h = None"
| "clone_attrs (Suc k) (Some a) r h =
     (case allocate_attribute (Some (xb_str (xh_attr_name h a), xb_size (xh_attr_name h a)))
             (Some (xb_str (xh_attr_value h a), xb_size (xh_attr_value h a))) h of
        None \<Rightarrow> None
      | Some (b, h) \<Rightarrow>
          let h = xh_append_attribute r b h
          in clone_attrs k (xh_next_attribute a h) r h)"

text \<open>The result is a new node or a given one, which is emptied.\<close>

definition clone_prepare :: "nat \<Rightarrow> nat \<Rightarrow> nat option \<Rightarrow> xheap \<Rightarrow> (nat \<times> xheap) option" where
  "clone_prepare k src result h =
     (case result of
        Some r \<Rightarrow>
          let h = h\<lparr>xh_attrs := link_remove_all k r (xh_attrs h)\<rparr>;
              h = h\<lparr>xh_nodes := link_remove_all k r (xh_nodes h)\<rparr>
          in Some (r, xh_set_type r (xh_type h src) h)
      | None \<Rightarrow> allocate_node (xh_type h src) None None h)"

definition clone_strings :: "nat \<Rightarrow> nat \<Rightarrow> xheap \<Rightarrow> xheap" where
  "clone_strings src r h =
     (let h = xh_set_name r (xb_str (xh_name h src)) (xb_size (xh_name h src)) h
      in xh_set_value r (xb_str (xh_value h src)) (xb_size (xh_value h src)) h)"

text \<open>The fuel bounds the depth of the calls and the turns of the loops.\<close>

fun clone_node :: "nat \<Rightarrow> nat \<Rightarrow> nat option \<Rightarrow> xheap \<Rightarrow> (nat \<times> xheap) option"
and clone_children :: "nat \<Rightarrow> nat option \<Rightarrow> nat \<Rightarrow> xheap \<Rightarrow> xheap option" where
  "clone_node 0 src result h = None"
| "clone_node (Suc k) src result h =
     (case clone_prepare k src result h of
        None \<Rightarrow> None
      | Some (r, h) \<Rightarrow>
          let h = clone_strings src r h
          in case clone_children k (lk_first (xh_nodes h) src) r h of
               None \<Rightarrow> None
             | Some h \<Rightarrow> map_option (Pair r) (clone_attrs k (lk_first (xh_attrs h) src) r h))"
| "clone_children k None r h = Some h"
| "clone_children 0 (Some c) r h = None"
| "clone_children (Suc k) (Some c) r h =
     (case clone_node k c None h of
        None \<Rightarrow> None
      | Some (c', h) \<Rightarrow>
          let h = xh_append_node r c' h
          in clone_children k (lk_next (xh_nodes h) c) r h)"

subsection \<open>The loops over lists\<close>

fun count_loop :: "(nat \<Rightarrow> nat option) \<Rightarrow> nat \<Rightarrow> nat \<Rightarrow> nat option \<Rightarrow> nat" where
  "count_loop step k count None = count"
| "count_loop step 0 count (Some x) = count"
| "count_loop step (Suc k) count (Some x) = count_loop step k (count + 1) (step x)"

definition count_children :: "nat \<Rightarrow> nat \<Rightarrow> xheap \<Rightarrow> nat" where
  "count_children k n h = count_loop (lk_next (xh_nodes h)) k 0 (lk_first (xh_nodes h) n)"

definition count_attributes :: "nat \<Rightarrow> nat \<Rightarrow> xheap \<Rightarrow> nat" where
  "count_attributes k n h = count_loop (\<lambda>a. xh_next_attribute a h) k 0 (lk_first (xh_attrs h) n)"

text \<open>An iterator is the node it is at, or none; moving one that is not at a node, or at one
  without a parent, or back from the first, fails an assertion (\<open>None\<close> outside).\<close>

definition node_iterator_begin :: "nat \<Rightarrow> xheap \<Rightarrow> nat option" where
  "node_iterator_begin n h = lk_first (xh_nodes h) n"

definition node_iterator_inc :: "xheap \<Rightarrow> nat option \<Rightarrow> nat option option" where
  "node_iterator_inc h i = (case i of None \<Rightarrow> None | Some x \<Rightarrow> if lk_parent (xh_nodes h) x = None then None else Some (lk_next (xh_nodes h) x))"

definition node_iterator_dec :: "xheap \<Rightarrow> nat option \<Rightarrow> nat option option" where
  "node_iterator_dec h i =
     (case i of None \<Rightarrow> None | Some x \<Rightarrow>
       if lk_parent (xh_nodes h) x = None \<or> lk_prev (xh_nodes h) x = None then None else Some (lk_prev (xh_nodes h) x))"

definition attribute_iterator_inc :: "xheap \<Rightarrow> nat option \<Rightarrow> nat option option" where
  "attribute_iterator_inc h i = (case i of None \<Rightarrow> None | Some a \<Rightarrow> Some (xh_next_attribute a h))"

definition attribute_iterator_dec :: "xheap \<Rightarrow> nat option \<Rightarrow> nat option option" where
  "attribute_iterator_dec h i =
     (case i of
        None \<Rightarrow> None
      | Some a \<Rightarrow>
          let p = (if lk_parent (xh_attrs h) a \<noteq> None then lk_prev (xh_attrs h) a else None)
          in if p = None then None else Some p)"

subsection \<open>The trees of a heap\<close>

text \<open>A tree is given by the numbers of its nodes and attributes; what they hold is read from the heap.\<close>

datatype ltree = LTree (lt_node: nat) (lt_attrs: "nat list") (lt_kids: "ltree list")

fun holds :: "xheap \<Rightarrow> ltree \<Rightarrow> bool" where
  "holds h (LTree n as kids) \<longleftrightarrow> list_of (xh_attrs h) n as \<and> list_of (xh_nodes h) n (map lt_node kids)
     \<and> (\<forall>t \<in> set kids. holds h t)"

fun nodes_of :: "ltree \<Rightarrow> nat set" where
  "nodes_of (LTree n as kids) = insert n (\<Union>t \<in> set kids. nodes_of t)"

fun attrs_of :: "ltree \<Rightarrow> nat set" where
  "attrs_of (LTree n as kids) = set as \<union> (\<Union>t \<in> set kids. attrs_of t)"

text \<open>What the trees hold: the strings as pointers and lengths, and as text.\<close>

datatype 'a dtree = DTree node_type 'a 'a "('a \<times> 'a) list" "'a dtree list"

definition cstr_of :: "cstr option \<Rightarrow> cstr" where
  "cstr_of m = (xb_str m, xb_size m)"

fun strings :: "xheap \<Rightarrow> ltree \<Rightarrow> cstr dtree" where
  "strings h (LTree n as kids) =
     DTree (xh_type h n) (cstr_of (xh_name h n)) (cstr_of (xh_value h n))
       (map (\<lambda>a. (cstr_of (xh_attr_name h a), cstr_of (xh_attr_value h a))) as) (map (strings h) kids)"

definition chars_of :: "string \<Rightarrow> cstr \<Rightarrow> string" where
  "chars_of text s = (case s of (Null_str, n) \<Rightarrow> [] | (At i, n) \<Rightarrow> take n (drop i text))"

fun xnode_of :: "string \<Rightarrow> cstr dtree \<Rightarrow> xnode" where
  "xnode_of text (DTree ty nm v as kids) =
     XNode ty (chars_of text nm) (chars_of text v) (map (map_prod (chars_of text) (chars_of text)) as) (map (xnode_of text) kids)"

text \<open>What the clone makes of the strings: those of attributes are measured when their length is 0.\<close>

definition recount :: "string \<Rightarrow> cstr \<Rightarrow> cstr" where
  "recount text s = (if snd s > 0 then s else (fst s, the (measure_str text (fst s))))"

fun recounted :: "string \<Rightarrow> cstr dtree \<Rightarrow> cstr dtree" where
  "recounted text (DTree ty nm v as kids) =
     DTree ty nm v (map (map_prod (recount text) (recount text)) as) (map (recounted text) kids)"

text \<open>Attribute strings of length 0 that are followed by a terminator somewhere, so that measuring
  them stays inside the text; and those that are terminated at once.\<close>

definition measurable :: "string \<Rightarrow> cstr \<Rightarrow> bool" where
  "measurable text s \<longleftrightarrow> snd s > 0 \<or> measure_str text (fst s) \<noteq> None"

definition terminated :: "string \<Rightarrow> cstr \<Rightarrow> bool" where
  "terminated text s \<longleftrightarrow> snd s > 0 \<or> measure_str text (fst s) = Some 0"

fun attr_strings :: "cstr dtree \<Rightarrow> cstr list" where
  "attr_strings (DTree ty nm v as kids) = map fst as @ map snd as @ concat (map attr_strings kids)"

lemma recounted_terminated: "(\<forall>s \<in> set (attr_strings d). terminated text s) \<Longrightarrow> recounted text d = d"
proof (induction d)
  case (DTree ty nm v as kids)
  have r: "terminated text s \<Longrightarrow> recount text s = s" for s by (cases s) (auto simp: terminated_def recount_def)
  have "recount text (fst x) = fst x \<and> recount text (snd x) = snd x" if "x \<in> set as" for x
    using DTree.prems r that by auto
  then have "map (map_prod (recount text) (recount text)) as = as" by (intro map_idI) (simp add: map_prod_def case_prod_beta)
  moreover have "map (recounted text) kids = kids"
    using DTree by (intro map_idI) auto
  ultimately show ?case by simp
qed

subsection \<open>What a step leaves alone\<close>

definition below :: "xheap \<Rightarrow> ltree \<Rightarrow> bool" where
  "below h t \<longleftrightarrow> nodes_of t \<subseteq> {..<xh_top h} \<and> attrs_of t \<subseteq> {..<xh_attr_top h}"

text \<open>Every tree that is not about a node of \<open>R\<close> is there as before.\<close>

definition stable :: "nat set \<Rightarrow> xheap \<Rightarrow> xheap \<Rightarrow> bool" where
  "stable R h h' \<longleftrightarrow> xh_top h \<le> xh_top h' \<and> xh_attr_top h \<le> xh_attr_top h' \<and> xh_text h' = xh_text h
     \<and> (\<forall>t. below h t \<longrightarrow> nodes_of t \<inter> R = {} \<longrightarrow> holds h t \<longrightarrow> holds h' t \<and> strings h' t = strings h t)"

lemma stableD:
  assumes "stable R h h'"
  shows "xh_top h \<le> xh_top h'" "xh_attr_top h \<le> xh_attr_top h'" "xh_text h' = xh_text h" "below h t \<Longrightarrow> below h' t"
    "below h t \<Longrightarrow> nodes_of t \<inter> R = {} \<Longrightarrow> holds h t \<Longrightarrow> holds h' t \<and> strings h' t = strings h t"
  using assms by (auto simp: stable_def below_def)

lemma stable_refl [simp]: "stable R h h"
  by (simp add: stable_def)

lemma stable_trans:
  assumes a: "stable R h h1" and b: "stable R h1 h2"
  shows "stable R h h2"
proof -
  have "holds h2 t \<and> strings h2 t = strings h t" if t: "below h t" "nodes_of t \<inter> R = {}" "holds h t" for t
    using stableD(5) [OF a t] stableD(5) [OF b stableD(4) [OF a t(1)] t(2)] by simp
  then show ?thesis using stableD(1-3) [OF a] stableD(1-3) [OF b] by (simp add: stable_def)
qed

lemma stable_mono: "stable R h h' \<Longrightarrow> R \<subseteq> R' \<Longrightarrow> stable R' h h'"
  unfolding stable_def by blast

lemma stable_fresh: "stable {r} h h' \<Longrightarrow> xh_top h \<le> r \<Longrightarrow> stable {} h h'"
  unfolding stable_def below_def by force

lemma tree_frame:
  assumes "holds h t"
    and "\<And>n ys. n \<in> nodes_of t \<Longrightarrow> list_of (xh_nodes h) n ys \<Longrightarrow> set ys \<subseteq> nodes_of t \<Longrightarrow> list_of (xh_nodes h') n ys"
    and "\<And>n ys. n \<in> nodes_of t \<Longrightarrow> list_of (xh_attrs h) n ys \<Longrightarrow> set ys \<subseteq> attrs_of t \<Longrightarrow> list_of (xh_attrs h') n ys"
    and "\<And>n. n \<in> nodes_of t \<Longrightarrow> xh_type h' n = xh_type h n \<and> xh_name h' n = xh_name h n \<and> xh_value h' n = xh_value h n"
    and "\<And>a. a \<in> attrs_of t \<Longrightarrow> xh_attr_name h' a = xh_attr_name h a \<and> xh_attr_value h' a = xh_attr_value h a"
  shows "holds h' t \<and> strings h' t = strings h t"
  using assms
proof (induction t)
  case (LTree n as kids)
  have k: "holds h' u \<and> strings h' u = strings h u" if u: "u \<in> set kids" for u
  proof (rule LTree.IH [OF u])
    show "holds h u" using LTree.prems(1) u by simp
  next
    fix m ys assume m: "m \<in> nodes_of u" "list_of (xh_nodes h) m ys" "set ys \<subseteq> nodes_of u"
    show "list_of (xh_nodes h') m ys" by (rule LTree.prems(2)) (use m u in auto)
  next
    fix m ys assume m: "m \<in> nodes_of u" "list_of (xh_attrs h) m ys" "set ys \<subseteq> attrs_of u"
    show "list_of (xh_attrs h') m ys" by (rule LTree.prems(3)) (use m u in auto)
  next
    fix m assume "m \<in> nodes_of u"
    then show "xh_type h' m = xh_type h m \<and> xh_name h' m = xh_name h m \<and> xh_value h' m = xh_value h m"
      using u by (intro LTree.prems(4)) auto
  next
    fix a assume "a \<in> attrs_of u"
    then show "xh_attr_name h' a = xh_attr_name h a \<and> xh_attr_value h' a = xh_attr_value h a"
      using u by (intro LTree.prems(5)) auto
  qed
  have root: "lt_node u \<in> nodes_of u" for u by (cases u) simp
  have "list_of (xh_nodes h') n (map lt_node kids)" by (rule LTree.prems(2)) (use LTree.prems(1) root in auto)
  moreover have "list_of (xh_attrs h') n as" by (rule LTree.prems(3)) (use LTree.prems(1) in auto)
  ultimately show ?case using k LTree.prems(4) [of n] LTree.prems(5) by simp
qed

lemma stableI:
  assumes "xh_top h \<le> xh_top h'" "xh_attr_top h \<le> xh_attr_top h'" "xh_text h' = xh_text h"
    and "\<And>n ys. n \<notin> R \<Longrightarrow> n < xh_top h \<Longrightarrow> list_of (xh_nodes h) n ys \<Longrightarrow> set ys \<subseteq> {..<xh_top h} \<Longrightarrow> list_of (xh_nodes h') n ys"
    and "\<And>n ys. n \<notin> R \<Longrightarrow> n < xh_top h \<Longrightarrow> list_of (xh_attrs h) n ys \<Longrightarrow> set ys \<subseteq> {..<xh_attr_top h} \<Longrightarrow> list_of (xh_attrs h') n ys"
    and "\<And>n. n \<notin> R \<Longrightarrow> n < xh_top h \<Longrightarrow> xh_type h' n = xh_type h n \<and> xh_name h' n = xh_name h n \<and> xh_value h' n = xh_value h n"
    and "\<And>a. a < xh_attr_top h \<Longrightarrow> xh_attr_name h' a = xh_attr_name h a \<and> xh_attr_value h' a = xh_attr_value h a"
  shows "stable R h h'"
proof -
  have "holds h' t \<and> strings h' t = strings h t" if "below h t" "nodes_of t \<inter> R = {}" "holds h t" for t
  proof (rule tree_frame [OF that(3)])
    fix n ys assume "n \<in> nodes_of t" "list_of (xh_nodes h) n ys" "set ys \<subseteq> nodes_of t"
    then show "list_of (xh_nodes h') n ys" using that by (intro assms(4)) (auto simp: below_def)
  next
    fix n ys assume "n \<in> nodes_of t" "list_of (xh_attrs h) n ys" "set ys \<subseteq> attrs_of t"
    then show "list_of (xh_attrs h') n ys" using that by (intro assms(5)) (auto simp: below_def)
  next
    fix n assume "n \<in> nodes_of t"
    then show "xh_type h' n = xh_type h n \<and> xh_name h' n = xh_name h n \<and> xh_value h' n = xh_value h n"
      using that by (intro assms(6)) (auto simp: below_def)
  next
    fix a assume "a \<in> attrs_of t"
    then show "xh_attr_name h' a = xh_attr_name h a \<and> xh_attr_value h' a = xh_attr_value h a"
      using that by (intro assms(7)) (auto simp: below_def)
  qed
  then show ?thesis using assms(1-3) by (simp add: stable_def)
qed

lemma set_parent_other: "list_of t n ys \<Longrightarrow> a \<notin> set ys \<Longrightarrow> list_of (set_parent a v t) n ys"
  unfolding list_of_def by (auto simp: set_parent_def intro: seg_frame)

lemma set_first_other: "list_of t n ys \<Longrightarrow> r \<noteq> n \<Longrightarrow> list_of (set_first r v t) n ys"
  unfolding list_of_def by (auto simp: set_first_def intro: seg_frame)

lemma stable_append_node:
  assumes "list_of (xh_nodes h) r xs" "lk_parent (xh_nodes h) c = None"
  shows "stable {r} h (xh_append_node r c h)"
  by (rule stableI) (auto simp: xh_append_node_def intro: append_other [OF assms])

lemma stable_append_attribute:
  assumes "list_of (xh_attrs h) r xs" "lk_parent (xh_attrs h) c = None"
  shows "stable {r} h (xh_append_attribute r c h)"
  by (rule stableI) (auto simp: xh_append_attribute_def intro: append_other [OF assms])

lemma stable_clone_strings: "stable {r} h (clone_strings src r h)"
  by (rule stableI) (auto simp: clone_strings_def xh_set_name_def xh_set_value_def)

lemma allocate_attribute_new:
  assumes "measurable (xh_text h) nm" "measurable (xh_text h) v"
  shows "\<exists>h'. allocate_attribute (Some nm) (Some v) h = Some (xh_attr_top h, h') \<and> stable {} h h'
    \<and> lk_parent (xh_attrs h') (xh_attr_top h) = None \<and> xh_attr_top h' = Suc (xh_attr_top h) \<and> xh_top h' = xh_top h
    \<and> cstr_of (xh_attr_name h' (xh_attr_top h)) = recount (xh_text h) nm
    \<and> cstr_of (xh_attr_value h' (xh_attr_top h)) = recount (xh_text h) v \<and> xh_nodes h' = xh_nodes h"
proof -
  have g: "given_str (xh_text h) (Some s) = Some (Some (recount (xh_text h) s))" if "measurable (xh_text h) s" for s
    using that by (cases s) (auto simp: given_str_def measurable_def recount_def)
  let ?a = "xh_attr_top h"
  let ?h = "h\<lparr>xh_attr_name := (xh_attr_name h)(?a := Some (recount (xh_text h) nm)), xh_attr_value := (xh_attr_value h)(?a := Some (recount (xh_text h) v)),
               xh_attrs := set_parent ?a None (xh_attrs h), xh_attr_top := Suc ?a\<rparr>"
  have c: "cstr_of (Some s) = s" for s by (cases s) (simp add: cstr_of_def xb_str_def xb_size_def)
  have "stable {} h ?h" by (rule stableI) (auto intro: set_parent_other)
  then show ?thesis by (simp add: allocate_attribute_def g assms Let_def c set_parent_def)
qed

subsection \<open>Cloning copies the tree\<close>

definition attr_cstr :: "xheap \<Rightarrow> nat \<Rightarrow> cstr \<times> cstr" where
  "attr_cstr h a = (cstr_of (xh_attr_name h a), cstr_of (xh_attr_value h a))"

lemma strings_LTree:
  "strings h (LTree n as kids) = DTree (xh_type h n) (cstr_of (xh_name h n)) (cstr_of (xh_value h n)) (map (attr_cstr h) as) (map (strings h) kids)"
  by (simp add: attr_cstr_def)

lemma list_at:
  "list_of t n (as @ x # bs) \<Longrightarrow> lk_parent t x = Some n \<and> lk_next t x = (if bs = [] then None else Some (hd bs))"
  by (cases bs) (auto simp: list_of_def seg_append)

lemma list_start: "list_of t n xs \<Longrightarrow> lk_first t n = (if xs = [] then None else Some (hd xs))"
  by (simp add: list_of_def)

lemma root_in [simp]: "lt_node t \<in> nodes_of t"
  by (cases t) simp

lemma allocate_cloned:
  assumes "measurable (xh_text h) (fst (attr_cstr h a))" "measurable (xh_text h) (snd (attr_cstr h a))"
  obtains h' where "allocate_attribute (Some (xb_str (xh_attr_name h a), xb_size (xh_attr_name h a)))
      (Some (xb_str (xh_attr_value h a), xb_size (xh_attr_value h a))) h = Some (xh_attr_top h, h')"
    "stable {} h h'" "lk_parent (xh_attrs h') (xh_attr_top h) = None" "xh_attr_top h' = Suc (xh_attr_top h)" "xh_top h' = xh_top h"
    "attr_cstr h' (xh_attr_top h) = map_prod (recount (xh_text h)) (recount (xh_text h)) (attr_cstr h a)" "xh_nodes h' = xh_nodes h"
  using allocate_attribute_new [of h "cstr_of (xh_attr_name h a)" "cstr_of (xh_attr_value h a)"] assms
  by (auto simp: attr_cstr_def cstr_of_def)

lemma append_attribute_tree:
  assumes B: "holds h (LTree r bs new)" "\<forall>u \<in> set new. r \<notin> nodes_of u" "below h (LTree r bs new)"
    and b: "lk_parent (xh_attrs h) b = None"
  shows "holds (xh_append_attribute r b h) (LTree r (bs @ [b]) new)"
    and "strings (xh_append_attribute r b h) (LTree r (bs @ [b]) new) =
      DTree (xh_type h r) (cstr_of (xh_name h r)) (cstr_of (xh_value h r)) (map (attr_cstr h) bs @ [attr_cstr h b]) (map (strings h) new)"
proof -
  have r: "list_of (xh_attrs h) r bs" using B(1) by simp
  have u: "holds (xh_append_attribute r b h) u \<and> strings (xh_append_attribute r b h) u = strings h u" if "u \<in> set new" for u
    by (rule stableD(5) [OF stable_append_attribute [OF r b]]) (use that B in \<open>auto simp: below_def\<close>)
  show "holds (xh_append_attribute r b h) (LTree r (bs @ [b]) new)"
    using B(1) u append_list [OF r b] by (simp add: xh_append_attribute_def)
  show "strings (xh_append_attribute r b h) (LTree r (bs @ [b]) new) =
      DTree (xh_type h r) (cstr_of (xh_name h r)) (cstr_of (xh_value h r)) (map (attr_cstr h) bs @ [attr_cstr h b]) (map (strings h) new)"
    unfolding strings_LTree using u by (simp add: xh_append_attribute_def attr_cstr_def)
qed

lemma append_node_tree:
  assumes B: "holds h (LTree r bs new)" "\<forall>u \<in> set new. r \<notin> nodes_of u" "below h (LTree r bs new)"
    and c: "holds h c" "r \<notin> nodes_of c" "below h c" "lk_parent (xh_nodes h) (lt_node c) = None"
  shows "holds (xh_append_node r (lt_node c) h) (LTree r bs (new @ [c]))"
    and "strings (xh_append_node r (lt_node c) h) (LTree r bs (new @ [c])) =
      DTree (xh_type h r) (cstr_of (xh_name h r)) (cstr_of (xh_value h r)) (map (attr_cstr h) bs) (map (strings h) (new @ [c]))"
proof -
  have r: "list_of (xh_nodes h) r (map lt_node new)" using B(1) by simp
  have u: "holds (xh_append_node r (lt_node c) h) u \<and> strings (xh_append_node r (lt_node c) h) u = strings h u" if "u \<in> set (new @ [c])" for u
    by (rule stableD(5) [OF stable_append_node [OF r c(4)]]) (use that B c in \<open>auto simp: below_def\<close>)
  show "holds (xh_append_node r (lt_node c) h) (LTree r bs (new @ [c]))"
    using B(1) u append_list [OF r c(4)] by (simp add: xh_append_node_def)
  show "strings (xh_append_node r (lt_node c) h) (LTree r bs (new @ [c])) =
      DTree (xh_type h r) (cstr_of (xh_name h r)) (cstr_of (xh_value h r)) (map (attr_cstr h) bs) (map (strings h) (new @ [c]))"
    unfolding strings_LTree using u by (simp add: xh_append_node_def attr_cstr_def)
qed

lemma clone_attrs_ok:
  assumes "holds h (LTree n (dn @ rest) kids)" "below h (LTree n (dn @ rest) kids)" "r \<notin> nodes_of (LTree n (dn @ rest) kids)"
    and "holds h (LTree r bs new)" "below h (LTree r bs new)" "\<forall>u \<in> set new. r \<notin> nodes_of u"
    and "\<forall>a \<in> set rest. measurable (xh_text h) (fst (attr_cstr h a)) \<and> measurable (xh_text h) (snd (attr_cstr h a))" "length rest \<le> k"
  shows "\<exists>cs h'. clone_attrs k (if rest = [] then None else Some (hd rest)) r h = Some h' \<and> holds h' (LTree r (bs @ cs) new)
    \<and> strings h' (LTree r (bs @ cs) new) = DTree (xh_type h r) (cstr_of (xh_name h r)) (cstr_of (xh_value h r))
        (map (attr_cstr h) bs @ map (map_prod (recount (xh_text h)) (recount (xh_text h)) \<circ> attr_cstr h) rest) (map (strings h) new)
    \<and> set cs \<subseteq> {xh_attr_top h..<xh_attr_top h'} \<and> stable {r} h h' \<and> xh_nodes h' = xh_nodes h \<and> xh_top h' = xh_top h"
  using assms
proof (induction rest arbitrary: dn bs h k)
  case Nil
  show ?case using Nil.prems(4) by (intro exI [of _ "[]"]) (simp add: strings_LTree del: strings.simps)
next
  case (Cons a rest)
  let ?S = "LTree n (dn @ a # rest) kids"
  obtain j where k: "k = Suc j" "length rest \<le> j" using Cons.prems(8) by (cases k) auto
  have m: "measurable (xh_text h) (fst (attr_cstr h a))" "measurable (xh_text h) (snd (attr_cstr h a))" using Cons.prems(7) by simp_all
  obtain h1 where h1: "allocate_attribute (Some (xb_str (xh_attr_name h a), xb_size (xh_attr_name h a)))
      (Some (xb_str (xh_attr_value h a), xb_size (xh_attr_value h a))) h = Some (xh_attr_top h, h1)"
    "stable {} h h1" "lk_parent (xh_attrs h1) (xh_attr_top h) = None" "xh_attr_top h1 = Suc (xh_attr_top h)" "xh_top h1 = xh_top h"
    "attr_cstr h1 (xh_attr_top h) = map_prod (recount (xh_text h)) (recount (xh_text h)) (attr_cstr h a)" "xh_nodes h1 = xh_nodes h"
    using allocate_cloned [OF m] by blast
  define b h2 where "b = xh_attr_top h" and "h2 = xh_append_attribute r b h1"
  have B1: "holds h1 (LTree r bs new)" "strings h1 (LTree r bs new) = strings h (LTree r bs new)" "below h1 (LTree r bs new)"
    using stableD(4,5) [OF h1(2) Cons.prems(5)] Cons.prems(4) by simp_all
  have ap: "holds h2 (LTree r (bs @ [b]) new)" "strings h2 (LTree r (bs @ [b]) new) =
      DTree (xh_type h r) (cstr_of (xh_name h r)) (cstr_of (xh_value h r))
        (map (attr_cstr h) bs @ [map_prod (recount (xh_text h)) (recount (xh_text h)) (attr_cstr h a)]) (map (strings h) new)"
    using append_attribute_tree [OF B1(1) Cons.prems(6) B1(3), of b] h1(3,6) B1(2)
    by (simp_all add: h2_def b_def strings_LTree del: strings.simps)
  have "stable {r} h1 h2" unfolding h2_def by (rule stable_append_attribute) (use B1(1) h1(3) in \<open>auto simp: b_def\<close>)
  note s = stable_trans [OF stable_mono [OF h1(2) empty_subsetI] this]
  have S: "holds h2 ?S" "strings h2 ?S = strings h ?S" "below h2 ?S"
    using stableD(4,5) [OF s Cons.prems(2)] Cons.prems(1,3) by auto
  have at: "xh_next_attribute a h2 = (if rest = [] then None else Some (hd rest))"
    using list_at [of "xh_attrs h2" n dn a rest] S(1) by (simp add: xh_next_attribute_def)
  have tops: "xh_attr_top h2 = Suc (xh_attr_top h)" "xh_top h2 = xh_top h" "xh_text h2 = xh_text h" "xh_nodes h2 = xh_nodes h"
    using h1 stableD(3) [OF s] by (simp_all add: h2_def xh_append_attribute_def)
  have astr: "attr_cstr h2 x = attr_cstr h x" if "x \<in> set rest" for x
    using S(2) that by (simp add: strings_LTree del: strings.simps)
  have B2: "below h2 (LTree r (bs @ [b]) new)" using Cons.prems(5) tops by (auto simp: below_def b_def)
  have "\<exists>cs h'. clone_attrs j (if rest = [] then None else Some (hd rest)) r h2 = Some h' \<and> holds h' (LTree r ((bs @ [b]) @ cs) new)
    \<and> strings h' (LTree r ((bs @ [b]) @ cs) new) = DTree (xh_type h2 r) (cstr_of (xh_name h2 r)) (cstr_of (xh_value h2 r))
        (map (attr_cstr h2) (bs @ [b]) @ map (map_prod (recount (xh_text h2)) (recount (xh_text h2)) \<circ> attr_cstr h2) rest) (map (strings h2) new)
    \<and> set cs \<subseteq> {xh_attr_top h2..<xh_attr_top h'} \<and> stable {r} h2 h' \<and> xh_nodes h' = xh_nodes h2 \<and> xh_top h' = xh_top h2"
    by (rule Cons.IH [where dn = "dn @ [a]"])
      (use S Cons.prems(3,6,7) ap(1) B2 k(2) astr tops in \<open>simp_all del: holds.simps nodes_of.simps add: append_assoc\<close>)
  then obtain cs h' where IH: "clone_attrs j (if rest = [] then None else Some (hd rest)) r h2 = Some h'" "holds h' (LTree r ((bs @ [b]) @ cs) new)"
    "strings h' (LTree r ((bs @ [b]) @ cs) new) = DTree (xh_type h2 r) (cstr_of (xh_name h2 r)) (cstr_of (xh_value h2 r))
        (map (attr_cstr h2) (bs @ [b]) @ map (map_prod (recount (xh_text h2)) (recount (xh_text h2)) \<circ> attr_cstr h2) rest) (map (strings h2) new)"
    "set cs \<subseteq> {xh_attr_top h2..<xh_attr_top h'}" "stable {r} h2 h'" "xh_nodes h' = xh_nodes h2" "xh_top h' = xh_top h2" by blast
  have tail: "map (map_prod (recount (xh_text h2)) (recount (xh_text h2)) \<circ> attr_cstr h2) rest = map (map_prod (recount (xh_text h)) (recount (xh_text h)) \<circ> attr_cstr h) rest"
    using astr tops by simp
  have "clone_attrs k (Some a) r h = Some h'" using h1(1) IH(1) at by (simp add: k(1) h2_def b_def Let_def)
  moreover have "strings h' (LTree r (bs @ b # cs) new) = DTree (xh_type h r) (cstr_of (xh_name h r)) (cstr_of (xh_value h r))
        (map (attr_cstr h) bs @ map (map_prod (recount (xh_text h)) (recount (xh_text h)) \<circ> attr_cstr h) (a # rest)) (map (strings h) new)"
    using IH(3) ap(2) unfolding tail by (simp add: strings_LTree del: strings.simps)
  moreover have "stable {r} h h'" by (rule stable_trans [OF s IH(5)])
  ultimately show ?case using IH(2,4,6,7) tops stableD(2) [OF IH(5)]
    by (intro exI [of _ "b # cs"] exI [of _ h']) (auto simp: b_def simp del: strings.simps)
qed

fun clone_fuel :: "ltree \<Rightarrow> nat" where
  "clone_fuel (LTree n as kids) = Suc (length as + sum_list (map (\<lambda>u. Suc (clone_fuel u)) kids))"

definition fresh_tree :: "xheap \<Rightarrow> xheap \<Rightarrow> ltree \<Rightarrow> bool" where
  "fresh_tree h h' t \<longleftrightarrow> nodes_of t \<subseteq> {xh_top h..<xh_top h'} \<and> attrs_of t \<subseteq> {xh_attr_top h..<xh_attr_top h'}"

definition same_parents :: "xheap \<Rightarrow> xheap \<Rightarrow> bool" where
  "same_parents h h' \<longleftrightarrow> (\<forall>x < xh_top h. lk_parent (xh_nodes h') x = lk_parent (xh_nodes h) x)"

definition readable :: "xheap \<Rightarrow> ltree \<Rightarrow> bool" where
  "readable h t \<longleftrightarrow> (\<forall>s \<in> set (attr_strings (strings h t)). measurable (xh_text h) s)"

definition node_claim :: "nat \<Rightarrow> bool" where
  "node_claim k \<longleftrightarrow> (\<forall>t h. below h t \<longrightarrow> holds h t \<longrightarrow> clone_fuel t \<le> k \<longrightarrow> readable h t \<longrightarrow>
     (\<exists>t' h'. clone_node k (lt_node t) None h = Some (lt_node t', h') \<and> holds h' t' \<and> strings h' t' = recounted (xh_text h) (strings h t)
        \<and> fresh_tree h h' t' \<and> lk_parent (xh_nodes h') (lt_node t') = None \<and> stable {} h h' \<and> same_parents h h'))"

definition children_claim :: "nat \<Rightarrow> bool" where
  "children_claim k \<longleftrightarrow> (\<forall>n as dn rest r bs new h.
     holds h (LTree n as (dn @ rest)) \<longrightarrow> below h (LTree n as (dn @ rest)) \<longrightarrow> r \<notin> nodes_of (LTree n as (dn @ rest)) \<longrightarrow>
     holds h (LTree r bs new) \<longrightarrow> below h (LTree r bs new) \<longrightarrow> (\<forall>u \<in> set new. r \<notin> nodes_of u) \<longrightarrow>
     (\<forall>u \<in> set rest. readable h u) \<longrightarrow> sum_list (map (\<lambda>u. Suc (clone_fuel u)) rest) \<le> k \<longrightarrow>
     (\<exists>cs h'. clone_children k (if rest = [] then None else Some (lt_node (hd rest))) r h = Some h' \<and> holds h' (LTree r bs (new @ cs))
        \<and> strings h' (LTree r bs (new @ cs)) = DTree (xh_type h r) (cstr_of (xh_name h r)) (cstr_of (xh_value h r)) (map (attr_cstr h) bs)
            (map (strings h) new @ map (recounted (xh_text h) \<circ> strings h) rest)
        \<and> (\<forall>u \<in> set cs. fresh_tree h h' u) \<and> stable {r} h h' \<and> same_parents h h'))"

lemma readable_stable:
  assumes s: "stable R h h'" and t: "below h t" "nodes_of t \<inter> R = {}" "holds h t" "readable h t"
  shows "readable h' t"
  using t(4) stableD(3) [OF s] stableD(5) [OF s t(1-3)] by (simp add: readable_def)

lemma fresh_not_below: "fresh_tree h h' t \<Longrightarrow> r < xh_top h \<Longrightarrow> r \<notin> nodes_of t"
  by (auto simp: fresh_tree_def)

lemma children_step:
  assumes N: "node_claim k" and C: "children_claim k"
  shows "children_claim (Suc k)"
  unfolding children_claim_def
proof (intro allI impI, goal_cases)
  case (1 n as dn rest r bs new h)
  show ?case
  proof (cases rest)
    case Nil
    then show ?thesis using 1(4) by (intro exI [of _ "[]"] exI [of _ h]) (simp add: strings_LTree same_parents_def del: strings.simps)
  next
    case (Cons u us)
    let ?S = "LTree n as (dn @ rest)" and ?B = "LTree r bs new"
    have u: "holds h u" "below h u" "readable h u" "clone_fuel u \<le> k" "r \<notin> nodes_of u" "r < xh_top h"
      using 1 Cons by (auto simp: below_def)
    obtain t' h1 where t': "clone_node k (lt_node u) None h = Some (lt_node t', h1)" "holds h1 t'"
      "strings h1 t' = recounted (xh_text h) (strings h u)" "fresh_tree h h1 t'" "lk_parent (xh_nodes h1) (lt_node t') = None"
      "stable {} h h1" "same_parents h h1"
      using N u unfolding node_claim_def by blast
    define h2 where "h2 = xh_append_node r (lt_node t') h1"
    have B1: "holds h1 ?B" "strings h1 ?B = strings h ?B" "below h1 ?B" using stableD(4,5) [OF t'(6) 1(5)] 1(4) by simp_all
    have t1: "r \<notin> nodes_of t'" "below h1 t'" using fresh_not_below [OF t'(4) u(6)] t'(4) by (auto simp: fresh_tree_def below_def)
    note ap = append_node_tree [OF B1(1) 1(6) B1(3) t'(2) t1 t'(5), folded h2_def]
    have "stable {r} h1 h2" unfolding h2_def by (rule stable_append_node) (use B1(1) t'(5) in auto)
    note s = stable_trans [OF stable_mono [OF t'(6) empty_subsetI] this]
    have S: "holds h2 ?S" "strings h2 ?S = strings h ?S" "below h2 ?S" using stableD(4,5) [OF s 1(2)] 1(1,3) by auto
    have tops: "xh_text h2 = xh_text h" "xh_top h2 = xh_top h1" "xh_attr_top h2 = xh_attr_top h1" "xh_top h \<le> xh_top h1"
      using stableD(3) [OF s] stableD(1) [OF t'(6)] by (simp_all add: h2_def xh_append_node_def)
    have at: "lk_next (xh_nodes h2) (lt_node u) = (if us = [] then None else Some (lt_node (hd us)))"
      using list_at [of "xh_nodes h2" n "map lt_node dn" "lt_node u" "map lt_node us"] S(1) by (simp add: Cons hd_map)
    have kids: "strings h2 x = strings h x" "readable h2 x" if "x \<in> set us" for x
    proof -
      show "strings h2 x = strings h x" using S(2) that by (simp add: Cons strings_LTree del: strings.simps)
      then show "readable h2 x" using 1(7) that tops(1) by (simp add: Cons readable_def)
    qed
    have B2: "below h2 (LTree r bs (new @ [t']))" using B1(3) t1(2) tops by (auto simp: below_def)
    have "\<exists>cs h'. clone_children k (if us = [] then None else Some (lt_node (hd us))) r h2 = Some h' \<and> holds h' (LTree r bs ((new @ [t']) @ cs))
        \<and> strings h' (LTree r bs ((new @ [t']) @ cs)) = DTree (xh_type h2 r) (cstr_of (xh_name h2 r)) (cstr_of (xh_value h2 r)) (map (attr_cstr h2) bs)
            (map (strings h2) (new @ [t']) @ map (recounted (xh_text h2) \<circ> strings h2) us)
        \<and> (\<forall>u \<in> set cs. fresh_tree h2 h' u) \<and> stable {r} h2 h' \<and> same_parents h2 h'"
      by (rule C [unfolded children_claim_def, rule_format, of h2 n as "dn @ [u]" us r bs "new @ [t']"])
        (use S 1(3,6,7,8) ap(1) B2 t1(1) kids in \<open>simp_all add: Cons del: holds.simps nodes_of.simps, auto\<close>)
    then obtain cs h' where IH: "clone_children k (if us = [] then None else Some (lt_node (hd us))) r h2 = Some h'"
        "holds h' (LTree r bs ((new @ [t']) @ cs))"
        "strings h' (LTree r bs ((new @ [t']) @ cs)) = DTree (xh_type h2 r) (cstr_of (xh_name h2 r)) (cstr_of (xh_value h2 r)) (map (attr_cstr h2) bs)
            (map (strings h2) (new @ [t']) @ map (recounted (xh_text h2) \<circ> strings h2) us)"
        "\<forall>u \<in> set cs. fresh_tree h2 h' u" "stable {r} h2 h'" "same_parents h2 h'" by blast
    have "clone_children (Suc k) (Some (lt_node u)) r h = Some h'" using t'(1) at IH(1) by (simp add: h2_def Let_def)
    moreover have "strings h' (LTree r bs (new @ t' # cs)) = DTree (xh_type h r) (cstr_of (xh_name h r)) (cstr_of (xh_value h r)) (map (attr_cstr h) bs)
            (map (strings h) new @ map (recounted (xh_text h) \<circ> strings h) (u # us))"
      using IH(3) ap(2) B1(2) t'(3) kids(1) tops(1) by (simp add: strings_LTree del: strings.simps)
    moreover have "stable {r} h h'" by (rule stable_trans [OF s IH(5)])
    moreover have "\<not> lt_node t' < xh_top h" using t'(4) unfolding fresh_tree_def by (meson atLeastLessThan_iff leD root_in subsetD)
    moreover from this have "same_parents h h'"
      using t'(7) IH(6) tops by (auto simp: same_parents_def h2_def xh_append_node_def link_append_def set_defs split: option.splits)
    moreover have "fresh_tree h h' t'" "\<And>c. c \<in> set cs \<Longrightarrow> fresh_tree h h' c"
      using t'(4) IH(4) tops stableD(1,2) [OF t'(6)] stableD(1,2) [OF IH(5)] unfolding fresh_tree_def by fastforce+
    ultimately show ?thesis using IH(2) Cons by (intro exI [of _ "t' # cs"] exI [of _ h']) (auto simp del: strings.simps holds.simps)
  qed
qed

lemma readable_kid: "readable h (LTree n as kids) \<Longrightarrow> u \<in> set kids \<Longrightarrow> readable h u"
  unfolding readable_def by auto

lemma readable_attr: "readable h (LTree n as kids) \<Longrightarrow> a \<in> set as \<Longrightarrow>
    measurable (xh_text h) (fst (attr_cstr h a)) \<and> measurable (xh_text h) (snd (attr_cstr h a))"
  unfolding readable_def strings_LTree by simp

text \<open>From a prepared node on.\<close>

lemma clone_fill:
  assumes C: "children_claim k"
    and S: "holds h (LTree n as kids)" "below h (LTree n as kids)" "r \<notin> nodes_of (LTree n as kids)" "readable h (LTree n as kids)"
    and B: "holds h (LTree r [] [])" "below h (LTree r [] [])"
    and k: "length as \<le> k" "sum_list (map (\<lambda>u. Suc (clone_fuel u)) kids) \<le> k"
  shows "\<exists>bs cs h'. (case clone_children k (lk_first (xh_nodes (clone_strings n r h)) n) r (clone_strings n r h) of None \<Rightarrow> None
       | Some h \<Rightarrow> map_option (Pair r) (clone_attrs k (lk_first (xh_attrs h) n) r h)) = Some (r, h')
    \<and> holds h' (LTree r bs cs) \<and> strings h' (LTree r bs cs) = DTree (xh_type h r) (cstr_of (xh_name h n)) (cstr_of (xh_value h n))
        (map (map_prod (recount (xh_text h)) (recount (xh_text h)) \<circ> attr_cstr h) as) (map (recounted (xh_text h) \<circ> strings h) kids)
    \<and> (\<forall>u \<in> set cs. fresh_tree h h' u) \<and> set bs \<subseteq> {xh_attr_top h..<xh_attr_top h'} \<and> stable {r} h h' \<and> same_parents h h'"
proof -
  let ?S = "LTree n as kids"
  define h1 where "h1 = clone_strings n r h"
  have s1: "stable {r} h h1" unfolding h1_def by (rule stable_clone_strings)
  have f1: "xh_nodes h1 = xh_nodes h" "xh_attrs h1 = xh_attrs h" "xh_type h1 = xh_type h" "xh_top h1 = xh_top h" "xh_attr_top h1 = xh_attr_top h"
    "cstr_of (xh_name h1 r) = cstr_of (xh_name h n)" "cstr_of (xh_value h1 r) = cstr_of (xh_value h n)" "xh_text h1 = xh_text h"
    by (simp_all add: h1_def clone_strings_def xh_set_name_def xh_set_value_def Let_def cstr_of_def xb_str_def xb_size_def)
  have S1: "holds h1 ?S" "strings h1 ?S = strings h ?S" "below h1 ?S" "readable h1 ?S"
    using stableD(4,5) [OF s1 S(2)] readable_stable [OF s1 S(2) _ S(1) S(4)] S(1,3) by auto
  have B1: "holds h1 (LTree r [] [])" "below h1 (LTree r [] [])" using B f1 by (simp_all add: below_def)
  have "\<exists>cs h'. clone_children k (if kids = [] then None else Some (lt_node (hd kids))) r h1 = Some h' \<and> holds h' (LTree r [] ([] @ cs))
        \<and> strings h' (LTree r [] ([] @ cs)) = DTree (xh_type h1 r) (cstr_of (xh_name h1 r)) (cstr_of (xh_value h1 r)) (map (attr_cstr h1) [])
            (map (strings h1) [] @ map (recounted (xh_text h1) \<circ> strings h1) kids)
        \<and> (\<forall>u \<in> set cs. fresh_tree h1 h' u) \<and> stable {r} h1 h' \<and> same_parents h1 h'"
    by (rule C [unfolded children_claim_def, rule_format, of h1 n as "[]" kids r "[]" "[]"])
      (use S1 S(3) B1 k readable_kid [OF S1(4)] in \<open>simp_all del: holds.simps nodes_of.simps\<close>)
  then obtain cs h2 where h2: "clone_children k (if kids = [] then None else Some (lt_node (hd kids))) r h1 = Some h2" "holds h2 (LTree r [] cs)"
      "strings h2 (LTree r [] cs) = DTree (xh_type h1 r) (cstr_of (xh_name h1 r)) (cstr_of (xh_value h1 r)) [] (map (recounted (xh_text h1) \<circ> strings h1) kids)"
      "\<forall>u \<in> set cs. fresh_tree h1 h2 u" "stable {r} h1 h2" "same_parents h1 h2" by auto
  have S2: "holds h2 ?S" "strings h2 ?S = strings h ?S" "below h2 ?S" "readable h2 ?S"
    using stableD(4,5) [OF h2(5) S1(3)] readable_stable [OF h2(5) S1(3) _ S1(1) S1(4)] S1(1,2) S(3) by auto
  have t2: "xh_text h2 = xh_text h" "xh_top h \<le> xh_top h2" "xh_attr_top h \<le> xh_attr_top h2"
    using stableD(1,2,3) [OF h2(5)] f1 by simp_all
  have r: "r < xh_top h" using B(2) by (simp add: below_def)
  have new: "\<forall>u \<in> set cs. r \<notin> nodes_of u" using h2(4) fresh_not_below r f1(4) by auto
  have B2: "below h2 (LTree r [] cs)" using h2(4) t2 r unfolding below_def fresh_tree_def by fastforce
  have "\<exists>bs h'. clone_attrs k (if as = [] then None else Some (hd as)) r h2 = Some h' \<and> holds h' (LTree r ([] @ bs) cs)
    \<and> strings h' (LTree r ([] @ bs) cs) = DTree (xh_type h2 r) (cstr_of (xh_name h2 r)) (cstr_of (xh_value h2 r))
        (map (attr_cstr h2) [] @ map (map_prod (recount (xh_text h2)) (recount (xh_text h2)) \<circ> attr_cstr h2) as) (map (strings h2) cs)
    \<and> set bs \<subseteq> {xh_attr_top h2..<xh_attr_top h'} \<and> stable {r} h2 h' \<and> xh_nodes h' = xh_nodes h2 \<and> xh_top h' = xh_top h2"
    by (rule clone_attrs_ok [where dn = "[]"])
      (use S2 S(3) h2(2) B2 new k readable_attr [OF S2(4)] in \<open>simp_all del: holds.simps nodes_of.simps\<close>)
  then obtain bs h' where h': "clone_attrs k (if as = [] then None else Some (hd as)) r h2 = Some h'" "holds h' (LTree r bs cs)"
    "strings h' (LTree r bs cs) = DTree (xh_type h2 r) (cstr_of (xh_name h2 r)) (cstr_of (xh_value h2 r))
        (map (map_prod (recount (xh_text h2)) (recount (xh_text h2)) \<circ> attr_cstr h2) as) (map (strings h2) cs)"
    "set bs \<subseteq> {xh_attr_top h2..<xh_attr_top h'}" "stable {r} h2 h'" "xh_nodes h' = xh_nodes h2" "xh_top h' = xh_top h2" by auto
  have first: "lk_first (xh_nodes h1) n = (if kids = [] then None else Some (lt_node (hd kids)))"
    "lk_first (xh_attrs h2) n = (if as = [] then None else Some (hd as))"
    using list_start [of "xh_nodes h1" n "map lt_node kids"] list_start [of "xh_attrs h2" n as] S1(1) S2(1) by (simp_all add: hd_map)
  have astr: "attr_cstr h2 a = attr_cstr h a" if "a \<in> set as" for a
    using S2(2) that by (simp add: strings_LTree del: strings.simps)
  have kstr: "strings h1 u = strings h u" if "u \<in> set kids" for u
    using S1(2) that by (simp add: strings_LTree del: strings.simps)
  have heads: "xh_type h2 r = xh_type h r" "cstr_of (xh_name h2 r) = cstr_of (xh_name h n)" "cstr_of (xh_value h2 r) = cstr_of (xh_value h n)"
    "map (strings h2) cs = map (recounted (xh_text h) \<circ> strings h) kids"
    using h2(3) f1 kstr by (simp_all add: strings_LTree del: strings.simps)
  have "strings h' (LTree r bs cs) = DTree (xh_type h r) (cstr_of (xh_name h n)) (cstr_of (xh_value h n))
        (map (map_prod (recount (xh_text h)) (recount (xh_text h)) \<circ> attr_cstr h) as) (map (recounted (xh_text h) \<circ> strings h) kids)"
    unfolding h'(3) using heads astr t2(1) by simp
  moreover have "stable {r} h h'" by (rule stable_trans [OF s1 stable_trans [OF h2(5) h'(5)]])
  moreover have "same_parents h h'" using h2(6) f1 h'(6) by (simp add: same_parents_def)
  moreover have "\<forall>u \<in> set cs. fresh_tree h h' u" using h2(4) f1 h'(7) stableD(2) [OF h'(5)] unfolding fresh_tree_def by fastforce
  moreover have "set bs \<subseteq> {xh_attr_top h..<xh_attr_top h'}" using h'(4) t2(3) by auto
  moreover have "(case clone_children k (lk_first (xh_nodes h1) n) r h1 of None \<Rightarrow> None
       | Some h \<Rightarrow> map_option (Pair r) (clone_attrs k (lk_first (xh_attrs h) n) r h)) = Some (r, h')"
    using h2(1) h'(1) first by simp
  ultimately show ?thesis using h'(2) unfolding h1_def by blast
qed

text \<open>A node that can be given as the result: not in the source, with well-formed lists.\<close>

definition can_replace :: "nat \<Rightarrow> xheap \<Rightarrow> ltree \<Rightarrow> nat \<Rightarrow> bool" where
  "can_replace k h t r \<longleftrightarrow> r < xh_top h \<and> r \<notin> nodes_of t
     \<and> (\<exists>xs. list_of (xh_nodes h) r xs \<and> length xs < k) \<and> (\<exists>as. list_of (xh_attrs h) r as \<and> length as < k)"

lemma prepare_new:
  obtains h1 where "clone_prepare k src None h = Some (xh_top h, h1)" "stable {} h h1" "holds h1 (LTree (xh_top h) [] [])"
    "below h1 (LTree (xh_top h) [] [])" "xh_type h1 (xh_top h) = xh_type h src" "lk_parent (xh_nodes h1) (xh_top h) = None"
    "same_parents h h1" "xh_top h1 = Suc (xh_top h)"
proof -
  let ?r = "xh_top h"
  let ?h = "h\<lparr>xh_type := (xh_type h)(?r := xh_type h src), xh_name := (xh_name h)(?r := None), xh_value := (xh_value h)(?r := None),
               xh_nodes := construct ?r (xh_nodes h), xh_attrs := set_first ?r None (xh_attrs h), xh_top := Suc ?r\<rparr>"
  have "stable {} h ?h" by (rule stableI) (auto intro: construct_other set_first_other)
  moreover have "clone_prepare k src None h = Some (?r, ?h)"
    by (simp add: clone_prepare_def allocate_node_def given_str_def Let_def)
  moreover have "holds ?h (LTree ?r [] [])" by (simp add: list_of_def construct_def set_defs)
  ultimately show thesis by (intro that [of ?h]) (auto simp: below_def same_parents_def construct_def set_defs)
qed

lemma prepare_given:
  assumes "can_replace (Suc k) h t r"
  obtains h1 where "clone_prepare k src (Some r) h = Some (r, h1)" "stable {r} h h1" "holds h1 (LTree r [] [])"
    "below h1 (LTree r [] [])" "xh_type h1 r = xh_type h src" "xh_top h1 = xh_top h" "xh_attr_top h1 = xh_attr_top h"
proof -
  obtain xs as where l: "list_of (xh_nodes h) r xs" "length xs \<le> k" "list_of (xh_attrs h) r as" "length as \<le> k" "r < xh_top h"
    using assms by (auto simp: can_replace_def less_Suc_eq_le)
  let ?h = "h\<lparr>xh_attrs := link_remove_all k r (xh_attrs h), xh_nodes := link_remove_all k r (xh_nodes h), xh_type := (xh_type h)(r := xh_type h src)\<rparr>"
  have "stable {r} h ?h" by (rule stableI) (auto intro: remove_all_other [OF l(1) _ _ l(2)] remove_all_other [OF l(3) _ _ l(4)])
  moreover have "holds ?h (LTree r [] [])" using remove_all_list [OF l(1,2)] remove_all_list [OF l(3,4)] by simp
  ultimately show thesis using l(5)
    by (intro that [of ?h]) (auto simp: clone_prepare_def xh_set_type_def Let_def below_def)
qed

lemma node_step:
  assumes "children_claim k"
  shows "node_claim (Suc k)"
  unfolding node_claim_def
proof (intro allI impI, goal_cases)
  case (1 t h)
  obtain n as kids where t: "t = LTree n as kids" by (cases t)
  let ?r = "xh_top h"
  obtain h1 where h1: "clone_prepare k n None h = Some (?r, h1)" "stable {} h h1" "holds h1 (LTree ?r [] [])" "below h1 (LTree ?r [] [])"
    "xh_type h1 ?r = xh_type h n" "lk_parent (xh_nodes h1) ?r = None" "same_parents h h1" "xh_top h1 = Suc ?r" by (rule prepare_new)
  have S: "holds h1 t" "strings h1 t = strings h t" "below h1 t" "readable h1 t" "xh_text h1 = xh_text h"
    using stableD(3,4,5) [OF h1(2)] readable_stable [OF h1(2) 1(1) _ 1(2,4)] 1(1,2) by auto
  have r: "?r \<notin> nodes_of t" using 1(1) by (auto simp: below_def)
  from clone_fill [OF assms S(1,3) [unfolded t] r [unfolded t] S(4) [unfolded t] h1(3,4)] 1(3)
  obtain bs cs h' where h': "(case clone_children k (lk_first (xh_nodes (clone_strings n ?r h1)) n) ?r (clone_strings n ?r h1) of None \<Rightarrow> None
       | Some h \<Rightarrow> map_option (Pair ?r) (clone_attrs k (lk_first (xh_attrs h) n) ?r h)) = Some (?r, h')"
    "holds h' (LTree ?r bs cs)" "strings h' (LTree ?r bs cs) = DTree (xh_type h1 ?r) (cstr_of (xh_name h1 n)) (cstr_of (xh_value h1 n))
        (map (map_prod (recount (xh_text h1)) (recount (xh_text h1)) \<circ> attr_cstr h1) as) (map (recounted (xh_text h1) \<circ> strings h1) kids)"
    "\<forall>u \<in> set cs. fresh_tree h1 h' u" "set bs \<subseteq> {xh_attr_top h1..<xh_attr_top h'}" "stable {?r} h1 h'" "same_parents h1 h'"
    using t by auto
  have "strings h' (LTree ?r bs cs) = recounted (xh_text h) (strings h t)"
    unfolding h'(3) S(2) [symmetric] unfolding t strings_LTree using S(2,5) h1(5) by (simp add: t strings_LTree del: strings.simps)
  moreover have "fresh_tree h h' (LTree ?r bs cs)"
    using h'(4,5) h1(8) stableD(1,2) [OF h1(2)] stableD(1) [OF h'(6)] unfolding fresh_tree_def by fastforce
  moreover have "stable {} h h'" by (rule stable_fresh [OF stable_trans [OF stable_mono [OF h1(2) empty_subsetI] h'(6)]]) simp
  moreover have "same_parents h h'" "lk_parent (xh_nodes h') ?r = None" using h1(6,7,8) h'(7) by (auto simp: same_parents_def)
  moreover have "clone_node (Suc k) (lt_node t) None h = Some (?r, h')" using h'(1) h1(1) by (simp add: t Let_def)
  ultimately show ?case using h'(2) by (intro exI [of _ "LTree ?r bs cs"] exI [of _ h']) (simp del: holds.simps strings.simps)
qed

lemma claims: "node_claim k \<and> children_claim k"
proof (induction k)
  case 0
  have "\<not> clone_fuel t \<le> 0" for t by (cases t) simp
  then have "node_claim 0" unfolding node_claim_def by blast
  moreover have "children_claim 0" unfolding children_claim_def
  proof (intro allI impI, goal_cases)
    case (1 n as dn rest r bs new h)
    then have "rest = []" by (cases rest) auto
    then show ?case using 1(4) by (intro exI [of _ "[]"] exI [of _ h]) (simp add: strings_LTree same_parents_def del: strings.simps)
  qed
  ultimately show ?case ..
next
  case (Suc k)
  then show ?case using node_step children_step by blast
qed

lemma xnode_of_recounted:
  "(\<forall>s \<in> set (attr_strings d). terminated text s) \<Longrightarrow> xnode_of text (recounted text d) = xnode_of text d"
  by (simp add: recounted_terminated)

lemma clone_given:
  assumes t: "holds h t" "below h t" "readable h t" "clone_fuel t \<le> Suc k" and r: "can_replace (Suc k) h t r"
  shows "\<exists>t' h'. clone_node (Suc k) (lt_node t) (Some r) h = Some (lt_node t', h') \<and> lt_node t' = r \<and> holds h' t'
    \<and> strings h' t' = recounted (xh_text h) (strings h t) \<and> nodes_of t' \<subseteq> insert r {xh_top h..<xh_top h'}
    \<and> attrs_of t' \<subseteq> {xh_attr_top h..<xh_attr_top h'} \<and> stable {r} h h'"
proof -
  obtain n as kids where T: "t = LTree n as kids" by (cases t)
  obtain h1 where h1: "clone_prepare k n (Some r) h = Some (r, h1)" "stable {r} h h1" "holds h1 (LTree r [] [])"
    "below h1 (LTree r [] [])" "xh_type h1 r = xh_type h n" "xh_top h1 = xh_top h" "xh_attr_top h1 = xh_attr_top h"
    by (rule prepare_given [OF r])
  have rt: "r \<notin> nodes_of t" using r by (simp add: can_replace_def)
  have S: "holds h1 t" "strings h1 t = strings h t" "below h1 t" "readable h1 t" "xh_text h1 = xh_text h"
    using stableD(3,4,5) [OF h1(2)] readable_stable [OF h1(2) t(2) _ t(1,3)] t(1,2) rt by auto
  have k: "length as \<le> k" "sum_list (map (\<lambda>u. Suc (clone_fuel u)) kids) \<le> k" using t(4) by (simp_all add: T)
  from clone_fill [OF claims [THEN conjunct2] S(1,3) [unfolded T] rt [unfolded T] S(4) [unfolded T] h1(3,4) k]
  obtain bs cs h' where h': "(case clone_children k (lk_first (xh_nodes (clone_strings n r h1)) n) r (clone_strings n r h1) of None \<Rightarrow> None
       | Some h \<Rightarrow> map_option (Pair r) (clone_attrs k (lk_first (xh_attrs h) n) r h)) = Some (r, h')"
    "holds h' (LTree r bs cs)" "strings h' (LTree r bs cs) = DTree (xh_type h1 r) (cstr_of (xh_name h1 n)) (cstr_of (xh_value h1 n))
        (map (map_prod (recount (xh_text h1)) (recount (xh_text h1)) \<circ> attr_cstr h1) as) (map (recounted (xh_text h1) \<circ> strings h1) kids)"
    "\<forall>u \<in> set cs. fresh_tree h1 h' u" "set bs \<subseteq> {xh_attr_top h1..<xh_attr_top h'}" "stable {r} h1 h'" by blast
  have "strings h' (LTree r bs cs) = recounted (xh_text h) (strings h t)"
    unfolding h'(3) S(2) [symmetric] unfolding T strings_LTree using S(2,5) h1(5) by (simp add: T strings_LTree del: strings.simps)
  moreover have "nodes_of (LTree r bs cs) \<subseteq> insert r {xh_top h..<xh_top h'}" "attrs_of (LTree r bs cs) \<subseteq> {xh_attr_top h..<xh_attr_top h'}"
    using h'(4,5) h1(6,7) unfolding fresh_tree_def by auto
  moreover have "stable {r} h h'" by (rule stable_trans [OF h1(2) h'(6)])
  moreover have "clone_node (Suc k) (lt_node t) (Some r) h = Some (r, h')" using h'(1) h1(1) by (simp add: T Let_def)
  ultimately show ?thesis using h'(2)
    by (intro exI [of _ "LTree r bs cs"] exI [of _ h']) (simp del: holds.simps strings.simps nodes_of.simps attrs_of.simps)
qed

subsection \<open>Strings, counts and iterators\<close>

lemma measure_loop_take: "measure_loop s = Some n \<Longrightarrow> measure_loop (take (Suc n) s @ u) = Some n \<and> Suc n \<le> length s"
  by (induction s arbitrary: n) (auto split: if_splits)

text \<open>A copied string has the length of its source, and no string that was there changes.\<close>

lemma allocate_string_copies:
  assumes "measure_str (xh_text h) (At i) = Some n" "i \<le> length (xh_text h)"
  shows "\<exists>h'. allocate_string fill (Some (At i)) 0 h = Some (At (length (xh_text h)), h')
    \<and> measure_str (xh_text h') (At (length (xh_text h))) = Some n
    \<and> chars_of (xh_text h') (At (length (xh_text h)), n) = chars_of (xh_text h) (At i, n)
    \<and> (\<forall>j m. j + m \<le> length (xh_text h) \<longrightarrow> chars_of (xh_text h') (At j, m) = chars_of (xh_text h) (At j, m))"
proof -
  have m: "measure_loop (take (Suc n) (drop i (xh_text h))) = Some n" "Suc n \<le> length (drop i (xh_text h))"
    using measure_loop_take [of "drop i (xh_text h)" n "[]"] assms(1) by (simp_all add: measure_str_def)
  then show ?thesis using assms by (auto simp: allocate_string_def measure_str_def chars_of_def Let_def)
qed

lemma count_loop_list:
  "seg t n p xs None \<Longrightarrow> length xs \<le> k \<Longrightarrow> (\<And>x. x \<in> set xs \<Longrightarrow> step x = lk_next t x) \<Longrightarrow>
    count_loop step k c (if xs = [] then None else Some (hd xs)) = c + length xs"
proof (induction xs arbitrary: p k c)
  case (Cons x xs)
  obtain j where "k = Suc j" using Cons.prems(2) by (cases k) auto
  moreover have "step x = (if xs = [] then None else Some (hd xs))" using Cons.prems(1) Cons.prems(3) [of x] by (cases xs) auto
  ultimately show ?case using Cons.IH [of "Some x" j "c + 1"] Cons.prems by simp
qed simp

lemma counts:
  assumes "holds h (LTree n as kids)" "length as \<le> k" "length kids \<le> k"
  shows "count_children k n h = length kids" and "count_attributes k n h = length as"
proof -
  have s: "seg (xh_nodes h) n None (map lt_node kids) None" "seg (xh_attrs h) n None as None"
    "lk_first (xh_nodes h) n = (if map lt_node kids = [] then None else Some (hd (map lt_node kids)))"
    "lk_first (xh_attrs h) n = (if as = [] then None else Some (hd as))" using assms(1) by (auto simp: list_of_def)
  show "count_children k n h = length kids"
    unfolding count_children_def s(3) using count_loop_list [OF s(1), of k] assms(3) by simp
  show "count_attributes k n h = length as"
    unfolding count_attributes_def s(4)
    using count_loop_list [OF s(2) assms(2), of "\<lambda>a. xh_next_attribute a h"] seg_parent [OF s(2)] by (simp add: xh_next_attribute_def)
qed

lemma node_iterator_walks:
  assumes "list_of (xh_nodes h) n (as @ x # bs)"
  shows "node_iterator_inc h (Some x) = Some (if bs = [] then None else Some (hd bs))"
    and "node_iterator_dec h (Some x) = (if as = [] then None else Some (Some (last as)))"
    and "node_iterator_begin n h = Some (hd (as @ [x]))"
proof -
  have "lk_prev (xh_nodes h) x = (if as = [] then None else Some (last as))" using assms by (auto simp: list_of_def seg_append)
  then show "node_iterator_inc h (Some x) = Some (if bs = [] then None else Some (hd bs))"
    "node_iterator_dec h (Some x) = (if as = [] then None else Some (Some (last as)))" "node_iterator_begin n h = Some (hd (as @ [x]))"
    using list_at [OF assms] list_start [OF assms] by (auto simp: node_iterator_inc_def node_iterator_dec_def node_iterator_begin_def hd_append)
qed

lemma attribute_iterator_walks:
  assumes "list_of (xh_attrs h) n (as @ x # bs)"
  shows "attribute_iterator_inc h (Some x) = Some (if bs = [] then None else Some (hd bs))"
    and "attribute_iterator_dec h (Some x) = (if as = [] then None else Some (Some (last as)))"
proof -
  have "lk_prev (xh_attrs h) x = (if as = [] then None else Some (last as))" using assms by (auto simp: list_of_def seg_append)
  then show "attribute_iterator_inc h (Some x) = Some (if bs = [] then None else Some (hd bs))"
    "attribute_iterator_dec h (Some x) = (if as = [] then None else Some (Some (last as)))"
    using list_at [OF assms] by (auto simp: attribute_iterator_inc_def attribute_iterator_dec_def xh_next_attribute_def)
qed

subsection \<open>The theorems\<close>

text \<open>An element with an empty and another attribute, as the parser leaves it in a text.\<close>

definition demo_heap :: "string \<Rightarrow> xheap" where
  "demo_heap text = \<lparr>xh_text = text, xh_type = (\<lambda>_. node_element), xh_name = (\<lambda>_. Some (At 1, 1)), xh_value = (\<lambda>_. None),
     xh_nodes = \<lparr>lk_first = \<lambda>_. None, lk_last = \<lambda>_. None, lk_parent = \<lambda>_. None, lk_prev = \<lambda>_. None, lk_next = \<lambda>_. None\<rparr>,
     xh_attr_name = (\<lambda>a. if a = 0 then Some (At 3, 1) else Some (At 8, 1)),
     xh_attr_value = (\<lambda>a. if a = 0 then Some (At 6, 0) else Some (At 11, 1)),
     xh_attrs = \<lparr>lk_first = \<lambda>_. Some 0, lk_last = \<lambda>_. Some 1, lk_parent = \<lambda>_. Some 0, lk_prev = (\<lambda>a. if a = 1 then Some 0 else None),
       lk_next = (\<lambda>a. if a = 0 then Some 1 else None)\<rparr>,
     xh_top = 1, xh_attr_top = 2\<rparr>"

text \<open>The text with and without the terminators that the parser writes.\<close>

definition plain_text :: string where
  "plain_text = ''<a b=\"\" c=\"d\"/>''"

definition terminated_text :: string where
  "terminated_text = plain_text[2 := CHR 0x00, 4 := CHR 0x00, 6 := CHR 0x00, 9 := CHR 0x00, 12 := CHR 0x00]"

lemma demo_heap_tree:
  "holds (demo_heap text) (LTree 0 [0, 1] [])" "below (demo_heap text) (LTree 0 [0, 1] [])" "clone_fuel (LTree 0 [0, 1] []) \<le> 4"
  "strings (demo_heap text) (LTree 0 [0, 1] []) = DTree node_element (At 1, 1) (Null_str, 0) [((At 3, 1), (At 6, 0)), ((At 8, 1), (At 11, 1))] []"
  by (simp_all add: demo_heap_def list_of_def below_def cstr_of_def xb_str_def xb_size_def)

text \<open>C37: \<open>clone_node\<close> ends with a copy of the tree: the same types, the same names and
  values at the same pointers, the same attributes and children in the same order, in nodes and attributes
  that are new but for a given result.  The text and every other tree of the heap, the source among them,
  are as before.  The one difference is in the attribute strings of length 0, which the copy gives the
  length up to the next terminator; so the copy reads the same when each of them is terminated at once.\<close>

theorem clone_node_copies:
  assumes t: "holds h t" "below h t" "readable h t" "clone_fuel t \<le> k"
    and r: "\<And>r. result = Some r \<Longrightarrow> can_replace k h t r"
  shows "\<exists>t' h'. clone_node k (lt_node t) result h = Some (lt_node t', h') \<and> holds h' t'
    \<and> strings h' t' = recounted (xh_text h) (strings h t) \<and> xh_text h' = xh_text h
    \<and> nodes_of t' \<subseteq> {xh_top h..<xh_top h'} \<union> set_option result \<and> attrs_of t' \<subseteq> {xh_attr_top h..<xh_attr_top h'}
    \<and> set_option result \<subseteq> {lt_node t'}
    \<and> (\<forall>u. below h u \<and> nodes_of u \<inter> set_option result = {} \<and> holds h u \<longrightarrow> holds h' u \<and> strings h' u = strings h u)
    \<and> ((\<forall>s \<in> set (attr_strings (strings h t)). terminated (xh_text h) s) \<longrightarrow>
         xnode_of (xh_text h') (strings h' t') = xnode_of (xh_text h) (strings h t))"
proof -
  obtain j where k: "k = Suc j" using t(4) by (cases t; cases k) auto
  have "\<exists>t' h'. clone_node k (lt_node t) result h = Some (lt_node t', h') \<and> holds h' t'
    \<and> strings h' t' = recounted (xh_text h) (strings h t) \<and> nodes_of t' \<subseteq> {xh_top h..<xh_top h'} \<union> set_option result
    \<and> attrs_of t' \<subseteq> {xh_attr_top h..<xh_attr_top h'} \<and> set_option result \<subseteq> {lt_node t'} \<and> stable (set_option result) h h'"
  proof (cases result)
    case None
    then show ?thesis using claims [THEN conjunct1, unfolded node_claim_def, rule_format, OF t(2,1,4,3)] unfolding fresh_tree_def by auto
  next
    case (Some r0)
    then show ?thesis using clone_given [OF t(1,2,3) t(4) [unfolded k] r [OF Some, unfolded k]] unfolding k by fastforce
  qed
  then obtain t' h' where c: "clone_node k (lt_node t) result h = Some (lt_node t', h')" "holds h' t'"
    "strings h' t' = recounted (xh_text h) (strings h t)" "nodes_of t' \<subseteq> {xh_top h..<xh_top h'} \<union> set_option result"
    "attrs_of t' \<subseteq> {xh_attr_top h..<xh_attr_top h'}" "set_option result \<subseteq> {lt_node t'}" "stable (set_option result) h h'" by blast
  show ?thesis
    by (intro exI [of _ t'] exI [of _ h'] conjI) (use c stableD(3,5) [OF c(7)] xnode_of_recounted in auto)
qed

text \<open>The element of a parsed text is cloned, and reads the same.\<close>

theorem clone_node_copies_witness:
  "\<exists>t' h'. clone_node 4 0 None (demo_heap (terminated_text @ [CHR 0x00])) = Some (lt_node t', h') \<and> holds h' t'
     \<and> xnode_of (xh_text h') (strings h' t') = XNode node_element ''a'' '''' [(''b'', ''''), (''c'', ''d'')] []"
proof -
  let ?h = "demo_heap (terminated_text @ [CHR 0x00])" and ?t = "LTree 0 [0, 1] []"
  have chars: "xh_text ?h = terminated_text @ [CHR 0x00]" by (simp add: demo_heap_def)
  have m: "measure_str (xh_text ?h) (At 6) = Some 0" unfolding chars by (simp add: terminated_text_def plain_text_def measure_str_def)
  have "readable ?h ?t" unfolding readable_def demo_heap_tree using m by (simp add: measurable_def)
  from clone_node_copies [OF demo_heap_tree(1,2) this demo_heap_tree(3), of None] obtain t' h' where c:
    "clone_node 4 (lt_node ?t) None ?h = Some (lt_node t', h')" "holds h' t'"
    "(\<forall>s \<in> set (attr_strings (strings ?h ?t)). terminated (xh_text ?h) s) \<longrightarrow>
       xnode_of (xh_text h') (strings h' t') = xnode_of (xh_text ?h) (strings ?h ?t)" by auto
  have "\<forall>s \<in> set (attr_strings (strings ?h ?t)). terminated (xh_text ?h) s"
    unfolding demo_heap_tree using m by (simp add: terminated_def)
  with c(3) have "xnode_of (xh_text h') (strings h' t') = xnode_of (xh_text ?h) (strings ?h ?t)" by blast
  then show ?thesis using c(1,2) unfolding demo_heap_tree chars
    by (intro exI [of _ t'] exI [of _ h']) (simp add: chars_of_def terminated_text_def plain_text_def)
qed

text \<open>Without terminators the copy is not the same.  The parser, told not to write them, leaves an
  element with an empty attribute; its clone ends, and has the rest of the text as the value of that
  attribute.\<close>

theorem clone_reads_on:
  "xml_parse (parse_no_string_terminators OR parse_no_entity_translation) plain_text =
     Inr (XNode node_document [] [] [] [xnode_of plain_text (strings (demo_heap (plain_text @ [CHR 0x00])) (LTree 0 [0, 1] []))])
   \<and> xnode_of plain_text (strings (demo_heap (plain_text @ [CHR 0x00])) (LTree 0 [0, 1] [])) =
       XNode node_element ''a'' '''' [(''b'', ''''), (''c'', ''d'')] []
   \<and> (\<exists>t' h'. clone_node 4 0 None (demo_heap (plain_text @ [CHR 0x00])) = Some (lt_node t', h') \<and> holds h' t'
        \<and> xnode_of (xh_text h') (strings h' t') = XNode node_element ''a'' '''' [(''b'', ''\" c=\"d\"/>''), (''c'', ''d'')] [])"
proof -
  let ?h = "demo_heap (plain_text @ [CHR 0x00])" and ?t = "LTree 0 [0, 1] []"
  have x: "xnode_of plain_text (strings ?h ?t) = XNode node_element ''a'' '''' [(''b'', ''''), (''c'', ''d'')] []"
    unfolding demo_heap_tree by (simp add: chars_of_def plain_text_def)
  have p: "xml_parse (parse_no_string_terminators OR parse_no_entity_translation) plain_text =
     Inr (XNode node_document [] [] [] [XNode node_element ''a'' '''' [(''b'', ''''), (''c'', ''d'')] []])"
    by code_simp
  have chars: "xh_text ?h = plain_text @ [CHR 0x00]" by (simp add: demo_heap_def)
  have m: "measure_str (xh_text ?h) (At 6) = Some 9" unfolding chars by (simp add: plain_text_def measure_str_def)
  have "readable ?h ?t" unfolding readable_def demo_heap_tree using m by (simp add: measurable_def)
  then obtain t' h' where c: "clone_node 4 (lt_node ?t) None ?h = Some (lt_node t', h')" "holds h' t'" "stable {} ?h h'"
    "strings h' t' = recounted (xh_text ?h) (strings ?h ?t)"
    using claims [of 4, THEN conjunct1, unfolded node_claim_def, rule_format, OF demo_heap_tree(2,1,3)] by blast
  have "xnode_of (xh_text h') (strings h' t') = XNode node_element ''a'' '''' [(''b'', ''\" c=\"d\"/>''), (''c'', ''d'')] []"
    unfolding c(4) stableD(3) [OF c(3)] demo_heap_tree chars using m [unfolded chars]
    by (simp add: recount_def) (simp add: chars_of_def plain_text_def)
  then show ?thesis using p x c(1,2) by auto
qed

end
