(* ===== verification/XmlPool.thy ===== *)
theory XmlPool
  imports Prelude
begin

text \<open>
  The memory pool of \<^verbatim>\<open>rapidxml.hpp\<close> that nodes, attributes and strings are allocated from:
  a chain of blocks, the first one static, with everything handed out freed at once by \<open>clear\<close>.
  Addresses are natural numbers.  What \<open>operator new[]\<close> returns is a parameter of an allocation.
\<close>

definition RAPIDXML_STATIC_POOL_SIZE :: nat where "RAPIDXML_STATIC_POOL_SIZE = 64 * 1024"
definition RAPIDXML_DYNAMIC_POOL_SIZE :: nat where "RAPIDXML_DYNAMIC_POOL_SIZE = 64 * 1024"

text \<open>\<open>sizeof(void *)\<close>, also the size of the header of a block.\<close>

definition RAPIDXML_ALIGNMENT :: nat where "RAPIDXML_ALIGNMENT = 8"

text \<open>\<open>mp_previous\<close> is the chain of \<open>previous_begin\<close> in the headers, \<open>mp_static\<close> the address of
  \<open>m_static_memory\<close>.\<close>

record mempool =
  mp_static :: nat
  mp_begin :: nat
  mp_previous :: "nat list"
  mp_ptr :: nat
  mp_end :: nat

definition align :: "nat \<Rightarrow> nat" where
  "align ptr = ptr + and (RAPIDXML_ALIGNMENT - and ptr (RAPIDXML_ALIGNMENT - 1)) (RAPIDXML_ALIGNMENT - 1)"

definition pool_init :: "mempool \<Rightarrow> mempool" where
  "pool_init t = t\<lparr>mp_begin := mp_static t, mp_previous := [], mp_ptr := align (mp_static t),
     mp_end := mp_static t + RAPIDXML_STATIC_POOL_SIZE\<rparr>"

definition pool_size_for :: "nat \<Rightarrow> nat" where
  "pool_size_for n = (if RAPIDXML_DYNAMIC_POOL_SIZE < n then n else RAPIDXML_DYNAMIC_POOL_SIZE)"

definition alloc_size_for :: "nat \<Rightarrow> nat" where
  "alloc_size_for n = RAPIDXML_ALIGNMENT + (2 * RAPIDXML_ALIGNMENT - 2) + pool_size_for n"

definition needs_block :: "nat \<Rightarrow> mempool \<Rightarrow> bool" where
  "needs_block n t \<longleftrightarrow> align (mp_ptr t) + n > mp_end t"

definition allocate_aligned :: "nat \<Rightarrow> nat \<Rightarrow> mempool \<Rightarrow> nat \<times> mempool" where
  "allocate_aligned raw_memory n t =
     (let t = (if needs_block n t
               then t\<lparr>mp_previous := mp_begin t # mp_previous t, mp_begin := raw_memory,
                      mp_ptr := align raw_memory + RAPIDXML_ALIGNMENT, mp_end := raw_memory + alloc_size_for n\<rparr>
               else t);
          result = align (mp_ptr t)
      in (result, t\<lparr>mp_ptr := result + n\<rparr>))"

text \<open>The loop of \<open>clear\<close>: the blocks it frees, from the current one back to the static one.\<close>

fun freed_blocks :: "nat \<Rightarrow> nat \<Rightarrow> nat list \<Rightarrow> nat list" where
  "freed_blocks static start [] = (if start = static then [] else [start])"
| "freed_blocks static start (p # ps) = (if start = static then [] else start # freed_blocks static p ps)"

definition pool_clear :: "mempool \<Rightarrow> nat list \<times> mempool" where
  "pool_clear t = (freed_blocks (mp_static t) (mp_begin t) (mp_previous t), pool_init t)"

subsection \<open>What is handed out\<close>

lemma align_spec: "8 dvd align p \<and> p \<le> align p \<and> align p \<le> p + 7"
proof -
  have m: "and n 7 = n mod 8" for n :: nat using take_bit_eq_mask [of 3 n] by (simp add: take_bit_eq_mod mask_eq_exp_minus_1)
  have a: "align p = p + (8 - p mod 8) mod 8" by (simp add: align_def RAPIDXML_ALIGNMENT_def m)
  define q r where "q = p div 8" and "r = p mod 8"
  have p: "p = 8 * q + r" "r < 8" by (simp_all add: q_def r_def)
  show ?thesis
  proof (cases "r = 0")
    case True
    then show ?thesis unfolding a r_def [symmetric] by (simp add: p(1))
  next
    case False
    then have "(8 - r) mod 8 = 8 - r" by simp
    then have "align p = 8 * (q + 1)" unfolding a r_def [symmetric] using p by simp
    then show ?thesis using p False by simp
  qed
qed

text \<open>Pools with the regions handed out and the blocks owned, as pairs of address and size.  The
  allocator gives memory that overlaps nothing the pool owns.\<close>

definition overlaps :: "nat \<times> nat \<Rightarrow> nat \<times> nat \<Rightarrow> bool" where
  "overlaps a b \<longleftrightarrow> fst a < fst b + snd b \<and> fst b < fst a + snd a"

inductive pool_run :: "mempool \<Rightarrow> (nat \<times> nat) list \<Rightarrow> (nat \<times> nat) list \<Rightarrow> bool" where
  run_init: "pool_run (pool_init t) [] [(mp_static t, RAPIDXML_STATIC_POOL_SIZE)]"
| run_fits: "pool_run t regions blocks \<Longrightarrow> 0 < n \<Longrightarrow> \<not> needs_block n t \<Longrightarrow>
    allocate_aligned raw n t = (p, t') \<Longrightarrow> pool_run t' ((p, n) # regions) blocks"
| run_block: "pool_run t regions blocks \<Longrightarrow> 0 < n \<Longrightarrow> needs_block n t \<Longrightarrow>
    (\<forall>b \<in> set blocks. \<not> overlaps (raw, alloc_size_for n) b) \<Longrightarrow>
    allocate_aligned raw n t = (p, t') \<Longrightarrow>
    pool_run t' ((p, n) # regions) ((raw, alloc_size_for n) # blocks)"

text \<open>The current block is the first one; its part from \<open>m_ptr\<close> on is free.\<close>

definition inside :: "nat \<times> nat \<Rightarrow> nat \<times> nat \<Rightarrow> bool" where
  "inside a b \<longleftrightarrow> fst b \<le> fst a \<and> fst a + snd a \<le> fst b + snd b"

definition pool_ok :: "mempool \<Rightarrow> (nat \<times> nat) list \<Rightarrow> (nat \<times> nat) list \<Rightarrow> bool" where
  "pool_ok t regions blocks \<longleftrightarrow>
     (\<exists>b bs. blocks = b # bs \<and> fst b = mp_begin t \<and> fst b + snd b = mp_end t \<and> mp_begin t \<le> mp_ptr t \<and>
        (\<forall>r \<in> set regions. inside r b \<longrightarrow> fst r + snd r \<le> mp_ptr t))
     \<and> (\<forall>r \<in> set regions. 0 < snd r \<and> 8 dvd fst r \<and> (\<exists>b \<in> set blocks. inside r b))
     \<and> sorted_wrt (\<lambda>a b. \<not> overlaps a b) regions \<and> sorted_wrt (\<lambda>a b. \<not> overlaps a b) blocks"

lemma inside_disjoint: "\<not> overlaps b c \<Longrightarrow> inside r b \<Longrightarrow> inside q c \<Longrightarrow> \<not> overlaps r q"
  by (auto simp: overlaps_def inside_def)

lemma overlaps_sym: "overlaps a b = overlaps b a"
  by (auto simp: overlaps_def)

lemma pool_ok_init: "pool_ok (pool_init t) [] [(mp_static t, RAPIDXML_STATIC_POOL_SIZE)]"
  using align_spec [of "mp_static t"] by (simp add: pool_ok_def pool_init_def)

text \<open>A new region behind everything handed out from the current block.\<close>

lemma pool_ok_region:
  assumes "pool_ok t regions blocks" and "mp_ptr t \<le> p" and "p + n \<le> mp_end t" and "8 dvd p" and "0 < n"
  shows "pool_ok (t\<lparr>mp_ptr := p + n\<rparr>) ((p, n) # regions) blocks"
proof -
  obtain b bs where b: "blocks = b # bs" "fst b = mp_begin t" "fst b + snd b = mp_end t" "mp_begin t \<le> mp_ptr t"
    "\<forall>r \<in> set regions. inside r b \<longrightarrow> fst r + snd r \<le> mp_ptr t"
    and regs: "\<forall>r \<in> set regions. 0 < snd r \<and> 8 dvd fst r \<and> (\<exists>b \<in> set blocks. inside r b)"
    and sw: "sorted_wrt (\<lambda>a b. \<not> overlaps a b) regions" "sorted_wrt (\<lambda>a b. \<not> overlaps a b) blocks"
    using assms(1) unfolding pool_ok_def by blast
  have ins: "inside (p, n) b" using b assms(2,3) by (simp add: inside_def)
  have "\<not> overlaps (p, n) r" if r: "r \<in> set regions" for r
  proof (cases "inside r b")
    case True
    then have "fst r + snd r \<le> p" using b(5) r assms(2) by fastforce
    then show ?thesis by (simp add: overlaps_def)
  next
    case False
    then obtain c where "c \<in> set bs" "inside r c" using regs r b(1) by auto
    moreover have "\<not> overlaps b c" using sw(2) b(1) calculation(1) by simp
    ultimately show ?thesis using inside_disjoint ins by blast
  qed
  moreover have "fst r + snd r \<le> p + n" if "r \<in> set regions" "inside r b" for r
    using b(5) that assms(2) by fastforce
  ultimately show ?thesis using b(1-4) regs sw ins assms(2,4,5) by (auto simp: pool_ok_def)
qed

text \<open>A new block in memory that overlaps none of the old ones.\<close>

lemma pool_ok_block:
  assumes "pool_ok t regions blocks" and "\<forall>b \<in> set blocks. \<not> overlaps (raw, k) b" and "raw \<le> q"
  shows "pool_ok (t\<lparr>mp_previous := ps, mp_begin := raw, mp_ptr := q, mp_end := raw + k\<rparr>) regions ((raw, k) # blocks)"
proof -
  have "\<not> inside r (raw, k)" if r: "r \<in> set regions" for r
  proof
    assume i: "inside r (raw, k)"
    obtain c where c: "c \<in> set blocks" "inside r c" "0 < snd r" using assms(1) r unfolding pool_ok_def by blast
    then have "\<not> overlaps (raw, k) c" using assms(2) by blast
    from inside_disjoint [OF this i c(2)] c(3) show False by (simp add: overlaps_def)
  qed
  then show ?thesis using assms by (auto simp: pool_ok_def)
qed

lemma align_fixed: "8 dvd p \<Longrightarrow> align p = p"
proof -
  assume p: "8 dvd p"
  then have "8 dvd align p - p" using align_spec [of p] by (simp add: dvd_diff_nat)
  moreover have "align p - p < 8" using align_spec [of p] by linarith
  ultimately have "align p - p = 0" by (meson dvd_imp_le not_less zero_less_iff_neq_zero)
  then show ?thesis using align_spec [of p] by linarith
qed

lemma pool_run_ok: "pool_run t regions blocks \<Longrightarrow> pool_ok t regions blocks"
proof (induction rule: pool_run.induct)
  case (run_init t)
  show ?case by (rule pool_ok_init)
next
  case (run_fits t regions blocks n raw p t')
  then have "p = align (mp_ptr t)" "t' = t\<lparr>mp_ptr := p + n\<rparr>" "p + n \<le> mp_end t"
    by (auto simp: allocate_aligned_def Let_def needs_block_def)
  then show ?case using pool_ok_region [OF run_fits.IH, of p n] align_spec [of "mp_ptr t"] run_fits.hyps(2) by simp
next
  case (run_block t regions blocks n raw p t')
  define q where "q = align raw + RAPIDXML_ALIGNMENT"
  define u where "u = t\<lparr>mp_previous := mp_begin t # mp_previous t, mp_begin := raw, mp_ptr := q, mp_end := raw + alloc_size_for n\<rparr>"
  have a: "8 dvd q" "raw \<le> q" "q + n \<le> raw + alloc_size_for n" using align_spec [of raw]
    by (auto simp: q_def RAPIDXML_ALIGNMENT_def alloc_size_for_def pool_size_for_def)
  have p: "p = q" "t' = u\<lparr>mp_ptr := q + n\<rparr>" using run_block.hyps(3,5) align_fixed [OF a(1)]
    by (auto simp: allocate_aligned_def Let_def u_def q_def)
  have "pool_ok u regions ((raw, alloc_size_for n) # blocks)" unfolding u_def
    by (rule pool_ok_block [OF run_block.IH run_block.hyps(4) a(2)])
  from pool_ok_region [OF this, of q n] a p run_block.hyps(2) show ?case by (simp add: u_def)
qed

text \<open>Everything the pool has handed out since the last \<open>clear\<close> is aligned, lies inside a block
  the pool owns, and overlaps nothing else it has handed out, for requests of any size: the worst-case
  padding of a new block is enough for both alignments.\<close>

theorem pool_regions_disjoint:
  assumes "pool_run t regions blocks" and "i \<noteq> j" and "i < length regions" and "j < length regions"
  shows "\<not> overlaps (regions ! i) (regions ! j) \<and> 8 dvd fst (regions ! i)
    \<and> (\<exists>b \<in> set blocks. inside (regions ! i) b)"
  using pool_run_ok [OF assms(1)] assms(2-4) overlaps_sym [of "regions ! i" "regions ! j"]
  by (cases "i < j") (auto simp: pool_ok_def sorted_wrt_iff_nth_less)

theorem pool_regions_disjoint_witness:
  "\<exists>t blocks. pool_run t [(2000016, 70000), (1000, 13)] blocks \<and> \<not> overlaps (2000016, 70000) (1000, 13)"
proof -
  define t where "t = pool_init \<lparr>mp_static = 1000, mp_begin = 0, mp_previous = [], mp_ptr = 0, mp_end = 0\<rparr>"
  have r0: "pool_run t [] [(1000, RAPIDXML_STATIC_POOL_SIZE)]" using run_init [of "\<lparr>mp_static = 1000, mp_begin = 0, mp_previous = [], mp_ptr = 0, mp_end = 0\<rparr>"]
    by (simp add: t_def)
  have t: "mp_ptr t = 1000" "mp_end t = 1000 + 64 * 1024" by (simp_all add: t_def pool_init_def align_fixed RAPIDXML_STATIC_POOL_SIZE_def)
  define u where "u = t\<lparr>mp_ptr := 1013\<rparr>"
  have "\<not> needs_block 13 t" "allocate_aligned 0 13 t = (1000, u)"
    by (simp_all add: needs_block_def allocate_aligned_def t align_fixed u_def)
  from run_fits [OF r0 _ this] have r1: "pool_run u [(1000, 13)] [(1000, RAPIDXML_STATIC_POOL_SIZE)]" by simp
  have a: "align 1013 = 1016" "align 2000001 = 2000008" by (simp_all add: align_def RAPIDXML_ALIGNMENT_def)
  have n: "needs_block 70000 u" using t by (simp add: needs_block_def u_def a)
  obtain v where v: "allocate_aligned 2000001 70000 u = (2000016, v)" using n
    by (simp add: allocate_aligned_def a RAPIDXML_ALIGNMENT_def align_fixed)
  have "pool_run v [(2000016, 70000), (1000, 13)] [(2000001, alloc_size_for 70000), (1000, RAPIDXML_STATIC_POOL_SIZE)]"
    by (rule run_block [OF r1 _ n _ v]) (simp_all add: overlaps_def RAPIDXML_STATIC_POOL_SIZE_def)
  then show ?thesis using pool_regions_disjoint [of v "[(2000016, 70000), (1000, 13)]" _ 0 1] by auto
qed

end
