(* ===== verification/XmlPrint.thy ===== *)
theory XmlPrint
  imports RapidXml_Props
begin

text \<open>
  The printer of \<^verbatim>\<open>rapidxml_print.hpp\<close>, which \<open>XMLSerializer::ToString\<close> calls, and its
  round trip through the parser.  The output iterator is the text written.
\<close>

subsection \<open>Characters and attributes\<close>

definition print_no_indenting :: pflags where "print_no_indenting = 0x1"

definition expand_char :: "char \<Rightarrow> char \<Rightarrow> string" where
  "expand_char noexpand c =
     (if c = noexpand then [c]
      else if c = CHR ''<'' then CHR 0x26 # ''lt;''
      else if c = CHR ''>'' then CHR 0x26 # ''gt;''
      else if c = CHR 0x27 then CHR 0x26 # ''apos;''
      else if c = CHR 0x22 then CHR 0x26 # ''quot;''
      else if c = CHR 0x26 then CHR 0x26 # ''amp;''
      else [c])"

definition copy_and_expand_chars :: "string \<Rightarrow> char \<Rightarrow> string" where
  "copy_and_expand_chars text noexpand = concat (map (expand_char noexpand) text)"

definition print_attribute :: "string \<times> string \<Rightarrow> string" where
  "print_attribute = (\<lambda>(name, value). '' '' @ name @ ''='' @
     (if CHR 0x22 \<in> set value
      then [CHR 0x27] @ copy_and_expand_chars value (CHR 0x22) @ [CHR 0x27]
      else [CHR 0x22] @ copy_and_expand_chars value (CHR 0x27) @ [CHR 0x22]))"

definition print_attribs :: "(string \<times> string) list \<Rightarrow> string" where
  "print_attribs attrs = concat (map print_attribute attrs)"

subsection \<open>Nodes\<close>

definition fill_chars :: "pflags \<Rightarrow> nat \<Rightarrow> string" where
  "fill_chars fl indent = (if has_flag fl print_no_indenting then [] else replicate indent (CHR 0x09))"

definition new_line :: "pflags \<Rightarrow> string" where
  "new_line fl = (if has_flag fl print_no_indenting then [] else [CHR 0x0A])"

definition print_data_node :: "pflags \<Rightarrow> nat \<Rightarrow> xnode \<Rightarrow> string" where
  "print_data_node fl indent node = fill_chars fl indent @ copy_and_expand_chars (xn_value node) (CHR 0x00)"

definition print_cdata_node :: "pflags \<Rightarrow> nat \<Rightarrow> xnode \<Rightarrow> string" where
  "print_cdata_node fl indent node = fill_chars fl indent @ ''<![CDATA['' @ xn_value node @ '']]>''"

definition print_element_node :: "pflags \<Rightarrow> nat \<Rightarrow> string \<Rightarrow> xnode \<Rightarrow> string" where
  "print_element_node fl indent printed_children node =
     fill_chars fl indent @ ''<'' @ xn_name node @ print_attribs (xn_attrs node) @
     (if length (xn_value node) = 0 \<and> xn_children node = [] then ''/>''
      else ''>'' @
        (case xn_children node of
           [] \<Rightarrow> copy_and_expand_chars (xn_value node) (CHR 0x00)
         | child # siblings \<Rightarrow>
             if siblings = [] \<and> xn_type child = node_data
             then copy_and_expand_chars (xn_value child) (CHR 0x00)
             else new_line fl @ printed_children @ fill_chars fl indent) @
        ''</'' @ xn_name node @ ''>'')"

definition print_declaration_node :: "pflags \<Rightarrow> nat \<Rightarrow> xnode \<Rightarrow> string" where
  "print_declaration_node fl indent node = fill_chars fl indent @ ''<?xml'' @ print_attribs (xn_attrs node) @ ''?>''"

definition print_comment_node :: "pflags \<Rightarrow> nat \<Rightarrow> xnode \<Rightarrow> string" where
  "print_comment_node fl indent node = fill_chars fl indent @ ''<!--'' @ xn_value node @ ''-->''"

definition print_doctype_node :: "pflags \<Rightarrow> nat \<Rightarrow> xnode \<Rightarrow> string" where
  "print_doctype_node fl indent node = fill_chars fl indent @ ''<!DOCTYPE '' @ xn_value node @ ''>''"

definition print_pi_node :: "pflags \<Rightarrow> nat \<Rightarrow> xnode \<Rightarrow> string" where
  "print_pi_node fl indent node = fill_chars fl indent @ ''<?'' @ xn_name node @ '' '' @ xn_value node @ ''?>''"

fun print_node :: "pflags \<Rightarrow> nat \<Rightarrow> xnode \<Rightarrow> string" where
  "print_node fl indent (XNode ty name value attrs children) =
     (let node = XNode ty name value attrs children
      in (case ty of
            node_document \<Rightarrow> concat (map (print_node fl indent) children)
          | node_element \<Rightarrow> print_element_node fl indent (concat (map (print_node fl (indent + 1)) children)) node
          | node_data \<Rightarrow> print_data_node fl indent node
          | node_cdata \<Rightarrow> print_cdata_node fl indent node
          | node_declaration \<Rightarrow> print_declaration_node fl indent node
          | node_comment \<Rightarrow> print_comment_node fl indent node
          | node_doctype \<Rightarrow> print_doctype_node fl indent node
          | node_pi \<Rightarrow> print_pi_node fl indent node)) @ new_line fl"

definition xml_print :: "pflags \<Rightarrow> xnode \<Rightarrow> string" where
  "xml_print fl node = print_node fl 0 node"

subsection \<open>Trees that can be read back\<close>

text \<open>Elements and data; names without the characters that end them, no zero characters, data with
  something besides white space, no data after data, and in an element the value of its first data.\<close>

definition wf_attribute :: "string \<times> string \<Rightarrow> bool" where
  "wf_attribute = (\<lambda>(name, value). name \<noteq> [] \<and> list_all attribute_name_pred name \<and> list_all (\<lambda>c. c \<noteq> CHR 0x00) value)"

definition wf_name :: "string \<Rightarrow> bool" where
  "wf_name name \<longleftrightarrow> name \<noteq> [] \<and> hd name \<noteq> CHR ''!'' \<and> list_all node_name_pred name"

definition is_data :: "xnode \<Rightarrow> bool" where
  "is_data x \<longleftrightarrow> xn_type x = node_data"

fun separated :: "xnode list \<Rightarrow> bool" where
  "separated (x # y # xs) \<longleftrightarrow> \<not> (is_data x \<and> is_data y) \<and> separated (y # xs)"
| "separated xs \<longleftrightarrow> True"

definition first_data :: "xnode list \<Rightarrow> string" where
  "first_data xs = (case filter is_data xs of [] \<Rightarrow> [] | x # _ \<Rightarrow> xn_value x)"

fun wf_xml :: "xnode \<Rightarrow> bool" where
  "wf_xml (XNode ty name value attrs children) \<longleftrightarrow>
     (if ty = node_data
      then name = [] \<and> attrs = [] \<and> children = [] \<and> list_all (\<lambda>c. c \<noteq> CHR 0x00) value
        \<and> \<not> list_all whitespace_pred value
      else ty = node_element \<and> wf_name name \<and> list_all wf_attribute attrs \<and> list_all wf_xml children
        \<and> separated children \<and> value = first_data children)"

definition wf_document :: "xnode \<Rightarrow> bool" where
  "wf_document doc \<longleftrightarrow> (\<exists>es. doc = XNode node_document [] [] [] es \<and> list_all wf_xml es \<and> \<not> list_ex is_data es)"

subsection \<open>Reading text back\<close>

lemma skip_pure_expand:
  assumes "\<And>c. pure c \<Longrightarrow> stop c \<and> c \<noteq> CHR 0x26"
  shows "skip_and_expand_character_refs 0 stop pure text = expand 0 stop text"
proof -
  have "xbind (expand 0 stop (dropWhile pure text)) (\<lambda>(dest, rest). Inr (takeWhile pure text @ dest, rest)) = expand 0 stop text"
  proof (induction "text")
    case (Cons c cs)
    show ?case
    proof (cases "pure c")
      case True
      then have "stop c" "c \<noteq> CHR 0x26" using assms by auto
      then show ?thesis using True Cons.IH [symmetric]
        by (cases "expand 0 stop (dropWhile pure cs)") (auto simp: reference_def)
    qed (cases "expand 0 stop (c # cs)"; auto)
  qed simp
  then show ?thesis by (simp add: skip_and_expand_character_refs_def skip_def)
qed

lemma entities:
  "entity fl (''lt;'' @ r) = Some (Inr (''<'', r))" "entity fl (''gt;'' @ r) = Some (Inr (''>'', r))"
  "entity fl (''amp;'' @ r) = Some (Inr ([CHR 0x26], r))" "entity fl (''apos;'' @ r) = Some (Inr ([CHR 0x27], r))"
  "entity fl (''quot;'' @ r) = Some (Inr ([CHR 0x22], r))"
  by (simp_all add: entity_def)

lemma expand_expand_char:
  assumes "stop (CHR 0x26)" and "q \<noteq> CHR 0x26" and "expand_char q c = [c] \<Longrightarrow> stop c"
  shows "expand 0 stop (expand_char q c @ r) = xbind (expand 0 stop r) (\<lambda>(dest, rest). Inr (c # dest, rest))"
  using assms entities [of 0 r] by (auto simp: expand_char_def reference_def)

lemma expand_copied:
  assumes "stop (CHR 0x26)" and "q \<noteq> CHR 0x26" and "\<And>c. c \<in> set v \<Longrightarrow> expand_char q c = [c] \<Longrightarrow> stop c"
    and "\<not> stop (char_at r 0)"
  shows "expand 0 stop (copy_and_expand_chars v q @ r) = Inr (v, r)"
  using assms(3)
proof (induction v)
  case Nil
  then show ?case using assms(4) by (cases r) (auto simp: copy_and_expand_chars_def)
next
  case (Cons c v)
  have "expand 0 stop (copy_and_expand_chars v q @ r) = Inr (v, r)" by (rule Cons.IH) (use Cons.prems in auto)
  moreover have "expand 0 stop (expand_char q c @ copy_and_expand_chars v q @ r) =
      xbind (expand 0 stop (copy_and_expand_chars v q @ r)) (\<lambda>(dest, rest). Inr (c # dest, rest))"
    by (rule expand_expand_char [where stop = stop, OF assms(1,2)]) (use Cons.prems in auto)
  ultimately show ?case by (simp add: copy_and_expand_chars_def)
qed

text \<open>What follows the attributes of an element.\<close>

abbreviation tag_end :: "string \<Rightarrow> bool" where
  "tag_end u \<equiv> char_at u 0 \<in> {CHR ''/'', CHR ''>''}"

lemma takeWhile_app: "list_all p xs \<Longrightarrow> \<not> p (char_at ys 0) \<Longrightarrow> \<not> p (CHR 0x00) \<Longrightarrow>
    takeWhile p (xs @ ys) = xs \<and> dropWhile p (xs @ ys) = ys"
  by (induction xs) (cases ys, auto)

lemma parse_printed_attribute:
  assumes "wf_attribute a" and "print_attribute a = '' '' @ s" and "\<not> attribute_name_pred (char_at u 0)"
  shows "parse_attribute 0 (s @ u) = Inr (a, dropWhile whitespace_pred u)"
proof -
  obtain name v where a: "a = (name, v)" by (cases a)
  define q where "q = (if CHR 0x22 \<in> set v then CHR 0x27 else CHR 0x22)"
  define q' where "q' = (if CHR 0x22 \<in> set v then CHR 0x22 else CHR 0x27)"
  have q: "q \<in> {CHR 0x27, CHR 0x22}" "q' \<noteq> CHR 0x26" "q \<noteq> CHR 0x26" by (auto simp: q_def q'_def)
  have s: "s = name @ ''='' @ [q] @ copy_and_expand_chars v q' @ [q]"
    using assms(2) by (auto simp: a print_attribute_def q_def q'_def)
  obtain n ns where name: "name = n # ns" "list_all attribute_name_pred ns" and v: "\<forall>c \<in> set v. c \<noteq> CHR 0x00"
    using assms(1) by (cases name) (auto simp: a wf_attribute_def list_all_iff)
  have nm: "takeWhile attribute_name_pred (ns @ ''='' @ r) = ns \<and> dropWhile attribute_name_pred (ns @ ''='' @ r) = ''='' @ r" for r
    by (rule takeWhile_app) (use name in \<open>auto simp: attribute_name_chars\<close>)
  have stop: "attribute_value_pred q c" if "c \<in> set v" "expand_char q' c = [c]" for c
    using that v q(1) by (auto simp: attribute_value_chars q_def q'_def expand_char_def split: if_splits)
  have pure: "attribute_value_pure_pred q c \<Longrightarrow> attribute_value_pred q c \<and> c \<noteq> CHR 0x26" for c
    using q(1) by (auto simp: attribute_value_chars)
  have e: "skip_and_expand_character_refs 0 (attribute_value_pred q) (attribute_value_pure_pred q)
      (copy_and_expand_chars v q' @ q # u) = Inr (v, q # u)"
    by (subst skip_pure_expand, erule pure, rule expand_copied) (use q stop in \<open>auto simp: attribute_value_chars\<close>)
  show ?thesis using nm [of "q # copy_and_expand_chars v q' @ q # u"] q e
    by (auto simp: parse_attribute_def s name(1) a skip_def Let_def ws_chars)
qed

lemma attributes_start: "tag_end u \<Longrightarrow> char_at (print_attribs as @ u) 0 \<in> {CHR '' '', CHR ''/'', CHR ''>''}"
  by (cases as) (auto simp: print_attribs_def print_attribute_def split: prod.splits)

fun with_attributes :: "(string \<times> string) list \<Rightarrow> xnode \<Rightarrow> xnode" where
  "with_attributes as (XNode ty n v bs cs) = XNode ty n v (bs @ as) cs"

lemma dropWhile_start: "\<not> p (char_at xs 0) \<Longrightarrow> dropWhile p xs = xs"
  by (cases xs) auto

lemma parse_printed_attributes:
  "list_all wf_attribute as \<Longrightarrow> tag_end u \<Longrightarrow>
    parse_node_attributes 0 (dropWhile whitespace_pred (print_attribs as @ u)) node = Inr (u, with_attributes as node)"
proof (induction as arbitrary: node)
  case Nil
  then have "\<not> whitespace_pred (char_at u 0)" "\<not> attribute_name_pred (char_at u 0)"
    by (auto simp: ws_chars attribute_name_chars)
  then show ?case by (cases node) (simp add: print_attribs_def dropWhile_start parse_node_attributes.simps)
next
  case (Cons a as)
  obtain name v where a: "a = (name, v)" by (cases a)
  obtain s where s: "print_attribute a = '' '' @ s" by (simp add: a print_attribute_def)
  obtain n s' where n: "s = n # s'" "attribute_name_pred n" using Cons.prems(1) s
    by (cases name) (auto simp: a print_attribute_def wf_attribute_def)
  have nw: "\<not> whitespace_pred n" using n(2) by (auto simp: ws_chars attribute_name_chars)
  let ?r = "print_attribs as @ u"
  have "parse_attribute 0 (s @ ?r) = Inr (a, dropWhile whitespace_pred ?r)"
    by (rule parse_printed_attribute [OF _ s])
      (use Cons.prems attributes_start [of u as] in \<open>auto simp: attribute_name_chars\<close>)
  moreover have "dropWhile whitespace_pred (print_attribs (a # as) @ u) = s @ ?r"
    using nw by (simp add: print_attribs_def s n(1) ws_chars)
  ultimately show ?case using Cons n
    by (cases node) (simp add: parse_node_attributes.simps [of 0 "n # s' @ print_attribs as @ u"])
qed

end
