(* ===== verification/XmlRoundtrip.thy ===== *)
theory XmlRoundtrip
  imports XmlPrint
begin

text \<open>
  What \<open>XMLSerializer::ToString\<close> prints without indenting is read back by \<open>parse<0>\<close> as the
  same tree, for every tree of elements and data that XML can express, less the data that is only white
  space, which the parser drops.
\<close>

subsection \<open>Trees and what is read back of them\<close>

text \<open>\<open>wf_tree\<close> is \<open>wf_xml\<close> without its demand that data is more than white space.\<close>

fun wf_tree :: "xnode \<Rightarrow> bool" where
  "wf_tree (XNode ty name value attrs children) \<longleftrightarrow>
     (if ty = node_data
      then name = [] \<and> attrs = [] \<and> children = [] \<and> list_all (\<lambda>c. c \<noteq> CHR 0x00) value
      else ty = node_element \<and> wf_name name \<and> list_all wf_attribute attrs \<and> list_all wf_tree children
        \<and> separated children \<and> value = first_data children)"

definition wf_tree_document :: "xnode \<Rightarrow> bool" where
  "wf_tree_document doc \<longleftrightarrow> (\<exists>es. doc = XNode node_document [] [] [] es \<and> list_all wf_tree es \<and> \<not> list_ex is_data es)"

definition blank_data :: "xnode \<Rightarrow> bool" where
  "blank_data x \<longleftrightarrow> is_data x \<and> list_all whitespace_pred (xn_value x)"

fun drop_blank :: "xnode \<Rightarrow> xnode" where
  "drop_blank (XNode ty name value attrs children) =
     (let cs = map drop_blank (filter (\<lambda>x. \<not> blank_data x) children)
      in XNode ty name (if ty = node_element then first_data cs else value) attrs cs)"

lemma wf_tree_xml: "wf_xml x \<Longrightarrow> wf_tree x \<and> drop_blank x = x"
proof (induction x)
  case (XNode ty n v as cs)
  have "\<not> blank_data y \<and> drop_blank y = y \<and> wf_tree y" if "y \<in> set cs" for y
  proof -
    have w: "wf_xml y" using XNode.prems that by (auto simp: list_all_iff split: if_splits)
    then have "\<not> blank_data y" by (cases y) (auto simp: blank_data_def is_data_def)
    then show ?thesis using XNode.IH [OF that w] by simp
  qed
  then have "filter (\<lambda>x. \<not> blank_data x) cs = cs" "map drop_blank cs = cs" "list_all wf_tree cs"
    by (auto simp: filter_id_conv list_all_iff intro: map_idI)
  then show ?case using XNode.prems by (auto split: if_splits)
qed

lemma drop_blank_data [simp]: "is_data (drop_blank x) = is_data x"
  by (cases x) (simp add: is_data_def Let_def)

subsection \<open>Printing without indenting\<close>

fun flat :: "xnode \<Rightarrow> string" where
  "flat (XNode ty n v as cs) =
     (if ty = node_data then copy_and_expand_chars v (CHR 0x00)
      else ''<'' @ n @ print_attribs as @
        (if cs = [] then ''/>'' else ''>'' @ concat (map flat cs) @ ''</'' @ n @ ''>''))"

lemma no_indenting [simp]: "fill_chars print_no_indenting i = []" "new_line print_no_indenting = []"
  by (simp_all add: fill_chars_def new_line_def has_flag_def print_no_indenting_def)

lemma print_flat: "wf_tree x \<Longrightarrow> print_node print_no_indenting i x = flat x"
proof (induction x arbitrary: i)
  case (XNode ty n v as cs)
  show ?case
  proof (cases "ty = node_data")
    case True
    then show ?thesis by (simp add: print_data_node_def)
  next
    case False
    then have wf: "ty = node_element" "list_all wf_tree cs" "v = first_data cs" using XNode.prems by auto
    have c: "concat (map (print_node print_no_indenting (i + 1)) cs) = concat (map flat cs)"
      using XNode.IH wf(2) by (auto simp: list_all_iff intro!: arg_cong [where f = concat])
    show ?thesis
    proof (cases "\<exists>d. cs = [d] \<and> is_data d")
      case True
      then obtain d where d: "cs = [d]" "xn_type d = node_data" by (auto simp: is_data_def)
      then have "flat d = copy_and_expand_chars (xn_value d) (CHR 0x00)" by (cases d) simp
      then show ?thesis using wf(1) d by (simp add: print_element_node_def)
    next
      case nd: False
      then show ?thesis using wf c by (cases cs) (auto simp: print_element_node_def first_data_def is_data_def)
    qed
  qed
qed

subsection \<open>Data\<close>

lemma data_start:
  "\<not> list_all whitespace_pred v \<Longrightarrow> list_all (\<lambda>c. c \<noteq> CHR 0x00) v \<Longrightarrow>
    text_pred (char_at (dropWhile whitespace_pred (copy_and_expand_chars v (CHR 0x00) @ r)) 0)"
proof (induction v)
  case (Cons c v)
  show ?case
  proof (cases "whitespace_pred c")
    case True
    then have "expand_char (CHR 0x00) c = [c]" by (auto simp: ws_chars expand_char_def)
    then show ?thesis using Cons True by (simp add: copy_and_expand_chars_def)
  next
    case False
    have "\<exists>d ds. expand_char (CHR 0x00) c = d # ds \<and> \<not> whitespace_pred d \<and> text_pred d"
      using Cons.prems(2) False by (auto simp: expand_char_def text_chars ws_chars)
    then show ?thesis by (auto simp: copy_and_expand_chars_def)
  qed
qed simp

definition add_data :: "xnode \<Rightarrow> xnode \<Rightarrow> xnode" where
  "add_data d node = (if xn_value node = [] then set_value (xn_value d) (append_node d node) else append_node d node)"

abbreviation first_char :: "xnode \<Rightarrow> char" where
  "first_char node \<equiv> char_at (xn_value node) 0"

definition value_ok :: "xnode \<Rightarrow> bool" where
  "value_ok node \<longleftrightarrow> xn_value node = [] \<or> char_at (xn_value node) 0 \<noteq> CHR 0x00"

lemma data_value: "wf_tree d \<Longrightarrow> is_data d \<Longrightarrow>
    d = XNode node_data [] (xn_value d) [] [] \<and> flat d = copy_and_expand_chars (xn_value d) (CHR 0x00)
    \<and> list_all (\<lambda>c. c \<noteq> CHR 0x00) (xn_value d) \<and> drop_blank d = d"
  by (cases d) (simp add: is_data_def)

lemma parse_printed_data:
  assumes "wf_tree d" and "is_data d" and "char_at r 0 = CHR ''<''" and "value_ok node"
  shows "parse_and_append_data 0 (first_char node) node t (flat d @ r)
    = Inr (CHR ''<'', r, first_char (add_data d node), add_data d node)"
proof -
  note d = data_value [OF assms(1,2)]
  have v: "c \<noteq> CHR 0x00" if "c \<in> set (xn_value d)" for c using d that by (auto simp: list_all_iff)
  have "skip_and_expand_character_refs 0 text_pred text_pure_no_ws_pred (flat d @ r) = expand 0 text_pred (flat d @ r)"
    by (rule skip_pure_expand) (simp add: text_chars)
  also have "\<dots> = Inr (xn_value d, r)"
    unfolding d [THEN conjunct2, THEN conjunct1]
    by (rule expand_copied) (use v assms(3) in \<open>auto simp: text_chars expand_char_def\<close>)
  finally have e: "skip_and_expand_character_refs 0 text_pred text_pure_no_ws_pred (flat d @ r) = Inr (xn_value d, r)" .
  have n: "XNode node_data [] (xn_value d) [] [] = d" using d by simp
  show ?thesis using e n assms(3,4)
    by (cases node) (auto simp: parse_and_append_data_def trim_end_def add_data_def value_ok_def Let_def)
qed

text \<open>White space before a bracket is passed over.\<close>

lemma blank_passed:
  assumes "list_all whitespace_pred v" and "char_at r 0 = CHR ''<''"
  shows "parse_node_contents n fl a None (v @ r) node = parse_node_contents n fl a None r node"
proof -
  have "snd (skip whitespace_pred (v @ r)) = r" "snd (skip whitespace_pred r) = r"
    using assms by (simp_all add: skip_def dropWhile_append2 list_all_iff dropWhile_start ws_chars)
  then show ?thesis using assms(2) by (cases n) simp_all
qed

lemma blank_printed: "list_all whitespace_pred v \<Longrightarrow> copy_and_expand_chars v (CHR 0x00) = v"
  by (induction v) (auto simp: copy_and_expand_chars_def ws_chars expand_char_def)

lemma after_data_lt: "char_at t 0 = CHR ''<'' \<Longrightarrow>
    parse_node_contents n fl a (Some (CHR ''<'', t)) cs node = parse_node_contents n fl a None t node"
proof (cases n)
  case (Suc k)
  assume t: "char_at t 0 = CHR ''<''"
  then have "snd (skip whitespace_pred t) = t" by (simp add: skip_def dropWhile_start ws_chars)
  then show ?thesis using Suc t by simp
qed simp

subsection \<open>Contents\<close>

definition extend :: "xnode \<Rightarrow> xnode list \<Rightarrow> xnode" where
  "extend node cs = (case node of XNode ty n v as ds \<Rightarrow> XNode ty n (if v = [] then first_data cs else v) as (ds @ cs))"

lemma extend_simps:
  "extend node [] = node"
  "\<not> is_data x \<Longrightarrow> extend (append_node x node) cs = extend node (x # cs)"
  "is_data d \<Longrightarrow> xn_value d \<noteq> [] \<Longrightarrow> extend (add_data d node) cs = extend node (d # cs)"
  by (cases node; simp add: extend_def first_data_def add_data_def)+

lemma value_ok_simps:
  "value_ok (append_node x node) = value_ok node"
  "wf_tree d \<Longrightarrow> is_data d \<Longrightarrow> value_ok node \<Longrightarrow> value_ok (add_data d node)"
proof -
  show "value_ok (append_node x node) = value_ok node" by (cases node) (simp add: value_ok_def)
  assume "wf_tree d" "is_data d" "value_ok node"
  with data_value [of d] show "value_ok (add_data d node)"
    by (cases node; cases "xn_value d") (auto simp: value_ok_def add_data_def)
qed

text \<open>An element is read back from what follows its opening bracket.\<close>

definition reads_back :: "xnode \<Rightarrow> bool" where
  "reads_back x \<longleftrightarrow> (\<forall>n r. length (flat x @ r) \<le> n \<longrightarrow>
     parse_element (parse_node_contents n 0 (CHR 0x00) None) 0 (drop 1 (flat x) @ r) = Inr (Some (drop_blank x), r))"

lemma element_start: "wf_tree x \<Longrightarrow> \<not> is_data x \<Longrightarrow>
    \<exists>c s. flat x = CHR ''<'' # c # s \<and> node_name_pred c \<and> c \<noteq> CHR ''!''"
  by (cases x; cases "xn_name x") (auto simp: is_data_def wf_name_def)

lemma separated_Cons: "separated (x # xs) \<Longrightarrow> separated xs \<and> (is_data x \<longrightarrow> xs = [] \<or> \<not> is_data (hd xs))"
  by (cases xs) auto

lemma contents_start: "list_all wf_tree cs \<Longrightarrow> cs = [] \<or> \<not> is_data (hd cs) \<Longrightarrow>
    char_at (concat (map flat cs) @ ''</'' @ r) 0 = CHR ''<''"
  using element_start [of "hd cs"] by (cases cs) auto

lemma nonempty_data: "wf_tree d \<Longrightarrow> is_data d \<Longrightarrow> \<not> blank_data d \<Longrightarrow> xn_value d \<noteq> [] \<and> flat d \<noteq> []"
  using data_value [of d] by (cases "xn_value d") (auto simp: blank_data_def copy_and_expand_chars_def expand_char_def)

lemma contents_data:
  "snd (skip whitespace_pred cs) = t \<Longrightarrow> text_pred (char_at t 0) \<Longrightarrow> parse_node_contents (Suc k) fl a None cs node =
    xbind (parse_and_append_data fl a node t cs) (\<lambda>(c, u, a, nd). parse_node_contents k fl a (Some (c, u)) cs nd)"
  by (simp add: text_chars)

lemma contents_read:
  assumes "\<And>x. x \<in> set cs \<Longrightarrow> \<not> is_data x \<Longrightarrow> reads_back x" and "list_all wf_tree cs" and "separated cs"
    and "wf_name nm" and "value_ok node" and "length (concat (map flat cs) @ ''</'' @ nm @ ''>'' @ r) < n"
  shows "parse_node_contents n 0 (first_char node) None (concat (map flat cs) @ ''</'' @ nm @ ''>'' @ r) node
    = Inr (r, extend node (map drop_blank (filter (\<lambda>x. \<not> blank_data x) cs)))"
  using assms(1-3,5-6)
proof (induction cs arbitrary: n node)
  case Nil
  then obtain k where k: "n = Suc k" by (cases n) auto
  have s: "skip node_name_pred (nm @ ''>'' @ r) = (nm, ''>'' @ r)" unfolding skip_def prod.inject
    by (rule takeWhile_app) (use assms(4) in \<open>auto simp: wf_name_def node_name_chars\<close>)
  show ?case using s by (simp add: k skip_def [of whitespace_pred] ws_chars extend_simps)
next
  case (Cons x cs)
  let ?r = "concat (map flat cs) @ ''</'' @ nm @ ''>'' @ r"
  define ds where "ds = map drop_blank (filter (\<lambda>x. \<not> blank_data x) cs)"
  have sep: "separated cs" "is_data x \<Longrightarrow> cs = [] \<or> \<not> is_data (hd cs)" using separated_Cons Cons.prems(3) by blast+
  have IH: "value_ok nd \<Longrightarrow> parse_node_contents k 0 (first_char nd) None ?r nd = Inr (r, extend nd ds)" if "length ?r < k" for k nd
    unfolding ds_def by (rule Cons.IH) (use Cons.prems sep that in auto)
  consider (el) "\<not> is_data x" "\<not> blank_data x" | (blank) "is_data x" "blank_data x" | (data) "is_data x" "\<not> blank_data x"
    by (auto simp: blank_data_def)
  then show ?case
  proof cases
    case el
    obtain k where k: "n = Suc k" using Cons.prems(5) by (cases n) auto
    obtain c s where f: "flat x = CHR ''<'' # c # s" "node_name_pred c" "c \<noteq> CHR ''!''"
      using element_start [of x] Cons.prems(2) el by auto
    have l: "length (flat x @ ?r) \<le> k" using Cons.prems(5) k by simp
    have e: "parse_element (parse_node_contents k 0 (CHR 0x00) None) 0 (c # s @ ?r) = Inr (Some (drop_blank x), ?r)"
      using Cons.prems(1) [of x] el l f(1) unfolding reads_back_def by fastforce
    have "parse_node (parse_node_contents k 0 (CHR 0x00) None) 0 (c # s @ ?r) = Inr (Some (drop_blank x), ?r)"
      using e f(2,3) by (auto simp: parse_node_def node_name_chars)
    moreover have "parse_node_contents k 0 (first_char node) None ?r (append_node (drop_blank x) node) = Inr (r, extend (append_node (drop_blank x) node) ds)"
      using IH [of k "append_node (drop_blank x) node"] l f(1) Cons.prems(4) by (cases node) (simp add: value_ok_def)
    ultimately show ?thesis using f el by (simp add: k skip_def ws_chars extend_simps node_name_chars ds_def)
  next
    case blank
    have r0: "char_at ?r 0 = CHR ''<''" using contents_start [of cs "nm @ ''>'' @ r"] Cons.prems(2) sep(2) blank by simp
    have v: "list_all whitespace_pred (xn_value x)" "flat x = xn_value x"
      using blank data_value [of x] Cons.prems(2) blank_printed [of "xn_value x"] by (simp_all add: blank_data_def)
    have "parse_node_contents n 0 (first_char node) None (xn_value x @ ?r) node = Inr (r, extend node ds)"
      unfolding blank_passed [OF v(1) r0] by (rule IH) (use Cons.prems(4,5) in simp_all)
    then show ?thesis using blank v(2) by (simp add: ds_def)
  next
    case data
    note d = data_value [OF _ data(1)]
    obtain k where k: "n = Suc k" using Cons.prems(5) by (cases n) auto
    have wf: "wf_tree x" using Cons.prems(2) by simp
    have r0: "char_at ?r 0 = CHR ''<''" using contents_start [of cs "nm @ ''>'' @ r"] Cons.prems(2) sep(2) data by simp
    define t where "t = dropWhile whitespace_pred (flat x @ ?r)"
    have t: "text_pred (char_at t 0)" unfolding t_def using data_start [of "xn_value x" ?r] d [OF wf] data by (simp add: blank_data_def)
    have l: "length ?r < k" using Cons.prems(5) k nonempty_data [OF wf data] by (cases "flat x") auto
    have "parse_node_contents k 0 (first_char (add_data x node)) (Some (CHR ''<'', ?r)) (flat x @ ?r) (add_data x node) = Inr (r, extend (add_data x node) ds)"
      unfolding after_data_lt [OF r0] by (rule IH [OF l]) (use Cons.prems(4) wf data in \<open>simp add: value_ok_simps\<close>)
    then have "parse_node_contents (Suc k) 0 (first_char node) None (flat x @ ?r) node = Inr (r, extend (add_data x node) ds)"
      using contents_data [OF _ t, of "flat x @ ?r" k 0 "first_char node" node] parse_printed_data [OF wf data(1) r0 Cons.prems(4)]
      by (simp add: skip_def t_def)
    then show ?thesis using nonempty_data [OF wf data] data d [OF wf] by (simp add: k extend_simps ds_def)
  qed
qed

lemma element_reads_back: "wf_tree x \<Longrightarrow> \<not> is_data x \<Longrightarrow> reads_back x"
proof (induction x)
  case (XNode ty nm v as cs)
  then have ty: "ty \<noteq> node_data" and wf: "ty = node_element" "wf_name nm" "list_all wf_attribute as" "list_all wf_tree cs"
    "separated cs" "v = first_data cs" by (auto simp: is_data_def)
  show ?case unfolding reads_back_def
  proof (intro allI impI)
    fix n r assume l: "length (flat (XNode ty nm v as cs) @ r) \<le> n"
    define u where "u = (if cs = [] then ''/>'' else ''>'' @ concat (map flat cs) @ ''</'' @ nm @ ''>'') @ r"
    have tx: "drop 1 (flat (XNode ty nm v as cs)) @ r = nm @ print_attribs as @ u" using ty by (simp add: u_def)
    have te: "tag_end u" by (simp add: u_def)
    have "takeWhile node_name_pred (nm @ print_attribs as @ u) = nm \<and> dropWhile node_name_pred (nm @ print_attribs as @ u) = print_attribs as @ u"
      by (rule takeWhile_app) (use wf(2) attributes_start [OF te, of as] in \<open>auto simp: wf_name_def node_name_chars\<close>)
    then have s: "skip node_name_pred (nm @ print_attribs as @ u) = (nm, print_attribs as @ u)" by (simp add: skip_def)
    define e where "e = XNode node_element nm [] as []"
    have a: "parse_node_attributes 0 (snd (skip whitespace_pred (print_attribs as @ u))) (XNode node_element nm [] [] []) = Inr (u, e)"
      using parse_printed_attributes [OF wf(3) te] by (simp add: skip_def e_def)
    have nm: "nm \<noteq> []" using wf(2) by (simp add: wf_name_def)
    show "parse_element (parse_node_contents n 0 (CHR 0x00) None) 0 (drop 1 (flat (XNode ty nm v as cs)) @ r) = Inr (Some (drop_blank (XNode ty nm v as cs)), r)"
    proof (cases "cs = []")
      case True
      then show ?thesis unfolding tx using s a nm wf(1,6) by (simp add: parse_element_def u_def e_def first_data_def)
    next
      case False
      let ?c = "concat (map flat cs) @ ''</'' @ nm @ ''>'' @ r"
      let ?ds = "map drop_blank (filter (\<lambda>x. \<not> blank_data x) cs)"
      have "parse_node_contents n 0 (first_char e) None ?c e = Inr (r, extend e ?ds)"
      proof (rule contents_read)
        show "reads_back x" if "x \<in> set cs" "\<not> is_data x" for x
          using XNode.IH [OF that(1)] that wf(4) by (auto simp: list_all_iff)
        show "length ?c < n" using l False ty by simp
      qed (use wf in \<open>simp_all add: e_def value_ok_def\<close>)
      moreover have "first_char e = CHR 0x00" by (simp add: e_def)
      moreover have "extend e ?ds = drop_blank (XNode ty nm v as cs)" using wf(1) by (simp add: e_def extend_def Let_def)
      ultimately show ?thesis unfolding tx using s a nm False by (simp add: parse_element_def u_def)
    qed
  qed
qed

subsection \<open>Documents\<close>

lemma children_read:
  "list_all wf_tree es \<Longrightarrow> \<not> list_ex is_data es \<Longrightarrow> length (concat (map flat es)) < n \<Longrightarrow>
    parse_children n 0 (concat (map flat es)) (XNode node_document [] [] [] ds) = Inr (XNode node_document [] [] [] (ds @ map drop_blank es))"
proof (induction es arbitrary: n ds)
  case Nil
  then show ?case by (cases n) (simp_all add: skip_def)
next
  case (Cons x es)
  then obtain k where k: "n = Suc k" by (cases n) auto
  let ?r = "concat (map flat es)"
  have x: "wf_tree x" "\<not> is_data x" using Cons.prems by auto
  obtain c s where f: "flat x = CHR ''<'' # c # s" "node_name_pred c" "c \<noteq> CHR ''!''" using element_start [OF x] by auto
  have l: "length (flat x @ ?r) \<le> k" using Cons.prems(3) k by simp
  have "parse_element (parse_node_contents k 0 (CHR 0x00) None) 0 (c # s @ ?r) = Inr (Some (drop_blank x), ?r)"
    using element_reads_back [OF x] l f(1) unfolding reads_back_def by fastforce
  then have "parse_node (parse_node_contents k 0 (CHR 0x00) None) 0 (c # s @ ?r) = Inr (Some (drop_blank x), ?r)"
    using f(2,3) by (auto simp: parse_node_def node_name_chars)
  moreover have "parse_children k 0 ?r (XNode node_document [] [] [] (ds @ [drop_blank x]))
      = Inr (XNode node_document [] [] [] ((ds @ [drop_blank x]) @ map drop_blank es))"
    by (rule Cons.IH) (use Cons.prems l f(1) in auto)
  ultimately show ?case using f(1) by (simp add: k skip_def ws_chars)
qed

lemma print_parse_tree:
  assumes "wf_tree_document doc"
  shows "xml_parse 0 (xml_print print_no_indenting doc) = Inr (drop_blank doc)"
proof -
  obtain es where doc: "doc = XNode node_document [] [] [] es" and es: "list_all wf_tree es" "\<not> list_ex is_data es"
    using assms by (auto simp: wf_tree_document_def)
  have p: "xml_print print_no_indenting doc = concat (map flat es)"
    using es(1) print_flat by (auto simp: doc xml_print_def list_all_iff intro!: arg_cong [where f = concat])
  have b: "parse_bom (concat (map flat es)) = concat (map flat es)"
    using element_start [of "hd es"] es by (cases es) (auto simp: parse_bom_def)
  have "filter (\<lambda>x. \<not> blank_data x) es = es" using es(2) by (auto simp: filter_id_conv blank_data_def list_ex_iff)
  then have "drop_blank doc = XNode node_document [] [] [] (map drop_blank es)" by (simp add: doc)
  then show ?thesis
    unfolding p xml_parse_def b using children_read [OF es, of "2 * length (concat (map flat es)) + 2" "[]"] doc by simp
qed

lemma print_then_parse:
  assumes "wf_document doc"
  shows "xml_parse 0 (xml_print print_no_indenting doc) = Inr doc"
proof -
  obtain es where doc: "doc = XNode node_document [] [] [] es" and es: "list_all wf_xml es" "\<not> list_ex is_data es"
    using assms by (auto simp: wf_document_def)
  have wf: "wf_tree_document doc" using es wf_tree_xml by (auto simp: doc wf_tree_document_def list_all_iff)
  have "filter (\<lambda>x. \<not> blank_data x) es = es" "map drop_blank es = es"
    using es wf_tree_xml by (auto simp: filter_id_conv blank_data_def list_ex_iff list_all_iff intro!: map_idI)
  then have "drop_blank doc = doc" by (simp add: doc)
  then show ?thesis using print_parse_tree [OF wf] by simp
qed



end
