(* ===== verification/ConfigFile.thy ===== *)
theory ConfigFile
  imports Config Containers XmlRoundtrip
begin

text \<open>
  The configuration loader on top of the parser: what \<^verbatim>\<open>Config\<close> takes as a parameter is
  \<open>xml_->parse<0>\<close> of \<^verbatim>\<open>rapidxml.hpp\<close>, whose only exception \<open>FromFile\<close> catches.  From the
  characters of a file to the addresses the relay listens on.
\<close>

text \<open>\<open>attrib->value()\<close> is read as a C string, up to its first zero.\<close>

definition c_string :: "string \<Rightarrow> string" where
  "c_string v = takeWhile (\<lambda>c. c \<noteq> CHR 0x00) v"

fun elem_of :: "xnode \<Rightarrow> xml_elem" where
  "elem_of (XNode ty name value attrs children) =
     Elem name (map (\<lambda>(n, v). (n, c_string v)) attrs) (map elem_of children)"

definition rapidxml_document :: "string \<Rightarrow> xml_elem list option" where
  "rapidxml_document text =
     (case xml_parse 0 text of Inl e \<Rightarrow> None | Inr doc \<Rightarrow> Some (map elem_of (xn_children doc)))"

lemma parse_error_refused:
  "xml_parse 0 text = Inl e \<Longrightarrow> relay_config_init rapidxml_document (Some text) c = Inr (False, c)
    \<and> agent_config_init rapidxml_document (Some text) d = Inr (False, d)"
  by (simp add: relay_config_init_def agent_config_init_def from_file_def xml_from_file_def rapidxml_document_def)

lemma c_string_id: "list_all (\<lambda>c. c \<noteq> CHR 0x00) v \<Longrightarrow> c_string v = v"
  by (auto simp: c_string_def list_all_iff takeWhile_eq_all_conv)

definition XMLSerializer_ToString :: "xnode \<Rightarrow> string" where
  "XMLSerializer_ToString xml = xml_print print_no_indenting xml"

definition XMLSerializer_FromString :: "string \<Rightarrow> string \<Rightarrow> xml_elem option option" where
  "XMLSerializer_FromString node_name str =
     (if length str < 4 then None
      else case rapidxml_document str of
        None \<Rightarrow> None
      | Some doc \<Rightarrow> Some (find (\<lambda>e. xml_name e = node_name) doc))"

subsection \<open>Item groups and groups for sets\<close>

text \<open>\<open>XML_CONFIG_ITEM_GROUP(name, var, a, b)\<close> fills a container from the children of one name: a
  sequence or a set from their attribute \<open>a\<close>, a map from \<open>a\<close> and \<open>b\<close>.  An omitted \<open>a\<close> is
  the name itself, an omitted \<open>b\<close> is \<open>a\<close> behind an underscore.  \<open>blank\<close> is what the local
  variable holds before an attribute is read into it.\<close>

fun item_names :: "string \<Rightarrow> string list \<Rightarrow> string \<times> string" where
  "item_names name [] = (name, CHR ''_'' # name)"
| "item_names name [a] = (a, CHR ''_'' # a)"
| "item_names name (a # b # _) = (a, b)"

definition handle_item_group :: "(string \<Rightarrow> 'v \<Rightarrow> 'v) \<Rightarrow> 'v \<Rightarrow> string \<Rightarrow> string list \<Rightarrow> xml_elem \<Rightarrow> 'v list \<Rightarrow> 'v list" where
  "handle_item_group from blank name args root v =
     v @ map (\<lambda>node. handle_item from (fst (item_names name args)) node blank) (children_named name root)"

definition handle_item_group_set ::
    "(string \<Rightarrow> 'v \<Rightarrow> 'v) \<Rightarrow> 'v \<Rightarrow> string \<Rightarrow> string list \<Rightarrow> xml_elem \<Rightarrow> 'v::linorder list \<Rightarrow> 'v list" where
  "handle_item_group_set from blank name args root v =
     fold (\<lambda>node. set_put (handle_item from (fst (item_names name args)) node blank)) (children_named name root) v"

definition handle_item_group_map :: "(string \<Rightarrow> 'k \<Rightarrow> 'k) \<Rightarrow> 'k \<Rightarrow> (string \<Rightarrow> 'v \<Rightarrow> 'v) \<Rightarrow> 'v
    \<Rightarrow> string \<Rightarrow> string list \<Rightarrow> xml_elem \<Rightarrow> ('k::linorder, 'v) omap \<Rightarrow> ('k, 'v) omap" where
  "handle_item_group_map from_k blank_k from_v blank_v name args root v =
     fold (\<lambda>node. map_put (handle_item from_k (fst (item_names name args)) node blank_k)
                       (handle_item from_v (snd (item_names name args)) node blank_v))
       (children_named name root) v"

definition handle_node_group_set ::
    "(xml_elem \<Rightarrow> 'v \<Rightarrow> 'v) \<Rightarrow> 'v \<Rightarrow> string \<Rightarrow> xml_elem \<Rightarrow> 'v::linorder list \<Rightarrow> 'v list" where
  "handle_node_group_set action blank name root vs =
     fold (\<lambda>node. set_put (action node blank)) (children_named name root) vs"

lemma set_fold_set_put: "set (fold (\<lambda>x. set_put (f x)) xs v) = set v \<union> f ` set xs"
  by (induction xs arbitrary: v) auto

lemma set_handle_node_group_set:
  "set (handle_node_group_set action blank name root vs) = set (handle_node_group action blank name root vs)"
  by (simp add: handle_node_group_set_def handle_node_group_def set_fold_set_put)

lemma set_handle_item_group_set:
  "set (handle_item_group_set from blank name args root v) = set v \<union> set (handle_item_group from blank name args root [])"
  by (simp add: handle_item_group_set_def handle_item_group_def set_fold_set_put)

text \<open>The last child of a key wins.\<close>

lemma find_handle_item_group_map:
  "map_find (handle_item_group_map from_k blank_k from_v blank_v name args root v) =
     map_find v ++ map_of (rev (zip (handle_item_group from_k blank_k name args root [])
       (map (\<lambda>node. handle_item from_v (snd (item_names name args)) node blank_v) (children_named name root))))"
proof -
  have "map_find (fold (\<lambda>x. map_put (f x) (g x)) xs v) = map_find v ++ map_of (rev (zip (map f xs) (map g xs)))"
    for f :: "xml_elem \<Rightarrow> 'a" and g :: "xml_elem \<Rightarrow> 'b" and xs
    by (induction xs arbitrary: v) (auto simp: map_add_def fun_eq_iff split: option.split)
  then show ?thesis by (simp add: handle_item_group_map_def handle_item_group_def)
qed

text \<open>The file of a relay that listens at the given addresses and keeps the default settings.\<close>

definition element :: "string \<Rightarrow> (string \<times> string) list \<Rightarrow> xnode list \<Rightarrow> xnode" where
  "element name attrs children = XNode node_element name [] attrs children"

definition relay_document :: "(string \<times> string) list \<Rightarrow> xnode" where
  "relay_document nodes = XNode node_document [] [] []
     [element ''config'' [] [element ''local'' []
        (map (\<lambda>(a, p). element ''node'' [(''address'', a), (''port'', p)] []) nodes)]]"

lemma separated_elements: "list_all (\<lambda>x. \<not> is_data x) xs \<Longrightarrow> separated xs \<and> first_data xs = []"
  by (induction xs rule: separated.induct) (auto simp: first_data_def)

lemma wf_element:
  "wf_name name \<Longrightarrow> list_all wf_attribute attrs \<Longrightarrow> list_all wf_xml cs \<Longrightarrow> list_all (\<lambda>x. \<not> is_data x) cs \<Longrightarrow>
    wf_xml (element name attrs cs) \<and> \<not> is_data (element name attrs cs)"
  using separated_elements [of cs] by (simp add: element_def is_data_def)

lemma wf_relay_document:
  assumes "\<forall>(a, p) \<in> set nodes. list_all (\<lambda>c. c \<noteq> CHR 0x00) a \<and> list_all (\<lambda>c. c \<noteq> CHR 0x00) p"
  shows "wf_document (relay_document nodes)"
proof -
  have "wf_xml (element ''node'' [(''address'', a), (''port'', p)] []) \<and> \<not> is_data (element ''node'' [(''address'', a), (''port'', p)] [])"
    if "(a, p) \<in> set nodes" for a p
    by (rule wf_element) (use assms that in \<open>auto simp: wf_name_def wf_attribute_def node_name_chars attribute_name_chars\<close>)
  then have n: "list_all wf_xml (map (\<lambda>(a, p). element ''node'' [(''address'', a), (''port'', p)] []) nodes)"
    "list_all (\<lambda>x. \<not> is_data x) (map (\<lambda>(a, p). element ''node'' [(''address'', a), (''port'', p)] []) nodes)"
    by (auto simp: list_all_iff)
  have "wf_name ''local''" "wf_name ''config''" by (simp_all add: wf_name_def node_name_chars)
  from wf_element [OF this(1) _ n, of "[]"] wf_element [OF this(2), of "[]"]
  show ?thesis by (simp add: wf_document_def relay_document_def)
qed

lemma printed_length: "4 \<le> length (XMLSerializer_ToString (relay_document nodes))"
  by (simp add: XMLSerializer_ToString_def xml_print_def relay_document_def element_def print_element_node_def)

lemma printed_config_loads:
  assumes "nodes \<noteq> []" and "\<forall>(a, p) \<in> set nodes. list_all (\<lambda>c. c \<noteq> CHR 0x00) a \<and> list_all (\<lambda>c. c \<noteq> CHR 0x00) p"
  shows "relay_config_init rapidxml_document (Some (XMLSerializer_ToString (relay_document nodes))) default_relay_config
    = Inr (True, default_relay_config\<lparr>rc_locals := map (\<lambda>(a, p). \<lparr>cf_address = a, cf_port = p\<rparr>) nodes\<rparr>)"
proof -
  let ?text = "XMLSerializer_ToString (relay_document nodes)"
  have n: "children_named ''node'' (Elem ''local'' [] (map (elem_of \<circ> (\<lambda>(a, p). element ''node'' [(''address'', a), (''port'', p)] [])) nodes))
      = map (\<lambda>(a, p). Elem ''node'' [(''address'', a), (''port'', p)] []) nodes"
    using assms(2) by (simp add: children_named_def element_def filter_map o_def case_prod_beta)
      (auto simp: c_string_id intro!: map_cong filter_True)
  have "rapidxml_document ?text = Some (map elem_of (xn_children (relay_document nodes)))"
    by (simp add: XMLSerializer_ToString_def rapidxml_document_def print_then_parse [OF wf_relay_document [OF assms(2)]])
  then have "xml_from_file rapidxml_document ''config'' (Some ?text) = Some (Some (elem_of (hd (xn_children (relay_document nodes)))))"
    using printed_length [of nodes] by (simp add: xml_from_file_def relay_document_def element_def)
  then show ?thesis using assms(1) n
    by (simp add: relay_config_init_def from_file_def relay_document_def element_def relay_config_action_def
        handle_node_def children_named_def handle_node_group_def default_relay_config_def o_def case_prod_beta
        address_action_def handle_item_def blank_address_def)
qed

text \<open>A configuration file with the given addresses, as the serializer prints it, makes \<open>init\<close>
  return true with exactly these addresses to listen on, in order, whatever characters they contain
  (references included), and with the default of every setting.\<close>

theorem config_file_loads:
  assumes "nodes \<noteq> []" and "\<forall>(a, p) \<in> set nodes. list_all (\<lambda>c. c \<noteq> CHR 0x00) a \<and> list_all (\<lambda>c. c \<noteq> CHR 0x00) p"
  shows "relay_config_init rapidxml_document (Some (XMLSerializer_ToString (relay_document nodes))) default_relay_config
    = Inr (True, default_relay_config\<lparr>rc_locals := map (\<lambda>(a, p). \<lparr>cf_address = a, cf_port = p\<rparr>) nodes\<rparr>)"
  by (rule printed_config_loads [OF assms])

theorem config_file_loads_witness:
  "relay_config_init rapidxml_document
     (Some (XMLSerializer_ToString (relay_document [(''0.0.0.0'', ''9000''), (''<&>'', ''9001'')]))) default_relay_config
   = Inr (True, default_relay_config\<lparr>rc_locals :=
       [\<lparr>cf_address = ''0.0.0.0'', cf_port = ''9000''\<rparr>, \<lparr>cf_address = ''<&>'', cf_port = ''9001''\<rparr>]\<rparr>)"
  using config_file_loads [of "[(''0.0.0.0'', ''9000''), (''<&>'', ''9001'')]"] by simp

end
