(* ===== verification/Program.thy ===== *)
theory Program
  imports ConfigFile RelayProps AgentProps
begin

text \<open>
  The two programs from their command line to the running application: \<open>main\<close> and
  \<open>MyService\<close> of \<^verbatim>\<open>main.cpp\<close>, and \<open>Server\<close> of \<^verbatim>\<open>server.cpp\<close>.  What a start ends with is
  an exit code, an abnormal end, or the application its \<open>io_service\<close> threads run.
\<close>

subsection \<open>MyService and Server\<close>

text \<open>\<open>Abnormal\<close> is \<open>std::terminate\<close>, for an exception that leaves \<open>main\<close> or a thread
  (\<open>None\<close>: the \<open>const char*\<close> that \<open>OnRuning\<close> throws), or a trap.\<close>

datatype 'a outcome = Exit int | Abnormal "exn option" | Running 'a

text \<open>What \<open>catch(std::exception e)\<close> takes.\<close>

fun is_std_exception :: "exn \<Rightarrow> bool" where
  "is_std_exception NullPointer = False"
| "is_std_exception DivideByZero = False"
| "is_std_exception NoReturn = False"
| "is_std_exception _ = True"

text \<open>\<open>Server::Init\<close> runs in the calling thread, under the handler of \<open>OnRuning\<close>;
  \<open>Server::Start\<close> posts \<open>AppLogic1::Start\<close> to an \<open>io_service\<close>, whose thread it leaves
  with the exception.  The works keep every \<open>run\<close> from returning.\<close>

definition MyService_OnRuning :: "('s \<Rightarrow> (bool \<times> 's) result) \<Rightarrow> ('s \<Rightarrow> 's result) \<Rightarrow> 's \<Rightarrow> 's outcome" where
  "MyService_OnRuning Init Start app =
     (case Init app of
        Inl e \<Rightarrow> if is_std_exception e then Exit 0 else Abnormal (Some e)
      | Inr (ok, app) \<Rightarrow>
          if \<not> ok then Abnormal None
          else case Start app of Inl e \<Rightarrow> Abnormal (Some e) | Inr app \<Rightarrow> Running app)"

subsection \<open>main\<close>

text \<open>\<open>exists f\<close>: \<open>access(f, 0)\<close> succeeds; \<open>content f\<close>: what opening and reading it gives.
  \<open>cores\<close> is \<open>hardware_concurrency()\<close>, the number of \<open>io_service\<close>s beside the main one.\<close>

definition config_path :: "string list \<Rightarrow> string" where
  "config_path argv = (if length argv \<ge> 2 then argv ! 1 else ''config.xml'')"

definition relay_main :: "string list \<Rightarrow> (string \<Rightarrow> bool) \<Rightarrow> (string \<Rightarrow> string option) \<Rightarrow> nat
    \<Rightarrow> (string \<Rightarrow> string \<Rightarrow> endpoint list) \<Rightarrow> (endpoint \<Rightarrow> u16 option) \<Rightarrow> relay outcome" where
  "relay_main argv exists content cores resolve os =
     (let configfile = config_path argv in
      if \<not> exists configfile then Exit (- 1)
      else case relay_config_init rapidxml_document (content configfile) default_relay_config of
        Inl e \<Rightarrow> Abnormal (Some e)
      | Inr (ok, cfg) \<Rightarrow>
          if \<not> ok then Exit (- 1)
          else MyService_OnRuning (relay_Init resolve) (relay_Start os) (new_relay cfg cores))"

definition agent_main :: "string list \<Rightarrow> (string \<Rightarrow> bool) \<Rightarrow> (string \<Rightarrow> string option) \<Rightarrow> nat
    \<Rightarrow> (string \<Rightarrow> string \<Rightarrow> endpoint list) \<Rightarrow> agentapp outcome" where
  "agent_main argv exists content cores resolve =
     (let configfile = config_path argv in
      if \<not> exists configfile then Exit (- 1)
      else case agent_config_init rapidxml_document (content configfile) default_agent_config of
        Inl e \<Rightarrow> Abnormal (Some e)
      | Inr (ok, cfg) \<Rightarrow>
          if \<not> ok then Exit (- 1)
          else MyService_OnRuning (agent_Init resolve) agent_Start (new_agentapp cfg cores))"

subsection \<open>Addresses\<close>

definition blank :: "string \<Rightarrow> bool" where
  "blank a \<longleftrightarrow> set a \<subseteq> {CHR '' ''}"

definition printable :: "string \<Rightarrow> bool" where
  "printable a \<longleftrightarrow> list_all (\<lambda>c. c \<noteq> CHR 0x00) a"

definition endpoints_of :: "(string \<Rightarrow> string \<Rightarrow> endpoint list) \<Rightarrow> string \<times> string \<Rightarrow> endpoint list" where
  "endpoints_of resolve = (\<lambda>(a, p). case trim a of Inl _ \<Rightarrow> [] | Inr address \<Rightarrow> resolve address p)"

lemma trim_throws: "blank a \<Longrightarrow> trim a = Inl OutOfRange"
  by (simp add: blank_def trim_def find_first_takeWhile subset_eq)

lemma trim_returns:
  assumes "\<not> blank a"
  obtains u where "trim a = Inr u"
  using split_spaces [of a "CHR '' ''"] trim_spaces assms by (metis blank_def)

subsection \<open>The relay\<close>

definition addresses :: "(string \<times> string) list \<Rightarrow> address_info list" where
  "addresses nodes = map (\<lambda>(a, p). \<lparr>cf_address = a, cf_port = p\<rparr>) nodes"

lemma relay_resolve_addresses:
  "relay_resolve resolve (addresses nodes) s =
     (if list_ex (\<lambda>(a, p). blank a) nodes then Inl OutOfRange
      else Inr (s\<lparr>rl_listenep := rl_listenep s @ concat (map (endpoints_of resolve) nodes)\<rparr>))"
proof (induction nodes arbitrary: s)
  case (Cons n nodes)
  obtain a p where n: "n = (a, p)" by (cases n)
  show ?case
  proof (cases "blank a")
    case True
    then show ?thesis by (simp add: n addresses_def trim_throws)
  next
    case False
    then obtain u where "trim a = Inr u" by (rule trim_returns)
    with Cons False show ?thesis by (simp add: n addresses_def endpoints_of_def)
  qed
qed (simp add: addresses_def)

lemma open_all:
  "srv_open os eps s =
     (if \<forall>ep \<in> set eps. os ep \<noteq> None then Inr (s\<lparr>srv_acceptors := srv_acceptors s @ eps\<rparr>) else Inl SystemError)"
  by (induction os eps s rule: srv_open.induct) (auto split: option.split)

lemma length_put: "length (map_put k v m) \<le> Suc (length m)"
  by (induction k v m rule: map_put.induct) auto

text \<open>One accept is started on every acceptor, as long as the sequence numbers last.\<close>

lemma accept_all:
  "length (srv_conns s) + length eps \<le> 2 ^ 32 \<Longrightarrow> srv_ioservices s \<noteq> 0 \<Longrightarrow>
    \<exists>t calls. fold_result (srv__StartNextConnection cc) eps s = Inr t \<and> srv_out t = srv_out s @ calls
      \<and> list_all2 (\<lambda>call ep. \<exists>seq cid. call = SAsyncAccept seq cid ep) calls eps
      \<and> srv_acceptors t = srv_acceptors s"
proof (induction eps arbitrary: s)
  case (Cons ep eps)
  obtain seq where seq: "next_seq_from (srv_next_seq s) (srv_conns s) = Some seq"
    using next_seq_returns [of "srv_conns s"] Cons.prems(1) by auto
  define u where "u = srv_emit (SAsyncAccept seq (srv_next_cid s) ep)
    (s\<lparr>srv_next_seq := seq, srv_heap := (srv_heap s)(srv_next_cid s := srv_configure cc s (cc_new cc)),
       srv_next_cid := Suc (srv_next_cid s), srv_conns := map_put seq (srv_next_cid s) (srv_conns s)\<rparr>)"
  have u: "srv__StartNextConnection cc ep s = Inr u"
    using seq Cons.prems(2) by (simp add: StartNext_eq u_def)
  have "length (srv_conns u) + length eps \<le> 2 ^ 32" "srv_ioservices u \<noteq> 0"
    using Cons.prems length_put [of seq "srv_next_cid s" "srv_conns s"] by (simp_all add: u_def srv_emit_def)
  from Cons.IH [OF this] obtain t calls where "fold_result (srv__StartNextConnection cc) eps u = Inr t"
    "srv_out t = srv_out u @ calls" "list_all2 (\<lambda>call ep. \<exists>seq cid. call = SAsyncAccept seq cid ep) calls eps"
    "srv_acceptors t = srv_acceptors u" by blast
  then show ?case by (simp add: u) (simp add: u_def srv_emit_def)
qed simp

definition relay_file :: "(string \<times> string) list \<Rightarrow> string" where
  "relay_file nodes = XMLSerializer_ToString (relay_document nodes)"

definition relay_file_config :: "(string \<times> string) list \<Rightarrow> relay_config" where
  "relay_file_config nodes = default_relay_config\<lparr>rc_locals := addresses nodes\<rparr>"

lemma relay_file_loads:
  "nodes \<noteq> [] \<Longrightarrow> \<forall>(a, p) \<in> set nodes. printable a \<and> printable p \<Longrightarrow>
    relay_config_init rapidxml_document (Some (relay_file nodes)) default_relay_config = Inr (True, relay_file_config nodes)"
  by (simp add: relay_file_def relay_file_config_def addresses_def printed_config_loads printable_def)

lemma relay_Init_file:
  "\<exists>policy limit. relay_Init resolve (new_relay (relay_file_config nodes) n) =
    (if list_ex (\<lambda>(a, p). blank a) nodes then Inl OutOfRange
     else Inr (concat (map (endpoints_of resolve) nodes) \<noteq> [],
       (new_relay (relay_file_config nodes) n)\<lparr>rl_load_policy := policy, rl_queue_limit := limit,
         rl_listenep := concat (map (endpoints_of resolve) nodes)\<rparr>))"
proof -
  have "rc_locals (relay_file_config nodes) = addresses nodes" by (simp add: relay_file_config_def)
  then show ?thesis
    by (intro exI [of _ "LoadPolicy (rc_system (relay_file_config nodes))"]
        exI [of _ "cf_queue_limit (rc_system (relay_file_config nodes))"])
      (simp add: relay_Init_def new_relay_def relay_resolve_addresses Let_def)
qed

lemma Start_fails:
  assumes "\<not> (\<forall>ep \<in> set (rl_listenep s). os ep \<noteq> None) \<or> (rl_ioservices s = 0 \<and> rl_listenep s \<noteq> [])"
  shows "relay_Start os s =
    (if \<exists>ep \<in> set (rl_listenep s). os ep = None then Inl SystemError else Inl DivideByZero)"
proof -
  obtain seq :: u32 where "next_seq_from 0 ([] :: (u32, nat) omap) = Some seq"
    using next_seq_returns [of "[] :: (u32, nat) omap" 0] by auto
  then show ?thesis using assms
    by (cases "rl_listenep s")
      (auto simp: relay_Start_def Let_def Start_eq open_all srv_listening_def new_server_def srv_bind_callbacks_def
        srv_SetDefragment_def srv_SetRecvbufSize_def srv_SetNoDelay_def srv_SetMaxPacketLength_def
        srv__StartNextConnection_def srv__GetNextSeq_def split: option.split)
qed

lemma Start_succeeds:
  assumes "\<forall>ep \<in> set (rl_listenep s). os ep \<noteq> None" and "rl_ioservices s \<noteq> 0" and "length (rl_listenep s) \<le> 2 ^ 32"
  obtains t where "relay_Start os s = Inr t" "srv_acceptors (rl_agent_srv t) = rl_listenep s"
    "list_all2 (\<lambda>call ep. \<exists>seq cid. call = SAsyncAccept seq cid ep) (srv_out (rl_agent_srv t)) (rl_listenep s)"
    "rl_config t = rl_config s"
proof -
  define v :: agent_server where "v = srv_listening os ((srv_bind_callbacks
            (srv_SetDefragment (cf_packet_defragment (rc_system (rl_config s)))
              (srv_SetRecvbufSize (ucast (cf_recv_buf_size (rc_system (rl_config s))))
                (srv_SetNoDelay (cf_tcp_send_no_delay (rc_system (rl_config s)))
                  (srv_SetMaxPacketLength (cf_max_packet_size (rc_system (rl_config s)))
                    (new_server (rl_ioservices s) new_tcp_conn))))))\<lparr>srv_acceptors := rl_listenep s\<rparr>)"
  have "srv_conns v = []" "srv_ioservices v = rl_ioservices s" "srv_out v = []" "srv_acceptors v = rl_listenep s"
    by (simp_all add: v_def srv_listening_def new_server_def srv_bind_callbacks_def srv_SetDefragment_def
        srv_SetRecvbufSize_def srv_SetNoDelay_def srv_SetMaxPacketLength_def split: list.split)
  then obtain t calls where t: "fold_result (srv__StartNextConnection tcp_class) (rl_listenep s) v = Inr t"
    "srv_out t = calls" "srv_acceptors t = rl_listenep s"
    "list_all2 (\<lambda>call ep. \<exists>seq cid. call = SAsyncAccept seq cid ep) calls (rl_listenep s)"
    using accept_all [of v "rl_listenep s" tcp_class] assms by auto
  have "relay_Start os s = Inr (s\<lparr>rl_pooling := True, rl_agent_srv := t\<rparr>)"
    using assms(1) t(1) \<open>srv_acceptors v = rl_listenep s\<close>
    by (simp add: relay_Start_def Let_def Start_eq open_all v_def)
      (simp add: new_server_def srv_bind_callbacks_def srv_SetDefragment_def
        srv_SetRecvbufSize_def srv_SetNoDelay_def srv_SetMaxPacketLength_def)
  then show ?thesis by (rule that) (use t in auto)
qed

text \<open>C6: started with a configuration file that the serializer prints, the relay comes up: it
  reaches a state of its state machine, over the addresses of the file in order and with default
  settings, and its agent server has opened exactly the endpoints they resolve to and waits for a
  connection on each of them.\<close>

theorem relay_boots:
  assumes "nodes \<noteq> []" and "\<forall>(a, p) \<in> set nodes. printable a \<and> printable p \<and> \<not> blank a"
    and "eps = concat (map (endpoints_of resolve) nodes)" and "eps \<noteq> []" and "length eps \<le> 2 ^ 32"
    and "\<forall>ep \<in> set eps. os ep \<noteq> None" and "cores \<noteq> 0"
    and "exists (config_path argv)" and "content (config_path argv) = Some (relay_file nodes)"
  shows "\<exists>s. relay_main argv exists content cores resolve os = Running s
    \<and> relay_reach (relay_file_config nodes) cores s \<and> rl_config s = relay_file_config nodes
    \<and> srv_acceptors (rl_agent_srv s) = eps
    \<and> list_all2 (\<lambda>call ep. \<exists>seq cid. call = SAsyncAccept seq cid ep) (srv_out (rl_agent_srv s)) eps"
proof -
  let ?new = "new_relay (relay_file_config nodes) cores"
  have nb: "\<not> list_ex (\<lambda>(a, p). blank a) nodes" using assms(2) by (auto simp: list_ex_iff)
  obtain policy limit where i: "relay_Init resolve ?new = Inr (True,
      ?new\<lparr>rl_load_policy := policy, rl_queue_limit := limit, rl_listenep := eps\<rparr>)"
    using relay_Init_file [of resolve nodes cores] nb assms(3,4) by auto
  obtain t where t: "relay_Start os (?new\<lparr>rl_load_policy := policy, rl_queue_limit := limit, rl_listenep := eps\<rparr>) = Inr t"
    "srv_acceptors (rl_agent_srv t) = eps" "rl_config t = relay_file_config nodes"
    "list_all2 (\<lambda>call ep. \<exists>seq cid. call = SAsyncAccept seq cid ep) (srv_out (rl_agent_srv t)) eps"
    using Start_succeeds [of "?new\<lparr>rl_load_policy := policy, rl_queue_limit := limit, rl_listenep := eps\<rparr>" os] assms(5-7)
    by (auto simp: new_relay_def)
  have "relay_main argv exists content cores resolve os = Running t"
    using relay_file_loads [OF assms(1)] assms(2,8,9) i t(1)
    by (fastforce simp: relay_main_def MyService_OnRuning_def Let_def)
  then show ?thesis using rr_start [OF i t(1)] t by blast
qed

theorem relay_boots_witness:
  "\<exists>s. relay_main [''r-nat-s''] (\<lambda>_. True) (\<lambda>_. Some (relay_file [('' 0.0.0.0 '', ''9000'')])) 4
      (\<lambda>_ _. [Endpoint 0 9000]) (\<lambda>_. Some 9000) = Running s
    \<and> srv_acceptors (rl_agent_srv s) = [Endpoint 0 9000]"
proof -
  have "trim '' 0.0.0.0 '' = Inr ''0.0.0.0''" by code_simp
  then show ?thesis
    using relay_boots [of "[('' 0.0.0.0 '', ''9000'')]" "[Endpoint 0 9000]" "\<lambda>_ _. [Endpoint 0 9000]" "\<lambda>_. Some 9000" 4
        "\<lambda>_. True" "[''r-nat-s'']" "\<lambda>_. Some (relay_file [('' 0.0.0.0 '', ''9000'')])"]
    by (auto simp: printable_def blank_def endpoints_of_def)
qed

text \<open>C39: how a start with such a file fails.  A blank address ends the program with the exit code
  of success, since \<open>OnRuning\<close> catches the exception of \<open>substr\<close> and \<open>main\<close> returns 0; where
  no address resolves, the thrown \<open>const char*\<close> passes the handler and terminates the program;
  an endpoint the system refuses, and a machine that reports no cores, end it from the thread of
  the main \<open>io_service\<close>.\<close>

theorem relay_start_failures:
  assumes "nodes \<noteq> []" and "\<forall>(a, p) \<in> set nodes. printable a \<and> printable p"
    and "eps = concat (map (endpoints_of resolve) nodes)"
    and "exists (config_path argv)" and "content (config_path argv) = Some (relay_file nodes)"
    and "(\<exists>(a, p) \<in> set nodes. blank a) \<or> eps = [] \<or> (\<exists>ep \<in> set eps. os ep = None) \<or> cores = 0"
  shows "relay_main argv exists content cores resolve os =
    (if \<exists>(a, p) \<in> set nodes. blank a then Exit 0
     else if eps = [] then Abnormal None
     else if \<exists>ep \<in> set eps. os ep = None then Abnormal (Some SystemError)
     else Abnormal (Some DivideByZero))"
proof -
  let ?new = "new_relay (relay_file_config nodes) cores"
  have b: "list_ex (\<lambda>(a, p). blank a) nodes = (\<exists>(a, p) \<in> set nodes. blank a)" by (auto simp: list_ex_iff)
  obtain policy limit where i: "relay_Init resolve ?new = (if \<exists>(a, p) \<in> set nodes. blank a then Inl OutOfRange
      else Inr (eps \<noteq> [], ?new\<lparr>rl_load_policy := policy, rl_queue_limit := limit, rl_listenep := eps\<rparr>))"
    using relay_Init_file [of resolve nodes cores] unfolding b assms(3) by blast
  have m: "relay_main argv exists content cores resolve os = MyService_OnRuning (relay_Init resolve) (relay_Start os) ?new"
    using relay_file_loads [OF assms(1,2)] assms(4,5) by (simp add: relay_main_def)
  show ?thesis
  proof (cases "(\<exists>(a, p) \<in> set nodes. blank a) \<or> eps = []")
    case True
    then show ?thesis by (auto simp: m MyService_OnRuning_def i)
  next
    case False
    with assms(6) have "relay_Start os (?new\<lparr>rl_load_policy := policy, rl_queue_limit := limit, rl_listenep := eps\<rparr>) =
      (if \<exists>ep \<in> set eps. os ep = None then Inl SystemError else Inl DivideByZero)"
      by (subst Start_fails) (auto simp: new_relay_def)
    then show ?thesis using False by (auto simp: m MyService_OnRuning_def i)
  qed
qed

theorem relay_start_failures_witness:
  "relay_main [''r-nat-s''] (\<lambda>_. True) (\<lambda>_. Some (relay_file [('' '', ''9000'')])) 4
      (\<lambda>_ _. [Endpoint 0 9000]) (\<lambda>_. Some 9000) = Exit 0
   \<and> relay_main [''r-nat-s'', ''c''] (\<lambda>_. True) (\<lambda>_. Some (relay_file [(''h'', ''9000'')])) 4 (\<lambda>_ _. []) (\<lambda>_. Some 9000) = Abnormal None"
  using relay_start_failures [of "[('' '', ''9000'')]" _ "\<lambda>_ _. [Endpoint 0 9000]" "\<lambda>_. True" "[''r-nat-s'']"
      "\<lambda>_. Some (relay_file [('' '', ''9000'')])" "\<lambda>_. Some 9000" 4, OF _ _ refl]
    relay_start_failures [of "[(''h'', ''9000'')]" "[]" "\<lambda>_ _. []" "\<lambda>_. True" "[''r-nat-s'', ''c'']"
      "\<lambda>_. Some (relay_file [(''h'', ''9000'')])" "\<lambda>_. Some 9000" 4]
  by (simp add: printable_def blank_def endpoints_of_def split: sum.split)

subsection \<open>The agent\<close>

text \<open>A configuration file of an agent: the services it offers, each with an address, a port and the
  port the relay is to listen on for it, and the relays it connects to.\<close>

definition agent_document :: "(string \<times> string \<times> string) list \<Rightarrow> (string \<times> string) list \<Rightarrow> xnode" where
  "agent_document services remotes = XNode node_document [] [] []
     [element ''config'' []
       [element ''service'' [] (map (\<lambda>(a, p, sp).
          element ''node'' [(''address'', a), (''port'', p), (''service_port'', sp)] []) services),
        element ''remote'' [] (map (\<lambda>(a, p).
          element ''node'' [(''address'', a), (''port'', p)] []) remotes)]]"

definition agent_file :: "(string \<times> string \<times> string) list \<Rightarrow> (string \<times> string) list \<Rightarrow> string" where
  "agent_file services remotes = XMLSerializer_ToString (agent_document services remotes)"

definition service_nodes :: "(string \<times> string \<times> string) list \<Rightarrow> node_info list" where
  "service_nodes = map (\<lambda>(a, p, sp). \<lparr>cf_address = a, cf_port = p, cf_service_port = sp, cf_concurrency = 1\<rparr>)"

definition remote_nodes :: "(string \<times> string) list \<Rightarrow> node_info list" where
  "remote_nodes = map (\<lambda>(a, p). \<lparr>cf_address = a, cf_port = p, cf_service_port = '''', cf_concurrency = 1\<rparr>)"

definition agent_file_config :: "(string \<times> string \<times> string) list \<Rightarrow> (string \<times> string) list \<Rightarrow> agent_config" where
  "agent_file_config services remotes =
     default_agent_config\<lparr>ac_locals := service_nodes services, ac_remotes := remote_nodes remotes\<rparr>"

lemma wf_group:
  assumes "wf_name name" and "list_all (list_all wf_attribute) nodes"
  shows "wf_xml (element name [] (map (\<lambda>attrs. element ''node'' attrs []) nodes))
    \<and> \<not> is_data (element name [] (map (\<lambda>attrs. element ''node'' attrs []) nodes))"
proof -
  have "wf_name ''node''" by (simp add: wf_name_def node_name_chars)
  then have "wf_xml (element ''node'' attrs []) \<and> \<not> is_data (element ''node'' attrs [])" if "attrs \<in> set nodes" for attrs
    by (rule wf_element) (use assms(2) that in \<open>auto simp: list_all_iff\<close>)
  then show ?thesis by (intro wf_element) (use assms(1) in \<open>auto simp: list_all_iff\<close>)
qed

lemma wf_address_attributes:
  assumes "printable v"
  shows "wf_attribute (''address'', v)" "wf_attribute (''port'', v)" "wf_attribute (''service_port'', v)"
  using assms by (simp_all add: wf_attribute_def printable_def attribute_name_chars)

lemma wf_agent_document:
  assumes "\<forall>(a, p, sp) \<in> set services. printable a \<and> printable p \<and> printable sp"
    and "\<forall>(a, p) \<in> set remotes. printable a \<and> printable p"
  shows "wf_document (agent_document services remotes)"
proof -
  have n: "wf_name ''service''" "wf_name ''remote''" "wf_name ''config''" by (simp_all add: wf_name_def node_name_chars)
  have "list_all (list_all wf_attribute)
      (map (\<lambda>(a, p, sp). [(''address'', a), (''port'', p), (''service_port'', sp)]) services)"
    using assms(1) by (auto simp: list_all_iff wf_address_attributes)
  from wf_group [OF n(1) this] have s: "wf_xml (element ''service'' [] (map (\<lambda>(a, p, sp).
      element ''node'' [(''address'', a), (''port'', p), (''service_port'', sp)] []) services))
    \<and> \<not> is_data (element ''service'' [] (map (\<lambda>(a, p, sp).
      element ''node'' [(''address'', a), (''port'', p), (''service_port'', sp)] []) services))"
    by (simp add: o_def case_prod_unfold)
  have "list_all (list_all wf_attribute)
      (map (\<lambda>(a, p). [(''address'', a), (''port'', p)]) remotes)"
    using assms(2) by (auto simp: list_all_iff wf_address_attributes)
  from wf_group [OF n(2) this] have r: "wf_xml (element ''remote'' [] (map (\<lambda>(a, p).
      element ''node'' [(''address'', a), (''port'', p)] []) remotes))
    \<and> \<not> is_data (element ''remote'' [] (map (\<lambda>(a, p).
      element ''node'' [(''address'', a), (''port'', p)] []) remotes))"
    by (simp add: o_def case_prod_unfold)
  have "wf_xml (hd (xn_children (agent_document services remotes)))
      \<and> \<not> is_data (hd (xn_children (agent_document services remotes)))"
    unfolding agent_document_def xnode.sel list.sel by (rule wf_element) (use n(3) s r in auto)
  then show ?thesis by (simp add: wf_document_def agent_document_def)
qed

lemma agent_file_loads:
  assumes "services \<noteq> []" "remotes \<noteq> []"
    and "\<forall>(a, p, sp) \<in> set services. printable a \<and> printable p \<and> printable sp"
    and "\<forall>(a, p) \<in> set remotes. printable a \<and> printable p"
  shows "agent_config_init rapidxml_document (Some (agent_file services remotes)) default_agent_config
    = Inr (True, agent_file_config services remotes)"
proof -
  let ?text = "agent_file services remotes"
  have c: "map (\<lambda>(a, p, sp). elem_of (element ''node'' [(''address'', a), (''port'', p), (''service_port'', sp)] [])) services
      = map (\<lambda>(a, p, sp). Elem ''node'' [(''address'', a), (''port'', p), (''service_port'', sp)] []) services"
    "map (\<lambda>(a, p). elem_of (element ''node'' [(''address'', a), (''port'', p)] [])) remotes
      = map (\<lambda>(a, p). Elem ''node'' [(''address'', a), (''port'', p)] []) remotes"
    using assms(3,4) by (auto simp: element_def c_string_id printable_def)
  have "elem_of (hd (xn_children (agent_document services remotes))) = Elem ''config'' []
      [Elem ''service'' [] (map (\<lambda>(a, p, sp). Elem ''node'' [(''address'', a), (''port'', p), (''service_port'', sp)] []) services),
       Elem ''remote'' [] (map (\<lambda>(a, p). Elem ''node'' [(''address'', a), (''port'', p)] []) remotes)]"
    by (simp add: agent_document_def element_def c [unfolded element_def case_prod_unfold, simplified] o_def case_prod_unfold)
  moreover have "rapidxml_document ?text = Some (map elem_of (xn_children (agent_document services remotes)))"
    by (simp add: agent_file_def XMLSerializer_ToString_def rapidxml_document_def
        print_then_parse [OF wf_agent_document [OF assms(3,4)]])
  moreover have "4 \<le> length ?text"
    by (simp add: agent_file_def XMLSerializer_ToString_def xml_print_def agent_document_def element_def print_element_node_def)
  ultimately have "xml_from_file rapidxml_document ''config'' (Some ?text) = Some (Some (Elem ''config'' []
      [Elem ''service'' [] (map (\<lambda>(a, p, sp). Elem ''node'' [(''address'', a), (''port'', p), (''service_port'', sp)] []) services),
       Elem ''remote'' [] (map (\<lambda>(a, p). Elem ''node'' [(''address'', a), (''port'', p)] []) remotes)]))"
    by (simp add: xml_from_file_def agent_document_def element_def)
  then show ?thesis using assms(1,2)
    by (simp add: agent_config_init_def from_file_def agent_config_action_def handle_node_def children_named_def
        handle_node_group_def default_agent_config_def o_def case_prod_unfold node_action_def handle_item_def blank_node_def
        agent_file_config_def service_nodes_def remote_nodes_def filter_True)
qed

definition served :: "(u16, endpoint list) omap \<Rightarrow> u16 \<Rightarrow> endpoint set" where
  "served m port = (case map_find m port of None \<Rightarrow> {} | Some eps \<Rightarrow> set eps)"

definition offered :: "(string \<Rightarrow> string \<Rightarrow> endpoint list) \<Rightarrow> (string \<times> string \<times> string) list \<Rightarrow> u16 \<Rightarrow> endpoint set" where
  "offered resolve services port =
     (\<Union>(a, p, sp) \<in> set services. if atol_u16 sp = port then set (endpoints_of resolve (a, p)) else {})"

lemma served_insert: "served (service_insert k ep m) port = (if port = k then insert ep (served m port) else served m port)"
  by (auto simp: served_def service_insert_def split: option.split)

lemma served_inserts:
  "served (fold (service_insert k) eps m) port = (if port = k then set eps \<union> served m port else served m port)"
  by (induction eps arbitrary: m) (auto simp: served_insert)

lemma resolve_services:
  "\<forall>(a, p, sp) \<in> set services. \<not> blank a \<Longrightarrow>
    \<exists>m. agent_resolve_locals resolve (service_nodes services) s = Inr (s\<lparr>aa_service_ep := m\<rparr>)
      \<and> (\<forall>port. served m port = served (aa_service_ep s) port \<union> offered resolve services port)"
proof (induction services arbitrary: s)
  case Nil
  show ?case by (intro exI [of _ "aa_service_ep s"]) (simp add: service_nodes_def offered_def)
next
  case (Cons n services)
  obtain a p sp where n: "n = (a, p, sp)" by (cases n)
  obtain u where u: "trim a = Inr u" using Cons.prems n trim_returns [of a] by auto
  let ?s = "s\<lparr>aa_service_ep := fold (service_insert (atol_u16 sp)) (resolve u p) (aa_service_ep s)\<rparr>"
  obtain m where m: "agent_resolve_locals resolve (service_nodes services) ?s = Inr (?s\<lparr>aa_service_ep := m\<rparr>)"
    "\<forall>port. served m port = served (aa_service_ep ?s) port \<union> offered resolve services port"
    using Cons.IH [of ?s] Cons.prems by (simp add: n) blast
  then show ?case
    by (intro exI [of _ m]) (auto simp: n service_nodes_def u offered_def served_inserts endpoints_of_def)
qed

lemma resolve_remotes:
  "\<forall>(a, p) \<in> set remotes. \<not> blank a \<Longrightarrow>
    agent_resolve_remotes resolve (remote_nodes remotes) s =
      Inr (s\<lparr>aa_remote_ep := aa_remote_ep s @ concat (map (endpoints_of resolve) remotes)\<rparr>)"
proof (induction remotes arbitrary: s)
  case (Cons n remotes)
  obtain a p where n: "n = (a, p)" by (cases n)
  obtain u where u: "trim a = Inr u" using Cons.prems n trim_returns [of a] by auto
  have "concat (map (replicate (Suc 0)) xs) = xs" for xs :: "endpoint list" by (induction xs) auto
  with Cons show ?case by (simp add: n remote_nodes_def u endpoints_of_def)
qed (simp add: remote_nodes_def)

lemma add_relays_ok: "aa_ioservices s \<noteq> 0 \<Longrightarrow> \<exists>t. fold_result agent_add_relay eps s = Inr t"
proof (induction eps arbitrary: s)
  case (Cons ep eps)
  obtain u where u: "agent_add_relay ep s = Inr u" "aa_ioservices u = aa_ioservices s"
    using create_ok(1) [of s] Cons.prems by (auto simp: agent_add_relay_def Let_def)
  then show ?case using Cons by simp
qed simp

text \<open>C7: started with a configuration file that the serializer prints, the agent comes up: it
  reaches a state of its state machine with one started tunnel client per endpoint the relays of
  the file resolve to, in order, and offers under every service port exactly the endpoints its
  services resolve to.\<close>

theorem agent_boots:
  assumes "services \<noteq> []" "\<forall>(a, p, sp) \<in> set services. printable a \<and> printable p \<and> printable sp \<and> \<not> blank a"
    and "remotes \<noteq> []" "\<forall>(a, p) \<in> set remotes. printable a \<and> printable p \<and> \<not> blank a"
    and "offered resolve services port \<noteq> {}"
    and "eps = concat (map (endpoints_of resolve) remotes)" and "eps \<noteq> []" and "cores \<noteq> 0"
    and "exists (config_path argv)" and "content (config_path argv) = Some (agent_file services remotes)"
  shows "\<exists>s. agent_main argv exists content cores resolve = Running s
    \<and> agent_reach (agent_file_config services remotes) cores s
    \<and> aa_next_remote s = length eps
    \<and> (\<forall>i < length eps. ri_ep (aa_remotes s i) = eps ! i \<and> started (ri_tcpclient (aa_remotes s i)))
    \<and> (\<forall>port. served (aa_service_ep s) port = offered resolve services port)"
proof -
  let ?cfg = "agent_file_config services remotes"
  define s where "s = (new_agentapp ?cfg cores)\<lparr>aa_load_policy := LoadPolicy (ac_system ?cfg),
    aa_queue_limit := cf_queue_limit (ac_system ?cfg)\<rparr>"
  have s: "ac_locals (aa_config s) = service_nodes services" "ac_remotes (aa_config s) = remote_nodes remotes"
    "aa_service_ep s = []" "aa_remote_ep s = []"
    by (simp_all add: s_def new_agentapp_def agent_file_config_def)
  obtain m where m: "agent_resolve_locals resolve (service_nodes services) s = Inr (s\<lparr>aa_service_ep := m\<rparr>)"
    "\<forall>port. served m port = offered resolve services port"
    using resolve_services [of services resolve s] assms(2) s(3) by (fastforce simp: served_def)
  have "m \<noteq> []" using m(2) assms(5) by (auto simp: served_def)
  have r: "agent_resolve_remotes resolve (remote_nodes remotes) (s\<lparr>aa_service_ep := m\<rparr>) =
      Inr (s\<lparr>aa_service_ep := m, aa_remote_ep := eps\<rparr>)"
    using resolve_remotes [of remotes resolve "s\<lparr>aa_service_ep := m\<rparr>"] assms(4,6) s(4) by fastforce
  let ?u = "s\<lparr>aa_service_ep := m, aa_remote_ep := eps\<rparr>"
  have i: "agent_Init resolve (new_agentapp ?cfg cores) = Inr (True, ?u)"
    using m(1) r s(1,2) \<open>m \<noteq> []\<close> assms(7) unfolding agent_Init_def Let_def s_def [symmetric]
    by (simp add: s_def new_agentapp_def)
  have z: "aa_ioservices ?u \<noteq> 0" "aa_next_remote ?u = 0" "aa_next_ses ?u = 0" "aa_relays ?u = []" "aa_posted ?u = []"
    using assms(8) by (simp_all add: s_def new_agentapp_def)
  obtain t where t: "agent_Start ?u = Inr t"
    using add_relays_ok [of "?u\<lparr>aa_pooling := True\<rparr>" eps] z(1) start_tunnels by (fastforce simp: agent_Start_def)
  note S = Start_ok [OF z t]
  have "agent_main argv exists content cores resolve = Running t"
    using agent_file_loads [OF assms(1,3)] assms(2,4,9,10) i t
    by (fastforce simp: agent_main_def MyService_OnRuning_def Let_def)
  then show ?thesis using ar_start [OF i t] S m(2) agent_invD(2) [of t] by (auto simp: agent_ok_def)
qed

theorem agent_boots_witness:
  "\<exists>s. agent_main [''r-nat-c'', ''c.xml''] (\<lambda>f. f = ''c.xml'')
      (\<lambda>_. Some (agent_file [(''localhost'', ''22'', ''2222'')] [(''relay'', ''9000'')])) 2
      (\<lambda>_ p. [Endpoint 1 (if p = ''22'' then 22 else 9000)]) = Running s
    \<and> aa_next_remote s = 1 \<and> served (aa_service_ep s) 2222 = {Endpoint 1 22}"
proof -
  let ?resolve = "\<lambda>_ p. [Endpoint 1 (if p = ''22'' then 22 else 9000)]"
  have "trim ''localhost'' = Inr ''localhost''" "trim ''relay'' = Inr ''relay''" "atol_u16 ''2222'' = 2222" by code_simp+
  then have "offered ?resolve [(''localhost'', ''22'', ''2222'')] 2222 = {Endpoint 1 22}"
    "concat (map (endpoints_of ?resolve) [(''relay'', ''9000'')]) = [Endpoint 1 9000]"
    by (simp_all add: offered_def endpoints_of_def)
  then have "\<exists>s. agent_main [''r-nat-c'', ''c.xml''] (\<lambda>f. f = ''c.xml'')
      (\<lambda>_. Some (agent_file [(''localhost'', ''22'', ''2222'')] [(''relay'', ''9000'')])) 2 ?resolve = Running s
    \<and> agent_reach (agent_file_config [(''localhost'', ''22'', ''2222'')] [(''relay'', ''9000'')]) 2 s
    \<and> aa_next_remote s = length [Endpoint 1 9000]
    \<and> (\<forall>i < length [Endpoint 1 9000]. ri_ep (aa_remotes s i) = [Endpoint 1 9000] ! i \<and> started (ri_tcpclient (aa_remotes s i)))
    \<and> (\<forall>port. served (aa_service_ep s) port = offered ?resolve [(''localhost'', ''22'', ''2222'')] port)"
    by (intro agent_boots [where port = 2222]) (simp_all add: printable_def blank_def config_path_def)
  with \<open>offered ?resolve [(''localhost'', ''22'', ''2222'')] 2222 = {Endpoint 1 22}\<close> show ?thesis
    by (elim exE conjE) (intro exI conjI, assumption, simp, metis)
qed

end
