(* ===== verification/OpQueue.thy ===== *)
theory OpQueue
  imports Prelude
begin

text \<open>
  \<open>asio::detail::op_queue\<close>, the intrusive queue every part of asio keeps its operations in: the
  strand, the timers, the scheduler and the reactor.  An operation is an address with one field,
  \<open>next_\<close>, in a store all queues share; a null pointer is \<open>None\<close>.  The models of the users
  of \<open>op_queue\<close> read it as the list it represents, which the lemmas here justify.
\<close>

subsection \<open>The code\<close>

record op_queue =
  oq_front :: "nat option"
  oq_back :: "nat option"

type_synonym nexts = "nat \<Rightarrow> nat option"

definition new_op_queue :: op_queue where
  "new_op_queue = \<lparr>oq_front = None, oq_back = None\<rparr>"

definition oq_pop :: "nexts \<times> op_queue \<Rightarrow> nexts \<times> op_queue" where
  "oq_pop = (\<lambda>(nx, q).
     case oq_front q of
       None \<Rightarrow> (nx, q)
     | Some tmp \<Rightarrow>
         let q = q\<lparr>oq_front := nx tmp\<rparr>;
             q = (if oq_front q = None then q\<lparr>oq_back := None\<rparr> else q)
         in (nx(tmp := None), q))"

definition oq_push :: "nat \<Rightarrow> nexts \<times> op_queue \<Rightarrow> nexts \<times> op_queue" where
  "oq_push h = (\<lambda>(nx, q).
     let nx = nx(h := None)
     in case oq_back q of
          Some b \<Rightarrow> (nx(b := Some h), q\<lparr>oq_back := Some h\<rparr>)
        | None \<Rightarrow> (nx, q\<lparr>oq_front := Some h, oq_back := Some h\<rparr>))"

text \<open>\<open>push(op_queue& q)\<close> moves the operations of the other queue behind those of this one.\<close>

definition oq_push_queue :: "op_queue \<Rightarrow> nexts \<times> op_queue \<Rightarrow> op_queue \<times> nexts \<times> op_queue" where
  "oq_push_queue q' = (\<lambda>(nx, q).
     case oq_front q' of
       None \<Rightarrow> (q', nx, q)
     | Some other_front \<Rightarrow>
         let (nx, q) = (case oq_back q of
                          Some b \<Rightarrow> (nx(b := Some other_front), q)
                        | None \<Rightarrow> (nx, q\<lparr>oq_front := Some other_front\<rparr>))
         in (q'\<lparr>oq_front := None, oq_back := None\<rparr>, nx, q\<lparr>oq_back := oq_back q'\<rparr>))"

definition oq_empty :: "op_queue \<Rightarrow> bool" where
  "oq_empty q \<longleftrightarrow> oq_front q = None"

text \<open>The destructor pops and destroys until the queue is empty; the result lists what it
  destroys.  The fuel is the number of operations there can be.\<close>

fun oq_destroy :: "nat \<Rightarrow> nexts \<times> op_queue \<Rightarrow> nat list option" where
  "oq_destroy fuel (nx, q) =
     (case oq_front q of
        None \<Rightarrow> Some []
      | Some p \<Rightarrow> (case fuel of
          0 \<Rightarrow> None
        | Suc fuel \<Rightarrow> map_option (\<lambda>ps. p # ps) (oq_destroy fuel (oq_pop (nx, q)))))"

subsection \<open>The list a queue represents\<close>

fun path :: "nexts \<Rightarrow> nat option \<Rightarrow> nat list \<Rightarrow> bool" where
  "path nx p [] = (p = None)"
| "path nx p (x # xs) = (p = Some x \<and> path nx (nx x) xs)"

definition queue_of :: "nexts \<Rightarrow> op_queue \<Rightarrow> nat list \<Rightarrow> bool" where
  "queue_of nx q xs \<longleftrightarrow> distinct xs \<and> path nx (oq_front q) xs
     \<and> oq_back q = (if xs = [] then None else Some (List.last xs))"

lemma path_upd [simp]: "h \<notin> set xs \<Longrightarrow> path (nx(h := y)) p xs = path nx p xs"
  by (induction xs arbitrary: p) auto

lemma path_append:
  "path nx p xs \<Longrightarrow> xs \<noteq> [] \<Longrightarrow> distinct xs \<Longrightarrow> set xs \<inter> set ys = {} \<Longrightarrow> path nx r ys \<Longrightarrow>
    path (nx(List.last xs := r)) p (xs @ ys)"
proof (induction xs arbitrary: p)
  case (Cons x xs)
  show ?case
  proof (cases "xs = []")
    case True
    then have "path (nx(x := r)) p (x # ys)" using Cons.prems path_upd [of x ys nx r r] by (simp del: path_upd)
    then show ?thesis using True by (simp add: fun_upd_def)
  next
    case False
    then have "x \<noteq> List.last xs" using Cons.prems(3) last_in_set by force
    then show ?thesis using Cons False by simp
  qed
qed simp

text \<open>The list is determined by the pointers.\<close>

lemma path_unique: "path nx p xs \<Longrightarrow> path nx p ys \<Longrightarrow> xs = ys"
proof (induction xs arbitrary: p ys)
  case Nil
  then show ?case by (cases ys) auto
next
  case (Cons x xs)
  then show ?case by (cases ys) auto
qed

lemma path_next: "path nx l (xs @ x # ys) \<Longrightarrow> path nx (nx x) ys"
  by (induction xs arbitrary: l) auto

lemma path_first: "path nx l xs \<Longrightarrow> l = (case xs of [] \<Rightarrow> None | x # _ \<Rightarrow> Some x)"
  by (cases xs) auto

lemma path_remove:
  "path nx l (xs @ x # ys) \<Longrightarrow> distinct (xs @ x # ys) \<Longrightarrow>
    path (if xs = [] then nx else nx(List.last xs := nx x)) (if xs = [] then nx x else l) (xs @ ys)"
proof (induction xs arbitrary: l)
  case (Cons z xs)
  show ?case
  proof (cases "xs = []")
    case True
    then show ?thesis using Cons.prems by (auto simp del: fun_upd_apply simp: fun_upd_same fun_upd_other)
  next
    case False
    then have "z \<noteq> List.last xs" using Cons.prems(2) last_in_set [of xs] by auto
    then show ?thesis using Cons.prems Cons.IH [of "nx z"] False by simp
  qed
qed simp

lemma queue_of_new: "queue_of nx new_op_queue []"
  by (simp add: queue_of_def new_op_queue_def)

lemma queue_of_empty: "queue_of nx q xs \<Longrightarrow> oq_empty q \<longleftrightarrow> xs = []"
  by (cases xs) (auto simp: queue_of_def oq_empty_def)

lemma queue_of_front: "queue_of nx q xs \<Longrightarrow> oq_front q = (case xs of [] \<Rightarrow> None | x # _ \<Rightarrow> Some x)"
  by (cases xs) (auto simp: queue_of_def)

lemma queue_of_pop:
  assumes "queue_of nx q (x # xs)" and "oq_pop (nx, q) = (nx', q')"
  shows "queue_of nx' q' xs \<and> nx' = nx(x := None)"
  using assms by (cases xs) (auto simp: queue_of_def oq_pop_def Let_def)

lemma queue_of_pop_Nil: "queue_of nx q [] \<Longrightarrow> oq_pop (nx, q) = (nx, q)"
  by (simp add: queue_of_def oq_pop_def)

lemma queue_of_push:
  assumes "queue_of nx q xs" and "h \<notin> set xs" and "oq_push h (nx, q) = (nx', q')"
  shows "queue_of nx' q' (xs @ [h]) \<and> (\<forall>p. p \<notin> insert h (set xs) \<longrightarrow> nx' p = nx p)"
proof (cases "xs = []")
  case True
  then show ?thesis using assms by (auto simp: queue_of_def oq_push_def Let_def)
next
  case False
  have "path (nx(h := None)) (oq_front q) xs" using assms(1,2) by (simp add: queue_of_def)
  with False assms have "path ((nx(h := None))(List.last xs := Some h)) (oq_front q) (xs @ [h])"
    by (intro path_append) (auto simp: queue_of_def)
  then show ?thesis using assms False by (auto simp: queue_of_def oq_push_def Let_def)
qed

lemma queue_of_push_queue:
  assumes "queue_of nx q xs" and "queue_of nx q2 ys" and "set xs \<inter> set ys = {}"
    and "oq_push_queue q2 (nx, q) = (q2', nx', q')"
  shows "queue_of nx' q' (xs @ ys) \<and> queue_of nx' q2' [] \<and> (\<forall>p. p \<notin> set xs \<longrightarrow> nx' p = nx p)"
proof (cases "xs = [] \<or> ys = []")
  case True
  then show ?thesis using assms
    by (cases ys) (auto simp: queue_of_def oq_push_queue_def Let_def)
next
  case False
  then obtain y where y: "oq_front q2 = Some y" using assms(2) by (cases ys) (auto simp: queue_of_def)
  have "path (nx(List.last xs := oq_front q2)) (oq_front q) (xs @ ys)"
    using assms(1-3) False by (intro path_append) (auto simp: queue_of_def)
  then show ?thesis using assms False y by (auto simp: queue_of_def oq_push_queue_def Let_def)
qed

lemma queue_of_destroy:
  "queue_of nx q xs \<Longrightarrow> length xs \<le> fuel \<Longrightarrow> oq_destroy fuel (nx, q) = Some xs"
proof (induction xs arbitrary: nx q fuel)
  case (Cons x xs)
  obtain nx' q' where p: "oq_pop (nx, q) = (nx', q')" by (cases "oq_pop (nx, q)")
  from queue_of_pop [OF Cons.prems(1) p] have "queue_of nx' q' xs" ..
  from Cons.IH [OF this] Cons.prems show ?case
    by (cases fuel) (auto simp: queue_of_def p)
qed (simp add: queue_of_def)

text \<open>A queue is not affected by pushing to and popping from queues over other operations.\<close>

lemma queue_of_frame:
  assumes "queue_of nx q xs" and "\<forall>p \<in> set xs. nx' p = nx p"
  shows "queue_of nx' q xs"
proof -
  have "path nx p xs \<Longrightarrow> path nx' p xs" for p using assms(2) by (induction xs arbitrary: p) auto
  then show ?thesis using assms(1) by (simp add: queue_of_def)
qed

text \<open>An intrusive queue is a list of operations: pushing one that is in no queue appends it,
  popping removes the front, pushing another queue appends all of it and empties the other, the
  destructor destroys every operation once and in order, and each leaves every queue over other
  operations as it is.\<close>

theorem op_queue_refines_list:
  assumes "queue_of nx q xs" and "queue_of nx q2 ys" and "set xs \<inter> set ys = {}"
    and "h \<notin> set xs \<union> set ys"
  shows "(case oq_push h (nx, q) of (nx', q') \<Rightarrow> queue_of nx' q' (xs @ [h]) \<and> queue_of nx' q2 ys)
    \<and> (case oq_pop (nx, q) of (nx', q') \<Rightarrow> queue_of nx' q' (List.tl xs) \<and> queue_of nx' q2 ys)
    \<and> (case oq_push_queue q2 (nx, q) of (q2', nx', q') \<Rightarrow> queue_of nx' q' (xs @ ys) \<and> queue_of nx' q2' [])
    \<and> oq_destroy (length xs) (nx, q) = Some xs \<and> oq_empty q = (xs = [])"
proof (intro conjI)
  obtain nx1 q1 where push: "oq_push h (nx, q) = (nx1, q1)" by (cases "oq_push h (nx, q)")
  have p: "queue_of nx1 q1 (xs @ [h]) \<and> (\<forall>p. p \<notin> insert h (set xs) \<longrightarrow> nx1 p = nx p)"
    by (rule queue_of_push [OF assms(1) _ push]) (use assms(4) in simp)
  moreover have "z \<notin> insert h (set xs)" if "z \<in> set ys" for z using assms(3,4) that by auto
  ultimately have "queue_of nx1 q2 ys" by (intro queue_of_frame [OF assms(2)]) simp
  with p push show "case oq_push h (nx, q) of (nx', q') \<Rightarrow> queue_of nx' q' (xs @ [h]) \<and> queue_of nx' q2 ys"
    by simp
  show "case oq_pop (nx, q) of (nx', q') \<Rightarrow> queue_of nx' q' (List.tl xs) \<and> queue_of nx' q2 ys"
  proof (cases xs)
    case Nil
    then show ?thesis using queue_of_pop_Nil assms(1,2) by simp
  next
    case (Cons x xs')
    obtain nx1 q1 where pop: "oq_pop (nx, q) = (nx1, q1)" by (cases "oq_pop (nx, q)")
    have p: "queue_of nx1 q1 xs' \<and> nx1 = nx(x := None)"
      by (rule queue_of_pop [OF _ pop]) (use assms(1) Cons in simp)
    then have "queue_of nx1 q2 ys"
      by (intro queue_of_frame [OF assms(2)]) (use assms(3) Cons in auto)
    with p pop Cons show ?thesis by auto
  qed
  obtain q3 nx1 q1 where all: "oq_push_queue q2 (nx, q) = (q3, nx1, q1)" by (cases "oq_push_queue q2 (nx, q)")
  from queue_of_push_queue [OF assms(1-3) all] all
  show "case oq_push_queue q2 (nx, q) of (q2', nx', q') \<Rightarrow> queue_of nx' q' (xs @ ys) \<and> queue_of nx' q2' []"
    by simp
  show "oq_destroy (length xs) (nx, q) = Some xs" by (rule queue_of_destroy [OF assms(1)]) simp
  show "oq_empty q = (xs = [])" by (rule queue_of_empty [OF assms(1)])
qed

theorem op_queue_refines_list_witness:
  "queue_of (fst (oq_push 4 (oq_push 3 (\<lambda>_. None, new_op_queue)))) (snd (oq_push 4 (oq_push 3 (\<lambda>_. None, new_op_queue)))) [3, 4]"
  using op_queue_refines_list [of "\<lambda>_. None" "\<lparr>oq_front = Some 3, oq_back = Some 3\<rparr>" "[3]" new_op_queue "[]" 4]
  by (simp add: queue_of_def new_op_queue_def oq_push_def Let_def)

end
