(* ===== verification/Strand.thy ===== *)
theory Strand
  imports Prelude
begin

text \<open>
  \<open>asio::detail::strand_service\<close>: what \<open>strand_.wrap\<close> and \<open>strand_.post\<close> of both
  applications rest on.  Any number of threads submit handlers and run them; the steps are as fine
  as the code: what is done under \<open>mutex_\<close> is one step, what is done outside of it, like the
  accesses to \<open>ready_queue_\<close>, is a step of its own.  The theorems justify the application
  models, in which a handler is one transition: handlers of a strand never overlap, and run once
  each in the order of their submission.
\<close>

subsection \<open>State\<close>

text \<open>Where a thread is in \<open>do_complete\<close> or \<open>dispatch\<close>: \<open>Outside\<close> of the strand, in the loop
  over the ready queue, in a handler (\<open>Immediate\<close>: called from \<open>dispatch\<close>), in the
  destructor of \<open>on_exit\<close> before its mutex, and after it with more handlers to schedule.
  \<open>th_call\<close> is what a \<open>do_post\<close> or \<open>do_dispatch\<close> that took the lock has left to do.\<close>

datatype 'h mode = Outside | Draining | Handling 'h | Immediate 'h | Leaving | Reposting

datatype 'h submit_call = NoCall | Pushing 'h | Posting

record 'h strand_thread =
  th_mode :: "'h mode"
  th_call :: "'h submit_call"

text \<open>\<open>st_scheduled\<close> counts the entries of the strand in the queue of its \<open>io_service\<close>.
  \<open>st_submitted\<close> and \<open>st_done\<close> record the handlers submitted, in the order in which their
  calls held the mutex, and those that have run.\<close>

record 'h strand =
  st_locked :: bool
  st_waiting :: "'h list"
  st_ready :: "'h list"
  st_scheduled :: nat
  st_threads :: "nat \<Rightarrow> 'h strand_thread"
  st_submitted :: "'h list"
  st_done :: "'h list"

definition idle_thread :: "'h strand_thread" where
  "idle_thread = \<lparr>th_mode = Outside, th_call = NoCall\<rparr>"

definition new_strand :: "'h strand" where
  "new_strand = \<lparr>st_locked = False, st_waiting = [], st_ready = [], st_scheduled = 0,
     st_threads = (\<lambda>_. idle_thread), st_submitted = [], st_done = []\<rparr>"

definition set_mode :: "nat \<Rightarrow> 'h mode \<Rightarrow> 'h strand \<Rightarrow> 'h strand" where
  "set_mode t m s = s\<lparr>st_threads := (st_threads s)(t := (st_threads s t)\<lparr>th_mode := m\<rparr>)\<rparr>"

definition set_call :: "nat \<Rightarrow> 'h submit_call \<Rightarrow> 'h strand \<Rightarrow> 'h strand" where
  "set_call t c s = s\<lparr>st_threads := (st_threads s)(t := (st_threads s t)\<lparr>th_call := c\<rparr>)\<rparr>"

subsection \<open>The operations\<close>

text \<open>The part of \<open>do_post\<close> under the mutex.\<close>

definition strand_do_post :: "nat \<Rightarrow> 'h \<Rightarrow> 'h strand \<Rightarrow> 'h strand" where
  "strand_do_post t h s =
     (let s = s\<lparr>st_submitted := st_submitted s @ [h]\<rparr>
      in if st_locked s then s\<lparr>st_waiting := st_waiting s @ [h]\<rparr>
         else set_call t (Pushing h) (s\<lparr>st_locked := True\<rparr>))"

text \<open>\<open>can_dispatch\<close>: the thread runs the \<open>io_service\<close> of the strand.\<close>

definition strand_do_dispatch :: "nat \<Rightarrow> bool \<Rightarrow> 'h \<Rightarrow> 'h strand \<Rightarrow> 'h strand" where
  "strand_do_dispatch t can_dispatch h s =
     (if can_dispatch \<and> \<not> st_locked s
      then set_mode t (Immediate h) (s\<lparr>st_submitted := st_submitted s @ [h], st_locked := True\<rparr>)
      else strand_do_post t h s)"

text \<open>\<open>call_stack<strand_impl>::contains\<close>; there \<open>dispatch\<close> calls the handler in place, as a part
  of the handler that is running.\<close>

fun running_in_this_thread :: "'h mode \<Rightarrow> bool" where
  "running_in_this_thread Outside = False"
| "running_in_this_thread _ = True"

definition strand_dispatch :: "nat \<Rightarrow> bool \<Rightarrow> 'h \<Rightarrow> 'h strand \<Rightarrow> 'h strand" where
  "strand_dispatch t can_dispatch h s =
     (if running_in_this_thread (th_mode (st_threads s t)) then s else strand_do_dispatch t can_dispatch h s)"

text \<open>What \<open>do_post\<close> does after releasing the mutex: \<open>ready_queue_.push(op)\<close>, then
  \<open>post_immediate_completion\<close>.\<close>

definition strand_push_ready :: "nat \<Rightarrow> 'h \<Rightarrow> 'h strand \<Rightarrow> 'h strand" where
  "strand_push_ready t h s = set_call t Posting (s\<lparr>st_ready := st_ready s @ [h]\<rparr>)"

definition strand_schedule :: "nat \<Rightarrow> 'h strand \<Rightarrow> 'h strand" where
  "strand_schedule t s = set_call t NoCall (s\<lparr>st_scheduled := st_scheduled s + 1\<rparr>)"

text \<open>\<open>do_complete\<close>: the \<open>io_service\<close> takes the strand from its queue; then the loop.\<close>

definition strand_enter :: "nat \<Rightarrow> 'h strand \<Rightarrow> 'h strand" where
  "strand_enter t s = set_mode t Draining (s\<lparr>st_scheduled := st_scheduled s - 1\<rparr>)"

definition strand_next :: "nat \<Rightarrow> 'h strand \<Rightarrow> 'h strand" where
  "strand_next t s =
     (case st_ready s of
        [] \<Rightarrow> set_mode t Leaving s
      | h # hs \<Rightarrow> set_mode t (Handling h) (s\<lparr>st_ready := hs\<rparr>))"

text \<open>A handler returns or throws; the exception leaves through the destructor of \<open>on_exit\<close>.\<close>

definition strand_return :: "nat \<Rightarrow> 'h \<Rightarrow> 'h mode \<Rightarrow> 'h strand \<Rightarrow> 'h strand" where
  "strand_return t h m s = set_mode t m (s\<lparr>st_done := st_done s @ [h]\<rparr>)"

text \<open>\<open>~on_do_complete_exit\<close> and \<open>~on_dispatch_exit\<close>: the part under the mutex, then the post.\<close>

definition strand_exit :: "nat \<Rightarrow> 'h strand \<Rightarrow> 'h strand" where
  "strand_exit t s =
     (let s = s\<lparr>st_ready := st_ready s @ st_waiting s, st_waiting := []\<rparr>;
          more_handlers = (st_ready s \<noteq> []);
          s = s\<lparr>st_locked := more_handlers\<rparr>
      in set_mode t (if more_handlers then Reposting else Outside) s)"

definition strand_repost :: "nat \<Rightarrow> 'h strand \<Rightarrow> 'h strand" where
  "strand_repost t s = set_mode t Outside (s\<lparr>st_scheduled := st_scheduled s + 1\<rparr>)"

text \<open>\<open>construct\<close> picks one of 193 implementations; strands may share one.\<close>

definition num_implementations :: nat where "num_implementations = 193"

definition strand_index :: "64 word \<Rightarrow> 64 word \<Rightarrow> nat" where
  "strand_index address salt =
     (let index = address + drop_bit 3 address;
          index = index XOR (salt + 0x9e3779b9 + push_bit 6 index + drop_bit 2 index)
      in unat index mod num_implementations)"

definition strand_shutdown :: "'h strand \<Rightarrow> 'h list \<times> 'h strand" where
  "strand_shutdown s = (st_waiting s @ st_ready s, s\<lparr>st_waiting := [], st_ready := []\<rparr>)"

subsection \<open>Steps\<close>

text \<open>User code, in a handler or outside of the strand, submits; every other step is the service's.\<close>

definition in_user_code :: "'h strand_thread \<Rightarrow> bool" where
  "in_user_code th \<longleftrightarrow> th_call th = NoCall
     \<and> (case th_mode th of Outside \<Rightarrow> True | Handling _ \<Rightarrow> True | Immediate _ \<Rightarrow> True | _ \<Rightarrow> False)"

inductive strand_submit :: "'h strand \<Rightarrow> 'h strand \<Rightarrow> bool" where
  su_post: "in_user_code (st_threads s t) \<Longrightarrow> strand_submit s (strand_do_post t h s)"
| su_dispatch: "in_user_code (st_threads s t) \<Longrightarrow> strand_submit s (strand_dispatch t can_dispatch h s)"

inductive strand_internal :: "'h strand \<Rightarrow> 'h strand \<Rightarrow> bool" where
  si_push: "th_call (st_threads s t) = Pushing h \<Longrightarrow> strand_internal s (strand_push_ready t h s)"
| si_schedule: "th_call (st_threads s t) = Posting \<Longrightarrow> strand_internal s (strand_schedule t s)"
| si_enter: "st_scheduled s > 0 \<Longrightarrow> st_threads s t = idle_thread \<Longrightarrow> strand_internal s (strand_enter t s)"
| si_next: "st_threads s t = \<lparr>th_mode = Draining, th_call = NoCall\<rparr> \<Longrightarrow> strand_internal s (strand_next t s)"
| si_return: "st_threads s t = \<lparr>th_mode = Handling h, th_call = NoCall\<rparr> \<Longrightarrow>
    strand_internal s (strand_return t h Draining s)"
| si_throw: "st_threads s t = \<lparr>th_mode = Handling h, th_call = NoCall\<rparr> \<Longrightarrow>
    strand_internal s (strand_return t h Leaving s)"
| si_return_immediate: "st_threads s t = \<lparr>th_mode = Immediate h, th_call = NoCall\<rparr> \<Longrightarrow>
    strand_internal s (strand_return t h Leaving s)"
| si_exit: "st_threads s t = \<lparr>th_mode = Leaving, th_call = NoCall\<rparr> \<Longrightarrow> strand_internal s (strand_exit t s)"
| si_repost: "st_threads s t = \<lparr>th_mode = Reposting, th_call = NoCall\<rparr> \<Longrightarrow> strand_internal s (strand_repost t s)"

inductive strand_reach :: "'h strand \<Rightarrow> bool" where
  sr_new: "strand_reach new_strand"
| sr_submit: "strand_reach s \<Longrightarrow> strand_submit s s' \<Longrightarrow> strand_reach s'"
| sr_internal: "strand_reach s \<Longrightarrow> strand_internal s s' \<Longrightarrow> strand_reach s'"

subsection \<open>The lock\<close>

text \<open>Who has the lock of the strand: nobody, the queue of the \<open>io_service\<close>, or one thread.\<close>

datatype 'h holder = Nobody | Queue | Thread nat "'h strand_thread"

fun hand :: "'h strand_thread \<Rightarrow> 'h list" where
  "hand th = (case th_call th of Pushing h \<Rightarrow> [h] | _ \<Rightarrow>
     (case th_mode th of Handling h \<Rightarrow> [h] | Immediate h \<Rightarrow> [h] | _ \<Rightarrow> []))"

text \<open>The states a holding thread can be in; the ready queue is as the code left it there.\<close>

fun holding :: "'h strand_thread \<Rightarrow> 'h list \<Rightarrow> bool" where
  "holding th ready = (case th_call th of
     Pushing h \<Rightarrow> th_mode th = Outside \<and> ready = []
   | Posting \<Rightarrow> th_mode th = Outside \<and> ready \<noteq> []
   | NoCall \<Rightarrow> (case th_mode th of
       Outside \<Rightarrow> False | Immediate h \<Rightarrow> ready = [] | Reposting \<Rightarrow> ready \<noteq> [] | _ \<Rightarrow> True))"

fun held_by :: "'h holder \<Rightarrow> 'h strand \<Rightarrow> bool" where
  "held_by Nobody s = (\<not> st_locked s \<and> st_scheduled s = 0 \<and> st_threads s = (\<lambda>_. idle_thread)
     \<and> st_ready s = [] \<and> st_waiting s = [] \<and> st_submitted s = st_done s)"
| "held_by Queue s = (st_locked s \<and> st_scheduled s = 1 \<and> st_threads s = (\<lambda>_. idle_thread)
     \<and> st_ready s \<noteq> [] \<and> st_submitted s = st_done s @ st_ready s @ st_waiting s)"
| "held_by (Thread t th) s = (st_locked s \<and> st_scheduled s = 0 \<and> st_threads s = (\<lambda>_. idle_thread)(t := th)
     \<and> holding th (st_ready s) \<and> st_submitted s = st_done s @ hand th @ st_ready s @ st_waiting s)"

definition strand_inv :: "'h strand \<Rightarrow> bool" where
  "strand_inv s \<longleftrightarrow> (\<exists>p. held_by p s)"

lemmas strand_ops = strand_do_post_def strand_do_dispatch_def strand_dispatch_def strand_push_ready_def
  strand_schedule_def strand_enter_def strand_next_def strand_return_def strand_exit_def strand_repost_def
  set_mode_def set_call_def Let_def idle_thread_def

lemma other_thread: "((\<lambda>_. idle_thread)(t := th)) u = x \<longleftrightarrow> (if u = t then th = x else x = idle_thread)"
  by auto

lemma idle_again [simp]: "th_mode th = Outside \<Longrightarrow>
    (\<lambda>_. \<lparr>th_mode = Outside, th_call = NoCall\<rparr>)(t := th\<lparr>th_call := NoCall\<rparr>) = (\<lambda>_. \<lparr>th_mode = Outside, th_call = NoCall\<rparr>)"
  by (cases th) auto

lemma post_inv: "held_by p s \<Longrightarrow> in_user_code (st_threads s t) \<Longrightarrow> strand_inv (strand_do_post t h s)"
proof (cases p)
  case Nobody
  moreover assume "held_by p s"
  ultimately show ?thesis
    by (auto simp: strand_inv_def strand_ops intro!: exI [of _ "Thread t \<lparr>th_mode = Outside, th_call = Pushing h\<rparr>"])
next
  case Queue
  moreover assume "held_by p s"
  ultimately show ?thesis by (auto simp: strand_inv_def strand_ops intro!: exI [of _ Queue])
next
  case (Thread u th)
  moreover assume "held_by p s"
  ultimately show ?thesis by (auto simp: strand_inv_def strand_ops simp del: hand.simps holding.simps intro!: exI [of _ "Thread u th"])
qed

lemma submit_inv:
  assumes "strand_submit s s'" and "strand_inv s"
  shows "strand_inv s'"
  using assms(1)
proof cases
  case (su_post t h)
  moreover obtain p where "held_by p s" using assms(2) by (auto simp: strand_inv_def)
  ultimately show ?thesis using post_inv by simp
next
  case (su_dispatch t can_dispatch h)
  obtain p where p: "held_by p s" using assms(2) by (auto simp: strand_inv_def)
  show ?thesis
  proof (cases "can_dispatch \<and> \<not> st_locked s \<and> \<not> running_in_this_thread (th_mode (st_threads s t))")
    case True
    then have "held_by (Thread t \<lparr>th_mode = Immediate h, th_call = NoCall\<rparr>) s'"
      using p su_dispatch(1) by (cases p) (auto simp: strand_ops)
    then show ?thesis unfolding strand_inv_def by blast
  next
    case False
    then have "s' = s \<or> s' = strand_do_post t h s"
      using su_dispatch(1) by (auto simp: strand_dispatch_def strand_do_dispatch_def)
    then show ?thesis using post_inv [OF p su_dispatch(2)] assms(2) by blast
  qed
qed

text \<open>What is left to do: eight units for a handler that has not run, and the steps the holder
  has left until the next one does.\<close>

fun phase :: "'h holder \<Rightarrow> 'h list \<Rightarrow> nat" where
  "phase Nobody ready = 0"
| "phase Queue ready = 4"
| "phase (Thread t th) ready = (case th_call th of
     Pushing h \<Rightarrow> 7
   | Posting \<Rightarrow> 5
   | NoCall \<Rightarrow> (case th_mode th of
       Draining \<Rightarrow> if ready = [] then 7 else 3
     | Handling h \<Rightarrow> 2
     | Leaving \<Rightarrow> 6
     | Reposting \<Rightarrow> 5
     | _ \<Rightarrow> 0))"

definition weight :: "'h holder \<Rightarrow> 'h strand \<Rightarrow> nat" where
  "weight p s = 8 * (length (st_submitted s) - length (st_done s)) + phase p (st_ready s)"

definition to_mode :: "nat \<Rightarrow> 'h mode \<Rightarrow> 'h holder" where
  "to_mode t m = Thread t \<lparr>th_mode = m, th_call = NoCall\<rparr>"

lemma internal_step:
  assumes "strand_internal s s'" and "held_by p s"
  shows "\<exists>p'. held_by p' s' \<and> weight p' s' < weight p s \<and> st_submitted s' = st_submitted s"
  using assms(1)
proof cases
  case (si_push t h)
  then show ?thesis using assms(2)
    by (cases p) (auto simp: strand_ops weight_def other_thread split: if_splits
        intro!: exI [of _ "Thread t ((st_threads s t)\<lparr>th_call := Posting\<rparr>)"])
next
  case (si_schedule t)
  then show ?thesis using assms(2)
    by (cases p) (auto simp: strand_ops weight_def other_thread split: if_splits intro!: exI [of _ Queue])
next
  case (si_enter t)
  then show ?thesis using assms(2)
    by (cases p) (auto simp: strand_ops weight_def to_mode_def intro!: exI [of _ "to_mode t Draining"])
next
  case (si_next t)
  then show ?thesis using assms(2)
    by (cases p; cases "st_ready s")
      (auto simp: strand_ops weight_def to_mode_def other_thread split: if_splits
        intro!: exI [of _ "to_mode t (if st_ready s = [] then Leaving else Handling (hd (st_ready s)))"])
next
  case (si_return t h)
  then show ?thesis using assms(2)
    by (cases p) (auto simp: strand_ops weight_def to_mode_def other_thread split: if_splits
        intro!: exI [of _ "to_mode t Draining"])
next
  case (si_throw t h)
  then show ?thesis using assms(2)
    by (cases p) (auto simp: strand_ops weight_def to_mode_def other_thread split: if_splits
        intro!: exI [of _ "to_mode t Leaving"])
next
  case (si_return_immediate t h)
  then show ?thesis using assms(2)
    by (cases p) (auto simp: strand_ops weight_def to_mode_def other_thread split: if_splits
        intro!: exI [of _ "to_mode t Leaving"])
next
  case (si_exit t)
  then show ?thesis using assms(2)
    by (cases p; cases "st_ready s @ st_waiting s = []")
      (auto simp: strand_ops weight_def to_mode_def other_thread split: if_splits
        intro!: exI [of _ "if st_ready s @ st_waiting s = [] then Nobody else to_mode t Reposting"])
next
  case (si_repost t)
  then show ?thesis using assms(2)
    by (cases p) (auto simp: strand_ops weight_def other_thread split: if_splits intro!: exI [of _ Queue])
qed

lemma internal_inv: "strand_internal s s' \<Longrightarrow> strand_inv s \<Longrightarrow> strand_inv s'"
  using internal_step unfolding strand_inv_def by blast

lemma strand_reach_inv: "strand_reach s \<Longrightarrow> strand_inv s"
proof (induction rule: strand_reach.induct)
  case sr_new
  have "held_by Nobody (new_strand :: 'a strand)" by (simp add: new_strand_def)
  then show ?case unfolding strand_inv_def by blast
qed (use submit_inv internal_inv in blast)+

text \<open>C8: whatever threads submit and run handlers, and wherever they are interrupted, at most one
  thread is inside the strand at any time: in a handler, at the unlocked accesses to the ready
  queue, or between taking the lock and scheduling the strand.  While one is, the strand is locked
  and not in the queue of the \<open>io_service\<close>, so no second thread can be given it; and it is never
  queued twice.\<close>

theorem strand_exclusive:
  assumes "strand_reach s"
  shows "(st_threads s t \<noteq> idle_thread \<and> st_threads s u \<noteq> idle_thread \<longrightarrow> t = u)
    \<and> (st_threads s t \<noteq> idle_thread \<longrightarrow> st_locked s \<and> st_scheduled s = 0) \<and> st_scheduled s \<le> 1"
proof -
  obtain p where "held_by p s" using strand_reach_inv [OF assms] by (auto simp: strand_inv_def)
  then show ?thesis by (cases p) auto
qed

definition demo_strand :: "nat strand" where
  "demo_strand = strand_next 2 (strand_enter 2 (strand_do_post 3 8 (strand_schedule 1 (strand_push_ready 1 7
     (strand_do_post 1 7 new_strand)))))"

lemma demo_strand_reach: "strand_reach demo_strand"
proof -
  note ops = strand_ops new_strand_def in_user_code_def
  have a: "strand_reach (strand_do_post 1 7 new_strand)"
    by (rule sr_submit [OF sr_new], rule su_post) (simp add: ops)
  have b: "strand_reach (strand_schedule 1 (strand_push_ready 1 7 (strand_do_post 1 7 new_strand)))"
    by (rule sr_internal [OF sr_internal [OF a si_push] si_schedule]) (simp_all add: ops)
  have c: "strand_reach (strand_do_post 3 8 (strand_schedule 1 (strand_push_ready 1 7 (strand_do_post 1 7 new_strand))))"
    by (rule sr_submit [OF b], rule su_post) (simp add: ops)
  show ?thesis unfolding demo_strand_def
    by (rule sr_internal [OF sr_internal [OF c si_enter] si_next]) (simp_all add: ops)
qed

theorem strand_exclusive_witness:
  "strand_reach demo_strand \<and> st_threads demo_strand 2 \<noteq> idle_thread
    \<and> st_threads demo_strand 1 = idle_thread \<and> st_locked demo_strand"
proof -
  have "st_threads demo_strand 2 \<noteq> idle_thread" by (simp add: demo_strand_def strand_ops new_strand_def)
  then show ?thesis
    using strand_exclusive [OF demo_strand_reach, of 1 2] strand_exclusive [OF demo_strand_reach, of 2 2]
      demo_strand_reach by auto
qed

lemma internal_bound:
  "(strand_internal ^^ n) s s' \<Longrightarrow> held_by p s \<Longrightarrow>
    \<exists>p'. held_by p' s' \<and> weight p' s' + n \<le> weight p s \<and> st_submitted s' = st_submitted s"
proof (induction n arbitrary: s')
  case (Suc n)
  then obtain u where u: "(strand_internal ^^ n) s u" "strand_internal u s'" by auto
  with Suc obtain q where "held_by q u" "weight q u + n \<le> weight p s" "st_submitted u = st_submitted s" by blast
  then show ?case using internal_step [OF u(2)] by fastforce
qed auto

text \<open>As long as somebody has the lock, somebody has a step.\<close>

lemma holder_steps:
  assumes "held_by p s" and "p \<noteq> Nobody"
  shows "\<exists>s'. strand_internal s s'"
proof (cases p)
  case Queue
  then show ?thesis using assms si_enter [of s 0] by auto
next
  case (Thread t th)
  have s: "st_threads s t = th" "holding th (st_ready s)" using assms(1) Thread by simp_all
  obtain m c where th: "th = \<lparr>th_mode = m, th_call = c\<rparr>" by (cases th)
  show ?thesis
  proof (cases c)
    case NoCall
    then show ?thesis using s th
      by (cases m) (auto intro: si_next si_return si_return_immediate si_exit si_repost)
  next
    case (Pushing h)
    then have "th_call (st_threads s t) = Pushing h" using s th by simp
    then show ?thesis by (blast intro: si_push)
  next
    case Posting
    then have "th_call (st_threads s t) = Posting" using s th by simp
    then show ?thesis by (blast intro: si_schedule)
  qed
qed (use assms in simp)

text \<open>C9: the handlers run in the order of their submission, each once: what has run is a prefix of
  what was submitted, and a handler that is running is the next of it.  Once no more are
  submitted, the service is done after a bounded number of steps, and where it has no step left,
  every handler submitted has run and the strand is unlocked; a handler that throws loses none.\<close>

theorem strand_runs_in_order:
  assumes "strand_reach s"
  shows "(\<exists>rest. st_submitted s = st_done s @ rest
      \<and> (\<forall>t h. th_mode (st_threads s t) \<in> {Handling h, Immediate h} \<longrightarrow> (\<exists>hs. rest = h # hs)))
    \<and> (\<forall>n s'. (strand_internal ^^ n) s s' \<longrightarrow> n \<le> 8 * (length (st_submitted s) - length (st_done s)) + 7)
    \<and> (\<forall>s'. strand_internal\<^sup>*\<^sup>* s s' \<and> (\<nexists>u. strand_internal s' u) \<longrightarrow>
        st_done s' = st_submitted s \<and> \<not> st_locked s')"
proof (intro conjI allI impI)
  obtain p where p: "held_by p s" using strand_reach_inv [OF assms] by (auto simp: strand_inv_def)
  then show "\<exists>rest. st_submitted s = st_done s @ rest
      \<and> (\<forall>t h. th_mode (st_threads s t) \<in> {Handling h, Immediate h} \<longrightarrow> (\<exists>hs. rest = h # hs))"
    by (cases p) (auto simp: idle_thread_def split: submit_call.splits mode.splits)
  have "phase p (st_ready s) \<le> 7" by (cases p) (auto split: submit_call.splits mode.splits)
  then show "n \<le> 8 * (length (st_submitted s) - length (st_done s)) + 7" if "(strand_internal ^^ n) s s'" for n s'
    using internal_bound [OF that p] by (auto simp: weight_def)
  fix s' assume a: "strand_internal\<^sup>*\<^sup>* s s' \<and> (\<nexists>u. strand_internal s' u)"
  then obtain n where "(strand_internal ^^ n) s s'" using rtranclp_imp_relpowp by fastforce
  from internal_bound [OF this p] obtain q where q: "held_by q s'" "st_submitted s' = st_submitted s" by blast
  then have "q = Nobody" using holder_steps [OF q(1)] a by blast
  then show "st_done s' = st_submitted s" "\<not> st_locked s'" using q by simp_all
qed

theorem strand_runs_in_order_witness:
  "strand_reach demo_strand \<and> st_submitted demo_strand = [7, 8] \<and> st_done demo_strand = []
    \<and> (\<exists>s'. strand_internal demo_strand s') \<and> (\<nexists>s'. (strand_internal ^^ 24) demo_strand s')"
proof -
  have s: "st_threads demo_strand 2 = \<lparr>th_mode = Handling 7, th_call = NoCall\<rparr>" "st_submitted demo_strand = [7, 8]"
    "st_done demo_strand = []" by (simp_all add: demo_strand_def strand_ops new_strand_def)
  have "n \<le> 23" if "(strand_internal ^^ n) demo_strand s'" for n s'
    using strand_runs_in_order [OF demo_strand_reach] that s(2,3) by auto
  from this [of 24] have "\<nexists>s'. (strand_internal ^^ 24) demo_strand s'" by force
  then show ?thesis using demo_strand_reach si_return [OF s(1)] s(2,3) by blast
qed

end
