(* ===== verification/TimerQueue.thy ===== *)
theory TimerQueue
  imports Prelude "HOL-Library.Multiset"
begin

text \<open>
  \<open>asio::detail::timer_queue\<close>: the binary heap of timers, each of which knows its index in it,
  and the doubly linked list of the active ones.  The connect timeout of the clients waits in it.  A
  time is any linear order; \<open>Time_Traits::now()\<close> is an argument.
\<close>

subsection \<open>State\<close>

record 'o per_timer =
  pt_ops :: "'o list"
  pt_heap_index :: nat
  pt_next :: "nat option"
  pt_prev :: "nat option"

record ('t, 'o) timer_queue =
  tq_timers :: "nat option"
  tq_heap :: "('t \<times> nat) list"
  tq_data :: "nat \<Rightarrow> 'o per_timer"

datatype wait_ec = wait_success | operation_aborted

definition upd_timer :: "nat \<Rightarrow> ('o per_timer \<Rightarrow> 'o per_timer) \<Rightarrow> ('t, 'o) timer_queue \<Rightarrow> ('t, 'o) timer_queue" where
  "upd_timer t f s = s\<lparr>tq_data := (tq_data s)(t := f (tq_data s t))\<rparr>"

subsection \<open>The heap\<close>

definition swap_heap :: "nat \<Rightarrow> nat \<Rightarrow> ('t, 'o) timer_queue \<Rightarrow> ('t, 'o) timer_queue" where
  "swap_heap i j s =
     (let a = tq_heap s ! i; b = tq_heap s ! j
      in upd_timer (snd a) (\<lambda>d. d\<lparr>pt_heap_index := j\<rparr>)
           (upd_timer (snd b) (\<lambda>d. d\<lparr>pt_heap_index := i\<rparr>)
             (s\<lparr>tq_heap := (tq_heap s)[i := b, j := a]\<rparr>)))"

fun up_heap :: "nat \<Rightarrow> ('t::linorder, 'o) timer_queue \<Rightarrow> ('t, 'o) timer_queue" where
  "up_heap index s =
     (if index > 0
      then let parent = (index - 1) div 2
           in if \<not> fst (tq_heap s ! index) < fst (tq_heap s ! parent) then s
              else up_heap parent (swap_heap index parent s)
      else s)"

lemma length_swap_heap [simp]: "length (tq_heap (swap_heap i j s)) = length (tq_heap s)"
  by (simp add: swap_heap_def upd_timer_def Let_def)

definition min_child :: "('t::linorder \<times> nat) list \<Rightarrow> nat \<Rightarrow> nat" where
  "min_child heap child =
     (if child + 1 = length heap \<or> fst (heap ! child) < fst (heap ! (child + 1)) then child else child + 1)"

function down_heap :: "nat \<Rightarrow> ('t::linorder, 'o) timer_queue \<Rightarrow> ('t, 'o) timer_queue" where
  "down_heap index s =
     (let child = index * 2 + 1
      in if child < length (tq_heap s)
         then let m = min_child (tq_heap s) child
              in if fst (tq_heap s ! index) < fst (tq_heap s ! m) then s
                 else down_heap m (swap_heap index m s)
         else s)"
  by auto
termination
  by (relation "measure (\<lambda>(index, s). length (tq_heap s) - index)") (auto simp: min_child_def)

declare up_heap.simps [simp del] down_heap.simps [simp del]

subsection \<open>Removing and adding a timer\<close>

definition pop_back :: "('t, 'o) timer_queue \<Rightarrow> ('t, 'o) timer_queue" where
  "pop_back s = s\<lparr>tq_heap := butlast (tq_heap s)\<rparr>"

definition remove_from_heap :: "nat \<Rightarrow> ('t::linorder, 'o) timer_queue \<Rightarrow> ('t, 'o) timer_queue" where
  "remove_from_heap index s =
     (if tq_heap s \<noteq> [] \<and> index < length (tq_heap s)
      then if index = length (tq_heap s) - 1 then pop_back s
           else let s = pop_back (swap_heap index (length (tq_heap s) - 1) s)
                in if index > 0 \<and> fst (tq_heap s ! index) < fst (tq_heap s ! ((index - 1) div 2))
                   then up_heap index s
                   else down_heap index s
      else s)"

definition unlink_timer :: "nat \<Rightarrow> ('t, 'o) timer_queue \<Rightarrow> ('t, 'o) timer_queue" where
  "unlink_timer t s =
     (let s = (if tq_timers s = Some t then s\<lparr>tq_timers := pt_next (tq_data s t)\<rparr> else s);
          s = (case pt_prev (tq_data s t) of None \<Rightarrow> s
               | Some p \<Rightarrow> upd_timer p (\<lambda>d. d\<lparr>pt_next := pt_next (tq_data s t)\<rparr>) s);
          s = (case pt_next (tq_data s t) of None \<Rightarrow> s
               | Some n \<Rightarrow> upd_timer n (\<lambda>d. d\<lparr>pt_prev := pt_prev (tq_data s t)\<rparr>) s)
      in upd_timer t (\<lambda>d. d\<lparr>pt_next := None, pt_prev := None\<rparr>) s)"

definition remove_timer :: "nat \<Rightarrow> ('t::linorder, 'o) timer_queue \<Rightarrow> ('t, 'o) timer_queue" where
  "remove_timer t s = unlink_timer t (remove_from_heap (pt_heap_index (tq_data s t)) s)"

definition link_timer :: "nat \<Rightarrow> ('t, 'o) timer_queue \<Rightarrow> ('t, 'o) timer_queue" where
  "link_timer t s =
     (let s = upd_timer t (\<lambda>d. d\<lparr>pt_next := tq_timers s, pt_prev := None\<rparr>) s;
          s = (case tq_timers s of None \<Rightarrow> s | Some h \<Rightarrow> upd_timer h (\<lambda>d. d\<lparr>pt_prev := Some t\<rparr>) s)
      in s\<lparr>tq_timers := Some t\<rparr>)"

text \<open>\<open>timer.prev_ == 0 && &timer != timers_\<close>: the timer is not in the list.\<close>

definition inactive :: "nat \<Rightarrow> ('t, 'o) timer_queue \<Rightarrow> bool" where
  "inactive t s \<longleftrightarrow> pt_prev (tq_data s t) = None \<and> tq_timers s \<noteq> Some t"

definition push_heap :: "'t::linorder \<Rightarrow> nat \<Rightarrow> ('t, 'o) timer_queue \<Rightarrow> ('t, 'o) timer_queue" where
  "push_heap time t s =
     (let n = length (tq_heap s)
      in up_heap n (upd_timer t (\<lambda>d. d\<lparr>pt_heap_index := n\<rparr>) (s\<lparr>tq_heap := tq_heap s @ [(time, t)]\<rparr>)))"

text \<open>The clocks of the program are those of \<open>std::chrono\<close>, for which no time is infinite.\<close>

definition enqueue_timer :: "'t::linorder \<Rightarrow> nat \<Rightarrow> 'o \<Rightarrow> ('t, 'o) timer_queue \<Rightarrow> bool \<times> ('t, 'o) timer_queue" where
  "enqueue_timer time t op s =
     (let s = (if inactive t s then link_timer t (push_heap time t s) else s);
          s = upd_timer t (\<lambda>d. d\<lparr>pt_ops := pt_ops d @ [op]\<rparr>) s
      in (pt_heap_index (tq_data s t) = 0 \<and> hd (pt_ops (tq_data s t)) = op, s))"

subsection \<open>The operations of the reactor\<close>

definition tq_empty :: "('t, 'o) timer_queue \<Rightarrow> bool" where
  "tq_empty s \<longleftrightarrow> tq_timers s = None"

text \<open>\<open>ops.push(timer->op_queue_)\<close> empties the queue of the timer.\<close>

definition take_ops :: "nat \<Rightarrow> ('t, 'o) timer_queue \<Rightarrow> ('t, 'o) timer_queue" where
  "take_ops t = upd_timer t (\<lambda>d. d\<lparr>pt_ops := []\<rparr>)"

partial_function (option) get_ready_timers :: "'t::linorder \<Rightarrow> 'o list \<Rightarrow> ('t, 'o) timer_queue
    \<Rightarrow> ('o list \<times> ('t, 'o) timer_queue) option" where
  "get_ready_timers now ops s =
     (if tq_heap s \<noteq> [] \<and> \<not> now < fst (tq_heap s ! 0)
      then let t = snd (tq_heap s ! 0)
           in get_ready_timers now (ops @ pt_ops (tq_data s t)) (remove_timer t (take_ops t s))
      else Some (ops, s))"

partial_function (option) get_all_list :: "'o list \<Rightarrow> ('t, 'o) timer_queue
    \<Rightarrow> ('o list \<times> ('t, 'o) timer_queue) option" where
  "get_all_list ops s =
     (case tq_timers s of
        None \<Rightarrow> Some (ops, s)
      | Some t \<Rightarrow> get_all_list (ops @ pt_ops (tq_data s t))
          (upd_timer t (\<lambda>d. d\<lparr>pt_ops := [], pt_next := None, pt_prev := None\<rparr>)
             (s\<lparr>tq_timers := pt_next (tq_data s t)\<rparr>)))"

definition get_all_timers :: "('t, 'o) timer_queue \<Rightarrow> ('o list \<times> ('t, 'o) timer_queue) option" where
  "get_all_timers s = map_option (\<lambda>(ops, s). (ops, s\<lparr>tq_heap := []\<rparr>)) (get_all_list [] s)"

definition cancel_timer :: "nat \<Rightarrow> nat \<Rightarrow> ('t::linorder, 'o) timer_queue
    \<Rightarrow> nat \<times> ('o \<times> wait_ec) list \<times> ('t, 'o) timer_queue" where
  "cancel_timer max_cancelled t s =
     (if \<not> inactive t s
      then let ops = pt_ops (tq_data s t);
               cancelled = take max_cancelled ops;
               s = upd_timer t (\<lambda>d. d\<lparr>pt_ops := drop max_cancelled ops\<rparr>) s;
               s = (if pt_ops (tq_data s t) = [] then remove_timer t s else s)
           in (length cancelled, map (\<lambda>op. (op, operation_aborted)) cancelled, s)
      else (0, [], s))"

text \<open>The time until the earliest timer, in units of which \<open>per_unit\<close> ticks make one, for the
  chrono clocks (ticks are integers).\<close>

definition to_units :: "int \<Rightarrow> int \<Rightarrow> int \<Rightarrow> int" where
  "to_units per_unit d max_duration =
     (if d \<le> 0 then 0
      else let n = d div per_unit in if n = 0 then 1 else if n > max_duration then max_duration else n)"

definition wait_duration :: "int \<Rightarrow> int \<Rightarrow> int \<Rightarrow> (int, 'o) timer_queue \<Rightarrow> int" where
  "wait_duration per_unit now max_duration s =
     (if tq_heap s = [] then max_duration else to_units per_unit (fst (tq_heap s ! 0) - now) max_duration)"

subsection \<open>Heap order\<close>

definition key :: "('t \<times> nat) list \<Rightarrow> nat \<Rightarrow> 't" where
  "key h i = fst (h ! i)"

definition par :: "nat \<Rightarrow> nat" where
  "par i = (i - 1) div 2"

lemma par_less: "0 < i \<Longrightarrow> par i < i"
  by (simp add: par_def less_mult_imp_div_less)

lemma par_child: "par i = k \<Longrightarrow> 0 < i \<Longrightarrow> i = 2 * k + 1 \<or> i = 2 * k + 2"
  unfolding par_def by presburger

lemma par_of_children [simp]: "par (2 * k + 1) = k" "par (2 * k + 2) = k" "par (Suc (2 * k)) = k" "par (Suc (Suc (2 * k))) = k"
  by (simp_all add: par_def)

definition ordered :: "('t::linorder \<times> nat) list \<Rightarrow> bool" where
  "ordered h \<longleftrightarrow> (\<forall>i < length h. 0 < i \<longrightarrow> key h (par i) \<le> key h i)"

text \<open>The order but for the entry at \<open>k\<close>, which may be too small for its par, or too large for
  its children.\<close>

definition ordered_up :: "nat \<Rightarrow> ('t::linorder \<times> nat) list \<Rightarrow> bool" where
  "ordered_up k h \<longleftrightarrow> (\<forall>i < length h. 0 < i \<longrightarrow> (i \<noteq> k \<longrightarrow> key h (par i) \<le> key h i)
     \<and> (par i = k \<and> 0 < k \<longrightarrow> key h (par k) \<le> key h i))"

definition ordered_down :: "nat \<Rightarrow> ('t::linorder \<times> nat) list \<Rightarrow> bool" where
  "ordered_down k h \<longleftrightarrow> (\<forall>i < length h. 0 < i \<longrightarrow> (par i \<noteq> k \<longrightarrow> key h (par i) \<le> key h i)
     \<and> (par i = k \<and> 0 < k \<longrightarrow> key h (par k) \<le> key h i))"

definition swapped :: "nat \<Rightarrow> nat \<Rightarrow> 'a list \<Rightarrow> 'a list" where
  "swapped i j h = h[i := h ! j, j := h ! i]"

lemma length_swapped [simp]: "length (swapped i j h) = length h"
  by (simp add: swapped_def)

lemma key_swapped: "i < length h \<Longrightarrow> j < length h \<Longrightarrow>
    key (swapped i j h) k = (if k = i then key h j else if k = j then key h i else key h k)"
  by (auto simp: key_def swapped_def nth_list_update)

lemma mset_swapped [simp]: "i < length h \<Longrightarrow> j < length h \<Longrightarrow> mset (swapped i j h) = mset h"
  by (simp add: swapped_def mset_swap)

lemma up_step:
  assumes "ordered_up k h" "0 < k" "k < length h" "key h k < key h (par k)"
  shows "ordered_up (par k) (swapped k (par k) h)"
proof -
  have p: "par k < length h" "par k \<noteq> k" using assms(2,3) par_less [of k] by simp_all
  note K = key_swapped [OF assms(3) p(1)]
  note O = assms(1) [unfolded ordered_up_def, rule_format]
  have pp: "key h (par (par k)) \<le> key h (par k)" "par (par k) \<noteq> k" "par (par k) \<noteq> par k" if "0 < par k"
    using O [OF p(1) that] p(2) par_less [OF that] par_less [OF assms(2)] by simp_all
  have "(i \<noteq> par k \<longrightarrow> key (swapped k (par k) h) (par i) \<le> key (swapped k (par k) h) i)
      \<and> (par i = par k \<and> 0 < par k \<longrightarrow> key (swapped k (par k) h) (par (par k)) \<le> key (swapped k (par k) h) i)"
    if i: "i < length h" "0 < i" for i
  proof (rule conjI; intro impI)
    have ne: "par i \<noteq> i" using par_less [OF i(2)] by simp
    have a: "key h (par k) \<le> key h i" if "par i = k" using O [OF i] that assms(2) by simp
    have b: "key h (par i) \<le> key h i" if "i \<noteq> k" using O [OF i] that by simp
    show "key (swapped k (par k) h) (par i) \<le> key (swapped k (par k) h) i" if "i \<noteq> par k"
      using that a b ne assms(4) p(2) unfolding K by (cases "i = k"; cases "par i = k"; cases "par i = par k"; auto)
    show "key (swapped k (par k) h) (par (par k)) \<le> key (swapped k (par k) h) i" if "par i = par k \<and> 0 < par k"
      using that pp b ne assms(4) p(2) unfolding K by (cases "i = k"; cases "i = par k"; auto)
  qed
  then show ?thesis unfolding ordered_up_def by simp
qed

lemma down_step:
  assumes "ordered_down k h" "c < length h" "par c = k" "0 < c" "key h c \<le> key h k"
    and "\<And>i. i < length h \<Longrightarrow> 0 < i \<Longrightarrow> par i = k \<Longrightarrow> key h c \<le> key h i"
  shows "ordered_down c (swapped k c h)"
proof -
  have k: "k < length h" "k \<noteq> c" using assms(2-4) par_less [of c] by simp_all
  note K = key_swapped [OF k(1) assms(2)]
  have "(par i \<noteq> c \<longrightarrow> key (swapped k c h) (par i) \<le> key (swapped k c h) i)
      \<and> (par i = c \<and> 0 < c \<longrightarrow> key (swapped k c h) (par c) \<le> key (swapped k c h) i)"
    if i: "i < length h" "0 < i" for i
  proof (rule conjI; intro impI)
    note O = assms(1) [unfolded ordered_down_def, rule_format]
    have ne: "par i \<noteq> i" using par_less [OF i(2)] by simp
    show "key (swapped k c h) (par i) \<le> key (swapped k c h) i" if "par i \<noteq> c"
    proof (cases "i = c \<or> i = k")
      case True
      then show ?thesis using that assms(3,5) k(2) ne O [OF assms(2,4)] i(2) unfolding K by auto
    next
      case False
      then show ?thesis using that O [OF i] assms(6) [OF i] unfolding K by auto
    qed
    show "key (swapped k c h) (par c) \<le> key (swapped k c h) i" if "par i = c \<and> 0 < c"
    proof -
      have "i \<noteq> k" using that assms(3,4) i par_less [of i] par_less [of c] by auto
      moreover have "i \<noteq> c" using that ne by auto
      ultimately show ?thesis using that O [OF i] k(2) assms(3) unfolding K by simp
    qed
  qed
  then show ?thesis unfolding ordered_down_def by simp
qed

lemma ordered_up_0: "ordered_up 0 h \<Longrightarrow> ordered h"
  by (auto simp: ordered_up_def ordered_def)

lemma ordered_up_done: "ordered_up k h \<Longrightarrow> key h (par k) \<le> key h k \<Longrightarrow> ordered h"
  unfolding ordered_up_def ordered_def by metis

lemma ordered_down_done:
  assumes "ordered_down k h" and "\<And>i. i < length h \<Longrightarrow> 0 < i \<Longrightarrow> par i = k \<Longrightarrow> key h k \<le> key h i"
  shows "ordered h"
  using assms unfolding ordered_down_def ordered_def by metis

subsection \<open>The heap in the state\<close>

definition idx_ok :: "('t, 'o) timer_queue \<Rightarrow> bool" where
  "idx_ok s \<longleftrightarrow> distinct (map snd (tq_heap s))
     \<and> (\<forall>i < length (tq_heap s). pt_heap_index (tq_data s (snd (tq_heap s ! i))) = i)"

text \<open>The heap operations leave the list of timers and their operations alone.\<close>

definition same_rest :: "('t, 'o) timer_queue \<Rightarrow> ('t, 'o) timer_queue \<Rightarrow> bool" where
  "same_rest s s' \<longleftrightarrow> tq_timers s' = tq_timers s \<and> (\<forall>t. pt_ops (tq_data s' t) = pt_ops (tq_data s t)
     \<and> pt_next (tq_data s' t) = pt_next (tq_data s t) \<and> pt_prev (tq_data s' t) = pt_prev (tq_data s t))"

lemma same_rest_refl [simp]: "same_rest s s"
  by (simp add: same_rest_def)

lemma same_rest_trans: "same_rest s t \<Longrightarrow> same_rest t u \<Longrightarrow> same_rest s u"
  by (simp add: same_rest_def)

lemma swap_heap_rest [simp]: "same_rest s (swap_heap i j s)"
  by (simp add: same_rest_def swap_heap_def upd_timer_def Let_def)

lemma swap_heap_list [simp]: "tq_heap (swap_heap i j s) = swapped i j (tq_heap s)"
  by (simp add: swap_heap_def upd_timer_def swapped_def Let_def)

lemma swap_heap_idx:
  assumes "idx_ok s" "i < length (tq_heap s)" "j < length (tq_heap s)"
  shows "idx_ok (swap_heap i j s)"
proof -
  let ?h = "tq_heap s"
  have d: "snd (?h ! k) = snd (?h ! l) \<longleftrightarrow> k = l" if "k < length ?h" "l < length ?h" for k l
    using assms(1) that nth_eq_iff_index_eq [of "map snd ?h" k l] by (simp add: idx_ok_def)
  have e: "snd (swapped i j ?h ! k) = snd (?h ! (if k = j then i else if k = i then j else k))" if "k < length ?h" for k
    using that by (auto simp: swapped_def nth_list_update)
  have "distinct (map snd (swapped i j ?h))"
    unfolding distinct_conv_nth using d e assms(2,3) by (auto split: if_splits)
  moreover have "pt_heap_index (tq_data (swap_heap i j s) (snd (swapped i j ?h ! k))) = k" if "k < length ?h" for k
    unfolding e [OF that] using that assms d
    by (auto simp: swap_heap_def upd_timer_def Let_def idx_ok_def)
  ultimately show ?thesis unfolding idx_ok_def by simp
qed

definition heap_change :: "('t::linorder, 'o) timer_queue \<Rightarrow> ('t, 'o) timer_queue \<Rightarrow> bool" where
  "heap_change s s' \<longleftrightarrow> ordered (tq_heap s') \<and> mset (tq_heap s') = mset (tq_heap s) \<and> idx_ok s' \<and> same_rest s s'"

lemma heap_change_swap:
  assumes "heap_change (swap_heap i j s) s'" "i < length (tq_heap s)" "j < length (tq_heap s)"
  shows "heap_change s s'"
  using assms same_rest_trans [OF swap_heap_rest, of i j s s'] by (simp add: heap_change_def)

lemma up_heap_restores:
  "ordered_up k (tq_heap s) \<Longrightarrow> k < length (tq_heap s) \<Longrightarrow> idx_ok s \<Longrightarrow> heap_change s (up_heap k s)"
proof (induction k s rule: up_heap.induct)
  case (1 k s)
  consider "k = 0" | "0 < k" "\<not> key (tq_heap s) k < key (tq_heap s) (par k)"
    | "0 < k" "key (tq_heap s) k < key (tq_heap s) (par k)" by blast
  then show ?case
  proof cases
    case 1
    then show ?thesis using "1.prems" by (subst up_heap.simps) (simp add: heap_change_def ordered_up_0)
  next
    case 2
    then show ?thesis using "1.prems" ordered_up_done [of k "tq_heap s"]
      by (subst up_heap.simps) (simp add: heap_change_def key_def par_def Let_def)
  next
    case 3
    have p: "par k < length (tq_heap s)" using par_less [OF 3(1)] "1.prems"(2) by simp
    have "up_heap k s = up_heap (par k) (swap_heap k (par k) s)"
      using 3 by (subst up_heap.simps) (simp add: key_def par_def Let_def)
    moreover have "heap_change (swap_heap k (par k) s) (up_heap (par k) (swap_heap k (par k) s))"
      unfolding par_def
      by (rule "1.IH") (use 3 "1.prems" p up_step [OF "1.prems"(1) 3(1) "1.prems"(2) 3(2)]
          swap_heap_idx [OF "1.prems"(3,2) p] in \<open>simp_all add: key_def par_def\<close>)
    ultimately show ?thesis using heap_change_swap [OF _ "1.prems"(2) p] by simp
  qed
qed

lemma min_child_least:
  assumes "2 * k + 1 < length h" and "m = min_child h (k * 2 + 1)"
  shows "m < length h" "par m = k" "0 < m"
    and "i < length h \<Longrightarrow> 0 < i \<Longrightarrow> par i = k \<Longrightarrow> key h m \<le> key h i"
proof -
  consider "m = 2 * k + 1" "2 * k + 2 = length h" | "m = 2 * k + 1" "key h (2 * k + 1) < key h (2 * k + 2)"
    | "m = 2 * k + 2" "2 * k + 2 \<noteq> length h" "key h (2 * k + 2) \<le> key h (2 * k + 1)"
    using assms(2) by (auto simp: min_child_def key_def mult.commute [of k] split: if_splits)
  note M = this
  show "m < length h" "par m = k" "0 < m" using M assms(1) by (cases; simp)+
  assume i: "i < length h" "0 < i" "par i = k"
  from M show "key h m \<le> key h i"
  proof cases
    case 1
    then show ?thesis using par_child [OF i(3,2)] i(1) by (elim disjE) simp_all
  next
    case 2
    then show ?thesis using par_child [OF i(3,2)] by (elim disjE) simp_all
  next
    case 3
    then show ?thesis using par_child [OF i(3,2)] by (elim disjE) simp_all
  qed
qed

lemma down_heap_restores:
  "ordered_down k (tq_heap s) \<Longrightarrow> k < length (tq_heap s) \<Longrightarrow> idx_ok s \<Longrightarrow> heap_change s (down_heap k s)"
proof (induction k s rule: down_heap.induct)
  case (1 k s)
  let ?m = "min_child (tq_heap s) (k * 2 + 1)"
  consider "\<not> 2 * k + 1 < length (tq_heap s)" | "2 * k + 1 < length (tq_heap s)" "key (tq_heap s) k < key (tq_heap s) ?m"
    | "2 * k + 1 < length (tq_heap s)" "\<not> key (tq_heap s) k < key (tq_heap s) ?m" by blast
  then show ?case
  proof cases
    case 1
    have "ordered (tq_heap s)"
      proof (rule ordered_down_done [OF "1.prems"(1)])
      fix i assume "i < length (tq_heap s)" "0 < i" "par i = k"
      with par_child [of i k] 1 show "key (tq_heap s) k \<le> key (tq_heap s) i" by linarith
    qed
    then show ?thesis using 1 "1.prems" by (subst down_heap.simps) (simp add: heap_change_def mult.commute Let_def)
  next
    case 2
    have "ordered (tq_heap s)"
      by (rule ordered_down_done [OF "1.prems"(1)])
        (use 2(2) min_child_least(4) [OF 2(1) refl] in \<open>blast intro: order.strict_implies_order order.strict_trans2\<close>)
    then show ?thesis using 2 "1.prems"
      by (subst down_heap.simps) (simp add: heap_change_def key_def mult.commute Let_def)
  next
    case 3
    note M = min_child_least [OF 3(1) refl]
    have e: "down_heap k s = down_heap ?m (swap_heap k ?m s)"
      using 3 by (subst down_heap.simps) (simp add: key_def mult.commute Let_def)
    have c: "k * 2 + 1 < length (tq_heap s)" "\<not> fst (tq_heap s ! k) < fst (tq_heap s ! ?m)"
      using 3 by (simp_all add: key_def mult.commute)
    have o: "ordered_down ?m (swapped k ?m (tq_heap s))"
      by (rule down_step [OF "1.prems"(1) M(1-3) _ M(4)]) (use 3(2) in simp)
    have "heap_change (swap_heap k ?m s) (down_heap ?m (swap_heap k ?m s))"
      by (rule "1.IH" [OF refl c(1) refl c(2)]) (simp_all only: swap_heap_list length_swapped o M(1)
          swap_heap_idx [OF "1.prems"(3,2) M(1)])
    then show ?thesis using heap_change_swap [of k ?m s] "1.prems"(2) M(1) e by simp
  qed
qed

lemma ordered_prefix: "ordered (h @ g) \<Longrightarrow> ordered h"
  unfolding ordered_def key_def
  by (metis (no_types, lifting) length_append nth_append par_less order.strict_trans trans_less_add1)

lemma ordered_up_snoc:
  assumes "ordered h"
  shows "ordered_up (length h) (h @ [x])"
  unfolding ordered_up_def
proof (intro allI impI conjI)
  fix i assume i: "i < length (h @ [x])" "0 < i"
  have "par i < length h" using par_less [OF i(2)] i(1) by simp
  then show "key (h @ [x]) (par i) \<le> key (h @ [x]) i" if "i \<noteq> length h"
    using assms i that by (simp add: ordered_def key_def nth_append)
  show "key (h @ [x]) (par (length h)) \<le> key (h @ [x]) i" if "par i = length h \<and> 0 < length h"
    using that \<open>par i < length h\<close> by simp
qed

lemma push_heap_ok:
  assumes "ordered (tq_heap s)" "idx_ok s" "t \<notin> snd ` set (tq_heap s)"
  shows "ordered (tq_heap (push_heap time t s))
    \<and> mset (tq_heap (push_heap time t s)) = add_mset (time, t) (mset (tq_heap s))
    \<and> idx_ok (push_heap time t s) \<and> same_rest s (push_heap time t s)"
proof -
  define u where "u = upd_timer t (\<lambda>d. d\<lparr>pt_heap_index := length (tq_heap s)\<rparr>) (s\<lparr>tq_heap := tq_heap s @ [(time, t)]\<rparr>)"
  have h: "tq_heap u = tq_heap s @ [(time, t)]" by (simp add: u_def upd_timer_def)
  have "snd (tq_heap s ! i) \<noteq> t" if "i < length (tq_heap s)" for i
    using assms(3) that nth_mem by (force simp: image_iff)
  then have "idx_ok u" using assms(2,3)
    by (auto simp: idx_ok_def h) (auto simp: u_def upd_timer_def nth_append less_Suc_eq)
  then have "heap_change u (up_heap (length (tq_heap s)) u)"
    using up_heap_restores [of "length (tq_heap s)" u] ordered_up_snoc [OF assms(1)] by (simp add: h)
  moreover have "same_rest s u" by (simp add: same_rest_def u_def upd_timer_def)
  ultimately show ?thesis
    using same_rest_trans [of s u] by (simp add: push_heap_def Let_def u_def [symmetric] heap_change_def h)
qed

lemma drop_entry:
  assumes "ordered h" "index < length h - 1" "h1 = butlast (swapped index (length h - 1) h)"
  shows "index < length h1" "mset h1 = mset h - {#h ! index#}"
    and "0 < index \<Longrightarrow> key h1 index < key h1 (par index) \<Longrightarrow> ordered_up index h1"
    and "\<not> (0 < index \<and> key h1 index < key h1 (par index)) \<Longrightarrow> ordered_down index h1"
proof -
  let ?n = "length h - 1"
  have n: "index < length h" "?n < length h" "h \<noteq> []" using assms(2) by auto
  have l: "length h1 = ?n" by (simp add: assms(3))
  show "index < length h1" using assms(2) l by simp
  have k: "key h1 i = (if i = index then key h ?n else key h i)" if "i < ?n" for i
    using that key_swapped [OF n(1,2), of i] by (simp add: assms(3) key_def nth_butlast)
  have "mset (swapped index ?n h) = mset h1 + {#h ! index#}"
    using n by (subst append_butlast_last_id [symmetric, of "swapped index ?n h"])
      (auto simp: assms(3) last_conv_nth swapped_def nth_list_update simp flip: length_0_conv)
  then show "mset h1 = mset h - {#h ! index#}" using mset_swapped [OF n(1,2)] by (metis add_diff_cancel_right')
  have O: "key h (par i) \<le> key h i" if "i < length h" "0 < i" for i using assms(1) that by (simp add: ordered_def)
  have far: "key h1 (par i) \<le> key h1 i" if "i < ?n" "0 < i" "i \<noteq> index" "par i \<noteq> index" for i
    using k [of i] k [of "par i"] O [of i] par_less [of i] that by simp
  have grand: "key h1 (par index) \<le> key h1 i" if "i < ?n" "0 < i" "par i = index" "0 < index" for i
  proof -
    have "par index < index" "index < i" using par_less [of i] par_less [of index] that by simp_all
    then show ?thesis using k [of i] k [of "par index"] O [of i] O [of index] that n by simp
  qed
  show "ordered_up index h1" if "0 < index" "key h1 index < key h1 (par index)"
    unfolding ordered_up_def l using far grand that by (metis order.strict_implies_order order.strict_trans1 order.trans)
  show "ordered_down index h1" if "\<not> (0 < index \<and> key h1 index < key h1 (par index))"
    unfolding ordered_down_def l using far grand that by (metis not_less)
qed

lemma remove_from_heap_ok:
  assumes "ordered (tq_heap s)" "idx_ok s" "index < length (tq_heap s)"
  shows "ordered (tq_heap (remove_from_heap index s))
    \<and> mset (tq_heap (remove_from_heap index s)) = mset (tq_heap s) - {#tq_heap s ! index#}
    \<and> idx_ok (remove_from_heap index s) \<and> same_rest s (remove_from_heap index s)"
proof -
  let ?h = "tq_heap s" and ?n = "length (tq_heap s) - 1"
  have ne: "?h \<noteq> []" and n: "?n < length ?h" using assms(3) by auto
  have pop: "idx_ok (pop_back u) \<and> same_rest u (pop_back u)" if "idx_ok u" for u :: "('a, 'b) timer_queue"
  proof -
    have "distinct (map snd (butlast (tq_heap u)))"
      using that distinct_butlast [of "map snd (tq_heap u)"] by (simp add: idx_ok_def map_butlast)
    then show ?thesis using that by (simp add: idx_ok_def same_rest_def pop_back_def nth_butlast)
  qed
  show ?thesis
  proof (cases "index = ?n")
    case True
    have e: "?h = butlast ?h @ [?h ! index]"
      using append_butlast_last_id [OF ne] ne True by (simp add: last_conv_nth)
    have "mset (butlast ?h) = mset ?h - {#?h ! index#}" by (subst (2) e) simp
    moreover have "ordered (butlast ?h)" using assms(1) ordered_prefix [of "butlast ?h"] e by metis
    ultimately show ?thesis
      using assms(2,3) pop [OF assms(2)] ne True by (simp add: remove_from_heap_def pop_back_def)
  next
    case False
    then have i: "index < length ?h - 1" using assms(3) by simp
    define u where "u = pop_back (swap_heap index ?n s)"
    have h: "tq_heap u = butlast (swapped index ?n ?h)" by (simp add: u_def pop_back_def)
    note D = drop_entry [OF assms(1) i h]
    have u: "idx_ok u" "same_rest s u"
      using pop [OF swap_heap_idx [OF assms(2,3) n]] same_rest_trans [OF swap_heap_rest] by (auto simp: u_def)
    have "remove_from_heap index s = (if 0 < index \<and> key (tq_heap u) index < key (tq_heap u) (par index)
        then up_heap index u else down_heap index u)"
      using assms(3) ne False by (simp add: remove_from_heap_def u_def key_def par_def Let_def)
    moreover have "heap_change u (if 0 < index \<and> key (tq_heap u) index < key (tq_heap u) (par index)
        then up_heap index u else down_heap index u)"
      using up_heap_restores [OF D(3) D(1) u(1)] down_heap_restores [OF D(4) D(1) u(1)] by auto
    ultimately show ?thesis using D(2) same_rest_trans [OF u(2)] by (auto simp: heap_change_def)
  qed
qed

subsection \<open>The list of active timers\<close>

fun linked :: "(nat \<Rightarrow> 'o per_timer) \<Rightarrow> nat option \<Rightarrow> nat option \<Rightarrow> nat list \<Rightarrow> bool" where
  "linked d prev p [] = (p = None)"
| "linked d prev p (x # xs) = (p = Some x \<and> pt_prev (d x) = prev \<and> linked d (Some x) (pt_next (d x)) xs)"

lemma linked_cong:
  "(\<And>u. u \<in> set xs \<Longrightarrow> pt_next (d' u) = pt_next (d u) \<and> pt_prev (d' u) = pt_prev (d u)) \<Longrightarrow>
    linked d' prev p xs = linked d prev p xs"
  by (induction xs arbitrary: prev p) auto

lemma linked_mid:
  "linked d prev p (xs @ t # ys) \<Longrightarrow>
    pt_prev (d t) = (if xs = [] then prev else Some (List.last xs))
    \<and> pt_next (d t) = (case ys of [] \<Rightarrow> None | y # _ \<Rightarrow> Some y) \<and> p = Some (hd (xs @ [t]))"
  by (induction xs arbitrary: prev p) (auto split: list.splits)

lemma unlink_linked:
  assumes "\<And>u. u \<noteq> t \<Longrightarrow> pt_next (d' u) = (if pt_prev (d t) = Some u then pt_next (d t) else pt_next (d u))"
    and "\<And>u. u \<noteq> t \<Longrightarrow> pt_prev (d' u) = (if pt_next (d t) = Some u then pt_prev (d t) else pt_prev (d u))"
  shows "linked d prev p (xs @ t # ys) \<Longrightarrow> distinct (xs @ t # ys) \<Longrightarrow> (\<forall>q. prev = Some q \<longrightarrow> q \<notin> set (xs @ t # ys)) \<Longrightarrow>
    linked d' prev (if xs = [] then pt_next (d t) else p) (xs @ ys)"
proof (induction xs arbitrary: prev p)
  case Nil
  show ?case
  proof (cases ys)
    case (Cons y zs)
    have t: "pt_next (d t) = Some y" "pt_prev (d t) = prev" "linked d (Some y) (pt_next (d y)) zs"
      using Nil.prems(1) Cons by simp_all
    have "prev \<noteq> Some y" "y \<noteq> t" using Nil.prems(2,3) Cons by auto
    moreover have "linked d' (Some y) (pt_next (d y)) zs = linked d (Some y) (pt_next (d y)) zs"
    proof (rule linked_cong)
      fix u assume "u \<in> set zs"
      then have "u \<noteq> t" "u \<noteq> y" "prev \<noteq> Some u" using Nil.prems(2,3) Cons by auto
      then show "pt_next (d' u) = pt_next (d u) \<and> pt_prev (d' u) = pt_prev (d u)" using assms [of u] t by simp
    qed
    ultimately show ?thesis using Cons t assms [of y] by simp
  qed (use Nil in simp)
next
  case (Cons x xs)
  have l: "p = Some x" "pt_prev (d x) = prev" "linked d (Some x) (pt_next (d x)) (xs @ t # ys)"
    using Cons.prems(1) by simp_all
  note M = linked_mid [OF l(3)]
  have x: "x \<noteq> t" "pt_next (d t) \<noteq> Some x" "pt_prev (d t) = Some x \<longleftrightarrow> xs = []"
    using M Cons.prems(2) by (auto split: list.splits)
  have "linked d' (Some x) (if xs = [] then pt_next (d t) else pt_next (d x)) (xs @ ys)"
    by (rule Cons.IH [OF l(3)]) (use Cons.prems(2) in auto)
  then show ?case using l x assms [of x] by simp
qed

definition active :: "('t, 'o) timer_queue \<Rightarrow> nat set" where
  "active s = snd ` set (tq_heap s)"

definition listed :: "('t, 'o) timer_queue \<Rightarrow> nat list \<Rightarrow> bool" where
  "listed s xs \<longleftrightarrow> linked (tq_data s) None (tq_timers s) xs \<and> distinct xs
     \<and> (\<forall>t. t \<notin> set xs \<longrightarrow> pt_next (tq_data s t) = None \<and> pt_prev (tq_data s t) = None)"

lemma listed_same: "same_rest s s' \<Longrightarrow> listed s' xs = listed s xs"
  unfolding listed_def same_rest_def by (simp add: linked_cong [of xs "tq_data s'" "tq_data s"])

lemma inactive_iff: "listed s xs \<Longrightarrow> inactive t s \<longleftrightarrow> t \<notin> set xs"
proof
  assume l: "listed s xs" and t: "t \<notin> set xs"
  then have "tq_timers s \<noteq> Some t" by (cases xs) (auto simp: listed_def)
  then show "inactive t s" using l t by (simp add: inactive_def listed_def)
next
  assume l: "listed s xs" and i: "inactive t s"
  show "t \<notin> set xs"
  proof
    assume "t \<in> set xs"
    then obtain ys zs where "xs = ys @ t # zs" by (meson split_list)
    then show False using l i linked_mid [of "tq_data s" None "tq_timers s" ys t zs]
      by (auto simp: listed_def inactive_def split: if_splits)
  qed
qed

text \<open>Only the pointers of the list change.\<close>

definition same_heap :: "('t, 'o) timer_queue \<Rightarrow> ('t, 'o) timer_queue \<Rightarrow> bool" where
  "same_heap s s' \<longleftrightarrow> tq_heap s' = tq_heap s \<and> (\<forall>t. pt_ops (tq_data s' t) = pt_ops (tq_data s t)
     \<and> pt_heap_index (tq_data s' t) = pt_heap_index (tq_data s t))"

lemma link_timer_ok:
  assumes "listed s xs" "t \<notin> set xs"
  shows "listed (link_timer t s) (t # xs) \<and> same_heap s (link_timer t s)"
proof (cases xs)
  case Nil
  then show ?thesis using assms
    by (auto simp: listed_def link_timer_def upd_timer_def same_heap_def Let_def)
next
  case (Cons y ys)
  have y: "tq_timers s = Some y" "linked (tq_data s) (Some y) (pt_next (tq_data s y)) ys" "t \<noteq> y" "y \<notin> set ys" "t \<notin> set ys"
    using assms Cons by (auto simp: listed_def)
  have "linked (tq_data (link_timer t s)) (Some y) (pt_next (tq_data s y)) ys = linked (tq_data s) (Some y) (pt_next (tq_data s y)) ys"
    by (rule linked_cong) (use y in \<open>auto simp: link_timer_def upd_timer_def Let_def\<close>)
  then show ?thesis using assms y Cons
    by (auto simp: listed_def link_timer_def upd_timer_def same_heap_def Let_def)
qed

lemma unlink_timer_data:
  assumes "pt_prev (tq_data s t) \<noteq> Some t" "pt_next (tq_data s t) \<noteq> Some t"
    and "pt_prev (tq_data s t) = None \<or> pt_prev (tq_data s t) \<noteq> pt_next (tq_data s t)"
  shows "pt_next (tq_data (unlink_timer t s) u) = (if u = t then None
      else if pt_prev (tq_data s t) = Some u then pt_next (tq_data s t) else pt_next (tq_data s u))"
    and "pt_prev (tq_data (unlink_timer t s) u) = (if u = t then None
      else if pt_next (tq_data s t) = Some u then pt_prev (tq_data s t) else pt_prev (tq_data s u))"
    and "tq_timers (unlink_timer t s) = (if tq_timers s = Some t then pt_next (tq_data s t) else tq_timers s)"
    and "same_heap s (unlink_timer t s)"
  using assms by (auto simp: unlink_timer_def upd_timer_def same_heap_def Let_def split: option.split)

lemma unlink_timer_ok:
  assumes "listed s (xs @ t # ys)"
  shows "listed (unlink_timer t s) (xs @ ys) \<and> same_heap s (unlink_timer t s)"
proof -
  have l: "linked (tq_data s) None (tq_timers s) (xs @ t # ys)" "distinct (xs @ t # ys)"
    "\<And>u. u \<notin> set (xs @ t # ys) \<Longrightarrow> pt_next (tq_data s u) = None \<and> pt_prev (tq_data s u) = None"
    using assms by (simp_all add: listed_def)
  note M = linked_mid [OF l(1)]
  have "List.last xs \<noteq> t" if "xs \<noteq> []" using l(2) last_in_set [OF that] by auto
  moreover have "List.last xs \<noteq> y" if "xs \<noteq> []" "ys = y # zs" for y zs using l(2) last_in_set [OF that(1)] that(2) by auto
  ultimately have "pt_prev (tq_data s t) \<noteq> Some t" "pt_next (tq_data s t) \<noteq> Some t"
    "pt_prev (tq_data s t) = None \<or> pt_prev (tq_data s t) \<noteq> pt_next (tq_data s t)"
    using M l(2) by (auto split: list.splits if_splits)
  note D = unlink_timer_data [OF this]
  have "tq_timers (unlink_timer t s) = (if xs = [] then pt_next (tq_data s t) else tq_timers s)"
    using D(3) M l(2) by (cases xs) auto
  moreover have "linked (tq_data (unlink_timer t s)) None (if xs = [] then pt_next (tq_data s t) else tq_timers s) (xs @ ys)"
    by (rule unlink_linked [OF _ _ l(1,2)]) (simp_all add: D)
  moreover have "pt_next (tq_data (unlink_timer t s) u) = None \<and> pt_prev (tq_data (unlink_timer t s) u) = None"
    if "u \<notin> set (xs @ ys)" for u
    using that l(3) [of u] M D(1,2) [of u] by (auto split: list.splits if_splits)
  ultimately show ?thesis using l(2) D(4) by (simp add: listed_def)
qed

subsection \<open>The invariant\<close>

definition tq_shape :: "('t::linorder, 'o) timer_queue \<Rightarrow> bool" where
  "tq_shape s \<longleftrightarrow> ordered (tq_heap s) \<and> idx_ok s \<and> (\<exists>xs. listed s xs \<and> set xs = active s)"

definition tq_ok :: "('t::linorder, 'o) timer_queue \<Rightarrow> bool" where
  "tq_ok s \<longleftrightarrow> tq_shape s \<and> (\<forall>t. pt_ops (tq_data s t) \<noteq> [] \<longleftrightarrow> t \<in> active s)"

definition new_timer_queue :: "('t, 'o) timer_queue" where
  "new_timer_queue = \<lparr>tq_timers = None, tq_heap = [], tq_data = (\<lambda>_. \<lparr>pt_ops = [], pt_heap_index = 0, pt_next = None, pt_prev = None\<rparr>)\<rparr>"

lemma tq_ok_new: "tq_ok new_timer_queue"
proof -
  have "listed (new_timer_queue :: ('t, 'o) timer_queue) []" by (simp add: listed_def new_timer_queue_def)
  then show ?thesis
    by (auto simp: tq_ok_def tq_shape_def active_def ordered_def idx_ok_def new_timer_queue_def)
qed

lemma shape_inactive: "tq_shape s \<Longrightarrow> inactive t s \<longleftrightarrow> t \<notin> active s"
  using inactive_iff by (fastforce simp: tq_shape_def)

lemma same_heap_idx: "same_heap s s' \<Longrightarrow> idx_ok s' = idx_ok s"
  by (simp add: same_heap_def idx_ok_def)

lemma ops_updated: "(tq_heap (upd_timer t (\<lambda>d. d\<lparr>pt_ops := x\<rparr>) s) = tq_heap s)
    \<and> (tq_shape (upd_timer t (\<lambda>d. d\<lparr>pt_ops := x\<rparr>) s) = tq_shape s)
    \<and> pt_heap_index (tq_data (upd_timer t (\<lambda>d. d\<lparr>pt_ops := x\<rparr>) s) u) = pt_heap_index (tq_data s u)"
proof -
  let ?s = "upd_timer t (\<lambda>d. d\<lparr>pt_ops := x\<rparr>) s"
  have "linked (tq_data ?s) None (tq_timers s) xs = linked (tq_data s) None (tq_timers s) xs" for xs
    by (rule linked_cong) (auto simp: upd_timer_def)
  then have "listed ?s xs = listed s xs" for xs
    unfolding listed_def by (auto simp: upd_timer_def)
  moreover have h: "tq_heap ?s = tq_heap s" and ix: "pt_heap_index (tq_data ?s u) = pt_heap_index (tq_data s u)" for u
    by (simp_all add: upd_timer_def)
  moreover have "idx_ok ?s = idx_ok s" unfolding idx_ok_def h ix ..
  ultimately show ?thesis by (simp only: tq_shape_def active_def)
qed

lemma remove_timer_ok:
  assumes "tq_shape s" "i < length (tq_heap s)" "tq_heap s ! i = (time, t)"
  shows "tq_shape (remove_timer t s)"
    and "mset (tq_heap (remove_timer t s)) = mset (tq_heap s) - {#(time, t)#}"
    and "pt_ops (tq_data (remove_timer t s) u) = pt_ops (tq_data s u)"
    and "active (remove_timer t s) = active s - {t}"
proof -
  obtain xs where xs: "listed s xs" "set xs = active s" and o: "ordered (tq_heap s)" "idx_ok s"
    using assms(1) by (auto simp: tq_shape_def)
  have ix: "pt_heap_index (tq_data s t) = i" using o(2) assms(2,3) by (auto simp: idx_ok_def)
  define u where "u = remove_from_heap i s"
  have u: "ordered (tq_heap u)" "mset (tq_heap u) = mset (tq_heap s) - {#(time, t)#}" "idx_ok u" "same_rest s u"
    using remove_from_heap_ok [OF o assms(2)] assms(3) by (simp_all add: u_def)
  have r: "remove_timer t s = unlink_timer t u" by (simp add: remove_timer_def ix u_def)
  have "t \<in> set xs" using assms(2,3) xs(2) nth_mem [OF assms(2)] by (force simp: active_def)
  then obtain ys zs where yz: "xs = ys @ t # zs" by (meson split_list)
  have l: "listed u (ys @ t # zs)" using xs(1) listed_same [OF u(4)] yz by simp
  note L = unlink_timer_ok [OF l]
  have h: "tq_heap (remove_timer t s) = tq_heap u" using L by (simp add: r same_heap_def)
  show "mset (tq_heap (remove_timer t s)) = mset (tq_heap s) - {#(time, t)#}" using h u(2) by simp
  show "pt_ops (tq_data (remove_timer t s) v) = pt_ops (tq_data s v)" for v
    using L u(4) by (simp add: r same_heap_def same_rest_def)
  have d: "distinct (map snd (tq_heap s))" using o(2) by (simp add: idx_ok_def)
  have "set (tq_heap u) = set (tq_heap s) - {(time, t)}"
  proof -
    have "distinct (tq_heap s)" using d by (simp add: distinct_map)
    moreover have "mset (tq_heap u) = mset (remove1 (time, t) (tq_heap s))" using u(2) by simp
    ultimately show ?thesis using mset_eq_setD set_remove1_eq by metis
  qed
  moreover have "inj_on snd (set (tq_heap s))" using d by (simp add: distinct_map)
  moreover have "(time, t) \<in> set (tq_heap s)" using nth_mem [OF assms(2)] assms(3) by simp
  ultimately have a: "active u = active s - {t}"
    unfolding active_def by (auto simp: inj_on_def) force
  then show "active (remove_timer t s) = active s - {t}" by (simp add: active_def h)
  have "set (ys @ zs) = active u" using yz xs l by (auto simp: a listed_def)
  then show "tq_shape (remove_timer t s)"
    using L u(1,3) same_heap_idx unfolding r tq_shape_def active_def same_heap_def by metis
qed

lemma take_ops_timer_ok:
  assumes "tq_ok s" "i < length (tq_heap s)" "tq_heap s ! i = (time, t)"
  shows "tq_ok (remove_timer t (take_ops t s))"
    and "mset (tq_heap (remove_timer t (take_ops t s))) = mset (tq_heap s) - {#(time, t)#}"
    and "pt_ops (tq_data (remove_timer t (take_ops t s)) u) = (if u = t then [] else pt_ops (tq_data s u))"
    and "active (remove_timer t (take_ops t s)) = active s - {t}"
proof -
  note O = ops_updated [of t "[]" s, folded take_ops_def]
  have "tq_shape (take_ops t s)" "tq_heap (take_ops t s) = tq_heap s" using O assms(1) by (auto simp: tq_ok_def)
  note R = remove_timer_ok [OF this(1), unfolded this(2), OF assms(2,3)]
  show p: "pt_ops (tq_data (remove_timer t (take_ops t s)) u) = (if u = t then [] else pt_ops (tq_data s u))" for u
    by (simp add: R(3)) (simp add: take_ops_def upd_timer_def)
  have a: "active (take_ops t s) = active s" by (simp add: active_def O)
  show "active (remove_timer t (take_ops t s)) = active s - {t}" using R(4) a by simp
  show "mset (tq_heap (remove_timer t (take_ops t s))) = mset (tq_heap s) - {#(time, t)#}" by (rule R(2))
  show "tq_ok (remove_timer t (take_ops t s))"
    using R(1,4) p assms(1) a by (auto simp: tq_ok_def)
qed

lemma active_entry:
  assumes "t \<in> active s"
  obtains i time where "i < length (tq_heap s)" "tq_heap s ! i = (time, t)"
  using assms by (auto simp: active_def in_set_conv_nth)

lemma enqueue_timer_ok:
  assumes "tq_ok s" "enqueue_timer time t op s = (earliest, s')"
  shows "tq_ok s'" and "active s' = insert t (active s)"
    and "mset (tq_heap s') = (if t \<in> active s then mset (tq_heap s) else add_mset (time, t) (mset (tq_heap s)))"
    and "pt_ops (tq_data s' u) = (if u = t then pt_ops (tq_data s t) @ [op] else pt_ops (tq_data s u))"
    and "earliest \<longleftrightarrow> snd (tq_heap s' ! 0) = t \<and> hd (pt_ops (tq_data s' t)) = op"
proof -
  have sh: "tq_shape s" and op: "pt_ops (tq_data s u) \<noteq> [] \<longleftrightarrow> u \<in> active s" for u
    using assms(1) by (auto simp: tq_ok_def)
  define v where "v = (if inactive t s then link_timer t (push_heap time t s) else s)"
  have v: "tq_shape v \<and> mset (tq_heap v) = (if t \<in> active s then mset (tq_heap s) else add_mset (time, t) (mset (tq_heap s)))
      \<and> (\<forall>u. pt_ops (tq_data v u) = pt_ops (tq_data s u))"
  proof (cases "t \<in> active s")
    case True
    then show ?thesis using sh shape_inactive [OF sh, of t] by (simp add: v_def)
  next
    case False
    obtain xs where xs: "listed s xs" "set xs = active s" "ordered (tq_heap s)" "idx_ok s"
      using sh by (auto simp: tq_shape_def)
    let ?p = "push_heap time t s"
    have P: "ordered (tq_heap ?p)" "mset (tq_heap ?p) = add_mset (time, t) (mset (tq_heap s))" "idx_ok ?p" "same_rest s ?p"
      using push_heap_ok [OF xs(3,4)] False by (auto simp: active_def)
    have L: "listed (link_timer t ?p) (t # xs)" "same_heap ?p (link_timer t ?p)"
      using link_timer_ok [of ?p xs t] listed_same [OF P(4)] xs(1,2) False by auto
    have "active (link_timer t ?p) = insert t (active s)"
      using L(2) mset_eq_setD [of "tq_heap ?p" "(time, t) # tq_heap s"] P(2) by (simp add: active_def same_heap_def)
    then have "tq_shape (link_timer t ?p)"
      using L P(1,3) xs(2) same_heap_idx [OF L(2)] by (fastforce simp: tq_shape_def same_heap_def)
    then show ?thesis using L(2) P(2,4) False shape_inactive [OF sh, of t]
      by (simp add: v_def same_heap_def same_rest_def)
  qed
  have s': "s' = upd_timer t (\<lambda>d. d\<lparr>pt_ops := pt_ops (tq_data v t) @ [op]\<rparr>) v"
    "earliest = (pt_heap_index (tq_data s' t) = 0 \<and> hd (pt_ops (tq_data s' t)) = op)"
    using assms(2) by (auto simp: enqueue_timer_def Let_def v_def [symmetric] upd_timer_def)
  note U = ops_updated [of t "pt_ops (tq_data v t) @ [op]" v, folded s'(1)]
  show m: "mset (tq_heap s') = (if t \<in> active s then mset (tq_heap s) else add_mset (time, t) (mset (tq_heap s)))"
    using U v by simp
  show p: "pt_ops (tq_data s' u) = (if u = t then pt_ops (tq_data s t) @ [op] else pt_ops (tq_data s u))" for u
    using v by (simp add: s'(1) upd_timer_def)
  show a: "active s' = insert t (active s)"
    using m mset_eq_setD [of "tq_heap s'" "tq_heap s"] mset_eq_setD [of "tq_heap s'" "(time, t) # tq_heap s"]
    by (auto simp: active_def split: if_splits)
  show "tq_ok s'" using U v p a op by (auto simp: tq_ok_def)
  obtain i time' where i: "i < length (tq_heap s')" "tq_heap s' ! i = (time', t)"
    using active_entry [of t s'] a by auto
  have "idx_ok s'" using U v by (auto simp: tq_shape_def)
  then have ix: "pt_heap_index (tq_data s' (snd (tq_heap s' ! j))) = j" if "j < length (tq_heap s')" for j
    using that unfolding idx_ok_def by blast
  have "0 < length (tq_heap s')" using i(1) by linarith
  from ix [OF i(1)] ix [OF this] i(2)
  have "pt_heap_index (tq_data s' t) = 0 \<longleftrightarrow> snd (tq_heap s' ! 0) = t" by auto
  then show "earliest \<longleftrightarrow> snd (tq_heap s' ! 0) = t \<and> hd (pt_ops (tq_data s' t)) = op" using s'(2) by simp
qed

end
