(* ===== verification/TimerQueue_Props.thy ===== *)
theory TimerQueue_Props
  imports TimerQueue
begin

text \<open>
  What the timer queue promises the reactor: timers fire in the order of their expiry and exactly
  those that are due, every wait comes out once, fired or aborted, and the loops end.
  \<open>min_queue\<close> is the contract of a queue from which the least entry is taken; the heap of
  timers meets it.
\<close>

subsection \<open>The contract\<close>

locale min_queue =
  fixes entries :: "'s \<Rightarrow> ('t::linorder \<times> 'e) multiset"
    and front :: "'s \<Rightarrow> ('t \<times> 'e) option"
    and remove_front :: "'s \<Rightarrow> 's"
    and ok :: "'s \<Rightarrow> bool"
  assumes front_empty: "ok s \<Longrightarrow> front s = None \<longleftrightarrow> entries s = {#}"
    and front_least: "ok s \<Longrightarrow> front s = Some x \<Longrightarrow> x \<in># entries s \<and> (\<forall>y \<in># entries s. fst x \<le> fst y)"
    and remove_ok: "ok s \<Longrightarrow> front s = Some x \<Longrightarrow> ok (remove_front s)"
    and remove_entries: "ok s \<Longrightarrow> front s = Some x \<Longrightarrow> entries (remove_front s) = entries s - {#x#}"
begin

text \<open>Take everything up to \<open>now\<close>.\<close>

primrec drain :: "nat \<Rightarrow> 't \<Rightarrow> 's \<Rightarrow> ('t \<times> 'e) list \<times> 's" where
  "drain 0 now s = ([], s)"
| "drain (Suc n) now s =
     (case front s of
        None \<Rightarrow> ([], s)
      | Some x \<Rightarrow> if fst x \<le> now then let (xs, s') = drain n now (remove_front s) in (x # xs, s') else ([], s))"

lemma drain_spec:
  "ok s \<Longrightarrow> size (entries s) \<le> n \<Longrightarrow> drain n now s = (xs, s') \<Longrightarrow>
    ok s' \<and> mset xs = filter_mset (\<lambda>x. fst x \<le> now) (entries s)
    \<and> entries s' = filter_mset (\<lambda>x. \<not> fst x \<le> now) (entries s) \<and> sorted (map fst xs)"
proof (induction n arbitrary: s xs)
  case (Suc n)
  show ?case
  proof (cases "\<exists>x. front s = Some x \<and> fst x \<le> now")
    case True
    then obtain x ys where x: "front s = Some x" "fst x \<le> now" "drain n now (remove_front s) = (ys, s')" "xs = x # ys"
      using Suc.prems(3) by (auto split: prod.splits)
    note L = front_least [OF Suc.prems(1) x(1)] and E = remove_entries [OF Suc.prems(1) x(1)]
    have e: "entries s = add_mset x (entries (remove_front s))" using L E by simp
    have "size (entries (remove_front s)) \<le> n" using Suc.prems(2) e by simp
    note I = Suc.IH [OF remove_ok [OF Suc.prems(1) x(1)] this x(3)]
    have "\<forall>y \<in> set ys. fst x \<le> fst y"
    proof
      fix y assume "y \<in> set ys"
      then have "y \<in># mset ys" by simp
      then have "y \<in># entries s" using I e by simp
      then show "fst x \<le> fst y" using L by simp
    qed
    then show ?thesis using I x e by auto
  next
    case False
    then have xs: "xs = []" "s' = s" using Suc.prems(3) by (auto split: option.splits if_splits)
    have "\<forall>y \<in># entries s. \<not> fst y \<le> now"
    proof (cases "front s")
      case None
      then show ?thesis using front_empty [OF Suc.prems(1)] by simp
    next
      case (Some x)
      then show ?thesis using False front_least [OF Suc.prems(1) Some] by force
    qed
    then have "filter_mset (\<lambda>x. \<not> fst x \<le> now) (entries s) = entries s"
      "filter_mset (\<lambda>x. fst x \<le> now) (entries s) = {#}"
      by (auto simp: filter_mset_eq_conv multiset_eq_iff count_eq_zero_iff)
    then show ?thesis using xs Suc.prems(1) by simp
  qed
qed auto

lemma drain_splits:
  "ok s \<Longrightarrow> drain n now s = (xs, s') \<Longrightarrow> ok s' \<and> entries s = mset xs + entries s'"
proof (induction n arbitrary: s xs)
  case (Suc n)
  show ?case
  proof (cases "\<exists>x. front s = Some x \<and> fst x \<le> now")
    case True
    then obtain x ys where x: "front s = Some x" "drain n now (remove_front s) = (ys, s')" "xs = x # ys"
      using Suc.prems(2) by (auto split: prod.splits)
    note ok = remove_ok [OF Suc.prems(1) x(1)]
    show ?thesis using Suc.IH [OF ok x(2)] x(3) remove_entries [OF Suc.prems(1) x(1)]
        front_least [OF Suc.prems(1) x(1)] by (auto dest!: insert_DiffM)
  next
    case False
    then show ?thesis using Suc.prems by (auto split: option.splits if_splits)
  qed
qed simp

end

subsection \<open>The heap meets it\<close>

definition tq_front :: "('t, 'o) timer_queue \<Rightarrow> ('t \<times> nat) option" where
  "tq_front s = (if tq_heap s = [] then None else Some (tq_heap s ! 0))"

definition tq_remove_front :: "('t::linorder, 'o) timer_queue \<Rightarrow> ('t, 'o) timer_queue" where
  "tq_remove_front s = (let t = snd (tq_heap s ! 0) in remove_timer t (take_ops t s))"

lemma ordered_front: "ordered h \<Longrightarrow> i < length h \<Longrightarrow> key h 0 \<le> key h i"
proof (induction i rule: less_induct)
  case (less i)
  show ?case
  proof (cases "i = 0")
    case False
    then have "par i < i" by (simp add: par_less)
    moreover have "key h (par i) \<le> key h i" using less.prems False by (simp add: ordered_def)
    ultimately show ?thesis using less.IH [of "par i"] less.prems by fastforce
  qed simp
qed

lemma tq_ok_ordered: "tq_ok s \<Longrightarrow> ordered (tq_heap s)"
  by (simp add: tq_ok_def tq_shape_def)

interpretation tq: min_queue "\<lambda>s. mset (tq_heap s)" tq_front tq_remove_front tq_ok
proof unfold_locales
  fix s :: "('t::linorder, 'o) timer_queue" and x
  assume ok: "tq_ok s" and x: "tq_front s = Some x"
  then have f: "0 < length (tq_heap s)" "tq_heap s ! 0 = x" "x = (fst x, snd x)"
    by (auto simp: tq_front_def split: if_splits)
  have "fst x \<le> fst y" if "y \<in> set (tq_heap s)" for y
    using that ordered_front [OF tq_ok_ordered [OF ok]] f(2) by (auto simp: in_set_conv_nth key_def)
  then show "x \<in># mset (tq_heap s) \<and> (\<forall>y \<in># mset (tq_heap s). fst x \<le> fst y)"
    using f nth_mem [OF f(1)] by simp
  note R = take_ops_timer_ok [OF ok f(1), of "fst x" "snd x"]
  show "tq_ok (tq_remove_front s)" "mset (tq_heap (tq_remove_front s)) = mset (tq_heap s) - {#x#}"
    using R(1,2) f by (simp_all add: tq_remove_front_def Let_def)
qed (simp add: tq_front_def)

text \<open>The loop of \<open>get_ready_timers\<close> is the drain, and hands over the operations of what it takes.\<close>

lemma tq_remove_front_other:
  assumes "tq_ok s" "tq_front s = Some x" "t \<in> active (tq_remove_front s)"
  shows "pt_ops (tq_data (tq_remove_front s) t) = pt_ops (tq_data s t)"
proof -
  have f: "0 < length (tq_heap s)" "tq_heap s ! 0 = (fst x, snd x)"
    using assms(2) by (auto simp: tq_front_def split: if_splits)
  note R = take_ops_timer_ok [OF assms(1) f]
  show ?thesis using assms(3) f(2) R(3,4) by (auto simp: tq_remove_front_def Let_def)
qed

lemma get_ready_drain:
  "tq_ok s \<Longrightarrow> length (tq_heap s) \<le> n \<Longrightarrow> tq.drain n now s = (xs, s') \<Longrightarrow>
    get_ready_timers now ops s = Some (ops @ concat (map (\<lambda>x. pt_ops (tq_data s (snd x))) xs), s')"
proof (induction n arbitrary: s xs ops)
  case (Suc n)
  show ?case
  proof (cases "\<exists>x. tq_front s = Some x \<and> fst x \<le> now")
    case True
    then obtain x ys where x: "tq_front s = Some x" "fst x \<le> now" "tq.drain n now (tq_remove_front s) = (ys, s')" "xs = x # ys"
      using Suc.prems(3) by (auto split: prod.splits)
    have f: "tq_heap s \<noteq> []" "tq_heap s ! 0 = x" using x(1) by (auto simp: tq_front_def split: if_splits)
    have e: "mset (tq_heap (tq_remove_front s)) = mset (tq_heap s) - {#x#}" by (rule tq.remove_entries [OF Suc.prems(1) x(1)])
    have l: "length (tq_heap (tq_remove_front s)) \<le> n"
      using Suc.prems(2) tq.front_least [OF Suc.prems(1) x(1)] arg_cong [OF e, of size]
      by (simp add: size_Diff_singleton)
    note ok = tq.remove_ok [OF Suc.prems(1) x(1)]
    have "get_ready_timers now ops s = get_ready_timers now (ops @ pt_ops (tq_data s (snd x))) (tq_remove_front s)"
      using f x(2) by (subst get_ready_timers.simps) (simp add: tq_remove_front_def Let_def not_less)
    moreover have "pt_ops (tq_data (tq_remove_front s) (snd y)) = pt_ops (tq_data s (snd y))" if "y \<in> set ys" for y
    proof (rule tq_remove_front_other [OF Suc.prems(1) x(1)])
      have "y \<in># mset (tq_heap (tq_remove_front s))"
        using tq.drain_spec [OF ok _ x(3)] l that by (metis filter_mset_eq_conv mset_subset_eqD multiset_filter_subset set_mset_mset size_mset)
      then show "snd y \<in> active (tq_remove_front s)" by (simp add: active_def)
    qed
    ultimately show ?thesis
      using Suc.IH [OF ok l x(3)] x(4) by (simp cong: map_cong)
  next
    case False
    then have "xs = []" "s' = s" using Suc.prems(3) by (auto split: option.splits if_splits)
    moreover have "tq_heap s = [] \<or> now < fst (tq_heap s ! 0)" using False by (cases "tq_heap s ! 0") (auto simp: tq_front_def split: if_splits)
    ultimately show ?thesis by (subst get_ready_timers.simps) auto
  qed
qed (subst get_ready_timers.simps, simp)

text \<open>C19: the reactor's call of \<open>get_ready_timers\<close> returns, with the waits of exactly the timers
  whose time has come, timer by timer in the order of their expiry and those of one timer in the
  order they were started, and leaves the other timers and their waits in the queue.\<close>

theorem timers_fire_in_order:
  assumes "tq_ok s"
  shows "\<exists>due s'. get_ready_timers now [] s = Some (concat (map (\<lambda>(_, t). pt_ops (tq_data s t)) due), s')
    \<and> sorted (map fst due) \<and> mset due = filter_mset (\<lambda>x. fst x \<le> now) (mset (tq_heap s))
    \<and> tq_ok s' \<and> mset (tq_heap s') = filter_mset (\<lambda>x. \<not> fst x \<le> now) (mset (tq_heap s))"
proof -
  obtain due s' where d: "tq.drain (length (tq_heap s)) now s = (due, s')"
    by (cases "tq.drain (length (tq_heap s)) now s")
  from get_ready_drain [OF assms order_refl d, of "[]"] tq.drain_spec [OF assms _ d]
  show ?thesis by (intro exI [of _ due] exI [of _ s']) (simp add: case_prod_unfold)
qed

definition demo_timers :: "(int, nat) timer_queue" where
  "demo_timers = snd (enqueue_timer 5 2 11 (snd (enqueue_timer 9 1 10 new_timer_queue)))"

lemma demo_timers_ok: "tq_ok demo_timers"
  unfolding demo_timers_def
  by (metis enqueue_timer_ok(1) tq_ok_new prod.collapse)

theorem timers_fire_in_order_witness:
  "tq_ok demo_timers \<and> (\<exists>due s'. get_ready_timers 6 [] demo_timers =
      Some (concat (map (\<lambda>(_, t). pt_ops (tq_data demo_timers t)) due), s')
    \<and> mset due = filter_mset (\<lambda>x. fst x \<le> 6) (mset (tq_heap demo_timers)))"
  using timers_fire_in_order [OF demo_timers_ok, of 6] demo_timers_ok by blast

subsection \<open>Every wait comes out once\<close>

definition pending :: "('t, 'o) timer_queue \<Rightarrow> 'o multiset" where
  "pending s = (\<Sum>t \<in> active s. mset (pt_ops (tq_data s t)))"

lemma finite_active [simp]: "finite (active s)"
  by (simp add: active_def)

lemma pending_same: "active s' = active s \<Longrightarrow> (\<And>t. pt_ops (tq_data s' t) = pt_ops (tq_data s t)) \<Longrightarrow> pending s' = pending s"
  by (simp add: pending_def)

lemma pending_remove:
  assumes "t \<in> active s" "active s' = active s - {t}"
    and "\<And>u. u \<noteq> t \<Longrightarrow> pt_ops (tq_data s' u) = pt_ops (tq_data s u)"
  shows "pending s = mset (pt_ops (tq_data s t)) + pending s'"
proof -
  have "(\<Sum>u \<in> active s - {t}. mset (pt_ops (tq_data s u))) = (\<Sum>u \<in> active s - {t}. mset (pt_ops (tq_data s' u)))"
    by (rule sum.cong) (use assms(3) in auto)
  then show ?thesis using assms(1,2) by (simp add: pending_def sum.remove [of "active s" t])
qed

lemma pending_enqueue:
  assumes "tq_ok s" "enqueue_timer time t op s = (e, s')"
  shows "pending s' = add_mset op (pending s)"
proof -
  note E = enqueue_timer_ok [OF assms]
  have "pending s' = mset (pt_ops (tq_data s t)) + {#op#} + (\<Sum>u \<in> active s - {t}. mset (pt_ops (tq_data s u)))"
    unfolding pending_def E(2) by (subst sum.insert_remove) (auto simp: E(4) intro!: sum.cong)
  moreover have "pending s = mset (pt_ops (tq_data s t)) + (\<Sum>u \<in> active s - {t}. mset (pt_ops (tq_data s u)))"
  proof (cases "t \<in> active s")
    case True
    then show ?thesis by (simp add: pending_def sum.remove [of "active s" t])
  next
    case False
    then have "pt_ops (tq_data s t) = []" using assms(1) by (auto simp: tq_ok_def)
    then show ?thesis using False by (simp add: pending_def)
  qed
  ultimately show ?thesis by simp
qed

lemma drain_active: 
  assumes "tq_ok s" "tq.drain n now s = (xs, s')" "x \<in> set xs"
  shows "snd x \<in> active s"
proof -
  have "set (tq_heap s) = set xs \<union> set (tq_heap s')"
    using tq.drain_splits [OF assms(1,2)] by (metis set_mset_mset set_mset_union)
  then show ?thesis using assms(3) by (simp add: active_def)
qed

lemma drain_pending:
  "tq_ok s \<Longrightarrow> tq.drain n now s = (xs, s') \<Longrightarrow>
    pending s = mset (concat (map (\<lambda>x. pt_ops (tq_data s (snd x))) xs)) + pending s'"
proof (induction n arbitrary: s xs)
  case (Suc n)
  show ?case
  proof (cases "\<exists>x. tq_front s = Some x \<and> fst x \<le> now")
    case True
    then obtain x ys where x: "tq_front s = Some x" "tq.drain n now (tq_remove_front s) = (ys, s')" "xs = x # ys"
      using Suc.prems(2) by (auto split: prod.splits)
    have f: "0 < length (tq_heap s)" "tq_heap s ! 0 = (fst x, snd x)"
      using x(1) by (auto simp: tq_front_def split: if_splits)
    note R = take_ops_timer_ok [OF Suc.prems(1) f]
    have r: "tq_remove_front s = remove_timer (snd x) (take_ops (snd x) s)"
      using f(2) by (simp add: tq_remove_front_def Let_def)
    have "snd x \<in> active s" using nth_mem [OF f(1)] f(2) by (force simp: active_def)
    from pending_remove [OF this, of "tq_remove_front s"]
    have p: "pending s = mset (pt_ops (tq_data s (snd x))) + pending (tq_remove_front s)" using R(3,4) by (simp add: r)
    note ok = tq.remove_ok [OF Suc.prems(1) x(1)]
    have "pt_ops (tq_data (tq_remove_front s) (snd y)) = pt_ops (tq_data s (snd y))" if "y \<in> set ys" for y
      using that R(3) drain_active [OF ok x(2)] R(4) by (auto simp: r)
    then show ?thesis using Suc.IH [OF ok x(2)] p x(3) by (simp cong: map_cong)
  next
    case False
    then have "xs = []" "s' = s" using Suc.prems(2) by (auto split: option.splits if_splits)
    then show ?thesis by simp
  qed
qed simp

lemma cancel_timer_ok:
  assumes "tq_ok s" "cancel_timer m t s = (n, ops, s')"
  shows "tq_ok s'" and "ops = map (\<lambda>op. (op, operation_aborted)) (take m (pt_ops (tq_data s t)))"
    and "n = length ops" and "pending s = mset (take m (pt_ops (tq_data s t))) + pending s'"
    and "u \<noteq> t \<Longrightarrow> pt_ops (tq_data s' u) = pt_ops (tq_data s u)"
proof -
  let ?ops = "pt_ops (tq_data s t)"
  have sh: "tq_shape s" and op: "pt_ops (tq_data s u) \<noteq> [] \<longleftrightarrow> u \<in> active s" for u
    using assms(1) by (auto simp: tq_ok_def)
  define v where "v = upd_timer t (\<lambda>d. d\<lparr>pt_ops := drop m ?ops\<rparr>) s"
  note U = ops_updated [of t "drop m ?ops" s, folded v_def]
  have vp: "pt_ops (tq_data v u) = (if u = t then drop m ?ops else pt_ops (tq_data s u))" for u
    by (simp add: v_def upd_timer_def)
  have va: "active v = active s" using U by (simp add: active_def)
  have s': "(n, ops, s') = (if t \<in> active s then (length (take m ?ops), map (\<lambda>op. (op, operation_aborted)) (take m ?ops),
      if drop m ?ops = [] then remove_timer t v else v) else (0, [], s))"
  proof -
    have "cancel_timer m t s = (if \<not> inactive t s then (length (take m ?ops), map (\<lambda>op. (op, operation_aborted)) (take m ?ops),
        if pt_ops (tq_data v t) = [] then remove_timer t v else v) else (0, [], s))"
      by (simp only: cancel_timer_def Let_def v_def)
    then show ?thesis using assms(2) shape_inactive [OF sh, of t] vp [of t] by simp
  qed
  show ops: "ops = map (\<lambda>op. (op, operation_aborted)) (take m ?ops)" and "n = length ops"
    using s' op [of t] by (auto split: if_splits)
  have "tq_ok s' \<and> pending s = mset (take m ?ops) + pending s' \<and> (u \<noteq> t \<longrightarrow> pt_ops (tq_data s' u) = pt_ops (tq_data s u))" for u
  proof (cases "t \<in> active s")
    case False
    then show ?thesis using s' op [of t] assms(1) by simp
  next
    case True
    note act = this
    then obtain i time where i: "i < length (tq_heap v)" "tq_heap v ! i = (time, t)" using active_entry va by metis
    have vs: "tq_shape v" using U sh by simp
    have split: "mset ?ops = mset (take m ?ops) + mset (drop m ?ops)"
      by (metis append_take_drop_id mset_append)
    have vpend: "pending s = mset (take m ?ops) + pending v"
    proof -
      have "(\<Sum>u \<in> active s - {t}. mset (pt_ops (tq_data v u))) = (\<Sum>u \<in> active s - {t}. mset (pt_ops (tq_data s u)))"
        by (rule sum.cong) (auto simp: vp)
      then show ?thesis
        unfolding pending_def va sum.remove [OF finite_active act] using split vp [of t] by simp
    qed
    show ?thesis
    proof (cases "drop m ?ops = []")
      case True
      note R = remove_timer_ok [OF vs i]
      have "pending v = pending (remove_timer t v)"
        using pending_remove [of t v "remove_timer t v"] act va R(3,4) vp True by simp
      moreover have "tq_ok (remove_timer t v)" using R op True by (auto simp: tq_ok_def vp va)
      ultimately show ?thesis using s' act True vpend R(3) vp by simp
    next
      case False
      have "tq_ok v" using vs op False act by (auto simp: tq_ok_def vp va)
      then show ?thesis using s' act False vpend vp by simp
    qed
  qed
  then show "tq_ok s'" "pending s = mset (take m ?ops) + pending s'"
    "u \<noteq> t \<Longrightarrow> pt_ops (tq_data s' u) = pt_ops (tq_data s u)" by blast+
qed

lemma get_all_list_ok:
  "linked (tq_data s) prev (tq_timers s) xs \<Longrightarrow> distinct xs \<Longrightarrow>
    \<exists>s'. get_all_list ops s = Some (ops @ concat (map (\<lambda>t. pt_ops (tq_data s t)) xs), s') \<and> tq_timers s' = None
      \<and> (\<forall>t. t \<in> set xs \<longrightarrow> pt_ops (tq_data s' t) = [] \<and> pt_next (tq_data s' t) = None \<and> pt_prev (tq_data s' t) = None)
      \<and> (\<forall>t. t \<notin> set xs \<longrightarrow> tq_data s' t = tq_data s t)"
proof (induction xs arbitrary: s prev ops)
  case Nil
  then show ?case by (subst get_all_list.simps) simp
next
  case (Cons x xs)
  define u where "u = upd_timer x (\<lambda>d. d\<lparr>pt_ops := [], pt_next := None, pt_prev := None\<rparr>) (s\<lparr>tq_timers := pt_next (tq_data s x)\<rparr>)"
  have p: "tq_timers s = Some x" "linked (tq_data s) (Some x) (pt_next (tq_data s x)) xs" "x \<notin> set xs" "distinct xs"
    using Cons.prems by auto
  have e: "get_all_list ops s = get_all_list (ops @ pt_ops (tq_data s x)) u"
    using p(1) by (subst get_all_list.simps) (simp add: u_def)
  have d: "tq_data u t = tq_data s t" if "t \<noteq> x" for t using that by (simp add: u_def upd_timer_def)
  have ux: "pt_ops (tq_data u x) = [] \<and> pt_next (tq_data u x) = None \<and> pt_prev (tq_data u x) = None"
    "tq_timers u = pt_next (tq_data s x)" by (simp_all add: u_def upd_timer_def)
  have du: "tq_data u t = tq_data s t" if "t \<in> set xs" for t using that p(3) d by metis
  have "linked (tq_data u) (Some x) (tq_timers u) xs"
    using p(2) linked_cong [of xs "tq_data u" "tq_data s"] du ux(2) by simp
  from Cons.IH [OF this p(4), of "ops @ pt_ops (tq_data s x)"]
  obtain s' where s': "get_all_list (ops @ pt_ops (tq_data s x)) u =
      Some ((ops @ pt_ops (tq_data s x)) @ concat (map (\<lambda>t. pt_ops (tq_data u t)) xs), s')" "tq_timers s' = None"
    "\<forall>t. t \<in> set xs \<longrightarrow> pt_ops (tq_data s' t) = [] \<and> pt_next (tq_data s' t) = None \<and> pt_prev (tq_data s' t) = None"
    "\<forall>t. t \<notin> set xs \<longrightarrow> tq_data s' t = tq_data u t" by blast
  have "concat (map (\<lambda>t. pt_ops (tq_data u t)) xs) = concat (map (\<lambda>t. pt_ops (tq_data s t)) xs)"
    using du by (simp cong: map_cong)
  then show ?case using s' e p(3) d ux by (intro exI [of _ s']) auto
qed

lemma get_all_timers_ok:
  assumes "tq_ok s"
  shows "\<exists>ops s'. get_all_timers s = Some (ops, s') \<and> mset ops = pending s \<and> tq_ok s' \<and> tq_heap s' = [] \<and> pending s' = {#}"
proof -
  obtain xs where xs: "listed s xs" "set xs = active s" using assms by (auto simp: tq_ok_def tq_shape_def)
  then have l: "linked (tq_data s) None (tq_timers s) xs" "distinct xs" by (auto simp: listed_def)
  obtain s' where s': "get_all_list [] s = Some (concat (map (\<lambda>t. pt_ops (tq_data s t)) xs), s')" "tq_timers s' = None"
    "\<forall>t. t \<in> set xs \<longrightarrow> pt_ops (tq_data s' t) = [] \<and> pt_next (tq_data s' t) = None \<and> pt_prev (tq_data s' t) = None"
    "\<forall>t. t \<notin> set xs \<longrightarrow> tq_data s' t = tq_data s t"
    using get_all_list_ok [OF l, of "[]"] by auto
  let ?s = "s'\<lparr>tq_heap := []\<rparr>"
  have "listed ?s []" using s' xs by (auto simp: listed_def)
  moreover have "pt_ops (tq_data ?s t) = []" for t using s' xs(2) assms by (cases "t \<in> set xs") (auto simp: tq_ok_def)
  ultimately have "tq_ok ?s"
    by (auto simp: tq_ok_def tq_shape_def active_def ordered_def idx_ok_def)
  moreover have "mset (concat (map (\<lambda>t. pt_ops (tq_data s t)) xs)) = pending s"
    unfolding pending_def xs(2) [symmetric] using l(2)
    by (simp add: mset_concat sum_mset_sum_list sum.distinct_set_conv_list o_def)
  ultimately show ?thesis using s'(1)
    by (intro exI [of _ "concat (map (\<lambda>t. pt_ops (tq_data s t)) xs)"] exI [of _ ?s])
      (simp add: get_all_timers_def pending_def active_def)
qed

subsection \<open>How long the reactor waits\<close>

text \<open>The wait ends at once exactly if a timer is due; otherwise it is positive, within the limit,
  and not beyond the first expiry, but for less than one unit.\<close>

lemma wait_duration_spec:
  assumes "tq_ok s" "0 < per_unit" "0 < max_duration"
  shows "wait_duration per_unit now max_duration s = 0 \<longleftrightarrow> (\<exists>(time, t) \<in> set (tq_heap s). time \<le> now)"
    and "0 \<le> wait_duration per_unit now max_duration s \<and> wait_duration per_unit now max_duration s \<le> max_duration"
    and "1 < wait_duration per_unit now max_duration s \<Longrightarrow>
      \<forall>(time, t) \<in> set (tq_heap s). now + per_unit * wait_duration per_unit now max_duration s \<le> time"
proof -
  have least: "fst (tq_heap s ! 0) \<le> time" if "(time, t) \<in> set (tq_heap s)" for time t
    using that ordered_front [OF tq_ok_ordered [OF assms(1)]] by (auto simp: in_set_conv_nth key_def) (metis fst_conv)
  let ?d = "fst (tq_heap s ! 0) - now"
  have u: "to_units per_unit ?d max_duration = 0 \<longleftrightarrow> ?d \<le> 0"
    "0 \<le> to_units per_unit ?d max_duration" "to_units per_unit ?d max_duration \<le> max_duration"
    using assms(2,3) pos_imp_zdiv_nonneg_iff [of per_unit ?d] by (auto simp: to_units_def Let_def)
  have "per_unit * (?d div per_unit) \<le> ?d"
    using assms(2) by (metis le_add_same_cancel1 mult_div_mod_eq order_less_imp_le pos_mod_sign)
  then have m: "per_unit * to_units per_unit ?d max_duration \<le> ?d" if "1 < to_units per_unit ?d max_duration"
    using that order_trans [OF mult_left_mono [of "to_units per_unit ?d max_duration" "?d div per_unit" per_unit]] assms(2)
    by (fastforce simp: to_units_def Let_def split: if_splits)
  have f: "tq_heap s \<noteq> [] \<Longrightarrow> (fst (tq_heap s ! 0), snd (tq_heap s ! 0)) \<in> set (tq_heap s)" by simp
  show "wait_duration per_unit now max_duration s = 0 \<longleftrightarrow> (\<exists>(time, t) \<in> set (tq_heap s). time \<le> now)"
  proof (cases "tq_heap s = []")
    case False
    have "fst (tq_heap s ! 0) \<le> now \<longleftrightarrow> (\<exists>(time, t) \<in> set (tq_heap s). time \<le> now)"
      unfolding case_prod_unfold using f [OF False] least by (metis order_trans prod.collapse)
    then show ?thesis using u(1) False by (simp add: wait_duration_def)
  qed (use assms(3) in \<open>simp add: wait_duration_def\<close>)
  show "0 \<le> wait_duration per_unit now max_duration s \<and> wait_duration per_unit now max_duration s \<le> max_duration"
    using u(2,3) assms(3) by (simp add: wait_duration_def)
  show "\<forall>(time, t) \<in> set (tq_heap s). now + per_unit * wait_duration per_unit now max_duration s \<le> time"
    if "1 < wait_duration per_unit now max_duration s"
  proof (cases "tq_heap s = []")
    case False
    then have "now + per_unit * wait_duration per_unit now max_duration s \<le> fst (tq_heap s ! 0)"
      using that m by (simp add: wait_duration_def)
    then show ?thesis using least by fastforce
  qed simp
qed

lemma cancel_timer_eq:
  assumes "tq_ok s" "cancel_timer m t s = (n, ops, s')"
  defines "v \<equiv> upd_timer t (\<lambda>d. d\<lparr>pt_ops := drop m (pt_ops (tq_data s t))\<rparr>) s"
  shows "s' = (if t \<notin> active s then s else if pt_ops (tq_data v t) = [] then remove_timer t v else v)"
proof -
  have "cancel_timer m t s = (if \<not> inactive t s then (length (take m (pt_ops (tq_data s t))),
      map (\<lambda>op. (op, operation_aborted)) (take m (pt_ops (tq_data s t))),
      if pt_ops (tq_data v t) = [] then remove_timer t v else v) else (0, [], s))"
    by (simp only: cancel_timer_def Let_def v_def)
  moreover have "inactive t s \<longleftrightarrow> t \<notin> active s" using assms(1) by (intro shape_inactive) (simp add: tq_ok_def)
  ultimately show ?thesis using assms(2) by (simp split: if_splits)
qed

lemma cancel_timer_rest:
  assumes "tq_ok s" "cancel_timer m t s = (n, ops, s')"
  shows "pt_ops (tq_data s' t) = drop m (pt_ops (tq_data s t))" and "set (tq_heap s') \<subseteq> set (tq_heap s)"
proof -
  let ?v = "upd_timer t (\<lambda>d. d\<lparr>pt_ops := drop m (pt_ops (tq_data s t))\<rparr>) s"
  note U = ops_updated [of t "drop m (pt_ops (tq_data s t))" s]
  note e = cancel_timer_eq [OF assms]
  have "(pt_ops (tq_data s' t) = drop m (pt_ops (tq_data s t))) \<and> set (tq_heap s') \<subseteq> set (tq_heap s)"
  proof (cases "t \<in> active s")
    case True
    then obtain i time where i: "i < length (tq_heap ?v)" "tq_heap ?v ! i = (time, t)"
      using active_entry [of t ?v] U by (auto simp: active_def)
    have "tq_shape ?v" using U assms(1) by (simp add: tq_ok_def)
    note R = remove_timer_ok [OF this i]
    have "mset (tq_heap (remove_timer t ?v)) \<subseteq># mset (tq_heap s)" using R(2) U by (simp add: diff_subset_eq_self)
    then have "set (tq_heap (remove_timer t ?v)) \<subseteq> set (tq_heap s)" using set_mset_mono by fastforce
    moreover have "pt_ops (tq_data ?v t) = drop m (pt_ops (tq_data s t))" by (simp add: upd_timer_def)
    moreover have "s' = remove_timer t ?v \<or> s' = ?v" using e True by (simp split: if_splits)
    ultimately show ?thesis using R(3) [of t] U by (elim disjE) (simp_all only: subset_refl simp_thms)
  next
    case False
    then have "pt_ops (tq_data s t) = []" using assms(1) by (auto simp: tq_ok_def)
    then show ?thesis using e False by simp
  qed
  then show "pt_ops (tq_data s' t) = drop m (pt_ops (tq_data s t))" "set (tq_heap s') \<subseteq> set (tq_heap s)" by blast+
qed

end
