(* ===== verification/DeadlineTimer.thy ===== *)
theory DeadlineTimer
  imports TimerQueue_Props
begin

text \<open>
  \<open>asio::detail::deadline_timer_service\<close>, the service behind \<open>steady_timer\<close>, over the timer
  queue, with the timer functions of the reactor it schedules on.  A timer is an address; the
  operations a wait ends with are what the service hands to the \<open>io_service\<close>.
\<close>

subsection \<open>State\<close>

record 't waitable =
  wt_expiry :: 't
  wt_might_have_pending_waits :: bool

text \<open>\<open>ts_posted\<close> records the completions handed over, \<open>ts_work\<close> counts the calls of
  \<open>work_started\<close>.\<close>

record ('t, 'o) timer_service =
  ts_queue :: "('t, 'o) timer_queue"
  ts_impl :: "nat \<Rightarrow> 't waitable"
  ts_posted :: "('o \<times> wait_ec) list"
  ts_abandoned :: "'o list"
  ts_work :: nat
  ts_shutdown :: bool

definition new_timer_service :: "'t \<Rightarrow> ('t, 'o) timer_service" where
  "new_timer_service epoch = \<lparr>ts_queue = new_timer_queue,
     ts_impl = (\<lambda>_. \<lparr>wt_expiry = epoch, wt_might_have_pending_waits = False\<rparr>),
     ts_posted = [], ts_abandoned = [], ts_work = 0, ts_shutdown = False\<rparr>"

subsection \<open>The reactor\<close>

definition schedule_timer :: "'t::linorder \<Rightarrow> nat \<Rightarrow> 'o \<Rightarrow> ('t, 'o) timer_service \<Rightarrow> ('t, 'o) timer_service" where
  "schedule_timer time t op s =
     (if ts_shutdown s then s\<lparr>ts_posted := ts_posted s @ [(op, wait_success)], ts_work := ts_work s + 1\<rparr>
      else s\<lparr>ts_queue := snd (enqueue_timer time t op (ts_queue s)), ts_work := ts_work s + 1\<rparr>)"

definition reactor_cancel_timer :: "nat \<Rightarrow> nat \<Rightarrow> ('t::linorder, 'o) timer_service \<Rightarrow> nat \<times> ('t, 'o) timer_service" where
  "reactor_cancel_timer max_cancelled t s =
     (case cancel_timer max_cancelled t (ts_queue s) of (n, ops, q) \<Rightarrow>
       (n, s\<lparr>ts_queue := q, ts_posted := ts_posted s @ ops\<rparr>))"

text \<open>The timers' part of \<open>run\<close> and of \<open>shutdown_service\<close>.\<close>

definition reactor_run_timers :: "'t::linorder \<Rightarrow> ('t, 'o) timer_service \<Rightarrow> ('t, 'o) timer_service option" where
  "reactor_run_timers now s =
     map_option (\<lambda>(ops, q). s\<lparr>ts_queue := q, ts_posted := ts_posted s @ map (\<lambda>op. (op, wait_success)) ops\<rparr>)
       (get_ready_timers now [] (ts_queue s))"

definition reactor_shutdown_timers :: "('t, 'o) timer_service \<Rightarrow> ('t, 'o) timer_service option" where
  "reactor_shutdown_timers s =
     map_option (\<lambda>(ops, q). s\<lparr>ts_shutdown := True, ts_queue := q, ts_abandoned := ts_abandoned s @ ops\<rparr>)
       (get_all_timers (ts_queue s))"

subsection \<open>The service\<close>

definition wt_upd :: "nat \<Rightarrow> ('t waitable \<Rightarrow> 't waitable) \<Rightarrow> ('t, 'o) timer_service \<Rightarrow> ('t, 'o) timer_service" where
  "wt_upd t f s = s\<lparr>ts_impl := (ts_impl s)(t := f (ts_impl s t))\<rparr>"

definition wt_construct :: "'t \<Rightarrow> nat \<Rightarrow> ('t, 'o) timer_service \<Rightarrow> ('t, 'o) timer_service" where
  "wt_construct epoch t = wt_upd t (\<lambda>_. \<lparr>wt_expiry = epoch, wt_might_have_pending_waits = False\<rparr>)"

text \<open>The largest \<open>size_t\<close> is the default of \<open>max_cancelled\<close>.\<close>

definition size_max :: nat where "size_max = 2 ^ 64 - 1"

definition wt_cancel :: "nat \<Rightarrow> ('t::linorder, 'o) timer_service \<Rightarrow> nat \<times> ('t, 'o) timer_service" where
  "wt_cancel t s =
     (if \<not> wt_might_have_pending_waits (ts_impl s t) then (0, s)
      else let (count, s) = reactor_cancel_timer size_max t s
           in (count, wt_upd t (\<lambda>i. i\<lparr>wt_might_have_pending_waits := False\<rparr>) s))"

definition wt_cancel_one :: "nat \<Rightarrow> ('t::linorder, 'o) timer_service \<Rightarrow> nat \<times> ('t, 'o) timer_service" where
  "wt_cancel_one t s =
     (if \<not> wt_might_have_pending_waits (ts_impl s t) then (0, s)
      else let (count, s) = reactor_cancel_timer 1 t s
           in (count, if count = 0 then wt_upd t (\<lambda>i. i\<lparr>wt_might_have_pending_waits := False\<rparr>) s else s))"

definition wt_destroy :: "nat \<Rightarrow> ('t::linorder, 'o) timer_service \<Rightarrow> ('t, 'o) timer_service" where
  "wt_destroy t s = snd (wt_cancel t s)"

definition wt_expires_at :: "'t::linorder \<Rightarrow> nat \<Rightarrow> ('t, 'o) timer_service \<Rightarrow> nat \<times> ('t, 'o) timer_service" where
  "wt_expires_at time t s =
     (let (count, s) = wt_cancel t s in (count, wt_upd t (\<lambda>i. i\<lparr>wt_expiry := time\<rparr>) s))"

definition wt_expires_from_now :: "int \<Rightarrow> int \<Rightarrow> nat \<Rightarrow> (int, 'o) timer_service \<Rightarrow> nat \<times> (int, 'o) timer_service" where
  "wt_expires_from_now now d = wt_expires_at (now + d)"

definition wt_async_wait :: "nat \<Rightarrow> 'o \<Rightarrow> ('t::linorder, 'o) timer_service \<Rightarrow> ('t, 'o) timer_service" where
  "wt_async_wait t op s =
     schedule_timer (wt_expiry (ts_impl s t)) t op (wt_upd t (\<lambda>i. i\<lparr>wt_might_have_pending_waits := True\<rparr>) s)"

subsection \<open>Runs\<close>

datatype ('t, 'o) timer_event =
  TConstruct nat | TWait nat 'o | TExpiresAt nat 't | TCancel nat | TCancelOne nat | TDestroy nat | TRun 't | TShutdown

text \<open>An object is constructed before it is used and after it was destroyed.\<close>

fun ts_step :: "'t \<Rightarrow> ('t::linorder, 'o) timer_event \<Rightarrow> ('t, 'o) timer_service \<Rightarrow> ('t, 'o) timer_service option" where
  "ts_step epoch (TConstruct t) s = Some (wt_construct epoch t s)"
| "ts_step epoch (TWait t op) s = Some (wt_async_wait t op s)"
| "ts_step epoch (TExpiresAt t time) s = Some (snd (wt_expires_at time t s))"
| "ts_step epoch (TCancel t) s = Some (snd (wt_cancel t s))"
| "ts_step epoch (TCancelOne t) s = Some (snd (wt_cancel_one t s))"
| "ts_step epoch (TDestroy t) s = Some (wt_destroy t s)"
| "ts_step epoch (TRun now) s = reactor_run_timers now s"
| "ts_step epoch TShutdown s = reactor_shutdown_timers s"

fun ts_enabled :: "('t, 'o) timer_service \<Rightarrow> ('t, 'o) timer_event \<Rightarrow> bool" where
  "ts_enabled s (TConstruct t) = (t \<notin> active (ts_queue s))"
| "ts_enabled s _ = True"

fun started_wait :: "('t, 'o) timer_event \<Rightarrow> 'o list" where
  "started_wait (TWait t op) = [op]"
| "started_wait _ = []"

text \<open>The waits a run has started, with the state it leads to.\<close>

inductive ts_reach :: "'t::linorder \<Rightarrow> 'o list \<Rightarrow> ('t, 'o) timer_service \<Rightarrow> bool" for epoch where
  tr_new: "ts_reach epoch [] (new_timer_service epoch)"
| tr_step: "ts_reach epoch ops s \<Longrightarrow> ts_enabled s ev \<Longrightarrow> ts_step epoch ev s = Some s' \<Longrightarrow>
    ts_reach epoch (ops @ started_wait ev) s'"

subsection \<open>The invariant\<close>

text \<open>An entry of the heap has the expiry of its timer, and a timer with waits knows that it may have
  some: this is why a new wait on an active timer may ignore the time it is given.\<close>

definition ts_inv :: "'o list \<Rightarrow> ('t::linorder, 'o) timer_service \<Rightarrow> bool" where
  "ts_inv ops s \<longleftrightarrow> tq_ok (ts_queue s)
     \<and> (\<forall>(time, t) \<in> set (tq_heap (ts_queue s)). time = wt_expiry (ts_impl s t) \<and> wt_might_have_pending_waits (ts_impl s t))
     \<and> mset ops = mset (map fst (ts_posted s)) + mset (ts_abandoned s) + pending (ts_queue s)"

lemma cancel_effect:
  assumes "ts_inv ops s" "reactor_cancel_timer m t s = (n, s')"
  shows "ts_inv ops s'" and "m > 0 \<Longrightarrow> n = 0 \<Longrightarrow> t \<notin> active (ts_queue s')"
    and "length (pt_ops (tq_data (ts_queue s) t)) \<le> m \<Longrightarrow> t \<notin> active (ts_queue s')"
    and "ts_impl s' = ts_impl s" and "n = length (take m (pt_ops (tq_data (ts_queue s) t)))"
proof -
  obtain cops q where c: "cancel_timer m t (ts_queue s) = (n, cops, q)"
    "s' = s\<lparr>ts_queue := q, ts_posted := ts_posted s @ cops\<rparr>"
    using assms(2) by (auto simp: reactor_cancel_timer_def split: prod.splits)
  have ok: "tq_ok (ts_queue s)" using assms(1) by (simp add: ts_inv_def)
  note C = cancel_timer_ok [OF ok c(1)]
  show "ts_impl s' = ts_impl s" by (simp add: c(2))
  show n: "n = length (take m (pt_ops (tq_data (ts_queue s) t)))" using C(2,3) by simp
  have q: "pt_ops (tq_data q t) = drop m (pt_ops (tq_data (ts_queue s) t))"
    using cancel_timer_rest(1) [OF ok c(1)] .
  have iff: "pt_ops (tq_data q t) \<noteq> [] \<longleftrightarrow> t \<in> active q" using C(1) by (simp add: tq_ok_def)
  show "m > 0 \<Longrightarrow> n = 0 \<Longrightarrow> t \<notin> active (ts_queue s')" using n q iff by (simp add: c(2))
  show "length (pt_ops (tq_data (ts_queue s) t)) \<le> m \<Longrightarrow> t \<notin> active (ts_queue s')" using q iff by (simp add: c(2))
  show "ts_inv ops s'"
    using assms(1) C(1,2,4) cancel_timer_rest(2) [OF ok c(1)] by (force simp: ts_inv_def c(2) o_def)
qed

lemma heap_active: "(time, t) \<in> set (tq_heap q) \<Longrightarrow> t \<in> active q"
  by (force simp: active_def)

text \<open>Changing the record of a timer that has no waits, or setting its flag, keeps the invariant.\<close>

lemma upd_inactive: "ts_inv ops s \<Longrightarrow> t \<notin> active (ts_queue s) \<Longrightarrow> ts_inv ops (wt_upd t f s)"
  by (auto simp: ts_inv_def wt_upd_def dest: heap_active)

lemma upd_flag: "ts_inv ops s \<Longrightarrow> ts_inv ops (wt_upd t (\<lambda>i. i\<lparr>wt_might_have_pending_waits := True\<rparr>) s)"
  by (fastforce simp: ts_inv_def wt_upd_def)

text \<open>A queue of fewer than \<open>size_max\<close> waits is emptied by a cancel.\<close>

definition small :: "('t, 'o) timer_service \<Rightarrow> bool" where
  "small s \<longleftrightarrow> (\<forall>t. length (pt_ops (tq_data (ts_queue s) t)) \<le> size_max)"

lemma no_flag_inactive: "ts_inv ops s \<Longrightarrow> \<not> wt_might_have_pending_waits (ts_impl s t) \<Longrightarrow> t \<notin> active (ts_queue s)"
  by (auto simp: ts_inv_def active_def)

lemma wt_cancel_inv:
  assumes "ts_inv ops s" "small s"
  shows "ts_inv ops (snd (wt_cancel t s)) \<and> t \<notin> active (ts_queue (snd (wt_cancel t s)))"
proof (cases "wt_might_have_pending_waits (ts_impl s t)")
  case True
  obtain n s' where c: "reactor_cancel_timer size_max t s = (n, s')" by (cases "reactor_cancel_timer size_max t s")
  note C = cancel_effect [OF assms(1) c]
  have "t \<notin> active (ts_queue s')" using C(3) assms(2) by (simp add: small_def)
  then show ?thesis using upd_inactive [OF C(1)] True c by (simp add: wt_cancel_def) (simp add: wt_upd_def)
next
  case False
  then show ?thesis using assms(1) no_flag_inactive by (simp add: wt_cancel_def)
qed

lemma wt_cancel_one_inv:
  assumes "ts_inv ops s"
  shows "ts_inv ops (snd (wt_cancel_one t s))"
proof (cases "wt_might_have_pending_waits (ts_impl s t)")
  case True
  obtain n s' where c: "reactor_cancel_timer 1 t s = (n, s')" by (cases "reactor_cancel_timer 1 t s")
  note C = cancel_effect [OF assms(1) c]
  show ?thesis using C(1) C(2) upd_inactive [OF C(1)] True c by (simp add: wt_cancel_one_def)
qed (use assms in \<open>simp add: wt_cancel_one_def\<close>)

lemma wt_async_wait_inv:
  assumes "ts_inv ops s"
  shows "ts_inv (ops @ [op]) (wt_async_wait t op s)"
proof -
  define u where "u = wt_upd t (\<lambda>i. i\<lparr>wt_might_have_pending_waits := True\<rparr>) s"
  have u: "ts_inv ops u" "wt_expiry (ts_impl u t) = wt_expiry (ts_impl s t)" "wt_might_have_pending_waits (ts_impl u t)"
    using upd_flag [OF assms] by (simp_all add: u_def wt_upd_def)
  obtain e q where q: "enqueue_timer (wt_expiry (ts_impl u t)) t op (ts_queue u) = (e, q)" by force
  have ok: "tq_ok (ts_queue u)" using u(1) by (simp add: ts_inv_def)
  note E = enqueue_timer_ok [OF ok q] and P = pending_enqueue [OF ok q]
  have sub: "set (tq_heap q) \<subseteq> insert (wt_expiry (ts_impl u t), t) (set (tq_heap (ts_queue u)))"
    using arg_cong [OF E(3), of set_mset] by (auto split: if_splits)
  have "wt_async_wait t op s = (if ts_shutdown u then u\<lparr>ts_posted := ts_posted u @ [(op, wait_success)], ts_work := ts_work u + 1\<rparr>
      else u\<lparr>ts_queue := q, ts_work := ts_work u + 1\<rparr>)"
    unfolding wt_async_wait_def u_def [symmetric] schedule_timer_def using q u(2) by simp
  moreover have "ts_inv (ops @ [op]) (u\<lparr>ts_queue := q, ts_work := ts_work u + 1\<rparr>)"
    using u(1,3) E(1) P sub by (fastforce simp: ts_inv_def)
  moreover have "ts_inv (ops @ [op]) (u\<lparr>ts_posted := ts_posted u @ [(op, wait_success)], ts_work := ts_work u + 1\<rparr>)"
    using u(1) by (simp add: ts_inv_def)
  ultimately show ?thesis by simp
qed

lemma ready_ok:
  assumes "tq_ok s" "get_ready_timers now [] s = Some (ops, s')"
  shows "tq_ok s'" "pending s = mset ops + pending s'" "set (tq_heap s') \<subseteq> set (tq_heap s)"
proof -
  obtain due u where d: "tq.drain (length (tq_heap s)) now s = (due, u)" by (cases "tq.drain (length (tq_heap s)) now s")
  have "ops = concat (map (\<lambda>x. pt_ops (tq_data s (snd x))) due)" "s' = u"
    using get_ready_drain [OF assms(1) order_refl d, of "[]"] assms(2) by simp_all
  moreover have "set (tq_heap u) \<subseteq> set (tq_heap s)"
    using tq.drain_splits [OF assms(1) d] by (metis set_mset_mset set_mset_union sup_ge2)
  ultimately show "tq_ok s'" "pending s = mset ops + pending s'" "set (tq_heap s') \<subseteq> set (tq_heap s)"
    using drain_pending [OF assms(1) d] tq.drain_splits [OF assms(1) d] by simp_all
qed

lemma ts_step_inv:
  assumes "ts_inv ops s" "small s" "ts_enabled s ev" "ts_step epoch ev s = Some s'"
  shows "ts_inv (ops @ started_wait ev) s'"
proof -
  have ok: "tq_ok (ts_queue s)" using assms(1) by (simp add: ts_inv_def)
  show ?thesis
  proof (cases ev)
    case (TConstruct t)
    then show ?thesis using assms upd_inactive by (auto simp: wt_construct_def)
  next
    case (TWait t op)
    then show ?thesis using assms wt_async_wait_inv by auto
  next
    case (TExpiresAt t time)
    obtain n u where c: "wt_cancel t s = (n, u)" by (cases "wt_cancel t s")
    then show ?thesis using TExpiresAt assms wt_cancel_inv [OF assms(1,2), of t] upd_inactive
      by (auto simp: wt_expires_at_def)
  next
    case (TRun now)
    then obtain r q where r: "get_ready_timers now [] (ts_queue s) = Some (r, q)"
      "s' = s\<lparr>ts_queue := q, ts_posted := ts_posted s @ map (\<lambda>op. (op, wait_success)) r\<rparr>"
      using assms(4) by (auto simp: reactor_run_timers_def)
    from ready_ok [OF ok r(1)] show ?thesis using assms(1) TRun by (force simp: ts_inv_def r(2) o_def)
  next
    case TShutdown
    obtain r q where r: "get_all_timers (ts_queue s) = Some (r, q)" "mset r = pending (ts_queue s)" "tq_ok q"
      "tq_heap q = []" "pending q = {#}"
      using get_all_timers_ok [OF ok] by blast
    then show ?thesis using assms(1,4) TShutdown by (auto simp: ts_inv_def reactor_shutdown_timers_def)
  qed (use assms wt_cancel_inv wt_cancel_one_inv in \<open>auto simp: wt_destroy_def\<close>)
qed

lemma ops_pending: "tq_ok q \<Longrightarrow> length (pt_ops (tq_data q t)) \<le> size (pending q)"
proof (cases "t \<in> active q")
  case True
  then show ?thesis by (simp add: pending_def sum.remove [OF finite_active True])
next
  case False
  moreover assume "tq_ok q"
  ultimately have "pt_ops (tq_data q t) = []" unfolding tq_ok_def by blast
  then show ?thesis by simp
qed

lemma inv_small: "ts_inv ops s \<Longrightarrow> length ops \<le> size_max \<Longrightarrow> small s"
proof -
  assume i: "ts_inv ops s" and l: "length ops \<le> size_max"
  have "size (pending (ts_queue s)) \<le> length ops"
  proof -
    have "size (mset ops) = size (mset (map fst (ts_posted s)) + mset (ts_abandoned s) + pending (ts_queue s))"
      using i by (simp only: ts_inv_def)
    then show ?thesis by simp
  qed
  moreover have "tq_ok (ts_queue s)" using i by (simp add: ts_inv_def)
  ultimately show "small s" using ops_pending l unfolding small_def by (meson order_trans)
qed

lemma ts_reach_inv: "ts_reach epoch ops s \<Longrightarrow> length ops \<le> size_max \<Longrightarrow> ts_inv ops s"
proof (induction rule: ts_reach.induct)
  case tr_new
  show ?case using tq_ok_new by (simp add: ts_inv_def new_timer_service_def pending_def active_def) (simp add: new_timer_queue_def)
next
  case (tr_step ops s ev s')
  then have i: "ts_inv ops s" by simp
  show ?case by (rule ts_step_inv [OF i inv_small [OF i] tr_step(2,3)]) (use tr_step in simp)
qed

text \<open>C17: whatever is done with the timers of a service, every wait ends once: it is handed to the
  \<open>io_service\<close>, fired or aborted, or abandoned at shutdown, or is still in the queue; there it
  stands under the present expiry of its timer, so no change of the expiry is missed.  Every
  operation returns.\<close>

theorem waits_end_once:
  assumes "ts_reach epoch ops s" "length ops \<le> size_max"
  shows "mset ops = mset (map fst (ts_posted s)) + mset (ts_abandoned s) + pending (ts_queue s)
    \<and> (\<forall>t. pt_ops (tq_data (ts_queue s) t) \<noteq> [] \<longrightarrow> (wt_expiry (ts_impl s t), t) \<in> set (tq_heap (ts_queue s)))
    \<and> (\<forall>ev. ts_step epoch ev s \<noteq> None)"
proof (intro conjI allI impI)
  have i: "ts_inv ops s" by (rule ts_reach_inv [OF assms])
  then have ok: "tq_ok (ts_queue s)" by (simp add: ts_inv_def)
  show "mset ops = mset (map fst (ts_posted s)) + mset (ts_abandoned s) + pending (ts_queue s)"
    using i by (simp add: ts_inv_def)
  show "(wt_expiry (ts_impl s t), t) \<in> set (tq_heap (ts_queue s))" if "pt_ops (tq_data (ts_queue s) t) \<noteq> []" for t
  proof -
    have "t \<in> active (ts_queue s)" using that ok by (simp add: tq_ok_def)
    then obtain time where "(time, t) \<in> set (tq_heap (ts_queue s))" by (auto simp: active_def)
    then show ?thesis using i by (auto simp: ts_inv_def)
  qed
  have "get_ready_timers now [] (ts_queue s) \<noteq> None" for now
  proof -
    obtain due u where d: "tq.drain (length (tq_heap (ts_queue s))) now (ts_queue s) = (due, u)"
      by (cases "tq.drain (length (tq_heap (ts_queue s))) now (ts_queue s)")
    from get_ready_drain [OF ok order_refl d] show ?thesis by simp
  qed
  then show "ts_step epoch ev s \<noteq> None" for ev
    using get_all_timers_ok [OF ok] by (cases ev) (auto simp: reactor_run_timers_def reactor_shutdown_timers_def)
qed

theorem waits_end_once_witness:
  "\<exists>s. ts_reach (0 :: int) [7 :: nat] s \<and> mset [7] = mset (map fst (ts_posted s)) + mset (ts_abandoned s) + pending (ts_queue s)"
proof -
  have "ts_reach (0 :: int) [7 :: nat] (wt_async_wait 1 7 (new_timer_service 0))"
    using tr_step [OF tr_new [of "0 :: int"], of "TWait 1 (7 :: nat)"] by simp
  with waits_end_once [OF this] show ?thesis by (auto simp: size_max_def)
qed

text \<open>In every reachable state of a timer service the heap is ordered, its entries and the
  timers point at each other, the list of active timers is doubly linked and holds exactly the timers
  of the heap, and these are the ones that have waits.\<close>

theorem timer_structure:
  assumes "ts_reach epoch ops s" "length ops \<le> size_max"
  shows "ordered (tq_heap (ts_queue s)) \<and> idx_ok (ts_queue s)
    \<and> (\<exists>xs. listed (ts_queue s) xs \<and> set xs = snd ` set (tq_heap (ts_queue s)))
    \<and> (\<forall>t. inactive t (ts_queue s) \<longleftrightarrow> pt_ops (tq_data (ts_queue s) t) = [])"
proof -
  have ok: "tq_ok (ts_queue s)" using ts_reach_inv [OF assms] by (simp add: ts_inv_def)
  then have sh: "tq_shape (ts_queue s)" by (simp add: tq_ok_def)
  have "inactive t (ts_queue s) \<longleftrightarrow> pt_ops (tq_data (ts_queue s) t) = []" for t
    using shape_inactive [OF sh] ok unfolding tq_ok_def by blast
  with sh show ?thesis by (simp add: tq_shape_def active_def)
qed

theorem timer_structure_witness:
  "\<exists>s. ts_reach (0 :: int) [7 :: nat] s \<and> ordered (tq_heap (ts_queue s)) \<and> idx_ok (ts_queue s)"
proof -
  have "ts_reach (0 :: int) [7 :: nat] (wt_async_wait 1 7 (new_timer_service 0))"
    using tr_step [OF tr_new [of "0 :: int"], of "TWait 1 (7 :: nat)"] by simp
  with timer_structure [OF this] show ?thesis by (auto simp: size_max_def)
qed

end
