(* ===== verification/TimerReactor.thy ===== *)
theory TimerReactor
  imports OpQueue TimerQueue_Props
begin

text \<open>
  How the reactor comes to look at its timers (\<^verbatim>\<open>deps/asio/1.10.6/include/asio/detail/timer_queue_set.hpp\<close>,
  \<^verbatim>\<open>impl/timer_queue_set.ipp\<close>, and the timers' part of \<^verbatim>\<open>impl/epoll_reactor.hpp\<close> and
  \<^verbatim>\<open>impl/epoll_reactor.ipp\<close>): the linked set of timer queues, one per clock, and the timerfd that is
  armed for the earliest timer of all of them.  Times are ticks of \<open>steady_clock\<close>, nanoseconds, and the
  timerfd is armed at the time that was read.  The theorem: no timer is forgotten; the timerfd is always
  armed at most a microsecond after the expiry of every timer, and when it has expired, \<open>run\<close> hands over
  everything that is due.
\<close>

subsection \<open>The set of queues\<close>

text \<open>The queues are numbered; \<open>next_\<close> of each and \<open>first_\<close>.\<close>

definition qset_insert :: "nat \<Rightarrow> nexts \<times> nat option \<Rightarrow> nexts \<times> nat option" where
  "qset_insert q = (\<lambda>(nx, first). (nx(q := first), Some q))"

partial_function (option) qset_erase_after :: "nat \<Rightarrow> nat \<Rightarrow> nexts \<Rightarrow> nexts option" where
  "qset_erase_after q p nx =
     (case nx p of
        None \<Rightarrow> Some nx
      | Some p' \<Rightarrow> if p' = q then Some (nx(p := nx q, q := None)) else qset_erase_after q p' nx)"

definition qset_erase :: "nat \<Rightarrow> nexts \<times> nat option \<Rightarrow> (nexts \<times> nat option) option" where
  "qset_erase q = (\<lambda>(nx, first).
     case first of
       None \<Rightarrow> Some (nx, first)
     | Some f \<Rightarrow> if q = f then Some (nx(q := None), nx q)
                else map_option (\<lambda>nx. (nx, first)) (qset_erase_after q f nx))"

partial_function (option) qset_all_empty :: "nexts \<Rightarrow> (nat \<Rightarrow> (int, 'o) timer_queue) \<Rightarrow> nat option \<Rightarrow> bool option" where
  "qset_all_empty nx qs p =
     (case p of None \<Rightarrow> Some True | Some q \<Rightarrow> if \<not> tq_empty (qs q) then Some False else qset_all_empty nx qs (nx q))"

text \<open>\<open>wait_duration_msec\<close> and \<open>wait_duration_usec\<close>, with the ticks of the unit.\<close>

partial_function (option) qset_wait_duration :: "int \<Rightarrow> int \<Rightarrow> nexts \<Rightarrow> (nat \<Rightarrow> (int, 'o) timer_queue) \<Rightarrow> nat option \<Rightarrow> int \<Rightarrow> int option" where
  "qset_wait_duration per_unit now nx qs p min_duration =
     (case p of
        None \<Rightarrow> Some min_duration
      | Some q \<Rightarrow> qset_wait_duration per_unit now nx qs (nx q) (wait_duration per_unit now min_duration (qs q)))"

partial_function (option) qset_get_ready :: "int \<Rightarrow> nexts \<Rightarrow> nat option \<Rightarrow> 'o list \<Rightarrow> (nat \<Rightarrow> (int, 'o) timer_queue)
    \<Rightarrow> ('o list \<times> (nat \<Rightarrow> (int, 'o) timer_queue)) option" where
  "qset_get_ready now nx p ops qs =
     (case p of
        None \<Rightarrow> Some (ops, qs)
      | Some q \<Rightarrow> (case get_ready_timers now [] (qs q) of
          None \<Rightarrow> None
        | Some (ready, s) \<Rightarrow> qset_get_ready now nx (nx q) (ops @ ready) (qs(q := s))))"

partial_function (option) qset_get_all :: "nexts \<Rightarrow> nat option \<Rightarrow> 'o list \<Rightarrow> (nat \<Rightarrow> (int, 'o) timer_queue)
    \<Rightarrow> ('o list \<times> (nat \<Rightarrow> (int, 'o) timer_queue)) option" where
  "qset_get_all nx p ops qs =
     (case p of
        None \<Rightarrow> Some (ops, qs)
      | Some q \<Rightarrow> (case get_all_timers (qs q) of
          None \<Rightarrow> None
        | Some (all, s) \<Rightarrow> qset_get_all nx (nx q) (ops @ all) (qs(q := s))))"

subsection \<open>The reactor\<close>

text \<open>\<open>tr_fd\<close>: when the timerfd expires or has expired.  \<open>tr_armed\<close> records when it was armed, and
  \<open>tr_given\<close> the operations that were handed to the \<open>io_service\<close>.\<close>

record 'o timer_reactor =
  tr_next :: nexts
  tr_first :: "nat option"
  tr_queues :: "nat \<Rightarrow> (int, 'o) timer_queue"
  tr_fd :: "int option"
  tr_now :: int
  tr_armed :: int
  tr_shutdown :: bool
  tr_given :: "'o list"
  tr_abandoned :: "'o list"

definition new_timer_reactor :: "int \<Rightarrow> 'o timer_reactor" where
  "new_timer_reactor now = \<lparr>tr_next = (\<lambda>_. None), tr_first = None, tr_queues = (\<lambda>_. new_timer_queue), tr_fd = None,
     tr_now = now, tr_armed = now, tr_shutdown = False, tr_given = [], tr_abandoned = []\<rparr>"

definition ticks_per_usec :: int where "ticks_per_usec = 1000"

text \<open>Whether the value is absolute, seconds and nanoseconds.\<close>

definition get_timeout :: "int \<Rightarrow> bool \<times> int \<times> int" where
  "get_timeout usec = (usec = 0, usec div 1000000, if usec \<noteq> 0 then (usec mod 1000000) * 1000 else 1)"

definition timerfd_settime :: "bool \<times> int \<times> int \<Rightarrow> 'o timer_reactor \<Rightarrow> 'o timer_reactor" where
  "timerfd_settime = (\<lambda>(absolute, sec, nsec) s.
     s\<lparr>tr_fd := Some ((if absolute then 0 else tr_now s) + sec * 1000000000 + nsec), tr_armed := tr_now s\<rparr>)"

definition update_timeout :: "'o timer_reactor \<Rightarrow> 'o timer_reactor option" where
  "update_timeout s =
     map_option (\<lambda>usec. timerfd_settime (get_timeout usec) s)
       (qset_wait_duration ticks_per_usec (tr_now s) (tr_next s) (tr_queues s) (tr_first s) (5 * 60 * 1000 * 1000))"

definition add_timer_queue :: "nat \<Rightarrow> 'o timer_reactor \<Rightarrow> 'o timer_reactor" where
  "add_timer_queue q s =
     (case qset_insert q (tr_next s, tr_first s) of (nx, first) \<Rightarrow> s\<lparr>tr_next := nx, tr_first := first\<rparr>)"

definition remove_timer_queue :: "nat \<Rightarrow> 'o timer_reactor \<Rightarrow> 'o timer_reactor option" where
  "remove_timer_queue q s =
     map_option (\<lambda>(nx, first). s\<lparr>tr_next := nx, tr_first := first\<rparr>) (qset_erase q (tr_next s, tr_first s))"

definition set_queue :: "nat \<Rightarrow> (int, 'o) timer_queue \<Rightarrow> 'o timer_reactor \<Rightarrow> 'o timer_reactor" where
  "set_queue q tq s = s\<lparr>tr_queues := (tr_queues s)(q := tq)\<rparr>"

definition tr_schedule_timer :: "nat \<Rightarrow> int \<Rightarrow> nat \<Rightarrow> 'o \<Rightarrow> 'o timer_reactor \<Rightarrow> 'o timer_reactor option" where
  "tr_schedule_timer q time t op s =
     (if tr_shutdown s then Some (s\<lparr>tr_given := tr_given s @ [op]\<rparr>)
      else case enqueue_timer time t op (tr_queues s q) of (earliest, tq) \<Rightarrow>
             if earliest then update_timeout (set_queue q tq s) else Some (set_queue q tq s))"

definition tr_cancel_timer :: "nat \<Rightarrow> nat \<Rightarrow> nat \<Rightarrow> 'o timer_reactor \<Rightarrow> 'o timer_reactor" where
  "tr_cancel_timer q t max_cancelled s =
     (case cancel_timer max_cancelled t (tr_queues s q) of (n, ops, tq) \<Rightarrow>
        (set_queue q tq s)\<lparr>tr_given := tr_given s @ map fst ops\<rparr>)"

text \<open>The end of \<open>run\<close>, when the timerfd was reported.\<close>

definition check_timers :: "'o timer_reactor \<Rightarrow> 'o timer_reactor option" where
  "check_timers s =
     (case qset_get_ready (tr_now s) (tr_next s) (tr_first s) [] (tr_queues s) of
        None \<Rightarrow> None
      | Some (ops, qs) \<Rightarrow> update_timeout (s\<lparr>tr_queues := qs, tr_given := tr_given s @ ops\<rparr>))"

definition tr_shutdown_service :: "'o timer_reactor \<Rightarrow> 'o timer_reactor option" where
  "tr_shutdown_service s =
     (case qset_get_all (tr_next s) (tr_first s) [] (tr_queues s) of
        None \<Rightarrow> None
      | Some (ops, qs) \<Rightarrow> Some (s\<lparr>tr_shutdown := True, tr_queues := qs, tr_abandoned := tr_abandoned s @ ops\<rparr>))"

text \<open>The timerfd is ready to read from its expiry until it is armed again.\<close>

definition timerfd_ready :: "'o timer_reactor \<Rightarrow> bool" where
  "timerfd_ready s = (case tr_fd s of None \<Rightarrow> False | Some d \<Rightarrow> d \<le> tr_now s)"

subsection \<open>Runs\<close>

datatype 'o queue_event = QAdd nat | QRemove nat | QSchedule nat int nat 'o | QCancel nat nat nat | QCheck | QShutdown | QTime nat

fun queue_step :: "'o queue_event \<Rightarrow> 'o timer_reactor \<Rightarrow> 'o timer_reactor option" where
  "queue_step (QAdd q) s = Some (add_timer_queue q (set_queue q new_timer_queue s))"
| "queue_step (QRemove q) s = remove_timer_queue q s"
| "queue_step (QSchedule q time t op) s = tr_schedule_timer q time t op s"
| "queue_step (QCancel q t n) s = Some (tr_cancel_timer q t n s)"
| "queue_step QCheck s = check_timers s"
| "queue_step QShutdown s = tr_shutdown_service s"
| "queue_step (QTime d) s = Some (s\<lparr>tr_now := tr_now s + int d\<rparr>)"

inductive in_set :: "nexts \<Rightarrow> nat option \<Rightarrow> nat \<Rightarrow> bool" for nx where
  "in_set nx (Some q) q"
| "in_set nx (nx p) q \<Longrightarrow> in_set nx (Some p) q"

text \<open>A service adds its queue when it is made, and uses it until it removes it.\<close>

fun queue_enabled :: "'o timer_reactor \<Rightarrow> 'o queue_event \<Rightarrow> bool" where
  "queue_enabled s (QAdd q) = (\<not> in_set (tr_next s) (tr_first s) q)"
| "queue_enabled s (QSchedule q time t op) = in_set (tr_next s) (tr_first s) q"
| "queue_enabled s (QCancel q t n) = in_set (tr_next s) (tr_first s) q"
| "queue_enabled s _ = True"

inductive tr_reach :: "'o timer_reactor \<Rightarrow> bool" where
  tr_new: "0 \<le> now \<Longrightarrow> tr_reach (new_timer_reactor now)"
| tr_step: "tr_reach s \<Longrightarrow> queue_enabled s ev \<Longrightarrow> queue_step ev s = Some s' \<Longrightarrow> tr_reach s'"

subsection \<open>The loops over the set\<close>

lemma in_set_path: "path nx p qs \<Longrightarrow> in_set nx p q \<longleftrightarrow> q \<in> set qs"
proof (induction qs arbitrary: p)
  case Nil
  then show ?case by (auto elim: in_set.cases)
next
  case (Cons x qs)
  then have "in_set nx p q \<longleftrightarrow> q = x \<or> in_set nx (nx x) q" by (auto elim: in_set.cases intro: in_set.intros)
  then show ?case using Cons by simp
qed

lemma erase_after_path:
  "path nx (Some p) (p # xs) \<Longrightarrow> distinct (p # xs) \<Longrightarrow> q \<noteq> p \<Longrightarrow>
    \<exists>nx'. qset_erase_after q p nx = Some nx' \<and> path nx' (Some p) (p # remove1 q xs) \<and> (\<forall>z. z \<notin> set (p # xs) \<longrightarrow> nx' z = nx z)"
proof (induction xs arbitrary: p)
  case Nil
  then show ?case by (subst qset_erase_after.simps) simp
next
  case (Cons x xs)
  show ?case
  proof (cases "x = q")
    case True
    let ?nx = "nx(p := nx q, q := None)"
    have "path ?nx (nx q) xs" using Cons.prems True by simp
    moreover have "?nx p = nx q" using Cons.prems by simp
    ultimately have "path ?nx (Some p) (p # xs)" by simp
    moreover have "qset_erase_after q p nx = Some ?nx" using Cons.prems True by (subst qset_erase_after.simps) simp
    ultimately show ?thesis using True Cons.prems by auto
  next
    case False
    obtain nx' where nx': "qset_erase_after q x nx = Some nx'" "path nx' (Some x) (x # remove1 q xs)"
      "\<forall>z. z \<notin> set (x # xs) \<longrightarrow> nx' z = nx z"
      using Cons.IH [of x] Cons.prems False by auto
    have "qset_erase_after q p nx = Some nx'" using Cons.prems False nx'(1) by (subst qset_erase_after.simps) simp
    moreover have "nx' p = nx p" using nx'(3) Cons.prems by auto
    ultimately show ?thesis using nx'(2,3) Cons.prems False by auto
  qed
qed

lemma erase_path:
  assumes "path nx first qs" "distinct qs"
  shows "\<exists>nx' first'. qset_erase q (nx, first) = Some (nx', first') \<and> path nx' first' (remove1 q qs)"
proof (cases qs)
  case Nil
  then show ?thesis using assms by (simp add: qset_erase_def)
next
  case (Cons x xs)
  show ?thesis
  proof (cases "q = x")
    case True
    then show ?thesis using assms Cons by (auto simp: qset_erase_def)
  next
    case False
    then show ?thesis using assms Cons erase_after_path [of nx x xs q] by (auto simp: qset_erase_def)
  qed
qed

subsection \<open>How long the set waits\<close>

definition tq_due :: "int \<Rightarrow> (int, 'o) timer_queue \<Rightarrow> bool" where
  "tq_due now s \<longleftrightarrow> (\<exists>(time, t) \<in> set (tq_heap s). time \<le> now)"

lemma wait_any:
  assumes ok: "tq_ok s" and u: "0 < per_unit" and m: "0 \<le> m"
  shows "0 \<le> wait_duration per_unit now m s \<and> wait_duration per_unit now m s \<le> max m 1"
    "tq_due now s \<Longrightarrow> wait_duration per_unit now m s = 0"
    "wait_duration per_unit now m s = 0 \<Longrightarrow> m = 0 \<or> tq_due now s"
    "1 < wait_duration per_unit now m s \<Longrightarrow> wait_duration per_unit now m s \<le> m
      \<and> (\<forall>(time, t) \<in> set (tq_heap s). now + per_unit * wait_duration per_unit now m s \<le> time)"
proof -
  note spec = wait_duration_spec [OF ok u]
  have z: "wait_duration per_unit now 0 s = 0 \<or> wait_duration per_unit now 0 s = 1"
    using pos_imp_zdiv_nonneg_iff [OF u, of "fst (tq_heap s ! 0) - now"] by (auto simp: wait_duration_def to_units_def Let_def)
  have d: "wait_duration per_unit now 0 s = 0" if "tq_due now s"
  proof -
    have "wait_duration per_unit now 1 s = 0" using spec(1) [of 1 now] that by (simp add: tq_due_def)
    then show ?thesis by (auto simp: wait_duration_def to_units_def Let_def split: if_splits)
  qed
  show "0 \<le> wait_duration per_unit now m s \<and> wait_duration per_unit now m s \<le> max m 1"
    using z spec(2) [of m now] m by (cases "m = 0") auto
  show "tq_due now s \<Longrightarrow> wait_duration per_unit now m s = 0"
    using d spec(1) [of m now] m by (cases "m = 0") (auto simp: tq_due_def)
  show "wait_duration per_unit now m s = 0 \<Longrightarrow> m = 0 \<or> tq_due now s"
    using spec(1) [of m now] m by (cases "m = 0") (simp_all add: tq_due_def)
  show "wait_duration per_unit now m s \<le> m \<and> (\<forall>(time, t) \<in> set (tq_heap s). now + per_unit * wait_duration per_unit now m s \<le> time)"
    if "1 < wait_duration per_unit now m s"
    using that z spec(2,3) [of m now] m by (cases "m = 0") auto
qed

abbreviation wait_all :: "int \<Rightarrow> int \<Rightarrow> (nat \<Rightarrow> (int, 'o) timer_queue) \<Rightarrow> int \<Rightarrow> nat list \<Rightarrow> int" where
  "wait_all per_unit now qs \<equiv> foldl (\<lambda>m q. wait_duration per_unit now m (qs q))"

lemma wait_path: "path nx p xs \<Longrightarrow> qset_wait_duration per_unit now nx qs p m = Some (wait_all per_unit now qs m xs)"
proof (induction xs arbitrary: p m)
  case Nil
  then show ?case by (subst qset_wait_duration.simps) simp
next
  case (Cons x xs)
  then show ?case by (subst qset_wait_duration.simps) simp
qed

lemma wait_all_spec:
  assumes u: "0 < per_unit" and ok: "\<And>q. tq_ok (qs q)"
  shows "0 \<le> m \<Longrightarrow> 0 \<le> wait_all per_unit now qs m xs \<and> wait_all per_unit now qs m xs \<le> max m 1
    \<and> ((\<exists>q \<in> set xs. tq_due now (qs q)) \<longrightarrow> wait_all per_unit now qs m xs \<le> 1)
    \<and> (wait_all per_unit now qs m xs = 0 \<longrightarrow> m = 0 \<or> (\<exists>q \<in> set xs. tq_due now (qs q)))
    \<and> (1 < wait_all per_unit now qs m xs \<longrightarrow> wait_all per_unit now qs m xs \<le> m
         \<and> (\<forall>q \<in> set xs. \<forall>(time, t) \<in> set (tq_heap (qs q)). now + per_unit * wait_all per_unit now qs m xs \<le> time))"
proof (induction xs arbitrary: m)
  case (Cons x xs)
  define w where "w = wait_duration per_unit now m (qs x)"
  define v where "v = wait_all per_unit now qs w xs"
  have e: "wait_all per_unit now qs m (x # xs) = v" by (simp add: v_def w_def)
  note W = wait_any [OF ok u Cons.prems, of now x, folded w_def]
  have w: "0 \<le> w" using W(1) by simp
  note V = Cons.IH [OF w, folded v_def]
  have "now + per_unit * v \<le> time" if "1 < v" "(time, t) \<in> set (tq_heap (qs x))" for time t
  proof -
    have "v \<le> w" "1 < w" using V that(1) by auto
    then have "now + per_unit * w \<le> time" using W(4) that(2) by auto
    moreover have "per_unit * v \<le> per_unit * w" using \<open>v \<le> w\<close> u by simp
    ultimately show ?thesis by linarith
  qed
  moreover have "v \<le> 1" if "tq_due now (qs x)" using W(2) [OF that] V by auto
  moreover have "m = 0 \<or> (\<exists>q \<in> set (x # xs). tq_due now (qs q))" if "v = 0" using V W(3) that by auto
  moreover have "v \<le> max m 1" using V W(1) by linarith
  moreover have "v \<le> m" if "1 < v" using V W(1) that by linarith
  ultimately show ?case unfolding e using V by auto
qed simp

text \<open>A limit of 0 is not kept: a queue asked after one with a timer that is due answers 1 for a timer
  of its own within the unit, so the reactor sleeps one unit.\<close>

lemma sleeps_although_due:
  "qset_wait_duration ticks_per_usec 10 (\<lambda>q. if q = 0 then Some 1 else None)
     (\<lambda>q. snd (enqueue_timer (if q = 0 then 5 else 500) 0 (7 :: nat) new_timer_queue)) (Some 0) 300000000 = Some 1"
  by (simp add: qset_wait_duration.simps wait_duration_def to_units_def ticks_per_usec_def enqueue_timer_def inactive_def
      link_timer_def push_heap_def up_heap.simps upd_timer_def new_timer_queue_def)

subsection \<open>What is due is handed over\<close>

lemma get_ready_spec:
  assumes "tq_ok s"
  shows "\<exists>ops s'. get_ready_timers now [] s = Some (ops, s') \<and> tq_ok s' \<and> set (tq_heap s') = {x \<in> set (tq_heap s). now < fst x}
    \<and> (\<forall>(time, t) \<in> set (tq_heap s). time \<le> now \<longrightarrow> set (pt_ops (tq_data s t)) \<subseteq> set ops)"
proof -
  obtain due s' where d: "tq.drain (length (tq_heap s)) now s = (due, s')"
    by (cases "tq.drain (length (tq_heap s)) now s")
  have D: "mset due = filter_mset (\<lambda>x. fst x \<le> now) (mset (tq_heap s))" "tq_ok s'"
    "mset (tq_heap s') = filter_mset (\<lambda>x. \<not> fst x \<le> now) (mset (tq_heap s))"
    using tq.drain_spec [OF assms _ d] by simp_all
  have "set due = {x \<in> set (tq_heap s). fst x \<le> now}" using arg_cong [OF D(1), of set_mset] by simp
  moreover have "set (tq_heap s') = {x \<in> set (tq_heap s). now < fst x}" using arg_cong [OF D(3), of set_mset] by (auto simp: not_le)
  ultimately show ?thesis using get_ready_drain [OF assms order_refl d, of "[]"] D(2) by fastforce
qed

lemma get_ready_path:
  "path nx p xs \<Longrightarrow> distinct xs \<Longrightarrow> (\<And>q. tq_ok (qs q)) \<Longrightarrow>
    \<exists>ready qs'. qset_get_ready now nx p ops qs = Some (ops @ ready, qs') \<and> (\<forall>q. tq_ok (qs' q)) \<and> (\<forall>q. q \<notin> set xs \<longrightarrow> qs' q = qs q)
      \<and> (\<forall>q \<in> set xs. set (tq_heap (qs' q)) = {x \<in> set (tq_heap (qs q)). now < fst x}
           \<and> (\<forall>(time, t) \<in> set (tq_heap (qs q)). time \<le> now \<longrightarrow> set (pt_ops (tq_data (qs q) t)) \<subseteq> set ready))"
proof (induction xs arbitrary: p ops qs)
  case Nil
  then show ?case by (subst qset_get_ready.simps) auto
next
  case (Cons x xs)
  obtain r s' where r: "get_ready_timers now [] (qs x) = Some (r, s')" "tq_ok s'"
    "set (tq_heap s') = {y \<in> set (tq_heap (qs x)). now < fst y}"
    "\<forall>(time, t) \<in> set (tq_heap (qs x)). time \<le> now \<longrightarrow> set (pt_ops (tq_data (qs x) t)) \<subseteq> set r"
    using get_ready_spec [OF Cons.prems(3), of now x] by blast
  define T where "T = qs(x := s')"
  have ok: "tq_ok (T q)" for q using Cons.prems(3) r(2) by (simp add: T_def)
  have T: "T q = qs q" if "q \<noteq> x" for q using that by (simp add: T_def)
  have "path nx (nx x) xs" "distinct xs" "x \<notin> set xs" using Cons.prems by simp_all
  with Cons.IH [of "nx x" T "ops @ r"] ok obtain ready qs' where R: "qset_get_ready now nx (nx x) (ops @ r) T = Some ((ops @ r) @ ready, qs')"
    "\<forall>q. tq_ok (qs' q)" "\<forall>q. q \<notin> set xs \<longrightarrow> qs' q = T q"
    "\<forall>q \<in> set xs. set (tq_heap (qs' q)) = {y \<in> set (tq_heap (T q)). now < fst y}
           \<and> (\<forall>(time, t) \<in> set (tq_heap (T q)). time \<le> now \<longrightarrow> set (pt_ops (tq_data (T q) t)) \<subseteq> set ready)"
    by blast
  have e: "qset_get_ready now nx p ops qs = Some (ops @ (r @ ready), qs')"
    using Cons.prems(1) r(1) R(1) by (subst qset_get_ready.simps) (simp add: T_def)
  have "set (tq_heap (qs' q)) = {y \<in> set (tq_heap (qs q)). now < fst y}
      \<and> (\<forall>(time, t) \<in> set (tq_heap (qs q)). time \<le> now \<longrightarrow> set (pt_ops (tq_data (qs q) t)) \<subseteq> set (r @ ready))" if "q \<in> set (x # xs)" for q
  proof (cases "q = x")
    case True
    then have "qs' q = s'" using R(3) Cons.prems(2) by (simp add: T_def)
    then show ?thesis using True r(3,4) by fastforce
  next
    case False
    then have "q \<in> set xs" using that by simp
    from bspec [OF R(4) this] show ?thesis unfolding T [OF False] by auto
  qed
  moreover have "\<forall>q. q \<notin> set (x # xs) \<longrightarrow> qs' q = qs q" using R(3) T by simp
  ultimately show ?case using e R(2) by blast
qed

subsection \<open>The timerfd\<close>

lemma get_timeout_value:
  "get_timeout usec = (absolute, sec, nsec) \<Longrightarrow> absolute = (usec = 0) \<and> sec * 1000000000 + nsec = (if usec = 0 then 1 else usec * 1000)"
proof -
  have "usec div 1000000 * 1000000000 + usec mod 1000000 * 1000 = usec * 1000"
    using div_mult_mod_eq [of usec 1000000] by linarith
  then show "get_timeout usec = (absolute, sec, nsec) \<Longrightarrow> ?thesis" by (auto simp: get_timeout_def)
qed

definition fd_covers :: "nat list \<Rightarrow> 'o timer_reactor \<Rightarrow> bool" where
  "fd_covers xs s \<longleftrightarrow> (\<forall>q \<in> set xs. \<forall>(time, t) \<in> set (tq_heap (tr_queues s q)).
     \<exists>d. tr_fd s = Some d \<and> d \<le> max time (tr_armed s) + ticks_per_usec)"

definition tr_inv :: "nat list \<Rightarrow> 'o timer_reactor \<Rightarrow> bool" where
  "tr_inv xs s \<longleftrightarrow> path (tr_next s) (tr_first s) xs \<and> distinct xs \<and> (\<forall>q. tq_ok (tr_queues s q))
     \<and> 0 \<le> tr_now s \<and> tr_armed s \<le> tr_now s"

lemma tr_invD:
  assumes "tr_inv xs s"
  shows "path (tr_next s) (tr_first s) xs" "distinct xs" "tq_ok (tr_queues s q)" "0 \<le> tr_now s" "tr_armed s \<le> tr_now s"
  using assms by (simp_all add: tr_inv_def)

lemma armed:
  assumes i: "tr_inv xs s"
  shows "\<exists>s'. update_timeout s = Some s' \<and> tr_inv xs s' \<and> fd_covers xs s' \<and> tr_queues s' = tr_queues s
    \<and> tr_given s' = tr_given s \<and> tr_next s' = tr_next s \<and> tr_first s' = tr_first s \<and> tr_now s' = tr_now s"
proof -
  define u where "u = wait_all ticks_per_usec (tr_now s) (tr_queues s) (5 * 60 * 1000 * 1000) xs"
  have u: "0 \<le> u" "1 < u \<Longrightarrow> q \<in> set xs \<Longrightarrow> (time, t) \<in> set (tq_heap (tr_queues s q)) \<Longrightarrow> tr_now s + ticks_per_usec * u \<le> time" for q time t
    using wait_all_spec [of ticks_per_usec "tr_queues s" "5 * 60 * 1000 * 1000" "tr_now s" xs, folded u_def] tr_invD(3) [OF i]
    by (auto simp: ticks_per_usec_def)
  obtain ab sec nsec where g: "get_timeout u = (ab, sec, nsec)" by (cases "get_timeout u")
  let ?d = "(if ab then 0 else tr_now s) + sec * 1000000000 + nsec"
  let ?s = "s\<lparr>tr_fd := Some ?d, tr_armed := tr_now s\<rparr>"
  have d: "?d = (if u = 0 then 1 else tr_now s + ticks_per_usec * u)" using get_timeout_value [OF g] by (simp add: ticks_per_usec_def)
  have "qset_wait_duration ticks_per_usec (tr_now s) (tr_next s) (tr_queues s) (tr_first s) (5 * 60 * 1000 * 1000) = Some u"
    unfolding u_def by (rule wait_path [OF tr_invD(1) [OF i]])
  then have "update_timeout s = Some ?s" by (simp add: update_timeout_def timerfd_settime_def g)
  moreover have "?d \<le> max time (tr_now s) + ticks_per_usec"
    if "q \<in> set xs" "(time, t) \<in> set (tq_heap (tr_queues s q))" for q time t
  proof (cases "1 < u")
    case True
    have "?d \<le> time" using u(2) [OF True that] True unfolding d by simp
    then show ?thesis by (simp add: ticks_per_usec_def)
  next
    case False
    then have "u = 0 \<or> u = 1" using u(1) by linarith
    then show ?thesis using tr_invD(4) [OF i] unfolding d by (auto simp: ticks_per_usec_def)
  qed
  then have "fd_covers xs ?s" by (auto simp: fd_covers_def)
  moreover have "tr_inv xs ?s" using i by (simp add: tr_inv_def)
  ultimately show ?thesis by force
qed

lemma fd_covers_fewer:
  assumes "fd_covers xs s" "set xs' \<subseteq> set xs" "\<And>q. q \<in> set xs' \<Longrightarrow> set (tq_heap (tr_queues s' q)) \<subseteq> set (tq_heap (tr_queues s q))"
    "tr_fd s' = tr_fd s" "tr_armed s' = tr_armed s"
  shows "fd_covers xs' s'"
  unfolding fd_covers_def
proof (intro ballI)
  fix q x
  assume "q \<in> set xs'" "x \<in> set (tq_heap (tr_queues s' q))"
  then have "q \<in> set xs" "x \<in> set (tq_heap (tr_queues s q))" using assms(2,3) by blast+
  then show "case x of (time, t) \<Rightarrow> \<exists>d. tr_fd s' = Some d \<and> d \<le> max time (tr_armed s') + ticks_per_usec"
    using assms(1,4,5) by (auto simp: fd_covers_def)
qed

lemma schedule_covers:
  assumes i: "tr_inv xs s" and c: "fd_covers xs s" and e: "tr_schedule_timer q time t op s = Some s'" and q: "q \<in> set xs" and d: "\<not> tr_shutdown s"
  shows "tr_inv xs s' \<and> fd_covers xs s'"
proof -
  obtain earliest tq where n: "enqueue_timer time t op (tr_queues s q) = (earliest, tq)" by (cases "enqueue_timer time t op (tr_queues s q)")
  note E = enqueue_timer_ok [OF tr_invD(3) [OF i] n]
  have inv: "tr_inv xs (set_queue q tq s)" using i E(1) by (simp add: tr_inv_def set_queue_def)
  show ?thesis
  proof (cases earliest)
    case True
    then show ?thesis using armed [OF inv] e n d by (auto simp: tr_schedule_timer_def)
  next
    case False
    then have s': "s' = set_queue q tq s" using e n d by (simp add: tr_schedule_timer_def)
    have old: "\<exists>d. tr_fd s = Some d \<and> d \<le> max tm (tr_armed s) + ticks_per_usec" if "(tm, u) \<in> set (tq_heap (tr_queues s q))" for tm u
      using c q that by (auto simp: fd_covers_def)
    have new: "\<exists>d. tr_fd s = Some d \<and> d \<le> max tm (tr_armed s) + ticks_per_usec" if m: "(tm, u) \<in> set (tq_heap tq)" for tm u
    proof (cases "t \<in> active (tr_queues s q)")
      case True
      then have "set (tq_heap tq) = set (tq_heap (tr_queues s q))" using E(3) by (metis set_mset_mset)
      then show ?thesis using m old by simp
    next
      case out: False
      then have h: "set (tq_heap tq) = insert (time, t) (set (tq_heap (tr_queues s q)))" using arg_cong [OF E(3), of set_mset] by simp
      have "pt_ops (tq_data (tr_queues s q) t) = []" using out tr_invD(3) [OF i, of q] by (auto simp: tq_ok_def)
      then have "snd (tq_heap tq ! 0) \<noteq> t" using E(5) False E(4) [of t] by simp
      moreover have f: "tq_heap tq ! 0 \<in> set (tq_heap tq)" using h by (metis insert_not_empty length_greater_0_conv nth_mem set_empty)
      ultimately have "tq_heap tq ! 0 \<in> set (tq_heap (tr_queues s q))" using h by auto
      then obtain d where d: "tr_fd s = Some d" "d \<le> max (fst (tq_heap tq ! 0)) (tr_armed s) + ticks_per_usec"
        using old [of "fst (tq_heap tq ! 0)" "snd (tq_heap tq ! 0)"] by auto
      have "fst (tq_heap tq ! 0) \<le> tm"
        using m ordered_front [OF tq_ok_ordered [OF E(1)]] by (auto simp: in_set_conv_nth key_def) (metis fst_conv)
      then show ?thesis using d by (intro exI [of _ d]) auto
    qed
    have "fd_covers xs s'" using c new by (auto simp: s' fd_covers_def set_queue_def)
    then show ?thesis using inv s' by simp
  qed
qed

lemma get_all_path:
  "path nx p xs \<Longrightarrow> (\<And>q. tq_ok (qs q)) \<Longrightarrow> \<exists>all qs'. qset_get_all nx p ops qs = Some (all, qs') \<and> (\<forall>q. tq_ok (qs' q))
    \<and> (\<forall>q. set (tq_heap (qs' q)) \<subseteq> set (tq_heap (qs q)))"
proof (induction xs arbitrary: p ops qs)
  case Nil
  then show ?case by (subst qset_get_all.simps) auto
next
  case (Cons x xs)
  obtain r s' where r: "get_all_timers (qs x) = Some (r, s')" "tq_ok s'" "tq_heap s' = []"
    using get_all_timers_ok [OF Cons.prems(2), of x] by blast
  define T where "T = qs(x := s')"
  have T: "tq_ok (T q)" "set (tq_heap (T q)) \<subseteq> set (tq_heap (qs q))" for q using r Cons.prems(2) by (auto simp: T_def)
  obtain all qs' where "qset_get_all nx (nx x) (ops @ r) T = Some (all, qs')" "\<forall>q. tq_ok (qs' q)" "\<forall>q. set (tq_heap (qs' q)) \<subseteq> set (tq_heap (T q))"
    using Cons.IH [of "nx x" T "ops @ r"] Cons.prems(1) T(1) by auto
  moreover from this(1) have "qset_get_all nx p ops qs = Some (all, qs')"
    using Cons.prems(1) r(1) by (subst qset_get_all.simps) (simp add: T_def)
  ultimately show ?case using T(2) by blast
qed

lemma checked:
  assumes i: "tr_inv xs s"
  shows "\<exists>s' ops. check_timers s = Some s' \<and> tr_inv xs s' \<and> fd_covers xs s' \<and> tr_given s' = tr_given s @ ops \<and> tr_now s' = tr_now s
    \<and> (\<forall>q \<in> set xs. set (tq_heap (tr_queues s' q)) = {x \<in> set (tq_heap (tr_queues s q)). tr_now s < fst x}
         \<and> (\<forall>(time, t) \<in> set (tq_heap (tr_queues s q)). time \<le> tr_now s \<longrightarrow> set (pt_ops (tq_data (tr_queues s q) t)) \<subseteq> set ops))"
proof -
  obtain ops qs where r: "qset_get_ready (tr_now s) (tr_next s) (tr_first s) [] (tr_queues s) = Some (ops, qs)" "\<forall>q. tq_ok (qs q)"
    "\<forall>q \<in> set xs. set (tq_heap (qs q)) = {x \<in> set (tq_heap (tr_queues s q)). tr_now s < fst x}
       \<and> (\<forall>(time, t) \<in> set (tq_heap (tr_queues s q)). time \<le> tr_now s \<longrightarrow> set (pt_ops (tq_data (tr_queues s q) t)) \<subseteq> set ops)"
    using get_ready_path [OF tr_invD(1,2) [OF i], where qs = "tr_queues s" and ops = "[]" and now = "tr_now s"] tr_invD(3) [OF i] by auto
  let ?u = "s\<lparr>tr_queues := qs, tr_given := tr_given s @ ops\<rparr>"
  have "tr_inv xs ?u" using i r(2) by (simp add: tr_inv_def)
  then obtain s' where s': "update_timeout ?u = Some s'" "tr_inv xs s'" "fd_covers xs s'" "tr_queues s' = qs"
    "tr_given s' = tr_given s @ ops" "tr_now s' = tr_now s" using armed [of xs ?u] by auto
  have "check_timers s = Some s'" using r(1) s'(1) by (simp add: check_timers_def)
  then show ?thesis using s' r(3) by blast
qed

lemma queue_step_ok:
  assumes i: "tr_inv xs s" and c: "fd_covers xs s" and e: "queue_enabled s ev"
  shows "\<exists>s' xs. queue_step ev s = Some s' \<and> tr_inv xs s' \<and> fd_covers xs s'"
proof (cases ev)
  case (QAdd q)
  then have q: "q \<notin> set xs" using e in_set_path [OF tr_invD(1) [OF i]] by simp
  let ?s = "add_timer_queue q (set_queue q new_timer_queue s)"
  have "tr_inv (q # xs) ?s"
    using i q tq_ok_new by (auto simp: tr_inv_def add_timer_queue_def qset_insert_def set_queue_def)
  moreover have "fd_covers (q # xs) ?s"
    using c q by (auto simp: fd_covers_def add_timer_queue_def qset_insert_def set_queue_def new_timer_queue_def)
  ultimately show ?thesis using QAdd by auto
next
  case (QRemove q)
  obtain nx first where r: "qset_erase q (tr_next s, tr_first s) = Some (nx, first)" "path nx first (remove1 q xs)"
    using erase_path [OF tr_invD(1,2) [OF i]] by blast
  let ?s = "s\<lparr>tr_next := nx, tr_first := first\<rparr>"
  have "tr_inv (remove1 q xs) ?s" using i r(2) by (simp add: tr_inv_def)
  moreover have "fd_covers (remove1 q xs) ?s" by (rule fd_covers_fewer [OF c set_remove1_subset]) simp_all
  ultimately show ?thesis using QRemove r(1) by (auto simp: remove_timer_queue_def)
next
  case (QSchedule q time t op)
  then have q: "q \<in> set xs" using e in_set_path [OF tr_invD(1) [OF i]] by simp
  show ?thesis
  proof (cases "tr_shutdown s")
    case True
    then show ?thesis using QSchedule i c by (auto simp: tr_schedule_timer_def tr_inv_def fd_covers_def)
  next
    case False
    obtain earliest tq where n: "enqueue_timer time t op (tr_queues s q) = (earliest, tq)" by (cases "enqueue_timer time t op (tr_queues s q)")
    have "tr_inv xs (set_queue q tq s)" using i enqueue_timer_ok(1) [OF tr_invD(3) [OF i] n] by (simp add: tr_inv_def set_queue_def)
    then have "tr_schedule_timer q time t op s \<noteq> None" using armed n False by (fastforce simp: tr_schedule_timer_def)
    then obtain s' where s': "tr_schedule_timer q time t op s = Some s'" by blast
    then have "tr_inv xs s' \<and> fd_covers xs s'" by (rule schedule_covers [OF i c _ q False])
    then show ?thesis using QSchedule s' by auto
  qed
next
  case (QCancel q t n)
  obtain k ops tq where n: "cancel_timer n t (tr_queues s q) = (k, ops, tq)" by (cases "cancel_timer n t (tr_queues s q)")
  let ?s = "(set_queue q tq s)\<lparr>tr_given := tr_given s @ map fst ops\<rparr>"
  have "tr_inv xs ?s" using i cancel_timer_ok(1) [OF tr_invD(3) [OF i] n] by (simp add: tr_inv_def set_queue_def)
  moreover have "fd_covers xs ?s"
    by (rule fd_covers_fewer [OF c subset_refl]) (use cancel_timer_rest(2) [OF tr_invD(3) [OF i] n] in \<open>auto simp: set_queue_def\<close>)
  ultimately show ?thesis using QCancel n by (auto simp: tr_cancel_timer_def)
next
  case QCheck
  then show ?thesis using checked [OF i] by auto
next
  case QShutdown
  obtain all qs where r: "qset_get_all (tr_next s) (tr_first s) [] (tr_queues s) = Some (all, qs)" "\<forall>q. tq_ok (qs q)"
    "\<forall>q. set (tq_heap (qs q)) \<subseteq> set (tq_heap (tr_queues s q))"
    using get_all_path [OF tr_invD(1) [OF i], where qs = "tr_queues s" and ops = "[]"] tr_invD(3) [OF i] by blast
  let ?s = "s\<lparr>tr_shutdown := True, tr_queues := qs, tr_abandoned := tr_abandoned s @ all\<rparr>"
  have "tr_inv xs ?s" using i r(2) by (simp add: tr_inv_def)
  moreover have "fd_covers xs ?s" by (rule fd_covers_fewer [OF c subset_refl]) (use r(3) in simp_all)
  ultimately show ?thesis using QShutdown r(1) by (auto simp: tr_shutdown_service_def)
next
  case (QTime d)
  have "tr_inv xs (s\<lparr>tr_now := tr_now s + int d\<rparr>)" "fd_covers xs (s\<lparr>tr_now := tr_now s + int d\<rparr>)"
    using i c by (simp_all add: tr_inv_def fd_covers_def)
  then show ?thesis using QTime by auto
qed

lemma tr_reach_ok: "tr_reach s \<Longrightarrow> \<exists>xs. tr_inv xs s \<and> fd_covers xs s"
proof (induction rule: tr_reach.induct)
  case (tr_new now)
  then have "tr_inv [] (new_timer_reactor now)" "fd_covers [] (new_timer_reactor now)"
    by (simp_all add: tr_inv_def fd_covers_def new_timer_reactor_def tq_ok_new)
  then show ?case by blast
next
  case (tr_step s ev s')
  then obtain xs where "tr_inv xs s" "fd_covers xs s" by blast
  from queue_step_ok [OF this tr_step.hyps(2)] tr_step.hyps(3) show ?case by auto
qed

subsection \<open>The theorem\<close>

text \<open>C18: No timer is forgotten.  Whatever queues are added and removed, whatever waits are scheduled and
  cancelled in them and however time passes: while a timer waits, the timerfd is armed, at most a
  microsecond after its expiry or, if it was armed later than that, after the arming; so from then on the
  timerfd is ready and \<open>epoll_wait\<close> reports it.  The check of the timers that follows returns, hands over
  every operation of every timer that is due, and leaves none that is due.\<close>

theorem no_timer_forgotten:
  assumes r: "tr_reach s" and q: "in_set (tr_next s) (tr_first s) q" and t: "(time, t) \<in> set (tq_heap (tr_queues s q))"
  shows "(\<exists>d. tr_fd s = Some d \<and> d \<le> max time (tr_armed s) + ticks_per_usec)
    \<and> (max time (tr_armed s) + ticks_per_usec \<le> tr_now s \<longrightarrow> timerfd_ready s)
    \<and> (\<exists>s' ops. check_timers s = Some s' \<and> tr_given s' = tr_given s @ ops
         \<and> (time \<le> tr_now s \<longrightarrow> set (pt_ops (tq_data (tr_queues s q) t)) \<subseteq> set ops)
         \<and> (\<forall>(time, t) \<in> set (tq_heap (tr_queues s' q)). tr_now s < time))"
proof -
  obtain xs where i: "tr_inv xs s" and c: "fd_covers xs s" using tr_reach_ok [OF r] by blast
  have q': "q \<in> set xs" using q in_set_path [OF tr_invD(1) [OF i]] by simp
  have d: "\<exists>d. tr_fd s = Some d \<and> d \<le> max time (tr_armed s) + ticks_per_usec" using c q' t by (auto simp: fd_covers_def)
  have ready: "timerfd_ready s" if "max time (tr_armed s) + ticks_per_usec \<le> tr_now s" using d that by (auto simp: timerfd_ready_def)
  obtain s' ops where s': "check_timers s = Some s'" "tr_given s' = tr_given s @ ops"
    and Q: "\<forall>q \<in> set xs. set (tq_heap (tr_queues s' q)) = {x \<in> set (tq_heap (tr_queues s q)). tr_now s < fst x}
         \<and> (\<forall>(time, t) \<in> set (tq_heap (tr_queues s q)). time \<le> tr_now s \<longrightarrow> set (pt_ops (tq_data (tr_queues s q) t)) \<subseteq> set ops)"
    using checked [OF i] by blast
  from bspec [OF Q q'] s' t have "\<exists>s' ops. check_timers s = Some s' \<and> tr_given s' = tr_given s @ ops
       \<and> (time \<le> tr_now s \<longrightarrow> set (pt_ops (tq_data (tr_queues s q) t)) \<subseteq> set ops)
       \<and> (\<forall>(time, t) \<in> set (tq_heap (tr_queues s' q)). tr_now s < time)"
    by (intro exI [of _ s'] exI [of _ ops]) fastforce
  then show ?thesis using d ready by blast
qed

text \<open>Two waits in one queue; the earlier one comes second.\<close>

inductive_simps in_set_simps: "in_set nx None q" "in_set nx (Some p) q"

fun queue_run :: "'o queue_event list \<Rightarrow> 'o timer_reactor \<Rightarrow> 'o timer_reactor option" where
  "queue_run [] s = Some s"
| "queue_run (ev # evs) s = (if queue_enabled s ev then case queue_step ev s of None \<Rightarrow> None | Some s \<Rightarrow> queue_run evs s else None)"

lemma queue_run_reach: "queue_run evs s = Some s' \<Longrightarrow> tr_reach s \<Longrightarrow> tr_reach s'"
  by (induction evs s rule: queue_run.induct) (auto split: if_splits option.splits intro: tr_reach.tr_step)

lemmas timer_reactor_simps = new_timer_reactor_def add_timer_queue_def qset_insert_def set_queue_def tr_schedule_timer_def
  update_timeout_def qset_wait_duration.simps wait_duration_def to_units_def ticks_per_usec_def timerfd_settime_def get_timeout_def
  enqueue_timer_def inactive_def link_timer_def push_heap_def up_heap.simps upd_timer_def new_timer_queue_def swap_heap_def

definition demo_timer_run :: "nat timer_reactor option" where
  "demo_timer_run = queue_run [QAdd 0, QSchedule 0 9000 1 10, QSchedule 0 5000 2 11, QTime 6000] (new_timer_reactor 0)"

lemma no_timer_forgotten_witness:
  "\<exists>s s' ops. demo_timer_run = Some s \<and> tr_fd s = Some 5000 \<and> tr_armed s = 0 \<and> timerfd_ready s
     \<and> check_timers s = Some s' \<and> tr_given s' = tr_given s @ ops \<and> 11 \<in> set ops"
proof -
  obtain s where s: "demo_timer_run = Some s" "tr_fd s = Some 5000" "tr_armed s = 0" "tr_now s = 6000"
    "in_set (tr_next s) (tr_first s) 0" "(5000, 2) \<in> set (tq_heap (tr_queues s 0))" "pt_ops (tq_data (tr_queues s 0) 2) = [11]"
    by (simp add: demo_timer_run_def timer_reactor_simps in_set_simps)
  have r: "tr_reach s" using queue_run_reach [OF s(1) [unfolded demo_timer_run_def]] tr_new by blast
  note P = no_timer_forgotten [OF r s(5,6)]
  have "timerfd_ready s" using P s by (simp add: ticks_per_usec_def)
  moreover obtain s' ops where "check_timers s = Some s'" "tr_given s' = tr_given s @ ops" "set (pt_ops (tq_data (tr_queues s 0) 2)) \<subseteq> set ops"
    using P s by auto
  ultimately show ?thesis using s by auto
qed

end
