(* ===== verification/Reactor.thy ===== *)
theory Reactor
  imports Prelude "HOL-Library.Multiset"
begin

text \<open>
  One descriptor of asio's epoll reactor (\<^verbatim>\<open>deps/asio/1.10.6/include/asio/detail/epoll_reactor.hpp\<close>
  and \<^verbatim>\<open>impl/epoll_reactor.ipp\<close>): the queues of operations, the registration with an
  edge-triggered epoll, and the work that is counted for the \<open>io_service\<close>.  The kernel is part of the
  state: how many operations of a direction would not block now, and which events the next
  \<open>epoll_wait\<close> reports.  The theorems: every operation finishes once and in order, the count of the
  work is exact, and no wake-up is lost although events are edge-triggered and an operation is tried
  before it is queued.
\<close>

subsection \<open>State\<close>

datatype op_type = ReadOp | WriteOp | ExceptOp

text \<open>What the operation carries to its handler: the outcome of the system call, an error set by
  the reactor, or (after a shutdown) what it was created with.\<close>

datatype op_outcome = Performed | BadDescriptor | CtlFailed | Aborted | Untouched | Abandoned

type_synonym 'o finished = "op_type \<times> 'o \<times> op_outcome"

text \<open>\<open>rx_data\<close>: \<open>per_descriptor_data\<close> is not null.  \<open>rx_out\<close>: \<open>EPOLLOUT\<close> is among
  \<open>registered_events_\<close>, where the others always are.  \<open>rx_avail\<close> and \<open>rx_edge\<close> are the kernel's.
  \<open>rx_events\<close>: the descriptor operations that are queued in the \<open>io_service\<close> or held by one of its
  threads, with the events they were given.  \<open>rx_log\<close>: the finished operations in order;
  \<open>rx_started\<close>: the started ones.\<close>

record 'o reactor =
  rx_data :: bool
  rx_queue :: "op_type \<Rightarrow> 'o list"
  rx_out :: bool
  rx_shutdown :: bool
  rx_avail :: "op_type \<Rightarrow> nat"
  rx_edge :: "op_type \<Rightarrow> bool"
  rx_events :: "(op_type \<Rightarrow> bool) list"
  rx_posted :: "'o finished list"
  rx_completed :: "'o finished list"
  rx_abandoned :: "'o finished list"
  rx_work :: int
  rx_log :: "'o finished list"
  rx_started :: "(op_type \<times> 'o) list"

definition new_reactor :: "'o reactor" where
  "new_reactor = \<lparr>rx_data = False, rx_queue = (\<lambda>_. []), rx_out = False, rx_shutdown = True, rx_avail = (\<lambda>_. 0),
     rx_edge = (\<lambda>_. False), rx_events = [], rx_posted = [], rx_completed = [], rx_abandoned = [], rx_work = 0, rx_log = [], rx_started = []\<rparr>"

subsection \<open>The kernel\<close>

definition registered :: "op_type \<Rightarrow> 'o reactor \<Rightarrow> bool" where
  "registered d s \<longleftrightarrow> (d = WriteOp \<longrightarrow> rx_out s)"

text \<open>\<open>EPOLL_CTL_ADD\<close> and \<open>EPOLL_CTL_MOD\<close> report what is ready at the time of the call.\<close>

definition rearm :: "'o reactor \<Rightarrow> 'o reactor" where
  "rearm s = s\<lparr>rx_edge := (\<lambda>d. rx_edge s d \<or> rx_avail s d > 0 \<and> registered d s)\<rparr>"

text \<open>Readiness changes; one that arises is reported, other changes may be.\<close>

definition kernel_change :: "op_type \<Rightarrow> nat \<Rightarrow> bool \<Rightarrow> 'o reactor \<Rightarrow> 'o reactor" where
  "kernel_change d n spurious s = s\<lparr>rx_avail := (rx_avail s)(d := n),
     rx_edge := (rx_edge s)(d := rx_edge s d \<or> registered d s \<and> (spurious \<or> rx_avail s d = 0 \<and> n > 0))\<rparr>"

text \<open>\<open>op->perform()\<close>: a non-blocking system call.\<close>

definition perform :: "op_type \<Rightarrow> 'o reactor \<Rightarrow> bool \<times> 'o reactor" where
  "perform d s = (rx_avail s d > 0, s\<lparr>rx_avail := (rx_avail s)(d := rx_avail s d - 1)\<rparr>)"

subsection \<open>Completions and work\<close>

definition finish :: "'o finished list \<Rightarrow> 'o reactor \<Rightarrow> 'o reactor" where
  "finish ops s = s\<lparr>rx_log := rx_log s @ ops\<rparr>"

definition reactor_post_immediate :: "'o finished \<Rightarrow> 'o reactor \<Rightarrow> 'o reactor" where
  "reactor_post_immediate op s = (finish [op] s)\<lparr>rx_posted := rx_posted s @ [op], rx_work := rx_work s + 1\<rparr>"

definition reactor_post_deferred :: "'o finished list \<Rightarrow> 'o reactor \<Rightarrow> 'o reactor" where
  "reactor_post_deferred ops s = s\<lparr>rx_posted := rx_posted s @ ops\<rparr>"

text \<open>The \<open>io_service\<close> runs a posted operation: its handler, then \<open>work_finished\<close>.\<close>

definition run_posted :: "'o reactor \<Rightarrow> 'o reactor" where
  "run_posted s = (case rx_posted s of
      [] \<Rightarrow> s
    | op # ops \<Rightarrow> s\<lparr>rx_posted := ops, rx_completed := rx_completed s @ [op], rx_work := rx_work s - 1\<rparr>)"

subsection \<open>The operations of the reactor\<close>

text \<open>The state may be one that was used before; its queues are empty then.\<close>

definition register_descriptor :: "'o reactor \<Rightarrow> 'o reactor" where
  "register_descriptor s = rearm (s\<lparr>rx_data := True, rx_shutdown := False, rx_out := False, rx_edge := (\<lambda>_. False)\<rparr>)"

definition enqueue_op :: "op_type \<Rightarrow> 'o \<Rightarrow> 'o reactor \<Rightarrow> 'o reactor" where
  "enqueue_op d op s = s\<lparr>rx_queue := (rx_queue s)(d := rx_queue s d @ [op]), rx_work := rx_work s + 1\<rparr>"

text \<open>\<open>start_op\<close> up to its last two lines: the outcome, if the operation is posted at once.  \<open>ctl\<close>:
  whether \<open>epoll_ctl\<close> succeeds.\<close>

definition start_now :: "op_type \<Rightarrow> bool \<Rightarrow> bool \<Rightarrow> 'o reactor \<Rightarrow> op_outcome option \<times> 'o reactor" where
  "start_now d allow_speculative ctl s =
     (if \<not> rx_data s then (Some BadDescriptor, s)
      else if rx_shutdown s then (Some Untouched, s)
      else if rx_queue s d = []
      then if allow_speculative \<and> (d \<noteq> ReadOp \<or> rx_queue s ExceptOp = [])
           then let (finished, s) = perform d s
                in if finished then (Some Performed, s)
                   else if d = WriteOp \<and> \<not> rx_out s
                   then if ctl then (None, rearm (s\<lparr>rx_out := True\<rparr>)) else (Some CtlFailed, s)
                   else (None, s)
           else let s = (if d = WriteOp then s\<lparr>rx_out := True\<rparr> else s)
                in (None, if ctl then rearm s else s)
      else (None, s))"

definition start_op :: "op_type \<Rightarrow> bool \<Rightarrow> bool \<Rightarrow> 'o \<Rightarrow> 'o reactor \<Rightarrow> 'o reactor" where
  "start_op d allow_speculative ctl op s =
     (case start_now d allow_speculative ctl (s\<lparr>rx_started := rx_started s @ [(d, op)]\<rparr>) of
        (Some r, s) \<Rightarrow> reactor_post_immediate (d, op, r) s
      | (None, s) \<Rightarrow> enqueue_op d op s)"

definition take_all :: "op_outcome \<Rightarrow> 'o reactor \<Rightarrow> 'o finished list" where
  "take_all ec s = concat (map (\<lambda>d. map (\<lambda>op. (d, op, ec)) (rx_queue s d)) [ReadOp, WriteOp, ExceptOp])"

definition cancel_ops :: "'o reactor \<Rightarrow> 'o reactor" where
  "cancel_ops s =
     (if \<not> rx_data s then s
      else let ops = take_all Aborted s
           in reactor_post_deferred ops (finish ops (s\<lparr>rx_queue := (\<lambda>_. [])\<rparr>)))"

definition deregister_descriptor :: "'o reactor \<Rightarrow> 'o reactor" where
  "deregister_descriptor s =
     (if \<not> rx_data s \<or> rx_shutdown s then s
      else let ops = take_all Aborted s
           in reactor_post_deferred ops (finish ops
                (s\<lparr>rx_queue := (\<lambda>_. []), rx_shutdown := True, rx_data := False, rx_edge := (\<lambda>_. False)\<rparr>)))"

text \<open>The part of \<open>shutdown_service\<close> for one descriptor; the operations are destroyed.\<close>

definition shutdown_descriptor :: "'o reactor \<Rightarrow> 'o reactor" where
  "shutdown_descriptor s =
     (if \<not> rx_data s then s
      else let ops = take_all Abandoned s
           in (finish ops s)\<lparr>rx_queue := (\<lambda>_. []), rx_shutdown := True, rx_abandoned := rx_abandoned s @ ops\<rparr>)"

text \<open>\<open>run\<close>: \<open>epoll_wait\<close> reports at least the edges there are, and the descriptor is handed to the
  \<open>io_service\<close> with them.  An error or a hang-up sets every flag.\<close>

definition reactor_poll :: "(op_type \<Rightarrow> bool) \<Rightarrow> 'o reactor \<Rightarrow> 'o reactor" where
  "reactor_poll extra s =
     s\<lparr>rx_events := rx_events s @ [(\<lambda>d. rx_edge s d \<or> extra d)], rx_edge := (\<lambda>_. False)\<rparr>"

fun perform_loop :: "nat \<Rightarrow> 'o list \<Rightarrow> 'o list \<times> 'o list \<times> nat" where
  "perform_loop a [] = ([], [], a)"
| "perform_loop 0 ops = ([], ops, 0)"
| "perform_loop (Suc a) (op # ops) = (case perform_loop a ops of (finished, rest, a) \<Rightarrow> (op # finished, rest, a))"

definition perform_dir :: "(op_type \<Rightarrow> bool) \<Rightarrow> op_type \<Rightarrow> 'o finished list \<times> 'o reactor \<Rightarrow> 'o finished list \<times> 'o reactor" where
  "perform_dir events d = (\<lambda>(ops, s).
     if events d
     then case perform_loop (rx_avail s d) (rx_queue s d) of (finished, rest, a) \<Rightarrow>
            (ops @ map (\<lambda>op. (d, op, Performed)) finished,
             s\<lparr>rx_queue := (rx_queue s)(d := rest), rx_avail := (rx_avail s)(d := a)\<rparr>)
     else (ops, s))"

definition perform_io :: "(op_type \<Rightarrow> bool) \<Rightarrow> 'o reactor \<Rightarrow> 'o finished list \<times> 'o reactor" where
  "perform_io events s =
     (let (ops, s) = perform_dir events ReadOp (perform_dir events WriteOp (perform_dir events ExceptOp ([], s)))
      in (ops, finish ops s))"

text \<open>A thread runs the \<open>i\<close>-th descriptor operation: the first operation that finished completes in
  place, the others are posted; if there is none, \<open>~perform_io_cleanup_on_block_exit\<close> calls
  \<open>work_started\<close> to make up for the \<open>work_finished\<close> of the \<open>io_service\<close>.\<close>

definition descriptor_complete :: "nat \<Rightarrow> 'o reactor \<Rightarrow> 'o reactor" where
  "descriptor_complete i s =
     (case perform_io (rx_events s ! i) (s\<lparr>rx_events := take i (rx_events s) @ drop (Suc i) (rx_events s)\<rparr>) of
        ([], s) \<Rightarrow> s\<lparr>rx_work := rx_work s + 1 - 1\<rparr>
      | (op # ops, s) \<Rightarrow>
          (reactor_post_deferred ops s)\<lparr>rx_completed := rx_completed s @ [op], rx_work := rx_work s - 1\<rparr>)"

subsection \<open>Runs\<close>

datatype 'o reactor_event =
  Register | Start op_type bool bool 'o | Cancel | Deregister | Shutdown | Kernel op_type nat bool | Poll "op_type \<Rightarrow> bool"
  | RunDescriptor nat | RunPosted

fun reactor_step :: "'o reactor_event \<Rightarrow> 'o reactor \<Rightarrow> 'o reactor" where
  "reactor_step Register s = register_descriptor s"
| "reactor_step (Start d spec ctl op) s = start_op d spec ctl op s"
| "reactor_step Cancel s = cancel_ops s"
| "reactor_step Deregister s = deregister_descriptor s"
| "reactor_step Shutdown s = shutdown_descriptor s"
| "reactor_step (Kernel d n spurious) s = kernel_change d n spurious s"
| "reactor_step (Poll extra) s = reactor_poll extra s"
| "reactor_step (RunDescriptor i) s = descriptor_complete i s"
| "reactor_step RunPosted s = run_posted s"

text \<open>A descriptor is registered when it has no state yet, and what runs is there.\<close>

fun reactor_enabled :: "'o reactor \<Rightarrow> 'o reactor_event \<Rightarrow> bool" where
  "reactor_enabled s Register = (\<not> rx_data s)"
| "reactor_enabled s (RunDescriptor i) = (i < length (rx_events s))"
| "reactor_enabled s _ = True"

fun ctl_failed :: "'o reactor_event \<Rightarrow> bool" where
  "ctl_failed (Start d spec ctl op) = (\<not> ctl)"
| "ctl_failed _ = False"

text \<open>\<open>ctl\<close>: every call of \<open>epoll_ctl\<close> succeeds.\<close>

inductive reactor_reach :: "bool \<Rightarrow> 'o reactor \<Rightarrow> bool" for ctl where
  rr_new: "reactor_reach ctl new_reactor"
| rr_step: "reactor_reach ctl s \<Longrightarrow> reactor_enabled s ev \<Longrightarrow> (ctl \<longrightarrow> \<not> ctl_failed ev) \<Longrightarrow> reactor_reach ctl (reactor_step ev s)"

subsection \<open>The invariants\<close>

definition of_type :: "op_type \<Rightarrow> (op_type \<times> 'a) list \<Rightarrow> 'a list" where
  "of_type d xs = map snd (filter (\<lambda>x. fst x = d) xs)"

definition rx_queued :: "'o reactor \<Rightarrow> nat" where
  "rx_queued s = length (rx_queue s ReadOp) + length (rx_queue s WriteOp) + length (rx_queue s ExceptOp)"

definition books :: "'o reactor \<Rightarrow> bool" where
  "books s \<longleftrightarrow> (\<forall>d. map fst (of_type d (rx_log s)) @ rx_queue s d = of_type d (rx_started s))
     \<and> mset (rx_log s) = mset (rx_posted s) + mset (rx_completed s) + mset (rx_abandoned s)
     \<and> rx_work s = int (length (rx_posted s) + rx_queued s + length (rx_abandoned s))
     \<and> (\<not> rx_data s \<or> rx_shutdown s \<longrightarrow> (\<forall>d. rx_queue s d = []))"

lemma of_type_simps [simp]: "of_type d [] = []" "of_type d (xs @ ys) = of_type d xs @ of_type d ys"
  "of_type d ((d', x) # xs) = (if d' = d then x # of_type d xs else of_type d xs)"
  by (simp_all add: of_type_def)

lemma of_type_map [simp]: "of_type d (map (\<lambda>op. (d', op, r)) ops) = (if d' = d then map (\<lambda>op. (op, r)) ops else [])"
  by (simp add: of_type_def filter_map o_def)

lemma take_all_type: "map fst (of_type d (take_all ec s)) = rx_queue s d"
  by (cases d) (simp_all add: take_all_def o_def)

lemma length_take_all: "length (take_all ec s) = rx_queued s"
  by (simp add: take_all_def rx_queued_def)

lemma perform_loop_split: "perform_loop a q = (finished, rest, a') \<Longrightarrow> q = finished @ rest \<and> (rest = [] \<or> a' = 0)
    \<and> (a > 0 \<longrightarrow> q \<noteq> [] \<longrightarrow> finished \<noteq> [])"
  by (induction a q arbitrary: finished rest a' rule: perform_loop.induct) (auto split: prod.splits)

text \<open>One round of \<open>perform_io\<close> moves operations from the queue of its direction.\<close>

definition io_moves :: "'o finished list \<times> 'o reactor \<Rightarrow> 'o finished list \<times> 'o reactor \<Rightarrow> bool" where
  "io_moves p p' \<longleftrightarrow> (\<exists>new. fst p' = fst p @ new \<and> (\<forall>d. rx_queue (snd p) d = map fst (of_type d new) @ rx_queue (snd p') d)
      \<and> rx_queued (snd p) = length new + rx_queued (snd p'))
    \<and> (\<exists>q a. snd p' = (snd p)\<lparr>rx_queue := q, rx_avail := a\<rparr>)"

lemma io_stepI:
  "fst p' = fst p @ new \<Longrightarrow> (\<And>d. rx_queue (snd p) d = map fst (of_type d new) @ rx_queue (snd p') d) \<Longrightarrow>
    rx_queued (snd p) = length new + rx_queued (snd p') \<Longrightarrow> snd p' = (snd p)\<lparr>rx_queue := q, rx_avail := a\<rparr> \<Longrightarrow> io_moves p p'"
  unfolding io_moves_def by blast

lemma io_moves_dir: "io_moves p (perform_dir events d p)"
proof (cases "events d")
  case False
  then have "perform_dir events d p = p" by (simp add: perform_dir_def split_beta)
  then show ?thesis
    by (intro io_stepI [where new = "[]" and q = "rx_queue (snd p)" and a = "rx_avail (snd p)"]) simp_all
next
  case True
  obtain ops s where p: "p = (ops, s)" by (cases p)
  obtain f rest a where l: "perform_loop (rx_avail s d) (rx_queue s d) = (f, rest, a)" by (cases "perform_loop (rx_avail s d) (rx_queue s d)")
  have q: "rx_queue s d = f @ rest" using perform_loop_split [OF l] by simp
  have e: "perform_dir events d (ops, s) = (ops @ map (\<lambda>op. (d, op, Performed)) f, s\<lparr>rx_queue := (rx_queue s)(d := rest), rx_avail := (rx_avail s)(d := a)\<rparr>)"
    using True by (simp add: perform_dir_def l)
  have "rx_queued s = length f + rx_queued (s\<lparr>rx_queue := (rx_queue s)(d := rest), rx_avail := (rx_avail s)(d := a)\<rparr>)"
    using q by (cases d) (simp_all add: rx_queued_def)
  then show ?thesis unfolding p e
    by (intro io_stepI [of _ _ "map (\<lambda>op. (d, op, Performed)) f"]) (auto simp: q o_def)
qed

lemma io_moves_trans:
  assumes "io_moves p p'" "io_moves p' p''"
  shows "io_moves p p''"
proof -
  obtain new q a where 1: "fst p' = fst p @ new" "\<And>d. rx_queue (snd p) d = map fst (of_type d new) @ rx_queue (snd p') d"
    "rx_queued (snd p) = length new + rx_queued (snd p')" "snd p' = (snd p)\<lparr>rx_queue := q, rx_avail := a\<rparr>"
    using assms(1) unfolding io_moves_def by blast
  obtain new' q' a' where 2: "fst p'' = fst p' @ new'" "\<And>d. rx_queue (snd p') d = map fst (of_type d new') @ rx_queue (snd p'') d"
    "rx_queued (snd p') = length new' + rx_queued (snd p'')" "snd p'' = (snd p')\<lparr>rx_queue := q', rx_avail := a'\<rparr>"
    using assms(2) unfolding io_moves_def by blast
  have "snd p'' = (snd p)\<lparr>rx_queue := q', rx_avail := a'\<rparr>" using 1(4) 2(4) by simp
  then show ?thesis
    by (intro io_stepI [of _ _ "new @ new'"]) (use 1(1-3) 2(1-3) in \<open>simp_all\<close>)
qed

text \<open>What \<open>perform_io\<close> does: operations leave the queues for the log; nothing else changes but the
  kernel's counts, and a direction with an event ends with an empty queue or blocked.\<close>

lemma perform_io_moves:
  assumes "perform_io events s = (ops, s')"
  shows "(\<forall>d. rx_queue s d = map fst (of_type d ops) @ rx_queue s' d) \<and> rx_queued s = length ops + rx_queued s'
    \<and> (\<exists>q a. s' = s\<lparr>rx_queue := q, rx_avail := a, rx_log := rx_log s @ ops\<rparr>)"
proof -
  define p where "p = perform_dir events ReadOp (perform_dir events WriteOp (perform_dir events ExceptOp ([], s)))"
  have e: "ops = fst p" "s' = finish ops (snd p)" using assms by (auto simp: perform_io_def split_beta Let_def p_def)
  have "io_moves ([], s) p" unfolding p_def using io_moves_dir io_moves_trans by metis
  then obtain new q a where "fst p = new" "\<forall>d. rx_queue s d = map fst (of_type d new) @ rx_queue (snd p) d"
    "rx_queued s = length new + rx_queued (snd p)" and p: "snd p = s\<lparr>rx_queue := q, rx_avail := a\<rparr>"
    unfolding io_moves_def by auto
  moreover have "s' = s\<lparr>rx_queue := q, rx_avail := a, rx_log := rx_log s @ ops\<rparr>" by (simp add: e(2) p finish_def)
  ultimately show ?thesis using e unfolding rx_queued_def by (auto simp: finish_def)
qed

subsubsection \<open>The books are kept\<close>

definition same_books :: "'o reactor \<Rightarrow> 'o reactor \<Rightarrow> bool" where
  "same_books s s' \<longleftrightarrow> rx_data s' = rx_data s \<and> rx_shutdown s' = rx_shutdown s \<and> rx_queue s' = rx_queue s
     \<and> rx_log s' = rx_log s \<and> rx_started s' = rx_started s \<and> rx_posted s' = rx_posted s
     \<and> rx_completed s' = rx_completed s \<and> rx_abandoned s' = rx_abandoned s \<and> rx_work s' = rx_work s"

lemma books_same: "same_books s s' \<Longrightarrow> books s' = books s"
  by (simp add: same_books_def books_def rx_queued_def)

lemma books_immediate:
  assumes "books s" "rx_queue s d = []" "same_books (s\<lparr>rx_started := rx_started s @ [(d, op)]\<rparr>) s'"
  shows "books (reactor_post_immediate (d, op, r) s')"
proof -
  have "map fst (of_type d (rx_log s)) @ rx_queue s d = of_type d (rx_started s)" using assms(1) unfolding books_def by blast
  with assms show ?thesis by (auto simp: books_def reactor_post_immediate_def finish_def rx_queued_def same_books_def)
qed

lemma books_enqueue:
  assumes "books s" "rx_data s" "\<not> rx_shutdown s" "same_books (s\<lparr>rx_started := rx_started s @ [(d, op)]\<rparr>) s'"
  shows "books (enqueue_op d op s')"
  using assms by (cases d) (auto simp: books_def enqueue_op_def rx_queued_def same_books_def)

lemma start_now_books:
  assumes "start_now d spec ctl s = (r, s')"
  shows "same_books s s' \<and> (r = None \<longrightarrow> rx_data s \<and> \<not> rx_shutdown s)
    \<and> (r \<noteq> None \<longrightarrow> \<not> rx_data s \<or> rx_shutdown s \<or> rx_queue s d = [])"
  using assms by (auto simp: start_now_def perform_def rearm_def same_books_def Let_def split: if_splits)

lemma books_start: "books s \<Longrightarrow> books (start_op d spec ctl op s)"
proof -
  assume b: "books s"
  let ?s = "s\<lparr>rx_started := rx_started s @ [(d, op)]\<rparr>"
  obtain r s' where r: "start_now d spec ctl ?s = (r, s')" by (cases "start_now d spec ctl ?s")
  note n = start_now_books [OF r]
  show ?thesis
  proof (cases r)
    case None
    then show ?thesis using n books_enqueue [OF b, of d op s'] by (simp add: start_op_def r)
  next
    case (Some ec)
    then have "rx_queue s d = []" using n b by (auto simp: books_def)
    then show ?thesis using Some n books_immediate [OF b, of d op s' ec] by (simp add: start_op_def r)
  qed
qed

lemma books_all_taken:
  assumes "books s" "rx_log s' = rx_log s @ take_all ec s" "rx_queue s' = (\<lambda>_. [])" "rx_started s' = rx_started s"
    "mset (rx_posted s') + mset (rx_abandoned s') = mset (rx_posted s) + mset (rx_abandoned s) + mset (take_all ec s)"
    "rx_completed s' = rx_completed s" "rx_work s' = rx_work s"
  shows "books s'"
proof -
  have "size (mset (rx_posted s') + mset (rx_abandoned s')) = size (mset (rx_posted s) + mset (rx_abandoned s) + mset (take_all ec s))"
    using assms(5) by simp
  then have l: "length (rx_posted s') + length (rx_abandoned s') = length (rx_posted s) + length (rx_abandoned s) + rx_queued s"
    by (simp add: length_take_all)
  have "mset (rx_log s') = mset (rx_posted s') + mset (rx_completed s') + mset (rx_abandoned s')"
    using assms(1,2,5,6) by (simp add: books_def ac_simps)
  moreover have "map fst (of_type d (rx_log s')) = of_type d (rx_started s')" for d
    using assms(1,2,4) by (simp add: books_def take_all_type)
  ultimately show ?thesis using assms l by (simp add: books_def rx_queued_def)
qed

lemma books_step:
  assumes "books s" "reactor_enabled s ev"
  shows "books (reactor_step ev s)"
proof (cases ev)
  case Register
  have "\<forall>d. rx_queue s d = []" using assms Register by (simp add: books_def)
  then show ?thesis using assms(1) by (simp add: Register register_descriptor_def rearm_def books_def rx_queued_def)
next
  case (Start d spec ctl op)
  then show ?thesis using books_start assms by simp
next
  case Cancel
  show ?thesis
  proof (cases "rx_data s")
    case True
    show ?thesis by (rule books_all_taken [OF assms(1), of _ Aborted])
      (use True in \<open>simp_all add: Cancel cancel_ops_def reactor_post_deferred_def finish_def Let_def\<close>)
  qed (use assms Cancel in \<open>simp add: cancel_ops_def\<close>)
next
  case Deregister
  show ?thesis
  proof (cases "rx_data s \<and> \<not> rx_shutdown s")
    case True
    show ?thesis by (rule books_all_taken [OF assms(1), of _ Aborted])
      (use True in \<open>simp_all add: Deregister deregister_descriptor_def reactor_post_deferred_def finish_def Let_def\<close>)
  qed (use assms Deregister in \<open>auto simp: deregister_descriptor_def\<close>)
next
  case Shutdown
  show ?thesis
  proof (cases "rx_data s")
    case True
    show ?thesis by (rule books_all_taken [OF assms(1), of _ Abandoned])
      (use True in \<open>simp_all add: Shutdown shutdown_descriptor_def finish_def Let_def\<close>)
  qed (use assms Shutdown in \<open>simp add: shutdown_descriptor_def\<close>)
next
  case (Kernel d n spurious)
  have "same_books s (kernel_change d n spurious s)" by (simp add: kernel_change_def same_books_def)
  then show ?thesis using assms(1) books_same Kernel by force
next
  case (Poll extra)
  have "same_books s (reactor_poll extra s)" by (simp add: reactor_poll_def same_books_def)
  then show ?thesis using assms(1) books_same Poll by force
next
  case (RunDescriptor i)
  let ?s = "s\<lparr>rx_events := take i (rx_events s) @ drop (Suc i) (rx_events s)\<rparr>"
  obtain ops s' where p: "perform_io (rx_events s ! i) ?s = (ops, s')" by (cases "perform_io (rx_events s ! i) ?s")
  obtain q a where m: "\<forall>d. rx_queue s d = map fst (of_type d ops) @ rx_queue s' d" "rx_queued s = length ops + rx_queued s'"
    "s' = ?s\<lparr>rx_queue := q, rx_avail := a, rx_log := rx_log s @ ops\<rparr>"
    using perform_io_moves [OF p] by (auto simp: rx_queued_def)
  have b: "map fst (of_type d (rx_log s)) @ map fst (of_type d ops) @ rx_queue s' d = of_type d (rx_started s)" for d
    using assms(1) m(1) by (simp add: books_def)
  let ?r = "descriptor_complete i s"
  have r: "rx_log ?r = rx_log s @ ops \<and> rx_queue ?r = rx_queue s' \<and> rx_started ?r = rx_started s \<and> rx_data ?r = rx_data s
      \<and> rx_shutdown ?r = rx_shutdown s \<and> rx_abandoned ?r = rx_abandoned s
      \<and> rx_posted ?r = rx_posted s @ tl ops \<and> rx_completed ?r = rx_completed s @ take 1 ops
      \<and> rx_work ?r = rx_work s - int (length (take 1 ops))"
    using m(3) by (cases ops) (simp_all add: descriptor_complete_def p reactor_post_deferred_def)
  have e: "rx_queue s' d = []" if "\<forall>d. rx_queue s d = []" for d using m(1) that by simp
  have o: "mset ops = mset (tl ops) + mset (take 1 ops)" by (cases ops) simp_all
  show ?thesis unfolding RunDescriptor reactor_step.simps books_def
  proof (intro conjI allI impI)
    show "map fst (of_type d (rx_log ?r)) @ rx_queue ?r d = of_type d (rx_started ?r)" for d using b r by simp
    show "mset (rx_log ?r) = mset (rx_posted ?r) + mset (rx_completed ?r) + mset (rx_abandoned ?r)"
      using assms(1) r o by (simp add: books_def)
    have "rx_queued ?r = rx_queued s'" using r by (simp add: rx_queued_def)
    then show "rx_work ?r = int (length (rx_posted ?r) + rx_queued ?r + length (rx_abandoned ?r))"
      using assms(1) r m(2) by (cases ops) (simp_all add: books_def)
    show "rx_queue ?r d = []" if "\<not> rx_data ?r \<or> rx_shutdown ?r" for d
      using assms(1) r e that by (simp add: books_def)
  qed
next
  case RunPosted
  then show ?thesis using assms(1) by (cases "rx_posted s") (auto simp: run_posted_def books_def rx_queued_def)
qed

lemma books_reach: "reactor_reach ctl s \<Longrightarrow> books s"
proof (induction rule: reactor_reach.induct)
  case rr_new
  show ?case by (simp add: books_def new_reactor_def rx_queued_def)
next
  case (rr_step s ev)
  then show ?case by (intro books_step)
qed

subsubsection \<open>No wake-up is lost\<close>

text \<open>An operation that waits although it would not block: there is an event that will make a thread
  perform it.\<close>

definition awake :: "op_type \<Rightarrow> 'o reactor \<Rightarrow> bool" where
  "awake d s \<longleftrightarrow> rx_edge s d \<or> (\<exists>events \<in> set (rx_events s). events d)"

definition wakeups :: "'o reactor \<Rightarrow> bool" where
  "wakeups s \<longleftrightarrow> (\<forall>d. rx_queue s d \<noteq> [] \<longrightarrow> registered d s \<and> (rx_avail s d > 0 \<longrightarrow> awake d s))"

lemma perform_dir_other: "d' \<noteq> d \<or> \<not> events d \<Longrightarrow>
    rx_queue (snd (perform_dir events d p)) d' = rx_queue (snd p) d' \<and> rx_avail (snd (perform_dir events d p)) d' = rx_avail (snd p) d'"
  by (auto simp: perform_dir_def split: prod.splits)

lemma perform_dir_done: "events d \<Longrightarrow>
    rx_queue (snd (perform_dir events d p)) d = [] \<or> rx_avail (snd (perform_dir events d p)) d = 0"
  by (auto simp: perform_dir_def dest: perform_loop_split split: prod.splits)

lemma perform_io_result:
  assumes "perform_io events s = (ops, s')"
  shows "(events d \<longrightarrow> rx_queue s' d = [] \<or> rx_avail s' d = 0)
    \<and> (\<not> events d \<longrightarrow> rx_queue s' d = rx_queue s d \<and> rx_avail s' d = rx_avail s d)"
proof -
  define p where "p = perform_dir events ReadOp (perform_dir events WriteOp (perform_dir events ExceptOp ([], s)))"
  have "rx_queue s' = rx_queue (snd p)" "rx_avail s' = rx_avail (snd p)"
    using assms by (auto simp: perform_io_def finish_def split_beta Let_def p_def)
  then show ?thesis
    by (cases "events d"; cases d) (simp_all add: p_def perform_dir_other perform_dir_done)
qed

lemma perform_dir_moves: "events d \<Longrightarrow> rx_avail (snd p) d > 0 \<Longrightarrow> rx_queue (snd p) d \<noteq> [] \<Longrightarrow>
    rx_queue (snd (perform_dir events d p)) d \<noteq> rx_queue (snd p) d"
  by (auto simp: perform_dir_def dest: perform_loop_split split: prod.splits)

lemma perform_dir_performed: "\<forall>x \<in> set (fst p). snd (snd x) = Performed \<Longrightarrow>
    \<forall>x \<in> set (fst (perform_dir events d p)). snd (snd x) = Performed"
  by (auto simp: perform_dir_def split: prod.splits)

lemma perform_io_first:
  assumes "perform_io events s = (ops, s')" "events d" "rx_avail s d > 0" "rx_queue s d \<noteq> []"
  shows "(d, hd (rx_queue s d), Performed) \<in> set ops"
proof -
  define p where "p = perform_dir events ReadOp (perform_dir events WriteOp (perform_dir events ExceptOp ([], s)))"
  have p: "ops = fst p" "rx_queue s' = rx_queue (snd p)"
    using assms(1) by (auto simp: perform_io_def finish_def split_beta Let_def p_def)
  have "rx_queue s' d \<noteq> rx_queue s d"
    using assms(2-4) p(2) perform_dir_moves [of events d "([], s)"] perform_dir_moves [of events d "perform_dir events ExceptOp ([], s)"]
      perform_dir_moves [of events d "perform_dir events WriteOp (perform_dir events ExceptOp ([], s))"]
    by (cases d) (simp_all add: p_def perform_dir_other)
  then obtain x xs where o: "of_type d ops = x # xs" and h: "hd (rx_queue s d) = fst x"
    using perform_io_moves [OF assms(1)] by (cases "of_type d ops") auto
  have "x \<in> set (of_type d ops)" using o by simp
  then have "(d, x) \<in> set ops" by (auto simp: of_type_def)
  moreover have "\<forall>y \<in> set ops. snd (snd y) = Performed"
    unfolding p(1) p_def by (intro perform_dir_performed) simp
  ultimately show ?thesis using h by (cases x) auto
qed

lemma wakeups_cong: "rx_queue s' = rx_queue s \<Longrightarrow> rx_avail s' = rx_avail s \<Longrightarrow> rx_edge s' = rx_edge s \<Longrightarrow>
    rx_events s' = rx_events s \<Longrightarrow> rx_out s' = rx_out s \<Longrightarrow> wakeups s' = wakeups s"
  by (simp add: wakeups_def awake_def registered_def)

lemma wakeups_perform: "wakeups s \<Longrightarrow> wakeups (snd (perform d s))"
  by (auto simp: wakeups_def awake_def registered_def perform_def)

lemma wakeups_rearm: "wakeups s \<Longrightarrow> wakeups (rearm (s\<lparr>rx_out := rx_out s \<or> b\<rparr>))"
  by (auto simp: wakeups_def awake_def registered_def rearm_def)

lemma awake_rearm: "registered d s \<Longrightarrow> rx_avail s d > 0 \<Longrightarrow> awake d (rearm s)"
  by (simp add: awake_def rearm_def)

lemma rearm_simps [simp]: "registered d (rearm s) = registered d s" "rx_avail (rearm s) = rx_avail s" "rx_out (rearm s) = rx_out s"
  by (simp_all add: registered_def rearm_def)

lemma wakeups_start_now:
  assumes w: "wakeups s" and i: "\<forall>d. rx_queue s d = [] \<or> rx_data s \<and> \<not> rx_shutdown s" and r: "start_now d spec True s = (r, s')"
  shows "wakeups s' \<and> (r = None \<longrightarrow> registered d s' \<and> (rx_avail s' d > 0 \<longrightarrow> awake d s'))"
proof -
  have out: "wakeups (rearm (s\<lparr>rx_out := True\<rparr>))" "wakeups (rearm s)"
    using wakeups_rearm [OF w, of True] wakeups_rearm [OF w, of False] by simp_all
  have p: "wakeups (snd (perform d s))" by (rule wakeups_perform [OF w])
  have out_p: "wakeups (rearm (snd (perform d s)\<lparr>rx_out := True\<rparr>))" using wakeups_rearm [OF p, of True] by simp
  have reg: "rx_queue s d \<noteq> [] \<Longrightarrow> registered d s \<and> (rx_avail s d > 0 \<longrightarrow> awake d s)" using w by (simp add: wakeups_def)
  consider "r \<noteq> None" | "r = None" "rx_queue s d \<noteq> []" | "r = None" "rx_queue s d = []" "spec \<and> (d \<noteq> ReadOp \<or> rx_queue s ExceptOp = [])"
    | "r = None" "rx_queue s d = []" "\<not> (spec \<and> (d \<noteq> ReadOp \<or> rx_queue s ExceptOp = []))" by blast
  then show ?thesis
  proof cases
    case 1
    then have "s' = s \<or> s' = snd (perform d s)"
      using r by (auto simp: start_now_def perform_def Let_def split: if_splits)
    then show ?thesis using 1 w p by auto
  next
    case 2
    then have "s' = s" using r by (auto simp: start_now_def split: if_splits)
    then show ?thesis using w reg 2 by simp
  next
    case 3
    have "rx_avail s d = 0 \<and> s' = (if d = WriteOp \<and> \<not> rx_out s then rearm (snd (perform d s)\<lparr>rx_out := True\<rparr>) else snd (perform d s))"
      using r 3 by (auto simp: start_now_def perform_def Let_def split: if_splits)
    then show ?thesis using p out_p by (auto simp: perform_def registered_def split: if_splits)
  next
    case 4
    have "s' = rearm (if d = WriteOp then s\<lparr>rx_out := True\<rparr> else s)"
      using r 4 by (auto simp: start_now_def Let_def split: if_splits)
    then show ?thesis using out awake_rearm [of d s] awake_rearm [of d "s\<lparr>rx_out := True\<rparr>"] by (auto simp: registered_def)
  qed
qed

lemma wakeups_start:
  assumes "wakeups s" "\<forall>d. rx_queue s d = [] \<or> rx_data s \<and> \<not> rx_shutdown s"
  shows "wakeups (start_op d spec True op s)"
proof -
  let ?s = "s\<lparr>rx_started := rx_started s @ [(d, op)]\<rparr>"
  obtain r s' where r: "start_now d spec True ?s = (r, s')" by (cases "start_now d spec True ?s")
  have "wakeups ?s" using assms(1) by (simp add: wakeups_def awake_def registered_def)
  then have w: "wakeups s' \<and> (r = None \<longrightarrow> registered d s' \<and> (rx_avail s' d > 0 \<longrightarrow> awake d s'))"
    using wakeups_start_now [OF _ _ r] assms(2) by simp
  then show ?thesis
    by (cases r) (auto simp: start_op_def r enqueue_op_def reactor_post_immediate_def finish_def wakeups_def awake_def registered_def)
qed

lemma wakeups_step:
  assumes "wakeups s" "books s" "reactor_enabled s ev" "\<not> ctl_failed ev"
  shows "wakeups (reactor_step ev s)"
proof (cases ev)
  case Register
  have "\<forall>d. rx_queue s d = []" using assms Register by (simp add: books_def)
  then show ?thesis by (simp add: Register register_descriptor_def rearm_def wakeups_def)
next
  case (Start d spec ctl op)
  moreover have "\<forall>d. rx_queue s d = [] \<or> rx_data s \<and> \<not> rx_shutdown s" using assms(2) unfolding books_def by blast
  ultimately show ?thesis using wakeups_start [OF assms(1)] assms(4) by simp
next
  case (RunDescriptor i)
  let ?E = "take i (rx_events s) @ drop (Suc i) (rx_events s)"
  let ?s = "s\<lparr>rx_events := ?E\<rparr>"
  obtain ops s' where p: "perform_io (rx_events s ! i) ?s = (ops, s')" by (cases "perform_io (rx_events s ! i) ?s")
  have ev: "set (rx_events s) = insert (rx_events s ! i) (set ?E)"
    using id_take_nth_drop [of i "rx_events s"] assms(3) RunDescriptor by (metis list.simps(15) reactor_enabled.simps(2) set_append Un_insert_right)
  have m: "rx_events s' = ?E" "rx_edge s' = rx_edge s" "rx_out s' = rx_out s"
    using perform_io_moves [OF p] by auto
  have "wakeups s'"
    unfolding wakeups_def
  proof (intro allI impI conjI)
    fix d assume q: "rx_queue s' d \<noteq> []"
    have "rx_queue s d \<noteq> []" using perform_io_moves [OF p] q by auto
    then have old: "registered d s" "rx_avail s d > 0 \<Longrightarrow> awake d s" using assms(1) by (simp_all add: wakeups_def)
    then show "registered d s'" using m by (simp add: registered_def)
    assume a: "rx_avail s' d > 0"
    then have "\<not> (rx_events s ! i) d" "rx_avail s d > 0" using perform_io_result [OF p, of d] q by auto
    then show "awake d s'" using old(2) ev m by (auto simp: awake_def)
  qed
  then have "wakeups (s'\<lparr>rx_posted := x, rx_completed := y, rx_work := z\<rparr>)" "wakeups s'" for x y z
    by (simp_all add: wakeups_def awake_def registered_def)
  then show ?thesis
    by (simp add: RunDescriptor descriptor_complete_def p reactor_post_deferred_def split: list.split)
next
  case RunPosted
  then show ?thesis using assms(1) by (cases "rx_posted s") (simp_all add: run_posted_def wakeups_def awake_def registered_def)
qed (use assms(1) in \<open>auto simp: cancel_ops_def deregister_descriptor_def shutdown_descriptor_def kernel_change_def reactor_poll_def
    reactor_post_deferred_def finish_def wakeups_def awake_def registered_def Let_def\<close>)

lemma wakeups_reach: "reactor_reach True s \<Longrightarrow> wakeups s"
proof (induction rule: reactor_reach.induct)
  case rr_new
  show ?case by (simp add: wakeups_def new_reactor_def)
next
  case (rr_step s ev)
  then show ?case using wakeups_step books_reach by blast
qed

subsection \<open>The theorems\<close>

text \<open>C12: whatever is done with a descriptor and whatever the kernel answers, the operations of a
  direction finish in the order they were started, each once: the finished ones and the waiting ones
  are the started ones.  What has finished is waiting to run, has run, or was abandoned at shutdown;
  and the work counted for the \<open>io_service\<close> is exactly the operations that wait, are posted or were
  abandoned, so that it neither stops early nor keeps running.\<close>

theorem reactor_operations:
  assumes "reactor_reach ctl s"
  shows "(\<forall>d. map fst (of_type d (rx_log s)) @ rx_queue s d = of_type d (rx_started s))
    \<and> mset (rx_log s) = mset (rx_posted s) + mset (rx_completed s) + mset (rx_abandoned s)
    \<and> rx_work s = int (length (rx_posted s) + rx_queued s + length (rx_abandoned s))"
  using books_reach [OF assms] by (simp add: books_def)

definition demo_reactor :: "nat reactor" where
  "demo_reactor = reactor_step (Poll (\<lambda>_. False)) (reactor_step (Kernel ReadOp 1 False)
     (reactor_step (Start ReadOp True True 5) (reactor_step (Start ReadOp True True 4) (reactor_step Register new_reactor))))"

lemma demo_reactor_reach: "reactor_reach True demo_reactor"
  unfolding demo_reactor_def
  by (intro rr_step rr_new) (simp_all add: new_reactor_def)

theorem reactor_operations_witness:
  "rx_queue demo_reactor ReadOp = [4, 5] \<and> of_type ReadOp (rx_started demo_reactor) = [4, 5] \<and> rx_work demo_reactor = 2"
  using reactor_operations [OF demo_reactor_reach]
  by (simp add: demo_reactor_def new_reactor_def register_descriptor_def rearm_def start_op_def start_now_def perform_def
      enqueue_op_def kernel_change_def reactor_poll_def registered_def)

text \<open>C13: with events that are reported once only, no wake-up is lost: an operation that waits although
  it would not block has an edge that the next \<open>epoll_wait\<close> reports, or an event a thread is about
  to look at; and looking at it finishes the first operation that waits.\<close>

theorem no_lost_wakeup:
  assumes "reactor_reach True s" "rx_queue s d \<noteq> []" "rx_avail s d > 0"
  shows "(rx_edge s d \<or> (\<exists>events \<in> set (rx_events s). events d))
    \<and> (\<forall>i < length (rx_events s). (rx_events s ! i) d \<longrightarrow>
        (\<exists>ops. rx_log (descriptor_complete i s) = rx_log s @ ops \<and> (d, hd (rx_queue s d), Performed) \<in> set ops))"
proof (intro conjI allI impI)
  show "rx_edge s d \<or> (\<exists>events \<in> set (rx_events s). events d)"
    using wakeups_reach [OF assms(1)] assms(2,3) by (simp add: wakeups_def awake_def)
  fix i assume i: "i < length (rx_events s)" "(rx_events s ! i) d"
  let ?s = "s\<lparr>rx_events := take i (rx_events s) @ drop (Suc i) (rx_events s)\<rparr>"
  obtain ops s' where p: "perform_io (rx_events s ! i) ?s = (ops, s')" by (cases "perform_io (rx_events s ! i) ?s")
  have "rx_log (descriptor_complete i s) = rx_log s @ ops"
    using perform_io_moves [OF p] by (auto simp: descriptor_complete_def p reactor_post_deferred_def split: list.split)
  moreover have "(d, hd (rx_queue s d), Performed) \<in> set ops"
    using perform_io_first [OF p i(2)] assms(2,3) by simp
  ultimately show "\<exists>ops. rx_log (descriptor_complete i s) = rx_log s @ ops \<and> (d, hd (rx_queue s d), Performed) \<in> set ops"
    by blast
qed

theorem no_lost_wakeup_witness:
  "\<exists>ops. rx_log (descriptor_complete 0 demo_reactor) = rx_log demo_reactor @ ops \<and> (ReadOp, 4, Performed) \<in> set ops"
proof -
  have "rx_queue demo_reactor ReadOp = [4, 5]" "rx_avail demo_reactor ReadOp = 1" "rx_events demo_reactor = [\<lambda>d. d = ReadOp]"
    by (simp_all add: demo_reactor_def new_reactor_def register_descriptor_def rearm_def start_op_def start_now_def perform_def
        enqueue_op_def kernel_change_def reactor_poll_def registered_def fun_eq_iff)
  then show ?thesis using no_lost_wakeup [OF demo_reactor_reach, of ReadOp] by simp
qed

end
