(* ===== verification/DescriptorPool.thy ===== *)
theory DescriptorPool
  imports OpQueue Reactor
begin

text \<open>
  The descriptors of the reactor together (\<^verbatim>\<open>deps/asio/1.10.6/include/asio/detail/object_pool.hpp\<close>
  and its use in \<^verbatim>\<open>impl/epoll_reactor.ipp\<close>): the states of the descriptors come from a pool of two
  linked lists, the live ones and the free ones, and are used again.  The theorem: two open descriptors
  never share a state, a state that is handed out again has no operation left in it, every state behaves
  as \<^verbatim>\<open>Reactor\<close> says for one descriptor, and the loops of the shutdown and of the destructor end and
  meet every state once.
\<close>

subsection \<open>The pool\<close>

text \<open>Objects are numbered in the order of their creation.  \<open>dp_states\<close>: the rest of each object.\<close>

record 'o descriptor_pool =
  dp_next :: nexts
  dp_prev :: nexts
  dp_live :: "nat option"
  dp_free :: "nat option"
  dp_created :: nat
  dp_shutdown :: bool
  dp_states :: "nat \<Rightarrow> 'o reactor"

definition new_object_pool :: "'o descriptor_pool" where
  "new_object_pool = \<lparr>dp_next = (\<lambda>_. None), dp_prev = (\<lambda>_. None), dp_live = None, dp_free = None, dp_created = 0,
     dp_shutdown = False, dp_states = (\<lambda>_. new_reactor)\<rparr>"

definition pool_first :: "'o descriptor_pool \<Rightarrow> nat option" where
  "pool_first p = dp_live p"

definition pool_alloc :: "'o descriptor_pool \<Rightarrow> nat \<times> 'o descriptor_pool" where
  "pool_alloc p =
     (let (x, p) = (case dp_free p of
                      Some x \<Rightarrow> (x, p\<lparr>dp_free := dp_next p x\<rparr>)
                    | None \<Rightarrow> (dp_created p, p\<lparr>dp_created := Suc (dp_created p)\<rparr>));
          p = p\<lparr>dp_next := (dp_next p)(x := dp_live p)\<rparr>;
          p = p\<lparr>dp_prev := (dp_prev p)(x := None)\<rparr>;
          p = (case dp_live p of Some l \<Rightarrow> p\<lparr>dp_prev := (dp_prev p)(l := Some x)\<rparr> | None \<Rightarrow> p)
      in (x, p\<lparr>dp_live := Some x\<rparr>))"

definition pool_free :: "nat \<Rightarrow> 'o descriptor_pool \<Rightarrow> 'o descriptor_pool" where
  "pool_free x p =
     (let p = (if dp_live p = Some x then p\<lparr>dp_live := dp_next p x\<rparr> else p);
          p = (case dp_prev p x of Some l \<Rightarrow> p\<lparr>dp_next := (dp_next p)(l := dp_next p x)\<rparr> | None \<Rightarrow> p);
          p = (case dp_next p x of Some n \<Rightarrow> p\<lparr>dp_prev := (dp_prev p)(n := dp_prev p x)\<rparr> | None \<Rightarrow> p);
          p = p\<lparr>dp_next := (dp_next p)(x := dp_free p)\<rparr>;
          p = p\<lparr>dp_prev := (dp_prev p)(x := None)\<rparr>
      in p\<lparr>dp_free := Some x\<rparr>)"

text \<open>\<open>destroy_list\<close> and the destructor; the result lists what they delete.\<close>

fun destroy_list :: "nat \<Rightarrow> nexts \<Rightarrow> nat option \<Rightarrow> nat list option" where
  "destroy_list fuel nx l =
     (case l of
        None \<Rightarrow> Some []
      | Some x \<Rightarrow> (case fuel of 0 \<Rightarrow> None | Suc fuel \<Rightarrow> map_option ((#) x) (destroy_list fuel nx (nx x))))"

declare destroy_list.simps [simp del]

definition destroy_pool :: "'o descriptor_pool \<Rightarrow> nat list option" where
  "destroy_pool p =
     (case destroy_list (dp_created p) (dp_next p) (dp_live p) of
        None \<Rightarrow> None
      | Some xs \<Rightarrow> map_option ((@) xs) (destroy_list (dp_created p) (dp_next p) (dp_free p)))"

subsection \<open>The reactor on top of it\<close>

definition set_state :: "nat \<Rightarrow> 'o reactor \<Rightarrow> 'o descriptor_pool \<Rightarrow> 'o descriptor_pool" where
  "set_state x r p = p\<lparr>dp_states := (dp_states p)(x := r)\<rparr>"

definition pooled_register :: "'o descriptor_pool \<Rightarrow> nat \<times> 'o descriptor_pool" where
  "pooled_register p = (let (x, p) = pool_alloc p in (x, set_state x (register_descriptor (dp_states p x)) p))"

definition pooled_deregister :: "nat \<Rightarrow> 'o descriptor_pool \<Rightarrow> 'o descriptor_pool" where
  "pooled_deregister x p =
     (let r = dp_states p x; p = set_state x (deregister_descriptor r) p
      in if \<not> rx_data r \<or> rx_shutdown r then p else pool_free x p)"

text \<open>The loop of \<open>shutdown_service\<close>; the fuel is the number of objects.\<close>

fun shutdown_loop :: "nat \<Rightarrow> 'o descriptor_pool \<Rightarrow> 'o descriptor_pool option" where
  "shutdown_loop fuel p =
     (case pool_first p of
        None \<Rightarrow> Some p
      | Some x \<Rightarrow> (case fuel of 0 \<Rightarrow> None
          | Suc fuel \<Rightarrow> shutdown_loop fuel (pool_free x (set_state x (shutdown_descriptor (dp_states p x)) p))))"

definition pooled_shutdown :: "'o descriptor_pool \<Rightarrow> 'o descriptor_pool option" where
  "pooled_shutdown p = shutdown_loop (dp_created p) (p\<lparr>dp_shutdown := True\<rparr>)"

text \<open>A descriptor is registered by an open reactor.  The other steps are those of \<^verbatim>\<open>Reactor\<close>, on any
  object.\<close>

datatype 'o dpool_event = PoolRegister | PoolDeregister nat | PoolShutdown | PoolStep nat "'o reactor_event"

fun dpool_step :: "'o dpool_event \<Rightarrow> 'o descriptor_pool \<Rightarrow> 'o descriptor_pool option" where
  "dpool_step PoolRegister p = Some (snd (pooled_register p))"
| "dpool_step (PoolDeregister x) p = Some (pooled_deregister x p)"
| "dpool_step PoolShutdown p = pooled_shutdown p"
| "dpool_step (PoolStep x ev) p = Some (set_state x (reactor_step ev (dp_states p x)) p)"

fun lifecycle :: "'o reactor_event \<Rightarrow> bool" where
  "lifecycle Register = True"
| "lifecycle Deregister = True"
| "lifecycle Shutdown = True"
| "lifecycle _ = False"

fun dpool_enabled :: "bool \<Rightarrow> 'o descriptor_pool \<Rightarrow> 'o dpool_event \<Rightarrow> bool" where
  "dpool_enabled ctl p PoolRegister = (\<not> dp_shutdown p)"
| "dpool_enabled ctl p (PoolStep x ev) = (\<not> lifecycle ev \<and> reactor_enabled (dp_states p x) ev \<and> (ctl \<longrightarrow> \<not> ctl_failed ev))"
| "dpool_enabled ctl p _ = True"

inductive dpool_reach :: "bool \<Rightarrow> 'o descriptor_pool \<Rightarrow> bool" for ctl where
  dp_new: "dpool_reach ctl new_object_pool"
| dp_step: "dpool_reach ctl p \<Longrightarrow> dpool_enabled ctl p ev \<Longrightarrow> dpool_step ev p = Some p' \<Longrightarrow> dpool_reach ctl p'"

subsection \<open>The lists the pool represents\<close>

fun prevs :: "nexts \<Rightarrow> nat option \<Rightarrow> nat list \<Rightarrow> bool" where
  "prevs pv q [] = True"
| "prevs pv q (x # xs) = (pv x = q \<and> prevs pv (Some x) xs)"

definition pool_holds :: "'o descriptor_pool \<Rightarrow> nat list \<Rightarrow> nat list \<Rightarrow> bool" where
  "pool_holds p live free \<longleftrightarrow> path (dp_next p) (dp_live p) live \<and> prevs (dp_prev p) None live
     \<and> path (dp_next p) (dp_free p) free \<and> distinct (live @ free) \<and> set (live @ free) = {..<dp_created p}"

lemma prevs_upd [simp]: "h \<notin> set xs \<Longrightarrow> prevs (pv(h := y)) q xs = prevs pv q xs"
  by (induction xs arbitrary: q) auto

lemma prevs_prev: "prevs pv q (xs @ x # ys) \<Longrightarrow> pv x = (if xs = [] then q else Some (List.last xs))"
  by (induction xs arbitrary: q) auto

lemma prevs_remove:
  "prevs pv q (xs @ x # ys) \<Longrightarrow> distinct (xs @ x # ys) \<Longrightarrow>
    prevs (case ys of [] \<Rightarrow> pv | n # _ \<Rightarrow> pv(n := pv x)) q (xs @ ys)"
proof (induction xs arbitrary: q)
  case Nil
  then show ?case by (cases ys) (auto simp del: fun_upd_apply simp: fun_upd_same fun_upd_other)
next
  case (Cons z xs)
  then show ?case by (cases ys) auto
qed

lemma alloc_fields:
  assumes "pool_alloc p = (x, p')" "path (dp_next p) (dp_free p) free"
  shows "x = (case free of [] \<Rightarrow> dp_created p | y # _ \<Rightarrow> y)" "dp_next p' = (dp_next p)(x := dp_live p)"
    "dp_prev p' = (case dp_live p of None \<Rightarrow> (dp_prev p)(x := None) | Some l \<Rightarrow> (dp_prev p)(x := None, l := Some x))"
    "dp_live p' = Some x" "dp_free p' = (case free of [] \<Rightarrow> None | y # _ \<Rightarrow> dp_next p y)"
    "dp_created p' = (if free = [] then Suc (dp_created p) else dp_created p)"
    "dp_states p' = dp_states p" "dp_shutdown p' = dp_shutdown p"
  using assms by (cases free; cases "dp_live p"; force simp: pool_alloc_def Let_def)+

lemma holds_alloc:
  assumes h: "pool_holds p live free" and a: "pool_alloc p = (x, p')"
  shows "x \<notin> set live" "pool_holds p' (x # live) (tl free)"
proof -
  have f: "path (dp_next p) (dp_free p) free" and l: "path (dp_next p) (dp_live p) live" and b: "prevs (dp_prev p) None live"
    and d: "distinct (live @ free)" and s: "set (live @ free) = {..<dp_created p}" using h unfolding pool_holds_def by blast+
  note fields = alloc_fields [OF a f]
  have x: "x \<notin> set live" "x \<notin> set (tl free)" using fields(1) d s by (cases free; auto)+
  then show "x \<notin> set live" by blast
  have "set (x # live @ tl free) = {..<dp_created p'}"
  proof (cases free)
    case Nil
    then show ?thesis using s fields(1,6) by (simp add: lessThan_Suc)
  next
    case (Cons y ys)
    then show ?thesis using s fields(1,6) by auto
  qed
  moreover have "distinct (x # live @ tl free)" using x d by (cases free) auto
  moreover have "prevs (dp_prev p') None (x # live)"
  proof (cases live)
    case Nil
    then show ?thesis using l by (simp add: fields(3))
  next
    case (Cons y ys)
    then show ?thesis using l b d x by (simp add: fields(3))
  qed
  moreover have "path (dp_next p') (dp_free p') (tl free)"
  proof (cases free)
    case Nil
    then show ?thesis by (simp add: fields(5))
  next
    case (Cons y ys)
    then show ?thesis using f x by (simp add: fields(2,5))
  qed
  moreover have "path (dp_next p') (dp_live p') (x # live)" using l x by (simp add: fields(2,4))
  ultimately show "pool_holds p' (x # live) (tl free)" by (simp add: pool_holds_def)
qed

lemma free_fields:
  assumes "dp_next p x \<noteq> Some x" "dp_prev p x \<noteq> Some x"
  shows "dp_next (pool_free x p) = (case dp_prev p x of None \<Rightarrow> dp_next p | Some l \<Rightarrow> (dp_next p)(l := dp_next p x))(x := dp_free p)"
    "dp_prev (pool_free x p) = (case dp_next p x of None \<Rightarrow> dp_prev p | Some n \<Rightarrow> (dp_prev p)(n := dp_prev p x))(x := None)"
    "dp_live (pool_free x p) = (if dp_live p = Some x then dp_next p x else dp_live p)" "dp_free (pool_free x p) = Some x"
    "dp_created (pool_free x p) = dp_created p" "dp_states (pool_free x p) = dp_states p" "dp_shutdown (pool_free x p) = dp_shutdown p"
  using assms by (auto simp: pool_free_def Let_def split: option.splits)

lemma holds_free:
  assumes h: "pool_holds p live free" and x: "x \<in> set live"
  shows "pool_holds (pool_free x p) (remove1 x live) (x # free)" "dp_created (pool_free x p) = dp_created p"
    "dp_states (pool_free x p) = dp_states p" "dp_shutdown (pool_free x p) = dp_shutdown p"
proof -
  have f: "path (dp_next p) (dp_free p) free" and l: "path (dp_next p) (dp_live p) live" and b: "prevs (dp_prev p) None live"
    and d: "distinct (live @ free)" and s: "set (live @ free) = {..<dp_created p}" using h unfolding pool_holds_def by blast+
  obtain xs ys where e: "live = xs @ x # ys" using x by (meson split_list)
  have dl: "distinct (xs @ x # ys)" using d unfolding e by (auto simp: Int_Un_distrib)
  have r: "remove1 x live = xs @ ys" using dl by (simp add: e remove1_append)
  have nx: "dp_next p x = (case ys of [] \<Rightarrow> None | y # _ \<Rightarrow> Some y)" using path_first [OF path_next [OF l [unfolded e]]] .
  have pv: "dp_prev p x = (if xs = [] then None else Some (List.last xs))" using prevs_prev [OF b [unfolded e]] .
  have lv: "dp_live p = Some x \<longleftrightarrow> xs = []" using path_first [OF l [unfolded e]] dl by (cases xs) auto
  have "dp_next p x \<noteq> Some x" "dp_prev p x \<noteq> Some x" using nx pv dl last_in_set [of xs] by (auto split: list.splits if_splits)
  note fields = free_fields [OF this]
  show "dp_created (pool_free x p) = dp_created p" "dp_states (pool_free x p) = dp_states p" "dp_shutdown (pool_free x p) = dp_shutdown p"
    by (fact fields)+
  have "set xs \<inter> set free = {}" using d unfolding e by (auto simp: Int_Un_distrib)
  then have out: "xs \<noteq> [] \<Longrightarrow> List.last xs \<notin> set free" using last_in_set by blast
  have out': "x \<notin> set (xs @ ys)" "x \<notin> set free" using d dl unfolding e by auto
  have "path (dp_next (pool_free x p)) (dp_live (pool_free x p)) (xs @ ys)"
    using path_remove [OF l [unfolded e] dl] out' lv by (simp add: fields pv split: if_splits)
  moreover have "prevs (dp_prev (pool_free x p)) None (xs @ ys)"
    using prevs_remove [OF b [unfolded e] dl] out' by (cases ys) (simp_all add: fields nx)
  moreover have "path (dp_next (pool_free x p)) (dp_free (pool_free x p)) (x # free)"
    using f out out' by (simp add: fields pv)
  moreover have "distinct ((xs @ ys) @ x # free)" using d unfolding e by (auto simp: Int_Un_distrib)
  moreover have "set ((xs @ ys) @ x # free) = {..<dp_created p}" using s unfolding e by auto
  ultimately show "pool_holds (pool_free x p) (remove1 x live) (x # free)"
    unfolding pool_holds_def r fields(5) by blast
qed

subsection \<open>The invariant\<close>

definition open_state :: "'o reactor \<Rightarrow> bool" where
  "open_state r \<longleftrightarrow> rx_data r \<and> \<not> rx_shutdown r"

definition dpool_inv :: "bool \<Rightarrow> 'o descriptor_pool \<Rightarrow> nat list \<Rightarrow> nat list \<Rightarrow> bool" where
  "dpool_inv ctl p live free \<longleftrightarrow> pool_holds p live free \<and> (\<forall>x. reactor_reach ctl (dp_states p x))
     \<and> (\<forall>x. open_state (dp_states p x) \<longleftrightarrow> x \<in> set live)
     \<and> (\<not> dp_shutdown p \<longrightarrow> (\<forall>x. x \<notin> set live \<longrightarrow> \<not> rx_data (dp_states p x)))"

lemma dpool_invD:
  assumes "dpool_inv ctl p live free"
  shows "pool_holds p live free" "reactor_reach ctl (dp_states p x)" "open_state (dp_states p x) \<longleftrightarrow> x \<in> set live"
    "\<not> dp_shutdown p \<Longrightarrow> x \<notin> set live \<Longrightarrow> \<not> rx_data (dp_states p x)"
  using assms by (simp_all add: dpool_inv_def)

lemma set_state_simps [simp]: "dp_next (set_state x r p) = dp_next p" "dp_prev (set_state x r p) = dp_prev p"
  "dp_live (set_state x r p) = dp_live p" "dp_free (set_state x r p) = dp_free p" "dp_created (set_state x r p) = dp_created p"
  "dp_shutdown (set_state x r p) = dp_shutdown p" "dp_states (set_state x r p) = (dp_states p)(x := r)"
  by (simp_all add: set_state_def)

lemma holds_set_state [simp]: "pool_holds (set_state x r p) live free = pool_holds p live free"
  by (simp add: pool_holds_def)

lemma open_register: "open_state (register_descriptor r)"
  by (simp add: open_state_def register_descriptor_def rearm_def)

lemma closed_deregister: "\<not> open_state (deregister_descriptor r)" "\<not> rx_data r \<or> rx_shutdown r \<Longrightarrow> deregister_descriptor r = r"
  "open_state r \<Longrightarrow> \<not> rx_data (deregister_descriptor r)"
  by (auto simp: open_state_def deregister_descriptor_def Let_def reactor_post_deferred_def finish_def)

lemma closed_shutdown: "\<not> open_state (shutdown_descriptor r)"
  by (auto simp: open_state_def shutdown_descriptor_def Let_def finish_def)

lemma step_keeps_open:
  assumes "\<not> lifecycle ev"
  shows "rx_data (reactor_step ev r) = rx_data r \<and> rx_shutdown (reactor_step ev r) = rx_shutdown r"
proof (cases ev)
  case (Start d spec ctl op)
  then show ?thesis
    by (auto simp: start_op_def start_now_def perform_def rearm_def reactor_post_immediate_def finish_def enqueue_op_def Let_def
        split: option.splits if_splits)
next
  case (RunDescriptor i)
  obtain ops s where s: "perform_io (rx_events r ! i) (r\<lparr>rx_events := take i (rx_events r) @ drop (Suc i) (rx_events r)\<rparr>) = (ops, s)"
    by (metis surj_pair)
  then show ?thesis using perform_io_moves [OF s] RunDescriptor
    by (auto simp: descriptor_complete_def reactor_post_deferred_def split: list.splits)
qed (use assms in \<open>auto simp: cancel_ops_def Let_def reactor_post_deferred_def finish_def kernel_change_def reactor_poll_def
    run_posted_def split: list.splits\<close>)

lemma inv_register:
  assumes i: "dpool_inv ctl p live free" and n: "\<not> dp_shutdown p" and r: "pooled_register p = (x, p')"
  shows "x \<notin> set live \<and> dpool_inv ctl p' (x # live) (tl free)"
proof -
  obtain q where a: "pool_alloc p = (x, q)" and p': "p' = set_state x (register_descriptor (dp_states q x)) q"
    by (cases "pool_alloc p") (use r in \<open>auto simp: pooled_register_def\<close>)
  note h = holds_alloc [OF dpool_invD(1) [OF i] a]
  have f: "dp_states q = dp_states p" "dp_shutdown q = dp_shutdown p"
    using dpool_invD(1) [OF i] alloc_fields [OF a] by (auto simp: pool_holds_def)
  have "reactor_reach ctl (register_descriptor (dp_states p x))"
    using rr_step [OF dpool_invD(2) [OF i], of x Register] dpool_invD(4) [OF i n h(1)] by simp
  then show ?thesis using h f n dpool_invD(2-4) [OF i] open_register by (simp add: p' dpool_inv_def)
qed

lemma inv_deregister:
  assumes i: "dpool_inv ctl p live free"
  shows "dpool_inv ctl (pooled_deregister x p) (remove1 x live) (if x \<in> set live then x # free else free)"
proof (cases "x \<in> set live")
  case True
  have o: "open_state (dp_states p x)" using True dpool_invD(3) [OF i] by simp
  have r: "reactor_reach ctl (deregister_descriptor (dp_states p x))"
    using rr_step [OF dpool_invD(2) [OF i], of x Deregister] by simp
  let ?q = "set_state x (deregister_descriptor (dp_states p x)) p"
  have e: "pooled_deregister x p = pool_free x ?q" using o by (simp add: pooled_deregister_def open_state_def)
  have "pool_holds ?q live free" using dpool_invD(1) [OF i] by simp
  note h = holds_free [OF this True]
  have d: "set (remove1 x live) = set live - {x}" using dpool_invD(1) [OF i] by (simp add: pool_holds_def)
  show ?thesis using True h r dpool_invD(2-4) [OF i] closed_deregister(1) closed_deregister(3) [OF o]
    by (simp add: e dpool_inv_def d)
next
  case False
  then have "\<not> open_state (dp_states p x)" using dpool_invD(3) [OF i] by simp
  then have c: "\<not> rx_data (dp_states p x) \<or> rx_shutdown (dp_states p x)" by (simp add: open_state_def)
  have "pooled_deregister x p = p" using c by (simp add: pooled_deregister_def closed_deregister(2) set_state_def)
  then show ?thesis using i False by (simp add: remove1_idem)
qed

lemma inv_shutdown_loop:
  "dpool_inv ctl p live free \<Longrightarrow> dp_shutdown p \<Longrightarrow> length live \<le> fuel \<Longrightarrow>
    \<exists>p'. shutdown_loop fuel p = Some p' \<and> dpool_inv ctl p' [] (rev live @ free) \<and> dp_shutdown p' \<and> dp_created p' = dp_created p"
proof (induction live arbitrary: p free fuel)
  case Nil
  then have "pool_first p = None" by (auto simp: dpool_inv_def pool_holds_def pool_first_def)
  then show ?case using Nil by simp
next
  case (Cons x live)
  note i = Cons.prems(1)
  obtain n where n: "fuel = Suc n" "length live \<le> n" using Cons.prems(3) by (cases fuel) auto
  let ?q = "set_state x (shutdown_descriptor (dp_states p x)) p"
  have h: "pool_holds ?q (x # live) free" using dpool_invD(1) [OF i] by simp
  note h = holds_free [OF h, of x, simplified]
  have r: "reactor_reach ctl (shutdown_descriptor (dp_states p x))"
    using rr_step [OF dpool_invD(2) [OF i], of x Shutdown] by simp
  have d: "x \<notin> set live" using dpool_invD(1) [OF i] by (simp add: pool_holds_def)
  have "dpool_inv ctl (pool_free x ?q) live (x # free)"
    using h r d dpool_invD(2,3) [OF i] closed_shutdown Cons.prems(2) by (auto simp: dpool_inv_def)
  moreover have "pool_first p = Some x" using dpool_invD(1) [OF i] by (simp add: pool_holds_def pool_first_def)
  ultimately show ?case using Cons.IH [of "pool_free x ?q" "x # free" n] n h Cons.prems(2) by simp
qed

lemma live_few: "pool_holds p live free \<Longrightarrow> length live \<le> dp_created p"
  by (metis (no_types, lifting) pool_holds_def distinct_card card_lessThan length_append le_add1)

lemma inv_dpool_step:
  assumes i: "dpool_inv ctl p live free" and e: "dpool_enabled ctl p ev"
  shows "\<exists>p' live free. dpool_step ev p = Some p' \<and> dpool_inv ctl p' live free"
proof (cases ev)
  case PoolRegister
  obtain x p' where "pooled_register p = (x, p')" by (cases "pooled_register p")
  then show ?thesis using inv_register [OF i] e PoolRegister by auto
next
  case (PoolDeregister x)
  then show ?thesis using inv_deregister [OF i] by auto
next
  case PoolShutdown
  have "dpool_inv ctl (p\<lparr>dp_shutdown := True\<rparr>) live free" using i by (simp add: dpool_inv_def pool_holds_def)
  then show ?thesis using inv_shutdown_loop [of ctl "p\<lparr>dp_shutdown := True\<rparr>" live free "dp_created p"]
    live_few [OF dpool_invD(1) [OF i]] PoolShutdown by (auto simp: pooled_shutdown_def)
next
  case (PoolStep x re)
  then have l: "\<not> lifecycle re" and "reactor_enabled (dp_states p x) re" "ctl \<longrightarrow> \<not> ctl_failed re" using e by simp_all
  then have "reactor_reach ctl (reactor_step re (dp_states p x))" using rr_step [OF dpool_invD(2) [OF i], of x re] by simp
  then have "dpool_inv ctl (set_state x (reactor_step re (dp_states p x)) p) live free"
    using i step_keeps_open [OF l, of "dp_states p x"] unfolding dpool_inv_def holds_set_state by (simp add: open_state_def)
  then show ?thesis using PoolStep by auto
qed

lemma dpool_inv_reach: "dpool_reach ctl p \<Longrightarrow> \<exists>live free. dpool_inv ctl p live free"
proof (induction rule: dpool_reach.induct)
  case dp_new
  have "dpool_inv ctl new_object_pool [] []"
    by (auto simp: dpool_inv_def pool_holds_def new_object_pool_def open_state_def new_reactor_def intro: reactor_reach.rr_new [unfolded new_reactor_def])
  then show ?case by blast
next
  case (dp_step p ev p')
  then show ?case using inv_dpool_step [of ctl p] by fastforce
qed

lemma destroy_list_path: "path nx l xs \<Longrightarrow> length xs \<le> fuel \<Longrightarrow> destroy_list fuel nx l = Some xs"
proof (induction xs arbitrary: l fuel)
  case (Cons x xs)
  then obtain n where "fuel = Suc n" "length xs \<le> n" by (cases fuel) auto
  then show ?case using Cons by (simp add: destroy_list.simps [of "Suc n"])
qed (simp add: destroy_list.simps)

lemma pool_destroyed:
  assumes h: "pool_holds p live free"
  shows "destroy_pool p = Some (live @ free)"
proof -
  have "length (live @ free) = dp_created p" using h by (metis (no_types, lifting) pool_holds_def distinct_card card_lessThan)
  then have "length live \<le> dp_created p" "length free \<le> dp_created p" by simp_all
  then have "destroy_list (dp_created p) (dp_next p) (dp_live p) = Some live" "destroy_list (dp_created p) (dp_next p) (dp_free p) = Some free"
    using h by (auto simp: pool_holds_def intro: destroy_list_path)
  then show ?thesis by (simp add: destroy_pool_def)
qed

subsection \<open>The theorem\<close>

text \<open>C14: The states of the descriptors are never mixed up.  Whatever sockets register, use and deregister
  descriptors, in any order, through shutdown: each state is in a state of the model of one descriptor,
  so what \<^verbatim>\<open>Reactor\<close> proves holds of it; the open ones are the live list of the pool; registering
  takes a state that no open descriptor has, with no operation left in its queues, and leaves the
  others alone; \<open>shutdown_service\<close> ends, with no state open and no operation queued; and the destructor
  deletes every object once.\<close>

theorem descriptor_states_owned:
  assumes r: "dpool_reach ctl p"
  shows "(\<forall>x. reactor_reach ctl (dp_states p x))
    \<and> (\<exists>live. path (dp_next p) (pool_first p) live \<and> distinct live \<and> set live = {x. open_state (dp_states p x)})
    \<and> (\<forall>x p'. \<not> dp_shutdown p \<longrightarrow> pooled_register p = (x, p') \<longrightarrow>
         \<not> open_state (dp_states p x) \<and> (\<forall>d. rx_queue (dp_states p x) d = []) \<and> open_state (dp_states p' x)
         \<and> (\<forall>y. y \<noteq> x \<longrightarrow> dp_states p' y = dp_states p y))
    \<and> (\<exists>p'. pooled_shutdown p = Some p' \<and> (\<forall>x d. \<not> open_state (dp_states p' x) \<and> rx_queue (dp_states p' x) d = []))
    \<and> (\<exists>xs. destroy_pool p = Some xs \<and> distinct xs \<and> set xs = {..<dp_created p})"
proof -
  obtain live free where i: "dpool_inv ctl p live free" using dpool_inv_reach [OF r] by blast
  note inv = dpool_invD [OF i]
  have h: "path (dp_next p) (pool_first p) live" "distinct (live @ free)" "set (live @ free) = {..<dp_created p}"
    using inv(1) by (simp_all add: pool_holds_def pool_first_def)
  have empty: "rx_queue s d = []" if "reactor_reach ctl s" "\<not> open_state s" for s :: "'a reactor" and d
    using books_reach [OF that(1)] that(2) by (simp add: books_def open_state_def)
  have live: "\<exists>live. path (dp_next p) (pool_first p) live \<and> distinct live \<and> set live = {x. open_state (dp_states p x)}"
    using h inv(3) by (intro exI [of _ live]) auto
  have del: "\<exists>xs. destroy_pool p = Some xs \<and> distinct xs \<and> set xs = {..<dp_created p}"
    using pool_destroyed [OF inv(1)] h by auto
  have reg: "\<not> open_state (dp_states p x) \<and> (\<forall>d. rx_queue (dp_states p x) d = []) \<and> open_state (dp_states p' x)
      \<and> (\<forall>y. y \<noteq> x \<longrightarrow> dp_states p' y = dp_states p y)" if s: "\<not> dp_shutdown p" and a: "pooled_register p = (x, p')" for x p'
  proof -
    have "x \<notin> set live" using inv_register [OF i s a] by blast
    then have c: "\<not> open_state (dp_states p x)" using inv(3) by simp
    have "\<forall>y. y \<noteq> x \<longrightarrow> dp_states p' y = dp_states p y" "open_state (dp_states p' x)"
      using a by (auto simp: pooled_register_def pool_alloc_def Let_def open_register split: option.splits)
    then show ?thesis using c empty [OF inv(2) c] by blast
  qed
  obtain p' where "pooled_shutdown p = Some p'" "dpool_inv ctl p' [] (rev live @ free)"
    using inv_shutdown_loop [of ctl "p\<lparr>dp_shutdown := True\<rparr>" live free "dp_created p"] i live_few [OF inv(1)]
    by (auto simp: pooled_shutdown_def dpool_inv_def pool_holds_def)
  moreover from this(2) have "\<not> open_state (dp_states p' y) \<and> rx_queue (dp_states p' y) d = []" for y d
    using empty [of "dp_states p' y" d] by (simp add: dpool_inv_def)
  ultimately have "\<exists>p'. pooled_shutdown p = Some p' \<and> (\<forall>x d. \<not> open_state (dp_states p' x) \<and> rx_queue (dp_states p' x) d = [])"
    by blast
  then show ?thesis using inv(2) live reg del by blast
qed

text \<open>Two descriptors are open, a read is started on the first, and the first is deregistered.\<close>

fun dpool_run :: "'o dpool_event list \<Rightarrow> 'o descriptor_pool \<Rightarrow> 'o descriptor_pool option" where
  "dpool_run [] p = Some p"
| "dpool_run (ev # evs) p = (if dpool_enabled True p ev then case dpool_step ev p of None \<Rightarrow> None | Some p \<Rightarrow> dpool_run evs p else None)"

lemma dpool_run_reach: "dpool_run evs p = Some p' \<Longrightarrow> dpool_reach True p \<Longrightarrow> dpool_reach True p'"
  by (induction evs p rule: dpool_run.induct) (auto split: if_splits option.splits intro: dpool_reach.dp_step)

definition demo_pool :: "nat descriptor_pool" where
  "demo_pool = the (dpool_run [PoolRegister, PoolRegister, PoolStep 0 (Start ReadOp True True 7), PoolDeregister 0] new_object_pool)"

lemmas demo_pool_simps = demo_pool_def new_object_pool_def pooled_register_def pooled_deregister_def pool_alloc_def pool_free_def pool_first_def
  set_state_def new_reactor_def register_descriptor_def deregister_descriptor_def start_op_def start_now_def enqueue_op_def perform_def
  take_all_def reactor_post_deferred_def finish_def rearm_def registered_def

lemma demo_dpool_reach: "dpool_reach True demo_pool"
proof -
  have "dpool_run [PoolRegister, PoolRegister, PoolStep 0 (Start ReadOp True True (7 :: nat)), PoolDeregister 0] new_object_pool \<noteq> None"
    by (simp add: demo_pool_simps)
  then have "dpool_run [PoolRegister, PoolRegister, PoolStep 0 (Start ReadOp True True (7 :: nat)), PoolDeregister 0] new_object_pool = Some demo_pool"
    unfolding demo_pool_def by (rule option.collapse [symmetric])
  then show ?thesis by (rule dpool_run_reach [OF _ dp_new])
qed

lemma descriptor_states_owned_witness:
  "\<exists>p'. pool_first demo_pool = Some 1 \<and> dp_free demo_pool = Some 0 \<and> pooled_register demo_pool = (0, p')
     \<and> rx_queue (dp_states demo_pool 0) ReadOp = []"
proof -
  have v: "pool_first demo_pool = Some 1" "dp_free demo_pool = Some 0" "fst (pooled_register demo_pool) = 0" "\<not> dp_shutdown demo_pool"
    by (simp_all add: demo_pool_simps)
  obtain p' where p': "pooled_register demo_pool = (0, p')" using v(3) by (metis prod.collapse)
  show ?thesis using descriptor_states_owned [OF demo_dpool_reach] v p' by auto
qed

end
