(* ===== verification/HandlerMemory.thy ===== *)
theory HandlerMemory
  imports Prelude
begin

text \<open>
  The memory of asio's handlers (\<^verbatim>\<open>deps/asio/1.10.6/include/asio/detail/thread_info_base.hpp\<close>,
  \<^verbatim>\<open>impl/handler_alloc_hook.ipp\<close>): every operation is allocated by \<open>allocate\<close>, and each thread keeps
  the last small block it freed to use it again.  The room of a block is kept in one byte of the block
  itself: behind the bytes that were asked for while it is in use, in front while it is kept.  Memory is
  a store of blocks, and an access outside a block or a second \<open>delete\<close> has no result.  The theorem:
  whatever the threads do, and whatever is written into the blocks, there is no such access, no block is
  in two hands, and none is lost.
\<close>

subsection \<open>Blocks\<close>

text \<open>\<open>hm_reusable\<close>: \<open>reusable_memory_\<close> of each thread.  \<open>hm_used\<close>: the blocks in use, with the size
  that was asked for.\<close>

record handler_memory =
  hm_blocks :: "nat \<Rightarrow> u8 list option"
  hm_next :: nat
  hm_reusable :: "nat \<Rightarrow> nat option"
  hm_used :: "(nat \<times> nat) list"

definition new_memory :: handler_memory where
  "new_memory = \<lparr>hm_blocks = (\<lambda>_. None), hm_next = 0, hm_reusable = (\<lambda>_. None), hm_used = []\<rparr>"

definition mem_read :: "nat \<Rightarrow> nat \<Rightarrow> handler_memory \<Rightarrow> u8 option" where
  "mem_read p i m = (case hm_blocks m p of None \<Rightarrow> None | Some b \<Rightarrow> if i < length b then Some (b ! i) else None)"

definition mem_write :: "nat \<Rightarrow> nat \<Rightarrow> u8 \<Rightarrow> handler_memory \<Rightarrow> handler_memory option" where
  "mem_write p i x m = (case hm_blocks m p of None \<Rightarrow> None
     | Some b \<Rightarrow> if i < length b then Some (m\<lparr>hm_blocks := (hm_blocks m)(p := Some (b[i := x]))\<rparr>) else None)"

definition op_delete :: "nat \<Rightarrow> handler_memory \<Rightarrow> handler_memory option" where
  "op_delete p m = (if hm_blocks m p = None then None else Some (m\<lparr>hm_blocks := (hm_blocks m)(p := None)\<rparr>))"

text \<open>\<open>operator new\<close>; the bytes are whatever they were.\<close>

definition op_new :: "nat \<Rightarrow> (nat \<Rightarrow> u8) \<Rightarrow> handler_memory \<Rightarrow> nat \<times> handler_memory" where
  "op_new n garbage m = (hm_next m, m\<lparr>hm_blocks := (hm_blocks m)(hm_next m := Some (map garbage [0..<n])), hm_next := Suc (hm_next m)\<rparr>)"

subsection \<open>allocate and deallocate\<close>

definition UCHAR_MAX :: nat where "UCHAR_MAX = 255"

definition allocate_new :: "nat \<Rightarrow> (nat \<Rightarrow> u8) \<Rightarrow> handler_memory \<Rightarrow> (nat \<times> handler_memory) option" where
  "allocate_new sz garbage m =
     (case op_new (sz + 1) garbage m of (p, m) \<Rightarrow>
        map_option (Pair p) (mem_write p sz (if sz \<le> UCHAR_MAX then of_nat sz else 0) m))"

definition allocate :: "nat option \<Rightarrow> nat \<Rightarrow> (nat \<Rightarrow> u8) \<Rightarrow> handler_memory \<Rightarrow> (nat \<times> handler_memory) option" where
  "allocate this_thread sz garbage m =
     (case this_thread of
        None \<Rightarrow> allocate_new sz garbage m
      | Some t \<Rightarrow>
          (case hm_reusable m t of
             None \<Rightarrow> allocate_new sz garbage m
           | Some p \<Rightarrow>
               let m = m\<lparr>hm_reusable := (hm_reusable m)(t := None)\<rparr>
               in case mem_read p 0 m of
                    None \<Rightarrow> None
                  | Some c \<Rightarrow>
                      if unat c \<ge> sz then map_option (Pair p) (mem_write p sz c m)
                      else case op_delete p m of None \<Rightarrow> None | Some m \<Rightarrow> allocate_new sz garbage m))"

definition deallocate :: "nat option \<Rightarrow> nat \<Rightarrow> nat \<Rightarrow> handler_memory \<Rightarrow> handler_memory option" where
  "deallocate this_thread p sz m =
     (case this_thread of
        None \<Rightarrow> op_delete p m
      | Some t \<Rightarrow>
          if sz \<le> UCHAR_MAX \<and> hm_reusable m t = None
          then case mem_read p sz m of
                 None \<Rightarrow> None
               | Some c \<Rightarrow> map_option (\<lambda>m. m\<lparr>hm_reusable := (hm_reusable m)(t := Some p)\<rparr>) (mem_write p 0 c m)
          else op_delete p m)"

text \<open>The destructor, when the thread leaves \<open>run\<close>.\<close>

definition thread_gone :: "nat \<Rightarrow> handler_memory \<Rightarrow> handler_memory option" where
  "thread_gone t m =
     (case hm_reusable m t of None \<Rightarrow> Some m
      | Some p \<Rightarrow> map_option (\<lambda>m. m\<lparr>hm_reusable := (hm_reusable m)(t := None)\<rparr>) (op_delete p m))"

subsection \<open>Runs\<close>

text \<open>An operation is allocated, constructed and used within the bytes it asked for, and freed with
  the same size, by any thread.\<close>

datatype memory_event = Allocate "nat option" nat "nat \<Rightarrow> u8" | Use nat nat nat u8 | Deallocate "nat option" nat nat | ThreadGone nat

fun memory_step :: "memory_event \<Rightarrow> handler_memory \<Rightarrow> handler_memory option" where
  "memory_step (Allocate t sz g) m = map_option (\<lambda>(p, m). m\<lparr>hm_used := (p, sz) # hm_used m\<rparr>) (allocate t sz g m)"
| "memory_step (Use p sz i x) m = mem_write p i x m"
| "memory_step (Deallocate t p sz) m = map_option (\<lambda>m. m\<lparr>hm_used := remove1 (p, sz) (hm_used m)\<rparr>) (deallocate t p sz m)"
| "memory_step (ThreadGone t) m = thread_gone t m"

fun memory_enabled :: "handler_memory \<Rightarrow> memory_event \<Rightarrow> bool" where
  "memory_enabled m (Use p sz i x) = ((p, sz) \<in> set (hm_used m) \<and> i < sz)"
| "memory_enabled m (Deallocate t p sz) = ((p, sz) \<in> set (hm_used m))"
| "memory_enabled m _ = True"

inductive memory_reach :: "handler_memory \<Rightarrow> bool" where
  hm_new: "memory_reach new_memory"
| hm_step: "memory_reach m \<Longrightarrow> memory_enabled m ev \<Longrightarrow> memory_step ev m = Some m' \<Longrightarrow> memory_reach m'"

fun memory_run :: "memory_event list \<Rightarrow> handler_memory \<Rightarrow> handler_memory option" where
  "memory_run [] m = Some m"
| "memory_run (ev # evs) m =
     (if memory_enabled m ev then case memory_step ev m of None \<Rightarrow> None | Some m \<Rightarrow> memory_run evs m else None)"

lemma memory_reach_run: "memory_run evs m = Some m' \<Longrightarrow> memory_reach m \<Longrightarrow> memory_reach m'"
  by (induction evs m rule: memory_run.induct) (auto split: if_splits option.splits intro: memory_reach.hm_step)

subsection \<open>The invariant\<close>

text \<open>The byte behind a small block in use, and the first byte of a block that is kept, give no more
  room than the block has.\<close>

definition used_ok :: "handler_memory \<Rightarrow> nat \<Rightarrow> nat \<Rightarrow> bool" where
  "used_ok m p sz \<longleftrightarrow> (\<exists>b. hm_blocks m p = Some b \<and> sz < length b \<and> (sz \<le> UCHAR_MAX \<longrightarrow> unat (b ! sz) < length b))"

definition kept_ok :: "handler_memory \<Rightarrow> nat \<Rightarrow> bool" where
  "kept_ok m p \<longleftrightarrow> (\<exists>b. hm_blocks m p = Some b \<and> b \<noteq> [] \<and> unat (b ! 0) < length b)"

definition memory_inv :: "handler_memory \<Rightarrow> bool" where
  "memory_inv m \<longleftrightarrow> distinct (map fst (hm_used m))
     \<and> (\<forall>p sz. (p, sz) \<in> set (hm_used m) \<longrightarrow> used_ok m p sz)
     \<and> (\<forall>t p. hm_reusable m t = Some p \<longrightarrow> kept_ok m p)
     \<and> (\<forall>t p sz. hm_reusable m t = Some p \<longrightarrow> (p, sz) \<notin> set (hm_used m))
     \<and> (\<forall>t p u. hm_reusable m t = Some p \<longrightarrow> hm_reusable m u = Some p \<longrightarrow> t = u)
     \<and> (\<forall>p b. hm_blocks m p = Some b \<longrightarrow> p < hm_next m)
     \<and> (\<forall>p b. hm_blocks m p = Some b \<longrightarrow> (\<exists>sz. (p, sz) \<in> set (hm_used m)) \<or> (\<exists>t. hm_reusable m t = Some p))"

lemma memory_invD:
  assumes "memory_inv m"
  shows "distinct (map fst (hm_used m))" "(p, sz) \<in> set (hm_used m) \<Longrightarrow> used_ok m p sz"
    "hm_reusable m t = Some p \<Longrightarrow> kept_ok m p" "hm_reusable m t = Some p \<Longrightarrow> (p, sz) \<notin> set (hm_used m)"
    "hm_reusable m t = Some p \<Longrightarrow> hm_reusable m u = Some p \<Longrightarrow> t = u"
    "hm_blocks m p = Some b \<Longrightarrow> p < hm_next m"
    "hm_blocks m p = Some b \<Longrightarrow> (\<exists>sz. (p, sz) \<in> set (hm_used m)) \<or> (\<exists>t. hm_reusable m t = Some p)"
  by (use assms [unfolded memory_inv_def] in \<open>elim conjE; iprover\<close>)+

lemma memory_invI:
  assumes "distinct (map fst (hm_used m))" "\<And>p sz. (p, sz) \<in> set (hm_used m) \<Longrightarrow> used_ok m p sz"
    "\<And>t p. hm_reusable m t = Some p \<Longrightarrow> kept_ok m p" "\<And>t p sz. hm_reusable m t = Some p \<Longrightarrow> (p, sz) \<notin> set (hm_used m)"
    "\<And>t p u. hm_reusable m t = Some p \<Longrightarrow> hm_reusable m u = Some p \<Longrightarrow> t = u"
    "\<And>p b. hm_blocks m p = Some b \<Longrightarrow> p < hm_next m"
    "\<And>p b. hm_blocks m p = Some b \<Longrightarrow> (\<exists>sz. (p, sz) \<in> set (hm_used m)) \<or> (\<exists>t. hm_reusable m t = Some p)"
  shows "memory_inv m"
  unfolding memory_inv_def using assms by iprover

lemma used_once: "distinct (map fst xs) \<Longrightarrow> (p, a) \<in> set xs \<Longrightarrow> (p, b) \<in> set xs \<Longrightarrow> a = b"
  by (metis eq_key_imp_eq_value)

lemma remove_used:
  assumes "distinct (map fst xs)" "(p, sz) \<in> set xs"
  shows "set (remove1 (p, sz) xs) = {x \<in> set xs. fst x \<noteq> p}" "distinct (map fst (remove1 (p, sz) xs))"
proof -
  have d: "distinct xs" using assms(1) by (simp add: distinct_map)
  show "set (remove1 (p, sz) xs) = {x \<in> set xs. fst x \<noteq> p}"
    unfolding set_remove1_eq [OF d] using assms(2) by (auto dest: used_once [OF assms(1)])
  show "distinct (map fst (remove1 (p, sz) xs))"
    using assms(1) by (simp add: distinct_map inj_on_def set_remove1_eq [OF d])
qed

definition new_block :: "nat \<Rightarrow> (nat \<Rightarrow> u8) \<Rightarrow> u8 list" where
  "new_block sz g = (map g [0..<sz + 1])[sz := if sz \<le> UCHAR_MAX then of_nat sz else 0]"

lemma allocate_new_eq: "allocate_new sz g m =
    Some (hm_next m, m\<lparr>hm_blocks := (hm_blocks m)(hm_next m \<mapsto> new_block sz g), hm_next := Suc (hm_next m)\<rparr>)"
  by (simp add: allocate_new_def op_new_def mem_write_def new_block_def)

lemma new_block_ok: "length (new_block sz g) = sz + 1" "sz \<le> UCHAR_MAX \<Longrightarrow> unat (new_block sz g ! sz) = sz"
proof -
  show "length (new_block sz g) = sz + 1" by (simp add: new_block_def)
  show "unat (new_block sz g ! sz) = sz" if "sz \<le> UCHAR_MAX"
    using that by (simp add: new_block_def UCHAR_MAX_def unat_of_nat take_bit_nat_eq_self del: upt_Suc)
qed

lemma inv_new:
  assumes i: "memory_inv m"
  shows "memory_inv (m\<lparr>hm_blocks := (hm_blocks m)(hm_next m \<mapsto> new_block sz g), hm_next := Suc (hm_next m), hm_used := (hm_next m, sz) # hm_used m\<rparr>)"
proof -
  note inv = memory_invD [OF i]
  have u: "(hm_next m, k) \<notin> set (hm_used m)" for k using inv(2) inv(6) by (fastforce simp: used_ok_def)
  have r: "hm_reusable m t \<noteq> Some (hm_next m)" for t using inv(3) inv(6) by (fastforce simp: kept_ok_def)
  show ?thesis
  proof (rule memory_invI, goal_cases)
    case 1
    show ?case using inv(1) u by force
  next
    case (2 p k)
    then show ?case using inv(2) [of p k] u [of k] new_block_ok [of sz g] by (auto simp: used_ok_def)
  next
    case (3 t p)
    then show ?case using inv(3) [of t p] r [of t] by (auto simp: kept_ok_def)
  next
    case (4 t p k)
    then show ?case using inv(4) [of t p k] r [of t] by auto
  next
    case (5 t p u)
    then show ?case using inv(5) by simp
  next
    case (6 p b)
    then show ?case using inv(6) [of p] by (auto split: if_splits)
  next
    case (7 p b)
    then show ?case using inv(7) [of p] by (auto split: if_splits)
  qed
qed

lemma kept_elsewhere:
  assumes "(\<exists>sz. (q, sz) \<in> set us) \<or> (\<exists>u. r u = Some q)" "r t = Some p" "q \<noteq> p"
  shows "(\<exists>sz. (q, sz) \<in> set us) \<or> (\<exists>u. (r(t := None)) u = Some q)"
  using assms by (metis fun_upd_other option.inject)

text \<open>A kept block is taken back: deleted, or handed out.\<close>

lemma inv_dropped:
  assumes i: "memory_inv m" and t: "hm_reusable m t = Some p"
  shows "memory_inv (m\<lparr>hm_reusable := (hm_reusable m)(t := None), hm_blocks := (hm_blocks m)(p := None)\<rparr>)"
proof -
  note inv = memory_invD [OF i]
  show ?thesis
  proof (rule memory_invI, goal_cases)
    case (2 q k)
    then show ?case using inv(2) [of q k] inv(4) [OF t, of k] by (auto simp: used_ok_def)
  next
    case (3 u q)
    then show ?case using inv(3) [of u q] inv(5) [OF t, of u] by (auto simp: kept_ok_def split: if_splits)
  next
    case (7 q b)
    then have "q \<noteq> p" "hm_blocks m q = Some b" by (auto split: if_splits)
    then show ?case using kept_elsewhere [OF inv(7) [of q b] t] by (simp del: fun_upd_apply)
  qed (use inv in \<open>auto split: if_splits\<close>)
qed

lemma inv_reused:
  assumes i: "memory_inv m" and t: "hm_reusable m t = Some p" and b: "hm_blocks m p = Some b" and c: "sz \<le> unat (b ! 0)"
  shows "memory_inv (m\<lparr>hm_reusable := (hm_reusable m)(t := None), hm_blocks := (hm_blocks m)(p \<mapsto> b[sz := b ! 0]), hm_used := (p, sz) # hm_used m\<rparr>)"
proof -
  note inv = memory_invD [OF i]
  have k: "unat (b ! 0) < length b" using inv(3) [OF t] b by (simp add: kept_ok_def)
  show ?thesis
  proof (rule memory_invI, goal_cases)
    case 1
    show ?case using inv(1) inv(4) [OF t] by force
  next
    case (2 q n)
    then show ?case using inv(2) [of q n] inv(4) [OF t, of n] k c by (auto simp: used_ok_def)
  next
    case (3 u q)
    then show ?case using inv(3) [of u q] inv(5) [OF t, of u] by (auto simp: kept_ok_def split: if_splits)
  next
    case (4 u q n)
    then show ?case using inv(4) [of u q n] inv(5) [OF t, of u] by (auto split: if_splits)
  next
    case (6 q x)
    then show ?case using inv(6) [of q] inv(6) [OF b] by (auto split: if_splits)
  next
    case (7 q x)
    then show ?case
    proof (cases "q = p")
      case False
      then have "hm_blocks m q = Some x" using 7 by simp
      then show ?thesis using False kept_elsewhere [OF inv(7) [of q x] t] by (auto simp del: fun_upd_apply)
    qed auto
  qed (use inv in \<open>auto split: if_splits\<close>)
qed

text \<open>A block in use is freed, or kept.\<close>

lemma inv_freed:
  assumes i: "memory_inv m" and u: "(p, sz) \<in> set (hm_used m)"
  shows "memory_inv (m\<lparr>hm_blocks := (hm_blocks m)(p := None), hm_used := remove1 (p, sz) (hm_used m)\<rparr>)"
proof -
  note inv = memory_invD [OF i]
  note rem = remove_used [OF inv(1) u]
  have r: "hm_reusable m t \<noteq> Some p" for t using inv(4) [of t p sz] u by blast
  show ?thesis
  proof (rule memory_invI, goal_cases)
    case 1
    show ?case using rem by simp
  next
    case (2 q k)
    then show ?case using inv(2) [of q k] by (simp add: rem used_ok_def)
  next
    case (3 t q)
    then show ?case using inv(3) [of t q] r [of t] by (auto simp: kept_ok_def)
  next
    case (4 t q k)
    then show ?case using inv(4) [of t q k] by (simp add: rem)
  next
    case (5 t q u)
    then show ?case using inv(5) by simp
  next
    case (6 q b)
    then show ?case using inv(6) [of q b] by (auto split: if_splits)
  next
    case (7 q b)
    then show ?case using inv(7) [of q b] by (auto simp: rem split: if_splits)
  qed
qed

lemma inv_kept:
  assumes i: "memory_inv m" and u: "(p, sz) \<in> set (hm_used m)" and t: "hm_reusable m t = None"
    and b: "hm_blocks m p = Some b" and s: "sz \<le> UCHAR_MAX"
  shows "memory_inv (m\<lparr>hm_blocks := (hm_blocks m)(p \<mapsto> b[0 := b ! sz]), hm_reusable := (hm_reusable m)(t \<mapsto> p), hm_used := remove1 (p, sz) (hm_used m)\<rparr>)"
proof -
  note inv = memory_invD [OF i]
  note rem = remove_used [OF inv(1) u]
  have r: "hm_reusable m t \<noteq> Some p" for t using inv(4) [of t p sz] u by blast
  have k: "b \<noteq> []" "unat (b ! sz) < length b" using inv(2) [OF u] b s by (auto simp: used_ok_def)
  show ?thesis
  proof (rule memory_invI, goal_cases)
    case 1
    show ?case using rem by simp
  next
    case (2 q n)
    then show ?case using inv(2) [of q n] by (simp add: rem used_ok_def)
  next
    case (3 v q)
    then show ?case using inv(3) [of v q] r [of v] k by (auto simp: kept_ok_def split: if_splits)
  next
    case (4 v q n)
    then show ?case using inv(4) [of v q n] by (auto simp: rem split: if_splits)
  next
    case (5 v q w)
    then show ?case using inv(5) [of v q w] r by (auto split: if_splits)
  next
    case (6 q x)
    then show ?case using inv(6) [of q] b by (auto split: if_splits)
  next
    case (7 q x)
    show ?case
    proof (cases "q = p")
      case True
      then show ?thesis by auto
    next
      case False
      then have "(\<exists>n. (q, n) \<in> set (hm_used m)) \<or> (\<exists>v. hm_reusable m v = Some q)"
        using inv(7) [of q x] 7 by simp
      then show ?thesis using False t by (simp add: rem) (metis option.distinct(1))
    qed
  qed
qed

lemma inv_written:
  assumes i: "memory_inv m" and u: "(p, sz) \<in> set (hm_used m)" and b: "hm_blocks m p = Some b" and j: "j < sz"
  shows "memory_inv (m\<lparr>hm_blocks := (hm_blocks m)(p \<mapsto> b[j := x])\<rparr>)"
proof -
  note inv = memory_invD [OF i]
  have r: "hm_reusable m t \<noteq> Some p" for t using inv(4) [of t p sz] u by blast
  show ?thesis
  proof (rule memory_invI, goal_cases)
    case (2 q k)
    then show ?case using inv(2) [of q k] used_once [OF inv(1) u, of k] b j by (auto simp: used_ok_def)
  next
    case (3 t q)
    then show ?case using inv(3) [of t q] r [of t] by (auto simp: kept_ok_def)
  next
    case (6 q y)
    then show ?case using inv(6) [of q] b by (auto split: if_splits)
  next
    case (7 q y)
    then show ?case using inv(7) [of q] b by (auto split: if_splits)
  qed (use inv in simp_all)
qed

subsection \<open>Every step\<close>

lemma allocate_ok:
  assumes i: "memory_inv m"
  shows "\<exists>p m'. allocate th sz g m = Some (p, m') \<and> memory_inv (m'\<lparr>hm_used := (p, sz) # hm_used m'\<rparr>)"
proof -
  have new: "\<exists>p m'. allocate_new sz g n = Some (p, m') \<and> memory_inv (m'\<lparr>hm_used := (p, sz) # hm_used m'\<rparr>)" if "memory_inv n" for n
    using inv_new [OF that, of sz g] by (simp add: allocate_new_eq)
  show ?thesis
  proof (cases "\<exists>t p. th = Some t \<and> hm_reusable m t = Some p")
    case True
    then obtain t p where t: "th = Some t" "hm_reusable m t = Some p" by blast
    obtain b where b: "hm_blocks m p = Some b" "b \<noteq> []" "unat (b ! 0) < length b"
      using memory_invD(3) [OF i t(2)] by (auto simp: kept_ok_def)
    show ?thesis
    proof (cases "sz \<le> unat (b ! 0)")
      case True
      show ?thesis using inv_reused [OF i t(2) b(1) True] True b t
        by (simp add: allocate_def mem_read_def mem_write_def)
    next
      case False
      show ?thesis using new [OF inv_dropped [OF i t(2)]] False b t
        by (simp add: allocate_def mem_read_def op_delete_def)
    qed
  next
    case False
    then have "allocate th sz g m = allocate_new sz g m" by (auto simp: allocate_def split: option.splits)
    then show ?thesis using new [OF i] by simp
  qed
qed

lemma deallocate_ok:
  assumes i: "memory_inv m" and u: "(p, sz) \<in> set (hm_used m)"
  shows "\<exists>m'. deallocate th p sz m = Some m' \<and> memory_inv (m'\<lparr>hm_used := remove1 (p, sz) (hm_used m')\<rparr>)"
proof -
  obtain b where b: "hm_blocks m p = Some b" "sz < length b"
    using memory_invD(2) [OF i u] by (auto simp: used_ok_def)
  show ?thesis
  proof (cases "\<exists>t. th = Some t \<and> sz \<le> UCHAR_MAX \<and> hm_reusable m t = None")
    case True
    then obtain t where t: "th = Some t" "sz \<le> UCHAR_MAX" "hm_reusable m t = None" by blast
    have "b \<noteq> []" using b(2) by auto
    then show ?thesis using inv_kept [OF i u t(3) b(1) t(2)] t b
      by (simp add: deallocate_def mem_read_def mem_write_def)
  next
    case False
    then have "deallocate th p sz m = op_delete p m" by (auto simp: deallocate_def split: option.splits)
    then show ?thesis using inv_freed [OF i u] b by (simp add: op_delete_def)
  qed
qed

lemma memory_step_ok:
  assumes i: "memory_inv m" and e: "memory_enabled m ev"
  shows "\<exists>m'. memory_step ev m = Some m' \<and> memory_inv m'"
proof (cases ev)
  case (Allocate th sz g)
  show ?thesis using allocate_ok [OF i, of th sz g] Allocate by auto
next
  case (Use p sz j x)
  then have u: "(p, sz) \<in> set (hm_used m)" "j < sz" using e by simp_all
  obtain b where b: "hm_blocks m p = Some b" "sz < length b"
    using memory_invD(2) [OF i u(1)] by (auto simp: used_ok_def)
  show ?thesis using inv_written [OF i u(1) b(1) u(2), of x] b u Use by (simp add: mem_write_def)
next
  case (Deallocate th p sz)
  show ?thesis using deallocate_ok [OF i, of p sz th] e Deallocate by auto
next
  case (ThreadGone t)
  show ?thesis
  proof (cases "hm_reusable m t")
    case None
    then show ?thesis using i ThreadGone by (simp add: thread_gone_def)
  next
    case (Some p)
    obtain b where "hm_blocks m p = Some b" using memory_invD(3) [OF i Some] by (auto simp: kept_ok_def)
    have "memory_inv (m\<lparr>hm_blocks := (hm_blocks m)(p := None), hm_reusable := (hm_reusable m)(t := None)\<rparr>)"
      by (rule back_subst [of memory_inv, OF inv_dropped [OF i Some]]) simp
    with \<open>hm_blocks m p = Some b\<close> show ?thesis using Some ThreadGone
      by (simp add: thread_gone_def op_delete_def)
  qed
qed

lemma memory_reach_inv: "memory_reach m \<Longrightarrow> memory_inv m"
proof (induction rule: memory_reach.induct)
  case hm_new
  show ?case by (rule memory_invI) (simp_all add: new_memory_def)
next
  case (hm_step m ev m')
  then show ?case using memory_step_ok [of m ev] by auto
qed

text \<open>C35: The memory of the handlers is never misused.  Whatever operations the threads of asio
  allocate (\<open>thread_info_base::allocate\<close>), fill with bytes, and free (\<open>deallocate\<close>), from any thread,
  with any size, and whenever a thread leaves: no read or write is outside its block and no block is
  deleted twice (each step has a result), the blocks in use are pairwise different and long enough for
  what was asked for, a block that a thread keeps is not in use and is kept by one thread only, and every
  block that exists is in use or kept, so none is lost.\<close>

theorem handler_memory_safe:
  assumes r: "memory_reach m" and e: "memory_enabled m ev"
  shows "(\<exists>m'. memory_step ev m = Some m') \<and> distinct (map fst (hm_used m))
    \<and> (\<forall>p sz. (p, sz) \<in> set (hm_used m) \<longrightarrow> (\<exists>b. hm_blocks m p = Some b \<and> sz < length b))
    \<and> (\<forall>t p sz. hm_reusable m t = Some p \<longrightarrow> (p, sz) \<notin> set (hm_used m))
    \<and> (\<forall>t v p. hm_reusable m t = Some p \<longrightarrow> hm_reusable m v = Some p \<longrightarrow> t = v)
    \<and> (\<forall>p b. hm_blocks m p = Some b \<longrightarrow> (\<exists>sz. (p, sz) \<in> set (hm_used m)) \<or> (\<exists>t. hm_reusable m t = Some p))"
proof -
  note i = memory_reach_inv [OF r]
  note inv = memory_invD [OF i]
  have "\<exists>m'. memory_step ev m = Some m'" using memory_step_ok [OF i e] by blast
  moreover have "\<forall>p sz. (p, sz) \<in> set (hm_used m) \<longrightarrow> (\<exists>b. hm_blocks m p = Some b \<and> sz < length b)"
    using inv(2) unfolding used_ok_def by blast
  moreover have "\<forall>p b. hm_blocks m p = Some b \<longrightarrow> (\<exists>sz. (p, sz) \<in> set (hm_used m)) \<or> (\<exists>t. hm_reusable m t = Some p)"
    using inv(7) by blast
  ultimately show ?thesis using inv(1,4,5) by blast
qed

text \<open>Thread \<open>0\<close> frees a block of three bytes and is given it again for two; it frees it again.\<close>

lemma handler_memory_safe_witness:
  "\<exists>m m'. memory_run [Allocate (Some 0) 3 (\<lambda>_. 9), Use 0 3 1 7, Deallocate (Some 0) 0 3, Allocate (Some 0) 2 (\<lambda>_. 9)] new_memory = Some m
     \<and> hm_used m = [(0, 2)] \<and> hm_blocks m 0 = Some [3, 7, 3, 3] \<and> memory_step (Deallocate (Some 0) 0 2) m = Some m'"
proof -
  let ?evs = "[Allocate (Some 0) 3 (\<lambda>_. 9), Use 0 3 1 7, Deallocate (Some 0) 0 3, Allocate (Some 0) 2 (\<lambda>_. 9)]"
  obtain m where m: "memory_run ?evs new_memory = Some m" "hm_used m = [(0, 2)]" "hm_blocks m 0 = Some [3, 7, 3, 3]"
    by (simp add: new_memory_def allocate_def deallocate_def allocate_new_def op_new_def mem_read_def mem_write_def UCHAR_MAX_def upt_rec)
  have "\<exists>m'. memory_step (Deallocate (Some 0) 0 2) m = Some m'"
    using handler_memory_safe [OF memory_reach_run [OF m(1) hm_new], of "Deallocate (Some 0) 0 2"] by (simp add: m(2))
  then show ?thesis using m by blast
qed

end
