(* ===== verification/Buffers.thy ===== *)
theory Buffers
  imports Prelude
begin

text \<open>
  The buffers of asio (\<^verbatim>\<open>deps/asio/1.10.6/include/asio/buffer.hpp\<close>): a buffer is a region of
  memory, a buffer sequence a list of regions.  \<open>addrs\<close> flattens a sequence to the addresses of its
  bytes; the lemmas show that the arithmetic on buffers and \<open>buffer_copy\<close> in all its forms are
  \<open>take\<close>, \<open>drop\<close> and a byte-wise copy on that list.
\<close>

subsection \<open>Buffers\<close>

record buffer =
  buffer_data :: nat
  buffer_len :: nat

definition null_buffer :: buffer where
  "null_buffer = \<lparr>buffer_data = 0, buffer_len = 0\<rparr>"

definition buffer_add :: "buffer \<Rightarrow> nat \<Rightarrow> buffer" where
  "buffer_add b start =
     (if start > buffer_len b then null_buffer
      else \<lparr>buffer_data = buffer_data b + start, buffer_len = buffer_len b - start\<rparr>)"

text \<open>\<open>buffer(b, max_size_in_bytes)\<close>.\<close>

definition buffer_limit :: "buffer \<Rightarrow> nat \<Rightarrow> buffer" where
  "buffer_limit b max_size =
     \<lparr>buffer_data = buffer_data b, buffer_len = (if buffer_len b < max_size then buffer_len b else max_size)\<rparr>"

definition buffer_size :: "buffer list \<Rightarrow> nat" where
  "buffer_size bs = foldl (\<lambda>total b. total + buffer_len b) 0 bs"

definition region :: "buffer \<Rightarrow> nat list" where
  "region b = [buffer_data b ..< buffer_data b + buffer_len b]"

definition addrs :: "buffer list \<Rightarrow> nat list" where
  "addrs bs = concat (map region bs)"

lemma length_region [simp]: "length (region b) = buffer_len b"
  by (simp add: region_def)

lemma region_empty [simp]: "region b = [] \<longleftrightarrow> buffer_len b = 0"
  by (auto simp: region_def)

lemma region_empty_eq [simp]: "[] = region b \<longleftrightarrow> buffer_len b = 0"
  by (metis region_empty)

lemma addrs_simps [simp]: "addrs [] = []" "addrs (b # bs) = region b @ addrs bs"
  by (simp_all add: addrs_def)

lemma region_add [simp]: "region (buffer_add b n) = drop n (region b)"
  by (simp add: region_def buffer_add_def null_buffer_def drop_upt)

lemma len_add [simp]: "buffer_len (buffer_add b n) = buffer_len b - n"
  by (simp add: buffer_add_def null_buffer_def)

lemma region_limit [simp]: "region (buffer_limit b n) = take n (region b)"
  by (simp add: region_def buffer_limit_def take_upt)

lemma len_limit [simp]: "buffer_len (buffer_limit b n) = min (buffer_len b) n"
  by (simp add: buffer_limit_def)

lemma buffer_size_addrs: "buffer_size bs = length (addrs bs)"
proof -
  have "foldl (\<lambda>total b. total + buffer_len b) n bs = n + length (addrs bs)" for n
    by (induction bs arbitrary: n) simp_all
  then show ?thesis by (simp add: buffer_size_def)
qed

subsection \<open>Copying\<close>

type_synonym memory = "nat \<Rightarrow> u8"

text \<open>\<open>memcpy\<close>, byte by byte from the front.\<close>

fun copy_bytes :: "nat list \<Rightarrow> nat list \<Rightarrow> memory \<Rightarrow> memory" where
  "copy_bytes (d # ds) (s # ss) m = copy_bytes ds ss (m(d := m s))"
| "copy_bytes _ _ m = m"

definition buffer_copy :: "buffer \<Rightarrow> buffer \<Rightarrow> memory \<Rightarrow> nat \<times> memory" where
  "buffer_copy target source m =
     (let n = (if buffer_len target < buffer_len source then buffer_len target else buffer_len source)
      in (n, copy_bytes [buffer_data target ..< buffer_data target + n] [buffer_data source ..< buffer_data source + n] m))"

text \<open>One target and a sequence of sources; a sequence of targets and one source.\<close>

fun buffer_copy_from :: "buffer \<Rightarrow> buffer list \<Rightarrow> memory \<Rightarrow> nat \<times> memory" where
  "buffer_copy_from target [] m = (0, m)"
| "buffer_copy_from target (source # rest) m =
     (if buffer_len target = 0 then (0, m)
      else let (n, m) = buffer_copy target source m;
               (k, m) = buffer_copy_from (buffer_add target n) rest m
           in (n + k, m))"

fun buffer_copy_to :: "buffer list \<Rightarrow> buffer \<Rightarrow> memory \<Rightarrow> nat \<times> memory" where
  "buffer_copy_to [] source m = (0, m)"
| "buffer_copy_to (target # rest) source m =
     (if buffer_len source = 0 then (0, m)
      else let (n, m) = buffer_copy target source m;
               (k, m) = buffer_copy_to rest (buffer_add source n) m
           in (n + k, m))"

text \<open>Two sequences, with the offsets into the buffers at their heads.  \<open>past n b bs off\<close>: where the
  iterator at \<open>b # bs\<close> and its offset are after \<open>n\<close> bytes.\<close>

definition past :: "nat \<Rightarrow> buffer \<Rightarrow> buffer list \<Rightarrow> nat \<Rightarrow> buffer list \<times> nat" where
  "past n b bs off = (if n = buffer_len (buffer_add b off) then (bs, 0) else (b # bs, off + n))"

function buffer_copy_seq :: "buffer list \<Rightarrow> nat \<Rightarrow> buffer list \<Rightarrow> nat \<Rightarrow> memory \<Rightarrow> nat \<times> memory" where
  "buffer_copy_seq (t # ts) t_off (s # ss) s_off m =
     (let target = buffer_add t t_off;
          source = buffer_add s s_off;
          (n, m) = buffer_copy target source m;
          (k, m) = buffer_copy_seq (fst (past n t ts t_off)) (snd (past n t ts t_off))
                     (fst (past n s ss s_off)) (snd (past n s ss s_off)) m
      in (n + k, m))"
| "buffer_copy_seq [] t_off ss s_off m = (0, m)"
| "buffer_copy_seq (t # ts) t_off [] s_off m = (0, m)"
  by pat_completeness auto
termination
  by (relation "measure (\<lambda>(ts, _, ss, _). length ts + length ss)")
    (auto simp: buffer_copy_def past_def Let_def split: if_splits)

lemma past_less:
  assumes "left \<noteq> 0" "n = min (min (buffer_len (buffer_add t t_off)) left) (buffer_len (buffer_add s s_off))"
  shows "length (fst (past n t ts t_off)) + length (fst (past n s ss s_off)) + (left - n) < length (t # ts) + length (s # ss) + left"
proof -
  consider "n = 0" "n = buffer_len (buffer_add t t_off)" | "n = 0" "n = buffer_len (buffer_add s s_off)" | "n \<noteq> 0"
    using assms by (fastforce simp: min_def split: if_splits)
  then show ?thesis by cases (use assms(1) in \<open>auto simp: past_def\<close>)
qed

lemma past_copied:
  assumes "left \<noteq> 0" "target = buffer_add t t_off" "source = buffer_add s s_off"
    "p = buffer_copy (buffer_limit target left) source m" "(n, m') = p"
  shows "((left - n, fst (past n t ts t_off), snd (past n t ts t_off), fst (past n s ss s_off), snd (past n s ss s_off), m'),
      left, t # ts, t_off, s # ss, s_off, m) \<in> measure (\<lambda>(left, ts, _, ss, _). length ts + length ss + left)"
proof -
  have "n = min (min (buffer_len target) left) (buffer_len source)"
    using assms(4,5) by (simp add: buffer_copy_def Let_def min_def)
  from past_less [OF assms(1) this [unfolded assms(2,3)]] show ?thesis by simp
qed

text \<open>The same with at most \<open>left\<close> bytes to copy (\<open>max_bytes_to_copy - total_bytes_copied\<close>).\<close>

function buffer_copy_max :: "nat \<Rightarrow> buffer list \<Rightarrow> nat \<Rightarrow> buffer list \<Rightarrow> nat \<Rightarrow> memory \<Rightarrow> nat \<times> memory" where
  "buffer_copy_max left (t # ts) t_off (s # ss) s_off m =
     (if left = 0 then (0, m)
      else let target = buffer_add t t_off;
               source = buffer_add s s_off;
               (n, m) = buffer_copy (buffer_limit target left) source m;
               (k, m) = buffer_copy_max (left - n) (fst (past n t ts t_off)) (snd (past n t ts t_off))
                          (fst (past n s ss s_off)) (snd (past n s ss s_off)) m
           in (n + k, m))"
| "buffer_copy_max left [] t_off ss s_off m = (0, m)"
| "buffer_copy_max left (t # ts) t_off [] s_off m = (0, m)"
  by pat_completeness auto
termination
  by (relation "measure (\<lambda>(left, ts, _, ss, _). length ts + length ss + left)", simp)
    (rule past_copied)

text \<open>Every form copies the flattened sequences, as far as the shorter one goes.\<close>

lemma copy_append: "length ds = length ss \<Longrightarrow> copy_bytes (ds @ ds') (ss @ ss') m = copy_bytes ds' ss' (copy_bytes ds ss m)"
  by (induction ds ss arbitrary: m rule: list_induct2) simp_all

lemma copy_min: "copy_bytes (take (min (length ds) (length ss)) ds) (take (min (length ds) (length ss)) ss) m = copy_bytes ds ss m"
  by (induction ds ss m rule: copy_bytes.induct) (simp_all add: fun_upd_def)

definition flat_copy :: "nat list \<Rightarrow> nat list \<Rightarrow> memory \<Rightarrow> nat \<times> memory" where
  "flat_copy ds ss m = (min (length ds) (length ss), copy_bytes ds ss m)"

lemma flat_empty [simp]: "flat_copy [] ss m = (0, m)" "flat_copy ds [] m = (0, m)"
  by (cases ds; simp add: flat_copy_def)+

lemma flat_split:
  assumes "n \<le> length ds" "n \<le> length ss"
  shows "flat_copy ds ss m =
     (case flat_copy (drop n ds) (drop n ss) (copy_bytes (take n ds) (take n ss) m) of (k, m) \<Rightarrow> (n + k, m))"
proof -
  have "copy_bytes ds ss m = copy_bytes (take n ds @ drop n ds) (take n ss @ drop n ss) m" by simp
  also have "\<dots> = copy_bytes (drop n ds) (drop n ss) (copy_bytes (take n ds) (take n ss) m)"
    by (rule copy_append) (use assms in simp)
  finally show ?thesis using assms by (auto simp: flat_copy_def min_def)
qed

lemma take_region: "n \<le> buffer_len b \<Longrightarrow> [buffer_data b ..< buffer_data b + n] = take n (region b)"
  by (simp add: region_def take_upt)

lemma buffer_copy_eq:
  "buffer_copy t s m = (let n = min (buffer_len t) (buffer_len s) in (n, copy_bytes (take n (region t)) (take n (region s)) m))"
  by (simp add: buffer_copy_def Let_def take_region min_def)

lemma buffer_copy_flat: "buffer_copy t s m = flat_copy (region t) (region s) m"
  using copy_min [of "region t" "region s"] by (simp add: buffer_copy_eq flat_copy_def Let_def)

lemma copy_step:
  assumes "n = min (buffer_len t) (buffer_len s)"
  shows "flat_copy (region t @ ds) (region s @ ss) m =
    (case flat_copy (drop n (region t) @ ds) (drop n (region s) @ ss) (copy_bytes (take n (region t)) (take n (region s)) m)
     of (k, m) \<Rightarrow> (n + k, m))"
  using flat_split [of n "region t @ ds" "region s @ ss" m] assms by simp

lemma buffer_copy_from_flat: "buffer_copy_from target ss m = flat_copy (region target) (addrs ss) m"
proof (induction target ss m rule: buffer_copy_from.induct)
  case (2 target source rest m)
  show ?case
  proof (cases "buffer_len target = 0")
    case False
    let ?n = "min (buffer_len target) (buffer_len source)"
    have "drop ?n (region source) = [] \<or> drop ?n (region target) = []" by (simp add: nat_le_linear)
    then have "flat_copy (drop ?n (region target)) (drop ?n (region source) @ addrs rest) m'
        = flat_copy (drop ?n (region target)) (addrs rest) m'" for m'
      by (elim disjE) (simp_all only: append_Nil flat_empty)
    then show ?thesis using 2 False copy_step [where t = target and s = source and ds = "[]" and ss = "addrs rest", OF refl]
      by (simp add: buffer_copy_eq Let_def)
  next
    case True
    then have "region target = []" by simp
    with True show ?thesis by (simp del: region_empty)
  qed
qed simp

lemma buffer_copy_to_flat: "buffer_copy_to ts source m = flat_copy (addrs ts) (region source) m"
proof (induction ts source m rule: buffer_copy_to.induct)
  case (2 target rest source m)
  show ?case
  proof (cases "buffer_len source = 0")
    case False
    let ?n = "min (buffer_len target) (buffer_len source)"
    have "drop ?n (region source) = [] \<or> drop ?n (region target) = []" by (simp add: nat_le_linear)
    then have "flat_copy (drop ?n (region target) @ addrs rest) (drop ?n (region source)) m'
        = flat_copy (addrs rest) (drop ?n (region source)) m'" for m'
      by (elim disjE) (simp_all only: append_Nil flat_empty)
    then show ?thesis using 2 False copy_step [where t = target and s = source and ds = "addrs rest" and ss = "[]", OF refl]
      by (simp add: buffer_copy_eq Let_def)
  next
    case True
    then have "region source = []" by simp
    with True show ?thesis by (simp del: region_empty)
  qed
qed simp

text \<open>What is left of a sequence of which \<open>off\<close> bytes of the first buffer are used; it stays valid
  when the first buffer is used up and dropped.\<close>

definition valid_offset :: "buffer list \<Rightarrow> nat \<Rightarrow> bool" where
  "valid_offset bs off \<longleftrightarrow> (case bs of [] \<Rightarrow> off = 0 | b # _ \<Rightarrow> off \<le> buffer_len b)"

lemma past_valid: "valid_offset (b # bs) off \<Longrightarrow> n \<le> buffer_len b - off \<Longrightarrow> valid_offset (fst (past n b bs off)) (snd (past n b bs off))"
  by (auto simp: valid_offset_def past_def split: list.split)

lemma past_addrs:
  "valid_offset (b # bs) off \<Longrightarrow> n \<le> buffer_len b - off \<Longrightarrow>
    drop (snd (past n b bs off)) (addrs (fst (past n b bs off))) = drop n (drop off (region b)) @ addrs bs"
  by (auto simp: valid_offset_def past_def add.commute)

lemma valid_addrs: "valid_offset (b # bs) off \<Longrightarrow> drop off (addrs (b # bs)) = region (buffer_add b off) @ addrs bs"
  by (simp add: valid_offset_def)

lemma buffer_copy_seq_flat:
  "valid_offset ts t_off \<Longrightarrow> valid_offset ss s_off \<Longrightarrow>
    buffer_copy_seq ts t_off ss s_off m = flat_copy (drop t_off (addrs ts)) (drop s_off (addrs ss)) m"
proof (induction ts t_off ss s_off m rule: buffer_copy_seq.induct)
  case (1 t ts t_off s ss s_off m)
  let ?t = "buffer_add t t_off" and ?s = "buffer_add s s_off"
  let ?n = "min (buffer_len ?t) (buffer_len ?s)"
  let ?m = "copy_bytes (take ?n (region ?t)) (take ?n (region ?s)) m"
  have c: "buffer_copy ?t ?s m = (?n, ?m)" by (simp only: buffer_copy_eq Let_def)
  have n: "?n \<le> buffer_len t - t_off" "?n \<le> buffer_len s - s_off" by simp_all
  note v = past_valid [OF "1.prems"(1) n(1)] past_valid [OF "1.prems"(2) n(2)]
  have r: "buffer_copy_seq (fst (past ?n t ts t_off)) (snd (past ?n t ts t_off)) (fst (past ?n s ss s_off)) (snd (past ?n s ss s_off)) ?m
      = flat_copy (drop ?n (region ?t) @ addrs ts) (drop ?n (region ?s) @ addrs ss) ?m"
    using "1.IH" [OF refl refl c [symmetric] refl v]
    by (simp only: past_addrs [OF "1.prems"(1) n(1)] past_addrs [OF "1.prems"(2) n(2)] region_add)
  show ?case
    unfolding valid_addrs [OF "1.prems"(1)] valid_addrs [OF "1.prems"(2)] copy_step [OF refl]
    by (simp only: buffer_copy_seq.simps Let_def c prod.case r)
qed (auto simp: valid_offset_def split: list.splits)

lemma take_dropped:
  "n \<le> length xs \<Longrightarrow> take (left - n) (drop n xs @ ys) = drop n (take left xs) @ take (left - length xs) ys"
  by (simp add: drop_take)

lemma flat_take:
  assumes "left \<le> length ds"
  shows "flat_copy (take left ds) ss m = (let k = min left (length ss) in (k, copy_bytes (take k ds) (take k ss) m))"
  using copy_min [of "take left ds" ss m] assms by (simp add: flat_copy_def Let_def min_def split: if_splits)

lemma buffer_copy_max_flat:
  "valid_offset ts t_off \<Longrightarrow> valid_offset ss s_off \<Longrightarrow>
    buffer_copy_max left ts t_off ss s_off m = flat_copy (take left (drop t_off (addrs ts))) (drop s_off (addrs ss)) m"
proof (induction left ts t_off ss s_off m rule: buffer_copy_max.induct)
  case (1 left t ts t_off s ss s_off m)
  show ?case
  proof (cases "left = 0")
    case left: False
    let ?t = "buffer_add t t_off" and ?s = "buffer_add s s_off"
    let ?l = "buffer_limit ?t left"
    let ?n = "min (buffer_len ?l) (buffer_len ?s)"
    let ?m = "copy_bytes (take ?n (region ?l)) (take ?n (region ?s)) m"
    have c: "buffer_copy ?l ?s m = (?n, ?m)" by (simp only: buffer_copy_eq Let_def)
    have n: "?n \<le> buffer_len t - t_off" "?n \<le> buffer_len s - s_off" by simp_all
    note v = past_valid [OF "1.prems"(1) n(1)] past_valid [OF "1.prems"(2) n(2)]
    have r: "buffer_copy_max (left - ?n) (fst (past ?n t ts t_off)) (snd (past ?n t ts t_off)) (fst (past ?n s ss s_off)) (snd (past ?n s ss s_off)) ?m
        = flat_copy (take (left - ?n) (drop ?n (region ?t) @ addrs ts)) (drop ?n (region ?s) @ addrs ss) ?m"
      using "1.IH" [OF left refl refl c [symmetric] refl v]
      by (simp only: past_addrs [OF "1.prems"(1) n(1)] past_addrs [OF "1.prems"(2) n(2)] region_add)
    have t: "take left (region ?t @ addrs ts) = region ?l @ take (left - buffer_len ?t) (addrs ts)"
      by (simp only: take_append length_region region_limit)
    have "?n \<le> length (region ?t)" by simp
    then have d: "take (left - ?n) (drop ?n (region ?t) @ addrs ts) = drop ?n (region ?l) @ take (left - buffer_len ?t) (addrs ts)"
      by (simp only: take_dropped region_limit length_region)
    show ?thesis
      unfolding valid_addrs [OF "1.prems"(1)] valid_addrs [OF "1.prems"(2)] t copy_step [OF refl]
      by (simp only: buffer_copy_max.simps Let_def c prod.case r d left if_False)
  qed simp
qed (auto simp: valid_offset_def split: list.splits)

lemma valid_start [simp]: "valid_offset bs 0"
  by (simp add: valid_offset_def split: list.split)

text \<open>Every form of \<open>buffer_copy\<close>, for single buffers and for sequences cut into buffers in any
  way, empty ones included, copies the flattened source to the flattened target as far as the shorter
  one goes, or up to the given limit, and returns the number of bytes copied.\<close>

theorem buffer_copies:
  "buffer_copy t s m = flat_copy (region t) (region s) m
    \<and> buffer_copy_from t ss m = flat_copy (region t) (addrs ss) m
    \<and> buffer_copy_to ts s m = flat_copy (addrs ts) (region s) m
    \<and> buffer_copy_seq ts 0 ss 0 m = flat_copy (addrs ts) (addrs ss) m
    \<and> buffer_copy_max max_bytes ts 0 ss 0 m = flat_copy (take max_bytes (addrs ts)) (addrs ss) m"
  by (simp add: buffer_copy_flat buffer_copy_from_flat buffer_copy_to_flat buffer_copy_seq_flat buffer_copy_max_flat)

end
