(* ===== verification/AsyncTransfer.thy ===== *)
theory AsyncTransfer
  imports Buffers IoBuffer
begin

text \<open>
  Composed operations of asio (\<^verbatim>\<open>deps/asio/1.10.6/include/asio\<close>: \<^verbatim>\<open>completion_condition.hpp\<close>,
  \<^verbatim>\<open>detail/consuming_buffers.hpp\<close>, \<^verbatim>\<open>impl/write.hpp\<close>, \<^verbatim>\<open>impl/read.hpp\<close>):
  \<open>async_write\<close> and \<open>async_read\<close> call \<open>async_write_some\<close> and \<open>async_read_some\<close> until the completion
  condition is met, the buffers are used up, an error occurs or nothing is transferred.  What the
  stream answers is a list of error codes and byte counts.  The three implementations of the
  operation (for any sequence, for one buffer, for an array of two) are shown to be one function of
  the flattened buffers.
\<close>

subsection \<open>Consuming buffers\<close>

record consuming =
  cb_at_end :: bool
  cb_first :: buffer
  cb_remainder :: "buffer list"
  cb_max_size :: nat

definition max_size_t :: nat where "max_size_t = 2 ^ 64 - 1"

definition cb_new :: "buffer list \<Rightarrow> consuming" where
  "cb_new bs = \<lparr>cb_at_end = (bs = []), cb_first = (case bs of [] \<Rightarrow> null_buffer | b # _ \<Rightarrow> b),
     cb_remainder = tl bs, cb_max_size = max_size_t\<rparr>"

definition cb_prepare :: "nat \<Rightarrow> consuming \<Rightarrow> consuming" where
  "cb_prepare max_size c = c\<lparr>cb_max_size := max_size\<rparr>"

text \<open>\<open>consume\<close>: the loop that removes bytes, and the loop that removes empty buffers.\<close>

fun cb_remove :: "nat \<Rightarrow> buffer \<Rightarrow> buffer list \<Rightarrow> bool \<times> buffer \<times> buffer list" where
  "cb_remove sz first rest =
     (if sz = 0 then (False, first, rest)
      else if buffer_len first \<le> sz
      then (case rest of [] \<Rightarrow> (True, first, []) | b # bs \<Rightarrow> cb_remove (sz - buffer_len first) b bs)
      else (False, buffer_add first sz, rest))"

fun cb_skip_empty :: "buffer \<Rightarrow> buffer list \<Rightarrow> bool \<times> buffer \<times> buffer list" where
  "cb_skip_empty first rest =
     (if buffer_len first = 0
      then (case rest of [] \<Rightarrow> (True, first, []) | b # bs \<Rightarrow> cb_skip_empty b bs)
      else (False, first, rest))"

declare cb_remove.simps [simp del] cb_skip_empty.simps [simp del]

definition cb_consume :: "nat \<Rightarrow> consuming \<Rightarrow> consuming" where
  "cb_consume sz c =
     (if cb_at_end c then c
      else let (at_end, first, rest) = cb_remove sz (cb_first c) (cb_remainder c);
               (at_end, first, rest) = (if at_end then (at_end, first, rest) else cb_skip_empty first rest)
           in c\<lparr>cb_at_end := at_end, cb_first := first, cb_remainder := rest\<rparr>)"

record consuming_iterator =
  it_at_end :: bool
  it_first :: buffer
  it_remainder :: "buffer list"
  it_offset :: nat
  it_max_size :: nat

definition cb_begin :: "consuming \<Rightarrow> consuming_iterator" where
  "cb_begin c = \<lparr>it_at_end = (if cb_max_size c > 0 then cb_at_end c else True),
     it_first = buffer_limit (cb_first c) (cb_max_size c), it_remainder = cb_remainder c,
     it_offset = 0, it_max_size = cb_max_size c\<rparr>"

definition it_increment :: "consuming_iterator \<Rightarrow> consuming_iterator" where
  "it_increment i =
     (if it_at_end i then i
      else case it_remainder i of
             [] \<Rightarrow> i\<lparr>it_at_end := True\<rparr>
           | b # bs \<Rightarrow>
               if it_offset i + buffer_len (it_first i) \<ge> it_max_size i then i\<lparr>it_at_end := True\<rparr>
               else let off = it_offset i + buffer_len (it_first i)
                    in i\<lparr>it_offset := off, it_first := buffer_limit b (it_max_size i - off), it_remainder := bs\<rparr>)"

text \<open>The buffers an underlying operation sees between \<open>begin\<close> and \<open>end\<close>.\<close>

function it_collect :: "consuming_iterator \<Rightarrow> buffer list" where
  "it_collect i = (if it_at_end i then [] else it_first i # it_collect (it_increment i))"
  by auto
termination
  by (relation "measure (\<lambda>i. if it_at_end i then 0 else Suc (length (it_remainder i)))")
    (auto simp: it_increment_def Let_def split: list.split)

declare it_collect.simps [simp del]

lemma collect_end [simp]: "it_at_end i \<Longrightarrow> it_collect i = []"
  by (simp add: it_collect.simps [of i])

definition cb_range :: "consuming \<Rightarrow> buffer list" where
  "cb_range c = it_collect (cb_begin c)"

text \<open>What is left of the sequence.\<close>

definition cb_left :: "consuming \<Rightarrow> nat list" where
  "cb_left c = (if cb_at_end c then [] else region (cb_first c) @ addrs (cb_remainder c))"

lemma left_new: "cb_left (cb_new bs) = addrs bs"
  by (cases bs) (simp_all add: cb_left_def cb_new_def)

lemma left_prepare [simp]: "cb_left (cb_prepare n c) = cb_left c"
  by (simp add: cb_left_def cb_prepare_def)

lemma collect_addrs:
  "\<not> it_at_end i \<Longrightarrow> it_first i = buffer_limit f (it_max_size i - it_offset i) \<Longrightarrow> it_offset i < it_max_size i \<Longrightarrow>
    addrs (it_collect i) = take (it_max_size i - it_offset i) (region f @ addrs (it_remainder i))"
proof (induction "it_remainder i" arbitrary: i f)
  case Nil
  then show ?case by (simp add: it_collect.simps [of i] it_increment_def)
next
  case (Cons b bs)
  show ?case
  proof (cases "it_offset i + buffer_len (it_first i) \<ge> it_max_size i")
    case True
    then have "it_max_size i - it_offset i \<le> buffer_len f" using Cons.prems by simp
    then show ?thesis using True Cons
      by (simp add: it_collect.simps [of i] it_increment_def split: list.split)
  next
    case False
    then have l: "buffer_len f < it_max_size i - it_offset i" using Cons.prems by simp
    let ?i = "it_increment i"
    have i: "?i = i\<lparr>it_offset := it_offset i + buffer_len f, it_first := buffer_limit b (it_max_size i - (it_offset i + buffer_len f)), it_remainder := bs\<rparr>"
      using False Cons.prems l Cons.hyps(2) [symmetric] by (simp add: it_increment_def Let_def)
    have "addrs (it_collect ?i) = take (it_max_size i - (it_offset i + buffer_len f)) (region b @ addrs bs)"
      using Cons.hyps(1) [of ?i b] Cons.prems l by (simp add: i)
    then show ?thesis using Cons.prems l Cons.hyps(2) [symmetric] by (simp add: it_collect.simps [of i])
  qed
qed

lemma range_addrs: "addrs (cb_range c) = take (cb_max_size c) (cb_left c)"
proof (cases "cb_max_size c = 0 \<or> cb_at_end c")
  case True
  then show ?thesis by (auto simp: cb_range_def cb_begin_def cb_left_def)
next
  case False
  then show ?thesis using collect_addrs [of "cb_begin c" "cb_first c"]
    by (simp add: cb_range_def cb_begin_def cb_left_def)
qed

lemma remove_left:
  "cb_remove n f rest = (at_end, f', rest') \<Longrightarrow>
    (if at_end then [] else region f' @ addrs rest') = drop n (region f @ addrs rest)"
proof (induction n f rest rule: cb_remove.induct)
  case (1 sz first rest)
  show ?case
    using 1 by (cases rest) (auto simp: cb_remove.simps [of sz first] split: if_splits)
qed

lemma skip_left:
  "cb_skip_empty f rest = (at_end, f', rest') \<Longrightarrow>
    (if at_end then [] else region f' @ addrs rest') = region f @ addrs rest \<and> (at_end \<longleftrightarrow> region f @ addrs rest = [])"
proof (induction f rest rule: cb_skip_empty.induct)
  case (1 first rest)
  show ?case
    using 1 by (cases rest) (auto simp: cb_skip_empty.simps [of first] split: if_splits)
qed

lemma consume_left: "cb_left (cb_consume n c) = drop n (cb_left c) \<and> (cb_at_end (cb_consume n c) \<longleftrightarrow> drop n (cb_left c) = [])"
proof (cases "cb_at_end c")
  case False
  obtain e f r where r: "cb_remove n (cb_first c) (cb_remainder c) = (e, f, r)" by (cases "cb_remove n (cb_first c) (cb_remainder c)")
  obtain e' f' r' where s: "cb_skip_empty f r = (e', f', r')" by (cases "cb_skip_empty f r")
  show ?thesis using False remove_left [OF r] skip_left [OF s] r s
    by (cases e) (simp_all add: cb_consume_def cb_left_def split: if_splits)
qed (simp add: cb_consume_def cb_left_def)

subsection \<open>Completion conditions\<close>

text \<open>A condition maps the error code (0: none) and the bytes so far to the most bytes of the next
  operation, 0 to end.\<close>

type_synonym completion_condition = "int \<Rightarrow> nat \<Rightarrow> nat"

definition default_max_transfer_size :: nat where "default_max_transfer_size = 65536"

definition transfer_all :: completion_condition where
  "transfer_all err sent = (if err \<noteq> 0 then 0 else default_max_transfer_size)"

definition transfer_at_least :: "nat \<Rightarrow> completion_condition" where
  "transfer_at_least minimum err sent = (if err \<noteq> 0 \<or> sent \<ge> minimum then 0 else default_max_transfer_size)"

definition transfer_exactly :: "nat \<Rightarrow> completion_condition" where
  "transfer_exactly sz err sent =
     (if err \<noteq> 0 \<or> sent \<ge> sz then 0
      else if sz - sent < default_max_transfer_size then sz - sent else default_max_transfer_size)"

subsection \<open>The operations\<close>

record 'b transfer_op =
  xf_buffers :: 'b
  xf_total_transferred :: nat

text \<open>A call of the function object either starts an operation of the stream with itself as the
  handler, or calls the handler of the user.\<close>

datatype 'b op_call = AsyncSome "buffer list" "'b transfer_op" | Handler int nat

definition new_transfer :: "'b \<Rightarrow> 'b transfer_op" where
  "new_transfer bs = \<lparr>xf_buffers = bs, xf_total_transferred = 0\<rparr>"

definition write_op :: "completion_condition \<Rightarrow> int \<Rightarrow> nat \<Rightarrow> int \<Rightarrow> consuming transfer_op \<Rightarrow> consuming op_call" where
  "write_op check_for_completion ec bytes_transferred start x =
     (if start = 1
      then let bs = cb_prepare (check_for_completion ec (xf_total_transferred x)) (xf_buffers x)
           in AsyncSome (cb_range bs) (x\<lparr>xf_buffers := bs\<rparr>)
      else let sent = xf_total_transferred x + bytes_transferred;
               bs = cb_prepare (check_for_completion ec sent) (cb_consume bytes_transferred (xf_buffers x))
           in if ec = 0 \<and> bytes_transferred = 0 \<or> it_at_end (cb_begin bs) then Handler ec sent
              else AsyncSome (cb_range bs) (x\<lparr>xf_buffers := bs, xf_total_transferred := sent\<rparr>))"

definition write_op_1 :: "completion_condition \<Rightarrow> int \<Rightarrow> nat \<Rightarrow> int \<Rightarrow> buffer transfer_op \<Rightarrow> buffer op_call" where
  "write_op_1 check_for_completion ec bytes_transferred start x =
     (let sent = (if start = 1 then xf_total_transferred x else xf_total_transferred x + bytes_transferred);
          n = check_for_completion ec sent;
          some = AsyncSome [buffer_limit (buffer_add (xf_buffers x) sent) n] (x\<lparr>xf_total_transferred := sent\<rparr>)
      in if start = 1 then some
         else if ec = 0 \<and> bytes_transferred = 0 \<or> n = 0 \<or> sent = buffer_len (xf_buffers x) then Handler ec sent
         else some)"

definition array_bufs :: "buffer \<times> buffer \<Rightarrow> nat \<Rightarrow> nat \<Rightarrow> buffer list" where
  "array_bufs bs transferred n =
     (let buf0 = buffer_limit (buffer_add (fst bs) transferred) n;
          buf1 = buffer_limit (buffer_add (snd bs) (if transferred < buffer_len (fst bs) then 0 else transferred - buffer_len (fst bs)))
                   (n - buffer_len buf0)
      in [buf0, buf1])"

definition write_op_2 :: "completion_condition \<Rightarrow> int \<Rightarrow> nat \<Rightarrow> int \<Rightarrow> (buffer \<times> buffer) transfer_op \<Rightarrow> (buffer \<times> buffer) op_call" where
  "write_op_2 check_for_completion ec bytes_transferred start x =
     (let sent = (if start = 1 then xf_total_transferred x else xf_total_transferred x + bytes_transferred);
          n = check_for_completion ec sent;
          some = AsyncSome (array_bufs (xf_buffers x) sent n) (x\<lparr>xf_total_transferred := sent\<rparr>)
      in if start = 1 then some
         else if ec = 0 \<and> bytes_transferred = 0 \<or> n = 0
           \<or> sent = buffer_len (fst (xf_buffers x)) + buffer_len (snd (xf_buffers x)) then Handler ec sent
         else some)"

text \<open>The members of \<open>read_op\<close> differ from those of \<open>write_op\<close> only in the operation of the stream
  they call.\<close>

definition read_op :: "completion_condition \<Rightarrow> int \<Rightarrow> nat \<Rightarrow> int \<Rightarrow> consuming transfer_op \<Rightarrow> consuming op_call" where
  "read_op = write_op"

definition read_op_1 :: "completion_condition \<Rightarrow> int \<Rightarrow> nat \<Rightarrow> int \<Rightarrow> buffer transfer_op \<Rightarrow> buffer op_call" where
  "read_op_1 = write_op_1"

definition read_op_2 :: "completion_condition \<Rightarrow> int \<Rightarrow> nat \<Rightarrow> int \<Rightarrow> (buffer \<times> buffer) transfer_op \<Rightarrow> (buffer \<times> buffer) op_call" where
  "read_op_2 = write_op_2"

text \<open>A run: the answers \<open>(ec, n)\<close> of the stream to the operations, in order, and the log of the
  operations with the bytes each transferred.\<close>

fun op_run :: "(int \<Rightarrow> nat \<Rightarrow> int \<Rightarrow> 'b transfer_op \<Rightarrow> 'b op_call) \<Rightarrow> (int \<times> nat) list \<Rightarrow> 'b op_call
    \<Rightarrow> (buffer list \<times> nat) list \<times> 'b op_call" where
  "op_run f ((ec, n) # rs) (AsyncSome bs x) = (let (log, c) = op_run f rs (f ec n 0 x) in ((bs, n) # log, c))"
| "op_run f rs c = ([], c)"

text \<open>A stream transfers no more than it is offered.\<close>

fun stream_obeys :: "(int \<Rightarrow> nat \<Rightarrow> int \<Rightarrow> 'b transfer_op \<Rightarrow> 'b op_call) \<Rightarrow> (int \<times> nat) list \<Rightarrow> 'b op_call \<Rightarrow> bool" where
  "stream_obeys f ((ec, n) # rs) (AsyncSome bs x) = (n \<le> length (addrs bs) \<and> stream_obeys f rs (f ec n 0 x))"
| "stream_obeys f rs c = True"

subsection \<open>The contract of a composed operation\<close>

text \<open>The same on flat lists of addresses: \<open>t\<close> bytes are done, \<open>r\<close> is left, \<open>off\<close> is offered.\<close>

fun flat_run :: "completion_condition \<Rightarrow> (int \<times> nat) list \<Rightarrow> nat list \<Rightarrow> nat \<Rightarrow> nat list \<Rightarrow> (nat list \<times> nat) list \<times> (int \<times> nat) option" where
  "flat_run cc [] off t r = ([], None)"
| "flat_run cc ((ec, n) # rs) off t r =
     (let t = t + n; r = drop n r
      in if ec = 0 \<and> n = 0 \<or> cc ec t = 0 \<or> r = [] then ([(off, n)], Some (ec, t))
         else let (log, res) = flat_run cc rs (take (cc ec t) r) t r in ((off, n) # log, res))"

fun flat_call :: "'b op_call \<Rightarrow> (int \<times> nat) option" where
  "flat_call (AsyncSome _ _) = None"
| "flat_call (Handler ec t) = Some (ec, t)"

definition flat_log :: "(buffer list \<times> nat) list \<Rightarrow> (nat list \<times> nat) list" where
  "flat_log log = map (\<lambda>(bs, n). (addrs bs, n)) log"

fun flat_obeys :: "completion_condition \<Rightarrow> (int \<times> nat) list \<Rightarrow> nat list \<Rightarrow> nat \<Rightarrow> nat list \<Rightarrow> bool" where
  "flat_obeys cc [] off t r = True"
| "flat_obeys cc ((ec, n) # rs) off t r =
     (n \<le> length off \<and>
      (let t = t + n; r = drop n r
       in ec = 0 \<and> n = 0 \<or> cc ec t = 0 \<or> r = [] \<or> flat_obeys cc rs (take (cc ec t) r) t r))"

locale composed_op =
  fixes cc :: completion_condition
    and op :: "int \<Rightarrow> nat \<Rightarrow> int \<Rightarrow> 'b transfer_op \<Rightarrow> 'b op_call"
    and rest :: "'b transfer_op \<Rightarrow> nat list"
    and ok :: "'b transfer_op \<Rightarrow> bool"
  assumes first: "ok x \<Longrightarrow> op ec n 1 x = AsyncSome bs x' \<Longrightarrow> xf_total_transferred x' = xf_total_transferred x
      \<and> rest x' = rest x \<and> ok x' \<and> addrs bs = take (cc ec (xf_total_transferred x)) (rest x)"
    and starts: "op ec n 1 x \<noteq> Handler ec' t"
    and ends: "ok x \<Longrightarrow> n \<le> length (rest x) \<Longrightarrow> op ec n 0 x = Handler ec' t \<Longrightarrow>
      ec' = ec \<and> t = xf_total_transferred x + n \<and> (ec = 0 \<and> n = 0 \<or> cc ec t = 0 \<or> length (rest x) = n)"
    and continues: "ok x \<Longrightarrow> n \<le> length (rest x) \<Longrightarrow> op ec n 0 x = AsyncSome bs x' \<Longrightarrow>
      xf_total_transferred x' = xf_total_transferred x + n \<and> rest x' = drop n (rest x) \<and> ok x'
      \<and> \<not> (ec = 0 \<and> n = 0 \<or> cc ec (xf_total_transferred x + n) = 0 \<or> length (rest x) = n)
      \<and> addrs bs = take (cc ec (xf_total_transferred x + n)) (drop n (rest x))"
begin

lemma run_flat:
  "ok x \<Longrightarrow> addrs bs = take k (rest x) \<Longrightarrow> stream_obeys op rs (AsyncSome bs x) \<Longrightarrow> op_run op rs (AsyncSome bs x) = (log, c) \<Longrightarrow>
    flat_run cc rs (addrs bs) (xf_total_transferred x) (rest x) = (flat_log log, flat_call c)"
proof (induction rs arbitrary: bs x k log)
  case (Cons a rs)
  obtain ec n where a: "a = (ec, n)" by (cases a)
  have n: "n \<le> length (rest x)" using Cons.prems(2,3) by (simp add: a)
  show ?case
  proof (cases "op ec n 0 x")
    case (Handler ec' t)
    then have "c = Handler ec' t" "log = [(bs, n)]" using Cons.prems(4) by (auto simp: a)
    then show ?thesis using ends [OF Cons.prems(1) n Handler] by (auto simp: a flat_log_def)
  next
    case (AsyncSome bs' x')
    obtain log' where l: "op_run op rs (AsyncSome bs' x') = (log', c)" "log = (bs, n) # log'"
      using Cons.prems(4) AsyncSome by (auto simp: a split: prod.splits)
    note C = continues [OF Cons.prems(1) n AsyncSome]
    have "flat_run cc rs (addrs bs') (xf_total_transferred x') (rest x') = (flat_log log', flat_call c)"
      by (rule Cons.IH) (use C Cons.prems(3) AsyncSome l in \<open>simp_all add: a\<close>)
    then show ?thesis using C n l(2) by (auto simp: a flat_log_def Let_def)
  qed
qed (auto simp: flat_log_def)

lemma obeys_flat:
  "ok x \<Longrightarrow> addrs bs = take k (rest x) \<Longrightarrow>
    stream_obeys op rs (AsyncSome bs x) = flat_obeys cc rs (addrs bs) (xf_total_transferred x) (rest x)"
proof (induction rs arbitrary: bs x k)
  case (Cons a rs)
  obtain ec n where a: "a = (ec, n)" by (cases a)
  show ?case
  proof (cases "n \<le> length (addrs bs)")
    case True
    then have n: "n \<le> length (rest x)" using Cons.prems(2) by simp
    show ?thesis
    proof (cases "op ec n 0 x")
      case (Handler ec' t)
      then show ?thesis using ends [OF Cons.prems(1) n Handler] True by (auto simp: a Let_def)
    next
      case (AsyncSome bs' x')
      note C = continues [OF Cons.prems(1) n AsyncSome]
      show ?thesis using Cons.IH [of x' bs'] C n AsyncSome True by (auto simp: a Let_def)
    qed
  qed (simp add: a)
qed simp

end

lemma begin_end: "it_at_end (cb_begin c) \<longleftrightarrow> cb_max_size c = 0 \<or> cb_at_end c"
  by (simp add: cb_begin_def)

lemma prepare_simps [simp]: "cb_max_size (cb_prepare n c) = n" "cb_at_end (cb_prepare n c) = cb_at_end c"
  by (simp_all add: cb_prepare_def)

interpretation seq: composed_op cc "write_op cc" "\<lambda>x. cb_left (xf_buffers x)" "\<lambda>_. True" for cc
proof
  fix n :: nat and x :: "consuming transfer_op" and ec ec' t bs x'
  assume n: "n \<le> length (cb_left (xf_buffers x))"
  note c = consume_left [of n "xf_buffers x"]
  show "ec' = ec \<and> t = xf_total_transferred x + n \<and> (ec = 0 \<and> n = 0 \<or> cc ec t = 0 \<or> length (cb_left (xf_buffers x)) = n)"
    if "write_op cc ec n 0 x = Handler ec' t"
    using that n c by (auto simp: write_op_def Let_def begin_end split: if_splits)
  show "xf_total_transferred x' = xf_total_transferred x + n \<and> cb_left (xf_buffers x') = drop n (cb_left (xf_buffers x)) \<and> True
      \<and> \<not> (ec = 0 \<and> n = 0 \<or> cc ec (xf_total_transferred x + n) = 0 \<or> length (cb_left (xf_buffers x)) = n)
      \<and> addrs bs = take (cc ec (xf_total_transferred x + n)) (drop n (cb_left (xf_buffers x)))"
    if "write_op cc ec n 0 x = AsyncSome bs x'"
    using that n c by (auto simp: write_op_def Let_def begin_end range_addrs split: if_splits)
qed (auto simp: write_op_def Let_def range_addrs)

definition rest_1 :: "buffer transfer_op \<Rightarrow> nat list" where
  "rest_1 x = drop (xf_total_transferred x) (region (xf_buffers x))"

interpretation one: composed_op cc "write_op_1 cc" rest_1 "\<lambda>x. xf_total_transferred x \<le> buffer_len (xf_buffers x)" for cc
  by unfold_locales (auto simp: write_op_1_def rest_1_def Let_def add.commute split: if_splits)

definition pair_region :: "buffer \<times> buffer \<Rightarrow> nat list" where
  "pair_region bs = region (fst bs) @ region (snd bs)"

lemma length_pair_region [simp]: "length (pair_region bs) = buffer_len (fst bs) + buffer_len (snd bs)"
  by (simp add: pair_region_def)

lemma array_addrs: "addrs (array_bufs bs t n) = take n (drop t (pair_region bs))"
  by (auto simp: array_bufs_def pair_region_def Let_def min_def)

definition rest_2 :: "(buffer \<times> buffer) transfer_op \<Rightarrow> nat list" where
  "rest_2 x = drop (xf_total_transferred x) (pair_region (xf_buffers x))"

interpretation two: composed_op cc "write_op_2 cc" rest_2
    "\<lambda>x. xf_total_transferred x \<le> buffer_len (fst (xf_buffers x)) + buffer_len (snd (xf_buffers x))" for cc
  by unfold_locales (auto simp: write_op_2_def rest_2_def Let_def array_addrs add.commute split: if_splits)

subsection \<open>Facts of flat runs\<close>

definition moved :: "(nat list \<times> nat) list \<Rightarrow> nat list" where
  "moved log = concat (map (\<lambda>(off, n). take n off) log)"

lemma flat_run_moves:
  "flat_run cc rs (take k r) t r = (log, res) \<Longrightarrow> flat_obeys cc rs (take k r) t r \<Longrightarrow>
    moved log = take (length (moved log)) r
    \<and> (\<forall>ec t'. res = Some (ec, t') \<longrightarrow> t' = t + length (moved log) \<and> log \<noteq> []
        \<and> (cc ec t' = 0 \<or> ec = 0 \<and> snd (List.last log) = 0 \<or> length (moved log) = length r))"
proof (induction cc rs "take k r" t r arbitrary: k log rule: flat_run.induct)
  case (2 cc ec n rs t r)
  then have n: "n \<le> length r" "n \<le> k" by simp_all
  show ?case
  proof (cases "ec = 0 \<and> n = 0 \<or> cc ec (t + n) = 0 \<or> drop n r = []")
    case True
    then show ?thesis using 2(2) n by (auto simp: Let_def moved_def min_def)
  next
    case False
    obtain log' where l: "flat_run cc rs (take (cc ec (t + n)) (drop n r)) (t + n) (drop n r) = (log', res)" "log = (take k r, n) # log'"
      using 2(2) False by (auto simp: Let_def split: prod.splits if_splits)
    have o: "flat_obeys cc rs (take (cc ec (t + n)) (drop n r)) (t + n) (drop n r)" using 2(3) False by (auto simp: Let_def)
    have m: "moved log = take n r @ moved log'" using n by (simp add: l(2) moved_def min_def)
    note IH = 2(1) [OF refl refl False refl l(1) o]
    from IH have "take n r @ moved log' = take (n + length (moved log')) r" by (simp add: take_add)
    moreover have "length (moved log') = length r - n \<Longrightarrow> n + length (moved log') = length r" using n by simp
    ultimately show ?thesis using IH n m by (auto simp: l(2) min_def)
  qed
qed (simp add: moved_def)

lemma flat_last_offered:
  "flat_run cc rs (take k r) t r = (log, res) \<Longrightarrow> flat_obeys cc rs (take k r) t r \<Longrightarrow> k \<noteq> 0 \<Longrightarrow> log \<noteq> [] \<Longrightarrow>
    fst (List.last log) = [] \<Longrightarrow> length (moved log) = length r"
proof (induction cc rs "take k r" t r arbitrary: k log rule: flat_run.induct)
  case (2 cc ec n rs t r)
  then have n: "n \<le> length r" by simp
  show ?case
  proof (cases "ec = 0 \<and> n = 0 \<or> cc ec (t + n) = 0 \<or> drop n r = []")
    case True
    then show ?thesis using 2 by (auto simp: Let_def moved_def)
  next
    case False
    obtain log' where l: "flat_run cc rs (take (cc ec (t + n)) (drop n r)) (t + n) (drop n r) = (log', res)" "log = (take k r, n) # log'"
      using 2(2) False by (auto simp: Let_def split: prod.splits if_splits)
    have o: "flat_obeys cc rs (take (cc ec (t + n)) (drop n r)) (t + n) (drop n r)" using 2(3) False by (auto simp: Let_def)
    have l': "log' \<noteq> []" "fst (List.last log') = []" using 2(4,6) False n by (auto simp: l(2) split: if_splits)
    show ?thesis using 2(1) [OF refl refl False refl l(1) o _ l'] False n 2(3) by (auto simp: l(2) moved_def min_def)
  qed
qed simp

lemma flat_run_ends:
  assumes "\<And>ec t. ec \<noteq> 0 \<Longrightarrow> cc ec t = 0"
  shows "flat_run cc rs off t r = (log, res) \<Longrightarrow> length r < length rs \<Longrightarrow> res \<noteq> None"
proof (induction rs arbitrary: off t r log)
  case (Cons a rs)
  obtain ec n where a: "a = (ec, n)" by (cases a)
  show ?case
  proof (cases "ec = 0 \<and> n = 0 \<or> cc ec (t + n) = 0 \<or> drop n r = []")
    case True
    then show ?thesis using Cons.prems(1) by (auto simp: a Let_def split: if_splits prod.splits)
  next
    case False
    then have "n > 0" "n < length r" using assms by auto
    then show ?thesis using Cons False by (auto simp: a Let_def split: prod.splits if_splits)
  qed
qed simp

subsection \<open>async_write and async_read\<close>

definition async_write :: "completion_condition \<Rightarrow> buffer list \<Rightarrow> consuming op_call" where
  "async_write cc bs = write_op cc 0 0 1 (new_transfer (cb_new bs))"

definition async_write_1 :: "completion_condition \<Rightarrow> buffer \<Rightarrow> buffer op_call" where
  "async_write_1 cc b = write_op_1 cc 0 0 1 (new_transfer b)"

definition async_write_2 :: "completion_condition \<Rightarrow> buffer \<times> buffer \<Rightarrow> (buffer \<times> buffer) op_call" where
  "async_write_2 cc bs = write_op_2 cc 0 0 1 (new_transfer bs)"

lemma new_transfer_simps [simp]: "xf_total_transferred (new_transfer bs) = 0" "xf_buffers (new_transfer bs) = bs"
  by (simp_all add: new_transfer_def)

text \<open>The first operation of each.\<close>

lemma async_write_first: "\<exists>off x. async_write cc bs = AsyncSome off x \<and> xf_total_transferred x = 0
    \<and> cb_left (xf_buffers x) = addrs bs \<and> addrs off = take (cc 0 0) (addrs bs)"
  by (simp add: async_write_def write_op_def Let_def range_addrs left_new)

lemma async_write_1_first: "\<exists>off x. async_write_1 cc b = AsyncSome off x \<and> xf_total_transferred x = 0
    \<and> xf_buffers x = b \<and> addrs off = take (cc 0 0) (region b)"
  by (simp add: async_write_1_def write_op_1_def Let_def)

lemma async_write_2_first: "\<exists>off x. async_write_2 cc bs = AsyncSome off x \<and> xf_total_transferred x = 0
    \<and> xf_buffers x = bs \<and> addrs off = take (cc 0 0) (pair_region bs)"
  by (simp add: async_write_2_def write_op_2_def Let_def array_addrs)

lemma async_write_flat:
  "stream_obeys (write_op cc) rs (async_write cc bs) = flat_obeys cc rs (take (cc 0 0) (addrs bs)) 0 (addrs bs)"
  "stream_obeys (write_op cc) rs (async_write cc bs) \<Longrightarrow>
    map_prod flat_log flat_call (op_run (write_op cc) rs (async_write cc bs)) = flat_run cc rs (take (cc 0 0) (addrs bs)) 0 (addrs bs)"
proof -
  obtain off x where x: "async_write cc bs = AsyncSome off x" "xf_total_transferred x = 0"
    "cb_left (xf_buffers x) = addrs bs" "addrs off = take (cc 0 0) (addrs bs)" using async_write_first by blast
  have k: "addrs off = take (cc 0 0) (cb_left (xf_buffers x))" using x by simp
  show "stream_obeys (write_op cc) rs (async_write cc bs) = flat_obeys cc rs (take (cc 0 0) (addrs bs)) 0 (addrs bs)"
    using seq.obeys_flat [OF TrueI k, where rs = rs] x by simp
  show "stream_obeys (write_op cc) rs (async_write cc bs) \<Longrightarrow>
      map_prod flat_log flat_call (op_run (write_op cc) rs (async_write cc bs)) = flat_run cc rs (take (cc 0 0) (addrs bs)) 0 (addrs bs)"
    using seq.run_flat [OF TrueI k, where rs = rs, OF _ prod.collapse [symmetric]] x by (simp add: map_prod_def split_beta)
qed

lemma async_write_1_flat:
  "stream_obeys (write_op_1 cc) rs (async_write_1 cc b) = flat_obeys cc rs (take (cc 0 0) (region b)) 0 (region b)"
  "stream_obeys (write_op_1 cc) rs (async_write_1 cc b) \<Longrightarrow>
    map_prod flat_log flat_call (op_run (write_op_1 cc) rs (async_write_1 cc b)) = flat_run cc rs (take (cc 0 0) (region b)) 0 (region b)"
proof -
  obtain off x where x: "async_write_1 cc b = AsyncSome off x" "xf_total_transferred x = 0" "xf_buffers x = b"
    "addrs off = take (cc 0 0) (region b)" using async_write_1_first by blast
  have k: "addrs off = take (cc 0 0) (rest_1 x)" "rest_1 x = region b" "xf_total_transferred x \<le> buffer_len (xf_buffers x)"
    using x by (simp_all add: rest_1_def)
  show "stream_obeys (write_op_1 cc) rs (async_write_1 cc b) = flat_obeys cc rs (take (cc 0 0) (region b)) 0 (region b)"
    using one.obeys_flat [OF k(3,1), where rs = rs] x k(2) by simp
  show "stream_obeys (write_op_1 cc) rs (async_write_1 cc b) \<Longrightarrow>
      map_prod flat_log flat_call (op_run (write_op_1 cc) rs (async_write_1 cc b)) = flat_run cc rs (take (cc 0 0) (region b)) 0 (region b)"
    using one.run_flat [OF k(3,1), where rs = rs, OF _ prod.collapse [symmetric]] x k(2) by (simp add: map_prod_def split_beta)
qed

lemma async_write_2_flat:
  "stream_obeys (write_op_2 cc) rs (async_write_2 cc bs) = flat_obeys cc rs (take (cc 0 0) (pair_region bs)) 0 (pair_region bs)"
  "stream_obeys (write_op_2 cc) rs (async_write_2 cc bs) \<Longrightarrow>
    map_prod flat_log flat_call (op_run (write_op_2 cc) rs (async_write_2 cc bs)) = flat_run cc rs (take (cc 0 0) (pair_region bs)) 0 (pair_region bs)"
proof -
  obtain off x where x: "async_write_2 cc bs = AsyncSome off x" "xf_total_transferred x = 0" "xf_buffers x = bs"
    "addrs off = take (cc 0 0) (pair_region bs)" using async_write_2_first by blast
  have k: "addrs off = take (cc 0 0) (rest_2 x)" "rest_2 x = pair_region bs"
    "xf_total_transferred x \<le> buffer_len (fst (xf_buffers x)) + buffer_len (snd (xf_buffers x))"
    using x by (simp_all add: rest_2_def)
  show "stream_obeys (write_op_2 cc) rs (async_write_2 cc bs) = flat_obeys cc rs (take (cc 0 0) (pair_region bs)) 0 (pair_region bs)"
    using two.obeys_flat [OF k(3,1), where rs = rs] x k(2) by simp
  show "stream_obeys (write_op_2 cc) rs (async_write_2 cc bs) \<Longrightarrow>
      map_prod flat_log flat_call (op_run (write_op_2 cc) rs (async_write_2 cc bs)) = flat_run cc rs (take (cc 0 0) (pair_region bs)) 0 (pair_region bs)"
    using two.run_flat [OF k(3,1), where rs = rs, OF _ prod.collapse [symmetric]] x k(2) by (simp add: map_prod_def split_beta)
qed

text \<open>C34: the specialisations of the composed operation for one buffer and for an array of two do what
  the general one does with the same buffers: they offer the stream the same bytes, in the same
  operations, and end with the same error and count, whatever the stream answers within its contract
  and whatever the completion condition is.\<close>

theorem specialised_transfers:
  assumes "stream_obeys (write_op cc) rs (async_write cc [b])" "stream_obeys (write_op cc) rs' (async_write cc [b0, b1])"
  shows "map_prod flat_log flat_call (op_run (write_op_1 cc) rs (async_write_1 cc b))
      = map_prod flat_log flat_call (op_run (write_op cc) rs (async_write cc [b]))
    \<and> map_prod flat_log flat_call (op_run (write_op_2 cc) rs' (async_write_2 cc (b0, b1)))
      = map_prod flat_log flat_call (op_run (write_op cc) rs' (async_write cc [b0, b1]))"
  using assms async_write_1_flat [of cc rs b] async_write_2_flat [of cc rs' "(b0, b1)"]
  by (simp add: async_write_flat pair_region_def)

definition demo_buffers :: "buffer list" where
  "demo_buffers = [\<lparr>buffer_data = 10, buffer_len = 2\<rparr>, \<lparr>buffer_data = 20, buffer_len = 3\<rparr>]"

theorem specialised_transfers_witness:
  "map_prod flat_log flat_call (op_run (write_op_2 transfer_all) [(0, 3), (0, 2)] (async_write_2 transfer_all (demo_buffers ! 0, demo_buffers ! 1)))
   = ([([10, 11, 20, 21, 22], 3), ([21, 22], 2)], Some (0, 5))"
proof -
  have u: "[10 ..< 12] = [10, 11 :: nat]" "[20 ..< 23] = [20, 21, 22 :: nat]" by (simp_all add: upt_rec)
  have o: "stream_obeys (write_op transfer_all) [(0, 3), (0, 2)] (async_write transfer_all [demo_buffers ! 0, demo_buffers ! 1])"
    "stream_obeys (write_op transfer_all) [] (async_write transfer_all [demo_buffers ! 0])"
    unfolding async_write_flat
    by (simp_all add: demo_buffers_def region_def u transfer_all_def default_max_transfer_size_def)
  show ?thesis using specialised_transfers [OF o(2,1)] o(1)
    by (simp add: async_write_flat demo_buffers_def region_def u transfer_all_def default_max_transfer_size_def Let_def)
qed

text \<open>C33: a composed operation transfers the bytes of its buffers in order and without a gap.  When its
  handler is called, the count is what was transferred, and that is everything unless the condition
  said to stop (after an error, or when enough was transferred) or the stream transferred nothing;
  and it is called after at most one answer more than there are bytes.\<close>

theorem composed_transfer:
  assumes "stream_obeys (write_op cc) rs (async_write cc bs)" "op_run (write_op cc) rs (async_write cc bs) = (log, c)"
    and "\<And>ec t. ec \<noteq> 0 \<Longrightarrow> cc ec t = 0"
  shows "moved (flat_log log) = take (length (moved (flat_log log))) (addrs bs)
    \<and> (\<forall>ec t. c = Handler ec t \<longrightarrow> t = length (moved (flat_log log))
        \<and> (t = buffer_size bs \<or> cc ec t = 0 \<or> ec = 0 \<and> snd (List.last log) = 0))
    \<and> (buffer_size bs < length rs \<longrightarrow> (\<exists>ec t. c = Handler ec t))"
proof -
  have f: "flat_run cc rs (take (cc 0 0) (addrs bs)) 0 (addrs bs) = (flat_log log, flat_call c)"
    using async_write_flat(2) [OF assms(1)] assms(2) by simp
  note m = flat_run_moves [OF f assms(1) [unfolded async_write_flat(1)]]
  have "snd (List.last (flat_log log)) = snd (List.last log)" if "log \<noteq> []"
    using that by (simp add: flat_log_def last_map split_beta)
  moreover have "log \<noteq> []" if "flat_log log \<noteq> []" using that by (auto simp: flat_log_def)
  moreover have "\<exists>ec t. c = Handler ec t" if "buffer_size bs < length rs"
    using flat_run_ends [OF assms(3) f] that by (cases c) (simp_all add: buffer_size_addrs)
  ultimately show ?thesis using m by (auto simp: buffer_size_addrs)
qed

theorem composed_transfer_witness:
  "\<exists>log. op_run (write_op transfer_all) [(0, 3), (0, 2)] (async_write transfer_all demo_buffers) = (log, Handler 0 5)
    \<and> moved (flat_log log) = [10, 11, 20, 21, 22]"
proof -
  have u: "[10 ..< 12] = [10, 11 :: nat]" "[20 ..< 23] = [20, 21, 22 :: nat]" by (simp_all add: upt_rec)
  have o: "stream_obeys (write_op transfer_all) [(0, 3), (0, 2)] (async_write transfer_all demo_buffers)"
    unfolding async_write_flat
    by (simp add: demo_buffers_def region_def u transfer_all_def default_max_transfer_size_def)
  obtain log c where lc: "op_run (write_op transfer_all) [(0, 3), (0, 2)] (async_write transfer_all demo_buffers) = (log, c)"
    by (meson surj_pair)
  have "snd (map_prod flat_log flat_call (log, c)) = Some (0, 5)"
    unfolding lc [symmetric] async_write_flat(2) [OF o]
    by (simp add: demo_buffers_def region_def u transfer_all_def default_max_transfer_size_def Let_def)
  then have c: "c = Handler 0 5" by (cases c) simp_all
  have stop: "transfer_all ec t = 0" if "ec \<noteq> 0" for ec t using that by (simp add: transfer_all_def)
  note T = composed_transfer [OF o lc stop]
  have m: "length (moved (flat_log log)) = 5" using T by (simp add: c)
  show ?thesis using conjunct1 [OF T, unfolded m] lc by (simp add: c demo_buffers_def region_def u)
qed

subsection \<open>Packets\<close>

text \<open>\<open>async_write\<close> of a stream buffer: the bytes of \<open>data()\<close> are sent, and the handler consumes
  them.  Addresses are relative to the storage of the buffer.\<close>

definition data_region :: "streambuf \<Rightarrow> buffer" where
  "data_region b = \<lparr>buffer_data = sb_gptr b, buffer_len = sb_pptr b - sb_gptr b\<rparr>"

definition async_write_streambuf :: "streambuf \<Rightarrow> buffer op_call" where
  "async_write_streambuf b = async_write_1 transfer_all (data_region b)"

definition write_streambuf_handler :: "nat \<Rightarrow> streambuf \<Rightarrow> streambuf" where
  "write_streambuf_handler bytes_transferred b = sb_consume bytes_transferred b"

text \<open>\<open>async_read\<close> into what \<open>prepare(n)\<close> returned; the stream stores the bytes where it was told to.\<close>

definition prepared_region :: "nat \<Rightarrow> streambuf \<Rightarrow> buffer" where
  "prepared_region n b = \<lparr>buffer_data = sb_pptr b, buffer_len = n\<rparr>"

definition async_read_1 :: "completion_condition \<Rightarrow> buffer \<Rightarrow> buffer op_call" where
  "async_read_1 cc b = read_op_1 cc 0 0 1 (new_transfer b)"

fun deliver :: "nat list \<Rightarrow> bytes \<Rightarrow> bytes \<Rightarrow> bytes" where
  "deliver (a # as) (x # xs) buffer = deliver as xs (buffer[a := x])"
| "deliver _ _ buffer = buffer"

lemma deliver_upt:
  "a + length xs \<le> length buffer \<Longrightarrow>
    deliver [a ..< a + length xs] xs buffer = take a buffer @ xs @ drop (a + length xs) buffer"
proof (induction xs arbitrary: a buffer)
  case (Cons x xs)
  have "[a ..< a + length (x # xs)] = a # [Suc a ..< Suc a + length xs]" using upt_conv_Cons [of a "a + length (x # xs)"] by simp
  then show ?case using Cons.IH [of "Suc a" "buffer[a := x]"] Cons.prems
    by (simp add: take_Suc_conv_app_nth)
qed simp

lemma transfer_all_simps [simp]: "transfer_all 0 n = 65536" "ec \<noteq> 0 \<Longrightarrow> transfer_all ec n = 0"
  by (simp_all add: transfer_all_def default_max_transfer_size_def)

text \<open>A stream without an error transfers something when it is offered something.\<close>

lemma whole_buffer_moved:
  assumes "stream_obeys (write_op_1 transfer_all) rs (async_write_1 transfer_all b)"
    and "op_run (write_op_1 transfer_all) rs (async_write_1 transfer_all b) = (log, Handler 0 t)"
    and "\<forall>(off, n) \<in> set log. n = 0 \<longrightarrow> addrs off = []"
  shows "moved (flat_log log) = region b \<and> t = buffer_len b"
proof -
  have f: "flat_run transfer_all rs (take 65536 (region b)) 0 (region b) = (flat_log log, Some (0, t))"
    using async_write_1_flat(2) [OF assms(1)] assms(2) by simp
  have o: "flat_obeys transfer_all rs (take 65536 (region b)) 0 (region b)" using assms(1) async_write_1_flat(1) by simp
  note m = flat_run_moves [OF f o]
  have ne: "flat_log log \<noteq> []" using m by simp
  have "fst (List.last (flat_log log)) = []" if "snd (List.last (flat_log log)) = 0"
    using that ne assms(3) last_in_set [of log] by (cases "List.last log") (auto simp: flat_log_def last_map)
  then have "length (moved (flat_log log)) = length (region b)"
    using m flat_last_offered [OF f o _ ne] by auto
  then show ?thesis using m by simp
qed

lemma data_addrs: "sb_ok b \<Longrightarrow> map ((!) (sb_buffer b)) (region (data_region b)) = sb_data b"
  by (auto simp: region_def data_region_def sb_data_def sb_ok_def intro!: nth_equalityI)

text \<open>Writing a packet sends exactly its bytes, in order, and leaves the buffer empty; reading a
  packet of the announced length into a prepared buffer appends exactly the bytes received.\<close>

theorem packet_transfer:
  assumes b: "good_buffer b"
    and w1: "stream_obeys (write_op_1 transfer_all) rs (async_write_streambuf b)"
      "op_run (write_op_1 transfer_all) rs (async_write_streambuf b) = (log, Handler 0 t)"
      "\<forall>(off, n) \<in> set log. n = 0 \<longrightarrow> addrs off = []"
    and r1: "good_buffer b'" "sb_prepare n b' = Inr p" "n < 2 ^ 31"
      "stream_obeys (read_op_1 transfer_all) rs' (async_read_1 transfer_all (prepared_region n p))"
      "op_run (read_op_1 transfer_all) rs' (async_read_1 transfer_all (prepared_region n p)) = (log', Handler 0 t')"
      "\<forall>(off, n) \<in> set log'. n = 0 \<longrightarrow> addrs off = []" "length received = t'"
  shows "map ((!) (sb_buffer b)) (moved (flat_log log)) = sb_data b \<and> sb_data (write_streambuf_handler t b) = []
    \<and> sb_data (sb_commit t' (p\<lparr>sb_buffer := deliver (moved (flat_log log')) received (sb_buffer p)\<rparr>)) = sb_data b' @ received"
proof (intro conjI)
  have w: "moved (flat_log log) = region (data_region b)" "t = buffer_len (data_region b)"
    using whole_buffer_moved w1 by (simp_all add: async_write_streambuf_def)
  have ok: "sb_ok b" using b by (simp add: good_buffer_def)
  show "map ((!) (sb_buffer b)) (moved (flat_log log)) = sb_data b" using data_addrs [OF ok] w by simp
  show "sb_data (write_streambuf_handler t b) = []"
    using good_consume [OF b, of t] size_data [OF ok] w by (simp add: write_streambuf_handler_def data_region_def sb_size_def)
  have r: "moved (flat_log log') = region (prepared_region n p)" "t' = n"
    using whole_buffer_moved [of rs' "prepared_region n p" log' t'] r1
    by (simp_all add: async_read_1_def async_write_1_def read_op_1_def prepared_region_def)
  have p: "sb_ok p" "sb_data p = sb_data b'" "n \<le> sb_epptr p - sb_pptr p"
    using reserve_spec [of b' n] r1(1,2) by (auto simp: good_buffer_def sb_prepare_def)
  have "sb_pptr p + length received \<le> length (sb_buffer p)" using p(1,3) r(2) r1(7) unfolding sb_ok_def by linarith
  then have "deliver (moved (flat_log log')) received (sb_buffer p) = sb_buffer (sb_fill received p)"
    using deliver_upt [of "sb_pptr p" received "sb_buffer p"] r r1(7)
    by (simp add: region_def prepared_region_def sb_fill_def)
  then show "sb_data (sb_commit t' (p\<lparr>sb_buffer := deliver (moved (flat_log log')) received (sb_buffer p)\<rparr>)) = sb_data b' @ received"
    using commit_fill [OF p(1), of received] p r r1(3,7) by (simp add: sb_fill_def)
qed

theorem packet_transfer_witness:
  "\<exists>b p log log'. sb_write [1, 2, 3] (new_streambuf SIZE_MAX) = Inr b
    \<and> op_run (write_op_1 transfer_all) [(0, 1), (0, 2)] (async_write_streambuf b) = (log, Handler 0 3)
    \<and> op_run (read_op_1 transfer_all) [(0, 2)] (async_read_1 transfer_all (prepared_region 2 p)) = (log', Handler 0 2)
    \<and> map ((!) (sb_buffer b)) (moved (flat_log log)) = [1, 2, 3] \<and> sb_data (write_streambuf_handler 3 b) = []
    \<and> sb_data (sb_commit 2 (p\<lparr>sb_buffer := deliver (moved (flat_log log')) [8, 9] (sb_buffer p)\<rparr>)) = [1, 2, 3, 8, 9]"
proof -
  obtain b where b: "sb_write [1, 2, 3] (new_streambuf SIZE_MAX) = Inr b" "good_buffer b" "sb_data b = [1, 2, 3]"
    using good_write [OF good_new, of "[1, 2, 3]"] new_streambuf_ok [of SIZE_MAX] size_data [of "new_streambuf SIZE_MAX"] by auto
  have sz: "sb_pptr b - sb_gptr b = 3" using size_data [of b] b by (simp add: good_buffer_def sb_size_def)
  obtain p where p: "sb_prepare 2 b = Inr p"
    using reserve_ok [of b 2] b size_data [of b] by (auto simp: good_buffer_def sb_prepare_def SIZE_MAX_def)
  note ops = Let_def write_op_1_def read_op_1_def async_write_streambuf_def async_write_1_def async_read_1_def
    data_region_def prepared_region_def sz
  define w where "w = op_run (write_op_1 transfer_all) [(0, 1), (0, 2)] (async_write_streambuf b)"
  define r where "r = op_run (read_op_1 transfer_all) [(0, 2)] (async_read_1 transfer_all (prepared_region 2 p))"
  have w: "snd w = Handler 0 3" "\<forall>(off, n) \<in> set (fst w). n \<noteq> 0" by (simp_all add: w_def ops)
  have r: "snd r = Handler 0 2" "\<forall>(off, n) \<in> set (fst r). n \<noteq> 0" by (simp_all add: r_def ops)
  have e: "op_run (write_op_1 transfer_all) [(0, 1), (0, 2)] (async_write_streambuf b) = (fst w, Handler 0 3)"
    "op_run (read_op_1 transfer_all) [(0, 2)] (async_read_1 transfer_all (prepared_region 2 p)) = (fst r, Handler 0 2)"
    using w(1) r(1) unfolding w_def r_def by (metis prod.collapse)+
  have o: "stream_obeys (write_op_1 transfer_all) [(0, 1), (0, 2)] (async_write_streambuf b)"
    "stream_obeys (read_op_1 transfer_all) [(0, 2)] (async_read_1 transfer_all (prepared_region 2 p))" by (simp_all add: ops)
  have "\<forall>(off, n) \<in> set (fst w). n = 0 \<longrightarrow> addrs off = []" "\<forall>(off, n) \<in> set (fst r). n = 0 \<longrightarrow> addrs off = []"
    using w(2) r(2) by auto
  from packet_transfer [OF b(2) o(1) e(1) this(1) b(2) p _ o(2) e(2) this(2), of "[8, 9]"] b e show ?thesis by auto
qed

end
