(* ===== verification/SocketOps.thy ===== *)
theory SocketOps
  imports Buffers
begin

text \<open>
  The calls asio makes of the operating system for its sockets, on Linux
  (\<^verbatim>\<open>deps/asio/1.10.6/include/asio/detail/impl/socket_ops.ipp\<close>, \<^verbatim>\<open>socket_ops.hpp\<close>,
  \<^verbatim>\<open>buffer_sequence_adapter.hpp\<close>).  A system call is its answer: what it returned and the
  \<open>errno\<close> it left.  A loop that retries takes the answers in order and has no result yet when they run
  out.  The theorem: what a non-blocking operation reports is what the first call that was not
  interrupted by a signal answered, with end of stream, readiness and errors told apart.
\<close>

unbundle bit_operations_syntax

subsection \<open>Error codes\<close>

text \<open>The system category and the \<open>misc\<close> category of asio.\<close>

datatype asio_error = Sys int | Misc int

definition no_error :: asio_error where "no_error = Sys 0"
definition interrupted :: asio_error where "interrupted = Sys 4"
definition bad_descriptor :: asio_error where "bad_descriptor = Sys 9"
definition would_block :: asio_error where "would_block = Sys 11"
definition try_again :: asio_error where "try_again = Sys 11"
definition invalid_argument :: asio_error where "invalid_argument = Sys 22"
definition eproto :: asio_error where "eproto = Sys 71"
definition connection_aborted :: asio_error where "connection_aborted = Sys 103"
definition no_buffer_space :: asio_error where "no_buffer_space = Sys 105"
definition in_progress :: asio_error where "in_progress = Sys 115"
definition already_open :: asio_error where "already_open = Misc 1"
definition eof :: asio_error where "eof = Misc 2"

lemmas error_defs = no_error_def interrupted_def bad_descriptor_def would_block_def try_again_def invalid_argument_def
  eproto_def connection_aborted_def no_buffer_space_def in_progress_def already_open_def eof_def

subsection \<open>State and answers\<close>

type_synonym state_type = u8

definition user_set_non_blocking :: state_type where "user_set_non_blocking = 1"
definition internal_non_blocking :: state_type where "internal_non_blocking = 2"
definition non_blocking :: state_type where "non_blocking = user_set_non_blocking OR internal_non_blocking"
definition enable_connection_aborted :: state_type where "enable_connection_aborted = 4"
definition user_set_linger :: state_type where "user_set_linger = 8"
definition stream_oriented :: state_type where "stream_oriented = 16"
definition datagram_oriented :: state_type where "datagram_oriented = 32"
definition possible_dup :: state_type where "possible_dup = 64"

definition state_flag :: "state_type \<Rightarrow> state_type \<Rightarrow> bool" where
  "state_flag state flag \<longleftrightarrow> state AND flag \<noteq> 0"

definition invalid_socket :: int where "invalid_socket = -1"
definition socket_error_retval :: int where "socket_error_retval = -1"

type_synonym answer = "int \<times> int"

definition error_wrapper :: "answer \<Rightarrow> int \<times> asio_error" where
  "error_wrapper a = (fst a, Sys (snd a))"

subsection \<open>Single calls\<close>

definition so_accept :: "int \<Rightarrow> answer \<Rightarrow> int \<times> asio_error" where
  "so_accept s a =
     (if s = invalid_socket then (invalid_socket, bad_descriptor)
      else let (new_s, ec) = error_wrapper a
           in if new_s = invalid_socket then (new_s, ec) else (new_s, no_error))"

text \<open>\<open>bind\<close>, \<open>listen\<close>, \<open>shutdown\<close>, \<open>getpeername\<close> and \<open>getsockname\<close> have one shape.\<close>

definition so_call :: "int \<Rightarrow> answer \<Rightarrow> int \<times> asio_error" where
  "so_call s a =
     (if s = invalid_socket then (socket_error_retval, bad_descriptor)
      else let (result, ec) = error_wrapper a in (result, if result = 0 then no_error else ec))"

definition so_bind :: "int \<Rightarrow> answer \<Rightarrow> int \<times> asio_error" where "so_bind = so_call"
definition so_listen :: "int \<Rightarrow> answer \<Rightarrow> int \<times> asio_error" where "so_listen = so_call"
definition so_shutdown :: "int \<Rightarrow> answer \<Rightarrow> int \<times> asio_error" where "so_shutdown = so_call"
definition so_getpeername :: "int \<Rightarrow> answer \<Rightarrow> int \<times> asio_error" where "so_getpeername = so_call"
definition so_getsockname :: "int \<Rightarrow> answer \<Rightarrow> int \<times> asio_error" where "so_getsockname = so_call"

definition so_socket :: "answer \<Rightarrow> int \<times> asio_error" where
  "so_socket a = (let (s, ec) = error_wrapper a in (s, if s \<ge> 0 then no_error else ec))"

definition so_connect :: "int \<Rightarrow> answer \<Rightarrow> int \<times> asio_error" where
  "so_connect s a =
     (if s = invalid_socket then (socket_error_retval, bad_descriptor)
      else let (result, ec) = error_wrapper a
           in (result, if result = 0 then no_error else if ec = try_again then no_buffer_space else ec))"

definition so_recv :: "answer \<Rightarrow> int \<times> asio_error" where
  "so_recv a = (let (result, ec) = error_wrapper a in (result, if result \<ge> 0 then no_error else ec))"

definition so_send :: "answer \<Rightarrow> int \<times> asio_error" where
  "so_send a = (let (result, ec) = error_wrapper a in (result, if result \<ge> 0 then no_error else ec))"

definition set_user_non_blocking :: "int \<Rightarrow> state_type \<Rightarrow> bool \<Rightarrow> answer \<Rightarrow> bool \<times> asio_error \<times> state_type" where
  "set_user_non_blocking s state value a =
     (if s = invalid_socket then (False, bad_descriptor, state)
      else let (result, ec) = error_wrapper a
           in if result \<ge> 0
              then (True, no_error, if value then state OR user_set_non_blocking
                      else state AND NOT (user_set_non_blocking OR internal_non_blocking))
              else (False, ec, state))"

definition set_internal_non_blocking :: "int \<Rightarrow> state_type \<Rightarrow> bool \<Rightarrow> answer \<Rightarrow> bool \<times> asio_error \<times> state_type" where
  "set_internal_non_blocking s state value a =
     (if s = invalid_socket then (False, bad_descriptor, state)
      else if \<not> value \<and> state_flag state user_set_non_blocking then (False, invalid_argument, state)
      else let (result, ec) = error_wrapper a
           in if result \<ge> 0
              then (True, no_error, if value then state OR internal_non_blocking else state AND NOT internal_non_blocking)
              else (False, ec, state))"

text \<open>\<open>fionbio\<close>: whether the command is \<open>FIONBIO\<close>; \<open>arg\<close>: whether \<open>*arg\<close> is not 0.\<close>

definition so_ioctl :: "int \<Rightarrow> state_type \<Rightarrow> bool \<Rightarrow> bool \<Rightarrow> answer \<Rightarrow> int \<times> asio_error \<times> state_type" where
  "so_ioctl s state fionbio arg a =
     (if s = invalid_socket then (socket_error_retval, bad_descriptor, state)
      else let (result, ec) = error_wrapper a
           in if result \<ge> 0
              then (result, no_error, if fionbio then (if arg then state OR user_set_non_blocking
                      else state AND NOT (user_set_non_blocking OR internal_non_blocking)) else state)
              else (result, ec, state))"

text \<open>\<open>a\<close> and \<open>b\<close>: the answers to the two calls of \<open>close\<close>.  The calls of \<open>setsockopt\<close> and \<open>ioctl\<close> in
  it have no result that is used.\<close>

definition so_close :: "int \<Rightarrow> state_type \<Rightarrow> bool \<Rightarrow> answer \<Rightarrow> answer \<Rightarrow> int \<times> asio_error \<times> state_type" where
  "so_close s state destruction a b =
     (if s = invalid_socket then (0, no_error, state)
      else let state = (if destruction \<and> state_flag state user_set_linger then state OR user_set_linger else state);
               (result, ec) = error_wrapper a;
               retry = (result \<noteq> 0 \<and> (ec = would_block \<or> ec = try_again));
               state = (if retry then state AND NOT non_blocking else state);
               (result, ec) = (if retry then error_wrapper b else (result, ec))
           in (result, if result = 0 then no_error else ec, state))"

definition custom_socket_option_level :: int where "custom_socket_option_level = 0xA5100000"
definition enable_connection_aborted_option :: int where "enable_connection_aborted_option = 1"
definition always_fail_option :: int where "always_fail_option = 2"
definition SOL_SOCKET :: int where "SOL_SOCKET = 1"
definition SO_LINGER :: int where "SO_LINGER = 13"
definition SO_SNDBUF :: int where "SO_SNDBUF = 7"
definition SO_RCVBUF :: int where "SO_RCVBUF = 8"

definition so_setsockopt :: "int \<Rightarrow> state_type \<Rightarrow> int \<Rightarrow> int \<Rightarrow> int \<Rightarrow> nat \<Rightarrow> answer \<Rightarrow> int \<times> asio_error \<times> state_type" where
  "so_setsockopt s state level optname optval optlen a =
     (if s = invalid_socket then (socket_error_retval, bad_descriptor, state)
      else if level = custom_socket_option_level \<and> optname = always_fail_option
      then (socket_error_retval, invalid_argument, state)
      else if level = custom_socket_option_level \<and> optname = enable_connection_aborted_option
      then if optlen \<noteq> 4 then (socket_error_retval, invalid_argument, state)
           else (0, no_error, if optval \<noteq> 0 then state OR enable_connection_aborted else state AND NOT enable_connection_aborted)
      else let state = (if level = SOL_SOCKET \<and> optname = SO_LINGER then state OR user_set_linger else state);
               (result, ec) = error_wrapper a
           in (result, if result = 0 then no_error else ec, state))"

text \<open>For an option of type \<open>int\<close>; \<open>v\<close> is the value the system call stores.\<close>

definition so_getsockopt :: "int \<Rightarrow> state_type \<Rightarrow> int \<Rightarrow> int \<Rightarrow> answer \<Rightarrow> int \<Rightarrow> int \<times> asio_error \<times> int" where
  "so_getsockopt s state level optname a v =
     (if s = invalid_socket then (socket_error_retval, bad_descriptor, 0)
      else if level = custom_socket_option_level \<and> optname = always_fail_option then (socket_error_retval, invalid_argument, 0)
      else if level = custom_socket_option_level \<and> optname = enable_connection_aborted_option
      then (0, no_error, if state_flag state enable_connection_aborted then 1 else 0)
      else let (result, ec) = error_wrapper a
           in (result, if result = 0 then no_error else ec,
               if result = 0 \<and> level = SOL_SOCKET \<and> (optname = SO_SNDBUF \<or> optname = SO_RCVBUF) then v div 2 else v))"

subsection \<open>Operations that do not block\<close>

text \<open>The result: finished or to be tried again, the error code, and what was transferred, which keeps
  its value when the operation is to be tried again.\<close>

fun non_blocking_recv :: "bool \<Rightarrow> answer list \<Rightarrow> nat \<Rightarrow> (bool \<times> asio_error \<times> nat) option" where
  "non_blocking_recv is_stream [] n = None"
| "non_blocking_recv is_stream (a # as) n =
     (let (bytes, ec) = so_recv a
      in if is_stream \<and> bytes = 0 then Some (True, eof, n)
         else if ec = interrupted then non_blocking_recv is_stream as n
         else if ec = would_block \<or> ec = try_again then Some (False, ec, n)
         else if bytes \<ge> 0 then Some (True, no_error, nat bytes)
         else Some (True, ec, 0))"

fun non_blocking_send :: "answer list \<Rightarrow> nat \<Rightarrow> (bool \<times> asio_error \<times> nat) option" where
  "non_blocking_send [] n = None"
| "non_blocking_send (a # as) n =
     (let (bytes, ec) = so_send a
      in if ec = interrupted then non_blocking_send as n
         else if ec = would_block \<or> ec = try_again then Some (False, ec, n)
         else if bytes \<ge> 0 then Some (True, no_error, nat bytes)
         else Some (True, ec, 0))"

fun non_blocking_accept :: "int \<Rightarrow> state_type \<Rightarrow> answer list \<Rightarrow> (bool \<times> asio_error \<times> int) option" where
  "non_blocking_accept s state [] = None"
| "non_blocking_accept s state (a # as) =
     (let (new_socket, ec) = so_accept s a
      in if new_socket \<noteq> invalid_socket then Some (True, ec, new_socket)
         else if ec = interrupted then non_blocking_accept s state as
         else if ec = would_block \<or> ec = try_again then Some (state_flag state user_set_non_blocking, ec, new_socket)
         else if ec = connection_aborted then Some (state_flag state enable_connection_aborted, ec, new_socket)
         else if ec = eproto then Some (state_flag state enable_connection_aborted, ec, new_socket)
         else Some (True, ec, new_socket))"

text \<open>\<open>ready\<close>: the answer to \<open>poll\<close>; \<open>a\<close> and \<open>connect_error\<close>: the answer to \<open>getsockopt\<close> and the value of
  \<open>SO_ERROR\<close>; \<open>ec\<close>: the error code before.\<close>

definition non_blocking_connect :: "int \<Rightarrow> int \<Rightarrow> answer \<Rightarrow> int \<Rightarrow> asio_error \<Rightarrow> bool \<times> asio_error" where
  "non_blocking_connect s ready a connect_error ec =
     (if ready = 0 then (False, ec)
      else let (result, ec, connect_error) = so_getsockopt s 0 SOL_SOCKET 4 a connect_error
           in (True, if result = 0 then (if connect_error \<noteq> 0 then Sys connect_error else no_error) else ec))"

subsection \<open>Native buffers\<close>

definition max_buffers :: nat where "max_buffers = 64"

definition native_buffers :: "buffer list \<Rightarrow> buffer list" where
  "native_buffers bs = take max_buffers bs"

definition all_empty :: "buffer list \<Rightarrow> bool" where
  "all_empty bs = list_all (\<lambda>b. buffer_len b = 0) (take max_buffers bs)"

lemma all_empty_native: "all_empty bs \<longleftrightarrow> addrs (native_buffers bs) = []"
  by (simp add: all_empty_def native_buffers_def addrs_def list_all_iff)

subsection \<open>What a non-blocking operation reports\<close>

datatype io_result = Transferred nat | End_of_stream | Not_ready | Failed asio_error

fun reported :: "bool \<times> asio_error \<times> nat \<Rightarrow> io_result" where
  "reported (finished, ec, n) =
     (if \<not> finished then Not_ready else if ec = eof then End_of_stream else if ec = no_error then Transferred n else Failed ec)"

fun answered :: "bool \<Rightarrow> answer \<Rightarrow> io_result" where
  "answered is_stream (r, e) =
     (if r > 0 then Transferred (nat r) else if r = 0 then (if is_stream then End_of_stream else Transferred 0)
      else if e = 11 then Not_ready else Failed (Sys e))"

text \<open>A call that fails sets \<open>errno\<close>.\<close>

definition errno_set :: "answer \<Rightarrow> bool" where
  "errno_set a \<longleftrightarrow> (fst a < 0 \<longrightarrow> snd a \<noteq> 0)"

definition was_interrupted :: "answer \<Rightarrow> bool" where
  "was_interrupted a \<longleftrightarrow> fst a < 0 \<and> snd a = 4"

lemma recv_reports:
  "(\<forall>a \<in> set as. errno_set a) \<Longrightarrow>
    map_option reported (non_blocking_recv st as n) = map_option (answered st) (find (\<lambda>a. \<not> was_interrupted a) as)"
proof (induction as)
  case (Cons a as)
  obtain r e where a: "a = (r, e)" by (cases a)
  show ?case using Cons
    by (auto simp: a so_recv_def error_wrapper_def error_defs was_interrupted_def errno_set_def)
qed simp

lemma send_reports:
  "(\<forall>a \<in> set as. errno_set a) \<Longrightarrow>
    map_option reported (non_blocking_send as n) = map_option (answered False) (find (\<lambda>a. \<not> was_interrupted a) as)"
proof (induction as)
  case (Cons a as)
  obtain r e where a: "a = (r, e)" by (cases a)
  show ?case using Cons
    by (auto simp: a so_send_def error_wrapper_def error_defs was_interrupted_def errno_set_def)
qed simp

text \<open>What a non-blocking receive or send reports to the reactor is what the first system call
  that no signal interrupted answered: the bytes transferred, the end of the stream (for a receive of 0
  bytes on a stream), not ready, or the error; and it returns just when there is such a call.\<close>

theorem non_blocking_io:
  assumes "\<forall>a \<in> set as. errno_set a"
  shows "map_option reported (non_blocking_recv st as n) = map_option (answered st) (find (\<lambda>a. \<not> was_interrupted a) as)
    \<and> map_option reported (non_blocking_send as n) = map_option (answered False) (find (\<lambda>a. \<not> was_interrupted a) as)
    \<and> (non_blocking_recv st as n = None \<longleftrightarrow> list_all was_interrupted as)
    \<and> (non_blocking_send as n = None \<longleftrightarrow> list_all was_interrupted as)"
proof -
  note r = recv_reports [OF assms, of st n] and s = send_reports [OF assms, of n]
  have f: "find (\<lambda>a. \<not> was_interrupted a) as = None \<longleftrightarrow> list_all was_interrupted as"
    by (auto simp: find_None_iff list_all_iff)
  have "non_blocking_recv st as n = None \<longleftrightarrow> list_all was_interrupted as"
    unfolding f [symmetric] using arg_cong [OF r, of "\<lambda>x. x = None"] by simp
  moreover have "non_blocking_send as n = None \<longleftrightarrow> list_all was_interrupted as"
    unfolding f [symmetric] using arg_cong [OF s, of "\<lambda>x. x = None"] by simp
  ultimately show ?thesis using r s by simp
qed

theorem non_blocking_io_witness:
  "map_option reported (non_blocking_recv True [(-1, 4), (0, 0)] 7) = Some End_of_stream
    \<and> map_option reported (non_blocking_send [(-1, 4), (-1, 11)] 0) = Some Not_ready"
  using non_blocking_io [of "[(-1, 4), (0, 0)]" True 7] non_blocking_io [of "[(-1, 4), (-1, 11)]" True 0]
  by (simp add: was_interrupted_def errno_set_def)

end
