(* ===== verification/SocketService.thy ===== *)
theory SocketService
  imports SocketOps Reactor
begin

text \<open>
  A socket of asio (\<^verbatim>\<open>deps/asio/1.10.6/include/asio/detail/reactive_socket_service_base.hpp\<close>, its
  \<^verbatim>\<open>.ipp\<close> and \<^verbatim>\<open>reactive_socket_service.hpp\<close>): its descriptor, its flags, and its part of the
  reactor.  \<open>sk_nonblock\<close> is the kernel's: whether the descriptor is in non-blocking mode.  The
  theorems: an operation is started in the reactor only on a descriptor in non-blocking mode, which only a
  call that clears the mode ends, closing a socket ends all its operations, and an accept is not tried
  before it is queued.
\<close>

unbundle bit_operations_syntax

subsection \<open>State\<close>

text \<open>\<open>sk_now\<close>: the operations posted without the reactor, with the error they carry; \<open>sk_started\<close>:
  all that were started.\<close>

record 'o sock =
  sk_socket :: int
  sk_state :: state_type
  sk_rx :: "'o reactor"
  sk_nonblock :: bool
  sk_now :: "(op_type \<times> 'o \<times> asio_error) list"
  sk_started :: "(op_type \<times> 'o) list"

definition sk_construct :: "'o sock \<Rightarrow> 'o sock" where
  "sk_construct s = s\<lparr>sk_socket := invalid_socket, sk_state := 0\<rparr>"

definition new_sock :: "'o sock" where
  "new_sock = sk_construct \<lparr>sk_socket = 0, sk_state = 0, sk_rx = new_reactor, sk_nonblock = False, sk_now = [], sk_started = []\<rparr>"

definition is_open :: "'o sock \<Rightarrow> bool" where
  "is_open s \<longleftrightarrow> sk_socket s \<noteq> invalid_socket"

subsection \<open>Opening and closing\<close>

definition socket_kind :: "int \<Rightarrow> state_type" where
  "socket_kind type = (if type = 1 then stream_oriented else if type = 2 then datagram_oriented else 0)"

text \<open>\<open>a\<close>: the answer to \<open>socket\<close>; \<open>err\<close>: what \<open>register_descriptor\<close> returns.  When it fails, the
  descriptor is closed by its holder; nothing refers to the state the reactor allocated.\<close>

definition sk_open :: "int \<Rightarrow> answer \<Rightarrow> int \<Rightarrow> 'o sock \<Rightarrow> asio_error \<times> 'o sock" where
  "sk_open type a err s =
     (if is_open s then (already_open, s)
      else let (sock, ec) = so_socket a
           in if sock = invalid_socket then (ec, s)
              else if err \<noteq> 0 then (Sys err, s)
              else (no_error, s\<lparr>sk_socket := sock, sk_state := socket_kind type, sk_rx := register_descriptor (sk_rx s), sk_nonblock := False\<rparr>))"

text \<open>\<open>mode\<close>: whether the assigned descriptor is in non-blocking mode; one from \<open>accept\<close> is not.\<close>

definition sk_assign :: "int \<Rightarrow> int \<Rightarrow> bool \<Rightarrow> int \<Rightarrow> 'o sock \<Rightarrow> asio_error \<times> 'o sock" where
  "sk_assign type native mode err s =
     (if is_open s then (already_open, s)
      else if err \<noteq> 0 then (Sys err, s)
      else (no_error, s\<lparr>sk_socket := native, sk_state := socket_kind type OR possible_dup, sk_rx := register_descriptor (sk_rx s), sk_nonblock := mode\<rparr>))"

definition sk_close :: "answer \<Rightarrow> answer \<Rightarrow> 'o sock \<Rightarrow> asio_error \<times> 'o sock" where
  "sk_close a b s =
     (let s = (if is_open s then s\<lparr>sk_rx := deregister_descriptor (sk_rx s)\<rparr> else s);
          (_, ec, state) = so_close (sk_socket s) (sk_state s) False a b
      in (ec, sk_construct (s\<lparr>sk_state := state\<rparr>)))"

definition sk_destroy :: "answer \<Rightarrow> answer \<Rightarrow> 'o sock \<Rightarrow> 'o sock" where
  "sk_destroy a b s =
     (if is_open s
      then case so_close (sk_socket s) (sk_state s) True a b of
             (_, _, state) \<Rightarrow> s\<lparr>sk_rx := deregister_descriptor (sk_rx s), sk_state := state\<rparr>
      else s)"

definition sk_cancel :: "'o sock \<Rightarrow> asio_error \<times> 'o sock" where
  "sk_cancel s = (if \<not> is_open s then (bad_descriptor, s) else (no_error, s\<lparr>sk_rx := cancel_ops (sk_rx s)\<rparr>))"

text \<open>\<open>non_blocking\<close>, \<open>native_non_blocking\<close> and \<open>io_control\<close>: \<open>a\<close> is the answer to \<open>ioctl\<close>, which
  sets the mode of the kernel when it succeeds.\<close>

definition sk_non_blocking :: "bool \<Rightarrow> answer \<Rightarrow> 'o sock \<Rightarrow> asio_error \<times> 'o sock" where
  "sk_non_blocking mode a s =
     (case set_user_non_blocking (sk_socket s) (sk_state s) mode a of
        (ok, ec, state) \<Rightarrow> (ec, s\<lparr>sk_state := state, sk_nonblock := (if ok then mode else sk_nonblock s)\<rparr>))"

definition sk_native_non_blocking :: "bool \<Rightarrow> answer \<Rightarrow> 'o sock \<Rightarrow> asio_error \<times> 'o sock" where
  "sk_native_non_blocking mode a s =
     (case set_internal_non_blocking (sk_socket s) (sk_state s) mode a of
        (ok, ec, state) \<Rightarrow> (ec, s\<lparr>sk_state := state, sk_nonblock := (if ok then mode else sk_nonblock s)\<rparr>))"

definition sk_io_control :: "bool \<Rightarrow> bool \<Rightarrow> answer \<Rightarrow> 'o sock \<Rightarrow> asio_error \<times> 'o sock" where
  "sk_io_control fionbio arg a s =
     (case so_ioctl (sk_socket s) (sk_state s) fionbio arg a of
        (result, ec, state) \<Rightarrow>
          (ec, s\<lparr>sk_state := state, sk_nonblock := (if result \<ge> 0 \<and> fionbio then arg else sk_nonblock s)\<rparr>))"

subsection \<open>Starting operations\<close>

text \<open>The operation is posted with the error code it has.\<close>

definition sk_post_now :: "op_type \<Rightarrow> 'o \<Rightarrow> asio_error \<Rightarrow> 'o sock \<Rightarrow> 'o sock" where
  "sk_post_now d op ec s = s\<lparr>sk_now := sk_now s @ [(d, op, ec)]\<rparr>"

text \<open>\<open>(state_ & non_blocking) || set_internal_non_blocking(...)\<close>, with the answer \<open>io\<close> to \<open>ioctl\<close>.\<close>

definition sk_make_non_blocking :: "answer \<Rightarrow> 'o sock \<Rightarrow> bool \<times> asio_error \<times> 'o sock" where
  "sk_make_non_blocking io s =
     (if state_flag (sk_state s) non_blocking then (True, no_error, s)
      else case set_internal_non_blocking (sk_socket s) (sk_state s) True io of
             (ok, ec, state) \<Rightarrow> (ok, ec, s\<lparr>sk_state := state, sk_nonblock := (if ok then True else sk_nonblock s)\<rparr>))"

definition sk_start_op :: "op_type \<Rightarrow> 'o \<Rightarrow> bool \<Rightarrow> bool \<Rightarrow> answer \<Rightarrow> bool \<Rightarrow> 'o sock \<Rightarrow> 'o sock" where
  "sk_start_op d op is_non_blocking noop io ctl s =
     (let s = s\<lparr>sk_started := sk_started s @ [(d, op)]\<rparr>
      in if noop then sk_post_now d op no_error s
         else case sk_make_non_blocking io s of
                (ok, ec, s) \<Rightarrow>
                  if ok then s\<lparr>sk_rx := start_op d is_non_blocking ctl op (sk_rx s)\<rparr>
                  else sk_post_now d op ec s)"

definition sk_start_accept_op :: "'o \<Rightarrow> bool \<Rightarrow> bool \<Rightarrow> answer \<Rightarrow> bool \<Rightarrow> 'o sock \<Rightarrow> 'o sock" where
  "sk_start_accept_op op is_continuation peer_is_open io ctl s =
     (if \<not> peer_is_open then sk_start_op ReadOp op is_continuation False io ctl s
      else sk_post_now ReadOp op already_open (s\<lparr>sk_started := sk_started s @ [(ReadOp, op)]\<rparr>))"

text \<open>\<open>a\<close>: the answer to \<open>connect\<close>.\<close>

definition sk_start_connect_op :: "'o \<Rightarrow> answer \<Rightarrow> answer \<Rightarrow> bool \<Rightarrow> 'o sock \<Rightarrow> 'o sock" where
  "sk_start_connect_op op io a ctl s =
     (let s = s\<lparr>sk_started := sk_started s @ [(WriteOp, op)]\<rparr>
      in case sk_make_non_blocking io s of
           (ok, ec, s) \<Rightarrow>
             if \<not> ok then sk_post_now WriteOp op ec s
             else case so_connect (sk_socket s) a of
                    (result, ec) \<Rightarrow>
                      if result \<noteq> 0 \<and> (ec = in_progress \<or> ec = would_block)
                      then s\<lparr>sk_rx := start_op WriteOp False ctl op (sk_rx s)\<rparr>
                      else sk_post_now WriteOp op ec s)"

definition sk_async_send :: "'o \<Rightarrow> buffer list \<Rightarrow> answer \<Rightarrow> bool \<Rightarrow> 'o sock \<Rightarrow> 'o sock" where
  "sk_async_send op bs io ctl s = sk_start_op WriteOp op True (state_flag (sk_state s) stream_oriented \<and> all_empty bs) io ctl s"

definition sk_async_receive :: "'o \<Rightarrow> buffer list \<Rightarrow> bool \<Rightarrow> answer \<Rightarrow> bool \<Rightarrow> 'o sock \<Rightarrow> 'o sock" where
  "sk_async_receive op bs out_of_band io ctl s =
     sk_start_op (if out_of_band then ExceptOp else ReadOp) op (\<not> out_of_band)
       (state_flag (sk_state s) stream_oriented \<and> all_empty bs) io ctl s"

subsection \<open>Runs\<close>

datatype 'o sock_event =
  Open int answer int | Assign int int bool int | Close answer answer | CancelAll
| Send 'o "buffer list" answer bool | Receive 'o "buffer list" bool answer bool | Accept 'o bool bool answer bool | Connect 'o answer answer bool
| Mode bool answer | NativeMode bool answer | IoControl bool bool answer
| KernelStep op_type nat bool | PollStep "op_type \<Rightarrow> bool" | RunEvents nat | RunNext

fun sock_step :: "'o sock_event \<Rightarrow> 'o sock \<Rightarrow> 'o sock" where
  "sock_step (Open type a err) s = snd (sk_open type a err s)"
| "sock_step (Assign type native mode err) s = snd (sk_assign type native mode err s)"
| "sock_step (Close a b) s = snd (sk_close a b s)"
| "sock_step CancelAll s = snd (sk_cancel s)"
| "sock_step (Send op bs io ctl) s = sk_async_send op bs io ctl s"
| "sock_step (Receive op bs oob io ctl) s = sk_async_receive op bs oob io ctl s"
| "sock_step (Accept op cont peer io ctl) s = sk_start_accept_op op cont peer io ctl s"
| "sock_step (Connect op io a ctl) s = sk_start_connect_op op io a ctl s"
| "sock_step (Mode mode a) s = snd (sk_non_blocking mode a s)"
| "sock_step (NativeMode mode a) s = snd (sk_native_non_blocking mode a s)"
| "sock_step (IoControl fionbio arg a) s = snd (sk_io_control fionbio arg a s)"
| "sock_step (KernelStep d n spurious) s = s\<lparr>sk_rx := kernel_change d n spurious (sk_rx s)\<rparr>"
| "sock_step (PollStep extra) s = s\<lparr>sk_rx := reactor_poll extra (sk_rx s)\<rparr>"
| "sock_step (RunEvents i) s = s\<lparr>sk_rx := descriptor_complete i (sk_rx s)\<rparr>"
| "sock_step RunNext s = s\<lparr>sk_rx := run_posted (sk_rx s)\<rparr>"

fun sock_enabled :: "'o sock \<Rightarrow> 'o sock_event \<Rightarrow> bool" where
  "sock_enabled s (RunEvents i) = (i < length (rx_events (sk_rx s)))"
| "sock_enabled s (Assign type native mode err) = (native \<noteq> invalid_socket)"
| "sock_enabled s _ = True"

text \<open>The calls that take a descriptor out of non-blocking mode, with operations on it or not.\<close>

fun clears_mode :: "'o sock_event \<Rightarrow> bool" where
  "clears_mode (Mode mode a) = (\<not> mode)"
| "clears_mode (NativeMode mode a) = (\<not> mode)"
| "clears_mode (IoControl fionbio arg a) = (fionbio \<and> \<not> arg)"
| "clears_mode _ = False"

text \<open>\<open>clears\<close>: whether such calls occur in the run.\<close>

inductive sock_reach :: "bool \<Rightarrow> 'o sock \<Rightarrow> bool" for clears where
  sk_new: "sock_reach clears new_sock"
| sk_step: "sock_reach clears s \<Longrightarrow> sock_enabled s ev \<Longrightarrow> clears \<or> \<not> clears_mode ev \<Longrightarrow> sock_reach clears (sock_step ev s)"

subsection \<open>What the reactor keeps\<close>

text \<open>\<open>calm s s'\<close>: a step of the reactor that neither registers nor deregisters, and fills no queue.\<close>

definition calm :: "'o reactor \<Rightarrow> 'o reactor \<Rightarrow> bool" where
  "calm s s' \<longleftrightarrow> rx_data s' = rx_data s \<and> rx_shutdown s' = rx_shutdown s \<and> (\<forall>d. rx_queue s d = [] \<longrightarrow> rx_queue s' d = [])
     \<and> rx_started s' = rx_started s"

lemma calm_steps:
  "calm s (kernel_change d n spurious s)" "calm s (reactor_poll extra s)" "calm s (run_posted s)" "calm s (cancel_ops s)"
  "calm s (descriptor_complete i s)"
proof -
  show "calm s (kernel_change d n spurious s)" "calm s (reactor_poll extra s)" "calm s (run_posted s)" "calm s (cancel_ops s)"
    by (auto simp: calm_def kernel_change_def reactor_poll_def run_posted_def cancel_ops_def finish_def reactor_post_deferred_def
        Let_def split: list.split)
  let ?s = "s\<lparr>rx_events := take i (rx_events s) @ drop (Suc i) (rx_events s)\<rparr>"
  obtain ops s' where p: "perform_io (rx_events s ! i) ?s = (ops, s')" by (cases "perform_io (rx_events s ! i) ?s")
  obtain q a where m: "\<forall>d. rx_queue ?s d = map fst (of_type d ops) @ rx_queue s' d"
      "s' = ?s\<lparr>rx_queue := q, rx_avail := a, rx_log := rx_log ?s @ ops\<rparr>"
    using perform_io_moves [OF p] by auto
  have "calm s s'" using m(1) by (auto simp: calm_def m(2))
  then show "calm s (descriptor_complete i s)"
    by (simp add: descriptor_complete_def p calm_def reactor_post_deferred_def split: list.split)
qed

lemma start_op_keeps:
  "rx_data (start_op d spec ctl op s) = rx_data s" "rx_shutdown (start_op d spec ctl op s) = rx_shutdown s"
  "rx_started (start_op d spec ctl op s) = rx_started s @ [(d, op)]"
  by (auto simp: start_op_def start_now_def perform_def rearm_def enqueue_op_def reactor_post_immediate_def finish_def Let_def)

lemma deregister_closes:
  "rx_data s \<Longrightarrow> \<not> rx_shutdown s \<Longrightarrow> \<not> rx_data (deregister_descriptor s) \<and> (\<forall>d. rx_queue (deregister_descriptor s) d = [])
    \<and> rx_log (deregister_descriptor s) = rx_log s @ take_all Aborted s \<and> rx_started (deregister_descriptor s) = rx_started s"
  by (simp add: deregister_descriptor_def reactor_post_deferred_def finish_def Let_def)

lemma register_opens:
  "rx_data (register_descriptor s)" "\<not> rx_shutdown (register_descriptor s)" "rx_queue (register_descriptor s) = rx_queue s"
  "rx_started (register_descriptor s) = rx_started s"
  by (simp_all add: register_descriptor_def rearm_def)

subsection \<open>The invariant\<close>

definition sock_inv :: "'o sock \<Rightarrow> bool" where
  "sock_inv s \<longleftrightarrow> (is_open s \<longleftrightarrow> rx_data (sk_rx s)) \<and> (rx_data (sk_rx s) \<longrightarrow> \<not> rx_shutdown (sk_rx s))
     \<and> (\<not> rx_data (sk_rx s) \<longrightarrow> (\<forall>d. rx_queue (sk_rx s) d = []))
     \<and> (\<not> is_open s \<longrightarrow> sk_state s = 0)
     \<and> (state_flag (sk_state s) non_blocking \<longrightarrow> sk_nonblock s)
     \<and> mset (sk_started s) = mset (map (\<lambda>(d, op, _). (d, op)) (sk_now s)) + mset (rx_started (sk_rx s))"

lemma flag_simps [simp]: "\<not> state_flag 0 f" "\<not> state_flag (socket_kind t) non_blocking" "\<not> state_flag (socket_kind t OR possible_dup) non_blocking"
  by (simp_all add: state_flag_def socket_kind_def stream_oriented_def datagram_oriented_def possible_dup_def non_blocking_def
      user_set_non_blocking_def internal_non_blocking_def)

lemma inv_calm: "sock_inv s \<Longrightarrow> calm (sk_rx s) r \<Longrightarrow> sock_inv (s\<lparr>sk_rx := r\<rparr>)"
  by (auto simp: sock_inv_def calm_def is_open_def)

lemma made_non_blocking:
  assumes "sock_inv s" "sk_make_non_blocking io s = (ok, ec, s')"
  shows "sock_inv s' \<and> sk_rx s' = sk_rx s \<and> sk_socket s' = sk_socket s \<and> sk_now s' = sk_now s \<and> sk_started s' = sk_started s
    \<and> (ok \<longrightarrow> sk_nonblock s' \<and> is_open s') \<and> (\<not> is_open s \<longrightarrow> \<not> ok \<and> ec = bad_descriptor \<and> s' = s)"
  using assms
  by (auto simp: sk_make_non_blocking_def set_internal_non_blocking_def sock_inv_def is_open_def error_wrapper_def Let_def
      split: if_splits)

lemma inv_post_now:
  "sock_inv s \<Longrightarrow> sock_inv (sk_post_now d op ec (s\<lparr>sk_started := sk_started s @ [(d, op)]\<rparr>))"
  by (auto simp: sock_inv_def sk_post_now_def is_open_def)

lemma inv_started:
  assumes "sock_inv s" "is_open s" "sk_nonblock s"
  shows "sock_inv (s\<lparr>sk_started := sk_started s @ [(d, op)], sk_rx := start_op d spec ctl op (sk_rx s)\<rparr>)"
  using assms by (simp add: sock_inv_def is_open_def start_op_keeps)

text \<open>The started operations are recorded first; the rest of a start does not look at the record.\<close>

lemma make_non_blocking_record:
  "sk_make_non_blocking io (s\<lparr>sk_started := xs\<rparr>) = (case sk_make_non_blocking io s of (ok, ec, s') \<Rightarrow> (ok, ec, s'\<lparr>sk_started := xs\<rparr>))"
  by (simp add: sk_make_non_blocking_def set_internal_non_blocking_def error_wrapper_def Let_def)

lemma start_op_cases:
  assumes "sock_inv s" "sk_make_non_blocking io s = (ok, ec, s')"
  shows "sk_start_op d op nb noop io ctl s =
    (if noop then sk_post_now d op no_error (s\<lparr>sk_started := sk_started s @ [(d, op)]\<rparr>)
     else if ok then s'\<lparr>sk_started := sk_started s' @ [(d, op)], sk_rx := start_op d nb ctl op (sk_rx s')\<rparr>
     else sk_post_now d op ec (s'\<lparr>sk_started := sk_started s' @ [(d, op)]\<rparr>))"
  using made_non_blocking [OF assms] by (simp add: sk_start_op_def make_non_blocking_record assms(2))

lemma connect_cases:
  assumes "sock_inv s" "sk_make_non_blocking io s = (ok, ec, s')"
  shows "sk_start_connect_op op io a ctl s =
    (if \<not> ok then sk_post_now WriteOp op ec (s'\<lparr>sk_started := sk_started s' @ [(WriteOp, op)]\<rparr>)
     else case so_connect (sk_socket s') a of (result, ec) \<Rightarrow>
       if result \<noteq> 0 \<and> (ec = in_progress \<or> ec = would_block)
       then s'\<lparr>sk_started := sk_started s' @ [(WriteOp, op)], sk_rx := start_op WriteOp False ctl op (sk_rx s')\<rparr>
       else sk_post_now WriteOp op ec (s'\<lparr>sk_started := sk_started s' @ [(WriteOp, op)]\<rparr>))"
  using made_non_blocking [OF assms] by (simp add: sk_start_connect_op_def make_non_blocking_record assms(2) split: prod.split)

lemma inv_start_op: "sock_inv s \<Longrightarrow> sock_inv (sk_start_op d op nb noop io ctl s)"
proof -
  assume i: "sock_inv s"
  obtain ok ec s' where m: "sk_make_non_blocking io s = (ok, ec, s')" by (cases "sk_make_non_blocking io s")
  show ?thesis using made_non_blocking [OF i m] inv_post_now [of s] inv_post_now [of s'] inv_started [of s'] i
    by (simp add: start_op_cases [OF i m])
qed

lemma inv_connect: "sock_inv s \<Longrightarrow> sock_inv (sk_start_connect_op op io a ctl s)"
proof -
  assume i: "sock_inv s"
  obtain ok ec s' where m: "sk_make_non_blocking io s = (ok, ec, s')" by (cases "sk_make_non_blocking io s")
  show ?thesis using made_non_blocking [OF i m] inv_post_now [of s'] inv_started [of s']
    by (simp add: connect_cases [OF i m] split: prod.split)
qed

lemma closed_state:
  assumes "sock_inv s" "is_open s"
  shows "snd (sk_close a b s) = s\<lparr>sk_socket := invalid_socket, sk_state := 0, sk_rx := deregister_descriptor (sk_rx s)\<rparr>"
  using assms by (simp add: sk_close_def sk_construct_def Let_def split: prod.split)

lemma inv_close: "sock_inv s \<Longrightarrow> sock_inv (snd (sk_close a b s))"
proof (cases "is_open s")
  case True
  assume i: "sock_inv s"
  then have "rx_data (sk_rx s)" "\<not> rx_shutdown (sk_rx s)" using True by (simp_all add: sock_inv_def)
  from deregister_closes [OF this] show ?thesis using i by (simp add: closed_state [OF i True] sock_inv_def is_open_def)
next
  case False
  then show "sock_inv s \<Longrightarrow> sock_inv (snd (sk_close a b s))"
    by (simp add: sk_close_def sk_construct_def sock_inv_def is_open_def so_close_def Let_def)
qed

lemma inv_opened:
  assumes "sock_inv s" "\<not> is_open s" "sock \<noteq> invalid_socket" "\<not> state_flag st non_blocking"
  shows "sock_inv (s\<lparr>sk_socket := sock, sk_state := st, sk_rx := register_descriptor (sk_rx s), sk_nonblock := m\<rparr>)"
  using assms by (simp add: sock_inv_def is_open_def register_opens)

lemma socket_mode_flags:
  "state_flag (st OR user_set_non_blocking) non_blocking" "state_flag (st OR internal_non_blocking) non_blocking"
  "\<not> state_flag (st AND NOT user_set_non_blocking AND NOT internal_non_blocking) non_blocking"
  "\<not> state_flag st user_set_non_blocking \<Longrightarrow> \<not> state_flag (st AND NOT internal_non_blocking) non_blocking"
proof -
  have "bit ((st OR user_set_non_blocking) AND non_blocking) 0" "bit ((st OR internal_non_blocking) AND non_blocking) 1"
    by (simp_all add: user_set_non_blocking_def internal_non_blocking_def non_blocking_def bit_simps)
  then show "state_flag (st OR user_set_non_blocking) non_blocking" "state_flag (st OR internal_non_blocking) non_blocking"
    unfolding state_flag_def by force+
  show "\<not> state_flag (st AND NOT user_set_non_blocking AND NOT internal_non_blocking) non_blocking"
    by (auto simp: state_flag_def non_blocking_def bit_eq_iff bit_simps)
  show "\<not> state_flag st user_set_non_blocking \<Longrightarrow> \<not> state_flag (st AND NOT internal_non_blocking) non_blocking"
    by (auto simp: state_flag_def non_blocking_def bit_eq_iff bit_simps)
qed

lemma inv_mode:
  assumes "sock_inv s"
  shows "sock_inv (snd (sk_non_blocking mode a s))" "sock_inv (snd (sk_native_non_blocking mode a s))"
    "sock_inv (snd (sk_io_control fionbio mode a s))"
  using assms
  by (auto simp: sk_non_blocking_def sk_native_non_blocking_def sk_io_control_def set_user_non_blocking_def set_internal_non_blocking_def
      so_ioctl_def error_wrapper_def sock_inv_def is_open_def socket_mode_flags Let_def)

lemma mode_keeps [simp]:
  "sk_rx (snd (sk_non_blocking mode a s)) = sk_rx s" "sk_rx (snd (sk_native_non_blocking mode a s)) = sk_rx s"
  "sk_rx (snd (sk_io_control fionbio mode a s)) = sk_rx s"
  by (simp_all add: sk_non_blocking_def sk_native_non_blocking_def sk_io_control_def split: prod.split)

lemma inv_step:
  assumes i: "sock_inv s" and e: "sock_enabled s ev"
  shows "sock_inv (sock_step ev s)"
proof (cases ev)
  case (Open type a err)
  obtain sock ec where a: "so_socket a = (sock, ec)" by (cases "so_socket a")
  show ?thesis using inv_opened [OF i, of sock "socket_kind type" False] i
    by (simp add: Open sk_open_def Let_def a)
next
  case (Assign type native mode err)
  show ?thesis using inv_opened [OF i, of native "socket_kind type OR possible_dup" mode] i e
    by (simp add: Assign sk_assign_def)
next
  case (Close a b)
  then show ?thesis using inv_close [OF i] by simp
next
  case CancelAll
  then show ?thesis using inv_calm [OF i calm_steps(4)] i by (simp add: sk_cancel_def)
next
  case (Send op bs io ctl)
  then show ?thesis using inv_start_op [OF i] by (simp add: sk_async_send_def)
next
  case (Receive op bs oob io ctl)
  then show ?thesis using inv_start_op [OF i] by (simp add: sk_async_receive_def)
next
  case (Accept op cont peer io ctl)
  then show ?thesis using inv_start_op [OF i] inv_post_now [OF i] by (simp add: sk_start_accept_op_def)
next
  case (Connect op io a ctl)
  then show ?thesis using inv_connect [OF i] by simp
next
  case (KernelStep d n spurious)
  then show ?thesis using inv_calm [OF i calm_steps(1)] by simp
next
  case (PollStep extra)
  then show ?thesis using inv_calm [OF i calm_steps(2)] by simp
next
  case (RunEvents j)
  then show ?thesis using inv_calm [OF i calm_steps(5)] by simp
next
  case RunNext
  then show ?thesis using inv_calm [OF i calm_steps(3)] by simp
next
  case (Mode mode a)
  then show ?thesis using inv_mode(1) [OF i] by simp
next
  case (NativeMode mode a)
  then show ?thesis using inv_mode(2) [OF i] by simp
next
  case (IoControl fionbio arg a)
  then show ?thesis using inv_mode(3) [OF i] by simp
qed

lemma inv_reach: "sock_reach clears s \<Longrightarrow> sock_inv s"
proof (induction rule: sock_reach.induct)
  case sk_new
  show ?case by (simp add: sock_inv_def new_sock_def sk_construct_def new_reactor_def is_open_def)
next
  case (sk_step s ev)
  then show ?case by (blast intro: inv_step)
qed

subsection \<open>The socket and the reactor\<close>

text \<open>Every step of a socket is at most one step of the reactor.\<close>

lemma start_op_reactor:
  assumes "sock_inv s"
  shows "sk_rx (sk_start_op d op nb noop io ctl s) = (if noop \<or> \<not> fst (sk_make_non_blocking io s) then sk_rx s else start_op d nb ctl op (sk_rx s))"
proof -
  obtain ok ec s' where m: "sk_make_non_blocking io s = (ok, ec, s')" by (cases "sk_make_non_blocking io s")
  show ?thesis using made_non_blocking [OF assms m] by (simp add: start_op_cases [OF assms m] m sk_post_now_def)
qed

lemma connect_reactor:
  assumes "sock_inv s"
  shows "sk_rx (sk_start_connect_op op io a ctl s) \<in> {sk_rx s, start_op WriteOp False ctl op (sk_rx s)}"
proof -
  obtain ok ec s' where m: "sk_make_non_blocking io s = (ok, ec, s')" by (cases "sk_make_non_blocking io s")
  show ?thesis using made_non_blocking [OF assms m] by (simp add: connect_cases [OF assms m] sk_post_now_def split: prod.split)
qed

lemma step_reactor:
  assumes i: "sock_inv s" and e: "sock_enabled s ev"
  shows "sk_rx (sock_step ev s) = sk_rx s \<or> (\<exists>rev. reactor_enabled (sk_rx s) rev \<and> sk_rx (sock_step ev s) = reactor_step rev (sk_rx s))"
proof -
  have start: "r \<in> {sk_rx s, start_op d spec ctl op (sk_rx s)} \<Longrightarrow> r = sk_rx s \<or> (\<exists>rev. reactor_enabled (sk_rx s) rev \<and> r = reactor_step rev (sk_rx s))"
    for r d spec ctl op
    by (auto intro!: exI [of _ "Start d spec ctl op"])
  have reg: "\<not> is_open s \<Longrightarrow> reactor_enabled (sk_rx s) Register" using i by (simp add: sock_inv_def)
  show ?thesis
  proof (cases ev)
    case (Open type a err)
    obtain sock ec where a: "so_socket a = (sock, ec)" by (cases "so_socket a")
    show ?thesis using reg by (auto simp: Open sk_open_def a Let_def intro!: exI [of _ Register])
  next
    case (Assign type native mode err)
    show ?thesis using reg by (auto simp: Assign sk_assign_def intro!: exI [of _ Register])
  next
    case (Close a b)
    have "sk_rx (snd (sk_close a b s)) = (if is_open s then deregister_descriptor (sk_rx s) else sk_rx s)"
      by (simp add: sk_close_def sk_construct_def Let_def split: prod.split)
    then show ?thesis by (auto simp: Close intro!: exI [of _ Deregister])
  next
    case CancelAll
    show ?thesis by (auto simp: CancelAll sk_cancel_def intro!: exI [of _ Cancel])
  next
    case (Send op bs io ctl)
    show ?thesis by (rule start [where d = WriteOp and spec = True and ctl = ctl and op = op]) (simp add: Send sk_async_send_def start_op_reactor [OF i])
  next
    case (Receive op bs oob io ctl)
    show ?thesis by (rule start [where d = "if oob then ExceptOp else ReadOp" and spec = "\<not> oob" and ctl = ctl and op = op])
      (simp add: Receive sk_async_receive_def start_op_reactor [OF i])
  next
    case (Accept op cont peer io ctl)
    show ?thesis by (rule start [where d = ReadOp and spec = cont and ctl = ctl and op = op])
      (simp add: Accept sk_start_accept_op_def start_op_reactor [OF i] sk_post_now_def)
  next
    case (Connect op io a ctl)
    show ?thesis by (rule start [where d = WriteOp and spec = False and ctl = ctl and op = op]) (simp add: Connect connect_reactor [OF i] del: insert_iff)
  next
    case (KernelStep d n spurious)
    then show ?thesis by (auto intro!: exI [of _ "Kernel d n spurious"])
  next
    case (PollStep extra)
    then show ?thesis by (auto intro!: exI [of _ "Poll extra"])
  next
    case (RunEvents j)
    then show ?thesis using e by (auto intro!: exI [of _ "RunDescriptor j"])
  next
    case RunNext
    then show ?thesis by (auto intro!: exI [of _ RunPosted])
  qed simp_all
qed

lemma reach_reactor: "sock_reach clears s \<Longrightarrow> reactor_reach False (sk_rx s)"
proof (induction rule: sock_reach.induct)
  case sk_new
  show ?case by (simp add: new_sock_def sk_construct_def rr_new)
next
  case (sk_step s ev)
  then show ?case using step_reactor [OF inv_reach [OF sk_step.hyps(1)] sk_step.hyps(2)] rr_step [of False "sk_rx s"] by fastforce
qed

subsection \<open>The theorems\<close>

fun starts_operation :: "'o sock_event \<Rightarrow> bool" where
  "starts_operation (Send _ _ _ _) = True"
| "starts_operation (Receive _ _ _ _ _) = True"
| "starts_operation (Accept _ _ _ _ _) = True"
| "starts_operation (Connect _ _ _ _) = True"
| "starts_operation _ = False"

lemma start_op_nonblock:
  assumes "sock_inv s" "sk_rx (sk_start_op d op nb noop io ctl s) \<noteq> sk_rx s"
  shows "sk_nonblock (sk_start_op d op nb noop io ctl s)"
proof -
  obtain ok ec s' where m: "sk_make_non_blocking io s = (ok, ec, s')" by (cases "sk_make_non_blocking io s")
  show ?thesis using assms made_non_blocking [OF assms(1) m] by (auto simp: start_op_cases [OF assms(1) m] sk_post_now_def split: if_splits)
qed

lemma connect_nonblock:
  assumes "sock_inv s" "sk_rx (sk_start_connect_op op io a ctl s) \<noteq> sk_rx s"
  shows "sk_nonblock (sk_start_connect_op op io a ctl s)"
proof -
  obtain ok ec s' where m: "sk_make_non_blocking io s = (ok, ec, s')" by (cases "sk_make_non_blocking io s")
  show ?thesis using assms made_non_blocking [OF assms(1) m]
    by (auto simp: connect_cases [OF assms(1) m] sk_post_now_def split: if_splits prod.splits)
qed

text \<open>In a run without such calls the reactor keeps operations on non-blocking descriptors only.\<close>

definition queued_nonblock :: "'o sock \<Rightarrow> bool" where
  "queued_nonblock s \<longleftrightarrow> ((\<exists>d. rx_queue (sk_rx s) d \<noteq> []) \<longrightarrow> sk_nonblock s)"

lemma nonblock_stays: "sk_nonblock s \<Longrightarrow> \<not> clears_mode ev \<Longrightarrow> is_open s \<Longrightarrow> sk_nonblock (sock_step ev s)"
  by (cases ev)
    (auto simp: sk_open_def sk_assign_def sk_close_def sk_construct_def sk_cancel_def sk_async_send_def sk_async_receive_def
      sk_start_accept_op_def sk_start_op_def sk_start_connect_op_def sk_post_now_def sk_make_non_blocking_def sk_non_blocking_def
      sk_native_non_blocking_def sk_io_control_def Let_def split: prod.split)

lemma calm_queue: "calm s s' \<Longrightarrow> rx_queue s e = [] \<Longrightarrow> rx_queue s' e = []"
  by (simp add: calm_def)

lemmas calm_empty = calm_steps [THEN calm_queue]

lemma starts_nonblock:
  assumes "sock_inv s" "starts_operation ev" "sk_rx (sock_step ev s) \<noteq> sk_rx s"
  shows "sk_nonblock (sock_step ev s)"
  using assms start_op_nonblock [OF assms(1)] connect_nonblock [OF assms(1)]
  by (cases ev) (auto simp: sk_async_send_def sk_async_receive_def sk_start_accept_op_def sk_post_now_def split: if_splits)

lemma queued_nonblock_step:
  assumes i: "sock_inv s" and e: "sock_enabled s ev" and c: "\<not> clears_mode ev" and q: "queued_nonblock s"
  shows "queued_nonblock (sock_step ev s)"
proof -
  have "sk_nonblock (sock_step ev s)" if d: "rx_queue (sk_rx (sock_step ev s)) d \<noteq> []" for d
  proof (cases "\<exists>d. rx_queue (sk_rx s) d \<noteq> []")
    case True
    then have "is_open s" using i by (auto simp: sock_inv_def)
    then show ?thesis using nonblock_stays [OF _ c] True q by (simp add: queued_nonblock_def)
  next
    case empty: False
    show ?thesis
    proof (cases "starts_operation ev")
      case True
      then show ?thesis using starts_nonblock [OF i] d empty by metis
    next
      case False
      then have "rx_queue (sk_rx (sock_step ev s)) d = []"
        using empty i deregister_closes [of "sk_rx s"]
        by (cases ev) (auto simp: sk_open_def sk_assign_def sk_close_def sk_construct_def sk_cancel_def register_opens sock_inv_def
            calm_empty Let_def
            split: prod.split)
      then show ?thesis using d by blast
    qed
  qed
  then show ?thesis by (auto simp: queued_nonblock_def)
qed

lemma queued_nonblock_reach: "sock_reach False s \<Longrightarrow> queued_nonblock s"
proof (induction rule: sock_reach.induct)
  case sk_new
  show ?case by (simp add: queued_nonblock_def new_sock_def sk_construct_def new_reactor_def)
next
  case (sk_step s ev)
  then show ?case using queued_nonblock_step inv_reach by blast
qed

text \<open>C15: in every run of a socket, whatever the calls of the operating system answer, an operation is
  given to the reactor only when the descriptor is in non-blocking mode, and the flags of the socket
  never claim that mode when the kernel does not have it.  Nothing but a call that clears the mode
  (\<open>non_blocking(false)\<close>, \<open>native_non_blocking(false)\<close>, \<open>FIONBIO\<close> with 0) takes an open descriptor
  out of it, so that in a run without such calls the reactor keeps operations on non-blocking descriptors
  only.  Every operation that was started was posted at once or given to the reactor, and those of a
  direction finish there in order, each once.\<close>

theorem socket_operations:
  assumes "sock_reach clears s"
  shows "(\<forall>ev. starts_operation ev \<and> sk_rx (sock_step ev s) \<noteq> sk_rx s \<longrightarrow> sk_nonblock (sock_step ev s))
    \<and> (state_flag (sk_state s) non_blocking \<longrightarrow> sk_nonblock s)
    \<and> (\<forall>ev. sk_nonblock s \<and> is_open s \<and> \<not> clears_mode ev \<longrightarrow> sk_nonblock (sock_step ev s))
    \<and> (\<not> clears \<longrightarrow> (\<forall>d. rx_queue (sk_rx s) d \<noteq> [] \<longrightarrow> sk_nonblock s))
    \<and> mset (sk_started s) = mset (map (\<lambda>(d, op, _). (d, op)) (sk_now s)) + mset (rx_started (sk_rx s))
    \<and> (\<forall>d. map fst (of_type d (rx_log (sk_rx s))) @ rx_queue (sk_rx s) d = of_type d (rx_started (sk_rx s)))"
proof -
  have i: "sock_inv s" by (rule inv_reach [OF assms])
  have "\<forall>d. map fst (of_type d (rx_log (sk_rx s))) @ rx_queue (sk_rx s) d = of_type d (rx_started (sk_rx s))"
    using books_reach [OF reach_reactor [OF assms]] by (simp add: books_def)
  moreover have "queued_nonblock s" if c: "\<not> clears"
  proof -
    have "clears = False" using c by simp
    then show ?thesis using assms queued_nonblock_reach by blast
  qed
  ultimately show ?thesis using i starts_nonblock [OF i] nonblock_stays [of s] by (auto simp: sock_inv_def queued_nonblock_def)
qed

text \<open>A listening socket with an accept that waits.\<close>

definition demo_listener :: "nat sock" where
  "demo_listener = sock_step (Accept 7 False False (0, 0) True) (sock_step (Open 1 (5, 0) 0) new_sock)"

lemma demo_listener_reach: "sock_reach clears demo_listener"
  unfolding demo_listener_def by (intro sk_step sk_new) simp_all

lemma opened_value: "snd (sk_open 1 (5, 0) 0 new_sock) = \<lparr>sk_socket = 5, sk_state = stream_oriented,
    sk_rx = register_descriptor new_reactor, sk_nonblock = False, sk_now = [], sk_started = []\<rparr>"
  by (simp add: new_sock_def sk_construct_def sk_open_def is_open_def so_socket_def error_wrapper_def invalid_socket_def
      socket_kind_def Let_def)

lemma registered_value: "register_descriptor new_reactor = new_reactor\<lparr>rx_data := True, rx_shutdown := False\<rparr>"
  by (simp add: register_descriptor_def rearm_def new_reactor_def)

lemma make_non_blocking_value:
  assumes "sk_socket s \<noteq> invalid_socket" "fst io \<ge> 0"
  shows "sk_make_non_blocking io s = (True, no_error, if state_flag (sk_state s) non_blocking then s
    else s\<lparr>sk_state := sk_state s OR internal_non_blocking, sk_nonblock := True\<rparr>)"
  using assms by (simp add: sk_make_non_blocking_def set_internal_non_blocking_def error_wrapper_def)

lemma demo_listener_queue: "rx_queue (sk_rx demo_listener) ReadOp = [7]" "is_open demo_listener" "sk_now demo_listener = []"
  by (simp_all add: demo_listener_def opened_value sk_start_accept_op_def sk_start_op_def make_non_blocking_value invalid_socket_def
      start_op_def start_now_def register_descriptor_def rearm_def new_reactor_def enqueue_op_def state_flag_def stream_oriented_def
      non_blocking_def user_set_non_blocking_def internal_non_blocking_def is_open_def)

theorem socket_operations_witness:
  "rx_queue (sk_rx demo_listener) ReadOp = [7] \<and> sk_nonblock demo_listener"
proof -
  have "\<forall>d. rx_queue (sk_rx demo_listener) d \<noteq> [] \<longrightarrow> sk_nonblock demo_listener"
    using socket_operations [OF demo_listener_reach, of False] by blast
  then show ?thesis using demo_listener_queue(1) by (metis list.distinct(1))
qed

text \<open>With the mode cleared while an operation waits, the reactor keeps it on a blocking descriptor: the
  thread that gets the next event for it, spurious or not, performs it there.\<close>

theorem mode_cleared_under_operation:
  "\<exists>s :: nat sock. sock_reach True s \<and> rx_queue (sk_rx s) ReadOp = [7] \<and> \<not> sk_nonblock s"
proof -
  have "sock_reach True (sock_step (Mode False (0, 0)) demo_listener)"
    by (rule sk_step [OF demo_listener_reach]) simp_all
  moreover have "sk_socket demo_listener \<noteq> invalid_socket" using demo_listener_queue(2) by (simp add: is_open_def)
  ultimately show ?thesis using demo_listener_queue(1)
    by (intro exI [of _ "sock_step (Mode False (0, 0)) demo_listener"])
      (simp add: sk_non_blocking_def set_user_non_blocking_def error_wrapper_def)
qed

text \<open>C16: closing an open socket ends every operation that waits for it with \<open>operation_aborted\<close>, in
  order, leaves none waiting, whatever \<open>close\<close> answers, and everything started on the socket afterwards
  ends with \<open>bad_descriptor\<close> without touching the reactor.\<close>

theorem closed_socket:
  assumes "sock_reach clears s" "is_open s"
  shows "\<not> is_open (snd (sk_close a b s))
    \<and> (\<forall>d. rx_queue (sk_rx (snd (sk_close a b s))) d = [])
    \<and> rx_log (sk_rx (snd (sk_close a b s))) = rx_log (sk_rx s) @ take_all Aborted (sk_rx s)
    \<and> sk_now (sk_start_op d op nb False io ctl (snd (sk_close a b s))) = sk_now s @ [(d, op, bad_descriptor)]
    \<and> sk_now (sk_start_connect_op op io c ctl (snd (sk_close a b s))) = sk_now s @ [(WriteOp, op, bad_descriptor)]"
proof -
  have i: "sock_inv s" by (rule inv_reach [OF assms(1)])
  then have r: "rx_data (sk_rx s)" "\<not> rx_shutdown (sk_rx s)" using assms(2) by (simp_all add: sock_inv_def)
  let ?c = "snd (sk_close a b s)"
  have ci: "sock_inv ?c" by (rule inv_close [OF i])
  have c: "\<not> is_open ?c" "sk_now ?c = sk_now s" "sk_rx ?c = deregister_descriptor (sk_rx s)"
    by (simp_all add: closed_state [OF i assms(2)] is_open_def)
  obtain ok ec s' where m: "sk_make_non_blocking io ?c = (ok, ec, s')" by (cases "sk_make_non_blocking io ?c")
  have "\<not> ok" "ec = bad_descriptor" "s' = ?c" using made_non_blocking [OF ci m] c(1) by blast+
  then show ?thesis using c deregister_closes [OF r]
    by (simp add: start_op_cases [OF ci m] connect_cases [OF ci m] sk_post_now_def)
qed

theorem closed_socket_witness:
  "rx_log (sk_rx (snd (sk_close (-1, 5) (0, 0) demo_listener))) = rx_log (sk_rx demo_listener) @ take_all Aborted (sk_rx demo_listener)
    \<and> rx_queue (sk_rx demo_listener) ReadOp = [7]
    \<and> sk_now (sk_start_op WriteOp 8 True False (0, 0) True (snd (sk_close (-1, 5) (0, 0) demo_listener))) = [(WriteOp, 8, bad_descriptor)]"
  using closed_socket [OF demo_listener_reach demo_listener_queue(2), of "(-1, 5)" "(0, 0)" WriteOp 8 True "(0, 0)" True "(0, 0)"]
    demo_listener_queue(1,3) by simp

text \<open>An accept on a socket that has a connection to accept is tried at once only if the handler is
  a continuation: \<open>start_accept_op\<close> passes \<open>is_continuation\<close> where \<open>start_op\<close> takes
  \<open>is_non_blocking\<close>.  Otherwise it is queued, and waits for the event the new registration brings.\<close>

theorem accept_not_tried:
  assumes "is_open s" "rx_data (sk_rx s)" "\<not> rx_shutdown (sk_rx s)" "rx_queue (sk_rx s) ReadOp = []" "rx_queue (sk_rx s) ExceptOp = []"
    "rx_avail (sk_rx s) ReadOp > 0" "fst io \<ge> 0"
  shows "rx_queue (sk_rx (sk_start_accept_op op False False io ctl s)) ReadOp = [op]
    \<and> rx_log (sk_rx (sk_start_accept_op op False False io ctl s)) = rx_log (sk_rx s)
    \<and> (ctl \<longrightarrow> rx_edge (sk_rx (sk_start_accept_op op False False io ctl s)) ReadOp)
    \<and> rx_log (sk_rx (sk_start_accept_op op True False io ctl s)) = rx_log (sk_rx s) @ [(ReadOp, op, Performed)]"
  using assms
  by (simp add: sk_start_accept_op_def sk_start_op_def make_non_blocking_value is_open_def start_op_def start_now_def perform_def
      rearm_def registered_def enqueue_op_def reactor_post_immediate_def finish_def Let_def)

theorem accept_not_tried_witness:
  "rx_queue (sk_rx (sk_start_accept_op 7 False False (0, 0) True (sock_step (KernelStep ReadOp 1 False) (sock_step (Open 1 (5, 0) 0) new_sock)))) ReadOp = [7 :: nat]"
proof -
  let ?s = "sock_step (KernelStep ReadOp 1 False) (sock_step (Open 1 (5, 0) 0) (new_sock :: nat sock))"
  have "is_open ?s" "rx_data (sk_rx ?s)" "\<not> rx_shutdown (sk_rx ?s)" "rx_queue (sk_rx ?s) ReadOp = []" "rx_queue (sk_rx ?s) ExceptOp = []"
    "rx_avail (sk_rx ?s) ReadOp > 0" "fst (0 :: int, 0 :: int) \<ge> 0"
    unfolding sock_step.simps opened_value registered_value by (simp_all add: is_open_def invalid_socket_def new_reactor_def kernel_change_def)
  from accept_not_tried [OF this, of 7 True] show ?thesis by simp
qed

end
