(* ===== verification/Resolver.thy ===== *)
theory Resolver
  imports SocketOps
begin

text \<open>
  asio's resolver on Linux: the translation of what \<open>getaddrinfo\<close> answers
  (\<^verbatim>\<open>detail/impl/socket_ops.ipp\<close>), the iterator over the entries
  (\<^verbatim>\<open>ip/basic_resolver_iterator.hpp\<close>), the loop of both programs that collects the endpoints,
  and the service that resolves in a thread of its own (\<^verbatim>\<open>detail/resolver_service.hpp\<close>,
  \<^verbatim>\<open>detail/impl/resolver_service_base.ipp\<close>, \<^verbatim>\<open>detail/resolve_op.hpp\<close>).
  \<open>getaddrinfo\<close> itself is a parameter: it answers a code, the \<open>errno\<close> it leaves and the list it
  made.  The theorems: what the loop collects for every answer, one of which it does not survive; and
  that every asynchronous resolve ends once and in order.
\<close>

subsection \<open>Answers and errors\<close>

datatype addr_family = AF_INET | AF_INET6 | AF_OTHER int

record 'e addrinfo =
  ai_family :: addr_family
  ai_addrlen :: nat
  ai_addr :: 'e
  ai_canonname :: "string option"

record 'e gai_answer =
  gai_code :: int
  gai_errno :: int
  gai_list :: "'e addrinfo list"

datatype resolve_error = Sys_error int | Netdb_error int | Addrinfo_error int

definition resolve_ok :: resolve_error where "resolve_ok = Sys_error 0"

definition resolve_aborted :: resolve_error where "resolve_aborted = Sys_error 125"

definition is_error :: "resolve_error \<Rightarrow> bool" where
  "is_error ec \<longleftrightarrow> (case ec of Sys_error n \<Rightarrow> n \<noteq> 0 | Netdb_error n \<Rightarrow> n \<noteq> 0 | Addrinfo_error n \<Rightarrow> n \<noteq> 0)"

text \<open>The codes of \<open>netdb.h\<close>: \<open>EAI_AGAIN\<close> -3, \<open>EAI_BADFLAGS\<close> -1, \<open>EAI_FAIL\<close> -4, \<open>EAI_FAMILY\<close> -6,
  \<open>EAI_MEMORY\<close> -10, \<open>EAI_NONAME\<close> -2, \<open>EAI_ADDRFAMILY\<close> -9, \<open>EAI_NODATA\<close> -5, \<open>EAI_SERVICE\<close> -8,
  \<open>EAI_SOCKTYPE\<close> -7.\<close>

definition translate_addrinfo_error :: "int \<Rightarrow> int \<Rightarrow> resolve_error" where
  "translate_addrinfo_error error errno =
     (if error = 0 then Sys_error 0
      else if error = -3 then Netdb_error 2
      else if error = -1 then Sys_error 22
      else if error = -4 then Netdb_error 3
      else if error = -6 then Sys_error 97
      else if error = -10 then Sys_error 12
      else if error = -2 \<or> error = -9 \<or> error = -5 then Netdb_error 1
      else if error = -8 then Addrinfo_error (-8)
      else if error = -7 then Addrinfo_error (-7)
      else Sys_error errno)"

type_synonym 'e gai = "string option \<Rightarrow> string option \<Rightarrow> 'e gai_answer"

text \<open>An empty host or service is passed as none.\<close>

definition socket_getaddrinfo :: "'e gai \<Rightarrow> string \<Rightarrow> string \<Rightarrow> resolve_error \<times> 'e addrinfo list" where
  "socket_getaddrinfo gai host service =
     (let a = gai (if host = [] then None else Some host) (if service = [] then None else Some service)
      in (translate_addrinfo_error (gai_code a) (gai_errno a), gai_list a))"

definition background_getaddrinfo :: "'e gai \<Rightarrow> bool \<Rightarrow> string \<Rightarrow> string \<Rightarrow> resolve_error \<times> 'e addrinfo list" where
  "background_getaddrinfo gai expired host service =
     (if expired then (resolve_aborted, []) else socket_getaddrinfo gai host service)"

subsection \<open>The iterator\<close>

record 'e resolver_entry =
  re_endpoint :: 'e
  re_host :: string
  re_service :: string

text \<open>The shared vector of entries has an identity, which \<open>equal\<close> compares.\<close>

record 'e rs_iter =
  ri_values :: "(nat \<times> 'e resolver_entry list) option"
  ri_index :: nat

definition end_iter :: "'e rs_iter" where
  "end_iter = \<lparr>ri_values = None, ri_index = 0\<rparr>"

definition is_inet :: "'e addrinfo \<Rightarrow> bool" where
  "is_inet a \<longleftrightarrow> ai_family a = AF_INET \<or> ai_family a = AF_INET6"

definition sockaddr_storage_size :: nat where "sockaddr_storage_size = 128"

text \<open>\<open>endpoint.resize\<close> throws for an address that is too long.\<close>

fun create_values :: "string \<Rightarrow> string \<Rightarrow> 'e addrinfo list \<Rightarrow> 'e resolver_entry list option" where
  "create_values host service [] = Some []"
| "create_values host service (a # as) =
     (if is_inet a
      then if ai_addrlen a > sockaddr_storage_size then None
           else map_option ((#) \<lparr>re_endpoint = ai_addr a, re_host = host, re_service = service\<rparr>) (create_values host service as)
      else create_values host service as)"

definition iter_create :: "nat \<Rightarrow> 'e addrinfo list \<Rightarrow> string \<Rightarrow> string \<Rightarrow> 'e rs_iter option" where
  "iter_create fresh as host service =
     (case as of
        [] \<Rightarrow> Some end_iter
      | a # _ \<Rightarrow>
          let actual_host_name = (case ai_canonname a of Some c \<Rightarrow> c | None \<Rightarrow> host)
          in map_option (\<lambda>v. \<lparr>ri_values = Some (fresh, v), ri_index = 0\<rparr>) (create_values actual_host_name service as))"

text \<open>\<open>None\<close> is a use of the null pointer, or an access past the end of the vector.\<close>

definition iter_increment :: "'e rs_iter \<Rightarrow> 'e rs_iter option" where
  "iter_increment it =
     (case ri_values it of
        None \<Rightarrow> None
      | Some (i, v) \<Rightarrow> Some (if Suc (ri_index it) = length v then end_iter else it\<lparr>ri_index := Suc (ri_index it)\<rparr>))"

definition iter_equal :: "'e rs_iter \<Rightarrow> 'e rs_iter \<Rightarrow> bool" where
  "iter_equal a b =
     (if ri_values a = None \<and> ri_values b = None then True
      else if map_option fst (ri_values a) \<noteq> map_option fst (ri_values b) then False
      else ri_index a = ri_index b)"

definition iter_dereference :: "'e rs_iter \<Rightarrow> 'e resolver_entry option" where
  "iter_dereference it =
     (case ri_values it of
        None \<Rightarrow> None
      | Some (i, v) \<Rightarrow> if ri_index it < length v then Some (v ! ri_index it) else None)"

subsection \<open>Resolving and collecting\<close>

definition resolver_resolve :: "'e gai \<Rightarrow> nat \<Rightarrow> string \<Rightarrow> string \<Rightarrow> resolve_error \<times> 'e rs_iter option" where
  "resolver_resolve gai fresh host service =
     (let (ec, as) = socket_getaddrinfo gai host service
      in (ec, if is_error ec then Some end_iter else iter_create fresh as host service))"

datatype 'e collected = Endpoints "'e list" | Undefined | Thrown | Out_of_fuel

text \<open>The loop of \<open>Init\<close> and of \<open>Start\<close> with a name: until the end, push the endpoint and move on.\<close>

fun collect_loop :: "nat \<Rightarrow> 'e rs_iter \<Rightarrow> 'e list \<Rightarrow> 'e collected" where
  "collect_loop k it eps =
     (if iter_equal it end_iter then Endpoints eps
      else case k of
        0 \<Rightarrow> Out_of_fuel
      | Suc j \<Rightarrow>
          (case iter_dereference it of
             None \<Rightarrow> Undefined
           | Some e \<Rightarrow>
               (case iter_increment it of None \<Rightarrow> Undefined | Some it \<Rightarrow> collect_loop j it (eps @ [re_endpoint e]))))"

declare collect_loop.simps [simp del]

definition collect_endpoints :: "nat \<Rightarrow> 'e gai \<Rightarrow> string \<Rightarrow> string \<Rightarrow> 'e collected" where
  "collect_endpoints k gai host service =
     (case snd (resolver_resolve gai 0 host service) of None \<Rightarrow> Thrown | Some it \<Rightarrow> collect_loop k it [])"

lemma create_values_inet:
  "create_values host service as =
     (if \<exists>a \<in> set as. is_inet a \<and> ai_addrlen a > sockaddr_storage_size then None
      else Some (map (\<lambda>a. \<lparr>re_endpoint = ai_addr a, re_host = host, re_service = service\<rparr>) (filter is_inet as)))"
  by (induction as) auto

lemma end_equal [simp]: "iter_equal it end_iter \<longleftrightarrow> ri_values it = None"
  by (auto simp: iter_equal_def end_iter_def)

lemma collect_from:
  "i < length v \<Longrightarrow> length v - i \<le> k \<Longrightarrow>
    collect_loop k \<lparr>ri_values = Some (n, v), ri_index = i\<rparr> eps = Endpoints (eps @ map re_endpoint (drop i v))"
proof (induction k arbitrary: i eps)
  case (Suc k)
  have d: "drop i v = v ! i # drop (Suc i) v" using Suc.prems(1) by (simp add: Cons_nth_drop_Suc)
  show ?case
  proof (cases "Suc i = length v")
    case True
    then show ?thesis
      by (simp add: collect_loop.simps [of "Suc k"] collect_loop.simps [of k] iter_dereference_def iter_increment_def d) (simp add: end_iter_def)
  next
    case False
    then show ?thesis using Suc.IH [of "Suc i"] Suc.prems
      by (simp add: collect_loop.simps [of "Suc k"] iter_dereference_def iter_increment_def d)
  qed
qed simp

lemma collect_nothing:
  assumes a: "socket_getaddrinfo gai host service = (ec, as)" and "is_error ec \<or> as = []"
  shows "collect_endpoints k gai host service = Endpoints []"
proof -
  have "snd (resolver_resolve gai 0 host service) = Some end_iter" using assms by (auto simp: resolver_resolve_def iter_create_def)
  then show ?thesis by (simp add: collect_endpoints_def collect_loop.simps) (simp add: end_iter_def)
qed

lemma resolve_values:
  assumes "socket_getaddrinfo gai host service = (ec, as)" "\<not> is_error ec" "as \<noteq> []"
  shows "\<exists>actual. snd (resolver_resolve gai n host service) =
    (if \<exists>a \<in> set as. is_inet a \<and> ai_addrlen a > sockaddr_storage_size then None
     else Some \<lparr>ri_values = Some (n, map (\<lambda>a. \<lparr>re_endpoint = ai_addr a, re_host = actual, re_service = service\<rparr>) (filter is_inet as)), ri_index = 0\<rparr>)"
proof -
  obtain b bs where b: "as = b # bs" using assms(3) by (cases as) auto
  let ?actual = "case ai_canonname b of Some c \<Rightarrow> c | None \<Rightarrow> host"
  show ?thesis
    using assms(1,2) create_values_inet [of ?actual service as]
    by (intro exI [of _ ?actual]) (simp add: resolver_resolve_def iter_create_def b Let_def)
qed

text \<open>The loop over the entries of a fresh iterator: past the end when there are none.\<close>

lemma collect_values:
  assumes "length v \<le> k" "k \<noteq> 0"
  shows "collect_loop k \<lparr>ri_values = Some (n, v), ri_index = 0\<rparr> [] = (if v = [] then Undefined else Endpoints (map re_endpoint v))"
proof (cases "v = []")
  case True
  then show ?thesis using assms(2) by (cases k) (simp_all add: collect_loop.simps iter_dereference_def)
qed (use collect_from [of 0 v k n "[]"] assms(1) in simp)

text \<open>For the parameter of \<open>relay_Init\<close> and \<open>agent_Init\<close>: when \<open>getaddrinfo\<close> keeps to the
  family a TCP query asks for, they get the endpoints, and none after an error.\<close>

lemma programs_resolve:
  assumes a: "socket_getaddrinfo gai host service = (ec, as)" and inet: "\<forall>a \<in> set as. is_inet a \<and> ai_addrlen a \<le> sockaddr_storage_size"
  shows "collect_endpoints (length as) gai host service = Endpoints (if is_error ec then [] else map ai_addr as)"
proof (cases "is_error ec \<or> as = []")
  case True
  then show ?thesis using collect_nothing [OF a True] by auto
next
  case False
  have f: "filter is_inet as = as" "\<not> (\<exists>a \<in> set as. is_inet a \<and> ai_addrlen a > sockaddr_storage_size)"
    using inet by (auto simp: filter_id_conv)
  obtain actual where "snd (resolver_resolve gai 0 host service) =
    Some \<lparr>ri_values = Some (0, map (\<lambda>a. \<lparr>re_endpoint = ai_addr a, re_host = actual, re_service = service\<rparr>) as), ri_index = 0\<rparr>"
    using resolve_values [OF a, of 0] False f by auto
  then show ?thesis
    using False collect_values [of "map (\<lambda>a. \<lparr>re_endpoint = ai_addr a, re_host = actual, re_service = service\<rparr>) as" "length as" 0]
    by (simp add: collect_endpoints_def o_def)
qed

text \<open>C38: what the programs collect for a name, for every answer of \<open>getaddrinfo\<close>.  After an error, or an answer
  without entries, nothing; otherwise the endpoints of the internet addresses in the order of the answer.
  An answer with entries but no internet address gives an iterator that is not the end and has no
  entry, and the loop reads past the end of a vector; the programs rely on not getting one.\<close>

theorem endpoints_collected:
  assumes k: "length as \<le> k" and a: "socket_getaddrinfo gai host service = (ec, as)"
  shows "collect_endpoints k gai host service =
    (if is_error ec \<or> as = [] then Endpoints []
     else if \<exists>a \<in> set as. is_inet a \<and> ai_addrlen a > sockaddr_storage_size then Thrown
     else if \<not> list_ex is_inet as then Undefined
     else Endpoints (map ai_addr (filter is_inet as)))"
proof (cases "is_error ec \<or> as = []")
  case True
  then show ?thesis using collect_nothing [OF a True] by simp
next
  case False
  obtain actual where r: "snd (resolver_resolve gai 0 host service) =
    (if \<exists>a \<in> set as. is_inet a \<and> ai_addrlen a > sockaddr_storage_size then None
     else Some \<lparr>ri_values = Some (0, map (\<lambda>a. \<lparr>re_endpoint = ai_addr a, re_host = actual, re_service = service\<rparr>) (filter is_inet as)), ri_index = 0\<rparr>)"
    using resolve_values [OF a] False by blast
  have "length (filter is_inet as) \<le> k" using k length_filter_le [of is_inet as] by linarith
  moreover have "k \<noteq> 0" using k False by (cases as) auto
  moreover have "list_ex is_inet as \<longleftrightarrow> filter is_inet as \<noteq> []" by (auto simp: list_ex_iff filter_empty_conv)
  ultimately show ?thesis
    using False
      collect_values [of "map (\<lambda>a. \<lparr>re_endpoint = ai_addr a, re_host = actual, re_service = service\<rparr>) (filter is_inet as)" k 0]
    by (cases "filter is_inet as = []") (simp_all add: collect_endpoints_def r o_def)
qed

text \<open>A name with two addresses, and an entry of another family between them.\<close>

theorem endpoints_collected_witness:
  "collect_endpoints 3 (\<lambda>h s. \<lparr>gai_code = 0, gai_errno = 0, gai_list =
      [\<lparr>ai_family = AF_INET6, ai_addrlen = 28, ai_addr = (1 :: nat), ai_canonname = None\<rparr>,
       \<lparr>ai_family = AF_OTHER 17, ai_addrlen = 20, ai_addr = 2, ai_canonname = None\<rparr>,
       \<lparr>ai_family = AF_INET, ai_addrlen = 16, ai_addr = 3, ai_canonname = None\<rparr>]\<rparr>) ''relay'' ''9000'' = Endpoints [1, 3]"
  by (subst endpoints_collected [OF _ prod.collapse [symmetric]])
    (simp_all add: socket_getaddrinfo_def translate_addrinfo_error_def is_error_def is_inet_def sockaddr_storage_size_def)

subsection \<open>Resolving in a thread of its own\<close>

text \<open>A resolver is its cancel token, which \<open>cancel\<close> replaces; an operation remembers the one it was
  started with.  \<open>rv_checked\<close>: the worker thread holds an operation whose token it has looked at.\<close>

record query =
  rq_host :: string
  rq_service :: string

record 'e resolver_svc =
  rv_tokens :: "nat set"
  rv_impl :: "nat \<Rightarrow> nat option"
  rv_next_token :: nat
  rv_query :: "nat \<Rightarrow> nat \<times> query"
  rv_thread :: bool
  rv_open :: bool
  rv_stopped :: bool
  rv_worker :: "nat list"
  rv_checked :: "(nat \<times> bool) option"
  rv_main :: "(nat \<times> resolve_error \<times> 'e addrinfo list) list"
  rv_outstanding :: nat
  rv_done :: "(nat \<times> resolve_error \<times> 'e rs_iter option) list"
  rv_destroyed :: "nat list"

definition new_resolver_svc :: "'e resolver_svc" where
  "new_resolver_svc = \<lparr>rv_tokens = {}, rv_impl = (\<lambda>_. None), rv_next_token = 0, rv_query = (\<lambda>_. (0, \<lparr>rq_host = [], rq_service = []\<rparr>)),
     rv_thread = False, rv_open = True, rv_stopped = False, rv_worker = [], rv_checked = None, rv_main = [], rv_outstanding = 0,
     rv_done = [], rv_destroyed = []\<rparr>"

definition rv_construct :: "nat \<Rightarrow> 'e resolver_svc \<Rightarrow> 'e resolver_svc" where
  "rv_construct i s = s\<lparr>rv_tokens := insert (rv_next_token s) (rv_tokens s), rv_impl := (rv_impl s)(i := Some (rv_next_token s)),
     rv_next_token := Suc (rv_next_token s)\<rparr>"

definition rv_drop_token :: "nat \<Rightarrow> 'e resolver_svc \<Rightarrow> 'e resolver_svc" where
  "rv_drop_token i s = (case rv_impl s i of Some t \<Rightarrow> s\<lparr>rv_tokens := rv_tokens s - {t}\<rparr> | None \<Rightarrow> s)"

definition rv_destroy :: "nat \<Rightarrow> 'e resolver_svc \<Rightarrow> 'e resolver_svc" where
  "rv_destroy i s = (rv_drop_token i s)\<lparr>rv_impl := (rv_impl s)(i := None)\<rparr>"

definition rv_cancel :: "nat \<Rightarrow> 'e resolver_svc \<Rightarrow> 'e resolver_svc" where
  "rv_cancel i s = rv_construct i (rv_drop_token i s)"

definition start_work_thread :: "'e resolver_svc \<Rightarrow> 'e resolver_svc" where
  "start_work_thread s = (if \<not> rv_thread s then s\<lparr>rv_thread := True\<rparr> else s)"

text \<open>\<open>async_resolve\<close> counts the operation as work of the main \<open>io_service\<close> before it is queued.\<close>

definition start_resolve_op :: "nat \<Rightarrow> 'e resolver_svc \<Rightarrow> 'e resolver_svc" where
  "start_resolve_op op s =
     (let s = start_work_thread s;
          s = s\<lparr>rv_outstanding := rv_outstanding s + 1\<rparr>
      in s\<lparr>rv_worker := rv_worker s @ [op]\<rparr>)"

definition async_resolve :: "nat \<Rightarrow> nat \<Rightarrow> query \<Rightarrow> 'e resolver_svc \<Rightarrow> 'e resolver_svc" where
  "async_resolve op i q s =
     (case rv_impl s i of
        Some t \<Rightarrow> start_resolve_op op (s\<lparr>rv_query := (rv_query s)(op := (t, q))\<rparr>)
      | None \<Rightarrow> s)"

text \<open>The worker thread takes an operation and looks at its token; then \<open>getaddrinfo\<close> takes its time; then
  the operation goes back to the main \<open>io_service\<close>, where it is already counted.\<close>

definition worker_take :: "'e resolver_svc \<Rightarrow> 'e resolver_svc" where
  "worker_take s =
     (case rv_worker s of
        [] \<Rightarrow> s
      | op # ops \<Rightarrow> s\<lparr>rv_worker := ops, rv_checked := Some (op, fst (rv_query s op) \<notin> rv_tokens s)\<rparr>)"

definition worker_post :: "'e gai \<Rightarrow> 'e resolver_svc \<Rightarrow> 'e resolver_svc" where
  "worker_post gai s =
     (case rv_checked s of
        None \<Rightarrow> s
      | Some (op, expired) \<Rightarrow>
          let q = snd (rv_query s op);
              (ec, as) = background_getaddrinfo gai expired (rq_host q) (rq_service q)
          in s\<lparr>rv_checked := None, rv_main := rv_main s @ [(op, ec, as)]\<rparr>)"

text \<open>The main \<open>io_service\<close> runs the operation: the handler gets the error and the iterator, and the
  operation is no longer counted.  An address that is too long throws before the handler is called.\<close>

definition handler_iter :: "'e resolver_svc \<Rightarrow> nat \<Rightarrow> 'e addrinfo list \<Rightarrow> 'e rs_iter option" where
  "handler_iter s op as =
     (let q = snd (rv_query s op)
      in if as \<noteq> [] then iter_create op as (rq_host q) (rq_service q) else Some end_iter)"

definition main_complete :: "'e resolver_svc \<Rightarrow> 'e resolver_svc" where
  "main_complete s =
     (case rv_main s of
        [] \<Rightarrow> s
      | (op, ec, as) # rest \<Rightarrow>
          s\<lparr>rv_main := rest, rv_outstanding := rv_outstanding s - 1, rv_done := rv_done s @ [(op, ec, handler_iter s op as)]\<rparr>)"

text \<open>\<open>shutdown_service\<close> stops the private \<open>io_service\<close>, waits for the thread, and destroys what is queued.\<close>

definition rv_stop :: "'e resolver_svc \<Rightarrow> 'e resolver_svc" where
  "rv_stop s = (if rv_open s then s\<lparr>rv_stopped := True\<rparr> else s)"

definition rv_join :: "'e resolver_svc \<Rightarrow> 'e resolver_svc" where
  "rv_join s = (if rv_open s then s\<lparr>rv_thread := False, rv_open := False, rv_destroyed := rv_destroyed s @ rv_worker s, rv_worker := []\<rparr> else s)"

inductive resolver_run :: "'e gai \<Rightarrow> nat list \<Rightarrow> 'e resolver_svc \<Rightarrow> bool" for gai where
  rr_new: "resolver_run gai [] new_resolver_svc"
| rr_construct: "resolver_run gai ops s \<Longrightarrow> rv_impl s i = None \<Longrightarrow> resolver_run gai ops (rv_construct i s)"
| rr_destroy: "resolver_run gai ops s \<Longrightarrow> resolver_run gai ops (rv_destroy i s)"
| rr_cancel: "resolver_run gai ops s \<Longrightarrow> rv_impl s i \<noteq> None \<Longrightarrow> resolver_run gai ops (rv_cancel i s)"
| rr_resolve: "resolver_run gai ops s \<Longrightarrow> rv_impl s i \<noteq> None \<Longrightarrow> op \<notin> set ops \<Longrightarrow> rv_open s \<Longrightarrow> \<not> rv_stopped s \<Longrightarrow>
    resolver_run gai (ops @ [op]) (async_resolve op i q s)"
| rr_take: "resolver_run gai ops s \<Longrightarrow> rv_thread s \<Longrightarrow> \<not> rv_stopped s \<Longrightarrow> rv_checked s = None \<Longrightarrow> resolver_run gai ops (worker_take s)"
| rr_post: "resolver_run gai ops s \<Longrightarrow> resolver_run gai ops (worker_post gai s)"
| rr_main: "resolver_run gai ops s \<Longrightarrow> resolver_run gai ops (main_complete s)"
| rr_stop: "resolver_run gai ops s \<Longrightarrow> resolver_run gai ops (rv_stop s)"
| rr_join: "resolver_run gai ops s \<Longrightarrow> rv_stopped s \<Longrightarrow> rv_checked s = None \<Longrightarrow> resolver_run gai ops (rv_join s)"

text \<open>Where the operations are, in the order they were started.\<close>

definition rv_where :: "'e resolver_svc \<Rightarrow> nat list" where
  "rv_where s = map fst (rv_done s) @ map fst (rv_main s) @ (case rv_checked s of Some (op, _) \<Rightarrow> [op] | None \<Rightarrow> []) @ rv_worker s @ rv_destroyed s"

definition rv_pending :: "'e resolver_svc \<Rightarrow> nat" where
  "rv_pending s = length (rv_main s) + (if rv_checked s = None then 0 else 1) + length (rv_worker s) + length (rv_destroyed s)"

definition resolved :: "'e gai \<Rightarrow> 'e resolver_svc \<Rightarrow> nat \<Rightarrow> resolve_error \<Rightarrow> 'e addrinfo list \<Rightarrow> bool" where
  "resolved gai s op ec as \<longleftrightarrow>
     (\<exists>expired. (expired \<longrightarrow> fst (rv_query s op) \<notin> rv_tokens s)
        \<and> background_getaddrinfo gai expired (rq_host (snd (rv_query s op))) (rq_service (snd (rv_query s op))) = (ec, as))"

definition on_way :: "'e gai \<Rightarrow> 'e resolver_svc \<Rightarrow> nat \<times> resolve_error \<times> 'e addrinfo list \<Rightarrow> bool" where
  "on_way gai s x \<longleftrightarrow> (case x of (op, ec, as) \<Rightarrow> resolved gai s op ec as)"

definition ended :: "'e gai \<Rightarrow> 'e resolver_svc \<Rightarrow> nat \<times> resolve_error \<times> 'e rs_iter option \<Rightarrow> bool" where
  "ended gai s x \<longleftrightarrow> (case x of (op, ec, it) \<Rightarrow> \<exists>as. resolved gai s op ec as \<and> it = handler_iter s op as)"

definition rv_threads_ok :: "nat list \<Rightarrow> 'e resolver_svc \<Rightarrow> bool" where
  "rv_threads_ok ops s \<longleftrightarrow>
     (if rv_open s then rv_destroyed s = [] \<and> (rv_thread s \<longleftrightarrow> ops \<noteq> [])
      else \<not> rv_thread s \<and> rv_worker s = [] \<and> rv_stopped s \<and> rv_checked s = None)"

definition rv_tokens_ok :: "nat list \<Rightarrow> 'e resolver_svc \<Rightarrow> bool" where
  "rv_tokens_ok ops s \<longleftrightarrow> (\<forall>t \<in> rv_tokens s. t < rv_next_token s) \<and> (\<forall>op \<in> set ops. fst (rv_query s op) < rv_next_token s)
     \<and> (\<forall>i t. rv_impl s i = Some t \<longrightarrow> t < rv_next_token s)"

definition rv_inv :: "'e gai \<Rightarrow> nat list \<Rightarrow> 'e resolver_svc \<Rightarrow> bool" where
  "rv_inv gai ops s \<longleftrightarrow> rv_where s = ops \<and> distinct ops \<and> rv_outstanding s = rv_pending s \<and> rv_threads_ok ops s \<and> rv_tokens_ok ops s
     \<and> (\<forall>op b. rv_checked s = Some (op, b) \<longrightarrow> b \<longrightarrow> fst (rv_query s op) \<notin> rv_tokens s)
     \<and> (\<forall>x \<in> set (rv_main s). on_way gai s x) \<and> (\<forall>x \<in> set (rv_done s). ended gai s x)"

subsection \<open>Every resolve ends once\<close>

lemma rv_invD:
  assumes "rv_inv gai ops s"
  shows "rv_where s = ops" "distinct ops" "rv_outstanding s = rv_pending s" "rv_threads_ok ops s" "rv_tokens_ok ops s"
    "\<And>op. rv_checked s = Some (op, True) \<Longrightarrow> fst (rv_query s op) \<notin> rv_tokens s"
    "\<And>x. x \<in> set (rv_main s) \<Longrightarrow> on_way gai s x" "\<And>x. x \<in> set (rv_done s) \<Longrightarrow> ended gai s x"
    "\<And>x. x \<in> set (rv_main s) \<Longrightarrow> fst x \<in> set ops" "\<And>x. x \<in> set (rv_done s) \<Longrightarrow> fst x \<in> set ops"
    "\<And>op b. rv_checked s = Some (op, b) \<Longrightarrow> op \<in> set ops"
proof -
  show w: "rv_where s = ops" and "distinct ops" "rv_outstanding s = rv_pending s" "rv_threads_ok ops s" "rv_tokens_ok ops s"
    "\<And>op. rv_checked s = Some (op, True) \<Longrightarrow> fst (rv_query s op) \<notin> rv_tokens s"
    "\<And>x. x \<in> set (rv_main s) \<Longrightarrow> on_way gai s x" "\<And>x. x \<in> set (rv_done s) \<Longrightarrow> ended gai s x"
    using assms unfolding rv_inv_def by blast+
  show "\<And>x. x \<in> set (rv_main s) \<Longrightarrow> fst x \<in> set ops" "\<And>x. x \<in> set (rv_done s) \<Longrightarrow> fst x \<in> set ops"
    "\<And>op b. rv_checked s = Some (op, b) \<Longrightarrow> op \<in> set ops"
    unfolding w [symmetric] by (auto simp: rv_where_def)
qed

lemma rv_invI:
  assumes "rv_where s = ops" "distinct ops" "rv_outstanding s = rv_pending s" "rv_threads_ok ops s" "rv_tokens_ok ops s"
    "\<And>op. rv_checked s = Some (op, True) \<Longrightarrow> fst (rv_query s op) \<notin> rv_tokens s"
    "\<And>x. x \<in> set (rv_main s) \<Longrightarrow> on_way gai s x" "\<And>x. x \<in> set (rv_done s) \<Longrightarrow> ended gai s x"
  shows "rv_inv gai ops s"
  using assms unfolding rv_inv_def by auto

text \<open>What an operation came to stays true when its query stays and its token does not come back.\<close>

lemma results_stay:
  assumes "rv_query s' op = rv_query s op" "fst (rv_query s op) \<notin> rv_tokens s \<Longrightarrow> fst (rv_query s op) \<notin> rv_tokens s'"
  shows "fst x = op \<Longrightarrow> on_way gai s x \<Longrightarrow> on_way gai s' x" and "fst y = op \<Longrightarrow> ended gai s y \<Longrightarrow> ended gai s' y"
proof -
  have r: "resolved gai s' op ec as" if "resolved gai s op ec as" for ec as using that assms unfolding resolved_def by metis
  show "fst x = op \<Longrightarrow> on_way gai s x \<Longrightarrow> on_way gai s' x" using r by (auto simp: on_way_def split: prod.splits)
  have "handler_iter s' op as = handler_iter s op as" for as by (simp add: handler_iter_def assms(1))
  then show "fst y = op \<Longrightarrow> ended gai s y \<Longrightarrow> ended gai s' y" using r by (fastforce simp: ended_def split: prod.splits)
qed

lemma results_same:
  assumes "rv_query s' = rv_query s" "rv_tokens s' = rv_tokens s"
  shows "on_way gai s' = on_way gai s" "ended gai s' = ended gai s"
  using assms by (simp_all add: fun_eq_iff on_way_def ended_def resolved_def handler_iter_def)

lemma rv_inv_tokens:
  assumes inv: "rv_inv gai ops s" and n: "rv_next_token s \<le> n"
    and dead: "\<And>t. t < rv_next_token s \<Longrightarrow> t \<notin> rv_tokens s \<Longrightarrow> t \<notin> T"
    and live: "\<And>t. t \<in> T \<Longrightarrow> t < n" and im: "\<And>i t. m i = Some t \<Longrightarrow> t < n"
  shows "rv_inv gai ops (s\<lparr>rv_tokens := T, rv_impl := m, rv_next_token := n\<rparr>)"
proof -
  let ?s = "s\<lparr>rv_tokens := T, rv_impl := m, rv_next_token := n\<rparr>"
  note i = rv_invD [OF inv]
  have q: "fst (rv_query s op) < rv_next_token s" if "op \<in> set ops" for op using i(5) that by (auto simp: rv_tokens_ok_def)
  have keep: "fst (rv_query s op) \<notin> T" if "op \<in> set ops" "fst (rv_query s op) \<notin> rv_tokens s" for op using dead q that by blast
  show ?thesis
  proof (rule rv_invI)
    show "rv_where ?s = ops" "distinct ops" "rv_outstanding ?s = rv_pending ?s" "rv_threads_ok ops ?s"
      using i(1-4) by (simp_all add: rv_where_def rv_pending_def rv_threads_ok_def)
    show "rv_tokens_ok ops ?s" using live im less_le_trans [OF q n] by (auto simp: rv_tokens_ok_def)
    show "fst (rv_query ?s op) \<notin> rv_tokens ?s" if "rv_checked ?s = Some (op, True)" for op using keep i(6,11) that by auto
    show "on_way gai ?s x" if "x \<in> set (rv_main ?s)" for x
      by (rule results_stay(1) [OF _ _ refl i(7)]) (use that i(9) [of x] keep in auto)
    show "ended gai ?s x" if "x \<in> set (rv_done ?s)" for x
      by (rule results_stay(2) [OF _ _ refl i(8)]) (use that i(10) [of x] keep in auto)
  qed
qed

lemma rv_inv_drop: "rv_inv gai ops s \<Longrightarrow> rv_inv gai ops (rv_drop_token i s)"
proof -
  assume inv: "rv_inv gai ops s"
  show ?thesis
  proof (cases "rv_impl s i")
    case (Some t)
    have "rv_inv gai ops (s\<lparr>rv_tokens := rv_tokens s - {t}, rv_impl := rv_impl s, rv_next_token := rv_next_token s\<rparr>)"
      by (rule rv_inv_tokens [OF inv]) (use rv_invD(5) [OF inv] in \<open>auto simp: rv_tokens_ok_def\<close>)
    then show ?thesis by (simp add: rv_drop_token_def Some)
  qed (use inv in \<open>simp add: rv_drop_token_def\<close>)
qed

lemma rv_inv_construct: "rv_inv gai ops s \<Longrightarrow> rv_inv gai ops (rv_construct i s)"
  unfolding rv_construct_def
  by (rule rv_inv_tokens) (use rv_invD(5) [of gai ops s] in \<open>auto simp: rv_tokens_ok_def less_Suc_eq split: if_splits\<close>)

lemma rv_inv_destroy: "rv_inv gai ops s \<Longrightarrow> rv_inv gai ops (rv_destroy i s)"
proof -
  assume "rv_inv gai ops s"
  note inv = rv_inv_drop [OF this, of i]
  let ?s = "rv_drop_token i s"
  have "rv_inv gai ops (?s\<lparr>rv_tokens := rv_tokens ?s, rv_impl := (rv_impl ?s)(i := None), rv_next_token := rv_next_token ?s\<rparr>)"
    by (rule rv_inv_tokens [OF inv]) (use rv_invD(5) [OF inv] in \<open>auto simp: rv_tokens_ok_def split: if_splits\<close>)
  moreover have "rv_impl ?s = rv_impl s" by (simp add: rv_drop_token_def split: option.split)
  ultimately show ?thesis by (simp add: rv_destroy_def)
qed

lemma rv_inv_resolve:
  assumes inv: "rv_inv gai ops s" and i: "rv_impl s i \<noteq> None" and op: "op \<notin> set ops" and o: "rv_open s" "\<not> rv_stopped s"
  shows "rv_inv gai (ops @ [op]) (async_resolve op i q s)"
proof -
  note d = rv_invD [OF inv]
  obtain t where t: "rv_impl s i = Some t" "t < rv_next_token s" using i d(5) by (auto simp: rv_tokens_ok_def)
  let ?s = "async_resolve op i q s"
  have f: "rv_query ?s = (rv_query s)(op := (t, q))" "rv_tokens ?s = rv_tokens s" "rv_main ?s = rv_main s" "rv_done ?s = rv_done s"
    "rv_checked ?s = rv_checked s" "rv_worker ?s = rv_worker s @ [op]" "rv_outstanding ?s = Suc (rv_outstanding s)" "rv_thread ?s"
    "rv_open ?s = rv_open s" "rv_stopped ?s = rv_stopped s" "rv_destroyed ?s = rv_destroyed s" "rv_next_token ?s = rv_next_token s" "rv_impl ?s = rv_impl s"
    by (simp_all add: async_resolve_def t start_resolve_op_def start_work_thread_def Let_def)
  have de: "rv_destroyed s = []" using d(4) o by (simp add: rv_threads_ok_def)
  show ?thesis
  proof (rule rv_invI)
    show "rv_where ?s = ops @ [op]" "distinct (ops @ [op])" "rv_outstanding ?s = rv_pending ?s" "rv_threads_ok (ops @ [op]) ?s"
      using d(1-3) op o de by (auto simp: rv_where_def rv_pending_def rv_threads_ok_def f)
    show "rv_tokens_ok (ops @ [op]) ?s" using d(5) t(2) by (auto simp: rv_tokens_ok_def f)
    show "fst (rv_query ?s x) \<notin> rv_tokens ?s" if "rv_checked ?s = Some (x, True)" for x using d(6,11) that op by (auto simp: f)
    show "on_way gai ?s x" if "x \<in> set (rv_main ?s)" for x
      by (rule results_stay(1) [OF _ _ refl d(7)]) (use that d(9) [of x] op in \<open>auto simp: f\<close>)
    show "ended gai ?s x" if "x \<in> set (rv_done ?s)" for x
      by (rule results_stay(2) [OF _ _ refl d(8)]) (use that d(10) [of x] op in \<open>auto simp: f\<close>)
  qed
qed

lemma rv_inv_take:
  assumes inv: "rv_inv gai ops s" and c: "rv_checked s = None" "rv_thread s"
  shows "rv_inv gai ops (worker_take s)"
proof (cases "rv_worker s")
  case (Cons op rest)
  let ?s = "worker_take s"
  note d = rv_invD [OF inv]
  have f: "?s = s\<lparr>rv_worker := rest, rv_checked := Some (op, fst (rv_query s op) \<notin> rv_tokens s)\<rparr>" by (simp add: worker_take_def Cons)
  have "rv_open s" using d(4) c by (auto simp: rv_threads_ok_def split: if_splits)
  then show ?thesis using d results_same [of ?s s gai]
    by (intro rv_invI) (simp_all add: f rv_where_def rv_pending_def rv_threads_ok_def rv_tokens_ok_def Cons c)
qed (use inv in \<open>simp add: worker_take_def\<close>)

lemma rv_inv_post:
  assumes inv: "rv_inv gai ops s"
  shows "rv_inv gai ops (worker_post gai s)"
proof (cases "rv_checked s")
  case (Some c)
  obtain op b ec as where c: "c = (op, b)"
    and g: "background_getaddrinfo gai b (rq_host (snd (rv_query s op))) (rq_service (snd (rv_query s op))) = (ec, as)" by (metis surj_pair)
  let ?s = "worker_post gai s"
  note d = rv_invD [OF inv]
  have f: "?s = s\<lparr>rv_checked := None, rv_main := rv_main s @ [(op, ec, as)]\<rparr>" by (simp add: worker_post_def Some c g Let_def)
  have "resolved gai s op ec as" unfolding resolved_def by (rule exI [of _ b]) (use g d(6) Some c in auto)
  then have n: "on_way gai s (op, ec, as)" by (simp add: on_way_def)
  have o: "rv_open s" using d(4) Some by (auto simp: rv_threads_ok_def split: if_splits)
  show ?thesis
  proof (rule rv_invI)
    show "on_way gai ?s x" if "x \<in> set (rv_main ?s)" for x using that n d(7) [of x] results_same [of ?s s gai] by (auto simp: f)
    show "ended gai ?s x" if "x \<in> set (rv_done ?s)" for x using that d(8) results_same [of ?s s gai] by (simp add: f)
  qed (use d(1-5) o in \<open>simp_all add: f rv_where_def rv_pending_def rv_threads_ok_def rv_tokens_ok_def Some c\<close>)
qed (use inv in \<open>simp add: worker_post_def\<close>)

lemma rv_inv_main:
  assumes inv: "rv_inv gai ops s"
  shows "rv_inv gai ops (main_complete s)"
proof (cases "rv_main s")
  case (Cons x rest)
  obtain op ec as where x: "x = (op, ec, as)" by (cases x)
  let ?s = "main_complete s"
  note d = rv_invD [OF inv]
  have f: "?s = s\<lparr>rv_main := rest, rv_outstanding := rv_outstanding s - 1, rv_done := rv_done s @ [(op, ec, handler_iter s op as)]\<rparr>"
    by (simp add: main_complete_def Cons x)
  have n: "ended gai s (op, ec, handler_iter s op as)" using d(7) [of x] Cons x by (auto simp: on_way_def ended_def)
  show ?thesis
  proof (rule rv_invI)
    show "on_way gai ?s x" if "x \<in> set (rv_main ?s)" for x using that d(7) Cons results_same [of ?s s gai] by (simp add: f)
    show "ended gai ?s x" if "x \<in> set (rv_done ?s)" for x using that n d(8) [of x] results_same [of ?s s gai] by (auto simp: f)
    show "fst (rv_query ?s op) \<notin> rv_tokens ?s" if "rv_checked ?s = Some (op, True)" for op using that d(6) by (simp add: f)
  qed (use d(1-5) in \<open>simp_all add: f rv_where_def rv_pending_def rv_threads_ok_def rv_tokens_ok_def Cons x\<close>)
qed (use inv in \<open>simp add: main_complete_def\<close>)

lemma rv_inv_stop:
  assumes inv: "rv_inv gai ops s"
  shows "rv_inv gai ops (rv_stop s)"
proof (cases "rv_open s")
  case True
  note d = rv_invD [OF inv]
  let ?s = "s\<lparr>rv_stopped := True\<rparr>"
  have "rv_inv gai ops ?s"
    by (rule rv_invI) (use d True results_same [of ?s s gai] in \<open>simp_all add: rv_where_def rv_pending_def rv_threads_ok_def rv_tokens_ok_def\<close>)
  then show ?thesis by (simp add: rv_stop_def True)
qed (use inv in \<open>simp add: rv_stop_def\<close>)

lemma rv_inv_join:
  assumes inv: "rv_inv gai ops s" and s: "rv_stopped s" "rv_checked s = None"
  shows "rv_inv gai ops (rv_join s)"
proof (cases "rv_open s")
  case True
  note d = rv_invD [OF inv]
  let ?s = "s\<lparr>rv_thread := False, rv_open := False, rv_destroyed := rv_destroyed s @ rv_worker s, rv_worker := []\<rparr>"
  have "rv_inv gai ops ?s"
    by (rule rv_invI) (use d s True results_same [of ?s s gai] in \<open>simp_all add: rv_where_def rv_pending_def rv_threads_ok_def rv_tokens_ok_def\<close>)
  then show ?thesis by (simp add: rv_join_def True)
qed (use inv in \<open>simp add: rv_join_def\<close>)

lemma rv_inv_run: "resolver_run gai ops s \<Longrightarrow> rv_inv gai ops s"
proof (induction rule: resolver_run.induct)
  case rr_new
  show ?case by (rule rv_invI) (simp_all add: new_resolver_svc_def rv_where_def rv_pending_def rv_threads_ok_def rv_tokens_ok_def)
next
  case (rr_cancel ops s i)
  then show ?case by (simp add: rv_cancel_def rv_inv_construct rv_inv_drop)
qed (simp_all add: rv_inv_construct rv_inv_destroy rv_inv_resolve rv_inv_take rv_inv_post rv_inv_main rv_inv_stop rv_inv_join)

text \<open>Both threads go on by themselves.\<close>

definition rv_round :: "'e gai \<Rightarrow> 'e resolver_svc \<Rightarrow> 'e resolver_svc" where
  "rv_round gai s = main_complete (worker_post gai (if rv_checked s = None then worker_take s else s))"

lemma round_run:
  assumes run: "resolver_run gai ops s" and o: "rv_open s" "\<not> rv_stopped s"
  shows "resolver_run gai ops (rv_round gai s) \<and> rv_open (rv_round gai s) \<and> \<not> rv_stopped (rv_round gai s)
    \<and> rv_pending (rv_round gai s) = rv_pending s - 1"
proof -
  note d = rv_invD [OF rv_inv_run [OF run]]
  have de: "rv_destroyed s = []" using d(4) o by (simp add: rv_threads_ok_def)
  have th: "rv_thread s" if "rv_worker s \<noteq> []" using d(1,4) o that by (auto simp: rv_threads_ok_def rv_where_def)
  define u where "u = (if rv_checked s = None then worker_take s else s)"
  have u: "resolver_run gai ops u \<and> rv_open u \<and> \<not> rv_stopped u \<and> rv_destroyed u = [] \<and> rv_pending u = rv_pending s
    \<and> (rv_checked u = None \<longrightarrow> rv_worker u = [])"
  proof (cases "rv_checked s = None \<and> rv_worker s \<noteq> []")
    case True
    then have "resolver_run gai ops u" using rr_take [OF run] th o by (simp add: u_def)
    then show ?thesis using True o de by (cases "rv_worker s") (auto simp: u_def worker_take_def rv_pending_def)
  qed (use run o de in \<open>auto simp: u_def worker_take_def\<close>)
  define v where "v = worker_post gai u"
  have v: "resolver_run gai ops v \<and> rv_open v \<and> \<not> rv_stopped v \<and> rv_pending v = rv_pending u \<and> (rv_main v = [] \<longrightarrow> rv_pending v = 0)"
  proof (cases "rv_checked u")
    case None
    then show ?thesis using u by (simp add: v_def worker_post_def rv_pending_def)
  next
    case (Some c)
    have "resolver_run gai ops v" using rr_post [of gai ops u] u by (simp add: v_def)
    moreover obtain op b where "c = (op, b)" by (cases c)
    ultimately show ?thesis using u Some by (auto simp: v_def worker_post_def rv_pending_def Let_def split: prod.splits)
  qed
  have m: "rv_open (main_complete v) = rv_open v" "rv_stopped (main_complete v) = rv_stopped v"
    by (auto simp: main_complete_def split: list.splits prod.splits)
  have "rv_pending (main_complete v) = rv_pending v - 1"
  proof (cases "rv_main v")
    case Nil
    then show ?thesis using v by (simp add: main_complete_def)
  next
    case (Cons x xs)
    then show ?thesis by (cases x) (simp add: main_complete_def rv_pending_def)
  qed
  then show ?thesis using rr_main [of gai ops v] v u m by (simp add: rv_round_def u_def v_def)
qed

lemma rounds_run:
  assumes "resolver_run gai ops s" "rv_open s" "\<not> rv_stopped s"
  shows "resolver_run gai ops ((rv_round gai ^^ n) s) \<and> rv_open ((rv_round gai ^^ n) s) \<and> \<not> rv_stopped ((rv_round gai ^^ n) s)
    \<and> rv_pending ((rv_round gai ^^ n) s) = rv_pending s - n"
  by (induction n) (use assms round_run in auto)

text \<open>The asynchronous resolves of a run end once each and in the order they were started.  At every
  moment each of them has ended, is on its way back, is with the worker thread, is queued or was
  destroyed by the shutdown, and those that have not ended are counted as work of the main \<open>io_service\<close>.
  What a handler gets is what \<open>getaddrinfo\<close> answers for its query, or that it was aborted, which it
  only is when its resolver was cancelled or destroyed.  Unless it is shut down the service ends all of
  them by itself.\<close>

theorem resolves_end_once:
  assumes run: "resolver_run gai ops s"
  shows "rv_where s = ops \<and> distinct ops \<and> rv_outstanding s = rv_pending s
    \<and> (\<forall>(op, ec, it) \<in> set (rv_done s). \<exists>as. resolved gai s op ec as \<and> it = handler_iter s op as)
    \<and> (rv_open s \<and> \<not> rv_stopped s \<longrightarrow>
         (let z = (rv_round gai ^^ rv_pending s) s
          in resolver_run gai ops z \<and> map fst (rv_done z) = ops \<and> rv_outstanding z = 0))"
proof -
  note d = rv_invD [OF rv_inv_run [OF run]]
  have z: "map fst (rv_done z) = ops" "rv_outstanding z = 0" if "resolver_run gai ops z" "rv_pending z = 0" for z
    using rv_invD(1,3) [OF rv_inv_run [OF that(1)]] that(2) by (auto simp: rv_where_def rv_pending_def split: if_splits)
  have "\<forall>(op, ec, it) \<in> set (rv_done s). \<exists>as. resolved gai s op ec as \<and> it = handler_iter s op as"
    using d(8) by (auto simp: ended_def)
  moreover have "let w = (rv_round gai ^^ rv_pending s) s in resolver_run gai ops w \<and> map fst (rv_done w) = ops \<and> rv_outstanding w = 0"
    if "rv_open s" "\<not> rv_stopped s"
    using rounds_run [OF run that, of "rv_pending s"] z [of "(rv_round gai ^^ rv_pending s) s"] by (simp add: Let_def)
  ultimately show ?thesis using d(1-3) by blast
qed

text \<open>Two resolves with a cancel between them: both end, in order.\<close>

theorem resolves_end_once_witness:
  "\<exists>s. resolver_run (\<lambda>h s. \<lparr>gai_code = 0, gai_errno = 0, gai_list = [] :: nat addrinfo list\<rparr>) [5, 6] s
     \<and> map fst (rv_done s) = [5, 6] \<and> rv_outstanding s = 0"
proof -
  let ?gai = "\<lambda>(h :: string option) (s :: string option). \<lparr>gai_code = 0, gai_errno = 0, gai_list = [] :: nat addrinfo list\<rparr>"
  let ?q = "\<lparr>rq_host = ''relay'', rq_service = ''9000''\<rparr>"
  define a :: "nat resolver_svc" where "a = rv_construct 0 new_resolver_svc"
  define b where "b = async_resolve 5 0 ?q a"
  define c where "c = rv_cancel 0 b"
  define d where "d = async_resolve 6 0 ?q c"
  have a: "resolver_run ?gai [] a" unfolding a_def by (rule rr_construct [OF rr_new]) (simp add: new_resolver_svc_def)
  have fa: "rv_impl a 0 = Some 0" "rv_open a" "\<not> rv_stopped a" by (simp_all add: a_def rv_construct_def new_resolver_svc_def)
  have b: "resolver_run ?gai [5] b" using rr_resolve [OF a, of 0 5 ?q] fa by (simp add: b_def)
  have fb: "rv_impl b 0 = Some 0" "rv_open b" "\<not> rv_stopped b" using fa by (simp_all add: b_def async_resolve_def start_resolve_op_def start_work_thread_def Let_def)
  have c: "resolver_run ?gai [5] c" using rr_cancel [OF b] fb by (simp add: c_def)
  have fc: "rv_impl c 0 \<noteq> None" "rv_open c" "\<not> rv_stopped c" using fb by (simp_all add: c_def rv_cancel_def rv_construct_def rv_drop_token_def)
  have d: "resolver_run ?gai [5, 6] d" using rr_resolve [OF c fc(1), of 6 ?q] fc by (simp add: d_def)
  have "rv_open d" "\<not> rv_stopped d" using fc by (auto simp: d_def async_resolve_def start_resolve_op_def start_work_thread_def Let_def split: if_splits)
  then show ?thesis using resolves_end_once [OF d] by (auto simp: Let_def)
qed

end
