(* ===== verification/Scheduler.thy ===== *)
theory Scheduler
  imports Prelude "HOL-Library.Multiset"
begin

text \<open>
  The \<open>io_service\<close> of asio (\<^verbatim>\<open>deps/asio/1.10.6/include/asio/detail/task_io_service.hpp\<close>,
  \<^verbatim>\<open>impl/task_io_service.hpp\<close>, \<^verbatim>\<open>impl/task_io_service.ipp\<close>, \<^verbatim>\<open>posix_event.hpp\<close>): any number of
  threads that call \<open>run\<close>, the queue they share, the private queues of the threads that run a handler
  or the reactor, the count of outstanding work, and the event on which idle threads wait.  What a
  thread does while it holds the mutex is one step, together with the change of the atomic count or the
  return of a handler that comes before it.  The theorems: every handler runs once, the count
  of the work is exact and reaches 0 when nothing is left and not before, the reactor is run by one
  thread at a time, and threads never sleep while there is something to run.
\<close>

subsection \<open>State\<close>

text \<open>The queue holds handlers, operations of descriptors, and the mark of the reactor
  (\<open>task_operation_\<close>).\<close>

datatype 'h item = Task | Descriptor | Op 'h

text \<open>\<open>Looking\<close>: in the loop of \<open>do_run_one\<close>, without the mutex.  \<open>Waiting\<close>: blocked in
  \<open>pthread_cond_wait\<close>; \<open>Woken\<close>: about to return from it.  \<open>InTask block\<close>: in \<open>task_->run(block, _)\<close>.
  \<open>InDescriptor\<close>: in \<open>complete\<close> of a descriptor operation, before \<open>perform_io\<close>.\<close>

datatype 'h thread_mode = Outside | Looking | Waiting | Woken | InTask bool | InDescriptor | Running "'h option"

record 'h sched_thread =
  th_mode :: "'h thread_mode"
  th_private_work :: nat
  th_private_queue :: "'h item list"

text \<open>\<open>sc_signalled\<close> and \<open>sc_waiters\<close> are the lowest bit and the rest of \<open>state_\<close> of the event.
  \<open>sc_elsewhere\<close>: the units of work held by operations that wait in the reactor and by objects of
  \<open>io_service::work\<close>.  \<open>sc_given\<close> and \<open>sc_done\<close> record handlers.\<close>

record 'h scheduler =
  sc_queue :: "'h item list"
  sc_outstanding :: int
  sc_stopped :: bool
  sc_task :: bool
  sc_task_interrupted :: bool
  sc_signalled :: bool
  sc_waiters :: nat
  sc_threads :: "'h sched_thread list"
  sc_one_thread :: bool
  sc_elsewhere :: nat
  sc_given :: "'h list"
  sc_done :: "'h list"

definition fresh_thread :: "'h sched_thread" where
  "fresh_thread = \<lparr>th_mode = Outside, th_private_work = 0, th_private_queue = []\<rparr>"

definition new_scheduler :: "nat \<Rightarrow> nat \<Rightarrow> 'h scheduler" where
  "new_scheduler concurrency_hint threads = \<lparr>sc_queue = [], sc_outstanding = 0, sc_stopped = False, sc_task = False,
     sc_task_interrupted = True, sc_signalled = False, sc_waiters = 0, sc_threads = replicate threads fresh_thread,
     sc_one_thread = (concurrency_hint = 1), sc_elsewhere = 0, sc_given = [], sc_done = []\<rparr>"

definition set_thread :: "nat \<Rightarrow> 'h sched_thread \<Rightarrow> 'h scheduler \<Rightarrow> 'h scheduler" where
  "set_thread t th s = s\<lparr>sc_threads := (sc_threads s)[t := th]\<rparr>"

definition mode_of :: "nat \<Rightarrow> 'h scheduler \<Rightarrow> 'h thread_mode" where
  "mode_of t s = th_mode (sc_threads s ! t)"

definition th_set_mode :: "nat \<Rightarrow> 'h thread_mode \<Rightarrow> 'h scheduler \<Rightarrow> 'h scheduler" where
  "th_set_mode t m s = set_thread t ((sc_threads s ! t)\<lparr>th_mode := m\<rparr>) s"

text \<open>\<open>thread_call_stack::contains\<close>: the caller is one of the threads in \<open>run\<close>; of these, the ones that
  post are those that run a handler.\<close>

fun th_inside :: "'h thread_mode \<Rightarrow> bool" where
  "th_inside (Running _) = True"
| "th_inside _ = False"

subsection \<open>The event\<close>

text \<open>\<open>pthread_cond_signal\<close> wakes one of the waiting threads, \<open>w\<close>.\<close>

definition cond_signal :: "nat \<Rightarrow> 'h scheduler \<Rightarrow> 'h scheduler" where
  "cond_signal w s = (if w < length (sc_threads s) \<and> mode_of w s = Waiting then th_set_mode w Woken s else s)"

definition unlock_and_signal_one :: "nat \<Rightarrow> 'h scheduler \<Rightarrow> 'h scheduler" where
  "unlock_and_signal_one w s =
     (let s = s\<lparr>sc_signalled := True\<rparr> in if sc_waiters s > 0 then cond_signal w s else s)"

definition maybe_unlock_and_signal_one :: "nat \<Rightarrow> 'h scheduler \<Rightarrow> bool \<times> 'h scheduler" where
  "maybe_unlock_and_signal_one w s =
     (let s = s\<lparr>sc_signalled := True\<rparr> in if sc_waiters s > 0 then (True, cond_signal w s) else (False, s))"

definition signal_all :: "'h scheduler \<Rightarrow> 'h scheduler" where
  "signal_all s = s\<lparr>sc_signalled := True,
     sc_threads := map (\<lambda>th. if th_mode th = Waiting then th\<lparr>th_mode := Woken\<rparr> else th) (sc_threads s)\<rparr>"

text \<open>The loop of \<open>wait\<close>, entered with the event clear or after a wake-up.\<close>

definition event_wait :: "nat \<Rightarrow> 'h scheduler \<Rightarrow> 'h scheduler" where
  "event_wait t s =
     (if sc_signalled s then th_set_mode t Looking s
      else th_set_mode t Waiting (s\<lparr>sc_waiters := sc_waiters s + 1\<rparr>))"

definition event_woken :: "nat \<Rightarrow> 'h scheduler \<Rightarrow> 'h scheduler" where
  "event_woken t s = event_wait t (s\<lparr>sc_waiters := sc_waiters s - 1\<rparr>)"

subsection \<open>Stopping, waking and counting\<close>

definition interrupt_task :: "'h scheduler \<Rightarrow> 'h scheduler" where
  "interrupt_task s = (if \<not> sc_task_interrupted s \<and> sc_task s then s\<lparr>sc_task_interrupted := True\<rparr> else s)"

definition stop_all_threads :: "'h scheduler \<Rightarrow> 'h scheduler" where
  "stop_all_threads s = interrupt_task (signal_all (s\<lparr>sc_stopped := True\<rparr>))"

definition wake_one_thread :: "nat \<Rightarrow> 'h scheduler \<Rightarrow> 'h scheduler" where
  "wake_one_thread w s = (case maybe_unlock_and_signal_one w s of (woken, s) \<Rightarrow> if woken then s else interrupt_task s)"

definition work_started :: "'h scheduler \<Rightarrow> 'h scheduler" where
  "work_started s = s\<lparr>sc_outstanding := sc_outstanding s + 1\<rparr>"

definition work_finished :: "'h scheduler \<Rightarrow> 'h scheduler" where
  "work_finished s =
     (let s = s\<lparr>sc_outstanding := sc_outstanding s - 1\<rparr> in if sc_outstanding s = 0 then stop_all_threads s else s)"

definition reset :: "'h scheduler \<Rightarrow> 'h scheduler" where
  "reset s = s\<lparr>sc_stopped := False\<rparr>"

definition push_queue :: "'h item list \<Rightarrow> 'h scheduler \<Rightarrow> 'h scheduler" where
  "push_queue xs s = s\<lparr>sc_queue := sc_queue s @ xs\<rparr>"

definition push_private :: "nat \<Rightarrow> 'h item list \<Rightarrow> nat \<Rightarrow> 'h scheduler \<Rightarrow> 'h scheduler" where
  "push_private t xs n s = set_thread t ((sc_threads s ! t)\<lparr>th_private_queue := th_private_queue (sc_threads s ! t) @ xs,
     th_private_work := th_private_work (sc_threads s ! t) + n\<rparr>) s"

text \<open>The caller is a thread inside \<open>run\<close>, or another one (\<open>None\<close>).\<close>

definition post_immediate_completion :: "nat option \<Rightarrow> bool \<Rightarrow> 'h item \<Rightarrow> nat \<Rightarrow> 'h scheduler \<Rightarrow> 'h scheduler" where
  "post_immediate_completion caller is_continuation op w s =
     (case (if sc_one_thread s \<or> is_continuation then caller else None) of
        Some t \<Rightarrow> push_private t [op] 1 s
      | None \<Rightarrow> wake_one_thread w (push_queue [op] (work_started s)))"

definition post_deferred_completions :: "nat option \<Rightarrow> 'h item list \<Rightarrow> nat \<Rightarrow> 'h scheduler \<Rightarrow> 'h scheduler" where
  "post_deferred_completions caller ops w s =
     (if ops = [] then s
      else case (if sc_one_thread s then caller else None) of
             Some t \<Rightarrow> push_private t ops 0 s
           | None \<Rightarrow> wake_one_thread w (push_queue ops s))"

text \<open>\<open>do_dispatch\<close> for a caller outside; inside, \<open>dispatch\<close> calls the handler in place.\<close>

definition do_dispatch :: "'h item \<Rightarrow> nat \<Rightarrow> 'h scheduler \<Rightarrow> 'h scheduler" where
  "do_dispatch op w s = wake_one_thread w (push_queue [op] (work_started s))"

definition init_task :: "nat \<Rightarrow> 'h scheduler \<Rightarrow> 'h scheduler" where
  "init_task w s = (if \<not> sc_task s then wake_one_thread w (push_queue [Task] (s\<lparr>sc_task := True\<rparr>)) else s)"

subsection \<open>The loop of a thread\<close>

definition enter_run :: "nat \<Rightarrow> 'h scheduler \<Rightarrow> 'h scheduler" where
  "enter_run t s =
     (if sc_outstanding s = 0 then stop_all_threads s
      else set_thread t \<lparr>th_mode = Looking, th_private_work = 0, th_private_queue = []\<rparr> s)"

text \<open>\<open>do_run_one\<close> from one test of \<open>stopped_\<close> to the next, to the call of an operation, or to the
  return; \<open>w\<close> is the thread a signal wakes.\<close>

definition do_run_one :: "nat \<Rightarrow> nat \<Rightarrow> 'h scheduler \<Rightarrow> 'h scheduler" where
  "do_run_one t w s =
     (if sc_stopped s then th_set_mode t Outside s
      else case sc_queue s of
        [] \<Rightarrow> event_wait t (s\<lparr>sc_signalled := False\<rparr>)
      | item # rest \<Rightarrow>
          let s = s\<lparr>sc_queue := rest\<rparr>;
              more_handlers = (rest \<noteq> [])
          in case item of
               Task \<Rightarrow>
                 let s = s\<lparr>sc_task_interrupted := more_handlers\<rparr>;
                     s = (if more_handlers \<and> \<not> sc_one_thread s then unlock_and_signal_one w s else s)
                 in th_set_mode t (InTask (\<not> more_handlers)) s
             | Descriptor \<Rightarrow>
                 th_set_mode t InDescriptor (if more_handlers \<and> \<not> sc_one_thread s then wake_one_thread w s else s)
             | Op h \<Rightarrow>
                 th_set_mode t (Running (Some h)) (if more_handlers \<and> \<not> sc_one_thread s then wake_one_thread w s else s))"

text \<open>\<open>~task_cleanup\<close>; \<open>ops\<close> is what the reactor has put into the private queue.\<close>

definition task_cleanup :: "nat \<Rightarrow> 'h item list \<Rightarrow> 'h scheduler \<Rightarrow> 'h scheduler" where
  "task_cleanup t ops s =
     (let th = sc_threads s ! t;
          s = (if th_private_work th > 0 then s\<lparr>sc_outstanding := sc_outstanding s + int (th_private_work th)\<rparr> else s);
          s = push_queue (th_private_queue th @ ops @ [Task]) (s\<lparr>sc_task_interrupted := True\<rparr>)
      in set_thread t \<lparr>th_mode = Looking, th_private_work = 0, th_private_queue = []\<rparr> s)"

text \<open>\<open>~work_cleanup\<close>.\<close>

definition work_cleanup :: "nat \<Rightarrow> 'h scheduler \<Rightarrow> 'h scheduler" where
  "work_cleanup t s =
     (let th = sc_threads s ! t;
          s = set_thread t \<lparr>th_mode = Looking, th_private_work = 0, th_private_queue = []\<rparr> s;
          s = (if th_private_work th > 1 then s\<lparr>sc_outstanding := sc_outstanding s + int (th_private_work th) - 1\<rparr>
               else if th_private_work th < 1 then work_finished s else s)
      in push_queue (th_private_queue th) s)"

text \<open>A descriptor operation after \<open>perform_io\<close>, which has finished the operations \<open>hs\<close>: the first
  completes in place, the others are posted; for none, \<open>work_started\<close>.\<close>

definition performed_io :: "nat \<Rightarrow> 'h list \<Rightarrow> nat \<Rightarrow> 'h scheduler \<Rightarrow> 'h scheduler" where
  "performed_io t hs w s =
     (case hs of
        [] \<Rightarrow> th_set_mode t (Running None) (work_started s)
      | h # rest \<Rightarrow> th_set_mode t (Running (Some h)) (post_deferred_completions (Some t) (map Op rest) w s))"

subsection \<open>Runs\<close>

fun handlers_of :: "'h item list \<Rightarrow> 'h list" where
  "handlers_of [] = []"
| "handlers_of (Op h # xs) = h # handlers_of xs"
| "handlers_of (_ # xs) = handlers_of xs"

datatype 'h sched_event =
  EnterRun nat | RunOne nat nat | SpuriousWakeup nat | ReturnFromWait nat
| TaskDone nat "'h item list" | PerformedIo nat "'h list" nat | HandlerDone nat
| Post "nat option" bool 'h nat | Dispatch 'h nat | PostDeferred "nat option" "'h list" nat
| StartWork | FinishWork | Stop | Reset | InitTask nat

text \<open>\<open>reset\<close> is for a service that no thread runs.  The operations that leave the reactor were counted when they were started.\<close>

definition from_elsewhere :: "'h list \<Rightarrow> 'h scheduler \<Rightarrow> 'h scheduler" where
  "from_elsewhere hs s = s\<lparr>sc_elsewhere := sc_elsewhere s - length hs, sc_given := sc_given s @ hs\<rparr>"

fun handler_of :: "'h thread_mode \<Rightarrow> 'h list" where
  "handler_of (Running (Some h)) = [h]"
| "handler_of _ = []"

fun sched_step :: "'h sched_event \<Rightarrow> 'h scheduler \<Rightarrow> 'h scheduler" where
  "sched_step (EnterRun t) s = enter_run t s"
| "sched_step (RunOne t w) s = do_run_one t w s"
| "sched_step (SpuriousWakeup t) s = th_set_mode t Woken s"
| "sched_step (ReturnFromWait t) s = event_woken t s"
| "sched_step (TaskDone t ops) s = task_cleanup t ops (from_elsewhere (handlers_of ops) s)"
| "sched_step (PerformedIo t hs w) s = performed_io t hs w (from_elsewhere hs s)"
| "sched_step (HandlerDone t) s = (work_cleanup t s)\<lparr>sc_done := sc_done s @ handler_of (mode_of t s)\<rparr>"
| "sched_step (Post caller is_continuation h w) s =
     post_immediate_completion caller is_continuation (Op h) w (s\<lparr>sc_given := sc_given s @ [h]\<rparr>)"
| "sched_step (Dispatch h w) s = do_dispatch (Op h) w (s\<lparr>sc_given := sc_given s @ [h]\<rparr>)"
| "sched_step (PostDeferred caller hs w) s = post_deferred_completions caller (map Op hs) w (from_elsewhere hs s)"
| "sched_step StartWork s = work_started (s\<lparr>sc_elsewhere := sc_elsewhere s + 1\<rparr>)"
| "sched_step FinishWork s = work_finished (s\<lparr>sc_elsewhere := sc_elsewhere s - 1\<rparr>)"
| "sched_step Stop s = stop_all_threads s"
| "sched_step Reset s = reset s"
| "sched_step (InitTask w) s = init_task w s"

definition signal_ok :: "nat \<Rightarrow> 'h scheduler \<Rightarrow> bool" where
  "signal_ok w s \<longleftrightarrow> ((\<exists>t < length (sc_threads s). mode_of t s = Waiting) \<longrightarrow> w < length (sc_threads s) \<and> mode_of w s = Waiting)"

fun caller_ok :: "nat option \<Rightarrow> 'h scheduler \<Rightarrow> bool" where
  "caller_ok None s = True"
| "caller_ok (Some t) s = (t < length (sc_threads s) \<and> th_inside (mode_of t s))"

fun sched_enabled :: "'h scheduler \<Rightarrow> 'h sched_event \<Rightarrow> bool" where
  "sched_enabled s (EnterRun t) = (t < length (sc_threads s) \<and> mode_of t s = Outside)"
| "sched_enabled s (RunOne t w) = (t < length (sc_threads s) \<and> mode_of t s = Looking \<and> signal_ok w s)"
| "sched_enabled s (SpuriousWakeup t) = (t < length (sc_threads s) \<and> mode_of t s = Waiting)"
| "sched_enabled s (ReturnFromWait t) = (t < length (sc_threads s) \<and> mode_of t s = Woken)"
| "sched_enabled s (TaskDone t ops) = (t < length (sc_threads s) \<and> (\<exists>b. mode_of t s = InTask b) \<and> Task \<notin> set ops
     \<and> length (handlers_of ops) \<le> sc_elsewhere s)"
| "sched_enabled s (PerformedIo t hs w) = (t < length (sc_threads s) \<and> mode_of t s = InDescriptor \<and> length hs \<le> sc_elsewhere s \<and> signal_ok w s)"
| "sched_enabled s (HandlerDone t) = (t < length (sc_threads s) \<and> (\<exists>h. mode_of t s = Running h))"
| "sched_enabled s (Post caller _ _ w) = (caller_ok caller s \<and> signal_ok w s)"
| "sched_enabled s (Dispatch _ w) = signal_ok w s"
| "sched_enabled s (PostDeferred caller hs w) = (caller_ok caller s \<and> length hs \<le> sc_elsewhere s \<and> signal_ok w s)"
| "sched_enabled s FinishWork = (sc_elsewhere s > 0)"
| "sched_enabled s (InitTask w) = signal_ok w s"
| "sched_enabled s Reset = (\<forall>th \<in> set (sc_threads s). th_mode th = Outside)"
| "sched_enabled s _ = True"

text \<open>Runs with the threads and the concurrency hint of the construction.\<close>

inductive sched_reach :: "nat \<Rightarrow> nat \<Rightarrow> 'h scheduler \<Rightarrow> bool" for hint n where
  sc_new: "sched_reach hint n (new_scheduler hint n)"
| sc_step: "sched_reach hint n s \<Longrightarrow> sched_enabled s ev \<Longrightarrow> sched_reach hint n (sched_step ev s)"

subsection \<open>Weights\<close>

text \<open>A weight of items and of threads, added up over the queue and all threads.\<close>

definition sched_weight :: "('h item \<Rightarrow> int) \<Rightarrow> ('h sched_thread \<Rightarrow> int) \<Rightarrow> 'h scheduler \<Rightarrow> int" where
  "sched_weight f k s = sum_list (map f (sc_queue s)) + sum_list (map k (sc_threads s))"

lemma sum_list_map_update:
  "t < length xs \<Longrightarrow> sum_list (map k (xs[t := x])) = sum_list (map k xs) - k (xs ! t) + (k x :: int)"
proof (induction xs arbitrary: t)
  case (Cons y ys)
  then show ?case by (cases t) simp_all
qed simp

text \<open>What signals and interrupts change: waiting threads are woken, and the flags of the event, of the
  task and of the stop are set.\<close>

definition woken_thread :: "'h sched_thread \<Rightarrow> 'h sched_thread \<Rightarrow> bool" where
  "woken_thread th th' \<longleftrightarrow> th' = th \<or> th_mode th = Waiting \<and> th' = th\<lparr>th_mode := Woken\<rparr>"

definition wakes :: "'h scheduler \<Rightarrow> 'h scheduler \<Rightarrow> bool" where
  "wakes s s' \<longleftrightarrow> list_all2 woken_thread (sc_threads s) (sc_threads s')
     \<and> sc_queue s' = sc_queue s \<and> sc_outstanding s' = sc_outstanding s \<and> sc_task s' = sc_task s
     \<and> sc_waiters s' = sc_waiters s \<and> sc_one_thread s' = sc_one_thread s
     \<and> sc_elsewhere s' = sc_elsewhere s \<and> sc_given s' = sc_given s \<and> sc_done s' = sc_done s"

lemma woken_refl: "list_all2 woken_thread xs xs"
  by (simp add: list_all2_refl woken_thread_def)

lemma woken_update: "t < length xs \<Longrightarrow> th_mode (xs ! t) = Waiting \<Longrightarrow> list_all2 woken_thread xs (xs[t := (xs ! t)\<lparr>th_mode := Woken\<rparr>])"
  by (auto simp: list_all2_conv_all_nth woken_thread_def nth_list_update)

lemma wakes_same: "sc_threads s' = sc_threads s \<Longrightarrow> sc_queue s' = sc_queue s \<Longrightarrow> sc_outstanding s' = sc_outstanding s \<Longrightarrow>
    sc_task s' = sc_task s \<Longrightarrow> sc_waiters s' = sc_waiters s \<Longrightarrow> sc_one_thread s' = sc_one_thread s \<Longrightarrow>
    sc_elsewhere s' = sc_elsewhere s \<Longrightarrow> sc_given s' = sc_given s \<Longrightarrow> sc_done s' = sc_done s \<Longrightarrow> wakes s s'"
  by (simp add: wakes_def woken_refl)

lemma wakes_trans: "wakes s s' \<Longrightarrow> wakes s' s'' \<Longrightarrow> wakes s s''"
  unfolding wakes_def list_all2_conv_all_nth woken_thread_def by fastforce

lemma wakes_cond_signal: "wakes s (cond_signal w s)"
  using woken_update [of w "sc_threads s"]
  by (simp add: cond_signal_def th_set_mode_def set_thread_def mode_of_def wakes_def woken_refl)

lemma wakes_interrupt: "wakes s (interrupt_task s)"
  by (simp add: interrupt_task_def wakes_same)

lemma wakes_signalled: "wakes s (s\<lparr>sc_signalled := True\<rparr>)" "wakes s (cond_signal w (s\<lparr>sc_signalled := True\<rparr>))"
proof -
  show "wakes s (s\<lparr>sc_signalled := True\<rparr>)" by (rule wakes_same) simp_all
  then show "wakes s (cond_signal w (s\<lparr>sc_signalled := True\<rparr>))" using wakes_cond_signal by (rule wakes_trans)
qed

lemma wakes_wake_one: "wakes s (wake_one_thread w s)"
  by (simp add: wake_one_thread_def maybe_unlock_and_signal_one_def Let_def wakes_signalled wakes_trans [OF wakes_signalled(1) wakes_interrupt])

lemma wakes_signal_one: "wakes s (unlock_and_signal_one w s)"
  by (simp add: unlock_and_signal_one_def Let_def wakes_signalled)

lemma wakes_stop: "wakes s (stop_all_threads s)"
proof -
  have "list_all2 woken_thread (sc_threads s) (map (\<lambda>th. if th_mode th = Waiting then th\<lparr>th_mode := Woken\<rparr> else th) (sc_threads s))"
    by (auto simp: list_all2_conv_all_nth woken_thread_def)
  then have "wakes s (signal_all (s\<lparr>sc_stopped := True\<rparr>))" by (simp add: signal_all_def wakes_def)
  then show ?thesis using wakes_trans wakes_interrupt by (auto simp: stop_all_threads_def)
qed

lemma wakes_thread: "wakes s s' \<Longrightarrow> t < length (sc_threads s) \<Longrightarrow> mode_of t s \<noteq> Waiting \<Longrightarrow> sc_threads s' ! t = sc_threads s ! t"
  by (auto simp: wakes_def list_all2_conv_all_nth woken_thread_def mode_of_def)

lemma wakes_set_mode:
  assumes "wakes s s'" "t < length (sc_threads s)" "mode_of t s \<noteq> Waiting"
  shows "wakes (th_set_mode t m s) (th_set_mode t m s')"
proof -
  have "sc_threads s' ! t = sc_threads s ! t" by (rule wakes_thread [OF assms])
  then show ?thesis using assms(1,2)
    by (auto simp: wakes_def th_set_mode_def set_thread_def list_all2_conv_all_nth nth_list_update woken_thread_def)
qed

lemma wakes_length: "wakes s s' \<Longrightarrow> length (sc_threads s') = length (sc_threads s)"
  using list_all2_lengthD [of woken_thread "sc_threads s" "sc_threads s'"] by (simp add: wakes_def)

lemma wakes_weight:
  assumes "wakes s s'" "\<And>th. th_mode th = Waiting \<Longrightarrow> k (th\<lparr>th_mode := Woken\<rparr>) = k th"
  shows "sched_weight f k s' = sched_weight f k s"
proof -
  have "list_all2 woken_thread xs ys \<Longrightarrow> sum_list (map k xs) = sum_list (map k ys)" for xs ys
    by (induction rule: list_all2_induct) (use assms(2) in \<open>auto simp: woken_thread_def\<close>)
  then have "sum_list (map k (sc_threads s)) = sum_list (map k (sc_threads s'))"
    using assms(1) unfolding wakes_def by blast
  then show ?thesis using assms(1) by (simp add: sched_weight_def wakes_def)
qed

subsection \<open>The invariant of the books\<close>

fun is_op :: "'h item \<Rightarrow> int" where
  "is_op (Op h) = 1"
| "is_op _ = 0"

fun is_running :: "'h thread_mode \<Rightarrow> int" where
  "is_running (Running h) = 1"
| "is_running _ = 0"

fun is_task :: "'h item \<Rightarrow> int" where
  "is_task Task = 1"
| "is_task _ = 0"

fun in_task :: "'h thread_mode \<Rightarrow> int" where
  "in_task (InTask b) = 1"
| "in_task _ = 0"

definition op_units :: "'h sched_thread \<Rightarrow> int" where
  "op_units th = sum_list (map is_op (th_private_queue th)) + is_running (th_mode th) - int (th_private_work th)"

definition task_units :: "'h sched_thread \<Rightarrow> int" where
  "task_units th = sum_list (map is_task (th_private_queue th)) + in_task (th_mode th)"

definition handler_units :: "'h \<Rightarrow> 'h sched_thread \<Rightarrow> int" where
  "handler_units x th = int (count (mset (handlers_of (th_private_queue th) @ handler_of (th_mode th))) x)"

definition is_handler :: "'h \<Rightarrow> 'h item \<Rightarrow> int" where
  "is_handler x i = int (count (mset (handlers_of [i])) x)"

text \<open>Only a thread that runs a handler has private work or operations, and each unit belongs to an
  operation it has posted.\<close>

definition thread_ok :: "'h sched_thread \<Rightarrow> bool" where
  "thread_ok th \<longleftrightarrow> (is_running (th_mode th) = 0 \<longrightarrow> th_private_work th = 0 \<and> th_private_queue th = [])
     \<and> int (th_private_work th) \<le> sum_list (map is_op (th_private_queue th))"

definition sched_books :: "'h scheduler \<Rightarrow> bool" where
  "sched_books s \<longleftrightarrow> (\<forall>th \<in> set (sc_threads s). thread_ok th)
     \<and> sc_outstanding s = int (sc_elsewhere s) + sched_weight is_op op_units s
     \<and> sched_weight is_task task_units s = (if sc_task s then 1 else 0)
     \<and> (\<forall>x. sched_weight (is_handler x) (handler_units x) s + int (count (mset (sc_done s)) x) = int (count (mset (sc_given s)) x))"

lemma handlers_sum: "sum_list (map (is_handler x) xs) = int (count (mset (handlers_of xs)) x)"
  by (induction xs rule: handlers_of.induct) (auto simp: is_handler_def)

lemma is_handler_simps [simp]: "is_handler x Task = 0" "is_handler x Descriptor = 0" "is_handler x (Op h) = (if x = h then 1 else 0)"
  by (simp_all add: is_handler_def)

lemma handlers_append [simp]: "handlers_of (xs @ ys) = handlers_of xs @ handlers_of ys"
  by (induction xs rule: handlers_of.induct) simp_all

lemma handlers_ops [simp]: "handlers_of (map Op hs) = hs"
  by (induction hs) simp_all

lemma ops_sum: "sum_list (map is_op xs) = int (length (handlers_of xs))"
  by (induction xs rule: handlers_of.induct) simp_all

lemma ops_sum_map [simp]: "sum_list (map (is_op \<circ> Op) hs) = int (length hs)" "sum_list (map (is_task \<circ> Op) hs) = 0"
    "sum_list (map (is_handler x \<circ> Op) hs) = int (count (mset hs) x)"
  by (induction hs) simp_all

lemma no_task_sum: "Task \<notin> set xs \<Longrightarrow> sum_list (map is_task xs) = 0"
proof (induction xs)
  case (Cons i xs)
  then show ?case by (cases i) simp_all
qed simp

lemma books_wakes: "wakes s s' \<Longrightarrow> sched_books s \<Longrightarrow> sched_books s'"
proof -
  assume w: "wakes s s'" and b: "sched_books s"
  have u: "op_units (th\<lparr>th_mode := Woken\<rparr>) = op_units th" "task_units (th\<lparr>th_mode := Woken\<rparr>) = task_units th"
    "handler_units x (th\<lparr>th_mode := Woken\<rparr>) = handler_units x th" "thread_ok (th\<lparr>th_mode := Woken\<rparr>) = thread_ok th"
    if "th_mode th = Waiting" for th :: "'a sched_thread" and x
    using that by (simp_all add: op_units_def task_units_def handler_units_def thread_ok_def)
  have "thread_ok th'" if m: "th' \<in> set (sc_threads s')" for th'
  proof -
    obtain i where i: "i < length (sc_threads s')" "th' = sc_threads s' ! i" using m by (auto simp: in_set_conv_nth)
    have "i < length (sc_threads s)" using i(1) wakes_length [OF w] by simp
    moreover have "woken_thread (sc_threads s ! i) th'" using w i by (simp add: wakes_def list_all2_conv_all_nth)
    moreover have "sc_threads s ! i \<in> set (sc_threads s)" by (rule nth_mem) fact
    ultimately show ?thesis using b u(4) by (auto simp: sched_books_def woken_thread_def)
  qed
  moreover have "sched_weight is_op op_units s' = sched_weight is_op op_units s" "sched_weight is_task task_units s' = sched_weight is_task task_units s"
    "sched_weight (is_handler x) (handler_units x) s' = sched_weight (is_handler x) (handler_units x) s" for x
    by (rule wakes_weight [OF w], erule u)+
  ultimately show ?thesis using b w unfolding sched_books_def wakes_def by simp
qed

text \<open>A step of one thread, and a step of no thread.\<close>

lemma books_thread:
  assumes "sched_books s" "t < length (sc_threads s)" "sc_threads s' = (sc_threads s)[t := th]" "thread_ok th"
    and "sc_outstanding s' - int (sc_elsewhere s') - sum_list (map is_op (sc_queue s')) - op_units th
      = sc_outstanding s - int (sc_elsewhere s) - sum_list (map is_op (sc_queue s)) - op_units (sc_threads s ! t)"
    and "sc_task s' = sc_task s"
    and "sum_list (map is_task (sc_queue s')) + task_units th = sum_list (map is_task (sc_queue s)) + task_units (sc_threads s ! t)"
    and "\<And>x. sum_list (map (is_handler x) (sc_queue s')) + handler_units x th + int (count (mset (sc_done s')) x) - int (count (mset (sc_given s')) x)
      = sum_list (map (is_handler x) (sc_queue s)) + handler_units x (sc_threads s ! t) + int (count (mset (sc_done s)) x) - int (count (mset (sc_given s)) x)"
  shows "sched_books s'"
proof -
  have "\<forall>th \<in> set (sc_threads s'). thread_ok th"
    using assms(1,3,4) set_update_subset_insert [of "sc_threads s" t th] by (auto simp: sched_books_def)
  moreover have w: "sched_weight f k s' = sum_list (map f (sc_queue s')) + sum_list (map k (sc_threads s)) - k (sc_threads s ! t) + k th" for f k
    using assms(2,3) by (simp add: sched_weight_def sum_list_map_update)
  have "sc_outstanding s' = int (sc_elsewhere s') + sched_weight is_op op_units s'"
    using assms(1,5) by (simp add: w sched_books_def) (simp add: sched_weight_def)
  moreover have "sched_weight is_task task_units s' = (if sc_task s' then 1 else 0)"
  proof -
    have "sched_weight is_task task_units s = (if sc_task s' then 1 else 0)" using assms(1,6) by (simp add: sched_books_def)
    then show ?thesis using assms(7) unfolding w by (simp add: sched_weight_def)
  qed
  moreover have "sched_weight (is_handler x) (handler_units x) s' + int (count (mset (sc_done s')) x) = int (count (mset (sc_given s')) x)" for x
  proof -
    have "sched_weight (is_handler x) (handler_units x) s + int (count (mset (sc_done s)) x) = int (count (mset (sc_given s)) x)"
      using assms(1) unfolding sched_books_def by blast
    then show ?thesis using assms(8) [of x] unfolding w by (simp add: sched_weight_def)
  qed
  ultimately show ?thesis unfolding sched_books_def by blast
qed

lemma books_global:
  assumes "sched_books s" "sc_threads s' = sc_threads s"
    and "sc_outstanding s' - int (sc_elsewhere s') - sum_list (map is_op (sc_queue s'))
      = sc_outstanding s - int (sc_elsewhere s) - sum_list (map is_op (sc_queue s))"
    and "sum_list (map is_task (sc_queue s')) - (if sc_task s' then 1 else 0) = sum_list (map is_task (sc_queue s)) - (if sc_task s then 1 else 0)"
    and "\<And>x. sum_list (map (is_handler x) (sc_queue s')) + int (count (mset (sc_done s')) x) - int (count (mset (sc_given s')) x)
      = sum_list (map (is_handler x) (sc_queue s)) + int (count (mset (sc_done s)) x) - int (count (mset (sc_given s)) x)"
  shows "sched_books s'"
proof -
  have "sched_weight (is_handler x) (handler_units x) s' + int (count (mset (sc_done s')) x) = int (count (mset (sc_given s')) x)" for x
  proof -
    have "sched_weight (is_handler x) (handler_units x) s + int (count (mset (sc_done s)) x) = int (count (mset (sc_given s)) x)"
      using assms(1) unfolding sched_books_def by blast
    then show ?thesis using assms(2) assms(5) [of x] by (simp add: sched_weight_def)
  qed
  moreover have "sched_weight is_task task_units s' = (if sc_task s' then 1 else 0)"
    using assms(1,2,4) by (simp add: sched_books_def sched_weight_def)
  ultimately show ?thesis using assms(1-3) by (simp add: sched_books_def sched_weight_def)
qed

lemma thread_ok_idle: "thread_ok th \<Longrightarrow> is_running (th_mode th) = 0 \<Longrightarrow> th = \<lparr>th_mode = th_mode th, th_private_work = 0, th_private_queue = []\<rparr>"
  by (cases th) (simp add: thread_ok_def)

lemma units_simps [simp]:
  "op_units \<lparr>th_mode = m, th_private_work = 0, th_private_queue = []\<rparr> = is_running m"
  "task_units \<lparr>th_mode = m, th_private_work = 0, th_private_queue = []\<rparr> = in_task m"
  "handler_units x \<lparr>th_mode = m, th_private_work = 0, th_private_queue = []\<rparr> = int (count (mset (handler_of m)) x)"
  "thread_ok \<lparr>th_mode = m, th_private_work = 0, th_private_queue = []\<rparr>"
  by (simp_all add: op_units_def task_units_def handler_units_def thread_ok_def)

text \<open>A thread that runs no handler changes to another such mode, or takes an item with it.\<close>

lemma books_mode:
  assumes b: "sched_books s" and t: "t < length (sc_threads s)" "is_running (mode_of t s) = 0"
    and n: "sc_threads s' = (sc_threads s)[t := (sc_threads s ! t)\<lparr>th_mode := m\<rparr>]" "sc_task s' = sc_task s"
      "sc_done s' = sc_done s" "sc_given s' = sc_given s" "sc_elsewhere s' = sc_elsewhere s" "sc_outstanding s' = sc_outstanding s"
    and q: "sum_list (map is_op (sc_queue s')) + is_running m = sum_list (map is_op (sc_queue s))"
      "sum_list (map is_task (sc_queue s')) + in_task m = sum_list (map is_task (sc_queue s)) + in_task (mode_of t s)"
      "\<And>x. int (count (mset (handlers_of (sc_queue s'))) x) + int (count (mset (handler_of m)) x) = int (count (mset (handlers_of (sc_queue s))) x)"
  shows "sched_books s'"
proof -
  have ok: "thread_ok (sc_threads s ! t)" using b t(1) by (simp add: sched_books_def)
  have e: "sc_threads s ! t = \<lparr>th_mode = mode_of t s, th_private_work = 0, th_private_queue = []\<rparr>"
    using thread_ok_idle [OF ok] t(2) by (simp add: mode_of_def)
  have h: "handler_of (mode_of t s) = []" using t(2) by (cases "mode_of t s") simp_all
  show ?thesis
    by (rule books_thread [OF b t(1) n(1)]) (use e t(2) n q h in \<open>simp_all add: handlers_sum\<close>)
qed

subsubsection \<open>Every step keeps the books\<close>

lemma books_flags: "sched_books (s\<lparr>sc_signalled := a, sc_task_interrupted := b, sc_waiters := c, sc_stopped := d\<rparr>) = sched_books s"
  by (simp add: sched_books_def sched_weight_def)

lemma books_event_wait:
  assumes "sched_books s" "t < length (sc_threads s)" "mode_of t s \<in> {Looking, Woken}"
  shows "sched_books (event_wait t s)"
  by (rule books_mode [OF assms(1,2), where m = "if sc_signalled s then Looking else Waiting"])
    (use assms(3) in \<open>auto simp: event_wait_def th_set_mode_def set_thread_def\<close>)

lemma mode_flags [simp]: "mode_of t (s\<lparr>sc_signalled := a\<rparr>) = mode_of t s" "mode_of t (s\<lparr>sc_waiters := c\<rparr>) = mode_of t s"
  by (simp_all add: mode_of_def)

lemma books_run_one:
  assumes b: "sched_books s" and t: "t < length (sc_threads s)" "mode_of t s = Looking"
  shows "sched_books (do_run_one t w s)"
proof (cases "sc_stopped s \<or> sc_queue s = []")
  case True
  have "sched_books (th_set_mode t Outside s)"
    by (rule books_mode [OF b t(1), where m = Outside]) (use t(2) in \<open>simp_all add: th_set_mode_def set_thread_def\<close>)
  moreover have "sched_books (event_wait t (s\<lparr>sc_signalled := False\<rparr>))"
    using books_event_wait [of "s\<lparr>sc_signalled := False\<rparr>" t] books_flags [where s = s and a = False and b = "sc_task_interrupted s" and c = "sc_waiters s" and d = "sc_stopped s"] b t by simp
  ultimately show ?thesis using True by (auto simp: do_run_one_def)
next
  case False
  then obtain item rest where q: "sc_queue s = item # rest" by (cases "sc_queue s") auto
  let ?s = "s\<lparr>sc_queue := rest\<rparr>"
  define m where "m = (case item of Task \<Rightarrow> InTask (rest = []) | Descriptor \<Rightarrow> InDescriptor | Op h \<Rightarrow> Running (Some h))"
  define u where "u = (case item of Task \<Rightarrow> (let s = ?s\<lparr>sc_task_interrupted := rest \<noteq> []\<rparr> in if rest \<noteq> [] \<and> \<not> sc_one_thread s then unlock_and_signal_one w s else s)
    | _ \<Rightarrow> if rest \<noteq> [] \<and> \<not> sc_one_thread s then wake_one_thread w ?s else ?s)"
  have r: "do_run_one t w s = th_set_mode t m u"
    using False by (cases item) (auto simp: do_run_one_def q m_def u_def Let_def)
  have "wakes ?s (unlock_and_signal_one w (?s\<lparr>sc_task_interrupted := True\<rparr>))"
    by (rule wakes_trans [OF _ wakes_signal_one]) (simp add: wakes_same)
  then have w: "wakes ?s u"
    by (cases item) (simp_all add: u_def Let_def wakes_wake_one wakes_same)
  have "sched_books (th_set_mode t m ?s)"
    by (rule books_mode [OF b t(1), where m = m])
      (use t(2) q in \<open>cases item; simp add: th_set_mode_def set_thread_def m_def\<close>)+
  moreover have "wakes (th_set_mode t m ?s) (th_set_mode t m u)"
    by (rule wakes_set_mode [OF w]) (use t in \<open>simp_all add: mode_of_def\<close>)
  ultimately show ?thesis using books_wakes r by simp
qed

lemma wakes_work_finished: "wakes (s\<lparr>sc_outstanding := sc_outstanding s - 1\<rparr>) (work_finished s)"
proof -
  let ?s = "s\<lparr>sc_outstanding := sc_outstanding s - 1\<rparr>"
  have "work_finished s = (if sc_outstanding ?s = 0 then stop_all_threads ?s else ?s)" by (simp only: work_finished_def Let_def)
  moreover have "wakes ?s (stop_all_threads ?s)" by (rule wakes_stop)
  moreover have "wakes ?s ?s" by (rule wakes_same) (rule refl)+
  ultimately show ?thesis by metis
qed

lemma given_work: "work_started (s\<lparr>sc_given := g\<rparr>) = s\<lparr>sc_outstanding := sc_outstanding s + 1, sc_given := g\<rparr>"
  by (cases s) (simp add: work_started_def)

lemma books_pushed:
  assumes b: "sched_books s"
  shows "sched_books (push_queue [Op h] (work_started (s\<lparr>sc_given := sc_given s @ [h]\<rparr>)))"
    and "length hs \<le> sc_elsewhere s \<Longrightarrow> sched_books (push_queue (map Op hs) (from_elsewhere hs s))"
    and "\<not> sc_task s \<Longrightarrow> sched_books (push_queue [Task] (s\<lparr>sc_task := True\<rparr>))"
  by (rule books_global [OF b]; simp add: push_queue_def from_elsewhere_def given_work of_nat_diff)+

lemma books_push_private:
  assumes b: "sched_books s" and t: "t < length (sc_threads s)" "mode_of t s = Running h" and x: "Task \<notin> set xs" "n \<le> length (handlers_of xs)"
  shows "sched_books (push_private t xs n (s\<lparr>sc_outstanding := sc_outstanding s + int (length (handlers_of xs)) - int n, sc_given := sc_given s @ handlers_of xs\<rparr>))"
proof -
  have ok: "thread_ok (sc_threads s ! t)" using b t(1) by (simp add: sched_books_def)
  show ?thesis
    by (rule books_thread [OF b t(1)])
      (use ok t(2) x no_task_sum [OF x(1)] in \<open>auto simp: push_private_def set_thread_def mode_of_def thread_ok_def op_units_def task_units_def
        handler_units_def ops_sum\<close>)
qed

lemma books_work_cleanup:
  assumes b: "sched_books s" and t: "t < length (sc_threads s)" "mode_of t s = Running h"
  shows "sched_books ((work_cleanup t s)\<lparr>sc_done := sc_done s @ handler_of (mode_of t s)\<rparr>)"
proof -
  let ?th = "sc_threads s ! t"
  let ?idle = "\<lparr>th_mode = Looking, th_private_work = 0, th_private_queue = []\<rparr>"
  let ?d = "sc_done s @ handler_of (mode_of t s)"
  have base: "sched_books (push_queue (th_private_queue ?th) ((set_thread t ?idle s)\<lparr>sc_outstanding := sc_outstanding s + int (th_private_work ?th) - 1, sc_done := ?d\<rparr>))"
    by (rule books_thread [OF b t(1), where th = ?idle])
      (use t(2) in \<open>auto simp: push_queue_def set_thread_def mode_of_def op_units_def task_units_def handler_units_def handlers_sum\<close>)
  have w: "wakes (push_queue xs (s'\<lparr>sc_outstanding := sc_outstanding s' - 1, sc_done := d\<rparr>)) ((push_queue xs (work_finished s'))\<lparr>sc_done := d\<rparr>)"
    for s' :: "'a scheduler" and xs d
    using wakes_work_finished [of s'] by (simp add: wakes_def push_queue_def)
  show ?thesis
  proof (cases "th_private_work ?th")
    case 0
    have "work_cleanup t s = push_queue (th_private_queue ?th) (work_finished (set_thread t ?idle s))"
      by (simp add: work_cleanup_def 0 Let_def)
    moreover have "wakes (push_queue (th_private_queue ?th) ((set_thread t ?idle s)\<lparr>sc_outstanding := sc_outstanding (set_thread t ?idle s) - 1, sc_done := ?d\<rparr>))
        ((push_queue (th_private_queue ?th) (work_finished (set_thread t ?idle s)))\<lparr>sc_done := ?d\<rparr>)"
      by (rule w)
    moreover have "sc_outstanding (set_thread t ?idle s) - 1 = sc_outstanding s + int (th_private_work ?th) - 1" using 0 by (simp add: set_thread_def)
    ultimately show ?thesis using books_wakes base by metis
  next
    case (Suc n)
    have "(work_cleanup t s)\<lparr>sc_done := ?d\<rparr> = push_queue (th_private_queue ?th) ((set_thread t ?idle s)\<lparr>sc_outstanding := sc_outstanding s + int (th_private_work ?th) - 1, sc_done := ?d\<rparr>)"
      by (cases n) (simp_all add: work_cleanup_def Suc Let_def push_queue_def set_thread_def)
    then show ?thesis using base by simp
  qed
qed

lemma books_task_cleanup:
  assumes b: "sched_books s" and t: "t < length (sc_threads s)" "mode_of t s = InTask block"
    and x: "Task \<notin> set ops" "length (handlers_of ops) \<le> sc_elsewhere s"
  shows "sched_books (task_cleanup t ops (from_elsewhere (handlers_of ops) s))"
proof -
  have ok: "thread_ok (sc_threads s ! t)" using b t(1) by (simp add: sched_books_def)
  then have e: "sc_threads s ! t = \<lparr>th_mode = InTask block, th_private_work = 0, th_private_queue = []\<rparr>"
    using thread_ok_idle t(2) by (fastforce simp: mode_of_def)
  show ?thesis
    by (rule books_thread [OF b t(1), where th = "\<lparr>th_mode = Looking, th_private_work = 0, th_private_queue = []\<rparr>"])
      (use x no_task_sum [OF x(1)] in \<open>simp_all add: task_cleanup_def from_elsewhere_def push_queue_def set_thread_def e Let_def
        ops_sum handlers_sum of_nat_diff\<close>)
qed

lemma books_performed_io:
  assumes b: "sched_books s" and t: "t < length (sc_threads s)" "mode_of t s = InDescriptor" and x: "length hs \<le> sc_elsewhere s"
  shows "sched_books (performed_io t hs w (from_elsewhere hs s))"
proof -
  have ok: "thread_ok (sc_threads s ! t)" using b t(1) by (simp add: sched_books_def)
  then have e: "sc_threads s ! t = \<lparr>th_mode = InDescriptor, th_private_work = 0, th_private_queue = []\<rparr>"
    using thread_ok_idle t(2) by (fastforce simp: mode_of_def)
  show ?thesis
  proof (cases hs)
    case Nil
    show ?thesis
      by (rule books_thread [OF b t(1), where th = "\<lparr>th_mode = Running None, th_private_work = 0, th_private_queue = []\<rparr>"])
        (simp_all add: Nil performed_io_def from_elsewhere_def work_started_def th_set_mode_def set_thread_def e)
  next
    case (Cons h rest)
    let ?s = "from_elsewhere hs s"
    let ?r = "\<lparr>th_mode = Running (Some h), th_private_work = 0, th_private_queue = []\<rparr>"
    have task: "Task \<notin> Op ` set rest" by auto
    note simps = from_elsewhere_def th_set_mode_def set_thread_def Cons ops_sum handlers_sum of_nat_diff no_task_sum
    consider "rest = []" | "rest \<noteq> []" "sc_one_thread s" | "rest \<noteq> []" "\<not> sc_one_thread s" by blast
    then show ?thesis
    proof cases
      case 1
      show ?thesis
        by (rule books_thread [OF b t(1), where th = ?r])
          (use x 1 in \<open>simp_all add: performed_io_def post_deferred_completions_def simps e\<close>)
    next
      case 2
      show ?thesis
        by (rule books_thread [OF b t(1), where th = "?r\<lparr>th_private_queue := map Op rest\<rparr>"])
          (use x 2 t(1) task in \<open>simp_all add: performed_io_def post_deferred_completions_def push_private_def simps e
            thread_ok_def op_units_def task_units_def handler_units_def\<close>)
    next
      case 3
      have "sched_books (th_set_mode t (Running (Some h)) (push_queue (map Op rest) ?s))"
        by (rule books_thread [OF b t(1), where th = ?r])
          (use x task in \<open>simp_all add: push_queue_def simps e\<close>)
      moreover have "wakes (th_set_mode t (Running (Some h)) (push_queue (map Op rest) ?s))
          (th_set_mode t (Running (Some h)) (wake_one_thread w (push_queue (map Op rest) ?s)))"
        by (rule wakes_set_mode [OF wakes_wake_one]) (use t in \<open>simp_all add: mode_of_def push_queue_def from_elsewhere_def\<close>)
      moreover have "\<not> sc_one_thread ?s" using 3 by (simp add: from_elsewhere_def)
      ultimately show ?thesis using books_wakes 3(1) by (simp add: performed_io_def post_deferred_completions_def Cons)
    qed
  qed
qed

lemma inside_running: "th_inside m \<Longrightarrow> \<exists>h. m = Running h"
  by (cases m) simp_all

lemma sched_books_step:
  assumes b: "sched_books s" and e: "sched_enabled s ev"
  shows "sched_books (sched_step ev s)"
proof (cases ev)
  case (EnterRun t)
  have "sched_books (set_thread t \<lparr>th_mode = Looking, th_private_work = 0, th_private_queue = []\<rparr> s)"
  proof -
    have ok: "thread_ok (sc_threads s ! t)" using b e by (simp add: sched_books_def EnterRun)
    have "sc_threads s ! t = \<lparr>th_mode = Outside, th_private_work = 0, th_private_queue = []\<rparr>"
      using thread_ok_idle [OF ok] e by (simp add: EnterRun mode_of_def)
    with b e show ?thesis
      by (intro books_thread [OF b, of t _ "\<lparr>th_mode = Looking, th_private_work = 0, th_private_queue = []\<rparr>"])
        (simp_all add: EnterRun set_thread_def)
  qed
  then show ?thesis using books_wakes [OF wakes_stop b] by (simp add: EnterRun enter_run_def)
next
  case (RunOne t w)
  have "sched_books (do_run_one t w s)" by (rule books_run_one [OF b]) (use e in \<open>simp_all add: RunOne\<close>)
  then show ?thesis by (simp add: RunOne)
next
  case (SpuriousWakeup t)
  show ?thesis by (rule books_mode [OF b, of t _ Woken]) (use e in \<open>simp_all add: SpuriousWakeup th_set_mode_def set_thread_def\<close>)
next
  case (ReturnFromWait t)
  have "sched_books (s\<lparr>sc_waiters := sc_waiters s - 1\<rparr>)" using b by (simp add: sched_books_def sched_weight_def)
  then show ?thesis using books_event_wait [of "s\<lparr>sc_waiters := sc_waiters s - 1\<rparr>" t] e by (simp add: ReturnFromWait event_woken_def)
next
  case (TaskDone t ops)
  then show ?thesis using books_task_cleanup [OF b] e by auto
next
  case (PerformedIo t hs w)
  then show ?thesis using books_performed_io [OF b] e by simp
next
  case (HandlerDone t)
  then show ?thesis using books_work_cleanup [OF b] e by auto
next
  case (Dispatch h w)
  show ?thesis unfolding Dispatch sched_step.simps do_dispatch_def
    by (rule books_wakes [OF wakes_wake_one]) (rule books_pushed(1) [OF b])
next
  case StartWork
  have "sched_books (s\<lparr>sc_elsewhere := sc_elsewhere s + 1, sc_outstanding := sc_outstanding s + 1\<rparr>)"
    by (rule books_global [OF b]) simp_all
  then show ?thesis by (simp add: StartWork work_started_def)
next
  case FinishWork
  have "sched_books (s\<lparr>sc_elsewhere := sc_elsewhere s - 1, sc_outstanding := sc_outstanding s - 1\<rparr>)"
    by (rule books_global [OF b]) (use e in \<open>simp_all add: FinishWork of_nat_diff\<close>)
  then show ?thesis using books_wakes [OF wakes_work_finished [of "s\<lparr>sc_elsewhere := sc_elsewhere s - 1\<rparr>"]] by (simp add: FinishWork)
next
  case Stop
  then show ?thesis using books_wakes [OF wakes_stop b] by simp
next
  case Reset
  show ?thesis by (simp only: Reset sched_step.simps reset_def, rule books_global [OF b]) simp_all
next
  case (InitTask w)
  have "sched_books (wake_one_thread w (push_queue [Task] (s\<lparr>sc_task := True\<rparr>)))" if "\<not> sc_task s"
    by (rule books_wakes [OF wakes_wake_one]) (rule books_pushed(3) [OF b that])
  then show ?thesis using b by (simp add: InitTask init_task_def)
next
  case (Post caller ic h w)
  let ?s = "s\<lparr>sc_given := sc_given s @ [h]\<rparr>"
  have g: "sched_books (wake_one_thread w (push_queue [Op h] (work_started ?s)))"
    by (rule books_wakes [OF wakes_wake_one]) (rule books_pushed(1) [OF b])
  have p: "sched_books (push_private t [Op h] 1 ?s)" if c: "caller = Some t" for t
  proof -
    obtain k where "t < length (sc_threads s)" "mode_of t s = Running k"
      using e inside_running by (auto simp: Post c)
    from books_push_private [OF b this, of "[Op h]" 1] show ?thesis by simp
  qed
  show ?thesis using g p by (cases caller) (simp_all add: Post post_immediate_completion_def)
next
  case (PostDeferred caller hs w)
  let ?s = "from_elsewhere hs s"
  have g: "sched_books (wake_one_thread w (push_queue (map Op hs) ?s))"
    by (rule books_wakes [OF wakes_wake_one], rule books_pushed(2) [OF b]) (use e in \<open>simp add: PostDeferred\<close>)
  have p: "sched_books (push_private t (map Op hs) 0 ?s)" if c: "caller = Some t" for t
  proof -
    obtain k where t: "t < length (sc_threads s)" "mode_of t s = Running k"
      using e inside_running by (auto simp: PostDeferred c)
    have ok: "thread_ok (sc_threads s ! t)" using b t(1) by (simp add: sched_books_def)
    show ?thesis
      by (rule books_thread [OF b t(1)])
        (use ok t(2) e in \<open>auto simp: PostDeferred push_private_def set_thread_def mode_of_def thread_ok_def op_units_def task_units_def
          handler_units_def from_elsewhere_def of_nat_diff\<close>)
  qed
  show ?thesis using g p by (cases caller) (auto simp: PostDeferred post_deferred_completions_def from_elsewhere_def b)
qed

lemma sched_books_reach: "sched_reach hint n s \<Longrightarrow> sched_books s"
proof (induction rule: sched_reach.induct)
  case sc_new
  show ?case by (simp add: sched_books_def new_scheduler_def sched_weight_def sum_list_replicate fresh_thread_def)
next
  case (sc_step s ev)
  show ?case by (rule sched_books_step [OF sc_step.IH sc_step.hyps(2)])
qed

lemma sum_nonneg: "(\<And>x. x \<in> set xs \<Longrightarrow> 0 \<le> f x) \<Longrightarrow> 0 \<le> sum_list (map f xs) \<and> (sum_list (map f xs) = (0::int) \<longleftrightarrow> (\<forall>x \<in> set xs. f x = 0))"
  by (induction xs) force+

lemma sum_ge: "(\<And>x. x \<in> set xs \<Longrightarrow> 0 \<le> f x) \<Longrightarrow> y \<in> set xs \<Longrightarrow> (f y :: int) \<le> sum_list (map f xs)"
proof (induction xs)
  case (Cons x xs)
  have "0 \<le> sum_list (map f xs)" using sum_nonneg [of xs f] Cons.prems(1) by simp
  then show ?case using Cons by fastforce
qed simp

lemma is_nonneg [simp]: "0 \<le> is_op i" "0 \<le> is_task i" "0 \<le> is_running m" "0 \<le> in_task m"
  by (cases i; simp)+ (cases m; simp)+

lemma op_units_idle: "thread_ok th \<Longrightarrow> 0 \<le> op_units th \<and> (op_units th = 0 \<longleftrightarrow> is_running (th_mode th) = 0)"
  using sum_nonneg [of "th_private_queue th" is_op] is_nonneg(3) [of "th_mode th"]
  by (cases "th_mode th") (auto simp: op_units_def thread_ok_def)

lemma task_units_nonneg: "0 \<le> task_units th"
  using sum_nonneg [of "th_private_queue th" is_task] by (simp add: task_units_def)

lemma books_task:
  assumes b: "sched_books s" and th: "th \<in> set (sc_threads s)" "th_mode th = InTask block \<or> Task \<in> set (sc_queue s)"
  shows "sc_task s"
proof (rule ccontr)
  assume "\<not> sc_task s"
  then have z: "sum_list (map is_task (sc_queue s)) + sum_list (map task_units (sc_threads s)) = 0" using b by (simp add: sched_books_def sched_weight_def)
  have nn: "0 \<le> sum_list (map is_task (sc_queue s))" "0 \<le> sum_list (map task_units (sc_threads s))"
    by (rule conjunct1 [OF sum_nonneg]; simp add: task_units_nonneg)+
  show False using th(2)
  proof
    assume "th_mode th = InTask block"
    then have "1 \<le> task_units th" using sum_nonneg [of "th_private_queue th" is_task] by (simp add: task_units_def)
    moreover have "task_units th \<le> sum_list (map task_units (sc_threads s))" by (rule sum_ge) (use task_units_nonneg th(1) in auto)
    ultimately show False using z nn by linarith
  next
    assume "Task \<in> set (sc_queue s)"
    then have "is_task (Task :: 'a item) \<le> sum_list (map is_task (sc_queue s))" by (intro sum_ge) simp_all
    then show False using z nn by simp
  qed
qed

subsection \<open>What keeps the threads awake\<close>

text \<open>\<open>asleep\<close>: counted by the event.  \<open>th_active\<close>: the thread will come back to the queue without another
  signal; a thread in the reactor will when it does not block or has been interrupted.\<close>

fun asleep :: "'h thread_mode \<Rightarrow> int" where
  "asleep Waiting = 1"
| "asleep Woken = 1"
| "asleep _ = 0"

fun active_mode :: "bool \<Rightarrow> bool \<Rightarrow> 'h thread_mode \<Rightarrow> bool" where
  "active_mode signalled interrupted Outside = False"
| "active_mode signalled interrupted Waiting = False"
| "active_mode signalled interrupted Woken = signalled"
| "active_mode signalled interrupted (InTask block) = (\<not> block \<or> interrupted)"
| "active_mode signalled interrupted _ = True"

definition th_active :: "'h scheduler \<Rightarrow> 'h sched_thread \<Rightarrow> bool" where
  "th_active s th = active_mode (sc_signalled s) (sc_task_interrupted s) (th_mode th)"

definition someone_active :: "'h scheduler \<Rightarrow> bool" where
  "someone_active s \<longleftrightarrow> (\<forall>th \<in> set (sc_threads s). th_mode th = Outside) \<or> (\<exists>th \<in> set (sc_threads s). th_active s th)"

definition sched_flags :: "'h scheduler \<Rightarrow> bool" where
  "sched_flags s \<longleftrightarrow> int (sc_waiters s) = sum_list (map (\<lambda>th. asleep (th_mode th)) (sc_threads s))
     \<and> (sc_task s \<or> sc_task_interrupted s)
     \<and> (sc_stopped s \<longrightarrow> sc_signalled s \<and> sc_task_interrupted s \<and> (\<forall>th \<in> set (sc_threads s). th_mode th \<noteq> Waiting))"

definition sched_live :: "'h scheduler \<Rightarrow> bool" where
  "sched_live s \<longleftrightarrow> sched_flags s \<and> (\<not> sc_stopped s \<and> sc_queue s \<noteq> [] \<longrightarrow> someone_active s)"

text \<open>A signal raises flags.\<close>

definition raises :: "'h scheduler \<Rightarrow> 'h scheduler \<Rightarrow> bool" where
  "raises s s' \<longleftrightarrow> wakes s s' \<and> sc_stopped s' = sc_stopped s \<and> (sc_signalled s \<longrightarrow> sc_signalled s') \<and> (sc_task_interrupted s \<longrightarrow> sc_task_interrupted s')"

lemma sum_woken:
  assumes "wakes s s'"
  shows "sum_list (map (\<lambda>th. asleep (th_mode th)) (sc_threads s')) = sum_list (map (\<lambda>th. asleep (th_mode th)) (sc_threads s))"
  using wakes_weight [OF assms, of "\<lambda>th. asleep (th_mode th)" "\<lambda>_. 0"] by (simp add: sched_weight_def)

lemma woken_thread_set:
  assumes "wakes s s'" "th' \<in> set (sc_threads s')"
  obtains th where "th \<in> set (sc_threads s)" "woken_thread th th'"
proof -
  obtain i where i: "i < length (sc_threads s')" "th' = sc_threads s' ! i" using assms(2) by (auto simp: in_set_conv_nth)
  then have "i < length (sc_threads s)" using wakes_length [OF assms(1)] by simp
  then show thesis using that [of "sc_threads s ! i"] assms(1) i(2) by (simp add: wakes_def list_all2_conv_all_nth)
qed

lemma flags_raises:
  assumes r: "raises s s'" and f: "sched_flags s"
  shows "sched_flags s'"
proof -
  have "th_mode th' \<noteq> Waiting" if "sc_stopped s" "th' \<in> set (sc_threads s')" for th'
    using r f that by (auto simp: raises_def sched_flags_def woken_thread_def elim!: woken_thread_set)
  then show ?thesis using r f sum_woken [of s s'] by (auto simp: raises_def sched_flags_def wakes_def)
qed

lemma raises_wake_one: "raises s (wake_one_thread w s)"
  using wakes_wake_one [of s w]
  by (simp add: raises_def) (simp add: wake_one_thread_def maybe_unlock_and_signal_one_def Let_def cond_signal_def interrupt_task_def
      th_set_mode_def set_thread_def)

lemma raises_signal_one: "raises s (unlock_and_signal_one w s)"
  using wakes_signal_one [of s w]
  by (simp add: raises_def) (simp add: unlock_and_signal_one_def Let_def cond_signal_def th_set_mode_def set_thread_def)

lemma flags_stop: "sched_flags s \<Longrightarrow> sched_live (stop_all_threads s)"
  using sum_woken [OF wakes_stop [of s]] wakes_stop [of s]
  by (auto simp: sched_live_def sched_flags_def wakes_def) (auto simp: stop_all_threads_def signal_all_def interrupt_task_def split: if_splits)

lemma flags_thread:
  assumes "sched_flags s" "t < length (sc_threads s)" "sc_threads s' = (sc_threads s)[t := th]"
    and "int (sc_waiters s') - asleep (th_mode th) = int (sc_waiters s) - asleep (mode_of t s)"
    and "sc_task s' \<or> sc_task_interrupted s'"
    and "sc_stopped s' \<Longrightarrow> sc_stopped s \<and> sc_signalled s' \<and> sc_task_interrupted s' \<and> th_mode th \<noteq> Waiting"
  shows "sched_flags s'"
proof -
  have "sum_list (map (\<lambda>th. asleep (th_mode th)) (sc_threads s'))
      = sum_list (map (\<lambda>th. asleep (th_mode th)) (sc_threads s)) - asleep (mode_of t s) + asleep (th_mode th)"
    unfolding assms(3) mode_of_def by (rule sum_list_map_update [OF assms(2)])
  then show ?thesis using assms set_update_subset_insert [of "sc_threads s" t th]
    by (auto simp: sched_flags_def)
qed

lemma busy_active:
  "t < length (sc_threads s) \<Longrightarrow> active_mode False False (mode_of t s) \<Longrightarrow> someone_active s"
proof -
  assume t: "t < length (sc_threads s)" "active_mode False False (mode_of t s)"
  then have "th_active s (sc_threads s ! t)" by (cases "mode_of t s") (simp_all add: th_active_def mode_of_def)
  then show ?thesis using nth_mem [OF t(1)] by (auto simp: someone_active_def)
qed

lemma wake_one_active:
  assumes f: "sched_flags s" and b: "sched_books s" and w: "signal_ok w s"
  shows "someone_active (wake_one_thread w s)"
proof (cases "sc_waiters s = 0")
  case True
  have z: "sum_list (map (\<lambda>th. asleep (th_mode th)) (sc_threads s)) = 0" using f True by (simp add: sched_flags_def)
  have nn: "0 \<le> asleep m" for m :: "'a thread_mode" by (cases m) simp_all
  then have a: "\<forall>th \<in> set (sc_threads s). asleep (th_mode th) = 0"
    using z by (intro iffD1 [OF conjunct2 [OF sum_nonneg]]) simp_all
  have e: "wake_one_thread w s = interrupt_task (s\<lparr>sc_signalled := True\<rparr>)"
    using True by (simp add: wake_one_thread_def maybe_unlock_and_signal_one_def Let_def)
  then have th: "sc_threads (wake_one_thread w s) = sc_threads s" by (simp add: interrupt_task_def)
  have "th_active (wake_one_thread w s) th" if t: "th \<in> set (sc_threads s)" "th_mode th \<noteq> Outside" for th
  proof (cases "th_mode th")
    case (InTask block)
    then have "sc_task s" using books_task [OF b t(1), of block] by simp
    then show ?thesis by (simp add: e th_active_def interrupt_task_def InTask)
  qed (use a t in \<open>auto simp: th_active_def\<close>)
  then show ?thesis by (auto simp: someone_active_def th)
next
  case False
  have z: "sum_list (map (\<lambda>th. asleep (th_mode th)) (sc_threads s)) \<noteq> 0" using f False by (simp add: sched_flags_def)
  have "sum_list (map f xs) = 0" if "\<forall>x \<in> set xs. f x = 0" for f :: "'a sched_thread \<Rightarrow> int" and xs
    using that by (induction xs) simp_all
  then obtain th where th: "th \<in> set (sc_threads s)" "asleep (th_mode th) \<noteq> 0"
    using z by (metis (no_types, lifting))
  have e: "wake_one_thread w s = cond_signal w (s\<lparr>sc_signalled := True\<rparr>)"
    using False by (simp add: wake_one_thread_def maybe_unlock_and_signal_one_def Let_def)
  show ?thesis
  proof (cases "\<exists>t < length (sc_threads s). mode_of t s = Waiting")
    case True
    then have k: "w < length (sc_threads s)" "mode_of w s = Waiting" using w by (simp_all add: signal_ok_def)
    let ?th = "(sc_threads s ! w)\<lparr>th_mode := Woken\<rparr>"
    have "?th \<in> set (sc_threads (wake_one_thread w s))" "th_active (wake_one_thread w s) ?th"
      using k by (simp_all add: e cond_signal_def th_set_mode_def set_thread_def set_update_memI th_active_def)
    then show ?thesis by (auto simp: someone_active_def)
  next
    case none: False
    have "th_mode th \<noteq> Waiting" using none th(1) by (auto simp: mode_of_def in_set_conv_nth)
    then have "th_mode th = Woken" using th(2) by (cases "th_mode th") simp_all
    moreover have "sc_threads (wake_one_thread w s) = sc_threads s" "sc_signalled (wake_one_thread w s)"
      using none by (auto simp: e cond_signal_def)
    ultimately have "th_active (wake_one_thread w s) th" "th \<in> set (sc_threads (wake_one_thread w s))" using th(1) by (simp_all add: th_active_def)
    then show ?thesis unfolding someone_active_def by blast
  qed
qed

lemma live_wake_one: "sched_flags s \<Longrightarrow> sched_books s \<Longrightarrow> signal_ok w s \<Longrightarrow> sched_live (wake_one_thread w s)"
  using wake_one_active flags_raises [OF raises_wake_one] by (auto simp: sched_live_def)

lemma live_busy:
  assumes "sched_flags s'" "t < length (sc_threads s')" "active_mode False False (mode_of t s')"
  shows "sched_live s'"
  using busy_active [OF assms(2,3)] assms(1) by (simp add: sched_live_def)

lemma flags_work_finished: "sched_flags s \<Longrightarrow> sched_flags (work_finished s)"
proof -
  assume f: "sched_flags s"
  let ?s = "s\<lparr>sc_outstanding := sc_outstanding s - 1\<rparr>"
  have "sched_flags ?s" using f by (simp add: sched_flags_def)
  moreover have "work_finished s = (if sc_outstanding ?s = 0 then stop_all_threads ?s else ?s)" by (simp only: work_finished_def Let_def)
  moreover from calculation(1) have "sched_flags (stop_all_threads ?s)" using flags_stop by (auto simp: sched_live_def)
  ultimately show ?thesis by metis
qed

lemma live_run_one:
  assumes l: "sched_live s" and b: "sched_books s" and t: "t < length (sc_threads s)" "mode_of t s = Looking"
  shows "sched_live (do_run_one t w s)"
proof -
  have f: "sched_flags s" using l by (simp add: sched_live_def)
  consider "sc_stopped s" | "\<not> sc_stopped s" "sc_queue s = []" | item rest where "\<not> sc_stopped s" "sc_queue s = item # rest"
    by (cases "sc_queue s") auto
  then show ?thesis
  proof cases
    case 1
    have "sched_flags (th_set_mode t Outside s)"
      by (rule flags_thread [OF f t(1), where th = "(sc_threads s ! t)\<lparr>th_mode := Outside\<rparr>"])
        (use f t 1 in \<open>simp_all add: th_set_mode_def set_thread_def sched_flags_def\<close>)
    then show ?thesis using 1 by (simp add: do_run_one_def sched_live_def th_set_mode_def set_thread_def)
  next
    case 2
    have "sched_flags (th_set_mode t Waiting (s\<lparr>sc_signalled := False, sc_waiters := sc_waiters s + 1\<rparr>))"
      by (rule flags_thread [OF f t(1), where th = "(sc_threads s ! t)\<lparr>th_mode := Waiting\<rparr>"])
        (use f t 2 in \<open>simp_all add: th_set_mode_def set_thread_def sched_flags_def\<close>)
    then show ?thesis using 2 by (simp add: do_run_one_def sched_live_def th_set_mode_def set_thread_def event_wait_def)
  next
    case (3 item rest)
    let ?s = "s\<lparr>sc_queue := rest\<rparr>"
    define m where "m = (case item of Task \<Rightarrow> InTask (rest = []) | Descriptor \<Rightarrow> InDescriptor | Op h \<Rightarrow> Running (Some h))"
    define v where "v = (case item of Task \<Rightarrow> ?s\<lparr>sc_task_interrupted := rest \<noteq> []\<rparr> | _ \<Rightarrow> ?s)"
    define u where "u = (if rest \<noteq> [] \<and> \<not> sc_one_thread s then (if item = Task then unlock_and_signal_one w v else wake_one_thread w v) else v)"
    have r: "do_run_one t w s = th_set_mode t m u"
      using 3 by (cases item) (auto simp: do_run_one_def m_def u_def v_def Let_def)
    have task: "item = Task \<Longrightarrow> sc_task s" using books_task [OF b, of "sc_threads s ! t"] 3 t(1) by simp
    have "sched_flags v" using f 3 task by (cases item) (simp_all add: v_def sched_flags_def)
    then have fu: "sched_flags u" by (simp add: u_def flags_raises [OF raises_wake_one] flags_raises [OF raises_signal_one])
    have v: "sc_threads v = sc_threads s" "sc_stopped v = sc_stopped s" "sc_queue v = rest" by (cases item; simp add: v_def)+
    have "wakes v u" "sc_stopped u = sc_stopped v"
      using raises_wake_one [of v w] raises_signal_one [of v w] by (auto simp: u_def raises_def wakes_same)
    then have u: "sc_threads u ! t = sc_threads s ! t" "length (sc_threads u) = length (sc_threads s)" "\<not> sc_stopped u" "sc_queue u = rest"
      using wakes_thread [of v u t] wakes_length [of v u] t v 3(1) by (simp_all add: mode_of_def wakes_def)
    have fm: "sched_flags (th_set_mode t m u)"
      by (rule flags_thread [OF fu, where t = t and th = "(sc_threads u ! t)\<lparr>th_mode := m\<rparr>"])
        (use t u fu in \<open>cases item; simp add: th_set_mode_def set_thread_def m_def mode_of_def; simp add: sched_flags_def\<close>)+
    show ?thesis
    proof (cases "rest = []")
      case True
      then show ?thesis using fm u by (simp add: r sched_live_def th_set_mode_def set_thread_def)
    next
      case False
      show ?thesis unfolding r
        by (rule live_busy [OF fm, of t]) (use False t u in \<open>cases item; simp add: th_set_mode_def set_thread_def mode_of_def m_def\<close>)+
    qed
  qed
qed

lemma live_thread:
  assumes f: "sched_flags s" and t: "t < length (sc_threads s)" "asleep (mode_of t s) = 0" "sc_task s' \<or> sc_task_interrupted s'"
    and s': "sc_threads s' = (sc_threads s)[t := th]" "sc_waiters s' = sc_waiters s" "active_mode False False (th_mode th)"
      "sc_stopped s' \<Longrightarrow> sc_stopped s" "sc_signalled s' = sc_signalled s" "sc_task_interrupted s \<Longrightarrow> sc_task_interrupted s'"
  shows "sched_live s'"
proof (rule live_busy)
  have "asleep (th_mode th) = 0 \<and> th_mode th \<noteq> Waiting" using s'(3) by (cases "th_mode th") simp_all
  then show "sched_flags s'"
    by (intro flags_thread [OF f t(1) s'(1)]) (use f t s' in \<open>auto simp: sched_flags_def\<close>)
  show "t < length (sc_threads s')" "active_mode False False (mode_of t s')" using t(1) s' by (simp_all add: mode_of_def)
qed

lemma live_work_cleanup:
  assumes f: "sched_flags s" and t: "t < length (sc_threads s)" "mode_of t s = Running h"
  shows "sched_live ((work_cleanup t s)\<lparr>sc_done := d\<rparr>)"
proof -
  let ?i = "set_thread t \<lparr>th_mode = Looking, th_private_work = 0, th_private_queue = []\<rparr> s"
  have l: "sched_live ?i"
    by (rule live_thread [OF f t(1), where th = "\<lparr>th_mode = Looking, th_private_work = 0, th_private_queue = []\<rparr>"]) (use t(2) f in \<open>simp_all add: set_thread_def sched_flags_def\<close>)
  have w: "wakes (?i\<lparr>sc_outstanding := sc_outstanding ?i - 1\<rparr>) (work_finished ?i)" by (rule wakes_work_finished)
  have m: "mode_of t (?i\<lparr>sc_outstanding := k\<rparr>) = Looking" for k using t(1) by (simp add: mode_of_def set_thread_def)
  have wf: "sc_threads (work_finished ?i) ! t = sc_threads ?i ! t" "length (sc_threads (work_finished ?i)) = length (sc_threads s)"
    using wakes_thread [OF w, of t] wakes_length [OF w] t(1) m by (simp_all add: set_thread_def)
  have fw: "sched_flags (work_finished ?i)" using l by (intro flags_work_finished) (simp add: sched_live_def)
  have fi: "sched_flags (push_queue q (?i\<lparr>sc_outstanding := k, sc_done := d\<rparr>))" "sched_flags (push_queue q (?i\<lparr>sc_done := d\<rparr>))"
    "sched_flags (push_queue q ((work_finished ?i)\<lparr>sc_done := d\<rparr>))" for q k
    using l fw by (simp_all add: sched_live_def sched_flags_def push_queue_def)
  have pd: "(push_queue q x)\<lparr>sc_done := d\<rparr> = push_queue q (x\<lparr>sc_done := d\<rparr>)" for q and x :: "'a scheduler"
    by (simp add: push_queue_def)
  have fl: "sched_flags ((work_cleanup t s)\<lparr>sc_done := d\<rparr>)"
    using fi by (simp add: work_cleanup_def Let_def pd)
  have "sc_threads (work_cleanup t s) ! t = sc_threads ?i ! t" "length (sc_threads (work_cleanup t s)) = length (sc_threads s)"
    using wf by (simp_all add: work_cleanup_def Let_def push_queue_def) (simp_all add: set_thread_def)
  then show ?thesis
    by (intro live_busy [OF fl, of t]) (use t(1) in \<open>simp_all add: mode_of_def set_thread_def\<close>)
qed

lemma live_quiet:
  assumes "sched_live s" "sc_threads s' = sc_threads s" "sc_queue s' = sc_queue s" "sc_waiters s' = sc_waiters s" "sc_stopped s' = sc_stopped s"
    "sc_signalled s' = sc_signalled s" "sc_task s' = sc_task s" "sc_task_interrupted s' = sc_task_interrupted s"
  shows "sched_live s'"
  using assms by (simp add: sched_live_def sched_flags_def someone_active_def th_active_def)

lemma flags_quiet:
  assumes "sched_flags s" "sc_threads s' = sc_threads s" "sc_waiters s' = sc_waiters s" "sc_stopped s' = sc_stopped s"
    "sc_signalled s' = sc_signalled s" "sc_task s \<longrightarrow> sc_task s'" "sc_task_interrupted s' = sc_task_interrupted s"
  shows "sched_flags s'"
  using assms by (auto simp: sched_flags_def)

lemma active_other:
  assumes a: "someone_active s" and t: "t < length (sc_threads s)" "\<not> th_active s (sc_threads s ! t)" "mode_of t s \<noteq> Outside"
    and s': "sc_threads s' = (sc_threads s)[t := th]" "sc_signalled s' = sc_signalled s" "sc_task_interrupted s' = sc_task_interrupted s"
  shows "someone_active s'"
proof -
  obtain x where x: "x \<in> set (sc_threads s)" "th_active s x" using a t nth_mem unfolding someone_active_def mode_of_def by blast
  obtain i where i: "i < length (sc_threads s)" "x = sc_threads s ! i" using x(1) by (auto simp: in_set_conv_nth)
  then have "i \<noteq> t" using x(2) t(2) by auto
  then have "x \<in> set (sc_threads s')" using i s'(1) by (auto simp: in_set_conv_nth nth_list_update intro!: exI [of _ i])
  moreover have "th_active s' x" using x(2) s' by (simp add: th_active_def)
  ultimately show ?thesis by (auto simp: someone_active_def)
qed

lemma flags_push_private:
  assumes "sched_flags s" "t < length (sc_threads s)"
  shows "sched_flags (push_private t xs n s)" "mode_of t (push_private t xs n s) = mode_of t s" "length (sc_threads (push_private t xs n s)) = length (sc_threads s)"
proof -
  have k: "sc_stopped s \<Longrightarrow> mode_of t s \<noteq> Waiting" using assms by (simp add: sched_flags_def mode_of_def)
  show "sched_flags (push_private t xs n s)"
    by (rule flags_thread [OF assms, where th = "(sc_threads s ! t)\<lparr>th_private_queue := th_private_queue (sc_threads s ! t) @ xs,
      th_private_work := th_private_work (sc_threads s ! t) + n\<rparr>"])
      (use k assms(1) in \<open>auto simp: push_private_def set_thread_def mode_of_def sched_flags_def\<close>)
qed (use assms in \<open>simp_all add: push_private_def set_thread_def mode_of_def\<close>)

lemma flags_post_deferred:
  assumes "sched_flags s" "t < length (sc_threads s)" "mode_of t s \<noteq> Waiting"
    and u: "u = post_deferred_completions (Some t) ops w s"
  shows "sched_flags u" "mode_of t u = mode_of t s" "length (sc_threads u) = length (sc_threads s)"
proof -
  let ?p = "push_queue ops s"
  have "sched_flags ?p" by (rule flags_quiet [OF assms(1)]) (simp_all add: push_queue_def)
  then have "sched_flags (wake_one_thread w ?p)" by (rule flags_raises [OF raises_wake_one])
  moreover have "mode_of t (wake_one_thread w ?p) = mode_of t s" "length (sc_threads (wake_one_thread w ?p)) = length (sc_threads s)"
    using wakes_thread [OF wakes_wake_one [of ?p w], of t] wakes_length [OF wakes_wake_one [of ?p w]] assms(2,3)
    by (simp_all add: push_queue_def mode_of_def)
  ultimately show "sched_flags u" "mode_of t u = mode_of t s" "length (sc_threads u) = length (sc_threads s)"
    using flags_push_private [OF assms(1,2), of ops 0] assms(1) by (simp_all add: u post_deferred_completions_def)
qed

lemma live_step:
  assumes l: "sched_live s" and b: "sched_books s" and e: "sched_enabled s ev"
  shows "sched_live (sched_step ev s)"
proof -
  have f: "sched_flags s" and k: "sc_task s \<or> sc_task_interrupted s" using l by (simp_all add: sched_live_def sched_flags_def)
  have wake: "sched_live (wake_one_thread w s')" if "signal_ok w s" "sched_books s'" "sched_flags s'" "sc_threads s' = sc_threads s" for w s'
    by (rule live_wake_one) (use that in \<open>simp_all add: signal_ok_def mode_of_def\<close>)
  have priv: "sched_live (push_private t xs n s')" if "sched_flags s'" "t < length (sc_threads s')" "th_inside (mode_of t s')" for t xs n s'
  proof (rule live_busy [of _ t])
    show "active_mode False False (mode_of t (push_private t xs n s'))"
      using flags_push_private(2) [OF that(1,2)] inside_running [OF that(3)] by auto
  qed (use flags_push_private [OF that(1,2)] that in simp_all)
  show ?thesis
  proof (cases ev)
    case (EnterRun t)
    have "sched_live (set_thread t \<lparr>th_mode = Looking, th_private_work = 0, th_private_queue = []\<rparr> s)"
      by (rule live_thread [OF f, where th = "\<lparr>th_mode = Looking, th_private_work = 0, th_private_queue = []\<rparr>"])
        (use e k in \<open>simp_all add: EnterRun set_thread_def\<close>)
    then show ?thesis using flags_stop [OF f] by (simp add: EnterRun enter_run_def)
  next
    case (RunOne t w)
    show ?thesis unfolding RunOne sched_step.simps by (rule live_run_one [OF l b]) (use e in \<open>simp_all add: RunOne\<close>)
  next
    case (SpuriousWakeup t)
    then have t: "t < length (sc_threads s)" "mode_of t s = Waiting" using e by simp_all
    let ?r = "th_set_mode t Woken s"
    have w: "wakes s ?r" using woken_update [OF t(1)] t(2) by (simp add: wakes_def th_set_mode_def set_thread_def mode_of_def)
    then have "raises s ?r" by (simp add: raises_def th_set_mode_def set_thread_def)
    then have "sched_flags ?r" using f by (rule flags_raises)
    moreover have "someone_active ?r" if "someone_active s"
      by (rule active_other [OF that t(1)]) (use t in \<open>simp_all add: th_active_def mode_of_def th_set_mode_def set_thread_def\<close>)
    ultimately show ?thesis using l by (simp add: SpuriousWakeup sched_live_def) (simp add: th_set_mode_def set_thread_def)
  next
    case (ReturnFromWait t)
    then have t: "t < length (sc_threads s)" "mode_of t s = Woken" using e by simp_all
    have waiting: "sc_waiters s > 0"
    proof -
      have "asleep (th_mode (sc_threads s ! t)) \<le> sum_list (map (\<lambda>th. asleep (th_mode th)) (sc_threads s))"
      proof (rule sum_ge [where f = "\<lambda>th. asleep (th_mode th)"])
        show "0 \<le> asleep (th_mode x)" for x :: "'a sched_thread" by (cases "th_mode x") simp_all
      qed (use t(1) in simp)
      then show ?thesis using f t(2) by (simp add: sched_flags_def mode_of_def)
    qed
    show ?thesis
    proof (cases "sc_signalled s")
      case True
      let ?r = "th_set_mode t Looking (s\<lparr>sc_waiters := sc_waiters s - 1\<rparr>)"
      have "sched_flags ?r"
        by (intro flags_thread [OF f t(1), where th = "(sc_threads s ! t)\<lparr>th_mode := Looking\<rparr>"])
          (use t f k waiting in \<open>simp_all add: th_set_mode_def set_thread_def sched_flags_def of_nat_diff\<close>)
      then have "sched_live ?r" by (rule live_busy [where t = t]) (use t(1) in \<open>simp_all add: th_set_mode_def set_thread_def mode_of_def\<close>)
      then show ?thesis using True by (simp add: ReturnFromWait event_woken_def event_wait_def)
    next
      case False
      let ?r = "th_set_mode t Waiting (s\<lparr>sc_waiters := sc_waiters s - 1 + 1\<rparr>)"
      have "\<not> sc_stopped s" using f False by (auto simp: sched_flags_def)
      then have "sched_flags ?r"
        by (intro flags_thread [OF f t(1), where th = "(sc_threads s ! t)\<lparr>th_mode := Waiting\<rparr>"])
          (use t k waiting in \<open>simp_all add: th_set_mode_def set_thread_def\<close>)
      moreover have "someone_active ?r" if "someone_active s"
        by (rule active_other [OF that t(1), where th = "(sc_threads s ! t)\<lparr>th_mode := Waiting\<rparr>"])
          (use t False in \<open>simp_all add: th_active_def mode_of_def th_set_mode_def set_thread_def\<close>)
      ultimately have "sched_live ?r" using l by (simp add: sched_live_def) (simp add: th_set_mode_def set_thread_def)
      then show ?thesis using False by (simp add: ReturnFromWait event_woken_def event_wait_def)
    qed
  next
    case (TaskDone t ops)
    then have t: "t < length (sc_threads s)" "asleep (mode_of t s) = 0" using e by auto
    show ?thesis unfolding TaskDone
      by (rule live_thread [OF f t, where th = "\<lparr>th_mode = Looking, th_private_work = 0, th_private_queue = []\<rparr>"])
        (simp_all add: task_cleanup_def from_elsewhere_def push_queue_def set_thread_def Let_def split: if_split_asm)
  next
    case (PerformedIo t hs w)
    then have t: "t < length (sc_threads s)" "mode_of t s = InDescriptor" using e by simp_all
    show ?thesis
    proof (cases hs)
      case Nil
      show ?thesis unfolding PerformedIo
        by (rule live_thread [OF f t(1), where th = "(sc_threads s ! t)\<lparr>th_mode := Running None\<rparr>"])
          (use t k in \<open>simp_all add: Nil performed_io_def from_elsewhere_def work_started_def th_set_mode_def set_thread_def\<close>)
    next
      case (Cons h rest)
      let ?u = "post_deferred_completions (Some t) (map Op rest) w (from_elsewhere hs s)"
      have fe: "sched_flags (from_elsewhere hs s)" by (rule flags_quiet [OF f]) (simp_all add: from_elsewhere_def)
      have "mode_of t (from_elsewhere hs s) = InDescriptor" "t < length (sc_threads (from_elsewhere hs s))"
        using t by (simp_all add: from_elsewhere_def mode_of_def)
      note u = flags_post_deferred [OF fe this(2), of ?u "map Op rest" w] this
      have "sched_live (th_set_mode t (Running (Some h)) ?u)"
        by (rule live_thread [OF u(1), where t = t and th = "(sc_threads ?u ! t)\<lparr>th_mode := Running (Some h)\<rparr>"])
          (use u u(1) in \<open>auto simp: th_set_mode_def set_thread_def sched_flags_def\<close>)
      then show ?thesis by (simp add: PerformedIo performed_io_def Cons)
    qed
  next
    case (HandlerDone t)
    then obtain h where t: "t < length (sc_threads s)" "mode_of t s = Running h" using e by auto
    show ?thesis unfolding HandlerDone sched_step.simps by (rule live_work_cleanup [OF f t])
  next
    case (Post caller ic h w)
    let ?s = "s\<lparr>sc_given := sc_given s @ [h]\<rparr>"
    have fs: "sched_flags ?s" by (rule flags_quiet [OF f]) simp_all
    have "sched_live (wake_one_thread w (push_queue [Op h] (work_started ?s)))"
      by (rule wake) (use e books_pushed(1) [OF b] in \<open>simp_all add: Post push_queue_def work_started_def flags_quiet [OF f]\<close>)
    moreover have "sched_live (push_private t [Op h] 1 ?s)" if "caller = Some t" for t
      by (rule priv [OF fs]) (use e that in \<open>auto simp: Post mode_of_def\<close>)
    ultimately show ?thesis by (cases caller) (simp_all add: Post post_immediate_completion_def)
  next
    case (Dispatch h w)
    have "sched_live (wake_one_thread w (push_queue [Op h] (work_started (s\<lparr>sc_given := sc_given s @ [h]\<rparr>))))"
      by (rule wake) (use e books_pushed(1) [OF b] in \<open>simp_all add: Dispatch push_queue_def work_started_def flags_quiet [OF f]\<close>)
    then show ?thesis by (simp add: Dispatch do_dispatch_def)
  next
    case (PostDeferred caller hs w)
    let ?s = "from_elsewhere hs s"
    have fs: "sched_flags ?s" by (rule flags_quiet [OF f]) (simp_all add: from_elsewhere_def)
    have "sched_live (wake_one_thread w (push_queue (map Op hs) ?s))"
      by (rule wake) (use e books_pushed(2) [OF b] in \<open>simp_all add: PostDeferred push_queue_def from_elsewhere_def flags_quiet [OF f]\<close>)
    moreover have "sched_live (push_private t (map Op hs) 0 ?s)" if "caller = Some t" for t
      by (rule priv [OF fs]) (use e that in \<open>auto simp: PostDeferred mode_of_def from_elsewhere_def\<close>)
    moreover have "sched_live ?s" by (rule live_quiet [OF l]) (simp_all add: from_elsewhere_def)
    ultimately show ?thesis by (cases caller; cases "hs = []") (simp_all add: PostDeferred post_deferred_completions_def)
  next
    case StartWork
    show ?thesis by (rule live_quiet [OF l]) (simp_all add: StartWork work_started_def)
  next
    case FinishWork
    let ?e = "s\<lparr>sc_elsewhere := sc_elsewhere s - 1\<rparr>"
    let ?s = "?e\<lparr>sc_outstanding := sc_outstanding ?e - 1\<rparr>"
    have l': "sched_live ?s" by (rule live_quiet [OF l]) simp_all
    then have "sched_live (stop_all_threads ?s)" by (intro flags_stop) (simp only: sched_live_def)
    moreover have "work_finished ?e = (if sc_outstanding ?s = 0 then stop_all_threads ?s else ?s)" by (simp only: work_finished_def Let_def)
    ultimately have "sched_live (work_finished ?e)" using l' by metis
    then show ?thesis by (simp only: FinishWork sched_step.simps)
  next
    case Stop
    show ?thesis using flags_stop [OF f] by (simp add: Stop)
  next
    case Reset
    then show ?thesis using l e by (auto simp: sched_live_def sched_flags_def someone_active_def reset_def)
  next
    case (InitTask w)
    have "sched_live (wake_one_thread w (push_queue [Task] (s\<lparr>sc_task := True\<rparr>)))" if "\<not> sc_task s"
      by (rule wake) (use e that books_pushed(3) [OF b] in \<open>simp_all add: InitTask push_queue_def flags_quiet [OF f]\<close>)
    then show ?thesis using l by (simp add: InitTask init_task_def)
  qed
qed

lemma live_reach: "sched_reach hint n s \<Longrightarrow> sched_live s"
proof (induction rule: sched_reach.induct)
  case sc_new
  show ?case by (simp add: sched_live_def sched_flags_def new_scheduler_def fresh_thread_def sum_list_replicate someone_active_def)
next
  case (sc_step s ev)
  show ?case by (rule live_step [OF sc_step.IH sched_books_reach [OF sc_step.hyps(1)] sc_step.hyps(2)])
qed

subsection \<open>What is left\<close>

text \<open>The handlers that have not run: in the queue, in the private queues and in the calls.\<close>

definition handlers_left :: "'h scheduler \<Rightarrow> 'h list" where
  "handlers_left s = handlers_of (sc_queue s)
     @ concat (map (\<lambda>th. handlers_of (th_private_queue th) @ handler_of (th_mode th)) (sc_threads s))"

text \<open>The calls of handlers in progress, \<open>Running None\<close> included.\<close>

definition calls :: "'h scheduler \<Rightarrow> nat" where
  "calls s = length (filter (\<lambda>th. is_running (th_mode th) = 1) (sc_threads s))"

definition threads_in_task :: "'h scheduler \<Rightarrow> nat" where
  "threads_in_task s = length (filter (\<lambda>th. in_task (th_mode th) = 1) (sc_threads s))"

lemma handlers_left_count: "int (count (mset (handlers_left s)) x) = sched_weight (is_handler x) (handler_units x) s"
proof -
  have "int (count (mset (concat (map (\<lambda>th. handlers_of (th_private_queue th) @ handler_of (th_mode th)) ths))) x)
      = sum_list (map (handler_units x) ths)" for ths :: "'a sched_thread list"
    by (induction ths) (simp_all add: handler_units_def)
  then show ?thesis by (simp add: handlers_left_def sched_weight_def handlers_sum)
qed

lemma filter_count: "(\<And>x. f x = 0 \<or> f x = (1 :: int)) \<Longrightarrow> int (length (filter (\<lambda>x. f x = 1) xs)) = sum_list (map f xs)"
proof (induction xs)
  case (Cons x xs)
  then show ?case using Cons.prems [of x] by auto
qed simp

lemma one_task: "sched_books s \<Longrightarrow> threads_in_task s \<le> 1"
proof -
  assume b: "sched_books s"
  have "in_task m = 0 \<or> in_task m = 1" for m :: "'a thread_mode" by (cases m) simp_all
  then have "int (threads_in_task s) = sum_list (map (\<lambda>th. in_task (th_mode th)) (sc_threads s))"
    unfolding threads_in_task_def by (intro filter_count) blast
  also have "\<dots> \<le> sum_list (map task_units (sc_threads s))"
    by (rule sum_list_mono) (simp add: task_units_def conjunct1 [OF sum_nonneg])
  also have "\<dots> \<le> sched_weight is_task task_units s"
    using conjunct1 [OF sum_nonneg [of "sc_queue s" is_task]] by (simp add: sched_weight_def)
  also have "\<dots> \<le> 1" using b by (simp add: sched_books_def)
  finally show ?thesis by simp
qed

lemma nothing_left:
  assumes b: "sched_books s"
  shows "sc_outstanding s = 0 \<longleftrightarrow> sc_elsewhere s = 0 \<and> handlers_left s = [] \<and> calls s = 0"
proof -
  have ok: "thread_ok th" if "th \<in> set (sc_threads s)" for th using b that by (simp add: sched_books_def)
  then have u: "0 \<le> sum_list (map op_units (sc_threads s))"
      "sum_list (map op_units (sc_threads s)) = 0 \<longleftrightarrow> (\<forall>th \<in> set (sc_threads s). is_running (th_mode th) = 0)"
    using sum_nonneg [of "sc_threads s" op_units] op_units_idle by auto
  have c: "calls s = 0 \<longleftrightarrow> (\<forall>th \<in> set (sc_threads s). is_running (th_mode th) = 0)"
  proof -
    have "is_running m = 1 \<longleftrightarrow> is_running m \<noteq> 0" for m :: "'a thread_mode" by (cases m) simp_all
    then show ?thesis by (auto simp: calls_def filter_empty_conv)
  qed
  have h: "handlers_of (th_private_queue th) = [] \<and> handler_of (th_mode th) = []" if "th \<in> set (sc_threads s)" "is_running (th_mode th) = 0" for th
    using ok [OF that(1)] that(2) by (cases "th_mode th") (simp_all add: thread_ok_def)
  have "sc_outstanding s = int (sc_elsewhere s) + int (length (handlers_of (sc_queue s))) + sum_list (map op_units (sc_threads s))"
    using b by (simp add: sched_books_def sched_weight_def ops_sum)
  then have "sc_outstanding s = 0 \<longleftrightarrow> sc_elsewhere s = 0 \<and> handlers_of (sc_queue s) = [] \<and> sum_list (map op_units (sc_threads s)) = 0"
    using u(1) length_0_conv [of "handlers_of (sc_queue s)"] by linarith
  then show ?thesis unfolding u(2) c handlers_left_def using h by (auto simp: concat_eq_Nil_conv)
qed

text \<open>C10: in every run of the \<open>io_service\<close>, with any number of threads, every handler that was given
  to it has run exactly once or is left in a queue or a call; the count of outstanding work is 0 just
  when no operation waits elsewhere, no handler is left and none runs, so that the service stops when
  and only when there is nothing to do; and one thread at most is in the reactor.\<close>

theorem scheduler_books:
  assumes "sched_reach hint n s"
  shows "mset (sc_given s) = mset (sc_done s) + mset (handlers_left s)
    \<and> (sc_outstanding s = 0 \<longleftrightarrow> sc_elsewhere s = 0 \<and> handlers_left s = [] \<and> calls s = 0)
    \<and> threads_in_task s \<le> 1"
proof (intro conjI)
  have b: "sched_books s" by (rule sched_books_reach [OF assms])
  have "int (count (mset (sc_given s)) x) = int (count (mset (sc_done s) + mset (handlers_left s)) x)" for x
    using b handlers_left_count [of s x] unfolding sched_books_def by (metis add.commute count_union of_nat_add)
  then show "mset (sc_given s) = mset (sc_done s) + mset (handlers_left s)" by (intro multiset_eqI) (simp only: of_nat_eq_iff)
  show "sc_outstanding s = 0 \<longleftrightarrow> sc_elsewhere s = 0 \<and> handlers_left s = [] \<and> calls s = 0" by (rule nothing_left [OF b])
  show "threads_in_task s \<le> 1" by (rule one_task [OF b])
qed

text \<open>Two threads: the first goes to sleep, the second runs a handler, which posts another one.\<close>

definition demo_scheduler :: "nat scheduler" where
  "demo_scheduler = fold sched_step
     [StartWork, EnterRun 0, RunOne 0 0, EnterRun 1, Post None False 7 0, RunOne 1 0, Post (Some 1) False 8 0]
     (new_scheduler 2 2)"

lemma signal_ok_iff: "signal_ok w s \<longleftrightarrow>
    (Waiting \<in> set (map th_mode (sc_threads s)) \<longrightarrow> w < length (sc_threads s) \<and> mode_of w s = Waiting)"
proof -
  have "Waiting \<in> set (map th_mode (sc_threads s)) \<longleftrightarrow> (\<exists>t < length (sc_threads s). mode_of t s = Waiting)"
    by (simp only: in_set_conv_nth) (auto simp: mode_of_def)
  then show ?thesis by (simp only: signal_ok_def)
qed

lemmas sched_defs = new_scheduler_def fresh_thread_def work_started_def enter_run_def do_run_one_def event_wait_def
  post_immediate_completion_def wake_one_thread_def maybe_unlock_and_signal_one_def cond_signal_def push_queue_def
  th_set_mode_def set_thread_def mode_of_def interrupt_task_def Let_def signal_ok_iff numeral_2_eq_2

lemma demo_scheduler_value: "demo_scheduler = \<lparr>sc_queue = [Op 8], sc_outstanding = 3, sc_stopped = False, sc_task = False,
    sc_task_interrupted = True, sc_signalled = True, sc_waiters = 1,
    sc_threads = [\<lparr>th_mode = Woken, th_private_work = 0, th_private_queue = []\<rparr>, \<lparr>th_mode = Running (Some 7), th_private_work = 0, th_private_queue = []\<rparr>],
    sc_one_thread = False, sc_elsewhere = 1, sc_given = [7, 8], sc_done = []\<rparr>"
  by (simp add: demo_scheduler_def sched_defs)

lemma demo_scheduler_reach: "sched_reach 2 2 demo_scheduler"
  unfolding demo_scheduler_def fold_simps
  by (intro sc_step sc_new) (simp_all add: sched_defs)

theorem scheduler_books_witness:
  "mset [7, 8 :: nat] = mset (handlers_left demo_scheduler) \<and> calls demo_scheduler = 1 \<and> sc_outstanding demo_scheduler \<noteq> 0"
  using scheduler_books [OF demo_scheduler_reach] by (simp add: demo_scheduler_value calls_def)

text \<open>C11: threads never all sleep while there is something to run.  In every run, when the queue is not
  empty and a thread is in \<open>run\<close>, some thread is active: it will look at the queue without another
  signal, and a thread that looks takes the front of the queue.  After a stop every thread is active,
  and leaves at its next look.\<close>

theorem no_idle_deadlock:
  assumes "sched_reach hint n s" "sc_queue s \<noteq> [] \<or> sc_stopped s" "t < length (sc_threads s)" "mode_of t s \<noteq> Outside"
  shows "(\<exists>th \<in> set (sc_threads s). th_active s th)
    \<and> (sc_stopped s \<longrightarrow> th_active s (sc_threads s ! t))
    \<and> (mode_of t s = Woken \<and> th_active s (sc_threads s ! t) \<longrightarrow> mode_of t (sched_step (ReturnFromWait t) s) = Looking)
    \<and> (mode_of t s = Looking \<longrightarrow> (if sc_stopped s then mode_of t (do_run_one t w s) = Outside
         else sc_queue s = hd (sc_queue s) # sc_queue (do_run_one t w s)))"
proof -
  have l: "sched_live s" by (rule live_reach [OF assms(1)])
  have stop: "th_active s (sc_threads s ! t)" if "sc_stopped s"
    using l that assms(3,4) nth_mem [OF assms(3)]
    by (cases "mode_of t s") (auto simp: sched_live_def sched_flags_def th_active_def mode_of_def)
  moreover have "\<exists>th \<in> set (sc_threads s). th_active s th"
  proof (cases "sc_stopped s")
    case True
    then show ?thesis using stop nth_mem [OF assms(3)] by blast
  next
    case False
    then have "someone_active s" using l assms(2) by (simp add: sched_live_def)
    then show ?thesis using assms(3,4) by (auto simp: someone_active_def mode_of_def)
  qed
  moreover have "mode_of t (sched_step (ReturnFromWait t) s) = Looking" if "mode_of t s = Woken" "th_active s (sc_threads s ! t)"
    using that assms(3) by (simp add: th_active_def mode_of_def event_woken_def event_wait_def th_set_mode_def set_thread_def)
  moreover have "mode_of t (do_run_one t w s) = Outside" if "sc_stopped s"
    using that assms(3) by (simp add: do_run_one_def mode_of_def th_set_mode_def set_thread_def)
  moreover have "sc_queue s = hd (sc_queue s) # sc_queue (do_run_one t w s)" if ns: "\<not> sc_stopped s"
  proof -
    obtain item rest where q: "sc_queue s = item # rest" using assms(2) ns by (cases "sc_queue s") auto
    have "sc_queue (wake_one_thread w x) = sc_queue x" "sc_queue (unlock_and_signal_one w x) = sc_queue x" for x :: "'a scheduler"
      using wakes_wake_one [of x w] wakes_signal_one [of x w] by (simp_all add: wakes_def)
    then show ?thesis using ns by (cases item) (simp_all add: do_run_one_def q Let_def th_set_mode_def set_thread_def)
  qed
  ultimately show ?thesis by simp
qed

theorem no_idle_deadlock_witness:
  "mode_of 0 demo_scheduler = Woken \<and> mode_of 0 (sched_step (ReturnFromWait 0) demo_scheduler) = Looking"
proof -
  have m: "mode_of 0 demo_scheduler = Woken" "th_active demo_scheduler (sc_threads demo_scheduler ! 0)"
    by (simp_all add: demo_scheduler_value mode_of_def th_active_def)
  show ?thesis using no_idle_deadlock [OF demo_scheduler_reach, of 0] m by (simp add: demo_scheduler_value)
qed

end
