(* ===== verification/Spec2Isabelle.thy ===== *)
theory Spec2Isabelle
  imports Protocol Link NetServer_Props NetClient_Props Config RelayProps AgentProps FlowRace EndToEnd UserStream XmlInPlace BufferPool XmlDom XmlClone XmlPool
    Program OpQueue Strand DeadlineTimer TimerReactor DescriptorPool HandlerMemory AsyncTransfer
    SocketService Resolver Scheduler
begin

text \<open>
  r-nat: a relay (\<^verbatim>\<open>src/r-nat-s\<close>) and an agent (\<^verbatim>\<open>src/r-nat-c\<close>) that publish services
  behind a NAT.  The agent keeps framed TCP connections (tunnels) to the relay and asks it with BIND to
  listen on ports.  The relay accepts users on those ports, picks an agent for each (by the address of
  the user or in turn), announces the user with CONNECT and carries the bytes of both directions in DATA
  packets.  The agent connects to the local service for every announced user, and opens a session
  connection to the relay of its own for the data it sends up.  Both programs throttle each direction of
  a session with a counter and a corked flag.

  \<^bold>\<open>Foundations.\<close>  \<^verbatim>\<open>Prelude\<close>: words of the widths of the code, results with exceptions as
  values, the byte codecs of a little-endian host.  \<^verbatim>\<open>Containers\<close>: \<open>std::map\<close> and \<open>std::set\<close>
  in iteration order, with the contract \<open>fmap_table\<close>.  \<^verbatim>\<open>FlowGate\<close>: the contract of the
  corked flags, met by three pairs of counters of the two programs.  \<^verbatim>\<open>FlowRace\<close>: the same pair
  statement by statement, under the threads that run it: what holds in every interleaving, and the run
  in which a resumption overtakes its stop.

  \<^bold>\<open>Wire.\<close>  \<^verbatim>\<open>Protocol\<close> models \<^verbatim>\<open>include/protocol.h\<close> and the parse of both receivers;
  its lemmas are the round trips.  \<^verbatim>\<open>Connection\<close> models \<^verbatim>\<open>network/tcpconnection.hpp\<close> and
  \<^verbatim>\<open>rawtcpconnection.hpp\<close>, one definition per member function, and the requests made of asio as a
  log; \<^verbatim>\<open>Connection_Props\<close> proves over every order of its handlers that the end is announced once,
  that Close silences it and that completions keep their order.  \<^verbatim>\<open>Link\<close> joins a sending and a
  receiving connection by a byte stream that delivers in arbitrary chunks: safety (the receiver gets a
  prefix of the submitted packets, whole and in order) and completion (the handlers that have been asked
  for, a posted \<open>__DoRecv\<close> among them, finish the rest).

  \<^bold>\<open>Servers and clients.\<close>  \<^verbatim>\<open>NetServer\<close>, \<^verbatim>\<open>NetServer_Props\<close> (\<^verbatim>\<open>r-nat-s/network/tcpserver.*\<close>
  and its raw twin, over a record of the methods of the connection class) and \<^verbatim>\<open>NetClient\<close>,
  \<^verbatim>\<open>NetClient_Props\<close> (\<^verbatim>\<open>r-nat-c/network/tcpclient.*\<close> and its raw twin): the table of connections
  and what each event does to it, fresh sequence numbers, queueing until connected, connect timeout.
  Connections name their server entry by its number; a number that comes back after \<open>2 ^ 32\<close> accepts is
  not followed into the applications.

  \<^bold>\<open>Relay.\<close>  \<^verbatim>\<open>RelayApp\<close> models \<^verbatim>\<open>r-nat-s/app1\<close> handler by handler.  \<^verbatim>\<open>RelayInv\<close> proves
  that the binding tables refine a set of pairs (port, agent), \<^verbatim>\<open>RelaySessions\<close> the invariant of the
  sessions, \<^verbatim>\<open>RelayProps\<close> what holds in every state reached from a successful Init and Start.

  \<^bold>\<open>Agent.\<close>  \<^verbatim>\<open>AgentApp\<close> models \<^verbatim>\<open>r-nat-c/app1\<close>.  \<^verbatim>\<open>AgentInv\<close> holds the invariant (every
  client a handler calls is started), \<^verbatim>\<open>AgentReach\<close> that every handler runs to its end and keeps
  it, \<^verbatim>\<open>AgentProps\<close> what follows for every run.  \<^verbatim>\<open>EndToEnd\<close> composes the two programs: what
  one sends for a user is what the handler of the other makes of the same bytes.  \<^verbatim>\<open>UserStream\<close>
  follows the whole stream of a user through the handlers of the relay, the strand of its server (which
  drops what is posted to a connection it no longer has), the framed connection of \<^verbatim>\<open>Link\<close> and the
  handlers of the agent, in any interleaving.

  \<^bold>\<open>Buffers.\<close>  \<^verbatim>\<open>IoBuffer\<close> models \<open>asio::basic_streambuf\<close>, the type every packet is kept in, and
  proves it a queue of bytes; \<^verbatim>\<open>BufferPool\<close> models \<open>__CreateIoBuffer\<close> and its deleter.  They
  justify that all other theories take a buffer to be the list of its bytes.

  \<^bold>\<open>Configuration.\<close>  \<^verbatim>\<open>Config\<close> models \<^verbatim>\<open>stdafx.h\<close>, \<^verbatim>\<open>config.h\<close>, \<^verbatim>\<open>config.cpp\<close> and
  \<^verbatim>\<open>deps/common/xmlserializer.h\<close> over a parameter for the XML parser.  \<^verbatim>\<open>ConfigFile\<close> gives it
  the parser of \<^verbatim>\<open>deps/rapidxml\<close>, from the characters of a file to the settings.
  \<^verbatim>\<open>XmlTables\<close>, \<^verbatim>\<open>RapidXml\<close>, \<^verbatim>\<open>RapidXml_Props\<close>: the lookup tables and the parser
  for every combination of flags, its bounds and its termination.  \<^verbatim>\<open>XmlInPlace\<close>: the loop that
  expands references in the buffer it reads.  \<^verbatim>\<open>XmlPrint\<close>, \<^verbatim>\<open>XmlRoundtrip\<close>: the printer and
  the round trip, in which data of white space alone is lost.  \<^verbatim>\<open>XmlLinks\<close>, \<^verbatim>\<open>XmlDom\<close>: the linked nodes and attributes, refining the lists
  the parser theory uses.  \<^verbatim>\<open>XmlClone\<close>: the copying of trees, the allocation of nodes and
  strings, counts and iterators.  \<^verbatim>\<open>XmlPool\<close>: the memory pool.

  \<^bold>\<open>Programs.\<close>  \<^verbatim>\<open>Program\<close> models \<open>main\<close> and \<open>MyService::OnRuning\<close> of both programs, from
  the command line to the running threads, or to the exit code or abnormal end, and proves that a
  printed configuration boots them.

  \<^bold>\<open>asio.\<close>  What the programs rest on most in the vendored library
  \<^verbatim>\<open>deps/asio/1.10.6/include/asio/detail\<close>: \<^verbatim>\<open>OpQueue\<close>, the linked queues of operations, refining
  lists; \<^verbatim>\<open>Strand\<close>, the strand service run by any number of threads, which shows the handlers of a
  strand to be exclusive and in order, as \<^verbatim>\<open>Connection\<close> and the applications take them to be;
  \<^verbatim>\<open>TimerQueue\<close> and \<^verbatim>\<open>TimerQueue_Props\<close>, the heap and list of timers, refining a priority queue;
  \<^verbatim>\<open>DeadlineTimer\<close>, the timers of the connect timeout and the reconnects on top of it;
  \<^verbatim>\<open>TimerReactor\<close>, the set of queues and the timerfd of the reactor, by which no timer is forgotten;
  \<^verbatim>\<open>Scheduler\<close>, the \<open>io_service\<close> run by any number of threads: every handler runs once, the count
  of work is exact, and threads do not sleep over a full queue; \<^verbatim>\<open>Reactor\<close>, a descriptor with the
  kernel's edge-triggered events: operations finish in order and no wake-up is lost;
  \<^verbatim>\<open>DescriptorPool\<close>, all descriptors with the pool their states come from; \<^verbatim>\<open>HandlerMemory\<close>, the blocks
  the operations live in and each thread uses again, never touched out of bounds; \<^verbatim>\<open>SocketOps\<close> and
  \<^verbatim>\<open>SocketService\<close>, the system calls on a socket with the answers of Linux, and the socket on top of
  the reactor, every step of which is at most one step of the reactor, with the modes the program may set
  while operations wait; \<^verbatim>\<open>Resolver\<close>, what
  the programs collect for a name, and the service that resolves in its own thread; \<^verbatim>\<open>Buffers\<close>,
  regions of memory and the copies between sequences of them; \<^verbatim>\<open>AsyncTransfer\<close>, the composed
  \<open>async_write\<close> and \<open>async_read\<close>, whose three implementations are one function of the flattened buffers
  (the locale \<open>composed_op\<close>), and which move exactly the bytes of a packet, as \<^verbatim>\<open>Link\<close> takes
  them to do.

  \<^bold>\<open>Effects.\<close>  State is passed explicitly.  Objects that the code shares live in stores by address.
  What an operation asks of asio or of a strand is appended to a log (\<open>io\<close>, \<open>srv_out\<close>); step
  relations run the handlers in any order the strands allow, and a handler is atomic, as a strand makes
  it.  The completion closures of sends are the exception: connections post them past the strand, to the
  \<open>io_service\<close> itself.  The models of the two programs run each as one step between handlers, which is one
  of the schedules of the program; what the flow control keeps under the others is in \<^verbatim>\<open>FlowRace\<close>.
  Exceptions are values, so a handler that would throw is a branch and not an omission.  What the
  operating system answers (open, bind, listen, accept, connect, resolve, random numbers) is a parameter
  of the operation that asks.

  \<^bold>\<open>Bounds and fuel.\<close>  The search of a free sequence number runs as a partial function, and
  \<open>accept_fresh\<close> proves that it returns while fewer than \<open>2 ^ 32\<close> connections are open.  The
  parser recurses on fuel \<open>2 * n + 2\<close> for a text of \<open>n\<close> characters: every nested call consumes a
  character, and \<open>xml_parse_ends\<close> shows that it never runs out.  \<open>Underrun\<close> is the
  one undefined behaviour the parser is modelled with: trimming without normalising walks back past the
  start of a value that its references leave blank.  The in-place loop gets one more than
  the length of the buffer, the loops over lists of nodes the length of the list, \<open>clone_node\<close>
  the number of nodes and attributes (\<open>clone_fuel\<close>).  Stream buffers are
  below 2 GiB, since \<open>pbump\<close> takes an \<open>int\<close>; packets are bounded by the configured maximum.

  \<^bold>\<open>Not modelled.\<close>  \<open>OnStop\<close>, which nothing calls; the output of \<open>main\<close>; logging, whose macros
  expand to nothing; the Windows branches; \<open>getaddrinfo\<close>, whose answers are a parameter; the
  datagrams of asio; locks outside \<^verbatim>\<open>Strand\<close> and \<^verbatim>\<open>Scheduler\<close>,
  since every operation under one is atomic here; the polling and the shutdown of the \<open>io_service\<close> and
  exceptions that leave its handlers; the synchronous reads and writes of asio.
  Of rapidxml: the file helpers, and the postfix operators of the iterators, which do not compile.
  Terminators the parser writes behind names and values change text that is already read; the values
  are modelled without them.
\<close>

end
